(* ===== verification/KBase.thy ===== *)
theory KBase
  imports "HOL-Library.Word"
begin

unbundle bit_operations_syntax

text \<open>
  Prelude of the EAFITos (xv6-riscv) development: the machine integer types, the result
  type of kernel code that can panic or block, little-endian loads and stores on a
  byte-addressed store, and the generic lemmas and rule collections the component
  theories share.

  \<^item> \<open>kres_simps\<close> inverts successful runs of chained operations (\<open>kbind\<close>).
  \<^item> \<open>peek\<close> and \<open>poke\<close> read and write consecutive bytes; they work on physical memory
    (addresses of type \<open>u64\<close>) and on disk blocks (offsets of type \<open>nat\<close>) alike.
\<close>

section \<open>Machine integers\<close>

type_synonym byte = "8 word"
type_synonym u16 = "16 word"
type_synonym u32 = "32 word"
type_synonym u64 = "64 word"

type_synonym mem = "u64 \<Rightarrow> byte"
type_synonym block = "nat \<Rightarrow> byte"

section \<open>Results of kernel code\<close>

text \<open>
  Kernel code either returns, or stops: it panics with a message, or it gives up the CPU
  on a wait channel and is resumed later by a wakeup, or it never ends. The last one is
  the result of an unbounded loop (a \<open>partial_function\<close>) that has no result.
\<close>

datatype chan =
    ChProc nat
  | ChTicks
  | ChLog
  | ChPipeRead u64
  | ChPipeWrite u64
  | ChConsRead
  | ChTx
  | ChBuf nat
  | ChBufLock nat
  | ChInodeLock nat
  | ChDiskFree

datatype stop = Panic string | Sleep chan | Diverge

type_synonym 'a kres = "stop + 'a"

definition kbind :: "'a kres \<Rightarrow> ('a \<Rightarrow> 'b kres) \<Rightarrow> 'b kres" where
  "kbind m f = (case m of Inl e \<Rightarrow> Inl e | Inr x \<Rightarrow> f x)"

definition kpanic :: "string \<Rightarrow> 'a kres" where
  "kpanic msg = Inl (Panic msg)"

definition kassert :: "bool \<Rightarrow> string \<Rightarrow> unit kres" where
  "kassert b msg = (if b then Inr () else kpanic msg)"

definition kopt :: "'a kres option \<Rightarrow> 'a kres" where
  "kopt r = (case r of None \<Rightarrow> Inl Diverge | Some x \<Rightarrow> x)"

lemma kopt_simps [simp]: "kopt (Some x) = x" "kopt None = Inl Diverge"
  by (simp_all add: kopt_def)

named_theorems kres_simps \<open>inversion of successful chained operations\<close>

lemma kbind_Inr [simp]: "kbind (Inr x) f = f x"
  by (simp add: kbind_def)

lemma kbind_Inl [simp]: "kbind (Inl e) f = Inl e"
  by (simp add: kbind_def)

lemma kbind_panic [simp]: "kbind (kpanic msg) f = kpanic msg"
  by (simp add: kpanic_def)

lemma kpanic_neq_Inr [simp]: "kpanic msg \<noteq> Inr x" "Inr x \<noteq> kpanic msg"
  by (simp_all add: kpanic_def)

lemma kbind_eq_Inr [kres_simps]:
  "kbind m f = Inr y \<longleftrightarrow> (\<exists>x. m = Inr x \<and> f x = Inr y)"
  by (cases m) auto

lemma kassert_eq_Inr [kres_simps]: "kassert b msg = Inr u \<longleftrightarrow> b"
  by (simp add: kassert_def)

lemma kassert_simps [simp]:
  "kassert True msg = Inr ()" "kassert False msg = kpanic msg"
  by (simp_all add: kassert_def)

primrec kfold :: "('a \<Rightarrow> 's \<Rightarrow> 's kres) \<Rightarrow> 'a list \<Rightarrow> 's \<Rightarrow> 's kres" where
  "kfold f [] s = Inr s"
| "kfold f (x # xs) s = kbind (f x s) (kfold f xs)"

lemma kfold_append: "kfold f (xs @ ys) s = kbind (kfold f xs s) (kfold f ys)"
  by (induction xs arbitrary: s) (auto simp: kbind_def split: sum.splits)

lemma kbind_assoc: "kbind (kbind m f) g = kbind m (\<lambda>x. kbind (f x) g)"
  by (cases m) auto

lemma kbind_cong [fundef_cong]:
  "m = m' \<Longrightarrow> (\<And>x. m' = Inr x \<Longrightarrow> f x = g x) \<Longrightarrow> kbind m f = kbind m' g"
  by (cases m') auto

section \<open>Little-endian integers\<close>

primrec le_bytes :: "nat \<Rightarrow> nat \<Rightarrow> byte list" where
  "le_bytes 0 v = []"
| "le_bytes (Suc k) v = of_nat v # le_bytes k (v div 256)"

primrec le_nat :: "byte list \<Rightarrow> nat" where
  "le_nat [] = 0"
| "le_nat (b # bs) = unat b + 256 * le_nat bs"

lemma length_le_bytes [simp]: "length (le_bytes k v) = k"
  by (induction k arbitrary: v) auto

lemma unat_byte_less: "unat (b::byte) < 256"
  using unsigned_less [of b, where ?'a = nat] by simp

lemma unat_of_nat_byte: "unat (of_nat v :: byte) = v mod 256"
  by (simp add: unat_of_nat)

lemma le_nat_le_bytes [simp]: "le_nat (le_bytes k v) = v mod 256 ^ k"
proof (induction k arbitrary: v)
  case 0
  show ?case by simp
next
  case (Suc k)
  have "v mod 256 + 256 * (v div 256 mod 256 ^ k) = v mod (256 * 256 ^ k)"
    by (simp add: mod_mult2_eq)
  with Suc show ?case by (simp add: unat_of_nat_byte)
qed

lemma le_nat_bound: "le_nat bs < 256 ^ length bs"
proof (induction bs)
  case Nil
  show ?case by simp
next
  case (Cons b bs)
  with unat_byte_less [of b] show ?case by simp
qed

lemma le_bytes_le_nat [simp]: "le_bytes (length bs) (le_nat bs) = bs"
proof (induction bs)
  case Nil
  show ?case by simp
next
  case (Cons b bs)
  note b = unat_byte_less [of b]
  have "(of_nat (unat b + 256 * le_nat bs) :: byte) = b"
    unfolding word_unat_eq_iff unat_of_nat_byte using b by simp
  with Cons b show ?case by simp
qed

lemma le_nat_replicate_0 [simp]: "le_nat (replicate n 0) = 0"
  by (induction n) auto

section \<open>Reading and writing consecutive bytes\<close>

definition peek :: "('a::semiring_1 \<Rightarrow> byte) \<Rightarrow> 'a \<Rightarrow> nat \<Rightarrow> byte list" where
  "peek m a n = map (\<lambda>i. m (a + of_nat i)) [0..<n]"

primrec poke :: "'a::semiring_1 \<Rightarrow> byte list \<Rightarrow> ('a \<Rightarrow> byte) \<Rightarrow> ('a \<Rightarrow> byte)" where
  "poke a [] m = m"
| "poke a (b # bs) m = poke (a + 1) bs (m(a := b))"

lemma length_peek [simp]: "length (peek m a n) = n"
  by (simp add: peek_def)

lemma nth_peek [simp]: "i < n \<Longrightarrow> peek m a n ! i = m (a + of_nat i)"
  by (simp add: peek_def)

lemma peek_0 [simp]: "peek m a 0 = []"
  by (simp add: peek_def)

lemma peek_Suc: "peek m a (Suc n) = m a # peek m (a + 1) n"
  by (rule nth_equalityI) (auto simp: nth_Cons add.assoc split: nat.splits)

text \<open>
  Ranges of the wrapping address space: \<open>x\<close> lies in the \<open>n\<close> bytes from \<open>a\<close> iff the
  wrapped distance \<open>x - a\<close> is below \<open>n\<close>.
\<close>

lemma unat_minus_1: "(x::u64) \<noteq> 0 \<Longrightarrow> unat (x - 1) = unat x - 1"
  by (simp add: unat_minus_one)

lemma poke_u64:
  assumes "length bs \<le> 2 ^ 64"
  shows "poke (a::u64) bs m =
    (\<lambda>x. if unat (x - a) < length bs then bs ! unat (x - a) else m x)"
  using assms
proof (induction bs arbitrary: a m)
  case Nil
  show ?case by simp
next
  case (Cons b bs)
  have IH: "poke (a + 1) bs (m(a := b)) =
    (\<lambda>x. if unat (x - (a + 1)) < length bs then bs ! unat (x - (a + 1)) else (m(a := b)) x)"
    using Cons by simp
  show ?case
  proof
    fix x
    show "poke a (b # bs) m x =
      (if unat (x - a) < length (b # bs) then (b # bs) ! unat (x - a) else m x)"
    proof (cases "x = a")
      case True
      have "unat (- 1 :: u64) = 2 ^ 64 - 1"
        by (simp add: unsigned_minus_1_eq_mask mask_eq_exp_minus_1)
      with True Cons.prems have "\<not> unat (x - (a + 1)) < length bs" by simp
      with True show ?thesis by (simp add: IH)
    next
      case False
      then have nz: "x - a \<noteq> 0" by simp
      have eq: "x - (a + 1) = (x - a) - 1" by simp
      have pos: "0 < unat (x - a)" using nz by (simp add: unat_gt_0)
      have "unat (x - (a + 1)) = unat (x - a) - 1"
        unfolding eq by (rule unat_minus_1 [OF nz])
      with pos False show ?thesis
        by (auto simp: IH nth_Cons' less_diff_conv)
    qed
  qed
qed

lemma poke_nat:
  "poke (a::nat) bs m = (\<lambda>x. if a \<le> x \<and> x < a + length bs then bs ! (x - a) else m x)"
proof (induction bs arbitrary: a m)
  case Nil
  show ?case by (rule ext) auto
next
  case (Cons b bs)
  show ?case
    by (rule ext) (auto simp: Cons nth_Cons' Suc_diff_Suc intro: arg_cong2 [of _ _ _ _ nth])
qed

lemma peek_poke_same_u64:
  assumes "length bs \<le> 2 ^ 64"
  shows "peek (poke (a::u64) bs m) a (length bs) = bs"
  by (rule nth_equalityI) (use assms in \<open>auto simp: poke_u64 unat_of_nat\<close>)

lemma peek_poke_same_nat: "peek (poke (a::nat) bs m) a (length bs) = bs"
  by (rule nth_equalityI) (auto simp: poke_nat)

lemma peek_poke_other_nat:
  "a + length bs \<le> b \<or> b + n \<le> a \<Longrightarrow> peek (poke (a::nat) bs m) b n = peek m b n"
  by (rule nth_equalityI) (auto simp: poke_nat)

lemma unat_u64_less: "unat (x::u64) < 18446744073709551616"
  using unsigned_less [of x, where ?'a = nat] by simp

lemma unat_minus_swap:
  assumes "(a::u64) \<noteq> b"
  shows "unat (a - b) + unat (b - a) = 18446744073709551616"
proof -
  have "unat a \<noteq> unat b" using assms by (simp add: word_unat_eq_iff)
  with unat_u64_less [of a] unat_u64_less [of b] show ?thesis
    by (auto simp: unat_sub_if')
qed

lemma peek_poke_other_u64:
  assumes "length bs \<le> unat (b - a)" and "n \<le> unat (a - b)"
    and "length bs \<le> 2 ^ 64"
  shows "peek (poke (a::u64) bs m) b n = peek m b n"
proof (rule nth_equalityI)
  fix i
  assume "i < length (peek (poke a bs m) b n)"
  then have i: "i < n" by simp
  then have ne: "a \<noteq> b" using assms(2) by auto
  note sum = unat_minus_swap [OF ne]
  have eq: "b + of_nat i - a = (b - a) + of_nat i" by simp
  have "unat ((b - a) + of_nat i) = unat (b - a) + i"
    using sum assms(2) i by (simp add: unat_word_ariths unat_of_nat)
  then have "\<not> unat (b + of_nat i - a) < length bs"
    unfolding eq using assms(1) by simp
  then show "peek (poke a bs m) b n ! i = peek m b n ! i"
    using i assms(3) by (simp add: poke_u64)
qed simp

section \<open>Loads and stores\<close>

definition ld16 :: "('a::semiring_1 \<Rightarrow> byte) \<Rightarrow> 'a \<Rightarrow> u16" where
  "ld16 m a = of_nat (le_nat (peek m a 2))"

definition ld32 :: "('a::semiring_1 \<Rightarrow> byte) \<Rightarrow> 'a \<Rightarrow> u32" where
  "ld32 m a = of_nat (le_nat (peek m a 4))"

definition ld64 :: "('a::semiring_1 \<Rightarrow> byte) \<Rightarrow> 'a \<Rightarrow> u64" where
  "ld64 m a = of_nat (le_nat (peek m a 8))"

definition st16 :: "'a::semiring_1 \<Rightarrow> u16 \<Rightarrow> ('a \<Rightarrow> byte) \<Rightarrow> ('a \<Rightarrow> byte)" where
  "st16 a v m = poke a (le_bytes 2 (unat v)) m"

definition st32 :: "'a::semiring_1 \<Rightarrow> u32 \<Rightarrow> ('a \<Rightarrow> byte) \<Rightarrow> ('a \<Rightarrow> byte)" where
  "st32 a v m = poke a (le_bytes 4 (unat v)) m"

definition st64 :: "'a::semiring_1 \<Rightarrow> u64 \<Rightarrow> ('a \<Rightarrow> byte) \<Rightarrow> ('a \<Rightarrow> byte)" where
  "st64 a v m = poke a (le_bytes 8 (unat v)) m"

lemma le_word_16: "(of_nat (unat (v::u16) mod 65536) :: u16) = v"
  using unsigned_less [of v, where ?'a = nat] by simp

lemma le_word_32: "(of_nat (unat (v::u32) mod 4294967296) :: u32) = v"
  using unsigned_less [of v, where ?'a = nat] by simp

lemma le_word_64: "(of_nat (unat (v::u64) mod 18446744073709551616) :: u64) = v"
  using unsigned_less [of v, where ?'a = nat] by simp

lemma peek_poke_le_u64: "k \<le> 8 \<Longrightarrow> peek (poke (a::u64) (le_bytes k v) m) a k = le_bytes k v"
  using peek_poke_same_u64 [of "le_bytes k v" a m] by simp

lemma peek_poke_le_nat: "peek (poke (a::nat) (le_bytes k v) m) a k = le_bytes k v"
  using peek_poke_same_nat [of a "le_bytes k v" m] by simp

lemma ld64_st64_u64 [simp]: "ld64 (st64 (a::u64) v m) a = v"
  by (simp add: ld64_def st64_def peek_poke_le_u64 le_word_64)

lemma ld16_st16_nat [simp]: "ld16 (st16 (a::nat) v m) a = v"
  by (simp add: ld16_def st16_def peek_poke_le_nat le_word_16)

lemma ld32_st32_nat [simp]: "ld32 (st32 (a::nat) v m) a = v"
  by (simp add: ld32_def st32_def peek_poke_le_nat le_word_32)

lemma ld32_st32_other_nat: "a + 4 \<le> b \<or> b + 4 \<le> a \<Longrightarrow> ld32 (st32 (a::nat) v m) b = ld32 m b"
  by (simp add: ld32_def st32_def peek_poke_other_nat)

text \<open>Stores of one word leave other aligned words of memory alone.\<close>

lemma aligned_far:
  assumes "k dvd unat (a::u64)" and "k dvd unat b" and "a \<noteq> b" and "k dvd 2 ^ 64"
  shows "k \<le> unat (b - a)"
proof -
  have "unat (b - a) = (if unat a \<le> unat b then unat b - unat a
      else unat b + 2 ^ 64 - unat a)"
    by (simp add: unat_sub_if')
  then have "k dvd unat (b - a)"
    using assms(1,2,4) by (auto intro: dvd_diff_nat dvd_add)
  moreover have "0 < unat (b - a)"
    using assms(3) by (simp add: unat_gt_0)
  ultimately show ?thesis by (rule dvd_imp_le)
qed

lemma ld64_st64_other:
  assumes "8 dvd unat (a::u64)" and "8 dvd unat b" and "a \<noteq> b"
  shows "ld64 (st64 a v m) b = ld64 m b"
proof -
  have "8 \<le> unat (b - a)" and "8 \<le> unat (a - b)"
    using assms by (auto intro!: aligned_far)
  then show ?thesis
    by (simp add: ld64_def st64_def peek_poke_other_u64)
qed

lemma ld64_zero:
  "(\<And>i. i < 8 \<Longrightarrow> m (a + of_nat i) = 0) \<Longrightarrow> ld64 m (a::u64) = 0"
proof -
  assume z: "\<And>i. i < 8 \<Longrightarrow> m (a + of_nat i) = 0"
  have "peek m a 8 = replicate 8 0"
    by (rule nth_equalityI) (auto simp: z)
  then show ?thesis by (simp add: ld64_def)
qed

lemma ld64_cong:
  "(\<And>i. i < 8 \<Longrightarrow> m (a + of_nat i) = m' (a + of_nat i)) \<Longrightarrow> ld64 m a = ld64 m' (a::u64)"
  unfolding ld64_def by (rule arg_cong [where f = "\<lambda>x. of_nat (le_nat x)"])
    (auto intro: nth_equalityI)

lemma st64_outside: "8 \<le> unat (x - a) \<Longrightarrow> st64 (a::u64) v m x = m x"
  by (simp add: st64_def poke_u64)

lemma unat_of_nat_u64: "k < 18446744073709551616 \<Longrightarrow> unat (of_nat k :: u64) = k"
  by (simp add: unat_of_nat)

end
