(* ===== verification/Cstring.thy ===== *)
theory Cstring
  imports KBase
begin

text \<open>
  \<^verbatim>\<open>kernel/string.c\<close>: the byte and string routines of the kernel, each loop as a
  recursion over the number of bytes still to process, on a byte-addressed memory.
  Lengths are \<open>nat\<close> (a negative \<^verbatim>\<open>int\<close> length runs no iteration, as length 0).

  The lemmas give every routine a closed form: \<open>memset_eq\<close>, \<open>memmove_eq\<close> (overlapping
  regions included), \<open>strncmp_eq_0\<close>, \<open>strncpy_spec\<close>, \<open>safestrcpy_spec\<close> and
  \<open>strlen_Some\<close>. Memory strings are described by \<open>cstr\<close>.
\<close>

section \<open>The routines\<close>

primrec memset :: "u64 \<Rightarrow> byte \<Rightarrow> nat \<Rightarrow> mem \<Rightarrow> mem" where
  "memset dst c 0 m = m"
| "memset dst c (Suc i) m = (memset dst c i m)(dst + of_nat i := c)"

primrec memcmp :: "mem \<Rightarrow> u64 \<Rightarrow> u64 \<Rightarrow> nat \<Rightarrow> int" where
  "memcmp m s1 s2 0 = 0"
| "memcmp m s1 s2 (Suc n) =
     (if m s1 \<noteq> m s2 then uint (m s1) - uint (m s2)
      else memcmp m (s1 + 1) (s2 + 1) n)"

primrec move_up :: "nat \<Rightarrow> u64 \<Rightarrow> u64 \<Rightarrow> mem \<Rightarrow> mem" where
  "move_up 0 d s m = m"
| "move_up (Suc n) d s m = move_up n (d + 1) (s + 1) (m(d := m s))"

primrec move_down :: "nat \<Rightarrow> u64 \<Rightarrow> u64 \<Rightarrow> mem \<Rightarrow> mem" where
  "move_down 0 d s m = m"
| "move_down (Suc n) d s m = move_down n (d - 1) (s - 1) (m(d - 1 := m (s - 1)))"

definition memmove :: "u64 \<Rightarrow> u64 \<Rightarrow> nat \<Rightarrow> mem \<Rightarrow> mem" where
  "memmove dst src n m =
     (if n = 0 then m
      else if src < dst \<and> src + of_nat n > dst
      then move_down n (dst + of_nat n) (src + of_nat n) m
      else move_up n dst src m)"

definition memcpy :: "u64 \<Rightarrow> u64 \<Rightarrow> nat \<Rightarrow> mem \<Rightarrow> mem" where
  "memcpy dst src n m = memmove dst src n m"

primrec strncmp :: "mem \<Rightarrow> u64 \<Rightarrow> u64 \<Rightarrow> nat \<Rightarrow> int" where
  "strncmp m p q 0 = 0"
| "strncmp m p q (Suc n) =
     (if m p \<noteq> 0 \<and> m p = m q then strncmp m (p + 1) (q + 1) n
      else uint (m p) - uint (m q))"

primrec zero_tail :: "nat \<Rightarrow> u64 \<Rightarrow> mem \<Rightarrow> mem" where
  "zero_tail 0 s m = m"
| "zero_tail (Suc n) s m = zero_tail n (s + 1) (m(s := 0))"

primrec strncpy :: "nat \<Rightarrow> u64 \<Rightarrow> u64 \<Rightarrow> mem \<Rightarrow> mem" where
  "strncpy 0 s t m = m"
| "strncpy (Suc n) s t m =
     (if m t \<noteq> 0 then strncpy n (s + 1) (t + 1) (m(s := m t))
      else zero_tail n (s + 1) (m(s := m t)))"

primrec safestrcpy_loop :: "nat \<Rightarrow> u64 \<Rightarrow> u64 \<Rightarrow> mem \<Rightarrow> mem" where
  "safestrcpy_loop 0 s t m = m(s := 0)"
| "safestrcpy_loop (Suc n) s t m =
     (if m t \<noteq> 0 then safestrcpy_loop n (s + 1) (t + 1) (m(s := m t))
      else (m(s := m t))(s + 1 := 0))"

definition safestrcpy :: "u64 \<Rightarrow> u64 \<Rightarrow> nat \<Rightarrow> mem \<Rightarrow> mem" where
  "safestrcpy s t n m = (if n = 0 then m else safestrcpy_loop (n - 1) s t m)"

partial_function (option) strlen_loop :: "mem \<Rightarrow> u64 \<Rightarrow> nat \<Rightarrow> nat option" where
  "strlen_loop m s n = (if m (s + of_nat n) \<noteq> 0 then strlen_loop m s (Suc n) else Some n)"

definition strlen :: "mem \<Rightarrow> u64 \<Rightarrow> nat option" where
  "strlen m s = strlen_loop m s 0"

definition cstr :: "mem \<Rightarrow> u64 \<Rightarrow> byte list \<Rightarrow> bool" where
  "cstr m a str \<longleftrightarrow>
     (\<forall>i < length str. m (a + of_nat i) = str ! i) \<and>
     m (a + of_nat (length str)) = 0 \<and> 0 \<notin> set str"

section \<open>Closed forms\<close>

lemma unat_plus_of_nat:
  "unat (x::u64) + i < 18446744073709551616 \<Longrightarrow> unat (x + of_nat i) = unat x + i"
  by (simp add: unat_word_ariths unat_of_nat)

lemma memset_eq:
  assumes "n \<le> 18446744073709551616"
  shows "memset dst c n m = (\<lambda>x. if unat (x - dst) < n then c else m x)"
  using assms
proof (induction n)
  case 0
  show ?case by simp
next
  case (Suc n)
  have iff: "x = dst + of_nat n \<longleftrightarrow> unat (x - dst) = n" for x
  proof
    assume "x = dst + of_nat n"
    then show "unat (x - dst) = n" using Suc.prems by (simp add: unat_of_nat)
  next
    assume "unat (x - dst) = n"
    then have "(of_nat (unat (x - dst)) :: u64) = of_nat n" by simp
    then have "x - dst = of_nat n" by simp
    then show "x = dst + of_nat n" by (simp add: algebra_simps)
  qed
  show ?case
    by (rule ext) (use Suc in \<open>auto simp: iff less_Suc_eq\<close>)
qed

lemma move_up_eq:
  assumes "unat s + n < 18446744073709551616" and "unat d + n < 18446744073709551616"
    and "d \<le> s \<or> unat s + n \<le> unat d"
  shows "move_up n d s m =
    (\<lambda>x. if unat d \<le> unat x \<and> unat x < unat d + n then m (s + (x - d)) else m x)"
  using assms
proof (induction n arbitrary: d s m)
  case 0
  show ?case by (rule ext) auto
next
  case (Suc n)
  have d1: "unat (d + 1) = unat d + 1" and s1: "unat (s + 1) = unat s + 1"
    using Suc.prems unat_plus_of_nat [of d 1] unat_plus_of_nat [of s 1] by auto
  have IH: "move_up n (d + 1) (s + 1) (m(d := m s)) =
    (\<lambda>x. if unat (d + 1) \<le> unat x \<and> unat x < unat (d + 1) + n
         then (m(d := m s)) (s + 1 + (x - (d + 1))) else (m(d := m s)) x)"
    by (rule Suc.IH) (use Suc.prems in \<open>auto simp: d1 s1 word_le_nat_alt\<close>)
  show ?case
  proof
    fix x
    have sh: "s + 1 + (x - (d + 1)) = s + (x - d)" by simp
    consider "x = d" | "x \<noteq> d" "unat d + 1 \<le> unat x" "unat x < unat d + 1 + n"
      | "x \<noteq> d" "\<not> (unat d \<le> unat x \<and> unat x < unat d + Suc n)"
      by atomize_elim (auto simp: word_unat_eq_iff)
    then show "move_up (Suc n) d s m x =
      (if unat d \<le> unat x \<and> unat x < unat d + Suc n then m (s + (x - d)) else m x)"
    proof cases
      case 1
      then show ?thesis by (simp add: IH d1)
    next
      case 2
      have "unat (x - d) = unat x - unat d" using 2 by (simp add: unat_sub_if')
      then have "unat (s + (x - d)) = unat s + (unat x - unat d)"
        using Suc.prems 2 by (simp add: unat_word_ariths)
      then have "unat (s + (x - d)) \<noteq> unat d"
        using Suc.prems 2 by (auto simp: word_le_nat_alt)
      then have "s + (x - d) \<noteq> d" by (simp only: word_unat_eq_iff not_False_eq_True)
      with 2 show ?thesis by (simp add: IH d1 sh)
    next
      case 3
      then show ?thesis by (auto simp: IH d1)
    qed
  qed
qed

lemma move_down_eq:
  assumes "unat s + n < 18446744073709551616" and "unat d + n < 18446744073709551616"
    and "s \<le> d"
  shows "move_down n (d + of_nat n) (s + of_nat n) m =
    (\<lambda>x. if unat d \<le> unat x \<and> unat x < unat d + n then m (s + (x - d)) else m x)"
  using assms
proof (induction n arbitrary: m)
  case 0
  show ?case by (rule ext) auto
next
  case (Suc n)
  have dn: "unat (d + of_nat n) = unat d + n" and sn: "unat (s + of_nat n) = unat s + n"
    using Suc.prems by (auto intro: unat_plus_of_nat)
  have IH: "move_down n (d + of_nat n) (s + of_nat n) (m(d + of_nat n := m (s + of_nat n))) =
    (\<lambda>x. if unat d \<le> unat x \<and> unat x < unat d + n
         then (m(d + of_nat n := m (s + of_nat n))) (s + (x - d))
         else (m(d + of_nat n := m (s + of_nat n))) x)"
    by (rule Suc.IH) (use Suc.prems in auto)
  have step: "move_down (Suc n) (d + of_nat (Suc n)) (s + of_nat (Suc n)) m =
    move_down n (d + of_nat n) (s + of_nat n) (m(d + of_nat n := m (s + of_nat n)))"
    by (simp add: algebra_simps)
  show ?case
  proof
    fix x
    consider "x = d + of_nat n" | "x \<noteq> d + of_nat n" "unat d \<le> unat x" "unat x < unat d + n"
      | "x \<noteq> d + of_nat n" "\<not> (unat d \<le> unat x \<and> unat x < unat d + Suc n)"
      by atomize_elim (auto simp: word_unat_eq_iff dn)
    then show "move_down (Suc n) (d + of_nat (Suc n)) (s + of_nat (Suc n)) m x =
      (if unat d \<le> unat x \<and> unat x < unat d + Suc n then m (s + (x - d)) else m x)"
    proof cases
      case 1
      then show ?thesis unfolding step IH by (simp add: dn)
    next
      case 2
      have "unat (x - d) = unat x - unat d" using 2 by (simp add: unat_sub_if')
      then have "unat (s + (x - d)) = unat s + (unat x - unat d)"
        using Suc.prems 2 by (simp add: unat_word_ariths)
      then have "s + (x - d) \<noteq> d + of_nat n"
        using Suc.prems 2 by (auto simp: word_unat_eq_iff dn word_le_nat_alt)
      with 2 show ?thesis unfolding step IH by simp
    next
      case 3
      then show ?thesis unfolding step IH by auto
    qed
  qed
qed

lemma memmove_eq:
  assumes s: "unat src + n < 18446744073709551616" and d: "unat dst + n < 18446744073709551616"
  shows "memmove dst src n m =
    (\<lambda>x. if unat dst \<le> unat x \<and> unat x < unat dst + n then m (src + (x - dst)) else m x)"
proof (cases "n = 0")
  case True
  then show ?thesis by (intro ext) (auto simp: memmove_def)
next
  case False
  have sn: "unat (src + of_nat n) = unat src + n" using s by (rule unat_plus_of_nat)
  show ?thesis
  proof (cases "src < dst \<and> src + of_nat n > dst")
    case True
    with False show ?thesis
      using move_down_eq [OF s d] by (auto simp: memmove_def)
  next
    case nov: False
    then have "dst \<le> src \<or> unat src + n \<le> unat dst"
      by (auto simp: word_le_nat_alt word_less_nat_alt sn)
    with False nov show ?thesis
      using move_up_eq [OF s d] by (simp only: memmove_def if_False)
  qed
qed

section \<open>Strings\<close>

lemma uint_byte_eq: "uint (a::byte) = uint b \<longleftrightarrow> a = b"
  by (simp add: word_uint_eq_iff)

text \<open>
  C11. \<open>memmove\<close> copies correctly also when the two regions overlap: every destination byte
  gets the value its source byte had before the call, and no other byte changes.
\<close>

theorem memmove_overlap_safe:
  assumes "unat src + n < 2 ^ 64" and "unat dst + n < 2 ^ 64"
  shows "memmove dst src n m =
    (\<lambda>x. if unat dst \<le> unat x \<and> unat x < unat dst + n then m (src + (x - dst)) else m x)"
  using memmove_eq [of src n dst m] assms by simp

theorem memmove_overlap_safe_witness:
  "memmove 0x1004 0x1000 8 (\<lambda>x. ucast x) =
    (\<lambda>x. if unat (0x1004::u64) \<le> unat x \<and> unat x < unat (0x1004::u64) + 8
          then ucast (0x1000 + (x - 0x1004)) else ucast x)"
  by (rule memmove_overlap_safe) simp_all

lemma strncmp_eq_0:
  "strncmp m p q n = 0 \<longleftrightarrow>
     takeWhile (\<lambda>c. c \<noteq> 0) (peek m p n) = takeWhile (\<lambda>c. c \<noteq> 0) (peek m q n)"
  by (induction n arbitrary: p q) (auto simp: peek_Suc uint_byte_eq unsigned_eq_0_iff)

lemma memcmp_eq_0: "memcmp m p q n = 0 \<longleftrightarrow> peek m p n = peek m q n"
  by (induction n arbitrary: p q) (auto simp: peek_Suc uint_byte_eq unsigned_eq_0_iff)

lemma strlen_loop_Some:
  assumes "n \<le> k" and "m (s + of_nat k) = 0"
    and "\<And>i. n \<le> i \<Longrightarrow> i < k \<Longrightarrow> m (s + of_nat i) \<noteq> 0"
  shows "strlen_loop m s n = Some k"
  using assms
proof (induction "k - n" arbitrary: n)
  case 0
  then show ?case by (simp add: strlen_loop.simps)
next
  case (Suc d)
  then have "n < k" by simp
  have "strlen_loop m s (Suc n) = Some k"
    by (rule Suc.hyps) (use Suc \<open>n < k\<close> in auto)
  with Suc.prems \<open>n < k\<close> show ?case by (simp add: strlen_loop.simps [of m s n])
qed

lemma strlen_Some: "cstr m a str \<Longrightarrow> strlen m a = Some (length str)"
  unfolding strlen_def cstr_def
  by (rule strlen_loop_Some) (auto simp: in_set_conv_nth)

text \<open>
  \<open>strncpy\<close> and \<open>safestrcpy\<close> only read the source string while they write the
  destination, so for disjoint regions of \<open>n\<close> bytes the result depends on the source
  as it was at the start.
\<close>

definition no_overlap :: "u64 \<Rightarrow> u64 \<Rightarrow> nat \<Rightarrow> bool" where
  "no_overlap s t n \<longleftrightarrow> (\<forall>i < n. \<forall>j < n. s + of_nat i \<noteq> t + of_nat j)"

lemma no_overlap_Suc:
  assumes "no_overlap s t (Suc n)"
  shows "no_overlap (s + 1) (t + 1) n" and "s \<noteq> t"
proof -
  show "no_overlap (s + 1) (t + 1) n"
    unfolding no_overlap_def
  proof (intro allI impI)
    fix i j assume "i < n" "j < n"
    then have "s + of_nat (Suc i) \<noteq> t + of_nat (Suc j)"
      using assms unfolding no_overlap_def by blast
    then show "s + 1 + of_nat i \<noteq> t + 1 + of_nat j" by (simp add: algebra_simps)
  qed
  show "s \<noteq> t" using assms unfolding no_overlap_def by force
qed

lemma peek_upd_no_overlap:
  assumes "no_overlap s t (Suc n)"
  shows "peek (m(s := c)) (t + 1) n = peek m (t + 1) n"
proof (rule nth_equalityI)
  fix i assume "i < length (peek (m(s := c)) (t + 1) n)"
  then have "s + of_nat 0 \<noteq> t + of_nat (Suc i)"
    using assms unfolding no_overlap_def by force
  then show "peek (m(s := c)) (t + 1) n ! i = peek m (t + 1) n ! i"
    using \<open>i < _\<close> by (auto simp: algebra_simps)
qed simp

lemma zero_tail_eq: "zero_tail n s m = poke s (replicate n 0) m"
  by (induction n arbitrary: s m) auto

definition pad0 :: "nat \<Rightarrow> byte list \<Rightarrow> byte list" where
  "pad0 n bs = bs @ replicate (n - length bs) 0"

lemma strncpy_poke:
  "no_overlap s t n \<Longrightarrow>
   strncpy n s t m = poke s (pad0 n (takeWhile (\<lambda>c. c \<noteq> 0) (peek m t n))) m"
proof (induction n arbitrary: s t m)
  case 0
  show ?case by (simp add: pad0_def)
next
  case (Suc n)
  note d = no_overlap_Suc [OF Suc.prems]
  show ?case
  proof (cases "m t = 0")
    case True
    then show ?thesis by (simp add: peek_Suc pad0_def zero_tail_eq)
  next
    case False
    then show ?thesis
      by (simp add: peek_Suc pad0_def Suc.IH [OF d(1)] peek_upd_no_overlap [OF Suc.prems]
          del: fun_upd_apply)
  qed
qed

lemma strncpy_spec:
  assumes "no_overlap s t n" and "n \<le> 2 ^ 64"
  shows "peek (strncpy n s t m) s n = pad0 n (takeWhile (\<lambda>c. c \<noteq> 0) (peek m t n))"
proof -
  let ?bs = "pad0 n (takeWhile (\<lambda>c. c \<noteq> 0) (peek m t n))"
  have "length (takeWhile (\<lambda>c. c \<noteq> 0) (peek m t n)) \<le> n"
    using length_takeWhile_le [of "\<lambda>c. c \<noteq> 0" "peek m t n"] by simp
  then have len: "length ?bs = n" by (simp add: pad0_def)
  have "peek (poke s ?bs m) s (length ?bs) = ?bs"
    by (rule peek_poke_same_u64) (use assms(2) len in simp)
  then show ?thesis by (simp add: strncpy_poke [OF assms(1)] len)
qed

lemma safestrcpy_loop_poke:
  "no_overlap s t (Suc n) \<Longrightarrow>
   \<exists>z \<in> {[0], [0, 0]}. safestrcpy_loop n s t m =
     poke s (takeWhile (\<lambda>c. c \<noteq> 0) (peek m t n) @ z) m \<and>
     length (takeWhile (\<lambda>c. c \<noteq> 0) (peek m t n) @ z) \<le> Suc n"
proof (induction n arbitrary: s t m)
  case 0
  show ?case by (simp del: fun_upd_apply)
next
  case (Suc n)
  note d = no_overlap_Suc [OF Suc.prems]
  have sub: "no_overlap s t (Suc n)" using Suc.prems by (auto simp: no_overlap_def)
  show ?case
  proof (cases "m t = 0")
    case True
    then show ?thesis by (simp add: peek_Suc del: fun_upd_apply)
  next
    case False
    with Suc.IH [OF d(1), of "m(s := m t)"] show ?thesis
      by (simp add: peek_Suc peek_upd_no_overlap [OF sub] del: fun_upd_apply)
  qed
qed

lemma cstr_Nil [simp]: "cstr m a [] \<longleftrightarrow> m a = 0"
  by (simp add: cstr_def)

lemma cstr_Cons [simp]:
  "cstr m a (c # cs) \<longleftrightarrow> m a = c \<and> c \<noteq> 0 \<and> cstr m (a + 1) cs"
  by (auto simp: cstr_def nth_Cons' algebra_simps less_Suc_eq_0_disj)

lemma takeWhile_cstr:
  "cstr m t str \<Longrightarrow> takeWhile (\<lambda>c. c \<noteq> 0) (peek m t k) = take k str"
proof (induction k arbitrary: t str)
  case 0
  show ?case by simp
next
  case (Suc k)
  then show ?case by (cases str) (auto simp: peek_Suc)
qed

lemma cstr_poke:
  assumes "length str + length z \<le> 2 ^ 64" and "0 \<notin> set str" and "z \<noteq> []" and "hd z = 0"
  shows "cstr (poke s (str @ z) m) s str"
proof -
  have "0 < length z" using assms(3) by simp
  then have "length str < 2 ^ 64" using assms(1) by linarith
  with assms show ?thesis
    by (auto simp: cstr_def poke_u64 unat_of_nat nth_append hd_conv_nth)
qed

lemma safestrcpy_spec:
  assumes "no_overlap s t n" and "0 < n" and "n \<le> 2 ^ 64" and "cstr m t str"
  shows "cstr (safestrcpy s t n m) s (take (n - 1) str) \<and>
    (\<forall>x. n \<le> unat (x - s) \<longrightarrow> safestrcpy s t n m x = m x)"
proof -
  obtain k where k: "n = Suc k" using assms(2) by (cases n) auto
  obtain z where z: "z \<in> {[0], [0, 0]}"
    and eq: "safestrcpy s t n m = poke s (take k str @ z) m"
    and len: "length (take k str @ z) \<le> n"
    using safestrcpy_loop_poke [of s t k m] assms(1)
    unfolding takeWhile_cstr [OF assms(4)] k safestrcpy_def by fastforce
  have "0 \<notin> set (take k str)"
    using assms(4) by (auto simp: cstr_def dest: in_set_takeD)
  then have "cstr (poke s (take k str @ z) m) s (take k str)"
    using z len assms(3) by (intro cstr_poke) auto
  moreover have "n \<le> unat (x - s) \<Longrightarrow> poke s (take k str @ z) m x = m x" for x
    using len assms(3) by (subst poke_u64) auto
  ultimately show ?thesis unfolding eq by (simp add: k)
qed

text \<open>
  C12. \<open>safestrcpy\<close> to a disjoint buffer of \<open>n > 0\<close> bytes always leaves a NUL-terminated
  string there, the first \<open>n - 1\<close> bytes of the source, and writes nothing past the buffer.
\<close>

theorem safestrcpy_terminates_string:
  assumes "no_overlap s t n" and "0 < n" and "n \<le> 2 ^ 64" and "cstr m t str"
  shows "cstr (safestrcpy s t n m) s (take (n - 1) str) \<and>
    (\<forall>x. n \<le> unat (x - s) \<longrightarrow> safestrcpy s t n m x = m x)"
  using assms by (rule safestrcpy_spec)

theorem safestrcpy_terminates_string_witness:
  "cstr (safestrcpy 0x100 0x200 3 (\<lambda>x. if x = 0x200 then 65 else if x = 0x201 then 66
     else if x = 0x202 then 67 else 0)) 0x100 (take (3 - 1) [65, 66, 67])"
proof -
  let ?m = "\<lambda>x::u64. if x = 0x200 then 65 else if x = 0x201 then 66 else if x = 0x202 then 67 else (0::byte)"
  have "no_overlap 0x100 0x200 3"
    by (auto simp: no_overlap_def numeral_3_eq_3 less_Suc_eq)
  moreover have "cstr ?m 0x200 [65, 66, 67]"
    by (auto simp: cstr_def numeral_3_eq_3 less_Suc_eq)
  ultimately show ?thesis using safestrcpy_terminates_string [of "0x100" "0x200" 3 ?m "[65, 66, 67]"] by simp
qed

end
