(* ===== verification/Riscv.thy ===== *)
theory Riscv
  imports KBase
begin

unbundle bit_operations_syntax

text \<open>
  The constants and address macros of \<^verbatim>\<open>kernel/riscv.h\<close>, \<^verbatim>\<open>kernel/memlayout.h\<close> and
  \<^verbatim>\<open>kernel/param.h\<close>: page rounding, Sv39 page-table indices, page-table entries and the
  memory layout. The lemmas are the arithmetic the virtual-memory theories rest on:
  rounding in terms of division, recovering an address from an entry, and that the three
  indices of a page-aligned address below \<open>MAXVA\<close> determine it.
\<close>

section \<open>Constants\<close>

definition PGSIZE :: u64 where [simp]: "PGSIZE = 4096"
definition PGSHIFT :: nat where [simp]: "PGSHIFT = 12"
definition PTE_V :: u64 where [simp]: "PTE_V = 1"
definition PTE_R :: u64 where [simp]: "PTE_R = 2"
definition PTE_W :: u64 where [simp]: "PTE_W = 4"
definition PTE_X :: u64 where [simp]: "PTE_X = 8"
definition PTE_U :: u64 where [simp]: "PTE_U = 16"
definition MAXVA :: u64 where [simp]: "MAXVA = push_bit (9 + 9 + 9 + 12 - 1) 1"

definition UART0 :: u64 where [simp]: "UART0 = 0x10000000"
definition UART0_IRQ :: u32 where [simp]: "UART0_IRQ = 10"
definition VIRTIO0 :: u64 where [simp]: "VIRTIO0 = 0x10001000"
definition VIRTIO0_IRQ :: u32 where [simp]: "VIRTIO0_IRQ = 1"
definition PLIC :: u64 where [simp]: "PLIC = 0x0c000000"
definition KERNBASE :: u64 where [simp]: "KERNBASE = 0x80000000"
definition PHYSTOP :: u64 where [simp]: "PHYSTOP = KERNBASE + 128 * 1024 * 1024"
definition TRAMPOLINE :: u64 where [simp]: "TRAMPOLINE = MAXVA - PGSIZE"
definition TRAPFRAME :: u64 where [simp]: "TRAPFRAME = TRAMPOLINE - PGSIZE"

definition KSTACK :: "nat \<Rightarrow> u64" where
  "KSTACK p = TRAMPOLINE - of_nat (p + 1) * 2 * PGSIZE"

abbreviation NPROC :: nat where "NPROC \<equiv> 64"
abbreviation NCPU :: nat where "NCPU \<equiv> 8"
definition NOFILE :: nat where [simp]: "NOFILE = 16"
abbreviation NFILE :: nat where "NFILE \<equiv> 100"
abbreviation NINODE :: nat where "NINODE \<equiv> 50"
abbreviation NDEV :: nat where "NDEV \<equiv> 10"
definition ROOTDEV :: u32 where "ROOTDEV = 1"
abbreviation MAXARG :: nat where "MAXARG \<equiv> 32"
abbreviation MAXOPBLOCKS :: nat where "MAXOPBLOCKS \<equiv> 10"
abbreviation LOGBLOCKS :: nat where "LOGBLOCKS \<equiv> MAXOPBLOCKS * 3"
definition NBUF :: nat where [simp]: "NBUF = MAXOPBLOCKS * 3"
definition FSSIZE :: nat where [simp]: "FSSIZE = 2000"
abbreviation MAXPATH :: nat where "MAXPATH \<equiv> 128"
abbreviation USERSTACK :: nat where "USERSTACK \<equiv> 1"

section \<open>Address macros\<close>

lemma ROOTDEV_nonzero [simp]: "ROOTDEV \<noteq> 0"
  by (simp add: ROOTDEV_def)

definition PGROUNDUP :: "u64 \<Rightarrow> u64" where
  "PGROUNDUP sz = (sz + PGSIZE - 1) AND NOT (PGSIZE - 1)"

definition PGROUNDDOWN :: "u64 \<Rightarrow> u64" where
  "PGROUNDDOWN a = a AND NOT (PGSIZE - 1)"

definition PA2PTE :: "u64 \<Rightarrow> u64" where
  "PA2PTE pa = push_bit 10 (drop_bit 12 pa)"

definition PTE2PA :: "u64 \<Rightarrow> u64" where
  "PTE2PA pte = push_bit 12 (drop_bit 10 pte)"

definition PTE_FLAGS :: "u64 \<Rightarrow> u64" where
  "PTE_FLAGS pte = pte AND 0x3FF"

definition PXSHIFT :: "nat \<Rightarrow> nat" where
  "PXSHIFT level = PGSHIFT + 9 * level"

definition PX :: "nat \<Rightarrow> u64 \<Rightarrow> u64" where
  "PX level va = drop_bit (PXSHIFT level) va AND 0x1FF"

abbreviation SATP_SV39 :: u64 where "SATP_SV39 \<equiv> push_bit 60 8"

definition MAKE_SATP :: "u64 \<Rightarrow> u64" where
  "MAKE_SATP pagetable = SATP_SV39 OR drop_bit 12 pagetable"

section \<open>Page arithmetic\<close>

definition pgaligned :: "u64 \<Rightarrow> bool" where
  "pgaligned a \<longleftrightarrow> a mod PGSIZE = 0"

lemma u64_4095: "(4095::u64) = mask 12"
  by (simp add: mask_eq_exp_minus_1)

lemma PGROUNDDOWN_push: "PGROUNDDOWN a = push_bit 12 (drop_bit 12 a)"
  unfolding PGROUNDDOWN_def
  by (rule bit_word_eqI) (auto simp: bit_simps u64_4095)

lemma unat_PGROUNDDOWN: "unat (PGROUNDDOWN a) = unat a div 4096 * 4096"
proof -
  have "unat a div 4096 * 4096 < 18446744073709551616"
    using unat_u64_less [of a] div_times_less_eq_dividend [of "unat a" 4096] by linarith
  then show ?thesis
    by (simp add: PGROUNDDOWN_push push_bit_eq_mult drop_bit_eq_div unat_word_ariths
        unat_div_distrib)
qed

lemma pgaligned_unat: "pgaligned a \<longleftrightarrow> 4096 dvd unat a"
proof -
  have "a mod 4096 = 0 \<longleftrightarrow> unat (a mod 4096) = 0"
    by (simp add: unsigned_eq_0_iff)
  then show ?thesis
    by (simp add: pgaligned_def unat_mod_distrib dvd_eq_mod_eq_0)
qed

lemma pgaligned_PGROUNDDOWN [simp]: "pgaligned (PGROUNDDOWN a)"
  by (simp add: pgaligned_unat unat_PGROUNDDOWN)

lemma PGROUNDDOWN_le: "PGROUNDDOWN a \<le> a"
  by (simp add: word_le_nat_alt unat_PGROUNDDOWN)

lemma PGROUNDDOWN_aligned: "pgaligned a \<Longrightarrow> PGROUNDDOWN a = a"
  by (simp add: word_unat_eq_iff unat_PGROUNDDOWN pgaligned_unat)

lemma PGROUNDUP_DOWN: "PGROUNDUP sz = PGROUNDDOWN (sz + 4095)"
  by (simp add: PGROUNDUP_def PGROUNDDOWN_def algebra_simps)

lemma pgaligned_PGROUNDUP [simp]: "pgaligned (PGROUNDUP a)"
  by (simp add: PGROUNDUP_DOWN)

lemma unat_PGROUNDUP:
  "unat sz < 18446744073709551616 - 4095 \<Longrightarrow>
   unat (PGROUNDUP sz) = (unat sz + 4095) div 4096 * 4096"
  by (simp add: PGROUNDUP_DOWN unat_PGROUNDDOWN unat_word_ariths)

lemma PGROUNDUP_aligned:
  assumes "pgaligned a"
  shows "PGROUNDUP a = a"
proof -
  have d: "4096 dvd unat a" using assms by (simp add: pgaligned_unat)
  then obtain k where k: "unat a = 4096 * k" by auto
  have "k < 4503599627370496" using unat_u64_less [of a] k by linarith
  then have "unat a < 18446744073709551616 - 4095" unfolding k by linarith
  from unat_PGROUNDUP [OF this] show ?thesis
    by (simp add: word_unat_eq_iff k)
qed

section \<open>Page-table entries\<close>

lemma bit_small_flags: "f < 1024 \<Longrightarrow> bit (f::u64) n \<Longrightarrow> n < 10"
proof -
  assume "f < 1024" and b: "bit f n"
  then have "take_bit 10 f = f"
    by (simp add: take_bit_eq_mod word_unat_eq_iff unat_mod_distrib word_less_nat_alt)
  with b show "n < 10" by (metis bit_take_bit_iff)
qed

lemma bit_pgaligned: "pgaligned a \<Longrightarrow> n < 12 \<Longrightarrow> \<not> bit a n"
proof -
  assume "pgaligned a" and n: "n < 12"
  then have "PGROUNDDOWN a = a" by (simp add: PGROUNDDOWN_aligned)
  then have "bit a n \<longleftrightarrow> bit (push_bit 12 (drop_bit 12 a)) n"
    by (simp add: PGROUNDDOWN_push)
  with n show "\<not> bit a n" by (simp add: bit_simps)
qed

lemma PTE2PA_PA2PTE:
  assumes "pgaligned pa" and "f < 1024"
  shows "PTE2PA (PA2PTE pa OR f) = pa"
  unfolding PTE2PA_def PA2PTE_def
proof (rule bit_word_eqI)
  fix n
  assume n: "n < LENGTH(64)"
  show "bit (push_bit 12 (drop_bit 10 (push_bit 10 (drop_bit 12 pa) OR f))) n = bit pa n"
  proof (cases "n < 12")
    case True
    then show ?thesis using bit_pgaligned [OF assms(1)] by (simp add: bit_simps)
  next
    case False
    then have "12 + (n - 12) = n" by simp
    with False n show ?thesis
      by (auto simp: bit_simps dest: bit_small_flags [OF assms(2)])
  qed
qed

lemma PTE_FLAGS_PA2PTE:
  assumes "f < 1024"
  shows "PTE_FLAGS (PA2PTE pa OR f) = f"
proof -
  have m: "(0x3FF::u64) = mask 10" by (simp add: mask_eq_exp_minus_1)
  show ?thesis
    unfolding PTE_FLAGS_def PA2PTE_def m
    by (rule bit_word_eqI) (auto simp: bit_simps dest: bit_small_flags [OF assms])
qed

lemma AND_PA2PTE:
  assumes "w < 1024"
  shows "(PA2PTE pa OR f) AND w = f AND w"
  unfolding PA2PTE_def
  by (rule bit_word_eqI) (auto simp: bit_simps dest: bit_small_flags [OF assms])

lemma pgaligned_PTE2PA [simp]: "pgaligned (PTE2PA pte)"
proof -
  have "PGROUNDDOWN (PTE2PA pte) = PTE2PA pte"
    unfolding PGROUNDDOWN_push PTE2PA_def
    by (rule bit_word_eqI) (auto simp: bit_simps)
  then show ?thesis by (metis pgaligned_PGROUNDDOWN)
qed

section \<open>Page-table indices\<close>

lemma unat_PX: "unat (PX l va) = unat va div 2 ^ (12 + 9 * l) mod 512"
proof -
  have m: "(0x1FF::u64) = mask 9" by (simp add: mask_eq_exp_minus_1)
  have "unat (PX l va) = unat (drop_bit (12 + 9 * l) va) mod 512"
    by (simp add: PX_def PXSHIFT_def m take_bit_eq_mask [symmetric] take_bit_eq_mod unat_mod_distrib)
  also have "unat (drop_bit (12 + 9 * l) va) = unat va div 2 ^ (12 + 9 * l)"
    unfolding unat_drop_bit_eq by (rule drop_bit_eq_div)
  finally show ?thesis .
qed

lemma PX_less: "PX l va < 512"
  by (simp add: word_less_nat_alt unat_PX)

lemma PX2_less: "va < MAXVA \<Longrightarrow> PX 2 va < 256"
  by (simp add: word_less_nat_alt unat_PX)

lemma unat_below_MAXVA: "va < MAXVA \<longleftrightarrow> unat va < 274877906944"
  by (simp add: word_less_nat_alt push_bit_eq_mult)

text \<open>A page-aligned address below \<open>MAXVA\<close> is determined by its three indices.\<close>

lemma unat_PX_join:
  assumes "pgaligned va" and "va < MAXVA"
  shows "unat va = 4096 * (unat (PX 0 va) + 512 * (unat (PX 1 va) + 512 * unat (PX 2 va)))"
proof -
  obtain k where k: "unat va = 4096 * k" using assms(1) by (auto simp: pgaligned_unat)
  have lt: "k < 67108864" using iffD1 [OF unat_below_MAXVA assms(2)] k by linarith
  have p0: "unat (PX 0 va) = k mod 512" by (simp add: unat_PX k)
  have "4096 * k div 2097152 = k div 512" by (simp add: div_mult2_eq [of _ 4096 512, simplified])
  then have p1: "unat (PX 1 va) = k div 512 mod 512" by (simp add: unat_PX k)
  have "4096 * k div 1073741824 = k div 262144"
    by (simp add: div_mult2_eq [of _ 4096 262144, simplified])
  moreover have "k div 262144 < 512" using lt by simp
  moreover have "k div 262144 = k div 512 div 512" by (simp add: div_mult2_eq [symmetric])
  ultimately have p2: "unat (PX 2 va) = k div 512 div 512" by (simp add: unat_PX k)
  have "k mod 512 + 512 * (k div 512 mod 512 + 512 * (k div 512 div 512)) = k"
    by simp
  then show ?thesis unfolding p0 p1 p2 k by simp
qed

lemma PX_inj:
  assumes "pgaligned va" "va < MAXVA" "pgaligned vb" "vb < MAXVA"
    and "PX 2 va = PX 2 vb" "PX 1 va = PX 1 vb" "PX 0 va = PX 0 vb"
  shows "va = vb"
  using unat_PX_join [OF assms(1,2)] unat_PX_join [OF assms(3,4)] assms(5-7)
  by (simp add: word_unat_eq_iff)

text \<open>Entry addresses: entry \<open>i\<close> of the table at \<open>pt\<close> is the word at \<open>pt + 8 * i\<close>.\<close>

lemma unat_pte_addr:
  assumes "pgaligned pt" and "i < 512"
  shows "unat (pt + 8 * i) = unat pt + 8 * unat i"
proof -
  obtain k where k: "unat pt = 4096 * k" using assms(1) by (auto simp: pgaligned_unat)
  have "k < 4503599627370496" using unat_u64_less [of pt] k by linarith
  moreover have "unat i < 512" using assms(2) by (simp add: word_less_nat_alt)
  ultimately show ?thesis by (simp add: unat_word_ariths k)
qed

lemma pte_addr_aligned: "pgaligned pt \<Longrightarrow> i < 512 \<Longrightarrow> 8 dvd unat (pt + 8 * i)"
  by (auto simp: unat_pte_addr pgaligned_unat intro: dvd_add dvd_trans [of 8 4096])

lemma pte_addr_inj:
  assumes "pgaligned pt" "i < 512" "pgaligned pt'" "j < 512" and "pt + 8 * i = pt' + 8 * j"
  shows "pt = pt' \<and> i = j"
proof -
  obtain k k' where k: "unat pt = 4096 * k" "unat pt' = 4096 * k'"
    using assms(1,3) by (auto simp: pgaligned_unat elim!: dvdE)
  have ij: "unat i < 512" "unat j < 512" using assms(2,4) by (simp_all add: word_less_nat_alt)
  have eq: "4096 * k + 8 * unat i = 4096 * k' + 8 * unat j"
    using unat_pte_addr [OF assms(1,2)] unat_pte_addr [OF assms(3,4)] assms(5) k by simp
  have "\<not> k < k'" "\<not> k' < k" using ij eq by linarith+
  then have "k = k' \<and> unat i = unat j" using eq by linarith
  then show ?thesis using k by (simp add: word_unat_eq_iff)
qed

section \<open>Pages as sets of addresses\<close>

lemma in_page_iff:
  assumes "pgaligned a"
  shows "unat (x - a) < 4096 \<longleftrightarrow> PGROUNDDOWN x = a"
proof
  obtain k where k: "unat a = 4096 * k" using assms by (auto simp: pgaligned_unat)
  have kb: "k < 4503599627370496" using unat_u64_less [of a] k by linarith
  {
    assume lt: "unat (x - a) < 4096"
    have "unat (a + (x - a)) = 4096 * k + unat (x - a)"
      unfolding unat_word_ariths using lt kb by (simp add: k)
    then have "unat x = 4096 * k + unat (x - a)" by simp
    then have "unat x div 4096 * 4096 = unat a" using lt by (simp add: k)
    then show "PGROUNDDOWN x = a" by (simp add: word_unat_eq_iff unat_PGROUNDDOWN)
  next
    assume "PGROUNDDOWN x = a"
    then have "unat x div 4096 * 4096 = unat a" by (metis unat_PGROUNDDOWN)
    moreover have "unat x div 4096 * 4096 + unat x mod 4096 = unat x" "unat x mod 4096 < 4096"
      by simp_all
    ultimately have "unat a \<le> unat x" "unat x - unat a < 4096" by linarith+
    then show "unat (x - a) < 4096" by (simp add: unat_sub_if')
  }
qed

lemma page_word:
  assumes "pgaligned a" and "i < 512" and "j < 8"
  shows "PGROUNDDOWN (a + 8 * i + of_nat j) = a"
proof -
  have "unat i < 512" using assms(2) by (simp add: word_less_nat_alt)
  then have "unat (8 * i + of_nat j) < 4096"
    using assms(3) by (simp add: unat_word_ariths unat_of_nat)
  then have "unat (a + 8 * i + of_nat j - a) < 4096" by (simp add: algebra_simps)
  then show ?thesis using in_page_iff [OF assms(1)] by blast
qed

lemma page_first_word:
  "pgaligned a \<Longrightarrow> j < 8 \<Longrightarrow> PGROUNDDOWN (a + of_nat j) = a"
  using page_word [of a 0 j] by simp

lemma page_byte:
  assumes "pgaligned a" and "unat i < 4096"
  shows "PGROUNDDOWN (a + i) = a"
  using in_page_iff [OF assms(1), of "a + i"] assms(2) by simp

text \<open>Conversely, three indices (the top one below 256) are those of a page address.\<close>

lemma PX_surj:
  assumes "i2 < 256" and "i1 < 512" and "i0 < (512::u64)"
  obtains va where "pgaligned va" and "va < MAXVA" and "PX 2 va = i2" and "PX 1 va = i1" and "PX 0 va = i0"
proof -
  define k where "k = unat i0 + 512 * (unat i1 + 512 * unat i2)"
  have b: "unat i0 < 512" "unat i1 < 512" "unat i2 < 256"
    using assms by (simp_all add: word_less_nat_alt)
  then have k: "k < 67108864" by (simp add: k_def)
  then have u: "unat (of_nat (4096 * k) :: u64) = 4096 * k"
    by (intro unat_of_nat_u64) simp
  have "k div 512 = unat i1 + 512 * unat i2" using b by (simp add: k_def)
  moreover have "k mod 512 = unat i0" using b by (simp only: k_def mod_mult_self2 mod_less)
  moreover have "k div 262144 = unat i2"
    using b div_mult2_eq [of k 512 512] \<open>k div 512 = _\<close> by simp
  moreover have "k div 512 mod 512 = unat i1"
    using b \<open>k div 512 = _\<close> by (simp only: mod_mult_self2 mod_less)
  ultimately have "PX 2 (of_nat (4096 * k)) = i2" "PX 1 (of_nat (4096 * k)) = i1" "PX 0 (of_nat (4096 * k)) = i0"
    using b by (simp_all add: word_unat_eq_iff unat_PX u div_mult2_eq [of _ 4096 "_ :: nat", symmetric] del: of_nat_mult)
  then show thesis
    using k u by (intro that [of "of_nat (4096 * k)"]) (simp_all add: pgaligned_unat word_less_nat_alt del: of_nat_mult)
qed

end
