(* ===== verification/Kalloc.thy ===== *)
theory Kalloc
  imports Cstring Riscv
begin

text \<open>
  \<^verbatim>\<open>kernel/kalloc.c\<close>: the physical page allocator. The free pages form a linked list in
  the pages themselves: \<^verbatim>\<open>struct run\<close> is the first word of a free page. The state is
  physical memory, the list head \<^verbatim>\<open>kmem.freelist\<close> and the link-time symbol \<^verbatim>\<open>end\<close>.
  Each critical section under \<^verbatim>\<open>kmem.lock\<close> is one atomic step of the model.

  \<open>kmem_inv\<close> says that the list is acyclic, page aligned and inside the managed range.
  The locale \<open>page_allocator\<close> is the contract the virtual-memory code relies on; it is
  interpreted on \<open>kalloc\<close> and \<open>kfree\<close> below.
\<close>

section \<open>State and operations\<close>

record phys =
  pmem :: mem
  freelist :: u64
  kend :: u64

definition kfree :: "u64 \<Rightarrow> 'z phys_scheme \<Rightarrow> 'z phys_scheme kres" where
  "kfree pa s =
     (if pa mod PGSIZE \<noteq> 0 \<or> pa < kend s \<or> pa \<ge> PHYSTOP then kpanic ''kfree''
      else
        let m = memset pa 1 (unat PGSIZE) (pmem s) in
        Inr (s\<lparr>pmem := st64 pa (freelist s) m, freelist := pa\<rparr>))"

definition kalloc :: "'z phys_scheme \<Rightarrow> u64 \<times> 'z phys_scheme" where
  "kalloc s =
     (let r = freelist s;
          s1 = (if r \<noteq> 0 then s\<lparr>freelist := ld64 (pmem s) r\<rparr> else s);
          s2 = (if r \<noteq> 0 then s1\<lparr>pmem := memset r 5 (unat PGSIZE) (pmem s1)\<rparr> else s1)
      in (r, s2))"

partial_function (option) freerange_loop ::
  "u64 \<Rightarrow> u64 \<Rightarrow> 'z phys_scheme \<Rightarrow> 'z phys_scheme kres option" where
  "freerange_loop p pa_end s =
     (if p + PGSIZE \<le> pa_end
      then (case kfree p s of Inl e \<Rightarrow> Some (Inl e)
            | Inr s' \<Rightarrow> freerange_loop (p + PGSIZE) pa_end s')
      else Some (Inr s))"

definition freerange :: "u64 \<Rightarrow> u64 \<Rightarrow> 'z phys_scheme \<Rightarrow> 'z phys_scheme kres option" where
  "freerange pa_start pa_end s = freerange_loop (PGROUNDUP pa_start) pa_end s"

definition kinit :: "'z phys_scheme \<Rightarrow> 'z phys_scheme kres option" where
  "kinit s = freerange (kend s) PHYSTOP s"

section \<open>The free list\<close>

primrec flist :: "mem \<Rightarrow> u64 \<Rightarrow> u64 list \<Rightarrow> bool" where
  "flist m p [] \<longleftrightarrow> p = 0"
| "flist m p (a # as) \<longleftrightarrow> p = a \<and> a \<noteq> 0 \<and> flist m (ld64 m a) as"

definition valid_page :: "'z phys_scheme \<Rightarrow> u64 \<Rightarrow> bool" where
  "valid_page s a \<longleftrightarrow> pgaligned a \<and> kend s \<le> a \<and> a < PHYSTOP"

definition kmem_ok :: "'z phys_scheme \<Rightarrow> u64 list \<Rightarrow> bool" where
  "kmem_ok s as \<longleftrightarrow>
     KERNBASE \<le> kend s \<and> flist (pmem s) (freelist s) as \<and> distinct as \<and>
     (\<forall>a \<in> set as. valid_page s a)"

definition kmem_inv :: "'z phys_scheme \<Rightarrow> bool" where
  "kmem_inv s \<longleftrightarrow> (\<exists>as. kmem_ok s as)"

definition free_pages :: "'z phys_scheme \<Rightarrow> u64 set" where
  "free_pages s = {a. \<exists>as. flist (pmem s) (freelist s) as \<and> a \<in> set as}"

lemma flist_unique: "flist m p as \<Longrightarrow> flist m p bs \<Longrightarrow> as = bs"
proof (induction as arbitrary: p bs)
  case Nil
  then show ?case by (cases bs) auto
next
  case (Cons a as)
  then show ?case by (cases bs) auto
qed

lemma flist_cong:
  "(\<And>a. a \<in> set as \<Longrightarrow> ld64 m a = ld64 m' a) \<Longrightarrow> flist m p as = flist m' p as"
  by (induction as arbitrary: p) auto

lemma free_pages_eq: "flist (pmem s) (freelist s) as \<Longrightarrow> free_pages s = set as"
  by (auto simp: free_pages_def dest: flist_unique)

lemma kmem_ok_pages: "kmem_ok s as \<Longrightarrow> free_pages s = set as"
  by (simp add: kmem_ok_def free_pages_eq)

lemma valid_page_nonzero: "KERNBASE \<le> kend s \<Longrightarrow> valid_page s a \<Longrightarrow> a \<noteq> 0"
  by (auto simp: valid_page_def word_le_nat_alt)

lemma memset_page:
  "pgaligned a \<Longrightarrow>
   memset a c 4096 m = (\<lambda>x. if PGROUNDDOWN x = a then c else m x)"
  by (simp add: memset_eq in_page_iff)

lemma ld64_other_page:
  assumes "pgaligned a" and "\<And>x. PGROUNDDOWN x = a \<Longrightarrow> m x = m' x"
  shows "ld64 m a = ld64 m' a"
  by (rule ld64_cong) (use assms page_first_word in auto)

section \<open>Branches of kalloc and kfree\<close>

lemma kalloc_empty: "freelist s = 0 \<Longrightarrow> kalloc s = (0, s)"
  by (simp add: kalloc_def)

lemma kalloc_cons:
  assumes "kmem_ok s (a # as)"
  shows "kalloc s = (a, s\<lparr>freelist := ld64 (pmem s) a,
      pmem := (\<lambda>x. if PGROUNDDOWN x = a then 5 else pmem s x)\<rparr>)"
  using assms by (auto simp: kalloc_def Let_def kmem_ok_def valid_page_def memset_page)

lemma kalloc_ok:
  assumes "kmem_ok s (a # as)"
  shows "kmem_ok (snd (kalloc s)) as"
proof -
  let ?m = "\<lambda>x. if PGROUNDDOWN x = a then 5 else pmem s x"
  from assms have fl: "flist (pmem s) (ld64 (pmem s) a) as" and d: "a \<notin> set as"
    and v: "\<And>b. b \<in> set as \<Longrightarrow> valid_page s b"
    by (auto simp: kmem_ok_def)
  have "ld64 (pmem s) b = ld64 ?m b" if "b \<in> set as" for b
    by (rule ld64_other_page) (use d v [OF that] that in \<open>auto simp: valid_page_def\<close>)
  from flist_cong [OF this] fl have "flist ?m (ld64 (pmem s) a) as" by blast
  with assms show ?thesis
    by (auto simp: kalloc_cons [OF assms] kmem_ok_def valid_page_def)
qed

lemma kfree_panics_iff:
  "kfree pa s = kpanic ''kfree'' \<longleftrightarrow> \<not> valid_page s pa"
  by (auto simp: kfree_def Let_def valid_page_def pgaligned_def kpanic_def)

lemma kfree_Inr:
  assumes "valid_page s pa"
  shows "kfree pa s = Inr (s\<lparr>freelist := pa,
    pmem := st64 pa (freelist s) (\<lambda>x. if PGROUNDDOWN x = pa then 1 else pmem s x)\<rparr>)"
  using assms by (auto simp: kfree_def Let_def valid_page_def pgaligned_def
      memset_page [unfolded pgaligned_def])

lemma st64_other_page:
  assumes "pgaligned a" and "PGROUNDDOWN x \<noteq> a"
  shows "st64 a v m x = m x"
proof -
  have "\<not> unat (x - a) < 4096" using assms by (simp add: in_page_iff)
  then show ?thesis by (simp add: st64_outside)
qed

lemma kfree_ok:
  assumes ok: "kmem_ok s as" and v: "valid_page s pa" and "pa \<notin> set as"
    and eq: "kfree pa s = Inr s'"
  shows "kmem_ok s' (pa # as)"
proof -
  let ?m = "st64 pa (freelist s) (\<lambda>x. if PGROUNDDOWN x = pa then 1 else pmem s x)"
  have s': "s' = s\<lparr>freelist := pa, pmem := ?m\<rparr>"
    using eq by (simp add: kfree_Inr [OF v])
  have al: "pgaligned pa" using v by (simp add: valid_page_def)
  have "ld64 (pmem s) b = ld64 ?m b" if "b \<in> set as" for b
  proof (rule ld64_other_page)
    show "pgaligned b" using ok that by (simp add: kmem_ok_def valid_page_def)
    have "b \<noteq> pa" using assms(3) that by auto
    then show "pmem s x = ?m x" if "PGROUNDDOWN x = b" for x
      using that al by (simp add: st64_other_page)
  qed
  from flist_cong [OF this] ok have "flist ?m (freelist s) as"
    unfolding kmem_ok_def by blast
  then show ?thesis
    using ok assms(3) v valid_page_nonzero [OF _ v]
    by (auto simp: s' kmem_ok_def valid_page_def)
qed

lemma kfree_mem_other:
  assumes "kfree pa s = Inr s'" and "PGROUNDDOWN x \<noteq> pa"
  shows "pmem s' x = pmem s x"
proof -
  have v: "valid_page s pa" using assms(1) kfree_panics_iff [of pa s] by auto
  then have "pgaligned pa" by (simp add: valid_page_def)
  with assms v show ?thesis by (auto simp: kfree_Inr st64_other_page)
qed

lemma kalloc_mem_other:
  assumes "kmem_inv s" and "PGROUNDDOWN x \<noteq> fst (kalloc s)"
  shows "pmem (snd (kalloc s)) x = pmem s x"
proof -
  obtain as where ok: "kmem_ok s as" using assms(1) by (auto simp: kmem_inv_def)
  show ?thesis
  proof (cases as)
    case Nil
    with ok show ?thesis by (simp add: kmem_ok_def kalloc_empty)
  next
    case (Cons a bs)
    with ok assms(2) show ?thesis by (simp add: kalloc_cons)
  qed
qed

section \<open>The allocator contract\<close>

text \<open>
  What clients rely on: \<open>alloc\<close> hands out a page that was free and is not any more, or
  0 when nothing is free; \<open>free\<close> makes a page free again.
\<close>

locale page_allocator =
  fixes alloc :: "'s \<Rightarrow> u64 \<times> 's"
    and free :: "u64 \<Rightarrow> 's \<Rightarrow> 's kres"
    and pages :: "'s \<Rightarrow> u64 set"
    and valid :: "'s \<Rightarrow> u64 \<Rightarrow> bool"
    and inv :: "'s \<Rightarrow> bool"
  assumes alloc_null: "inv s \<Longrightarrow> pages s = {} \<Longrightarrow> alloc s = (0, s)"
    and alloc_page: "inv s \<Longrightarrow> pages s \<noteq> {} \<Longrightarrow>
      fst (alloc s) \<noteq> 0 \<and> fst (alloc s) \<in> pages s \<and>
      pages (snd (alloc s)) = pages s - {fst (alloc s)}"
    and alloc_inv: "inv s \<Longrightarrow> inv (snd (alloc s))"
    and pages_valid: "inv s \<Longrightarrow> p \<in> pages s \<Longrightarrow> valid s p"
    and pages_finite: "inv s \<Longrightarrow> finite (pages s)"
    and alloc_valid: "inv s \<Longrightarrow> valid (snd (alloc s)) p = valid s p"
    and free_page: "inv s \<Longrightarrow> valid s p \<Longrightarrow> p \<notin> pages s \<Longrightarrow>
      \<exists>s'. free p s = Inr s' \<and> inv s' \<and> pages s' = insert p (pages s)"
begin

primrec allocs :: "nat \<Rightarrow> 's \<Rightarrow> u64 list \<times> 's" where
  "allocs 0 s = ([], s)"
| "allocs (Suc n) s =
     (let (p, s1) = alloc s; (ps, s2) = allocs n s1 in (p # ps, s2))"

lemma alloc_zero_iff: "inv s \<Longrightarrow> fst (alloc s) = 0 \<longleftrightarrow> pages s = {}"
  using alloc_null alloc_page by fastforce

lemma alloc_fresh: "inv s \<Longrightarrow> fst (alloc s) \<notin> pages (snd (alloc s))"
  using alloc_null alloc_page by (cases "pages s = {}") auto

lemma allocs_inv: "inv s \<Longrightarrow> inv (snd (allocs n s))"
  by (induction n arbitrary: s) (auto simp: split_beta Let_def alloc_inv)

lemma alloc_shrinks: "inv s \<Longrightarrow> pages (snd (alloc s)) \<subseteq> pages s"
  using alloc_null alloc_page by (cases "pages s = {}") auto

lemma allocs_pages:
  "inv s \<Longrightarrow> n \<le> card (pages s) \<Longrightarrow>
   set (fst (allocs n s)) \<subseteq> pages s \<and> distinct (fst (allocs n s)) \<and>
   pages (snd (allocs n s)) = pages s - set (fst (allocs n s)) \<and> 0 \<notin> set (fst (allocs n s))"
proof (induction n arbitrary: s)
  case 0
  show ?case by simp
next
  case (Suc n)
  let ?p = "fst (alloc s)" and ?s = "snd (alloc s)"
  have ne: "pages s \<noteq> {}" using Suc.prems by auto
  note a = alloc_page [OF Suc.prems(1) ne]
  have "n \<le> card (pages ?s)"
    using Suc.prems a pages_finite [OF Suc.prems(1)] by simp
  note IH = Suc.IH [OF alloc_inv [OF Suc.prems(1)] this]
  with a show ?case by (auto simp: split_beta Let_def)
qed

lemma length_allocs: "length (fst (allocs n s)) = n"
  by (induction n arbitrary: s) (auto simp: split_beta Let_def)

text \<open>Exactly as many allocations succeed as there were free pages.\<close>

lemma allocs_exhaust:
  assumes "inv s"
  shows "fst (alloc (snd (allocs (card (pages s)) s))) = 0"
proof -
  let ?r = "allocs (card (pages s)) s"
  have "distinct (fst ?r)" and sub: "set (fst ?r) \<subseteq> pages s"
    and rest: "pages (snd ?r) = pages s - set (fst ?r)"
    using allocs_pages [OF assms order.refl] by auto
  then have "card (set (fst ?r)) = card (pages s)"
    by (simp add: distinct_card length_allocs)
  with sub have "set (fst ?r) = pages s"
    by (simp add: card_subset_eq pages_finite [OF assms])
  with rest show ?thesis
    using alloc_null [OF allocs_inv [OF assms]] by simp
qed

lemma alloc_free_roundtrip:
  assumes "inv s" and "pages s \<noteq> {}"
  shows "\<exists>s'. free (fst (alloc s)) (snd (alloc s)) = Inr s' \<and> inv s' \<and> pages s' = pages s"
proof -
  note a = alloc_page [OF assms]
  have "valid (snd (alloc s)) (fst (alloc s))"
    using a assms(1) by (simp add: alloc_valid pages_valid)
  from free_page [OF alloc_inv [OF assms(1)] this alloc_fresh [OF assms(1)]] a
  show ?thesis by (auto simp: insert_absorb)
qed

end

lemma kmem_invE:
  assumes "kmem_inv s"
  obtains as where "kmem_ok s as" and "free_pages s = set as"
  using assms kmem_ok_pages unfolding kmem_inv_def by blast

interpretation kpages: page_allocator
  "kalloc :: 'z phys_scheme \<Rightarrow> _" kfree free_pages valid_page kmem_inv
proof (unfold_locales, goal_cases)
  case (1 s)
  then show ?case by (auto elim!: kmem_invE simp: kmem_ok_def kalloc_empty)
next
  case (2 s)
  then obtain a as where ok: "kmem_ok s (a # as)" and eq: "free_pages s = set (a # as)"
    by (metis kmem_invE list.exhaust list.set(1))
  have "free_pages (snd (kalloc s)) = set as"
    by (rule kmem_ok_pages [OF kalloc_ok [OF ok]])
  with ok eq show ?case by (auto simp: kalloc_cons [OF ok] kmem_ok_def)
next
  case (3 s)
  then obtain as where ok: "kmem_ok s as" by (rule kmem_invE)
  show ?case
  proof (cases as)
    case Nil
    with ok 3 show ?thesis by (simp add: kmem_ok_def kalloc_empty)
  next
    case (Cons a bs)
    with ok show ?thesis unfolding kmem_inv_def by (blast dest: kalloc_ok)
  qed
next
  case (4 s p)
  then show ?case by (auto elim!: kmem_invE simp: kmem_ok_def)
next
  case (5 s)
  then show ?case by (auto elim!: kmem_invE)
next
  case (6 s p)
  then show ?case by (simp add: kalloc_def Let_def valid_page_def)
next
  case (7 s p)
  then obtain as where ok: "kmem_ok s as" and eq: "free_pages s = set as" by (auto elim: kmem_invE)
  have "kmem_ok s' (p # as)" if "kfree p s = Inr s'" for s'
    by (rule kfree_ok [OF ok _ _ that]) (use 7 eq in auto)
  then show ?case
    using kfree_Inr [OF 7(2)] eq kmem_ok_pages unfolding kmem_inv_def by fastforce
qed

lemma kmem_ok_frame:
  assumes "kmem_ok s as" and "freelist s' = freelist s" and "kend s' = kend s"
    and "\<And>x. PGROUNDDOWN x \<in> set as \<Longrightarrow> pmem s' x = pmem s x"
  shows "kmem_ok s' as"
proof -
  have "ld64 (pmem s) a = ld64 (pmem s') a" if "a \<in> set as" for a
    by (rule ld64_other_page) (use that assms in \<open>auto simp: kmem_ok_def valid_page_def\<close>)
  from flist_cong [OF this] assms show ?thesis
    unfolding kmem_ok_def valid_page_def by metis
qed

lemma kmem_inv_frame:
  assumes "kmem_inv s" and "freelist s' = freelist s" and "kend s' = kend s"
    and "\<And>x. PGROUNDDOWN x \<in> free_pages s \<Longrightarrow> pmem s' x = pmem s x"
  shows "kmem_inv s'" and "free_pages s' = free_pages s"
proof -
  obtain as where ok: "kmem_ok s as" and fr: "free_pages s = set as"
    using assms(1) by (rule kmem_invE)
  have "kmem_ok s' as" by (rule kmem_ok_frame [OF ok assms(2,3)]) (simp add: assms(4) fr)
  then show "kmem_inv s'" "free_pages s' = free_pages s"
    by (auto simp: kmem_inv_def kmem_ok_pages fr)
qed

lemma kalloc_cases:
  assumes "kmem_inv s"
  obtains (empty) "kalloc s = (0, s)" "free_pages s = {}"
    | (page) a as where "kmem_ok s (a # as)" "fst (kalloc s) = a" "a \<noteq> 0"
  using assms
proof (rule kmem_invE)
  fix as assume ok: "kmem_ok s as" and fr: "free_pages s = set as"
  show thesis
  proof (cases as)
    case Nil
    with ok fr show thesis by (intro empty) (auto simp: kmem_ok_def kalloc_empty)
  next
    case (Cons a bs)
    with ok show thesis by (intro page [of a bs]) (auto simp: kmem_ok_def kalloc_cons)
  qed
qed

section \<open>Boot\<close>

lemma aligned_between:
  assumes "4096 dvd (a::nat)" and "4096 dvd b" and "a < b + 4096" and "b \<le> a"
  shows "a = b"
  using assms by (auto elim!: dvdE)

lemma unat_next_page: "p < PHYSTOP \<Longrightarrow> unat (p + 4096) = unat p + 4096"
  by (simp add: word_less_nat_alt unat_word_ariths)

lemma below_next_page:
  assumes "pgaligned p" and "pgaligned a" and "p < PHYSTOP"
  shows "a < p + 4096 \<longleftrightarrow> a < p \<or> a = p"
  using assms aligned_between [of "unat a" "unat p"]
  by (auto simp: word_less_nat_alt unat_next_page pgaligned_unat word_unat_eq_iff
      linorder_not_less [symmetric])

lemma pgaligned_next: "pgaligned p \<Longrightarrow> p < PHYSTOP \<Longrightarrow> pgaligned (p + 4096)"
  by (simp add: pgaligned_unat unat_next_page)

lemma freerange_loop_ok:
  assumes "kmem_ok s as" and "set as = {a. valid_page s a \<and> a < p}"
    and "pgaligned p" and "kend s \<le> p" and "p \<le> PHYSTOP"
  shows "\<exists>s' as'. freerange_loop p PHYSTOP s = Some (Inr s') \<and> kmem_ok s' as' \<and>
    set as' = {a. valid_page s a}"
  using assms
proof (induction "unat PHYSTOP - unat p" arbitrary: p s as rule: less_induct)
  case less
  show ?case
  proof (cases "p = PHYSTOP")
    case True
    then have "freerange_loop p PHYSTOP s = Some (Inr s)"
      by (simp add: freerange_loop.simps)
    with less.prems True show ?thesis by (auto simp: valid_page_def)
  next
    case False
    with less.prems(5) have lt: "p < PHYSTOP" by simp
    with less.prems have v: "valid_page s p" by (simp add: valid_page_def)
    then obtain s' where s': "kfree p s = Inr s'" and ks: "kend s' = kend s"
      by (simp add: kfree_Inr)
    have vs: "valid_page s' = valid_page s" by (auto simp: valid_page_def ks)
    have ok: "kmem_ok s' (p # as)"
      by (rule kfree_ok [OF less.prems(1) v _ s']) (simp add: less.prems(2))
    have "valid_page s a \<and> a < p + 4096 \<longleftrightarrow> a = p \<or> (valid_page s a \<and> a < p)" for a
      using v below_next_page [OF less.prems(3) _ lt, of a]
      unfolding valid_page_def by blast
    then have set: "set (p # as) = {a. valid_page s' a \<and> a < p + 4096}"
      by (simp add: less.prems(2) vs set_eq_iff)
    have "4096 dvd unat p" "unat p < 2281701376"
      using less.prems lt by (auto simp: pgaligned_unat word_less_nat_alt)
    then have le: "p + 4096 \<le> PHYSTOP"
      using lt by (auto simp: word_le_nat_alt unat_next_page elim!: dvdE)
    have "kend s' \<le> p + 4096" "unat PHYSTOP - unat (p + 4096) < unat PHYSTOP - unat p"
      using less.prems lt by (auto simp: ks word_le_nat_alt unat_next_page word_less_nat_alt)
    from less.hyps [OF this(2) ok set pgaligned_next [OF less.prems(3) lt] this(1) le]
    show ?thesis using le by (simp add: vs s' freerange_loop.simps [of p])
  qed
qed

lemma PGROUNDUP_least:
  assumes "pgaligned a" and "k \<le> a" and "k \<le> PHYSTOP"
  shows "PGROUNDUP k \<le> a"
proof -
  have "unat k \<le> 2281701376" using assms(3) by (simp add: word_le_nat_alt)
  then have "unat (PGROUNDUP k) = (unat k + 4095) div 4096 * 4096"
    by (simp add: unat_PGROUNDUP)
  moreover have "4096 dvd unat a" "unat k \<le> unat a"
    using assms by (auto simp: pgaligned_unat word_le_nat_alt)
  ultimately show ?thesis by (auto simp: word_le_nat_alt elim!: dvdE)
qed

lemma PGROUNDUP_ge: "k \<le> PHYSTOP \<Longrightarrow> k \<le> PGROUNDUP k"
  by (simp add: word_le_nat_alt unat_PGROUNDUP)

lemma kinit_ok:
  assumes "freelist s = 0" and "KERNBASE \<le> kend s" and "kend s \<le> PHYSTOP"
  shows "\<exists>s'. kinit s = Some (Inr s') \<and> kmem_inv s' \<and> free_pages s' = {a. valid_page s a}"
proof -
  let ?p = "PGROUNDUP (kend s)"
  have "pgaligned PHYSTOP" by (simp add: pgaligned_def)
  then have le: "?p \<le> PHYSTOP" using assms(3) by (intro PGROUNDUP_least)
  have "kmem_ok s []" using assms by (simp add: kmem_ok_def)
  moreover have "set [] = {a. valid_page s a \<and> a < ?p}"
    using PGROUNDUP_least [OF _ _ assms(3)] by (fastforce simp: valid_page_def)
  ultimately obtain s' as' where "freerange_loop ?p PHYSTOP s = Some (Inr s')"
    and "kmem_ok s' as'" and "set as' = {a. valid_page s a}"
    using freerange_loop_ok [of s "[]" ?p] le PGROUNDUP_ge [OF assms(3)]
      pgaligned_PGROUNDUP [of "kend s"] by blast
  then show ?thesis
    unfolding kinit_def freerange_def kmem_inv_def by (auto dest: kmem_ok_pages)
qed

section \<open>Properties\<close>

text \<open>
  C9. The allocator never hands out a page twice: \<open>kalloc\<close> returns 0 exactly when no page is
  free and otherwise a nonzero free page that is no longer free afterwards; freeing that
  page again restores the set of free pages. The free-list invariant is kept throughout.
\<close>

theorem kalloc_kfree_exact:
  assumes "kmem_inv s"
  shows "(fst (kalloc s) = 0 \<longleftrightarrow> free_pages s = {}) \<and> kmem_inv (snd (kalloc s)) \<and>
    free_pages (snd (kalloc s)) = free_pages s - {fst (kalloc s)} \<and>
    (free_pages s \<noteq> {} \<longrightarrow> fst (kalloc s) \<in> free_pages s \<and>
      (\<exists>s'. kfree (fst (kalloc s)) (snd (kalloc s)) = Inr s' \<and> kmem_inv s' \<and>
        free_pages s' = free_pages s))"
proof (cases "free_pages s = {}")
  case True
  with assms show ?thesis by (simp add: kpages.alloc_null)
next
  case False
  with assms show ?thesis
    using kpages.alloc_page kpages.alloc_inv kpages.alloc_free_roundtrip by blast
qed

theorem kalloc_kfree_exact_witness:
  "let s = \<lparr>pmem = (\<lambda>_. 0), freelist = 0x80005000, kend = 0x80000000\<rparr> in
     free_pages s = {0x80005000} \<and> fst (kalloc s) = 0x80005000 \<and>
     (\<exists>s'. kfree (fst (kalloc s)) (snd (kalloc s)) = Inr s' \<and> free_pages s' = {0x80005000})"
proof -
  let ?s = "\<lparr>pmem = (\<lambda>_. 0), freelist = 0x80005000, kend = 0x80000000\<rparr>"
  have ok: "kmem_ok ?s [0x80005000]"
    by (auto simp: kmem_ok_def valid_page_def pgaligned_def intro: ld64_zero)
  then have inv: "kmem_inv ?s" and fr: "free_pages ?s = {0x80005000}"
    by (auto simp: kmem_inv_def kmem_ok_pages)
  from kalloc_kfree_exact [OF inv] fr show ?thesis by (auto simp: Let_def)
qed

end
