(* ===== verification/Vm.thy ===== *)
theory Vm
  imports Kalloc
begin

unbundle bit_operations_syntax

text \<open>
  \<^verbatim>\<open>kernel/vm.c\<close>: Sv39 page tables kept in physical memory. A page-table page is 512
  little-endian 64-bit entries; \<^verbatim>\<open>pagetable[i]\<close> is the word at \<open>pagetable + 8 * i\<close>.
  Every loop over addresses calls \<open>walk\<close>, which panics at \<open>MAXVA\<close>, so the loops are total
  functions; \<open>freewalk\<close> follows pointers found in memory and is a \<open>partial_function\<close>.
  The C \<open>int\<close> results 0 and -1 are the \<open>int\<close> values 0 and -1.
\<close>

section \<open>Walking the table\<close>

primrec walk_levels :: "nat \<Rightarrow> u64 \<Rightarrow> u64 \<Rightarrow> bool \<Rightarrow> 'z phys_scheme \<Rightarrow> u64 \<times> 'z phys_scheme" where
  "walk_levels 0 pagetable va alloc s = (pagetable + 8 * PX 0 va, s)"
| "walk_levels (Suc l) pagetable va alloc s =
     (let pte = pagetable + 8 * PX (Suc l) va in
      if ld64 (pmem s) pte AND PTE_V \<noteq> 0
      then walk_levels l (PTE2PA (ld64 (pmem s) pte)) va alloc s
      else if \<not> alloc then (0, s)
      else let (pg, s1) = kalloc s in
        if pg = 0 then (0, s1)
        else walk_levels l pg va alloc
          (s1\<lparr>pmem := st64 pte (PA2PTE pg OR PTE_V) (memset pg 0 (unat PGSIZE) (pmem s1))\<rparr>))"

definition walk :: "u64 \<Rightarrow> u64 \<Rightarrow> bool \<Rightarrow> 'z phys_scheme \<Rightarrow> (u64 \<times> 'z phys_scheme) kres" where
  "walk pagetable va alloc s =
     (if va \<ge> MAXVA then kpanic ''walk'' else Inr (walk_levels 2 pagetable va alloc s))"

definition walkaddr :: "u64 \<Rightarrow> u64 \<Rightarrow> 'z phys_scheme \<Rightarrow> u64 kres" where
  "walkaddr pagetable va s =
     (if va \<ge> MAXVA then Inr 0
      else kbind (walk pagetable va False s) (\<lambda>(pte, _).
        if pte = 0 then Inr 0
        else if ld64 (pmem s) pte AND PTE_V = 0 then Inr 0
        else if ld64 (pmem s) pte AND PTE_U = 0 then Inr 0
        else Inr (PTE2PA (ld64 (pmem s) pte))))"

definition ismapped :: "u64 \<Rightarrow> u64 \<Rightarrow> 'z phys_scheme \<Rightarrow> bool kres" where
  "ismapped pagetable va s =
     kbind (walk pagetable va False s) (\<lambda>(pte, _).
       if pte = 0 then Inr False else Inr (ld64 (pmem s) pte AND PTE_V \<noteq> 0))"

lemma walk_below_MAXVA: "walk pt va al s = Inr r \<Longrightarrow> va < MAXVA"
  by (simp add: walk_def split: if_splits)

lemma next_page_greater: "(a::u64) < MAXVA \<Longrightarrow> unat (a + 4096) = unat a + 4096"
  by (simp add: word_less_nat_alt unat_word_ariths)

lemma loop_measure:
  "(a::u64) < MAXVA \<Longrightarrow>
   unat (- 1 :: u64) - unat (a + PGSIZE) < unat (- 1 :: u64) - unat a"
  using next_page_greater [of a]
  by (simp add: word_less_nat_alt unsigned_minus_1_eq_mask mask_eq_exp_minus_1)

section \<open>Adding and removing mappings\<close>

function mappages_loop ::
  "u64 \<Rightarrow> u64 \<Rightarrow> u64 \<Rightarrow> u64 \<Rightarrow> u64 \<Rightarrow> 'z phys_scheme \<Rightarrow> (int \<times> 'z phys_scheme) kres" where
  "mappages_loop pagetable a lst pa perm s =
     (case walk pagetable a True s of
        Inl e \<Rightarrow> Inl e
      | Inr (pte, s1) \<Rightarrow>
          if pte = 0 then Inr (-1, s1)
          else if ld64 (pmem s1) pte AND PTE_V \<noteq> 0 then kpanic ''mappages: remap''
          else let s2 = s1\<lparr>pmem := st64 pte (PA2PTE pa OR perm OR PTE_V) (pmem s1)\<rparr> in
            if a = lst then Inr (0, s2)
            else mappages_loop pagetable (a + PGSIZE) lst (pa + PGSIZE) perm s2)"
  by pat_completeness auto
termination
  by (relation "measure (\<lambda>(_, a, _). unat (- 1 :: u64) - unat a)")
    (auto dest!: walk_below_MAXVA intro: loop_measure simp del: PGSIZE_def MAXVA_def)

declare mappages_loop.simps [simp del]

definition mappages ::
  "u64 \<Rightarrow> u64 \<Rightarrow> u64 \<Rightarrow> u64 \<Rightarrow> u64 \<Rightarrow> 'z phys_scheme \<Rightarrow> (int \<times> 'z phys_scheme) kres" where
  "mappages pagetable va sz pa perm s =
     (if va mod PGSIZE \<noteq> 0 then kpanic ''mappages: va not aligned''
      else if sz mod PGSIZE \<noteq> 0 then kpanic ''mappages: size not aligned''
      else if sz = 0 then kpanic ''mappages: size''
      else mappages_loop pagetable va (va + sz - PGSIZE) pa perm s)"

definition kvmmap ::
  "u64 \<Rightarrow> u64 \<Rightarrow> u64 \<Rightarrow> u64 \<Rightarrow> u64 \<Rightarrow> 'z phys_scheme \<Rightarrow> 'z phys_scheme kres" where
  "kvmmap kpgtbl va pa sz perm s =
     kbind (mappages kpgtbl va sz pa perm s) (\<lambda>(r, s1).
       if r \<noteq> 0 then kpanic ''kvmmap'' else Inr s1)"

definition uvmcreate :: "'z phys_scheme \<Rightarrow> u64 \<times> 'z phys_scheme" where
  "uvmcreate s =
     (let (pagetable, s1) = kalloc s in
      if pagetable = 0 then (0, s1)
      else (pagetable, s1\<lparr>pmem := memset pagetable 0 (unat PGSIZE) (pmem s1)\<rparr>))"

function uvmunmap_loop ::
  "u64 \<Rightarrow> u64 \<Rightarrow> u64 \<Rightarrow> bool \<Rightarrow> 'z phys_scheme \<Rightarrow> 'z phys_scheme kres" where
  "uvmunmap_loop pagetable a end do_free s =
     (if \<not> a < end then Inr s
      else case walk pagetable a False s of
        Inl e \<Rightarrow> Inl e
      | Inr (pte, _) \<Rightarrow>
          if pte = 0 then uvmunmap_loop pagetable (a + PGSIZE) end do_free s
          else if ld64 (pmem s) pte AND PTE_V = 0
          then uvmunmap_loop pagetable (a + PGSIZE) end do_free s
          else case (if do_free then kfree (PTE2PA (ld64 (pmem s) pte)) s else Inr s) of
            Inl e \<Rightarrow> Inl e
          | Inr s1 \<Rightarrow> uvmunmap_loop pagetable (a + PGSIZE) end do_free
              (s1\<lparr>pmem := st64 pte 0 (pmem s1)\<rparr>))"
  by pat_completeness auto
termination
  by (relation "measure (\<lambda>(_, a, _). unat (- 1 :: u64) - unat a)")
    (auto dest!: walk_below_MAXVA intro: loop_measure simp del: PGSIZE_def MAXVA_def)

declare uvmunmap_loop.simps [simp del]

definition uvmunmap ::
  "u64 \<Rightarrow> u64 \<Rightarrow> u64 \<Rightarrow> bool \<Rightarrow> 'z phys_scheme \<Rightarrow> 'z phys_scheme kres" where
  "uvmunmap pagetable va npages do_free s =
     (if va mod PGSIZE \<noteq> 0 then kpanic ''uvmunmap: not aligned''
      else uvmunmap_loop pagetable va (va + npages * PGSIZE) do_free s)"

definition uvmdealloc ::
  "u64 \<Rightarrow> u64 \<Rightarrow> u64 \<Rightarrow> 'z phys_scheme \<Rightarrow> (u64 \<times> 'z phys_scheme) kres" where
  "uvmdealloc pagetable oldsz newsz s =
     (if newsz \<ge> oldsz then Inr (oldsz, s)
      else if PGROUNDUP newsz < PGROUNDUP oldsz
      then let npages = ucast ((PGROUNDUP oldsz - PGROUNDUP newsz) div PGSIZE) :: u32 in
        kbind (uvmunmap pagetable (PGROUNDUP newsz) (scast npages) True s)
          (\<lambda>s1. Inr (newsz, s1))
      else Inr (newsz, s))"

function uvmalloc_loop ::
  "u64 \<Rightarrow> u64 \<Rightarrow> u64 \<Rightarrow> u64 \<Rightarrow> u64 \<Rightarrow> 'z phys_scheme \<Rightarrow> (u64 \<times> 'z phys_scheme) kres" where
  "uvmalloc_loop pagetable a oldsz newsz xperm s =
     (if \<not> a < newsz then Inr (newsz, s)
      else let (mem, s1) = kalloc s in
        if mem = 0 then kbind (uvmdealloc pagetable a oldsz s1) (\<lambda>(_, s2). Inr (0, s2))
        else let s2 = s1\<lparr>pmem := memset mem 0 (unat PGSIZE) (pmem s1)\<rparr> in
          case mappages pagetable a PGSIZE mem (PTE_R OR PTE_U OR xperm) s2 of
            Inl e \<Rightarrow> Inl e
          | Inr (r, s3) \<Rightarrow>
              if r \<noteq> 0
              then kbind (kfree mem s3) (\<lambda>s4.
                kbind (uvmdealloc pagetable a oldsz s4) (\<lambda>(_, s5). Inr (0, s5)))
              else uvmalloc_loop pagetable (a + PGSIZE) oldsz newsz xperm s3)"
  by pat_completeness auto

lemma mappages_below_MAXVA: "mappages pt va sz pa perm s = Inr r \<Longrightarrow> va < MAXVA"
  by (auto simp: mappages_def mappages_loop.simps [of pt va] walk_def
      split: if_splits sum.splits)

termination uvmalloc_loop
  by (relation "measure (\<lambda>(_, a, _). unat (- 1 :: u64) - unat a)")
    (auto dest!: mappages_below_MAXVA intro: loop_measure simp del: PGSIZE_def MAXVA_def)

declare uvmalloc_loop.simps [simp del]

definition uvmalloc ::
  "u64 \<Rightarrow> u64 \<Rightarrow> u64 \<Rightarrow> u64 \<Rightarrow> 'z phys_scheme \<Rightarrow> (u64 \<times> 'z phys_scheme) kres" where
  "uvmalloc pagetable oldsz newsz xperm s =
     (if newsz < oldsz then Inr (oldsz, s)
      else uvmalloc_loop pagetable (PGROUNDUP oldsz) (PGROUNDUP oldsz) newsz xperm s)"

section \<open>Freeing, copying and protecting an address space\<close>

text \<open>The loop of \<open>freewalk\<close> from entry \<open>i\<close> on, ending with the page itself.\<close>

partial_function (option) freewalk_from ::
  "u64 \<Rightarrow> nat \<Rightarrow> 'z phys_scheme \<Rightarrow> 'z phys_scheme kres option" where
  "freewalk_from pagetable i s =
     (if i < 512 then
        let slot = pagetable + 8 * of_nat i; pte = ld64 (pmem s) slot in
        if pte AND PTE_V \<noteq> 0 \<and> pte AND (PTE_R OR PTE_W OR PTE_X) = 0
        then Option.bind (freewalk_from (PTE2PA pte) 0 s) (\<lambda>r.
          case r of
            Inl e \<Rightarrow> Some (Inl e)
          | Inr s1 \<Rightarrow> freewalk_from pagetable (i + 1) (s1\<lparr>pmem := st64 slot 0 (pmem s1)\<rparr>))
        else if pte AND PTE_V \<noteq> 0 then Some (kpanic ''freewalk: leaf'')
        else freewalk_from pagetable (i + 1) s
      else Some (kfree pagetable s))"

definition freewalk :: "u64 \<Rightarrow> 'z phys_scheme \<Rightarrow> 'z phys_scheme kres" where
  "freewalk pagetable s = kopt (freewalk_from pagetable 0 s)"

definition uvmfree :: "u64 \<Rightarrow> u64 \<Rightarrow> 'z phys_scheme \<Rightarrow> 'z phys_scheme kres" where
  "uvmfree pagetable sz s =
     kbind (if sz > 0 then uvmunmap pagetable 0 (PGROUNDUP sz div PGSIZE) True s else Inr s)
       (freewalk pagetable)"

function uvmcopy_loop ::
  "u64 \<Rightarrow> u64 \<Rightarrow> u64 \<Rightarrow> u64 \<Rightarrow> 'z phys_scheme \<Rightarrow> (int \<times> 'z phys_scheme) kres" where
  "uvmcopy_loop old new i sz s =
     (if \<not> i < sz then Inr (0, s)
      else case walk old i False s of
        Inl e \<Rightarrow> Inl e
      | Inr (pte, _) \<Rightarrow>
          if pte = 0 then uvmcopy_loop old new (i + PGSIZE) sz s
          else if ld64 (pmem s) pte AND PTE_V = 0 then uvmcopy_loop old new (i + PGSIZE) sz s
          else
            let pa = PTE2PA (ld64 (pmem s) pte); flags = PTE_FLAGS (ld64 (pmem s) pte);
                err = (\<lambda>s'. kbind (uvmunmap new 0 (i div PGSIZE) True s') (\<lambda>s''. Inr (-1, s'')));
                (mem, s1) = kalloc s in
            if mem = 0 then err s1
            else
              let s2 = s1\<lparr>pmem := memmove mem pa (unat PGSIZE) (pmem s1)\<rparr> in
              case mappages new i PGSIZE mem flags s2 of
                Inl e \<Rightarrow> Inl e
              | Inr (r, s3) \<Rightarrow>
                  if r \<noteq> 0 then kbind (kfree mem s3) err
                  else uvmcopy_loop old new (i + PGSIZE) sz s3)"
  by pat_completeness auto
termination
  by (relation "measure (\<lambda>(_, _, i, _). unat (- 1 :: u64) - unat i)")
    (auto dest!: walk_below_MAXVA intro: loop_measure simp del: PGSIZE_def MAXVA_def)

declare uvmcopy_loop.simps [simp del]

definition uvmcopy ::
  "u64 \<Rightarrow> u64 \<Rightarrow> u64 \<Rightarrow> 'z phys_scheme \<Rightarrow> (int \<times> 'z phys_scheme) kres" where
  "uvmcopy old new sz s = uvmcopy_loop old new 0 sz s"

definition uvmclear :: "u64 \<Rightarrow> u64 \<Rightarrow> 'z phys_scheme \<Rightarrow> 'z phys_scheme kres" where
  "uvmclear pagetable va s =
     kbind (walk pagetable va False s) (\<lambda>(pte, _).
       if pte = 0 then kpanic ''uvmclear''
       else Inr (s\<lparr>pmem := st64 pte (ld64 (pmem s) pte AND NOT PTE_U) (pmem s)\<rparr>))"

section \<open>Lazy allocation\<close>

text \<open>
  \<^verbatim>\<open>vmfault\<close> reads \<^verbatim>\<open>myproc()->sz\<close> and \<^verbatim>\<open>myproc()->pagetable\<close>; here they are the
  arguments \<open>psz\<close> and \<open>ppt\<close>. The check is made on \<open>pagetable\<close> and the new page is mapped
  in \<open>ppt\<close>.
\<close>

definition vmfault ::
  "u64 \<Rightarrow> u64 \<Rightarrow> u64 \<Rightarrow> u64 \<Rightarrow> 'z phys_scheme \<Rightarrow> (u64 \<times> 'z phys_scheme) kres" where
  "vmfault ppt psz pagetable va0 s =
     (if va0 \<ge> psz then Inr (0, s)
      else let va = PGROUNDDOWN va0 in
        kbind (ismapped pagetable va s) (\<lambda>mapped.
          if mapped then Inr (0, s)
          else let (mem, s1) = kalloc s in
            if mem = 0 then Inr (0, s1)
            else let s2 = s1\<lparr>pmem := memset mem 0 (unat PGSIZE) (pmem s1)\<rparr> in
              kbind (mappages ppt va PGSIZE mem (PTE_W OR PTE_U OR PTE_R) s2) (\<lambda>(r, s3).
                if r \<noteq> 0 then kbind (kfree mem s3) (\<lambda>s4. Inr (0, s4))
                else Inr (mem, s3))))"

section \<open>Copying between kernel and user memory\<close>

lemma page_rest: "unat (PGSIZE - (x - PGROUNDDOWN x)) = 4096 - unat x mod 4096"
proof -
  have "unat (x - PGROUNDDOWN x) = unat x - unat x div 4096 * 4096"
    using PGROUNDDOWN_le [of x] by (simp add: unat_sub unat_PGROUNDDOWN)
  then have r: "unat (x - PGROUNDDOWN x) = unat x mod 4096"
    by (simp add: minus_div_mult_eq_mod)
  then have "x - PGROUNDDOWN x \<le> 4096" by (simp add: word_le_nat_alt)
  with r show ?thesis by (simp add: unat_sub)
qed

lemma chunk_measure:
  assumes "0 < (len::u64)"
  shows "unat (len - min (PGSIZE - (x - PGROUNDDOWN x)) len) < unat len"
proof -
  let ?n = "min (PGSIZE - (x - PGROUNDDOWN x)) len"
  have "unat (PGSIZE - (x - PGROUNDDOWN x)) \<noteq> 0"
    using mod_less_divisor [of 4096 "unat x"] by (simp add: page_rest del: PGSIZE_def)
  then have "?n \<noteq> 0" using assms by (auto simp: min_def)
  then have "unat ?n \<noteq> 0" by (simp add: unsigned_eq_0_iff)
  moreover have le: "?n \<le> len" by simp
  then have "unat ?n \<le> unat len" by (simp only: word_le_nat_alt)
  ultimately show ?thesis by (simp only: unat_sub [OF le])
qed

text \<open>
  The kernel side of a copy is a value: \<open>copyout\<close> takes the bytes to write; \<open>copyin\<close> and
  \<open>copyinstr\<close> return the bytes written to \<open>dst\<close>, also on failure, when a prefix has been
  written already.
\<close>

function copyout ::
  "u64 \<Rightarrow> u64 \<Rightarrow> u64 \<Rightarrow> u64 \<Rightarrow> byte list \<Rightarrow> u64 \<Rightarrow> 'z phys_scheme
   \<Rightarrow> (int \<times> 'z phys_scheme) kres" where
  "copyout ppt psz pagetable dstva src len s =
     (if \<not> 0 < len then Inr (0, s)
      else let va0 = PGROUNDDOWN dstva in
        if va0 \<ge> MAXVA then Inr (-1, s)
        else kbind (walkaddr pagetable va0 s) (\<lambda>w.
          kbind (if w = 0 then vmfault ppt psz pagetable va0 s else Inr (w, s)) (\<lambda>(pa0, s1).
            if pa0 = 0 then Inr (-1, s1)
            else kbind (walk pagetable va0 False s1) (\<lambda>(pte, _).
              if pte = 0 then kpanic ''kerneltrap''
              else if ld64 (pmem s1) pte AND PTE_W = 0 then Inr (-1, s1)
              else let n = min (PGSIZE - (dstva - va0)) len in
                copyout ppt psz pagetable (va0 + PGSIZE) (drop (unat n) src) (len - n)
                  (s1\<lparr>pmem := poke (pa0 + (dstva - va0)) (take (unat n) src) (pmem s1)\<rparr>)))))"
  by pat_completeness auto
termination
  by (relation "measure (\<lambda>(_, _, _, _, _, len, _). unat len)")
    (auto intro: chunk_measure simp del: PGSIZE_def)

declare copyout.simps [simp del]

function copyin ::
  "u64 \<Rightarrow> u64 \<Rightarrow> u64 \<Rightarrow> u64 \<Rightarrow> u64 \<Rightarrow> 'z phys_scheme
   \<Rightarrow> (int \<times> byte list \<times> 'z phys_scheme) kres" where
  "copyin ppt psz pagetable srcva len s =
     (if \<not> 0 < len then Inr (0, [], s)
      else let va0 = PGROUNDDOWN srcva in
        kbind (walkaddr pagetable va0 s) (\<lambda>w.
          kbind (if w = 0 then vmfault ppt psz pagetable va0 s else Inr (w, s)) (\<lambda>(pa0, s1).
            if pa0 = 0 then Inr (-1, [], s1)
            else let n = min (PGSIZE - (srcva - va0)) len in
              kbind (copyin ppt psz pagetable (va0 + PGSIZE) (len - n) s1) (\<lambda>(r, bs, s2).
                Inr (r, peek (pmem s1) (pa0 + (srcva - va0)) (unat n) @ bs, s2)))))"
  by pat_completeness auto
termination
  by (relation "measure (\<lambda>(_, _, _, _, len, _). unat len)")
    (auto intro: chunk_measure simp del: PGSIZE_def)

declare copyin.simps [simp del]

primrec str_chunk :: "mem \<Rightarrow> u64 \<Rightarrow> nat \<Rightarrow> bool \<times> byte list" where
  "str_chunk m p 0 = (False, [])"
| "str_chunk m p (Suc n) =
     (if m p = 0 then (True, [0])
      else let (got_null, bs) = str_chunk m (p + 1) n in (got_null, m p # bs))"

function copyinstr ::
  "u64 \<Rightarrow> u64 \<Rightarrow> u64 \<Rightarrow> 'z phys_scheme \<Rightarrow> (int \<times> byte list) kres" where
  "copyinstr pagetable srcva mx s =
     (if \<not> 0 < mx then Inr (-1, [])
      else let va0 = PGROUNDDOWN srcva in
        kbind (walkaddr pagetable va0 s) (\<lambda>pa0.
          if pa0 = 0 then Inr (-1, [])
          else
            let n = min (PGSIZE - (srcva - va0)) mx;
                (got_null, bs) = str_chunk (pmem s) (pa0 + (srcva - va0)) (unat n) in
            if got_null then Inr (0, bs)
            else kbind (copyinstr pagetable (va0 + PGSIZE) (mx - n) s) (\<lambda>(r, cs).
              Inr (r, bs @ cs))))"
  by pat_completeness auto
termination
  by (relation "measure (\<lambda>(_, _, mx, _). unat mx)")
    (auto intro: chunk_measure simp del: PGSIZE_def)

declare copyinstr.simps [simp del]

section \<open>The kernel page table\<close>

primrec proc_mapstacks :: "nat \<Rightarrow> nat \<Rightarrow> u64 \<Rightarrow> 'z phys_scheme \<Rightarrow> 'z phys_scheme kres" where
  "proc_mapstacks i 0 kpgtbl s = Inr s"
| "proc_mapstacks i (Suc n) kpgtbl s =
     (let (pa, s1) = kalloc s in
      if pa = 0 then kpanic ''kalloc''
      else kbind (kvmmap kpgtbl (KSTACK i) pa PGSIZE (PTE_R OR PTE_W) s1)
        (proc_mapstacks (i + 1) n kpgtbl))"

definition kvmmake :: "u64 \<Rightarrow> u64 \<Rightarrow> 'z phys_scheme \<Rightarrow> (u64 \<times> 'z phys_scheme) kres" where
  "kvmmake etext trampoline s =
     (let (kpgtbl, s1) = kalloc s;
          s2 = s1\<lparr>pmem := memset kpgtbl 0 (unat PGSIZE) (pmem s1)\<rparr> in
      kbind (kvmmap kpgtbl UART0 UART0 PGSIZE (PTE_R OR PTE_W) s2) (\<lambda>s3.
      kbind (kvmmap kpgtbl VIRTIO0 VIRTIO0 PGSIZE (PTE_R OR PTE_W) s3) (\<lambda>s4.
      kbind (kvmmap kpgtbl PLIC PLIC 0x4000000 (PTE_R OR PTE_W) s4) (\<lambda>s5.
      kbind (kvmmap kpgtbl KERNBASE KERNBASE (etext - KERNBASE) (PTE_R OR PTE_X) s5) (\<lambda>s6.
      kbind (kvmmap kpgtbl etext etext (PHYSTOP - etext) (PTE_R OR PTE_W) s6) (\<lambda>s7.
      kbind (kvmmap kpgtbl TRAMPOLINE trampoline PGSIZE (PTE_R OR PTE_X) s7) (\<lambda>s8.
      kbind (proc_mapstacks 0 NPROC kpgtbl s8) (\<lambda>s9.
      Inr (kpgtbl, s9)))))))))"

end
