(* ===== verification/VmInv.thy ===== *)
theory VmInv
  imports Vm "HOL-Library.Sublist"
begin

unbundle bit_operations_syntax

text \<open>
  The page-table invariant and what the operations of \<open>Vm\<close> do to the address space.
  \<open>node m pt p\<close> follows the table indices \<open>p\<close> from the root; \<open>lookup m pt va\<close> is the valid
  leaf entry of a virtual address, the abstract view of an address space. The invariant
  \<open>pt_inv\<close> says that no two table paths reach the same page and that every table page is
  an allocated page of the allocator.
\<close>

section \<open>The tree of tables\<close>

definition pte_V :: "u64 \<Rightarrow> bool" where
  "pte_V e \<longleftrightarrow> e AND PTE_V \<noteq> 0"

primrec node :: "mem \<Rightarrow> u64 \<Rightarrow> u64 list \<Rightarrow> u64 option" where
  "node m pt [] = Some pt"
| "node m pt (i # is) =
     (if pte_V (ld64 m (pt + 8 * i)) then node m (PTE2PA (ld64 m (pt + 8 * i))) is else None)"

definition tpath :: "u64 list \<Rightarrow> bool" where
  "tpath p \<longleftrightarrow> length p \<le> 2 \<and> (\<forall>i \<in> set p. i < 512)"

definition tables :: "mem \<Rightarrow> u64 \<Rightarrow> u64 set" where
  "tables m pt = {a. \<exists>p. tpath p \<and> node m pt p = Some a}"

definition vpath :: "u64 \<Rightarrow> u64 list" where
  "vpath va = [PX 2 va, PX 1 va]"

definition slot :: "mem \<Rightarrow> u64 \<Rightarrow> u64 \<Rightarrow> u64 option" where
  "slot m pt va = map_option (\<lambda>t. t + 8 * PX 0 va) (node m pt (vpath va))"

definition lookup :: "mem \<Rightarrow> u64 \<Rightarrow> u64 \<Rightarrow> u64 option" where
  "lookup m pt va =
     (case slot m pt va of
        None \<Rightarrow> None
      | Some a \<Rightarrow> if pte_V (ld64 m a) then Some (ld64 m a) else None)"

text \<open>
  Valid entries of the upper two levels are links (no R, W or X bit), and the root has
  none from index 256 on, where addresses reach \<open>MAXVA\<close>.
\<close>

definition pt_links :: "mem \<Rightarrow> u64 \<Rightarrow> bool" where
  "pt_links m pt \<longleftrightarrow>
     (\<forall>p a i. tpath p \<longrightarrow> length p < 2 \<longrightarrow> i < 512 \<longrightarrow> node m pt p = Some a \<longrightarrow>
        pte_V (ld64 m (a + 8 * i)) \<longrightarrow>
        ld64 m (a + 8 * i) AND (PTE_R OR PTE_W OR PTE_X) = 0 \<and> (p = [] \<longrightarrow> i < 256))"

definition pt_wf :: "mem \<Rightarrow> u64 \<Rightarrow> bool" where
  "pt_wf m pt \<longleftrightarrow> pgaligned pt \<and> pt_links m pt \<and>
     (\<forall>p q a. tpath p \<longrightarrow> tpath q \<longrightarrow> node m pt p = Some a \<longrightarrow> node m pt q = Some a \<longrightarrow> p = q)"

definition pt_inv :: "'z phys_scheme \<Rightarrow> u64 \<Rightarrow> bool" where
  "pt_inv s pt \<longleftrightarrow> kmem_inv s \<and> pt_wf (pmem s) pt \<and>
     (\<forall>t \<in> tables (pmem s) pt. valid_page s t \<and> t \<notin> free_pages s)"

lemma pte_V_0 [simp]: "\<not> pte_V 0"
  by (simp add: pte_V_def)

lemma pte_V_OR [simp]: "pte_V (e OR 1)"
proof -
  have "bit ((e OR 1) AND 1) 0" by (simp add: bit_simps)
  then have "(e OR 1) AND 1 \<noteq> (0::u64)" by (metis bit_0_eq bot_apply bot_bool_def)
  then show ?thesis by (simp only: pte_V_def PTE_V_def not_False_eq_True)
qed

lemma pte_V_perm [simp]: "pte_V (e OR f OR PTE_V)"
  using pte_V_OR [of "e OR f"] by (simp add: or.assoc)

lemma node_append: "node m pt (p @ q) = Option.bind (node m pt p) (\<lambda>t. node m t q)"
  by (induction p arbitrary: pt) auto

lemma node_snoc:
  "node m pt (p @ [i]) = Option.bind (node m pt p) (\<lambda>a.
     if pte_V (ld64 m (a + 8 * i)) then Some (PTE2PA (ld64 m (a + 8 * i))) else None)"
  by (cases "node m pt p") (auto simp: node_append)

lemma node_aligned: "pgaligned pt \<Longrightarrow> node m pt p = Some a \<Longrightarrow> pgaligned a"
  by (induction p arbitrary: pt) (auto split: if_splits intro: pgaligned_PTE2PA)

lemma tpath_Nil [simp]: "tpath []"
  by (simp add: tpath_def)

lemma tpath_vpath [simp]: "tpath (vpath va)"
  using PX_less by (simp add: tpath_def vpath_def)

lemma tablesI: "tpath p \<Longrightarrow> node m pt p = Some a \<Longrightarrow> a \<in> tables m pt"
  by (auto simp: tables_def)

lemma root_in_tables: "pt \<in> tables m pt"
  by (rule tablesI [of "[]"]) auto

lemma pt_wf_inj:
  "pt_wf m pt \<Longrightarrow> tpath p \<Longrightarrow> tpath q \<Longrightarrow> node m pt p = Some a \<Longrightarrow> node m pt q = Some a \<Longrightarrow> p = q"
  by (auto simp: pt_wf_def)

lemma ld64_page_cong:
  assumes "pgaligned t" and "i < 512" and "\<And>x. PGROUNDDOWN x = t \<Longrightarrow> m x = m' x"
  shows "ld64 m (t + 8 * i) = ld64 m' (t + 8 * i)"
  by (rule ld64_cong) (use assms page_word in auto)

text \<open>Memory outside the tables does not matter.\<close>

lemma node_cong:
  assumes "pgaligned pt"
    and "\<And>t x. t \<in> tables m pt \<Longrightarrow> PGROUNDDOWN x = t \<Longrightarrow> m x = m' x"
    and "length p \<le> 3" and "\<forall>i \<in> set p. i < 512"
  shows "node m' pt p = node m pt p"
  using assms(3,4)
proof (induction p rule: rev_induct)
  case (snoc i p)
  then have "node m' pt p = node m pt p" and "tpath p" and "i < 512"
    by (auto simp: tpath_def)
  moreover have "ld64 m (t + 8 * i) = ld64 m' (t + 8 * i)" if "node m pt p = Some t" for t
    by (rule ld64_page_cong)
      (use assms that \<open>i < 512\<close> tablesI [OF \<open>tpath p\<close> that] node_aligned [OF assms(1) that] in auto)
  ultimately show ?case by (cases "node m pt p") (auto simp: node_snoc)
qed simp

lemma tables_cong:
  assumes "pgaligned pt"
    and "\<And>t x. t \<in> tables m pt \<Longrightarrow> PGROUNDDOWN x = t \<Longrightarrow> m x = m' x"
  shows "tables m' pt = tables m pt"
  unfolding tables_def tpath_def by (auto simp: node_cong [OF assms])

lemma table_entry_cong:
  assumes "pgaligned pt" and "tpath p" and "node m pt p = Some a" and "i < 512"
    and "\<And>t x. t \<in> tables m pt \<Longrightarrow> PGROUNDDOWN x = t \<Longrightarrow> m x = m' x"
  shows "ld64 m (a + 8 * i) = ld64 m' (a + 8 * i)"
  using node_aligned [OF assms(1,3)] assms(4) assms(5) [OF tablesI [OF assms(2,3)]]
  by (rule ld64_page_cong)

lemma pt_wf_cong:
  assumes "pt_wf m pt"
    and "\<And>t x. t \<in> tables m pt \<Longrightarrow> PGROUNDDOWN x = t \<Longrightarrow> m x = m' x"
  shows "pt_wf m' pt"
proof -
  have al: "pgaligned pt" using assms(1) by (simp add: pt_wf_def)
  then have nd: "node m' pt p = node m pt p" if "tpath p" for p
    by (rule node_cong [OF _ assms(2)]) (use that in \<open>auto simp: tpath_def\<close>)
  have "ld64 m (a + 8 * i) = ld64 m' (a + 8 * i)"
    if "tpath p" "node m pt p = Some a" "i < 512" for p a i
    by (rule table_entry_cong [OF al that assms(2)])
  then have "pt_links m' pt"
    using assms(1) nd unfolding pt_wf_def pt_links_def by metis
  with assms(1) nd show ?thesis unfolding pt_wf_def by metis
qed

lemma lookup_cong:
  assumes "pgaligned pt"
    and "\<And>t x. t \<in> tables m pt \<Longrightarrow> PGROUNDDOWN x = t \<Longrightarrow> m x = m' x"
  shows "lookup m' pt va = lookup m pt va"
proof -
  have eq: "node m' pt (vpath va) = node m pt (vpath va)"
    by (rule node_cong [OF assms]) (use PX_less in \<open>auto simp: vpath_def\<close>)
  have "ld64 m (t + 8 * PX 0 va) = ld64 m' (t + 8 * PX 0 va)"
    if "node m pt (vpath va) = Some t" for t
    by (rule ld64_page_cong)
      (use assms that PX_less tablesI [OF tpath_vpath that] node_aligned [OF assms(1) that] in auto)
  with eq show ?thesis
    by (cases "node m pt (vpath va)")
      (auto simp: lookup_def slot_def)
qed

text \<open>Writing one entry only affects the paths through it.\<close>

lemma node_upd:
  assumes wf: "pt_wf m pt" and p: "tpath p" "node m pt p = Some a" and i: "i < 512"
    and "length q \<le> 3" and "\<forall>k \<in> set q. k < 512" and "\<not> prefix (p @ [i]) q"
  shows "node (st64 (a + 8 * i) v m) pt q = node m pt q"
  using assms(5-7)
proof (induction q rule: rev_induct)
  case (snoc k r)
  then have IH: "node (st64 (a + 8 * i) v m) pt r = node m pt r" and r: "tpath r" and k: "k < 512"
    by (auto simp: tpath_def)
  have al: "pgaligned pt" using wf by (simp add: pt_wf_def)
  have "ld64 (st64 (a + 8 * i) v m) (t + 8 * k) = ld64 m (t + 8 * k)"
    if t: "node m pt r = Some t" for t
  proof (rule ld64_st64_other)
    note ala = node_aligned [OF al p(2)] and alt = node_aligned [OF al t]
    show "8 dvd unat (a + 8 * i)" "8 dvd unat (t + 8 * k)"
      using ala alt i k by (auto intro: pte_addr_aligned)
    show "a + 8 * i \<noteq> t + 8 * k"
    proof
      assume "a + 8 * i = t + 8 * k"
      then have "a = t" "i = k" using pte_addr_inj [OF ala i alt k] by auto
      then have "r = p" using pt_wf_inj [OF wf r p(1) t] p(2) by simp
      with snoc.prems \<open>i = k\<close> show False by simp
    qed
  qed
  with IH show ?case by (cases "node m pt r") (auto simp: node_snoc)
qed simp

section \<open>Linking a new table\<close>

definition link_table :: "u64 \<Rightarrow> u64 \<Rightarrow> u64 \<Rightarrow> mem \<Rightarrow> mem" where
  "link_table a i pg m =
     st64 (a + 8 * i) (PA2PTE pg OR PTE_V) (\<lambda>x. if PGROUNDDOWN x = pg then 0 else m x)"

lemma ld64_zero_page: "pgaligned pg \<Longrightarrow> k < 512 \<Longrightarrow>
  ld64 (\<lambda>x. if PGROUNDDOWN x = pg then 0 else m x) (pg + 8 * k) = 0"
  by (rule ld64_zero) (simp add: page_word)

lemma PTE2PA_link: "pgaligned pg \<Longrightarrow> PTE2PA (PA2PTE pg OR 1) = pg"
  by (rule PTE2PA_PA2PTE) auto

lemma entry_other_page:
  assumes "pgaligned a" "i < 512" "pgaligned t" "k < 512" "a \<noteq> t \<or> i \<noteq> k"
  shows "ld64 (st64 (a + 8 * i) v m) (t + 8 * k) = ld64 m (t + 8 * k)"
  by (rule ld64_st64_other)
    (use assms pte_addr_inj [OF assms(1-4)] in \<open>auto intro: pte_addr_aligned\<close>)

lemma node_link:
  assumes wf: "pt_wf m pt" and p: "tpath p" "length p < 2" "node m pt p = Some a"
    and i: "i < 512" and pg: "pgaligned pg" "pg \<notin> tables m pt"
    and q: "length q \<le> 3" "\<forall>k \<in> set q. k < 512"
  shows "node (link_table a i pg m) pt q =
    (if q = p @ [i] then Some pg else if prefix (p @ [i]) q then None else node m pt q)"
proof -
  let ?z = "\<lambda>x. if PGROUNDDOWN x = pg then 0 else m x"
  let ?m = "link_table a i pg m"
  have al: "pgaligned pt" using wf by (simp add: pt_wf_def)
  have agree: "m x = ?z x" if "t \<in> tables m pt" "PGROUNDDOWN x = t" for t x
    using that pg(2) by auto
  have n0: "node ?z pt r = node m pt r" if "length r \<le> 3" "\<forall>k \<in> set r. k < 512" for r
    by (rule node_cong [OF al _ that]) (rule agree)
  have wf0: "pt_wf ?z pt" using wf agree by (rule pt_wf_cong)
  have p0: "node ?z pt p = Some a" using p by (subst n0) (auto simp: tpath_def)
  have up: "node ?m pt r = node m pt r"
    if "length r \<le> 3" "\<forall>k \<in> set r. k < 512" "\<not> prefix (p @ [i]) r" for r
    unfolding link_table_def using node_upd [OF wf0 p(1) p0 i that] n0 [OF that(1,2)] by simp
  have "node ?m pt p = Some a" using p by (subst up) (auto simp: tpath_def)
  then have one: "node ?m pt (p @ [i]) = Some pg"
    by (simp add: node_snoc link_table_def PTE2PA_link pg)
  have "a \<noteq> pg" using tablesI [OF p(1,3)] pg(2) by auto
  then have "ld64 ?m (pg + 8 * k) = 0" if "k < 512" for k
    unfolding link_table_def using node_aligned [OF al p(3)] pg(1) i that
    by (simp add: entry_other_page ld64_zero_page)
  then have below: "node ?m pg r = None" if "r \<noteq> []" "\<forall>k \<in> set r. k < 512" for r
    using that by (cases r) auto
  have "node ?m pt q = None" if pre: "prefix (p @ [i]) q" and ne: "q \<noteq> p @ [i]"
  proof -
    from pre obtain r where r: "q = (p @ [i]) @ r" by (auto simp: prefix_def)
    with ne q(2) have "node ?m pg r = None" by (intro below) auto
    then show ?thesis unfolding r node_append [of _ _ "p @ [i]"] one by simp
  qed
  with one up [OF q] show ?thesis by auto
qed

lemma lookup_link:
  assumes wf: "pt_wf m pt" and p: "tpath p" "length p < 2" "node m pt p = Some a"
    and i: "i < 512" "\<not> pte_V (ld64 m (a + 8 * i))" and pg: "pgaligned pg" "pg \<notin> tables m pt"
  shows "lookup (link_table a i pg m) pt va = lookup m pt va"
proof -
  let ?m = "link_table a i pg m" and ?v = "vpath va"
  have al: "pgaligned pt" using wf by (simp add: pt_wf_def)
  have len: "length ?v \<le> 3" "\<forall>k \<in> set ?v. k < 512"
    using PX_less by (auto simp: vpath_def)
  note n = node_link [OF wf p i(1) pg len]
  have app: "node m pt (p @ [i] @ r) = None" for r
    using p(3) i(2) by (simp add: node_append)
  have ne: "a \<noteq> pg" using tablesI [OF p(1,3)] pg(2) by auto
  note ala = node_aligned [OF al p(3)]
  consider (new) "?v = p @ [i]" | (below) "prefix (p @ [i]) ?v" "?v \<noteq> p @ [i]"
    | (other) "\<not> prefix (p @ [i]) ?v" by auto
  then show ?thesis
  proof cases
    case new
    have "ld64 ?m (pg + 8 * PX 0 va) = 0"
      unfolding link_table_def using ala pg(1) i PX_less ne
      by (simp add: entry_other_page ld64_zero_page)
    with new n app [of "[]"] show ?thesis by (simp add: lookup_def slot_def)
  next
    case below
    with n app show ?thesis by (auto simp: lookup_def slot_def prefix_def)
  next
    case other
    have "ld64 ?m (t + 8 * PX 0 va) = ld64 m (t + 8 * PX 0 va)" if t: "node m pt ?v = Some t" for t
    proof -
      have "t \<noteq> a" using pt_wf_inj [OF wf p(1) tpath_vpath p(3)] t p(2) by (auto simp: vpath_def)
      moreover have "t \<noteq> pg" using tablesI [OF tpath_vpath t] pg(2) by auto
      ultimately have "ld64 ?m (t + 8 * PX 0 va) =
          ld64 (\<lambda>x. if PGROUNDDOWN x = pg then 0 else m x) (t + 8 * PX 0 va)"
        unfolding link_table_def using ala i PX_less node_aligned [OF al t]
        by (intro entry_other_page) auto
      also have "\<dots> = ld64 m (t + 8 * PX 0 va)"
        by (rule ld64_page_cong) (use node_aligned [OF al t] PX_less \<open>t \<noteq> pg\<close> in auto)
      finally show ?thesis .
    qed
    with other n show ?thesis
      by (cases "node m pt ?v") (auto simp: lookup_def slot_def)
  qed
qed

lemma link_entry:
  assumes al: "pgaligned a" "pgaligned pg" "pgaligned t" and "i < 512" "k < 512" "a \<noteq> pg"
  shows "ld64 (link_table a i pg m) (t + 8 * k) =
    (if t = pg then 0 else if t = a \<and> k = i then PA2PTE pg OR PTE_V else ld64 m (t + 8 * k))"
proof (cases "t = a \<and> k = i")
  case True
  with assms show ?thesis by (simp add: link_table_def)
next
  case False
  then have "ld64 (link_table a i pg m) (t + 8 * k) =
      ld64 (\<lambda>x. if PGROUNDDOWN x = pg then 0 else m x) (t + 8 * k)"
    unfolding link_table_def by (intro entry_other_page) (use assms in auto)
  also have "\<dots> = (if t = pg then 0 else ld64 m (t + 8 * k))"
    using assms by (auto simp: ld64_zero_page intro: ld64_page_cong)
  finally show ?thesis using False assms by auto
qed

lemma link_links:
  assumes wf: "pt_wf m pt" and p: "tpath p" "length p < 2" "node m pt p = Some a"
    and i: "i < 512" and pg: "pgaligned pg" "pg \<notin> tables m pt"
    and new: "\<not> pte_V (ld64 m (a + 8 * i))" and i256: "p = [] \<Longrightarrow> i < 256"
  shows "pt_links (link_table a i pg m) pt"
  unfolding pt_links_def
proof (intro allI impI)
  let ?m = "link_table a i pg m"
  fix q t k
  assume q: "tpath q" "length q < 2" "k < 512" "node ?m pt q = Some t"
    and V: "pte_V (ld64 ?m (t + 8 * k))"
  have al: "pgaligned pt" and lk: "pt_links m pt" using wf by (auto simp: pt_wf_def)
  have ne: "a \<noteq> pg" using tablesI [OF p(1,3)] pg(2) by auto
  note e = link_entry [OF node_aligned [OF al p(3)] pg(1) node_aligned [OF al q(4)] i q(3) ne]
  have nq: "node ?m pt q =
      (if q = p @ [i] then Some pg else if prefix (p @ [i]) q then None else node m pt q)"
    by (rule node_link [OF wf p i pg]) (use q in \<open>auto simp: tpath_def\<close>)
  with q V e have nq': "node m pt q = Some t" and tp: "t \<noteq> pg" by (auto split: if_splits)
  show "ld64 ?m (t + 8 * k) AND (PTE_R OR PTE_W OR PTE_X) = 0 \<and> (q = [] \<longrightarrow> k < 256)"
  proof (cases "t = a \<and> k = i")
    case True
    then have "q = p" using pt_wf_inj [OF wf q(1) p(1) nq'] p(3) by simp
    moreover have "ld64 ?m (t + 8 * k) = PA2PTE pg OR PTE_V" unfolding e using True tp by simp
    ultimately show ?thesis using True i256 by (simp add: AND_PA2PTE)
  next
    case False
    with V e tp lk q nq' show ?thesis unfolding pt_links_def by auto
  qed
qed

lemma link_wf:
  assumes wf: "pt_wf m pt" and p: "tpath p" "length p < 2" "node m pt p = Some a"
    and i: "i < 512" and pg: "pgaligned pg" "pg \<notin> tables m pt"
    and new: "\<not> pte_V (ld64 m (a + 8 * i))" and i256: "p = [] \<Longrightarrow> i < 256"
  shows "pt_wf (link_table a i pg m) pt"
    and "tables (link_table a i pg m) pt = insert pg (tables m pt)"
proof -
  let ?m = "link_table a i pg m"
  have n: "node ?m pt q =
      (if q = p @ [i] then Some pg else if prefix (p @ [i]) q then None else node m pt q)"
    if "tpath q" for q
    using that by (intro node_link [OF wf p i pg]) (auto simp: tpath_def)
  have none: "node m pt q = None" if "prefix (p @ [i]) q" for q
    using that p(3) new by (auto simp: prefix_def node_append)
  have tp: "tpath (p @ [i])" using p i by (auto simp: tpath_def)
  have old: "node m pt q \<noteq> Some pg" if "tpath q" for q
    using pg(2) tablesI [OF that] by auto
  show "pt_wf ?m pt"
    unfolding pt_wf_def
  proof (intro conjI allI impI)
    show "pgaligned pt" using wf by (simp add: pt_wf_def)
    show "pt_links ?m pt" by (rule link_links [OF assms])
    fix q r t
    assume qr: "tpath q" "tpath r" "node ?m pt q = Some t" "node ?m pt r = Some t"
    then show "q = r"
      using n [OF qr(1)] n [OF qr(2)] old [OF qr(1)] old [OF qr(2)] pt_wf_inj [OF wf qr(1,2)]
      by (auto split: if_splits)
  qed
  show "tables ?m pt = insert pg (tables m pt)"
  proof (intro set_eqI iffI)
    fix t assume "t \<in> tables ?m pt"
    then show "t \<in> insert pg (tables m pt)"
      unfolding tables_def using n by (auto split: if_splits)
  next
    fix t assume "t \<in> insert pg (tables m pt)"
    then consider "t = pg" | q where "tpath q" "node m pt q = Some t"
      by (auto simp: tables_def)
    then show "t \<in> tables ?m pt"
    proof cases
      case 1
      with n [OF tp] show ?thesis by (auto intro: tablesI [OF tp])
    next
      case 2
      with n [of q] none [of q] show ?thesis
        by (intro tablesI [of q]) (auto split: if_splits)
    qed
  qed
qed

section \<open>What walk does\<close>

text \<open>
  \<open>vm_pres pt s s'\<close>: from \<open>s\<close> to \<open>s'\<close> the table \<open>pt\<close> stays well formed and may have taken
  pages from the free list, nothing else of the state is touched.
\<close>

definition vm_pres :: "u64 \<Rightarrow> 'z phys_scheme \<Rightarrow> 'z phys_scheme \<Rightarrow> bool" where
  "vm_pres pt s s' \<longleftrightarrow> pt_inv s' pt \<and> tables (pmem s) pt \<subseteq> tables (pmem s') pt \<and>
     tables (pmem s') pt \<union> free_pages s' = tables (pmem s) pt \<union> free_pages s \<and>
     (\<forall>x. PGROUNDDOWN x \<notin> tables (pmem s) pt \<union> free_pages s \<longrightarrow> pmem s' x = pmem s x) \<and>
     kend s' = kend s \<and> phys.more s' = phys.more s"

lemma vm_pres_refl: "pt_inv s pt \<Longrightarrow> vm_pres pt s s"
  by (simp add: vm_pres_def)

lemma vm_pres_trans: "vm_pres pt s1 s2 \<Longrightarrow> vm_pres pt s2 s3 \<Longrightarrow> vm_pres pt s1 s3"
  unfolding vm_pres_def by auto

text \<open>The tables of \<open>m\<close> are where they were in \<open>m'\<close>, and those that are new lie on paths in \<open>P\<close>; \<open>paths_of V\<close> are the paths to the pages \<open>V\<close>.\<close>

definition pt_grown :: "u64 \<Rightarrow> u64 list set \<Rightarrow> mem \<Rightarrow> mem \<Rightarrow> bool" where
  "pt_grown pt P m m' \<longleftrightarrow> (\<forall>q. tpath q \<longrightarrow>
     (node m pt q \<noteq> None \<longrightarrow> node m' pt q = node m pt q) \<and> (node m' pt q \<noteq> None \<longrightarrow> node m pt q \<noteq> None \<or> q \<in> P))"

definition paths_of :: "u64 set \<Rightarrow> u64 list set" where
  "paths_of V = {q. \<exists>va\<in>V. prefix q (vpath va)}"

lemma paths_of_mono: "V \<subseteq> W \<Longrightarrow> paths_of V \<subseteq> paths_of W"
  by (auto simp: paths_of_def)

lemma pt_grown_refl: "pt_grown pt P m m"
  by (simp add: pt_grown_def)

lemma pt_grown_trans: "pt_grown pt P m1 m2 \<Longrightarrow> pt_grown pt P m2 m3 \<Longrightarrow> pt_grown pt P m1 m3"
  unfolding pt_grown_def by metis

lemma pt_grown_mono: "pt_grown pt P m1 m2 \<Longrightarrow> P \<subseteq> Q \<Longrightarrow> pt_grown pt Q m1 m2"
  unfolding pt_grown_def by blast

lemma pt_inv_dest:
  assumes "pt_inv s pt"
  shows "kmem_inv s" "pt_wf (pmem s) pt" "pgaligned pt"
    and "t \<in> tables (pmem s) pt \<Longrightarrow> valid_page s t"
    and "t \<in> tables (pmem s) pt \<Longrightarrow> t \<notin> free_pages s"
  using assms by (auto simp: pt_inv_def pt_wf_def)

lemma entry_page:
  assumes "pgaligned a" and "i < 512" and "PGROUNDDOWN x \<noteq> a"
  shows "st64 (a + 8 * i) v m x = m x"
proof (rule st64_outside, rule ccontr)
  assume "\<not> 8 \<le> unat (x - (a + 8 * i))"
  moreover have "x = a + 8 * i + of_nat (unat (x - (a + 8 * i)))" by simp
  ultimately have "PGROUNDDOWN x = a"
    using page_word [OF assms(1,2), of "unat (x - (a + 8 * i))"] by simp
  with assms(3) show False by simp
qed

lemma link_step:
  assumes inv: "pt_inv s pt" and p: "tpath p" "length p < 2" "node (pmem s) pt p = Some a"
    and i: "i < 512" "\<not> pte_V (ld64 (pmem s) (a + 8 * i))" and i256: "p = [] \<Longrightarrow> i < 256"
    and ka: "kalloc s = (pg, s1)" "pg \<noteq> 0"
  defines "s' \<equiv> s1\<lparr>pmem := st64 (a + 8 * i) (PA2PTE pg OR PTE_V)
      (memset pg 0 (unat PGSIZE) (pmem s1))\<rparr>"
  shows "vm_pres pt s s'" and "node (pmem s') pt (p @ [i]) = Some pg"
    and "lookup (pmem s') pt va = lookup (pmem s) pt va"
    and "pt_grown pt {p @ [i]} (pmem s) (pmem s')"
proof -
  note d = pt_inv_dest [OF inv]
  obtain as where ok: "kmem_ok s (pg # as)"
    using d(1) ka by (cases rule: kalloc_cases) auto
  have fr: "free_pages s = set (pg # as)" by (rule kmem_ok_pages [OF ok])
  have pga: "pgaligned pg" and nt: "pg \<notin> tables (pmem s) pt"
    and dist: "pg \<notin> set as" and vp: "valid_page s pg"
    using ok fr d(5) by (auto simp: kmem_ok_def valid_page_def)
  have s1: "s1 = s\<lparr>freelist := ld64 (pmem s) pg,
      pmem := (\<lambda>x. if PGROUNDDOWN x = pg then 5 else pmem s x)\<rparr>"
    using kalloc_cons [OF ok] ka by simp
  have ok1: "kmem_ok s1 as" using kalloc_ok [OF ok] ka by simp
  have m': "pmem s' = link_table a i pg (pmem s)"
    by (simp add: s'_def s1 link_table_def memset_page pga) (simp add: if_distrib cong: if_cong)
  note at = tablesI [OF p(1,3)]
  have ala: "pgaligned a" using node_aligned [OF d(3) p(3)] .
  have frame: "pmem s' x = pmem s x" if "PGROUNDDOWN x \<noteq> a" "PGROUNDDOWN x \<noteq> pg" for x
    using that by (simp add: m' link_table_def entry_page [OF ala i(1)])
  have na: "a \<notin> set as" using d(5) [OF at] fr by simp
  have "pmem s' x = pmem s1 x" if "PGROUNDDOWN x \<in> set as" for x
  proof -
    have "PGROUNDDOWN x \<noteq> a" "PGROUNDDOWN x \<noteq> pg" using that na dist by auto
    with frame [of x] show ?thesis by (simp add: s1)
  qed
  then have ok': "kmem_ok s' as"
    by (intro kmem_ok_frame [OF ok1]) (auto simp: s'_def)
  have fr': "free_pages s' = set as" by (rule kmem_ok_pages [OF ok'])
  have wf: "pt_wf (pmem s') pt" "tables (pmem s') pt = insert pg (tables (pmem s) pt)"
    unfolding m' using link_wf [OF d(2) p i(1) pga nt i(2)] i256 by auto
  have ks: "kend s' = kend s" "phys.more s' = phys.more s" by (simp_all add: s'_def s1)
  then have vs: "valid_page s' = valid_page s" by (auto simp: valid_page_def)
  have inv': "pt_inv s' pt"
    unfolding pt_inv_def kmem_inv_def wf(2) fr' vs
    using ok' wf(1) d(4,5) vp dist fr by auto
  have "pmem s' x = pmem s x" if "PGROUNDDOWN x \<notin> tables (pmem s) pt \<union> free_pages s" for x
    by (rule frame) (use that at fr in auto)
  with inv' show "vm_pres pt s s'"
    unfolding vm_pres_def wf(2) fr' using ks fr by auto
  show "node (pmem s') pt (p @ [i]) = Some pg"
    using p i by (simp add: m' node_link [OF d(2) p i(1) pga nt] tpath_def)
  show "lookup (pmem s') pt va = lookup (pmem s) pt va"
    unfolding m' by (rule lookup_link [OF d(2) p i pga nt])
  show "pt_grown pt {p @ [i]} (pmem s) (pmem s')"
    unfolding pt_grown_def m'
  proof (intro allI impI)
    fix q assume q: "tpath q"
    have "node (pmem s) pt q = None" if "prefix (p @ [i]) q"
      using that p(3) i(2) by (auto simp: prefix_def node_append)
    moreover have "node (link_table a i pg (pmem s)) pt q =
        (if q = p @ [i] then Some pg else if prefix (p @ [i]) q then None else node (pmem s) pt q)"
      by (rule node_link [OF d(2) p i(1) pga nt]) (use q in \<open>auto simp: tpath_def\<close>)
    ultimately show "(node (pmem s) pt q \<noteq> None \<longrightarrow> node (link_table a i pg (pmem s)) pt q = node (pmem s) pt q) \<and>
        (node (link_table a i pg (pmem s)) pt q \<noteq> None \<longrightarrow> node (pmem s) pt q \<noteq> None \<or> q \<in> {p @ [i]})"
      by auto
  qed
qed

text \<open>The result of \<open>walk\<close> without allocation, and with it.\<close>

lemma fold_V: "(e AND PTE_V \<noteq> 0) = pte_V e" "(e AND PTE_V = 0) = (\<not> pte_V e)"
  by (simp_all add: pte_V_def del: PTE_V_def)

lemma walk_levels_find:
  "p @ map (\<lambda>k. PX k va) (rev [1..<Suc l]) = vpath va \<Longrightarrow> node (pmem s) pt p = Some a \<Longrightarrow>
   \<not> al \<or> slot (pmem s) pt va \<noteq> None \<Longrightarrow>
   walk_levels l a va al s = (case slot (pmem s) pt va of None \<Rightarrow> 0 | Some b \<Rightarrow> b, s)"
proof (induction l arbitrary: p a)
  case 0
  then show ?case by (simp add: slot_def)
next
  case (Suc l)
  let ?e = "ld64 (pmem s) (a + 8 * PX (Suc l) va)"
  have v: "vpath va = (p @ [PX (Suc l) va]) @ map (\<lambda>k. PX k va) (rev [1..<Suc l])"
    using Suc.prems(1) by simp
  show ?case
  proof (cases "pte_V ?e")
    case True
    have "node (pmem s) pt (p @ [PX (Suc l) va]) = Some (PTE2PA ?e)"
      using Suc.prems(2) True by (simp add: node_snoc)
    from Suc.IH [OF v [symmetric] this Suc.prems(3)] True show ?thesis by (simp add: Let_def fold_V del: PTE_V_def)
  next
    case False
    then have "node (pmem s) pt (vpath va) = None"
      unfolding v node_append using Suc.prems(2) by simp
    with False Suc.prems(3) show ?thesis by (simp add: slot_def Let_def fold_V del: PTE_V_def)
  qed
qed

lemma walk_find:
  "va < MAXVA \<Longrightarrow> \<not> al \<or> slot (pmem s) pt va \<noteq> None \<Longrightarrow> walk pt va al s =
     Inr (case slot (pmem s) pt va of None \<Rightarrow> 0 | Some b \<Rightarrow> b, s)"
  using walk_levels_find [of "[]" va 2 s pt pt al]
  by (simp add: walk_def vpath_def upt_rec numeral_2_eq_2)

lemma slot_nonzero:
  assumes "pt_inv s pt" and "slot (pmem s) pt va = Some b"
  shows "b \<noteq> 0"
proof -
  obtain t where t: "node (pmem s) pt (vpath va) = Some t" and b: "b = t + 8 * PX 0 va"
    using assms(2) by (auto simp: slot_def)
  note d = pt_inv_dest [OF assms(1)]
  have vp: "valid_page s t" by (rule d(4) [OF tablesI [OF tpath_vpath t]])
  have "KERNBASE \<le> kend s" using d(1) by (auto simp: kmem_inv_def kmem_ok_def)
  with vp have "t \<noteq> 0" and "pgaligned t"
    using valid_page_nonzero by (auto simp: valid_page_def)
  then have "unat b \<noteq> 0"
    using unat_pte_addr [OF _ PX_less] by (simp add: b unsigned_eq_0_iff)
  then show ?thesis by auto
qed

lemma walk_levels_alloc:
  assumes "p @ map (\<lambda>k. PX k va) (rev [1..<Suc l]) = vpath va"
    and "node (pmem s) pt p = Some a" and "pt_inv s pt"
    and "walk_levels l a va True s = (r, s')" and "va < MAXVA"
  shows "vm_pres pt s s' \<and> (\<forall>vb. lookup (pmem s') pt vb = lookup (pmem s) pt vb) \<and>
    (r \<noteq> 0 \<longrightarrow> slot (pmem s') pt va = Some r) \<and> (r = 0 \<longrightarrow> free_pages s' = {} \<and> slot (pmem s') pt va = None) \<and>
    pt_grown pt (paths_of {va}) (pmem s) (pmem s')"
  using assms
proof (induction l arbitrary: p a s)
  case 0
  then have "slot (pmem s) pt va = Some r" by (auto simp: slot_def)
  with 0 slot_nonzero show ?case by (auto intro: vm_pres_refl pt_grown_refl)
next
  case (Suc l)
  let ?i = "PX (Suc l) va"
  let ?e = "ld64 (pmem s) (a + 8 * ?i)"
  have v: "(p @ [?i]) @ map (\<lambda>k. PX k va) (rev [1..<Suc l]) = vpath va"
    using Suc.prems(1) by simp
  then have len: "length p < 2" and pi: "tpath p"
    using PX_less unfolding vpath_def tpath_def
    by (auto simp: append_eq_Cons_conv Cons_eq_append_conv)
  show ?case
  proof (cases "pte_V ?e")
    case True
    have "node (pmem s) pt (p @ [?i]) = Some (PTE2PA ?e)"
      using Suc.prems(2) True by (simp add: node_snoc)
    from Suc.IH [OF v this Suc.prems(3)] Suc.prems(4,5) True show ?thesis
      by (simp add: Let_def fold_V del: PTE_V_def)
  next
    case False
    obtain pg s1 where ka: "kalloc s = (pg, s1)" by force
    show ?thesis
    proof (cases "pg = 0")
      case True
      then have "r = 0" "s' = s" "free_pages s = {}"
        using Suc.prems(4) False ka kalloc_cases [OF pt_inv_dest(1) [OF Suc.prems(3)]]
        by (auto simp: Let_def fold_V simp del: PTE_V_def)
      moreover have "node (pmem s) pt (vpath va) = None"
        using Suc.prems(2) False unfolding v [symmetric] node_append by simp
      ultimately show ?thesis using Suc.prems(3) by (simp add: vm_pres_refl pt_grown_refl slot_def)
    next
      case pg: False
      have "?i < 256" if "p = []"
      proof -
        from arg_cong [OF v, of length] that have "l = 1" by (simp add: vpath_def split: if_splits)
        with PX2_less [OF Suc.prems(5)] show ?thesis by (simp add: numeral_2_eq_2)
      qed
      note ls = link_step [OF Suc.prems(3) pi len Suc.prems(2) PX_less False this ka pg]
      have "pt_inv (s1\<lparr>pmem := st64 (a + 8 * ?i) (PA2PTE pg OR PTE_V)
          (memset pg 0 (unat PGSIZE) (pmem s1))\<rparr>) pt"
        using ls(1) by (simp add: vm_pres_def)
      moreover have "prefix (p @ [?i]) (vpath va)" unfolding v [symmetric] by simp
      then have "{p @ [?i]} \<subseteq> paths_of {va}" by (simp add: paths_of_def)
      ultimately show ?thesis
        using Suc.IH [OF v ls(2)] Suc.prems(4,5) False pg ka ls(1,3) pt_grown_mono [OF ls(4)]
        by (simp add: Let_def fold_V del: PTE_V_def) (blast intro: vm_pres_trans pt_grown_trans)
    qed
  qed
qed

lemma walk_alloc:
  assumes "pt_inv s pt" and "walk pt va True s = Inr (r, s')"
  shows "vm_pres pt s s'" and "lookup (pmem s') pt vb = lookup (pmem s) pt vb"
    and "r \<noteq> 0 \<Longrightarrow> slot (pmem s') pt va = Some r" and "r = 0 \<Longrightarrow> free_pages s' = {}"
    and "pt_grown pt (paths_of {va}) (pmem s) (pmem s')" and "r = 0 \<Longrightarrow> slot (pmem s') pt va = None"
  using walk_levels_alloc [of "[]" va 2 s pt pt r s'] assms
  by (auto simp: walk_def vpath_def upt_rec numeral_2_eq_2 split: if_splits)

section \<open>Writing a leaf entry\<close>

definition upage :: "u64 \<Rightarrow> bool" where
  "upage va \<longleftrightarrow> pgaligned va \<and> va < MAXVA"

lemma slot_inj:
  assumes "pt_wf m pt" "upage va" "upage vb" "slot m pt va = Some b" "slot m pt vb = Some b"
  shows "va = vb"
proof -
  obtain t u where t: "node m pt (vpath va) = Some t" "b = t + 8 * PX 0 va"
    and u: "node m pt (vpath vb) = Some u" "b = u + 8 * PX 0 vb"
    using assms(4,5) by (auto simp: slot_def)
  have al: "pgaligned pt" using assms(1) by (simp add: pt_wf_def)
  have "t + 8 * PX 0 va = u + 8 * PX 0 vb" using t(2) u(2) by simp
  then have "t = u" "PX 0 va = PX 0 vb"
    using pte_addr_inj [OF node_aligned [OF al t(1)] PX_less node_aligned [OF al u(1)] PX_less]
    by auto
  moreover have "vpath va = vpath vb"
    using pt_wf_inj [OF assms(1) tpath_vpath tpath_vpath t(1)] u(1) \<open>t = u\<close> by simp
  then have "PX 2 va = PX 2 vb" "PX 1 va = PX 1 vb" by (simp_all add: vpath_def)
  ultimately show ?thesis
    using PX_inj [of va vb] assms(2,3) unfolding upage_def by blast
qed

lemma set_entry:
  fixes v :: u64
  assumes inv: "pt_inv s pt" and sl: "slot (pmem s) pt va = Some b" and va: "upage va"
  defines "s' \<equiv> s\<lparr>pmem := st64 b v (pmem s)\<rparr>"
  shows "vm_pres pt s s'" and "free_pages s' = free_pages s"
    and "slot (pmem s') pt vc = slot (pmem s) pt vc"
    and "tables (pmem s') pt = tables (pmem s) pt"
    and "PGROUNDDOWN x \<notin> tables (pmem s) pt \<Longrightarrow> pmem s' x = pmem s x"
    and "upage vb \<Longrightarrow> lookup (pmem s') pt vb =
      (if vb = va then if pte_V v then Some v else None else lookup (pmem s) pt vb)"
    and "pt_grown pt P (pmem s) (pmem s')"
proof -
  note d = pt_inv_dest [OF inv]
  obtain t where t: "node (pmem s) pt (vpath va) = Some t" "b = t + 8 * PX 0 va"
    using sl by (auto simp: slot_def)
  have tt: "t \<in> tables (pmem s) pt" by (rule tablesI [OF tpath_vpath t(1)])
  have alt: "pgaligned t" using node_aligned [OF d(3) t(1)] .
  have nd: "node (pmem s') pt q = node (pmem s) pt q" if "tpath q" for q
    unfolding s'_def using that
    by (simp add: t(2), intro node_upd [OF d(2) tpath_vpath t(1) PX_less])
      (auto simp: tpath_def vpath_def prefix_def)
  then show slot: "slot (pmem s') pt vc = slot (pmem s) pt vc" for vc
    by (simp add: slot_def)
  show "pt_grown pt P (pmem s) (pmem s')" by (simp add: pt_grown_def nd)
  show tb: "tables (pmem s') pt = tables (pmem s) pt"
    by (auto simp: tables_def nd)
  have frame: "pmem s' x = pmem s x" if "PGROUNDDOWN x \<noteq> t" for x
    using that by (simp add: s'_def t(2) entry_page [OF alt PX_less])
  then show "pmem s' x = pmem s x" if "PGROUNDDOWN x \<notin> tables (pmem s) pt" for x
    using that tt by metis
  obtain as where ok: "kmem_ok s as" and fr: "free_pages s = set as"
    using d(1) by (rule kmem_invE)
  have "pmem s' x = pmem s x" if "PGROUNDDOWN x \<in> set as" for x
    by (rule frame) (use that d(5) [OF tt] fr in auto)
  then have ok': "kmem_ok s' as"
    by (intro kmem_ok_frame [OF ok]) (auto simp: s'_def)
  then show fr': "free_pages s' = free_pages s" by (simp add: kmem_ok_pages fr)
  have "ld64 (pmem s') (u + 8 * i) = ld64 (pmem s) (u + 8 * i)"
    if "tpath q" "length q < 2" "node (pmem s) pt q = Some u" "i < 512" for q u i
  proof -
    have "t \<noteq> u" using pt_wf_inj [OF d(2) tpath_vpath that(1) t(1)] that by (auto simp: vpath_def)
    with that alt node_aligned [OF d(3) that(3)] PX_less show ?thesis
      by (simp add: s'_def t(2) entry_other_page)
  qed
  then have "pt_links (pmem s') pt"
    using d(2) nd unfolding pt_wf_def pt_links_def by metis
  then have wf': "pt_wf (pmem s') pt" using d(2) nd unfolding pt_wf_def by metis
  have vs: "valid_page s' = valid_page s" by (auto simp: valid_page_def s'_def)
  have "pt_inv s' pt"
    unfolding pt_inv_def kmem_inv_def tb fr' vs using ok' wf' d(4,5) by auto
  moreover have "pmem s' x = pmem s x" if "PGROUNDDOWN x \<notin> tables (pmem s) pt \<union> free_pages s" for x
    by (rule frame) (use that tt in auto)
  ultimately show "vm_pres pt s s'"
    unfolding vm_pres_def tb fr' by (simp add: s'_def)
  have other: "ld64 (pmem s') c = ld64 (pmem s) c"
    if vb: "slot (pmem s) pt vb = Some c" "vb \<noteq> va" "upage vb" for c vb
  proof -
    obtain u where u: "node (pmem s) pt (vpath vb) = Some u" "c = u + 8 * PX 0 vb"
      using vb(1) by (auto simp: slot_def)
    have "b \<noteq> c" using slot_inj [OF d(2) va vb(3) sl] vb by auto
    then show ?thesis
      unfolding s'_def u(2) t(2) using alt node_aligned [OF d(3) u(1)] PX_less t(2) u(2)
      by (simp add: ld64_st64_other pte_addr_aligned)
  qed
  show "lookup (pmem s') pt vb =
      (if vb = va then if pte_V v then Some v else None else lookup (pmem s) pt vb)"
    if "upage vb"
  proof (cases "vb = va")
    case True
    then show ?thesis by (simp add: lookup_def slot sl) (simp add: s'_def)
  next
    case False
    with other [OF _ False that] show ?thesis
      by (auto simp: lookup_def slot split: option.splits)
  qed
qed

section \<open>mappages refines an update of the address space\<close>

definition in_range :: "u64 \<Rightarrow> nat \<Rightarrow> u64 \<Rightarrow> bool" where
  "in_range a n vb \<longleftrightarrow> unat a \<le> unat vb \<and> unat vb < unat a + 4096 * n"

lemma upage_next: "upage a \<Longrightarrow> unat a + 4096 < 274877906944 \<Longrightarrow> upage (a + 4096)"
  using next_page_greater [of a] by (simp add: upage_def pgaligned_unat word_less_nat_alt)

lemma in_range_Suc:
  assumes "upage a" and "upage vb"
  shows "in_range a (Suc n) vb \<longleftrightarrow> vb = a \<or> in_range (a + 4096) n vb"
proof -
  have u: "unat (a + 4096) = unat a + 4096"
    using assms(1) by (intro next_page_greater) (simp add: upage_def)
  have "4096 dvd unat a" "4096 dvd unat vb" using assms by (auto simp: upage_def pgaligned_unat)
  then have "unat vb = unat a \<or> unat vb < unat a \<or> unat a + 4096 \<le> unat vb"
    using aligned_between [of "unat vb" "unat a"] by linarith
  then show ?thesis by (auto simp: in_range_def u word_unat_eq_iff)
qed

lemma map_one:
  assumes inv: "pt_inv s pt" and a: "upage a" and none: "lookup (pmem s) pt a = None"
  obtains (full) s1 where "walk pt a True s = Inr (0, s1)" "vm_pres pt s s1" "free_pages s1 = {}"
      "\<And>vb. lookup (pmem s1) pt vb = lookup (pmem s) pt vb" "pt_grown pt (paths_of {a}) (pmem s) (pmem s1)"
      "slot (pmem s1) pt a = None"
    | (ok) b s1 where "walk pt a True s = Inr (b, s1)" "b \<noteq> 0" "\<not> pte_V (ld64 (pmem s1) b)"
      "\<And>e. vm_pres pt s (s1\<lparr>pmem := st64 b e (pmem s1)\<rparr>)"
      "\<And>e vb. upage vb \<Longrightarrow> pte_V e \<Longrightarrow> lookup (st64 b e (pmem s1)) pt vb =
        (if vb = a then Some e else lookup (pmem s) pt vb)"
      "\<And>e. pt_grown pt (paths_of {a}) (pmem s) (st64 b e (pmem s1))" "\<And>e. slot (st64 b e (pmem s1)) pt a = Some b"
proof -
  obtain b s1 where "walk_levels 2 pt a True s = (b, s1)" by force
  moreover have "\<not> MAXVA \<le> a" using a by (simp add: upage_def not_le)
  ultimately have wk: "walk pt a True s = Inr (b, s1)" by (simp only: walk_def if_False)
  note w = walk_alloc [OF inv wk]
  show thesis
  proof (cases "b = 0")
    case True
    with w wk show thesis by (intro full [of s1]) auto
  next
    case False
    from w(3) [OF False] have sl: "slot (pmem s1) pt a = Some b" .
    have inv1: "pt_inv s1 pt" using w(1) by (simp add: vm_pres_def)
    note se = set_entry [OF inv1 sl a]
    have "\<not> pte_V (ld64 (pmem s1) b)"
      using none w(2) [of a] sl by (auto simp: lookup_def split: if_splits)
    then show thesis
      using wk False w(1,2) se(1,6) sl se(3) pt_grown_trans [OF w(5) se(7)] by (intro ok [of b s1]) (auto intro: vm_pres_trans)
  qed
qed

definition mapped_range ::
  "mem \<Rightarrow> mem \<Rightarrow> u64 \<Rightarrow> u64 \<Rightarrow> nat \<Rightarrow> u64 \<Rightarrow> u64 \<Rightarrow> bool" where
  "mapped_range m m' pt a n pa perm \<longleftrightarrow> (\<forall>vb. upage vb \<longrightarrow> lookup m' pt vb =
     (if in_range a n vb then Some (PA2PTE (pa + (vb - a)) OR perm OR PTE_V)
      else lookup m pt vb))"

definition same_outside :: "mem \<Rightarrow> mem \<Rightarrow> u64 \<Rightarrow> u64 \<Rightarrow> nat \<Rightarrow> bool" where
  "same_outside m m' pt a n \<longleftrightarrow>
     (\<forall>vb. upage vb \<longrightarrow> \<not> in_range a n vb \<longrightarrow> lookup m' pt vb = lookup m pt vb)"

lemma mappages_loop_ok:
  assumes "pt_inv s pt" and "upage a"
    and "unat a + 4096 * n < 274877906944" and "lst = a + of_nat (4096 * n)"
    and "\<And>vb. upage vb \<Longrightarrow> in_range a (Suc n) vb \<Longrightarrow> lookup (pmem s) pt vb = None"
  shows "\<exists>r s'. mappages_loop pt a lst pa perm s = Inr (r, s') \<and> vm_pres pt s s' \<and>
    pt_grown pt (paths_of {vb. upage vb \<and> in_range a (Suc n) vb}) (pmem s) (pmem s') \<and>
    (r = 0 \<and> mapped_range (pmem s) (pmem s') pt a (Suc n) pa perm \<or>
     r = -1 \<and> free_pages s' = {} \<and> same_outside (pmem s) (pmem s') pt a (Suc n))"
  using assms
proof (induction n arbitrary: a pa s)
  case (0 a pa s)
  have "{a} \<subseteq> {vb. upage vb \<and> in_range a (Suc 0) vb}" using 0(2) by (simp add: in_range_def)
  note g = pt_grown_mono [OF _ paths_of_mono [OF this]]
  have "lookup (pmem s) pt a = None" using 0 by (simp add: in_range_def)
  from 0(1,2) this show ?case
  proof (cases rule: map_one)
    case (full s1)
    then show ?thesis by (simp add: mappages_loop.simps [of pt a] same_outside_def g)
  next
    case (ok b s1)
    let ?e = "PA2PTE pa OR perm OR PTE_V"
    have "mapped_range (pmem s) (st64 b ?e (pmem s1)) pt a (Suc 0) pa perm"
      unfolding mapped_range_def
      using ok(5) [OF _ pte_V_perm] in_range_Suc [OF 0(2), of _ 0]
      by (auto simp: in_range_def [of _ 0])
    with ok(1-4) g [OF ok(6)] 0(4) show ?thesis
      by (simp add: mappages_loop.simps [of pt a] fold_V del: PTE_V_def)
  qed
next
  case (Suc n a pa s)
  have "{a} \<subseteq> {vb. upage vb \<and> in_range a (Suc (Suc n)) vb}" using Suc.prems(2) by (simp add: in_range_def)
  note g = pt_grown_mono [OF _ paths_of_mono [OF this]]
  have "lookup (pmem s) pt a = None" using Suc.prems by (simp add: in_range_def)
  from Suc.prems(1,2) this show ?case
  proof (cases rule: map_one)
    case (full s1)
    then show ?thesis by (simp add: mappages_loop.simps [of pt a] same_outside_def g)
  next
    case (ok b s1)
    let ?e = "PA2PTE pa OR perm OR PTE_V"
    let ?s2 = "s1\<lparr>pmem := st64 b ?e (pmem s1)\<rparr>"
    have up: "upage (a + 4096)"
      by (rule upage_next) (use Suc.prems(2,3) in auto)
    have ua: "unat (a + 4096) = unat a + 4096"
      by (rule next_page_greater) (use Suc.prems(2) in \<open>simp add: upage_def\<close>)
    have ne: "a \<noteq> lst"
    proof -
      have "unat (of_nat (4096 * Suc n) :: u64) = 4096 * Suc n"
        by (rule unat_of_nat_u64) (use Suc.prems(3) in linarith)
      then have "(of_nat (4096 * Suc n) :: u64) \<noteq> 0" by (metis unsigned_0 nat.distinct(1) mult_eq_0_iff zero_neq_numeral)
      then show ?thesis unfolding Suc.prems(4) by (simp del: of_nat_mult of_nat_Suc mult_Suc_right)
    qed
    have lk: "lookup (pmem ?s2) pt vb = (if vb = a then Some ?e else lookup (pmem s) pt vb)"
      if "upage vb" for vb using ok(5) [OF that pte_V_perm] by simp
    have "\<exists>r s'. mappages_loop pt (a + 4096) lst (pa + 4096) perm ?s2 = Inr (r, s') \<and>
        vm_pres pt ?s2 s' \<and> pt_grown pt (paths_of {vb. upage vb \<and> in_range (a + 4096) (Suc n) vb}) (pmem ?s2) (pmem s') \<and>
        (r = 0 \<and> mapped_range (pmem ?s2) (pmem s') pt (a + 4096) (Suc n) (pa + 4096) perm \<or>
         r = -1 \<and> free_pages s' = {} \<and> same_outside (pmem ?s2) (pmem s') pt (a + 4096) (Suc n))"
    proof (rule Suc.IH)
      show "pt_inv ?s2 pt" using ok(4) by (simp add: vm_pres_def)
      show "upage (a + 4096)" by (rule up)
      show "unat (a + 4096) + 4096 * n < 274877906944" using Suc.prems(3) ua by simp
      show "lst = a + 4096 + of_nat (4096 * n)" using Suc.prems(4) by (simp add: algebra_simps)
      show "lookup (pmem ?s2) pt vb = None" if "upage vb" "in_range (a + 4096) (Suc n) vb" for vb
        using that lk [OF that(1)] Suc.prems(5) [OF that(1)] in_range_Suc [OF Suc.prems(2) that(1)] ua
        by (auto simp: in_range_def)
    qed
    then obtain r s' where run: "mappages_loop pt (a + 4096) lst (pa + 4096) perm ?s2 = Inr (r, s')"
      and pres: "vm_pres pt ?s2 s'"
      and gr: "pt_grown pt (paths_of {vb. upage vb \<and> in_range (a + 4096) (Suc n) vb}) (pmem ?s2) (pmem s')"
      and res: "r = 0 \<and> mapped_range (pmem ?s2) (pmem s') pt (a + 4096) (Suc n) (pa + 4096) perm \<or>
         r = -1 \<and> free_pages s' = {} \<and> same_outside (pmem ?s2) (pmem s') pt (a + 4096) (Suc n)"
      by blast
    have "mappages_loop pt a lst pa perm s = Inr (r, s')"
      using ok(1-3) ne run by (simp add: mappages_loop.simps [of pt a] fold_V Let_def del: PTE_V_def)
    moreover have "vm_pres pt s s'" using ok(4) pres by (rule vm_pres_trans)
    moreover have "{vb. upage vb \<and> in_range (a + 4096) (Suc n) vb} \<subseteq> {vb. upage vb \<and> in_range a (Suc (Suc n)) vb}"
      using in_range_Suc [OF Suc.prems(2)] by blast
    then have "pt_grown pt (paths_of {vb. upage vb \<and> in_range a (Suc (Suc n)) vb}) (pmem s) (pmem s')"
      using pt_grown_trans [OF g [OF ok(6)] pt_grown_mono [OF gr [simplified] paths_of_mono]] by simp
    moreover have "mapped_range (pmem s) (pmem s') pt a (Suc (Suc n)) pa perm"
      if "mapped_range (pmem ?s2) (pmem s') pt (a + 4096) (Suc n) (pa + 4096) perm"
      unfolding mapped_range_def
    proof (intro allI impI)
      fix vb assume vb: "upage vb"
      have ar: "pa + 4096 + (vb - (a + 4096)) = pa + (vb - a)" by (simp add: algebra_simps)
      have na: "\<not> in_range (a + 4096) (Suc n) a" by (simp add: in_range_def ua)
      from that vb have "lookup (pmem s') pt vb = (if in_range (a + 4096) (Suc n) vb
          then Some (PA2PTE (pa + (vb - a)) OR perm OR PTE_V) else lookup (pmem ?s2) pt vb)"
        unfolding mapped_range_def ar [symmetric] by blast
      then show "lookup (pmem s') pt vb = (if in_range a (Suc (Suc n)) vb
          then Some (PA2PTE (pa + (vb - a)) OR perm OR PTE_V) else lookup (pmem s) pt vb)"
        unfolding lk [OF vb] in_range_Suc [OF Suc.prems(2) vb] using na by (cases "vb = a") auto
    qed
    moreover have "same_outside (pmem s) (pmem s') pt a (Suc (Suc n))"
      if "same_outside (pmem ?s2) (pmem s') pt (a + 4096) (Suc n)"
      using that lk in_range_Suc [OF Suc.prems(2), of _ "Suc n"]
      unfolding same_outside_def by auto
    ultimately show ?thesis using res by blast
  qed
qed

end
