(* ===== verification/VmOps.thy ===== *)
theory VmOps
  imports VmInv
begin

unbundle bit_operations_syntax

text \<open>
  What the address-space operations of \<^verbatim>\<open>kernel/vm.c\<close> do, in terms of \<open>lookup\<close> and the
  allocator's free pages: mapping a page, unmapping and freeing a range, lazy allocation
  by \<open>vmfault\<close>, tearing a table down with \<open>freewalk\<close>, and the user copies.
\<close>

section \<open>Changes that leave a table alone\<close>

lemma slot_cong:
  assumes "pgaligned pt"
    and "\<And>t x. t \<in> tables m pt \<Longrightarrow> PGROUNDDOWN x = t \<Longrightarrow> m x = m' x"
  shows "slot m' pt va = slot m pt va"
  unfolding slot_def
  by (subst node_cong [OF assms]) (use PX_less in \<open>auto simp: vpath_def\<close>)

lemma pt_frame:
  assumes inv: "pt_inv s pt" and "freelist s' = freelist s" and ks: "kend s' = kend s"
    and m: "\<And>x. PGROUNDDOWN x \<in> tables (pmem s) pt \<union> free_pages s \<Longrightarrow> pmem s' x = pmem s x"
  shows "pt_inv s' pt" and "tables (pmem s') pt = tables (pmem s) pt"
    and "free_pages s' = free_pages s" and "lookup (pmem s') pt va = lookup (pmem s) pt va"
    and "slot (pmem s') pt va = slot (pmem s) pt va"
proof -
  note d = pt_inv_dest [OF inv]
  have ag: "pmem s x = pmem s' x" if "t \<in> tables (pmem s) pt" "PGROUNDDOWN x = t" for t x
    using m [of x] that by simp
  show tb: "tables (pmem s') pt = tables (pmem s) pt" by (rule tables_cong [OF d(3) ag])
  show "lookup (pmem s') pt va = lookup (pmem s) pt va" by (rule lookup_cong [OF d(3) ag])
  show "slot (pmem s') pt va = slot (pmem s) pt va" by (rule slot_cong [OF d(3) ag])
  obtain as where ok: "kmem_ok s as" and fr: "free_pages s = set as"
    using d(1) by (rule kmem_invE)
  have ok': "kmem_ok s' as" by (rule kmem_ok_frame [OF ok assms(2) ks]) (simp add: m fr)
  then show fr': "free_pages s' = free_pages s" by (simp add: kmem_ok_pages fr)
  have vs: "valid_page s' = valid_page s" by (auto simp: valid_page_def ks)
  have "pt_wf (pmem s') pt" by (rule pt_wf_cong [OF d(2) ag])
  then show "pt_inv s' pt"
    unfolding pt_inv_def kmem_inv_def tb fr' vs using ok' d(4,5) by auto
qed

lemma pt_kalloc:
  assumes inv: "pt_inv s pt" and ka: "kalloc s = (pg, s1)" "pg \<noteq> 0"
  shows "pt_inv s1 pt" and "tables (pmem s1) pt = tables (pmem s) pt"
    and "free_pages s1 = free_pages s - {pg}" and "pg \<in> free_pages s" and "valid_page s pg"
    and "lookup (pmem s1) pt va = lookup (pmem s) pt va"
    and "\<And>x. PGROUNDDOWN x \<noteq> pg \<Longrightarrow> pmem s1 x = pmem s x"
    and "kend s1 = kend s" and "phys.more s1 = phys.more s"
proof -
  note d = pt_inv_dest [OF inv]
  obtain as where ok: "kmem_ok s (pg # as)"
    using d(1) ka by (cases rule: kalloc_cases) auto
  have fr: "free_pages s = set (pg # as)" by (rule kmem_ok_pages [OF ok])
  have s1: "s1 = s\<lparr>freelist := ld64 (pmem s) pg,
      pmem := (\<lambda>x. if PGROUNDDOWN x = pg then 5 else pmem s x)\<rparr>"
    using kalloc_cons [OF ok] ka by simp
  have ok1: "kmem_ok s1 as" using kalloc_ok [OF ok] ka by simp
  have fr1: "free_pages s1 = set as" by (rule kmem_ok_pages [OF ok1])
  show "kend s1 = kend s" "phys.more s1 = phys.more s" by (simp_all add: s1)
  show pgf: "pg \<in> free_pages s" "valid_page s pg" using fr ok by (auto simp: kmem_ok_def)
  show fr': "free_pages s1 = free_pages s - {pg}" using ok by (auto simp: fr fr1 kmem_ok_def)
  show m: "pmem s1 x = pmem s x" if "PGROUNDDOWN x \<noteq> pg" for x using that by (simp add: s1)
  have ag: "pmem s x = pmem s1 x" if "t \<in> tables (pmem s) pt" "PGROUNDDOWN x = t" for t x
    using m [of x] that d(5) pgf(1) by metis
  show tb: "tables (pmem s1) pt = tables (pmem s) pt" by (rule tables_cong [OF d(3) ag])
  show "lookup (pmem s1) pt va = lookup (pmem s) pt va" by (rule lookup_cong [OF d(3) ag])
  have "valid_page s1 = valid_page s" by (auto simp: valid_page_def s1)
  moreover have "pt_wf (pmem s1) pt" by (rule pt_wf_cong [OF d(2) ag])
  ultimately show "pt_inv s1 pt"
    unfolding pt_inv_def kmem_inv_def tb fr' using ok1 d(4,5) by auto
qed

lemma pt_kfree:
  assumes inv: "pt_inv s pt" and pg: "valid_page s pg" "pg \<notin> free_pages s" "pg \<notin> tables (pmem s) pt"
  obtains s' where "kfree pg s = Inr s'" "pt_inv s' pt" "tables (pmem s') pt = tables (pmem s) pt"
    "free_pages s' = insert pg (free_pages s)"
    "\<And>va. lookup (pmem s') pt va = lookup (pmem s) pt va"
    "\<And>va. slot (pmem s') pt va = slot (pmem s) pt va"
    "\<And>x. PGROUNDDOWN x \<noteq> pg \<Longrightarrow> pmem s' x = pmem s x"
    "kend s' = kend s" "phys.more s' = phys.more s"
proof -
  note d = pt_inv_dest [OF inv]
  obtain s' where s': "kfree pg s = Inr s'" and ki: "kmem_inv s'"
    and fr': "free_pages s' = insert pg (free_pages s)"
    using kpages.free_page [OF d(1) pg(1,2)] by blast
  have ks: "kend s' = kend s" "phys.more s' = phys.more s"
    using s' by (auto simp: kfree_Inr [OF pg(1)])
  note m = kfree_mem_other [OF s']
  have ag: "pmem s x = pmem s' x" if "t \<in> tables (pmem s) pt" "PGROUNDDOWN x = t" for t x
    using m [of x] that pg(3) by metis
  have tb: "tables (pmem s') pt = tables (pmem s) pt" by (rule tables_cong [OF d(3) ag])
  have "valid_page s' = valid_page s" by (auto simp: valid_page_def ks)
  moreover have "pt_wf (pmem s') pt" by (rule pt_wf_cong [OF d(2) ag])
  ultimately have "pt_inv s' pt"
    unfolding pt_inv_def tb fr' using ki d(4,5) pg(3) by auto
  then show thesis
    using s' tb fr' lookup_cong [OF d(3) ag] slot_cong [OF d(3) ag] m ks by (intro that)
qed

section \<open>Mapping one page\<close>

lemma mappages_one:
  assumes "pt_inv s pt" and "upage va" and "lookup (pmem s) pt va = None"
  obtains (mapped) s' where "mappages pt va PGSIZE pa perm s = Inr (0, s')" "vm_pres pt s s'"
      "\<And>vb. upage vb \<Longrightarrow> lookup (pmem s') pt vb =
        (if vb = va then Some (PA2PTE pa OR perm OR PTE_V) else lookup (pmem s) pt vb)"
      "pt_grown pt (paths_of {va}) (pmem s) (pmem s')" "slot (pmem s') pt va \<noteq> None"
    | (full) s' where "mappages pt va PGSIZE pa perm s = Inr (-1, s')" "vm_pres pt s s'"
      "free_pages s' = {}" "\<And>vb. lookup (pmem s') pt vb = lookup (pmem s) pt vb"
      "pt_grown pt (paths_of {va}) (pmem s) (pmem s')" "slot (pmem s') pt va = None"
proof -
  have mp: "mappages pt va PGSIZE pa perm s = mappages_loop pt va va pa perm s"
    using assms(2) by (simp add: mappages_def upage_def pgaligned_def)
  from assms show thesis
  proof (cases rule: map_one)
    case (full s1)
    then have "mappages pt va PGSIZE pa perm s = Inr (-1, s1)"
      unfolding mp by (simp add: mappages_loop.simps [of pt va])
    with full that(2) show ?thesis by blast
  next
    case (ok b s1)
    let ?e = "PA2PTE pa OR perm OR PTE_V"
    have "mappages pt va PGSIZE pa perm s = Inr (0, s1\<lparr>pmem := st64 b ?e (pmem s1)\<rparr>)"
      unfolding mp using ok(1-3) by (simp add: mappages_loop.simps [of pt va] fold_V del: PTE_V_def)
    then show ?thesis
      by (rule that(1)) (use ok(4) ok(5) [OF _ pte_V_perm] ok(6,7) in simp_all)
  qed
qed

lemma mappages_remap:
  assumes "pt_inv s pt" and "upage va" and "lookup (pmem s) pt va = Some e"
  shows "mappages pt va PGSIZE pa perm s = kpanic ''mappages: remap''"
proof -
  obtain b where b: "slot (pmem s) pt va = Some b" "pte_V (ld64 (pmem s) b)"
    using assms(3) by (auto simp: lookup_def split: option.splits if_splits)
  have "va < MAXVA" using assms(2) unfolding upage_def by blast
  then have "walk pt va True s = Inr (b, s)" by (subst walk_find) (auto simp: b)
  moreover have "mappages pt va PGSIZE pa perm s = mappages_loop pt va va pa perm s"
    using assms(2) by (simp add: mappages_def upage_def pgaligned_def)
  ultimately show ?thesis
    using b(2) slot_nonzero [OF assms(1) b(1)]
    by (simp add: mappages_loop.simps [of pt va] fold_V del: PTE_V_def)
qed

section \<open>Unmapping\<close>

definition frames :: "mem \<Rightarrow> u64 \<Rightarrow> u64 set \<Rightarrow> u64 set" where
  "frames m pt V = (\<Union>va \<in> V. set_option (map_option PTE2PA (lookup m pt va)))"

text \<open>
  The pages mapped at \<open>V\<close> belong to this address space only: they are allocated, no two
  addresses share one, and none is a table page.
\<close>

definition owned :: "'z phys_scheme \<Rightarrow> u64 \<Rightarrow> u64 set \<Rightarrow> bool" where
  "owned s pt V \<longleftrightarrow>
     (\<forall>va \<in> V. \<forall>e. lookup (pmem s) pt va = Some e \<longrightarrow>
        valid_page s (PTE2PA e) \<and> PTE2PA e \<notin> free_pages s \<and> PTE2PA e \<notin> tables (pmem s) pt \<and>
        (\<forall>vb \<in> V. \<forall>e'. lookup (pmem s) pt vb = Some e' \<longrightarrow> PTE2PA e' = PTE2PA e \<longrightarrow> vb = va))"

lemma phys_same:
  assumes "pmem s' = pmem s" "freelist s' = freelist s" "kend s' = kend s"
  shows "pt_inv s' pt = pt_inv s pt" and "owned s' pt V = owned s pt V"
proof -
  have "kmem_inv s' = kmem_inv s" "free_pages s' = free_pages s"
    using assms by (simp_all add: kmem_inv_def kmem_ok_def free_pages_def valid_page_def)
  then show "pt_inv s' pt = pt_inv s pt" "owned s' pt V = owned s pt V"
    using assms by (simp_all add: pt_inv_def owned_def valid_page_def)
qed

lemma owned_cong:
  assumes "owned s pt V" and "kend s' = kend s" and "tables (pmem s') pt = tables (pmem s) pt"
    and "free_pages s' = free_pages s" and "\<And>va. lookup (pmem s') pt va = lookup (pmem s) pt va"
  shows "owned s' pt V"
  using assms(1) by (simp only: owned_def valid_page_def assms(2-5))

definition range_pages :: "u64 \<Rightarrow> nat \<Rightarrow> u64 set" where
  "range_pages a n = {vb. upage vb \<and> in_range a n vb}"

lemma range_pages_Suc:
  "upage a \<Longrightarrow> range_pages a (Suc n) = insert a (range_pages (a + 4096) n)"
  by (auto simp: range_pages_def in_range_Suc)

lemma range_pages_0 [simp]: "range_pages a 0 = {}"
  by (simp add: range_pages_def in_range_def)

text \<open>One iteration of the loop of \<open>uvmunmap\<close>.\<close>

lemma unmap_one:
  assumes inv: "pt_inv s pt" and a: "upage a" and own: "do_free \<Longrightarrow> owned s pt V" and aV: "a \<in> V"
    and lt: "a < ed"
  obtains s1 where "uvmunmap_loop pt a ed do_free s = uvmunmap_loop pt (a + PGSIZE) ed do_free s1"
    "pt_inv s1 pt" "tables (pmem s1) pt = tables (pmem s) pt"
    "free_pages s1 = free_pages s \<union> (if do_free then frames (pmem s) pt {a} else {})"
    "\<And>vb. upage vb \<Longrightarrow> lookup (pmem s1) pt vb = (if vb = a then None else lookup (pmem s) pt vb)"
    "\<And>x. PGROUNDDOWN x \<notin> tables (pmem s) pt \<union> (if do_free then frames (pmem s) pt {a} else {}) \<Longrightarrow>
       pmem s1 x = pmem s x"
    "kend s1 = kend s" "phys.more s1 = phys.more s"
proof -
  have am: "a < MAXVA" using a unfolding upage_def by blast
  have wk: "walk pt a False s = Inr (case slot (pmem s) pt a of None \<Rightarrow> 0 | Some b \<Rightarrow> b, s)"
    by (rule walk_find [OF am]) simp
  show thesis
  proof (cases "lookup (pmem s) pt a")
    case None
    have "uvmunmap_loop pt a ed do_free s = uvmunmap_loop pt (a + PGSIZE) ed do_free s"
      using None wk lt
      by (simp add: uvmunmap_loop.simps [of pt a] fold_V lookup_def del: PTE_V_def
          split: option.splits if_splits)
    moreover have "frames (pmem s) pt {a} = {}" by (simp add: frames_def None)
    ultimately show thesis using inv None by (intro that [of s]) auto
  next
    case (Some e)
    then obtain b where b: "slot (pmem s) pt a = Some b" "pte_V e" "ld64 (pmem s) b = e"
      by (auto simp: lookup_def split: option.splits if_splits)
    have b0: "b \<noteq> 0" by (rule slot_nonzero [OF inv b(1)])
    have fr: "frames (pmem s) pt {a} = {PTE2PA e}" by (simp add: frames_def Some)
    obtain s1 where s1: "(if do_free then kfree (PTE2PA e) s else Inr s) = Inr s1"
      and inv1: "pt_inv s1 pt" and t1: "tables (pmem s1) pt = tables (pmem s) pt"
      and f1: "free_pages s1 = free_pages s \<union> (if do_free then {PTE2PA e} else {})"
      and l1: "\<And>va. lookup (pmem s1) pt va = lookup (pmem s) pt va"
      and sl1: "\<And>va. slot (pmem s1) pt va = slot (pmem s) pt va"
      and m1: "\<And>x. PGROUNDDOWN x \<notin> (if do_free then {PTE2PA e} else {}) \<Longrightarrow> pmem s1 x = pmem s x"
      and k1: "kend s1 = kend s" "phys.more s1 = phys.more s"
    proof (cases do_free)
      case False
      with inv show ?thesis by (intro that [of s]) auto
    next
      case True
      have "valid_page s (PTE2PA e)" "PTE2PA e \<notin> free_pages s" "PTE2PA e \<notin> tables (pmem s) pt"
        using own [OF True] aV Some by (auto simp: owned_def)
      then show ?thesis
        by (rule pt_kfree [OF inv]) (rule that [unfolded if_P [OF True]], assumption+, auto)
    qed
    have sb: "slot (pmem s1) pt a = Some b" by (simp add: sl1 b)
    note se = set_entry [where v = 0, OF inv1 sb a]
    show thesis
    proof (rule that)
      let ?s = "s1\<lparr>pmem := st64 b 0 (pmem s1)\<rparr>"
      show "uvmunmap_loop pt a ed do_free s = uvmunmap_loop pt (a + PGSIZE) ed do_free ?s"
        using wk lt b b0 s1
        by (cases do_free) (simp_all add: uvmunmap_loop.simps [of pt a] fold_V del: PTE_V_def)
      show "pt_inv ?s pt" using se(1) by (simp add: vm_pres_def)
      show "tables (pmem ?s) pt = tables (pmem s) pt" using se(4) t1 by simp
      show "free_pages ?s = free_pages s \<union> (if do_free then frames (pmem s) pt {a} else {})"
        using se(2) f1 fr by simp
      show "lookup (pmem ?s) pt vb = (if vb = a then None else lookup (pmem s) pt vb)"
        if "upage vb" for vb using se(6) [OF that] l1 by simp
      show "pmem ?s x = pmem s x"
        if "PGROUNDDOWN x \<notin> tables (pmem s) pt \<union> (if do_free then frames (pmem s) pt {a} else {})" for x
        using that se(5) [of x] m1 [of x] t1 fr by (cases do_free) simp_all
    qed (simp_all add: k1)
  qed
qed

text \<open>
  After unmapping, the range is gone from the address space and, with \<open>do_free\<close>, exactly
  its pages have been added to the free list.
\<close>

definition unmapped ::
  "u64 \<Rightarrow> u64 set \<Rightarrow> bool \<Rightarrow> 'z phys_scheme \<Rightarrow> 'z phys_scheme \<Rightarrow> bool" where
  "unmapped pt V do_free s s' \<longleftrightarrow>
     pt_inv s' pt \<and> tables (pmem s') pt = tables (pmem s) pt \<and>
     free_pages s' = free_pages s \<union> (if do_free then frames (pmem s) pt V else {}) \<and>
     (\<forall>vb. upage vb \<longrightarrow> lookup (pmem s') pt vb = (if vb \<in> V then None else lookup (pmem s) pt vb)) \<and>
     (\<forall>x. PGROUNDDOWN x \<notin> tables (pmem s) pt \<union> (if do_free then frames (pmem s) pt V else {}) \<longrightarrow>
        pmem s' x = pmem s x) \<and>
     kend s' = kend s \<and> phys.more s' = phys.more s"

lemma frames_insert: "frames m pt (insert a V) = frames m pt {a} \<union> frames m pt V"
  by (auto simp: frames_def)

lemma owned_mono: "owned s pt W \<Longrightarrow> V \<subseteq> W \<Longrightarrow> owned s pt V"
  unfolding owned_def by blast

lemma range_upage: "vb \<in> range_pages a n \<Longrightarrow> upage vb"
  by (simp add: range_pages_def)

lemma uvmunmap_loop_ok:
  assumes "pt_inv s pt" and "pgaligned a" and "unat a + 4096 * n \<le> 274877906944"
    and "unat ed = unat a + 4096 * n" and "do_free \<Longrightarrow> owned s pt (range_pages a n)"
  shows "\<exists>s'. uvmunmap_loop pt a ed do_free s = Inr s' \<and> unmapped pt (range_pages a n) do_free s s'"
  using assms
proof (induction n arbitrary: a s)
  case 0
  then have "\<not> a < ed" by (simp add: word_less_nat_alt)
  with 0 show ?case by (simp add: uvmunmap_loop.simps [of pt a] unmapped_def frames_def)
next
  case (Suc n)
  have a: "upage a" using Suc.prems(2,3) by (simp add: upage_def word_less_nat_alt)
  have ua: "unat (a + 4096) = unat a + 4096"
    by (rule next_page_greater) (use a in \<open>simp add: upage_def\<close>)
  note R = range_pages_Suc [OF a, of n]
  have lt: "a < ed" using Suc.prems(4) by (simp add: word_less_nat_alt)
  obtain s1 where run: "uvmunmap_loop pt a ed do_free s = uvmunmap_loop pt (a + PGSIZE) ed do_free s1"
    and inv1: "pt_inv s1 pt" and t1: "tables (pmem s1) pt = tables (pmem s) pt"
    and f1: "free_pages s1 = free_pages s \<union> (if do_free then frames (pmem s) pt {a} else {})"
    and l1: "\<And>vb. upage vb \<Longrightarrow>
      lookup (pmem s1) pt vb = (if vb = a then None else lookup (pmem s) pt vb)"
    and m1: "\<And>x. PGROUNDDOWN x \<notin> tables (pmem s) pt \<union> (if do_free then frames (pmem s) pt {a} else {})
      \<Longrightarrow> pmem s1 x = pmem s x"
    and k1: "kend s1 = kend s" "phys.more s1 = phys.more s"
    using unmap_one [OF Suc.prems(1) a Suc.prems(5) _ lt] R by blast
  have na: "a \<notin> range_pages (a + 4096) n" by (simp add: range_pages_def in_range_def ua)
  have lk: "lookup (pmem s1) pt vb = lookup (pmem s) pt vb" if "vb \<in> range_pages (a + 4096) n" for vb
    using that na l1 [OF range_upage [OF that]] by auto
  have frs: "frames (pmem s1) pt (range_pages (a + 4096) n) = frames (pmem s) pt (range_pages (a + 4096) n)"
    unfolding frames_def using lk by simp
  have own1: "owned s1 pt (range_pages (a + 4096) n)" if df: do_free
  proof -
    have v1: "valid_page s1 = valid_page s" by (auto simp: valid_page_def k1)
    have own: "owned s pt (insert a (range_pages (a + 4096) n))" using Suc.prems(5) [OF df] R by simp
    have dis: "PTE2PA e \<notin> frames (pmem s) pt {a}"
      if "vb \<in> range_pages (a + 4096) n" "lookup (pmem s) pt vb = Some e" for vb e
    proof
      assume "PTE2PA e \<in> frames (pmem s) pt {a}"
      then obtain e' where "lookup (pmem s) pt a = Some e'" "PTE2PA e' = PTE2PA e"
        by (auto simp: frames_def)
      with own that have "a = vb" unfolding owned_def by blast
      with that na show False by simp
    qed
    show ?thesis
      unfolding owned_def
    proof (intro ballI allI impI conjI)
      fix vb e assume vb: "vb \<in> range_pages (a + 4096) n" and "lookup (pmem s1) pt vb = Some e"
      then have e: "lookup (pmem s) pt vb = Some e" by (simp add: lk)
      have o: "owned s pt (range_pages (a + 4096) n)" using own subset_insertI by (rule owned_mono)
      show "valid_page s1 (PTE2PA e)" "PTE2PA e \<notin> tables (pmem s1) pt"
        using o vb e unfolding owned_def v1 t1 by blast+
      show "PTE2PA e \<notin> free_pages s1"
        using o vb e dis [OF vb e] unfolding owned_def f1 by auto
      show "vc = vb" if "vc \<in> range_pages (a + 4096) n" "lookup (pmem s1) pt vc = Some e'"
        "PTE2PA e' = PTE2PA e" for vc e'
        using o vb e that(1,3) that(2) [unfolded lk [OF that(1)]] unfolding owned_def by blast
    qed
  qed
  have "\<exists>s'. uvmunmap_loop pt (a + 4096) ed do_free s1 = Inr s' \<and>
      unmapped pt (range_pages (a + 4096) n) do_free s1 s'"
    using Suc.prems(2-4) ua own1 inv1 by (intro Suc.IH) (auto simp: pgaligned_unat)
  then obtain s' where run': "uvmunmap_loop pt (a + 4096) ed do_free s1 = Inr s'"
    and un: "unmapped pt (range_pages (a + 4096) n) do_free s1 s'" by blast
  have "unmapped pt (range_pages a (Suc n)) do_free s s'"
    using un l1 m1 unfolding unmapped_def R frames_insert [of _ _ a "range_pages (a + 4096) n"] frs t1 f1 k1
    by (simp add: Un_assoc split: if_splits)
  with run run' show ?case by simp
qed

end
