(* ===== verification/VmFree.thy ===== *)
theory VmFree
  imports VmOps
begin

unbundle bit_operations_syntax

text \<open>
  Tearing an address space down: \<open>freewalk\<close> of a table without leaf mappings ends, and puts
  exactly the table pages on the free list; \<open>uvmfree\<close> gives back every page of an address
  space whose mappings all lie below the process size.
\<close>

section \<open>Trees without leaves\<close>

definition child :: "mem \<Rightarrow> u64 \<Rightarrow> nat \<Rightarrow> u64 option" where
  "child m a i =
     (let e = ld64 m (a + 8 * of_nat i) in if pte_V e then Some (PTE2PA e) else None)"

primrec fw_tables :: "nat \<Rightarrow> mem \<Rightarrow> u64 \<Rightarrow> u64 set" where
  "fw_tables 0 m a = {a}"
| "fw_tables (Suc d) m a =
     insert a (\<Union>i \<in> {..<512}. \<Union>c \<in> set_option (child m a i). fw_tables d m c)"

primrec fw_ok :: "nat \<Rightarrow> mem \<Rightarrow> u64 \<Rightarrow> bool" where
  "fw_ok 0 m a \<longleftrightarrow> pgaligned a \<and> (\<forall>i < 512. child m a i = None)"
| "fw_ok (Suc d) m a \<longleftrightarrow> pgaligned a \<and>
     (\<forall>i < 512. \<forall>c. child m a i = Some c \<longrightarrow>
        ld64 m (a + 8 * of_nat i) AND (PTE_R OR PTE_W OR PTE_X) = 0 \<and>
        fw_ok d m c \<and> a \<notin> fw_tables d m c \<and>
        (\<forall>j < 512. \<forall>c'. j \<noteq> i \<longrightarrow> child m a j = Some c' \<longrightarrow>
           fw_tables d m c' \<inter> fw_tables d m c = {}))"

lemma fw_ok_aligned: "fw_ok d m a \<Longrightarrow> pgaligned a"
  by (cases d) auto

lemma fw_root: "a \<in> fw_tables d m a"
  by (cases d) auto

lemma of_nat_512: "i < 512 \<Longrightarrow> (of_nat i :: u64) < 512"
  by (simp add: word_less_nat_alt unat_of_nat)

lemma child_cong:
  assumes "pgaligned a" and "i < 512" and "\<And>x. PGROUNDDOWN x = a \<Longrightarrow> m x = m' x"
  shows "child m' a i = child m a i"
    and "ld64 m' (a + 8 * of_nat i) = ld64 m (a + 8 * of_nat i)"
  using ld64_page_cong [OF assms(1) of_nat_512 [OF assms(2)] assms(3)]
  by (simp_all add: child_def)

lemma fw_cong:
  assumes "fw_ok d m a" and "\<And>x. PGROUNDDOWN x \<in> fw_tables d m a \<Longrightarrow> m x = m' x"
  shows "fw_tables d m' a = fw_tables d m a \<and> fw_ok d m' a"
  using assms
proof (induction d arbitrary: a)
  case 0
  then have "child m' a i = child m a i" if "i < 512" for i
    using that by (intro child_cong) auto
  with 0 show ?case by simp
next
  case (Suc d)
  have ag: "m x = m' x" if "PGROUNDDOWN x = a" for x
    using that Suc.prems(2) [of x] by simp
  have al: "pgaligned a" using Suc.prems(1) by simp
  have ch: "child m' a i = child m a i"
    and ld: "ld64 m' (a + 8 * of_nat i) = ld64 m (a + 8 * of_nat i)" if "i < 512" for i
    using child_cong [OF al that ag] by auto
  have IH: "fw_tables d m' c = fw_tables d m c \<and> fw_ok d m' c"
    if "i < 512" "child m a i = Some c" for i c
  proof (rule Suc.IH)
    show "fw_ok d m c" using Suc.prems(1) that by simp
    show "m x = m' x" if "PGROUNDDOWN x \<in> fw_tables d m c" for x
      by (rule Suc.prems(2)) (use that \<open>i < 512\<close> \<open>child m a i = Some c\<close> in auto)
  qed
  have tb: "fw_tables (Suc d) m' a = fw_tables (Suc d) m a"
    using IH ch by auto
  moreover have "fw_ok (Suc d) m' a"
    unfolding fw_ok.simps
  proof (intro conjI allI impI)
    fix i c assume i: "i < 512" and "child m' a i = Some c"
    then have c: "child m a i = Some c" by (simp add: ch)
    note p = Suc.prems(1) [unfolded fw_ok.simps, THEN conjunct2, rule_format, OF i c] IH [OF i c]
    show "ld64 m' (a + 8 * of_nat i) AND (PTE_R OR PTE_W OR PTE_X) = 0"
      "fw_ok d m' c" "a \<notin> fw_tables d m' c" using p ld [OF i] by auto
    show "fw_tables d m' c' \<inter> fw_tables d m' c = {}"
      if j: "j < 512" "j \<noteq> i" "child m' a j = Some c'" for j c'
      using p IH [of j c'] j ch by auto
  qed (rule al)
  ultimately show ?case by simp
qed

section \<open>freewalk\<close>

definition freed :: "u64 set \<Rightarrow> 'z phys_scheme \<Rightarrow> 'z phys_scheme \<Rightarrow> bool" where
  "freed T s s' \<longleftrightarrow> kmem_inv s' \<and> free_pages s' = free_pages s \<union> T \<and>
     (\<forall>x. PGROUNDDOWN x \<notin> T \<longrightarrow> pmem s' x = pmem s x) \<and>
     kend s' = kend s \<and> phys.more s' = phys.more s"

lemma freed_page:
  assumes "kmem_inv s" and "valid_page s a" and "a \<notin> free_pages s"
  shows "\<exists>s'. kfree a s = Inr s' \<and> freed {a} s s'"
proof -
  obtain s' where "kfree a s = Inr s'" "kmem_inv s'" "free_pages s' = insert a (free_pages s)"
    using kpages.free_page [OF assms] by blast
  then show ?thesis
    using kfree_mem_other [of a s s'] by (auto simp: freed_def kfree_Inr [OF assms(2)])
qed

lemma freed_trans: "freed T s1 s2 \<Longrightarrow> freed U s2 s3 \<Longrightarrow> freed (T \<union> U) s1 s3"
  unfolding freed_def by auto

definition sub_tables :: "nat \<Rightarrow> mem \<Rightarrow> u64 \<Rightarrow> nat \<Rightarrow> u64 set" where
  "sub_tables d m a i = (\<Union>j \<in> {i..<512}. \<Union>c \<in> set_option (child m a j). fw_tables d m c)"

lemma sub_tables_step:
  "i < 512 \<Longrightarrow> sub_tables d m a i =
     (\<Union>c \<in> set_option (child m a i). fw_tables d m c) \<union> sub_tables d m a (Suc i)"
proof -
  assume "i < 512"
  then have "{i..<512} = insert i {Suc i..<512}" by auto
  then show ?thesis by (simp add: sub_tables_def)
qed

text \<open>The loop over the entries from \<open>i\<close> on, at a table with subtrees of depth \<open>d\<close>.\<close>

definition entries_ok :: "nat \<Rightarrow> 'z phys_scheme \<Rightarrow> u64 \<Rightarrow> nat \<Rightarrow> bool" where
  "entries_ok d s a i \<longleftrightarrow>
     kmem_inv s \<and> valid_page s a \<and> a \<notin> free_pages s \<and> a \<notin> sub_tables d (pmem s) a i \<and>
     sub_tables d (pmem s) a i \<inter> free_pages s = {} \<and>
     (\<forall>t \<in> sub_tables d (pmem s) a i. valid_page s t) \<and>
     (\<forall>j \<in> {i..<512}. \<forall>c. child (pmem s) a j = Some c \<longrightarrow>
        ld64 (pmem s) (a + 8 * of_nat j) AND (PTE_R OR PTE_W OR PTE_X) = 0 \<and>
        fw_ok d (pmem s) c \<and>
        (\<forall>k \<in> {i..<512}. \<forall>c'. k \<noteq> j \<longrightarrow> child (pmem s) a k = Some c' \<longrightarrow>
           fw_tables d (pmem s) c' \<inter> fw_tables d (pmem s) c = {}))"

lemma sub_tables_cong:
  assumes "pgaligned a"
    and "\<And>j c. j \<in> {i..<512} \<Longrightarrow> child m a j = Some c \<Longrightarrow> fw_ok d m c"
    and "\<And>j. j \<in> {i..<512} \<Longrightarrow> ld64 m' (a + 8 * of_nat j) = ld64 m (a + 8 * of_nat j)"
    and "\<And>x. PGROUNDDOWN x \<in> sub_tables d m a i \<Longrightarrow> m x = m' x"
  shows "sub_tables d m' a i = sub_tables d m a i"
    and "j \<in> {i..<512} \<Longrightarrow> child m a j = Some c \<Longrightarrow>
      fw_tables d m' c = fw_tables d m c \<and> fw_ok d m' c"
proof -
  have ch: "child m' a j = child m a j" if "j \<in> {i..<512}" for j
    using assms(3) [OF that] by (simp add: child_def)
  show fw: "fw_tables d m' c = fw_tables d m c \<and> fw_ok d m' c"
    if "j \<in> {i..<512}" "child m a j = Some c" for j c
    by (rule fw_cong [OF assms(2) [OF that]], rule assms(4))
      (use that in \<open>auto simp: sub_tables_def\<close>)
  show "sub_tables d m' a i = sub_tables d m a i"
    unfolding sub_tables_def using ch fw by auto
qed

lemma entries_okD:
  assumes "entries_ok d s a i" and "j \<in> {i..<512}" and "child (pmem s) a j = Some c"
  shows "ld64 (pmem s) (a + 8 * of_nat j) AND (PTE_R OR PTE_W OR PTE_X) = 0"
    and "fw_ok d (pmem s) c"
    and "k \<in> {i..<512} \<Longrightarrow> k \<noteq> j \<Longrightarrow> child (pmem s) a k = Some c' \<Longrightarrow>
      fw_tables d (pmem s) c' \<inter> fw_tables d (pmem s) c = {}"
  using assms unfolding entries_ok_def by blast+

lemma entries_skip:
  assumes ok: "entries_ok d s a i" and i: "i < 512" and none: "child (pmem s) a i = None"
  shows "entries_ok d s a (Suc i)"
proof -
  have sub: "j \<in> {Suc i..<512} \<Longrightarrow> j \<in> {i..<512}" for j by simp
  have "sub_tables d (pmem s) a (Suc i) = sub_tables d (pmem s) a i"
    by (simp add: sub_tables_step [OF i] none)
  then show ?thesis
    using ok entries_okD [OF ok sub] sub unfolding entries_ok_def by metis
qed

lemma entries_step:
  assumes ok: "entries_ok d s a i" and i: "i < 512" and c: "child (pmem s) a i = Some c"
    and fr: "freed (fw_tables d (pmem s) c) s s1"
  defines "s2 \<equiv> s1\<lparr>pmem := st64 (a + 8 * of_nat i) 0 (pmem s1)\<rparr>"
  shows "entries_ok d s2 a (Suc i)"
    and "sub_tables d (pmem s2) a (Suc i) = sub_tables d (pmem s) a (Suc i)"
    and "free_pages s2 = free_pages s \<union> fw_tables d (pmem s) c"
    and "PGROUNDDOWN x \<notin> insert a (fw_tables d (pmem s) c) \<Longrightarrow> pmem s2 x = pmem s x"
    and "kend s2 = kend s" "phys.more s2 = phys.more s"
proof -
  let ?T = "fw_tables d (pmem s) c" and ?S = "sub_tables d (pmem s) a (Suc i)"
  have al: "pgaligned a" and aT: "a \<notin> ?T" and aS: "a \<notin> ?S" and af: "a \<notin> free_pages s"
    using ok i c by (auto simp: entries_ok_def valid_page_def sub_tables_step [OF i])
  have k: "kend s1 = kend s" "phys.more s1 = phys.more s"
    and f1: "free_pages s1 = free_pages s \<union> ?T" and ki: "kmem_inv s1"
    and m1: "\<And>x. PGROUNDDOWN x \<notin> ?T \<Longrightarrow> pmem s1 x = pmem s x"
    using fr by (auto simp: freed_def)
  show "kend s2 = kend s" "phys.more s2 = phys.more s" by (simp_all add: s2_def k)
  have m12: "pmem s2 x = pmem s1 x" if "PGROUNDDOWN x \<noteq> a" for x
    using that by (simp add: s2_def entry_page [OF al of_nat_512 [OF i]])
  show m2: "pmem s2 x = pmem s x" if "PGROUNDDOWN x \<notin> insert a ?T" for x
    using that m1 m12 by auto
  have "pmem s2 x = pmem s1 x" if "PGROUNDDOWN x \<in> free_pages s1" for x
    by (rule m12) (use that f1 aT af in auto)
  from kmem_inv_frame [OF ki _ _ this] have ki2: "kmem_inv s2" and f2: "free_pages s2 = free_pages s \<union> ?T"
    by (auto simp: s2_def f1)
  show "free_pages s2 = free_pages s \<union> ?T" by (rule f2)
  have dis: "?T \<inter> ?S = {}"
  proof -
    have "?T \<inter> fw_tables d (pmem s) c' = {}"
      if "j \<in> {Suc i..<512}" "child (pmem s) a j = Some c'" for j c'
      using entries_okD(3) [OF ok _ c, of j c'] that i by auto
    then show ?thesis unfolding sub_tables_def by fastforce
  qed
  have ent: "ld64 (pmem s2) (a + 8 * of_nat j) = ld64 (pmem s) (a + 8 * of_nat j)"
    if "j \<in> {Suc i..<512}" for j
  proof -
    have "(of_nat i :: u64) \<noteq> of_nat j"
      using that i by (auto simp: word_unat_eq_iff unat_of_nat)
    then have "ld64 (pmem s2) (a + 8 * of_nat j) = ld64 (pmem s1) (a + 8 * of_nat j)"
      using that al i by (simp add: s2_def entry_other_page of_nat_512)
    also have "\<dots> = ld64 (pmem s) (a + 8 * of_nat j)"
      by (rule ld64_page_cong) (use al that m1 aT in \<open>auto intro: of_nat_512\<close>)
    finally show ?thesis .
  qed
  have okj: "fw_ok d (pmem s) c'" if "j \<in> {Suc i..<512}" "child (pmem s) a j = Some c'" for j c'
    using ok that by (auto simp: entries_ok_def)
  have agree: "pmem s x = pmem s2 x" if "PGROUNDDOWN x \<in> ?S" for x
  proof -
    have "PGROUNDDOWN x \<notin> insert a ?T" using that dis aS by auto
    from m2 [OF this] show ?thesis by simp
  qed
  show S2: "sub_tables d (pmem s2) a (Suc i) = ?S"
    by (rule sub_tables_cong(1) [OF al okj ent agree])
  have sc: "fw_tables d (pmem s2) c' = fw_tables d (pmem s) c' \<and> fw_ok d (pmem s2) c'"
    if "j \<in> {Suc i..<512}" "child (pmem s) a j = Some c'" for j c'
    by (rule sub_tables_cong(2) [OF al okj ent agree that])
  have vs: "valid_page s2 = valid_page s" by (auto simp: valid_page_def s2_def k)
  have ch: "child (pmem s2) a j = child (pmem s) a j" if "j \<in> {Suc i..<512}" for j
    using ent [OF that] by (simp add: child_def)
  show "entries_ok d s2 a (Suc i)"
    unfolding entries_ok_def S2 vs f2
  proof (intro conjI ballI allI impI)
    show "kmem_inv s2" by (rule ki2)
    show "valid_page s a" "a \<notin> free_pages s \<union> ?T" "a \<notin> ?S" "?S \<inter> (free_pages s \<union> ?T) = {}"
      using ok aT aS af dis sub_tables_step [OF i, of d "pmem s" a] by (auto simp: entries_ok_def)
    show "valid_page s t" if "t \<in> ?S" for t
      using ok that sub_tables_step [OF i, of d "pmem s" a] by (auto simp: entries_ok_def)
    fix j c' assume j: "j \<in> {Suc i..<512}" and "child (pmem s2) a j = Some c'"
    then have c': "child (pmem s) a j = Some c'" by (simp add: ch)
    from j have ji: "j \<in> {i..<512}" by simp
    note o = entries_okD [OF ok ji c']
    show "ld64 (pmem s2) (a + 8 * of_nat j) AND (PTE_R OR PTE_W OR PTE_X) = 0"
      using o ent [OF j] by simp
    show "fw_ok d (pmem s2) c'" using sc [OF j c'] by simp
    show "fw_tables d (pmem s2) c'' \<inter> fw_tables d (pmem s2) c' = {}"
      if "k \<in> {Suc i..<512}" "k \<noteq> j" "child (pmem s2) a k = Some c''" for k c''
      using o(3) [of k c''] that sc [OF j c'] sc [OF that(1), of c''] ch [OF that(1)] by simp
  qed
qed

definition tree_ok :: "nat \<Rightarrow> 'z phys_scheme \<Rightarrow> u64 \<Rightarrow> bool" where
  "tree_ok d s a \<longleftrightarrow> kmem_inv s \<and> fw_ok d (pmem s) a \<and>
     (\<forall>t \<in> fw_tables d (pmem s) a. valid_page s t \<and> t \<notin> free_pages s)"

lemma freewalk_loop:
  fixes s :: "'z phys_scheme"
  assumes IH: "\<And>c s. d' = Suc d \<Longrightarrow> tree_ok d (s :: 'z phys_scheme) c \<Longrightarrow>
      \<exists>s'. freewalk_from c 0 s = Some (Inr s') \<and> freed (fw_tables d (pmem s) c) s s'"
    and "i \<le> 512" and "entries_ok d s a i"
    and none: "d' = 0 \<Longrightarrow> \<forall>j \<in> {i..<512}. child (pmem s) a j = None"
    and "d' = 0 \<or> d' = Suc d"
  shows "\<exists>s'. freewalk_from a i s = Some (Inr s') \<and>
    freed (insert a (sub_tables d (pmem s) a i)) s s'"
  using assms(2-4)
proof (induction "512 - i" arbitrary: i s)
  case 0
  then have "i = 512" and S: "sub_tables d (pmem s) a i = {}" by (auto simp: sub_tables_def)
  with 0 show ?case
    using freed_page [of s a] by (auto simp: entries_ok_def freewalk_from.simps [of a 512])
next
  case (Suc k)
  then have i: "i < 512" and k: "k = 512 - Suc i" by auto
  let ?slot = "a + 8 * of_nat i"
  show ?case
  proof (cases "child (pmem s) a i")
    case None
    then have "freewalk_from a i s = freewalk_from a (Suc i) s"
      using i by (simp add: freewalk_from.simps [of a i] child_def Let_def fold_V del: PTE_V_def split: if_splits)
    moreover have "sub_tables d (pmem s) a i = sub_tables d (pmem s) a (Suc i)"
      by (simp add: sub_tables_step [OF i] None)
    moreover have "entries_ok d s a (Suc i)" by (rule entries_skip [OF Suc.prems(2) i None])
    ultimately show ?thesis using Suc.hyps(1) [OF k] Suc.prems(3) i by auto
  next
    case (Some c)
    then have d': "d' = Suc d" using assms(5) Suc.prems(3) i by auto
    note o = entries_okD [OF Suc.prems(2) _ Some]
    have "tree_ok d s c"
      using Suc.prems(2) o(2) i Some
      unfolding tree_ok_def entries_ok_def sub_tables_step [OF i] by auto
    then obtain s1 where run: "freewalk_from c 0 s = Some (Inr s1)"
      and fr: "freed (fw_tables d (pmem s) c) s s1" using IH [OF d'] by blast
    let ?s2 = "s1\<lparr>pmem := st64 ?slot 0 (pmem s1)\<rparr>"
    note st = entries_step [OF Suc.prems(2) i Some fr]
    obtain s' where run': "freewalk_from a (Suc i) ?s2 = Some (Inr s')"
      and fr': "freed (insert a (sub_tables d (pmem s) a (Suc i))) ?s2 s'"
      using Suc.hyps(1) [OF k _ st(1)] i d' st(2) by auto
    have "pte_V (ld64 (pmem s) ?slot)" "c = PTE2PA (ld64 (pmem s) ?slot)"
      using Some by (auto simp: child_def Let_def split: if_splits)
    then have "freewalk_from a i s = Some (Inr s')"
      using i run run' o(1)
      by (simp add: freewalk_from.simps [of a i] Let_def fold_V del: PTE_V_def PTE_R_def PTE_W_def PTE_X_def)
    moreover have "freed (insert a (sub_tables d (pmem s) a i)) s s'"
      using fr' st(3-6) unfolding freed_def sub_tables_step [OF i] Some by auto
    ultimately show ?thesis by blast
  qed
qed

lemma freewalk_tree:
  "tree_ok d s a \<Longrightarrow>
   \<exists>s'. freewalk_from a 0 s = Some (Inr s') \<and> freed (fw_tables d (pmem s) a) s s'"
proof (induction d arbitrary: a s)
  case 0
  then have none: "\<forall>j \<in> {0..<512}. child (pmem s) a j = None" by (simp add: tree_ok_def)
  then have S: "sub_tables 0 (pmem s) a 0 = {}" by (auto simp: sub_tables_def)
  have "entries_ok 0 s a 0"
    using 0 none unfolding entries_ok_def S tree_ok_def by auto
  from freewalk_loop [of 0 0 0 s a, OF _ _ this] none S show ?case by simp
next
  case (Suc d)
  have T: "fw_tables (Suc d) (pmem s) a = insert a (sub_tables d (pmem s) a 0)"
    by (simp add: sub_tables_def atLeast0LessThan)
  have "a \<notin> sub_tables d (pmem s) a 0"
    using Suc.prems by (auto simp: tree_ok_def sub_tables_def)
  then have "entries_ok d s a 0"
    using Suc.prems unfolding entries_ok_def tree_ok_def T by auto
  from freewalk_loop [of "Suc d" d 0 s a, OF Suc.IH _ this] T show ?case by simp
qed

section \<open>The table of an address space without mappings\<close>

definition ipath :: "nat \<Rightarrow> u64 list \<Rightarrow> bool" where
  "ipath d p \<longleftrightarrow> length p \<le> d \<and> (\<forall>i \<in> set p. i < 512)"

lemma child_node: "child m a i = node m a [of_nat i]"
  by (simp add: child_def Let_def)

lemma node_child: "i < 512 \<Longrightarrow> node m a (of_nat i # p) = Option.bind (child m a i) (\<lambda>c. node m c p)"
  by (simp add: child_def Let_def)

lemma ipath_Cons:
  assumes "ipath (Suc d) p" and "p \<noteq> []"
  obtains i q where "p = of_nat i # q" "i < 512" "ipath d q"
proof -
  obtain k q where p: "p = k # q" using assms(2) by (cases p) auto
  show thesis
    by (rule that [of "unat k" q]) (use assms(1) p in \<open>auto simp: ipath_def word_less_nat_alt\<close>)
qed

lemma fw_tables_paths: "fw_tables d m a = {b. \<exists>p. ipath d p \<and> node m a p = Some b}"
proof (induction d arbitrary: a)
  case 0
  show ?case by (auto simp: ipath_def)
next
  case (Suc d)
  show ?case
  proof (intro set_eqI iffI)
    fix b assume "b \<in> fw_tables (Suc d) m a"
    then consider "b = a" | i c p where "i < 512" "child m a i = Some c" "ipath d p" "node m c p = Some b"
      by (auto simp: Suc.IH)
    then show "b \<in> {b. \<exists>p. ipath (Suc d) p \<and> node m a p = Some b}"
    proof cases
      case 1
      then show ?thesis by (auto simp: ipath_def intro: exI [of _ "[]"])
    next
      case 2
      then have "ipath (Suc d) (of_nat i # p)" "node m a (of_nat i # p) = Some b"
        by (auto simp: ipath_def of_nat_512 node_child simp del: node.simps)
      then show ?thesis by blast
    qed
  next
    fix b assume "b \<in> {b. \<exists>p. ipath (Suc d) p \<and> node m a p = Some b}"
    then obtain p where p: "ipath (Suc d) p" "node m a p = Some b" by blast
    show "b \<in> fw_tables (Suc d) m a"
    proof (cases "p = []")
      case True
      with p show ?thesis by simp
    next
      case False
      with p(1) obtain i q where q: "p = of_nat i # q" "i < 512" "ipath d q" by (rule ipath_Cons)
      with p(2) obtain c where "child m a i = Some c" "node m c q = Some b"
        by (auto simp: node_child bind_eq_Some_conv simp del: node.simps)
      with q show ?thesis by (auto simp: Suc.IH)
    qed
  qed
qed

lemma fw_ok_paths:
  assumes "pgaligned a"
    and "\<And>p q b. ipath d p \<Longrightarrow> ipath d q \<Longrightarrow> node m a p = Some b \<Longrightarrow> node m a q = Some b \<Longrightarrow> p = q"
    and "\<And>p b i. ipath d p \<Longrightarrow> length p < d \<Longrightarrow> i < 512 \<Longrightarrow> node m a p = Some b \<Longrightarrow>
      pte_V (ld64 m (b + 8 * i)) \<Longrightarrow> ld64 m (b + 8 * i) AND (PTE_R OR PTE_W OR PTE_X) = 0"
    and "\<And>p b i. ipath d p \<Longrightarrow> length p = d \<Longrightarrow> i < 512 \<Longrightarrow> node m a p = Some b \<Longrightarrow>
      \<not> pte_V (ld64 m (b + 8 * i))"
  shows "fw_ok d m a"
  using assms
proof (induction d arbitrary: a)
  case 0
  from 0(1) 0(4) [of "[]"] show ?case by (simp add: ipath_def child_def of_nat_512)
next
  case (Suc d)
  have path: "ipath (Suc d) (of_nat i # p)" "node m a (of_nat i # p) = node m c p"
    if "i < 512" "child m a i = Some c" "ipath d p" for i c p
    using that by (auto simp: ipath_def of_nat_512 node_child simp del: node.simps)
  show ?case
    unfolding fw_ok.simps
  proof (intro conjI allI impI)
    fix i c assume i: "i < 512" and c: "child m a i = Some c"
    note pc = path [OF i c]
    show "ld64 m (a + 8 * of_nat i) AND (PTE_R OR PTE_W OR PTE_X) = 0"
      using Suc.prems(3) [of "[]" "of_nat i" a] c i
      by (auto simp: ipath_def child_def of_nat_512 Let_def split: if_splits)
    show "fw_ok d m c"
    proof (rule Suc.IH)
      show "pgaligned c" using c by (auto simp: child_def Let_def split: if_splits)
      show "p = q" if "ipath d p" "ipath d q" "node m c p = Some b" "node m c q = Some b" for p q b
        using Suc.prems(2) [OF pc(1) [OF that(1)] pc(1) [OF that(2)]] that pc(2) by simp
      show "ld64 m (b + 8 * k) AND (PTE_R OR PTE_W OR PTE_X) = 0"
        if "ipath d p" "length p < d" "k < 512" "node m c p = Some b" "pte_V (ld64 m (b + 8 * k))" for p b k
        using Suc.prems(3) [OF pc(1) [OF that(1)] _ that(3)] that pc(2) by simp
      show "\<not> pte_V (ld64 m (b + 8 * k))"
        if "ipath d p" "length p = d" "k < 512" "node m c p = Some b" for p b k
        using Suc.prems(4) [OF pc(1) [OF that(1)] _ that(3)] that pc(2) by simp
    qed
    show "a \<notin> fw_tables d m c"
    proof
      assume "a \<in> fw_tables d m c"
      then obtain p where p: "ipath d p" "node m c p = Some a" by (auto simp: fw_tables_paths)
      have "[] = of_nat i # p"
        by (rule Suc.prems(2) [of _ _ a]) (use p pc [OF p(1)] in \<open>auto simp: ipath_def\<close>)
      then show False by simp
    qed
    show "fw_tables d m c' \<inter> fw_tables d m c = {}"
      if j: "j < 512" "j \<noteq> i" "child m a j = Some c'" for j c'
    proof -
      have "(of_nat i :: u64) \<noteq> of_nat j"
        using j i by (auto simp: word_unat_eq_iff unat_of_nat)
      moreover have "of_nat i # p = of_nat j # q"
        if "ipath d p" "ipath d q" "node m c p = Some b" "node m c' q = Some b" for p q b
        by (rule Suc.prems(2) [of _ _ b])
          (simp_all only: pc [OF that(1)] path [OF j(1,3) that(2)] that(3,4))
      ultimately show ?thesis unfolding fw_tables_paths by blast
    qed
  qed (rule Suc.prems(1))
qed

lemma no_leaf:
  assumes wf: "pt_wf m pt" and none: "\<And>va. upage va \<Longrightarrow> lookup m pt va = None"
    and p: "ipath 2 p" "length p = 2" "node m pt p = Some b" and i: "i < 512"
  shows "\<not> pte_V (ld64 m (b + 8 * i))"
proof -
  obtain i2 i1 where pe: "p = [i2, i1]" using p(2) by (auto simp: numeral_2_eq_2 length_Suc_conv)
  have b: "i2 < 512" "i1 < 512" using p(1) pe by (auto simp: ipath_def)
  have "pte_V (ld64 m (pt + 8 * i2))" using p(3) pe by (auto split: if_splits)
  with wf b(1) have "i2 < 256"
    unfolding pt_wf_def pt_links_def by (metis tpath_Nil node.simps(1) list.size(3) zero_less_numeral)
  then obtain va where va: "upage va" "PX 2 va = i2" "PX 1 va = i1" "PX 0 va = i"
    using b(2) i unfolding upage_def by (metis PX_surj)
  have "vpath va = p" unfolding vpath_def va pe ..
  with none [OF va(1)] p(3) show ?thesis
    by (simp add: lookup_def slot_def va split: if_splits)
qed

lemma pt_tree_ok:
  assumes inv: "pt_inv s pt" and none: "\<And>va. upage va \<Longrightarrow> lookup (pmem s) pt va = None"
  shows "tree_ok 2 s pt" and "fw_tables 2 (pmem s) pt = tables (pmem s) pt"
proof -
  note d = pt_inv_dest [OF inv]
  have tp: "ipath 2 = tpath" by (auto simp: ipath_def tpath_def)
  show T: "fw_tables 2 (pmem s) pt = tables (pmem s) pt"
    by (simp add: fw_tables_paths tables_def tp)
  have "fw_ok 2 (pmem s) pt"
  proof (rule fw_ok_paths)
    show "pgaligned pt" by (rule d(3))
    show "p = q" if "ipath 2 p" "ipath 2 q" "node (pmem s) pt p = Some b" "node (pmem s) pt q = Some b" for p q b
      using pt_wf_inj [OF d(2)] that by (simp add: tp)
    show "ld64 (pmem s) (b + 8 * i) AND (PTE_R OR PTE_W OR PTE_X) = 0"
      if "ipath 2 p" "length p < 2" "i < 512" "node (pmem s) pt p = Some b"
        "pte_V (ld64 (pmem s) (b + 8 * i))" for p b i
      using d(2) that unfolding pt_wf_def pt_links_def tp by blast
    show "\<not> pte_V (ld64 (pmem s) (b + 8 * i))"
      if "ipath 2 p" "length p = 2" "i < 512" "node (pmem s) pt p = Some b" for p b i
      by (rule no_leaf [OF d(2) none that(1,2,4,3)])
  qed
  then show "tree_ok 2 s pt"
    unfolding tree_ok_def T using d(1,4,5) by blast
qed

lemma freewalk_empty:
  assumes "pt_inv s pt" and "\<And>va. upage va \<Longrightarrow> lookup (pmem s) pt va = None"
  shows "\<exists>s'. freewalk pt s = Inr s' \<and> freed (tables (pmem s) pt) s s'"
  using freewalk_tree [OF pt_tree_ok(1) [OF assms]]
  by (auto simp: freewalk_def pt_tree_ok(2) [OF assms])

section \<open>uvmfree\<close>

lemma sz_pages:
  assumes "sz \<le> MAXVA"
  shows "unat (PGROUNDUP sz div PGSIZE) = (unat sz + 4095) div 4096"
    and "unat (PGROUNDUP sz div PGSIZE * PGSIZE) = (unat sz + 4095) div 4096 * 4096"
    and "(unat sz + 4095) div 4096 * 4096 \<le> 274877906944"
proof -
  have le: "unat sz \<le> 274877906944" using assms by (simp add: word_le_nat_alt)
  then have u: "unat (PGROUNDUP sz) = (unat sz + 4095) div 4096 * 4096"
    by (simp add: unat_PGROUNDUP)
  then show d: "unat (PGROUNDUP sz div PGSIZE) = (unat sz + 4095) div 4096"
    by (simp add: unat_div_distrib)
  show le': "(unat sz + 4095) div 4096 * 4096 \<le> 274877906944"
    using div_le_mono [of "unat sz + 4095" "274877906944 + 4095" 4096] le by simp
  then show "unat (PGROUNDUP sz div PGSIZE * PGSIZE) = (unat sz + 4095) div 4096 * 4096"
    using d by (simp add: unat_word_ariths)
qed

lemma range_below_sz:
  assumes "sz \<le> MAXVA" and "upage va" and "va < sz"
  shows "va \<in> range_pages 0 ((unat sz + 4095) div 4096)"
proof -
  have "unat va < unat sz" using assms(3) by (simp add: word_less_nat_alt)
  moreover have "4096 dvd unat va" using assms(2) by (simp add: upage_def pgaligned_unat)
  ultimately have "unat va < 4096 * ((unat sz + 4095) div 4096)" by (auto elim!: dvdE)
  with assms(2) show ?thesis by (simp add: range_pages_def in_range_def)
qed

lemma uvmfree_ok:
  assumes inv: "pt_inv s pt" and sz: "sz \<le> MAXVA"
    and below: "\<And>va. upage va \<Longrightarrow> lookup (pmem s) pt va \<noteq> None \<Longrightarrow> va < sz"
    and own: "owned s pt {va. upage va}"
  shows "\<exists>s'. uvmfree pt sz s = Inr s' \<and>
    freed (tables (pmem s) pt \<union> frames (pmem s) pt {va. upage va}) s s'"
proof -
  define n where "n = (unat sz + 4095) div 4096"
  have fr: "frames (pmem s) pt (range_pages 0 n) = frames (pmem s) pt {va. upage va}"
    unfolding frames_def using below range_below_sz [OF sz] range_upage
    by (fastforce simp: n_def)
  obtain s1 where s1: "(if sz > 0 then uvmunmap pt 0 (PGROUNDUP sz div PGSIZE) True s else Inr s) = Inr s1"
    and un: "unmapped pt (range_pages 0 n) True s s1"
  proof (cases "sz > 0")
    case True
    have "\<exists>s1. uvmunmap_loop pt 0 (PGROUNDUP sz div PGSIZE * PGSIZE) True s = Inr s1 \<and>
        unmapped pt (range_pages 0 n) True s s1"
      using sz_pages [OF sz] inv owned_mono [OF own, of "range_pages 0 n"] range_upage
      by (intro uvmunmap_loop_ok) (auto simp: n_def pgaligned_def)
    with True that show ?thesis by (auto simp: uvmunmap_def simp del: PGSIZE_def)
  next
    case False
    then have "sz = 0" by (simp add: word_less_nat_alt unsigned_eq_0_iff)
    then have "n = 0" by (simp add: n_def)
    with False that inv show ?thesis by (auto simp: unmapped_def frames_def)
  qed
  have inv1: "pt_inv s1 pt" using un by (simp add: unmapped_def)
  have "lookup (pmem s1) pt va = None" if "upage va" for va
    using un that below [OF that] range_below_sz [OF sz that]
    by (cases "lookup (pmem s) pt va") (auto simp: unmapped_def n_def)
  from freewalk_empty [OF inv1 this] obtain s' where
    s': "freewalk pt s1 = Inr s'" and f: "freed (tables (pmem s1) pt) s1 s'" by blast
  have "freed (tables (pmem s) pt \<union> frames (pmem s) pt {va. upage va}) s s'"
    using f un unfolding freed_def unmapped_def fr by auto
  with s1 s' show ?thesis by (auto simp: uvmfree_def)
qed

end
