(* ===== verification/VmCopy.thy ===== *)
theory VmCopy
  imports VmFree
begin

unbundle bit_operations_syntax

text \<open>
  Lazy allocation and the user copies: \<open>vmfault\<close> maps one fresh zeroed page or changes
  nothing, and \<open>copyin\<close>, \<open>copyout\<close> and \<open>copyinstr\<close> move bytes page by page exactly as if
  user memory were one array.
\<close>

section \<open>vmfault\<close>

lemma ismapped_lookup:
  assumes "pt_inv s pt" and "va < MAXVA"
  shows "ismapped pt va s = Inr (lookup (pmem s) pt va \<noteq> None)"
  using walk_find [OF assms(2), of False s pt] slot_nonzero [OF assms(1)]
  by (auto simp: ismapped_def lookup_def fold_V simp del: PTE_V_def split: option.splits)

lemma zero_page:
  assumes inv: "pt_inv s pt" and ka: "kalloc s = (pg, s1)" "pg \<noteq> 0"
  defines "s2 \<equiv> s1\<lparr>pmem := memset pg 0 (unat PGSIZE) (pmem s1)\<rparr>"
  shows "pt_inv s2 pt" and "tables (pmem s2) pt = tables (pmem s) pt"
    and "free_pages s2 = free_pages s - {pg}"
    and "lookup (pmem s2) pt vb = lookup (pmem s) pt vb"
    and "PGROUNDDOWN x = pg \<Longrightarrow> pmem s2 x = 0"
    and "PGROUNDDOWN x \<noteq> pg \<Longrightarrow> pmem s2 x = pmem s x"
    and "kend s2 = kend s" "phys.more s2 = phys.more s"
proof -
  note k = pt_kalloc [OF inv ka]
  have al: "pgaligned pg" using k(5) by (simp add: valid_page_def)
  have m: "pmem s2 x = (if PGROUNDDOWN x = pg then 0 else pmem s1 x)" for x
    by (simp add: s2_def memset_page [OF al])
  have npg: "pg \<notin> tables (pmem s1) pt \<union> free_pages s1"
    using k(2,3,4) pt_inv_dest(5) [OF inv] by auto
  have fr: "freelist s2 = freelist s1" "kend s2 = kend s1" by (simp_all add: s2_def)
  have "pmem s2 x = pmem s1 x" if "PGROUNDDOWN x \<in> tables (pmem s1) pt \<union> free_pages s1" for x
    using that npg m by auto
  note f = pt_frame [OF k(1) fr this]
  show "pt_inv s2 pt" "tables (pmem s2) pt = tables (pmem s) pt"
    "free_pages s2 = free_pages s - {pg}" "lookup (pmem s2) pt vb = lookup (pmem s) pt vb"
    using f k by auto
  show "PGROUNDDOWN x = pg \<Longrightarrow> pmem s2 x = 0" "PGROUNDDOWN x \<noteq> pg \<Longrightarrow> pmem s2 x = pmem s x"
    using m k(7) by auto
  show "kend s2 = kend s" "phys.more s2 = phys.more s" using k(8,9) by (simp_all add: s2_def)
qed

text \<open>The outcomes of a page fault below the process size on an unmapped page.\<close>

definition fault_maps ::
  "u64 \<Rightarrow> u64 \<Rightarrow> u64 \<Rightarrow> 'z phys_scheme \<Rightarrow> 'z phys_scheme \<Rightarrow> bool" where
  "fault_maps pt va mem s s' \<longleftrightarrow>
     mem \<noteq> 0 \<and> mem \<in> free_pages s \<and> mem \<notin> free_pages s' \<union> tables (pmem s') pt \<and>
     valid_page s' mem \<and> (\<forall>x. PGROUNDDOWN x = mem \<longrightarrow> pmem s' x = 0) \<and>
     insert mem (tables (pmem s') pt \<union> free_pages s') = tables (pmem s) pt \<union> free_pages s \<and>
     (\<forall>vb. upage vb \<longrightarrow> lookup (pmem s') pt vb =
        (if vb = PGROUNDDOWN va then Some (PA2PTE mem OR (PTE_W OR PTE_U OR PTE_R) OR PTE_V)
         else lookup (pmem s) pt vb))"

definition fault_fails :: "u64 \<Rightarrow> 'z phys_scheme \<Rightarrow> 'z phys_scheme \<Rightarrow> bool" where
  "fault_fails pt s s' \<longleftrightarrow>
     tables (pmem s') pt \<union> free_pages s' = tables (pmem s) pt \<union> free_pages s \<and>
     (\<forall>vb. upage vb \<longrightarrow> lookup (pmem s') pt vb = lookup (pmem s) pt vb)"

definition vm_frame :: "u64 \<Rightarrow> 'z phys_scheme \<Rightarrow> 'z phys_scheme \<Rightarrow> bool" where
  "vm_frame pt s s' \<longleftrightarrow> pt_inv s' pt \<and>
     (\<forall>x. PGROUNDDOWN x \<notin> tables (pmem s) pt \<union> free_pages s \<longrightarrow> pmem s' x = pmem s x) \<and>
     kend s' = kend s \<and> phys.more s' = phys.more s"

text \<open>The tables that are missing on the way to a page.\<close>

definition new_tables :: "mem \<Rightarrow> u64 \<Rightarrow> u64 \<Rightarrow> nat" where
  "new_tables m pt va = card {q \<in> {[PX 2 va], vpath va}. node m pt q = None}"

lemma paths_of_one: "q \<in> paths_of {va} \<longleftrightarrow> q = [] \<or> q = [PX 2 va] \<or> q = vpath va"
  by (auto simp: paths_of_def vpath_def prefix_Cons)

lemma tpath_first: "tpath [PX 2 va]"
  using PX_less by (simp add: tpath_def)

text \<open>A walk that allocates takes exactly the missing tables from the free list, and fails only when there are too few.\<close>

lemma walk_pages:
  assumes inv: "pt_inv s pt" and pres: "vm_pres pt s s'" and gr: "pt_grown pt (paths_of {va}) (pmem s) (pmem s')"
  shows "free_pages s' = {} \<Longrightarrow> slot (pmem s') pt va = None \<Longrightarrow> card (free_pages s) < new_tables (pmem s) pt va"
    and "slot (pmem s') pt va \<noteq> None \<Longrightarrow> new_tables (pmem s) pt va \<le> card (free_pages s)"
proof -
  let ?n = "\<lambda>q. the (node (pmem s') pt q)" and ?Q = "{q \<in> {[PX 2 va], vpath va}. node (pmem s) pt q = None}"
  have same: "node (pmem s') pt q = node (pmem s) pt q" if "tpath q" "node (pmem s) pt q \<noteq> None" for q
    using gr that unfolding pt_grown_def by blast
  have T: "tables (pmem s') pt \<union> free_pages s' = tables (pmem s) pt \<union> free_pages s" and inv': "pt_inv s' pt"
    using pres by (auto simp: vm_pres_def)
  have fin: "finite (free_pages s)" using pt_inv_dest(1) [OF inv] by (auto elim: kmem_invE)
  have Q: "tpath q" if "q \<in> ?Q" for q using that tpath_first tpath_vpath by auto
  show "card (free_pages s) < new_tables (pmem s) pt va" if e: "free_pages s' = {}" "slot (pmem s') pt va = None"
  proof -
    have v: "node (pmem s') pt (vpath va) = None" using e(2) by (simp add: slot_def)
    then have vQ: "vpath va \<in> ?Q" using same [OF tpath_vpath, of va] by (cases "node (pmem s) pt (vpath va)") auto
    have "free_pages s \<subseteq> ?n ` (?Q - {vpath va})"
    proof
      fix t assume t: "t \<in> free_pages s"
      then obtain q where q: "tpath q" "node (pmem s') pt q = Some t" using T e(1) unfolding tables_def by blast
      have "node (pmem s) pt q = None"
        using same [OF q(1)] q(2) pt_inv_dest(5) [OF inv] t tablesI [OF q(1), of "pmem s" pt] by (cases "node (pmem s) pt q") auto
      moreover have "q \<in> paths_of {va}" using gr q calculation unfolding pt_grown_def by blast
      ultimately have "q \<in> ?Q - {vpath va}" using q(2) v unfolding paths_of_one by auto
      then show "t \<in> ?n ` (?Q - {vpath va})" using q(2) by force
    qed
    then have "card (free_pages s) \<le> card (?Q - {vpath va})" by (rule surj_card_le [rotated]) simp
    also have "\<dots> < card ?Q" using vQ by (intro card_Diff1_less) simp_all
    finally show ?thesis by (simp add: new_tables_def)
  qed
  show "new_tables (pmem s) pt va \<le> card (free_pages s)" if e: "slot (pmem s') pt va \<noteq> None"
  proof -
    define f where "f q = the (node (pmem s') pt q)" for q
    have "node (pmem s') pt [PX 2 va] \<noteq> None" "node (pmem s') pt (vpath va) \<noteq> None"
      using e node_append [of "pmem s'" pt "[PX 2 va]" "[PX 1 va]"] by (auto simp: slot_def vpath_def Option.bind_eq_Some_conv simp del: node.simps)
    then have n: "node (pmem s') pt q = Some (f q)" if "q \<in> ?Q" for q
      using that unfolding f_def by (metis (no_types, lifting) empty_iff insert_iff mem_Collect_eq option.collapse)
    have sub: "f ` ?Q \<subseteq> free_pages s"
    proof (rule image_subsetI)
      fix q assume q: "q \<in> ?Q"
      have "f q \<notin> tables (pmem s) pt"
      proof
        assume "f q \<in> tables (pmem s) pt"
        then obtain r where r: "tpath r" "node (pmem s) pt r = Some (f q)" unfolding tables_def by blast
        then have "node (pmem s') pt r = Some (f q)" using same by simp
        then have "r = q" using pt_wf_inj [OF pt_inv_dest(2) [OF inv'] r(1) Q [OF q]] n [OF q] by simp
        then show False using r(2) q by simp
      qed
      then show "f q \<in> free_pages s" using T tablesI [OF Q [OF q] n [OF q]] by blast
    qed
    have "inj_on f ?Q"
    proof (rule inj_onI)
      fix q r assume q: "q \<in> ?Q" and r: "r \<in> ?Q" and eq: "f q = f r"
      from n [OF r] have "node (pmem s') pt r = Some (f q)" unfolding eq .
      then show "q = r" by (rule pt_wf_inj [OF pt_inv_dest(2) [OF inv'] Q [OF q] Q [OF r] n [OF q]])
    qed
    then show ?thesis unfolding new_tables_def by (rule card_inj_on_le [OF _ sub fin])
  qed
qed

lemma zero_page_count:
  assumes inv: "pt_inv s pt" and ka: "kalloc s = (pg, s1)" "pg \<noteq> 0"
  defines "s2 \<equiv> s1\<lparr>pmem := memset pg 0 (unat PGSIZE) (pmem s1)\<rparr>"
  shows "card (free_pages s) = Suc (card (free_pages s2))" and "new_tables (pmem s) pt va = new_tables (pmem s2) pt va"
proof -
  note z = zero_page [OF inv ka, folded s2_def] and k = pt_kalloc [OF inv ka]
  have fin: "finite (free_pages s)" using pt_inv_dest(1) [OF inv] by (auto elim: kmem_invE)
  show "card (free_pages s) = Suc (card (free_pages s2))" unfolding z(3) using k(4) fin by (metis card_Suc_Diff1)
  have nt: "pg \<notin> tables (pmem s) pt" using pt_inv_dest(5) [OF inv] k(4) by auto
  have "node (pmem s2) pt q = node (pmem s) pt q" if "tpath q" for q
  proof (rule node_cong [OF pt_inv_dest(3) [OF inv]])
    show "pmem s x = pmem s2 x" if "t' \<in> tables (pmem s) pt" "PGROUNDDOWN x = t'" for t' x
      using that nt z(6) [of x] by metis
  qed (use that in \<open>auto simp: tpath_def\<close>)
  then show "new_tables (pmem s) pt va = new_tables (pmem s2) pt va"
    unfolding new_tables_def using tpath_first [of va] tpath_vpath [of va]
    by (intro arg_cong [where f = card]) (auto simp del: node.simps)
qed

lemma vmfault_ok:
  assumes inv: "pt_inv s pt" and va: "va < psz" "va < MAXVA"
    and none: "lookup (pmem s) pt (PGROUNDDOWN va) = None"
  shows "\<exists>r s'. vmfault pt psz pt va s = Inr (r, s') \<and> vm_frame pt s s' \<and>
    (if new_tables (pmem s) pt (PGROUNDDOWN va) < card (free_pages s) then fault_maps pt va r s s' else r = 0 \<and> fault_fails pt s s')"
proof -
  have up: "upage (PGROUNDDOWN va)"
    using va(2) PGROUNDDOWN_le [of va] unfolding upage_def by (auto simp del: MAXVA_def)
  then have im: "ismapped pt (PGROUNDDOWN va) s = Inr False"
    using ismapped_lookup [OF inv] none unfolding upage_def by simp
  have nle: "\<not> psz \<le> va" using va(1) by (simp add: not_le)
  obtain mem s1 where ka: "kalloc s = (mem, s1)" by force
  show ?thesis
  proof (cases "mem = 0")
    case True
    from pt_inv_dest(1) [OF inv] True ka have "s1 = s" "free_pages s = {}" by (cases rule: kalloc_cases; auto)+
    with True ka im nle inv show ?thesis
      by (simp add: vmfault_def Let_def fault_fails_def vm_frame_def)
  next
    case False
    let ?s2 = "s1\<lparr>pmem := memset mem 0 (unat PGSIZE) (pmem s1)\<rparr>"
    note z = zero_page [OF inv ka False] and k = pt_kalloc [OF inv ka False]
    have nt: "mem \<notin> tables (pmem s) pt" using pt_inv_dest(5) [OF inv] k(4) by auto
    have none2: "lookup (pmem ?s2) pt (PGROUNDDOWN va) = None" using z(4) none by simp
    have out: "pmem s' x = pmem ?s2 x" if "vm_pres pt ?s2 s'" "PGROUNDDOWN x = mem" for s' x
      using that z(2,3) nt k(4) unfolding vm_pres_def by auto
    have fr: "pmem s' x = pmem s x" if "vm_pres pt ?s2 s'"
      "PGROUNDDOWN x \<notin> tables (pmem s) pt \<union> free_pages s" for s' x
    proof -
      have "PGROUNDDOWN x \<noteq> mem" using that(2) k(4) by auto
      with that z(2,3) z(6) [of x] show ?thesis unfolding vm_pres_def by auto
    qed
    note cnt = zero_page_count [OF inv ka False]
    from z(1) up none2 show ?thesis
    proof (cases rule: mappages_one [where pa = mem and perm = "PTE_W OR PTE_U OR PTE_R"])
      case (mapped s')
      then have "vmfault pt psz pt va s = Inr (mem, s')"
        using nle im ka False by (simp add: vmfault_def Let_def del: PTE_W_def PTE_U_def PTE_R_def PGSIZE_def)
      moreover have "fault_maps pt va mem s s'"
        using mapped(2,3) False k(4,5) z(2-5) nt out [OF mapped(2)]
        unfolding fault_maps_def vm_pres_def by (auto simp: valid_page_def k(8))
      moreover have "vm_frame pt s s'"
        using mapped(2) fr [OF mapped(2)] z(7,8) by (simp add: vm_frame_def vm_pres_def)
      moreover have "new_tables (pmem s) pt (PGROUNDDOWN va) < card (free_pages s)"
        using walk_pages(2) [OF z(1) mapped(2,4,5)] unfolding cnt by simp
      ultimately show ?thesis by simp
    next
      case (full s')
      have nf: "mem \<notin> free_pages s'" and nt': "mem \<notin> tables (pmem s') pt"
        and inv': "pt_inv s' pt"
        using full(2,3) z(2,3) nt by (auto simp: vm_pres_def)
      have vp: "valid_page s' mem"
        using k(5) full(2) z(7) by (simp add: valid_page_def vm_pres_def)
      obtain s'' where "kfree mem s' = Inr s''" and inv'': "pt_inv s'' pt"
        and t'': "tables (pmem s'') pt = tables (pmem s') pt"
        and f'': "free_pages s'' = insert mem (free_pages s')"
        and l'': "\<And>vb. lookup (pmem s'') pt vb = lookup (pmem s') pt vb"
        and m'': "\<And>x. PGROUNDDOWN x \<noteq> mem \<Longrightarrow> pmem s'' x = pmem s' x"
        and k'': "kend s'' = kend s'" "phys.more s'' = phys.more s'"
        by (rule pt_kfree [OF inv' vp nf nt']) (rule that; assumption)
      then have "vmfault pt psz pt va s = Inr (0, s'')"
        using nle im ka False full(1) by (simp add: vmfault_def Let_def del: PTE_W_def PTE_U_def PTE_R_def PGSIZE_def)
      moreover have "fault_fails pt s s''"
        using full z(2-4) t'' f'' l'' k(4) unfolding fault_fails_def vm_pres_def by auto
      moreover have "pmem s'' x = pmem s x" if "PGROUNDDOWN x \<notin> tables (pmem s) pt \<union> free_pages s" for x
      proof -
        have "PGROUNDDOWN x \<noteq> mem" using that k(4) by auto
        with fr [OF full(2) that] m'' [of x] show ?thesis by simp
      qed
      then have "vm_frame pt s s''"
        using full(2) z(7,8) inv'' k'' by (simp add: vm_frame_def vm_pres_def)
      moreover have "\<not> new_tables (pmem s) pt (PGROUNDDOWN va) < card (free_pages s)"
        using walk_pages(1) [OF z(1) full(2,5,3,6)] unfolding cnt by simp
      ultimately show ?thesis by simp
    qed
  qed
qed

section \<open>User memory as an array\<close>

text \<open>
  \<open>upa m pt va\<close> is where the byte at user address \<open>va\<close> lives; \<open>ureadable\<close> and \<open>uwritable\<close>
  are the checks the copy functions make on its page.
\<close>

definition upa :: "mem \<Rightarrow> u64 \<Rightarrow> u64 \<Rightarrow> u64" where
  "upa m pt va =
     (case lookup m pt (PGROUNDDOWN va) of
        None \<Rightarrow> 0 | Some e \<Rightarrow> PTE2PA e + (va - PGROUNDDOWN va))"

definition ureadable :: "mem \<Rightarrow> u64 \<Rightarrow> u64 \<Rightarrow> bool" where
  "ureadable m pt va \<longleftrightarrow> va < MAXVA \<and>
     (\<exists>e. lookup m pt (PGROUNDDOWN va) = Some e \<and> e AND PTE_U \<noteq> 0 \<and> PTE2PA e \<noteq> 0)"

definition uwritable :: "mem \<Rightarrow> u64 \<Rightarrow> u64 \<Rightarrow> bool" where
  "uwritable m pt va \<longleftrightarrow> va < MAXVA \<and>
     (\<exists>e. lookup m pt (PGROUNDDOWN va) = Some e \<and> e AND PTE_U \<noteq> 0 \<and> PTE2PA e \<noteq> 0 \<and>
        e AND PTE_W \<noteq> 0)"

definition uread :: "mem \<Rightarrow> u64 \<Rightarrow> u64 \<Rightarrow> nat \<Rightarrow> byte list" where
  "uread m pt va n = map (\<lambda>i. m (upa m pt (va + of_nat i))) [0..<n]"

lemma PGROUNDDOWN_idem [simp]: "PGROUNDDOWN (PGROUNDDOWN x) = PGROUNDDOWN x"
  by (rule PGROUNDDOWN_aligned) simp

lemma PGROUNDDOWN_below: "va < MAXVA \<Longrightarrow> PGROUNDDOWN va < MAXVA"
  using PGROUNDDOWN_le [of va] by (auto simp del: MAXVA_def)

lemma walkaddr_lookup:
  assumes "pt_inv s pt" and "va < MAXVA"
  shows "walkaddr pt va s = Inr (case lookup (pmem s) pt va of
    None \<Rightarrow> 0 | Some e \<Rightarrow> if e AND PTE_U = 0 then 0 else PTE2PA e)"
proof -
  have "\<not> MAXVA \<le> va" using assms(2) by (simp add: not_le)
  then show ?thesis
    using walk_find [OF assms(2), of False s pt] slot_nonzero [OF assms(1)]
    by (auto simp: walkaddr_def lookup_def fold_V simp del: PTE_V_def MAXVA_def PTE_U_def
        split: option.splits)
qed

lemma walkaddr_readable:
  assumes "pt_inv s pt" and "ureadable (pmem s) pt va"
  shows "walkaddr pt (PGROUNDDOWN va) s = Inr (upa (pmem s) pt (PGROUNDDOWN va))"
    and "upa (pmem s) pt (PGROUNDDOWN va) \<noteq> 0"
    and "upa (pmem s) pt va = upa (pmem s) pt (PGROUNDDOWN va) + (va - PGROUNDDOWN va)"
proof -
  from assms(2) obtain e where e: "lookup (pmem s) pt (PGROUNDDOWN va) = Some e"
    "e AND PTE_U \<noteq> 0" "PTE2PA e \<noteq> 0" and va: "va < MAXVA" unfolding ureadable_def by blast
  show "walkaddr pt (PGROUNDDOWN va) s = Inr (upa (pmem s) pt (PGROUNDDOWN va))"
    "upa (pmem s) pt (PGROUNDDOWN va) \<noteq> 0"
    "upa (pmem s) pt va = upa (pmem s) pt (PGROUNDDOWN va) + (va - PGROUNDDOWN va)"
    using e walkaddr_lookup [OF assms(1) PGROUNDDOWN_below [OF va]] by (simp_all add: upa_def del: PTE_U_def)
qed

lemma same_page:
  assumes "i < unat (PGSIZE - (x - PGROUNDDOWN x))"
  shows "PGROUNDDOWN (x + of_nat i) = PGROUNDDOWN x"
proof -
  have i: "i < 4096 - unat x mod 4096" using assms unfolding page_rest .
  have off: "unat (x - PGROUNDDOWN x) = unat x mod 4096"
    using PGROUNDDOWN_le [of x] by (simp add: unat_sub unat_PGROUNDDOWN minus_div_mult_eq_mod)
  have ui: "unat (of_nat i :: u64) = i" using i by (intro unat_of_nat_u64) simp
  have "unat ((x - PGROUNDDOWN x) + of_nat i) = unat x mod 4096 + i"
    using i off ui by (subst unat_word_ariths) simp
  then have "unat (x + of_nat i - PGROUNDDOWN x) < 4096" using i by (simp add: algebra_simps)
  then show ?thesis using in_page_iff [of "PGROUNDDOWN x" "x + of_nat i"] by simp
qed

lemma chunk_facts:
  fixes len x :: u64
  assumes "0 < len"
  defines "n \<equiv> min (PGSIZE - (x - PGROUNDDOWN x)) len"
  shows "0 < unat n" and "unat n \<le> unat len" and "unat (len - n) = unat len - unat n"
    and "i < unat n \<Longrightarrow> PGROUNDDOWN (x + of_nat i) = PGROUNDDOWN x"
    and "len - n \<noteq> 0 \<Longrightarrow> PGROUNDDOWN x + PGSIZE = x + n"
proof -
  have le: "n \<le> len" by (simp add: n_def)
  then show "unat n \<le> unat len" by (simp only: word_le_nat_alt)
  show sub: "unat (len - n) = unat len - unat n" by (rule unat_sub [OF le])
  show "0 < unat n" using chunk_measure [OF assms(1), of x] sub unfolding n_def by linarith
  show "PGROUNDDOWN (x + of_nat i) = PGROUNDDOWN x" if "i < unat n"
  proof (rule same_page)
    have "n \<le> PGSIZE - (x - PGROUNDDOWN x)" by (simp add: n_def)
    with that show "i < unat (PGSIZE - (x - PGROUNDDOWN x))" unfolding word_le_nat_alt by linarith
  qed
  show "PGROUNDDOWN x + PGSIZE = x + n" if "len - n \<noteq> 0"
    using that by (auto simp: n_def min_def split: if_splits)
qed

lemma peek_uread:
  assumes "pt_inv s pt" and "ureadable (pmem s) pt va" and "0 < len"
  defines "n \<equiv> unat (min (PGSIZE - (va - PGROUNDDOWN va)) len)"
  shows "peek (pmem s) (upa (pmem s) pt (PGROUNDDOWN va) + (va - PGROUNDDOWN va)) n =
    uread (pmem s) pt va n"
proof (rule nth_equalityI)
  fix i assume "i < length (peek (pmem s) (upa (pmem s) pt (PGROUNDDOWN va) + (va - PGROUNDDOWN va)) n)"
  then have i: "i < n" by simp
  have pg: "PGROUNDDOWN (va + of_nat i) = PGROUNDDOWN va"
    by (rule chunk_facts(4) [OF assms(3)]) (use i in \<open>simp add: n_def\<close>)
  obtain e where "lookup (pmem s) pt (PGROUNDDOWN va) = Some e"
    using assms(2) unfolding ureadable_def by blast
  then show "peek (pmem s) (upa (pmem s) pt (PGROUNDDOWN va) + (va - PGROUNDDOWN va)) n ! i =
      uread (pmem s) pt va n ! i"
    using i by (simp add: uread_def upa_def pg) (simp add: algebra_simps)
qed (simp add: uread_def)

lemma uread_append: "uread m pt va (n + k) = uread m pt va n @ uread m pt (va + of_nat n) k"
  by (rule nth_equalityI) (auto simp: uread_def nth_append add.assoc of_nat_diff)

lemma copyin_0 [simp]: "copyin ppt psz pt va 0 s = Inr (0, [], s)"
  by (simp add: copyin.simps [of ppt psz pt va 0])

lemma copyout_0 [simp]: "copyout ppt psz pt va src 0 s = Inr (0, s)"
  by (simp add: copyout.simps [of ppt psz pt va src 0])

lemma copyin_mapped:
  assumes "pt_inv s pt" and "\<And>i. i < unat len \<Longrightarrow> ureadable (pmem s) pt (srcva + of_nat i)"
  shows "copyin ppt psz pt srcva len s = Inr (0, uread (pmem s) pt srcva (unat len), s)"
  using assms
proof (induction "unat len" arbitrary: srcva len rule: less_induct)
  case less
  show ?case
  proof (cases "0 < len")
    case False
    then have "len = 0" by (simp add: word_less_nat_alt unsigned_eq_0_iff)
    then show ?thesis by (simp add: copyin.simps [of ppt psz pt srcva] uread_def)
  next
    case True
    let ?n = "min (PGSIZE - (srcva - PGROUNDDOWN srcva)) len"
    note c = chunk_facts [OF True, where x = srcva]
    have rd: "ureadable (pmem s) pt srcva" using less.prems(2) [of 0] c(1,2) by simp
    note w = walkaddr_readable [OF less.prems(1) rd]
    have IH: "copyin ppt psz pt (PGROUNDDOWN srcva + PGSIZE) (len - ?n) s =
        Inr (0, uread (pmem s) pt (srcva + ?n) (unat len - unat ?n), s)"
    proof (cases "len - ?n = 0")
      case z: True
      then show ?thesis
        using c(3) by (simp add: uread_def del: PGSIZE_def)
    next
      case False
      have "copyin ppt psz pt (srcva + ?n) (len - ?n) s =
          Inr (0, uread (pmem s) pt (srcva + ?n) (unat (len - ?n)), s)"
      proof (rule less.hyps)
        show "unat (len - ?n) < unat len" using c(1-3) by linarith
        show "pt_inv s pt" by (rule less.prems(1))
        fix i assume "i < unat (len - ?n)"
        then have "unat ?n + i < unat len" using c(2,3) by linarith
        from less.prems(2) [OF this] show "ureadable (pmem s) pt (srcva + ?n + of_nat i)"
          by (simp add: add.assoc del: PGSIZE_def)
      qed
      with c(3) c(5) [OF False] show ?thesis by (simp del: PGSIZE_def)
    qed
    have "uread (pmem s) pt srcva (unat len) = uread (pmem s) pt srcva (unat ?n) @
        uread (pmem s) pt (srcva + ?n) (unat len - unat ?n)"
      using uread_append [of "pmem s" pt srcva "unat ?n" "unat len - unat ?n"] c(2) by (simp del: PGSIZE_def)
    with True w IH peek_uread [OF less.prems(1) rd True] show ?thesis
      by (simp add: copyin.simps [of ppt psz pt srcva] Let_def del: PGSIZE_def)
  qed
qed

section \<open>copyout\<close>

text \<open>The effect of writing \<open>n\<close> bytes of \<open>src\<close> at user address \<open>dst\<close>, seen from addresses in \<open>V\<close>.\<close>

definition uwrites ::
  "u64 \<Rightarrow> u64 set \<Rightarrow> u64 \<Rightarrow> byte list \<Rightarrow> nat \<Rightarrow> 'z phys_scheme \<Rightarrow> 'z phys_scheme \<Rightarrow> bool" where
  "uwrites pt V dst src n s s' \<longleftrightarrow>
     pt_inv s' pt \<and> owned s' pt V \<and> (\<forall>va. lookup (pmem s') pt va = lookup (pmem s) pt va) \<and>
     (\<forall>va. PGROUNDDOWN va \<in> V \<longrightarrow> ureadable (pmem s) pt va \<longrightarrow> pmem s' (upa (pmem s) pt va) =
        (if unat (va - dst) < n then src ! unat (va - dst) else pmem s (upa (pmem s) pt va))) \<and>
     (\<forall>x. PGROUNDDOWN x \<notin> frames (pmem s) pt V \<longrightarrow> pmem s' x = pmem s x) \<and>
     freelist s' = freelist s \<and> kend s' = kend s \<and> phys.more s' = phys.more s"

lemma poke_page:
  assumes "pgaligned f" and "unat off + length bs \<le> 4096" and "PGROUNDDOWN x \<noteq> f"
  shows "poke (f + off) bs m x = m x"
proof -
  have "\<not> unat (x - (f + off)) < length bs"
  proof
    assume lt: "unat (x - (f + off)) < length bs"
    have "unat (off + (x - (f + off))) = unat off + unat (x - (f + off))"
      using lt assms(2) by (subst unat_word_ariths) simp
    then have "unat (x - f) < 4096" using lt assms(2) by (simp add: algebra_simps)
    with assms(1,3) show False by (simp add: in_page_iff)
  qed
  then show ?thesis using assms(2) by (simp add: poke_u64)
qed

lemma poke_chunk:
  assumes inv: "pt_inv s pt" and own: "owned s pt V" and V: "PGROUNDDOWN dst \<in> V"
    and rd: "ureadable (pmem s) pt dst"
    and n: "n \<le> unat (PGSIZE - (dst - PGROUNDDOWN dst))" "n \<le> length src"
  shows "uwrites pt V dst src n s (s\<lparr>pmem := poke (upa (pmem s) pt dst) (take n src) (pmem s)\<rparr>)"
proof -
  obtain e where e: "lookup (pmem s) pt (PGROUNDDOWN dst) = Some e"
    using rd unfolding ureadable_def by blast
  let ?f = "PTE2PA e" and ?off = "dst - PGROUNDDOWN dst"
  let ?s = "s\<lparr>pmem := poke (upa (pmem s) pt dst) (take n src) (pmem s)\<rparr>"
  have a: "upa (pmem s) pt dst = ?f + ?off" by (simp add: upa_def e)
  have f: "?f \<notin> tables (pmem s) pt \<union> free_pages s"
    using own V e unfolding owned_def by blast
  have ln: "length (take n src) = n" using n(2) by simp
  have "unat ?off = unat dst mod 4096"
    using PGROUNDDOWN_le [of dst] by (simp add: unat_sub unat_PGROUNDDOWN minus_div_mult_eq_mod)
  then have off: "unat ?off + length (take n src) \<le> 4096"
    using n(1) mod_less_divisor [of 4096 "unat dst"] unfolding ln page_rest by linarith
  have m: "pmem ?s x = pmem s x" if "PGROUNDDOWN x \<noteq> ?f" for x
    using that by (simp add: a poke_page [OF pgaligned_PTE2PA off])
  have "pmem ?s x = pmem s x" if "PGROUNDDOWN x \<in> tables (pmem s) pt \<union> free_pages s" for x
    by (rule m) (use that f in auto)
  note fr = pt_frame [OF inv _ _ this]
  have lk: "lookup (pmem ?s) pt va = lookup (pmem s) pt va" for va by (rule fr(4)) auto
  have "owned ?s pt V"
    by (rule owned_cong [OF own _ fr(2,3) lk]) simp_all
  moreover have "pmem ?s x = pmem s x" if "PGROUNDDOWN x \<notin> frames (pmem s) pt V" for x
    by (rule m) (use that V e in \<open>auto simp: frames_def\<close>)
  moreover have "pmem ?s (upa (pmem s) pt va) =
      (if unat (va - dst) < n then src ! unat (va - dst) else pmem s (upa (pmem s) pt va))"
    if va: "PGROUNDDOWN va \<in> V" "ureadable (pmem s) pt va" for va
  proof (cases "PGROUNDDOWN va = PGROUNDDOWN dst")
    case True
    then have "upa (pmem s) pt va - upa (pmem s) pt dst = va - dst" by (simp add: upa_def e)
    moreover have "length (take n src) \<le> 2 ^ 64" using off by simp
    ultimately show ?thesis using n(2) by (simp add: poke_u64)
  next
    case False
    obtain e' where e': "lookup (pmem s) pt (PGROUNDDOWN va) = Some e'"
      using va(2) unfolding ureadable_def by blast
    have "PTE2PA e' \<noteq> ?f" using own V va(1) e e' False unfolding owned_def by blast
    moreover have "unat (va - PGROUNDDOWN va) < 4096"
      using in_page_iff [of "PGROUNDDOWN va" va] by simp
    ultimately have "PGROUNDDOWN (upa (pmem s) pt va) \<noteq> ?f"
      by (simp add: upa_def e' page_byte)
    moreover have "\<not> unat (va - dst) < n"
    proof
      assume "unat (va - dst) < n"
      then have "PGROUNDDOWN (dst + of_nat (unat (va - dst))) = PGROUNDDOWN dst"
        using n(1) by (intro same_page) linarith
      with False show False by simp
    qed
    ultimately show ?thesis using m by simp
  qed
  moreover have "pt_inv ?s pt" by (rule fr(1)) simp_all
  ultimately show ?thesis unfolding uwrites_def using lk by simp
qed

lemma unat_minus_chunk:
  fixes x n len :: u64
  assumes "unat n \<le> unat len"
  shows "unat (x - n) < unat len - unat n \<longleftrightarrow> unat n \<le> unat x \<and> unat x < unat len"
    and "unat n \<le> unat x \<Longrightarrow> unat (x - n) = unat x - unat n"
  using assms unat_u64_less [of x] unat_u64_less [of len] by (auto simp: unat_sub_if')

lemma uwrites_trans:
  fixes n len :: u64
  assumes w1: "uwrites pt V dst src (unat n) s s1"
    and w2: "uwrites pt V (dst + n) (drop (unat n) src) (unat len - unat n) s1 s2"
    and n: "unat n \<le> unat len" "unat len \<le> length src"
  shows "uwrites pt V dst src (unat len) s s2"
proof -
  have lk: "lookup (pmem s1) pt = lookup (pmem s) pt" using w1 by (auto simp: uwrites_def)
  then have u: "upa (pmem s1) pt va = upa (pmem s) pt va" "ureadable (pmem s1) pt va = ureadable (pmem s) pt va"
    "frames (pmem s1) pt V = frames (pmem s) pt V" for va
    by (simp_all add: upa_def ureadable_def frames_def)
  have "pmem s2 (upa (pmem s) pt va) =
      (if unat (va - dst) < unat len then src ! unat (va - dst) else pmem s (upa (pmem s) pt va))"
    if va: "PGROUNDDOWN va \<in> V" "ureadable (pmem s) pt va" for va
  proof -
    have s2: "pmem s2 (upa (pmem s) pt va) = (if unat (va - (dst + n)) < unat len - unat n
        then drop (unat n) src ! unat (va - (dst + n)) else pmem s1 (upa (pmem s) pt va))"
      using w2 va unfolding uwrites_def u by blast
    have s1: "pmem s1 (upa (pmem s) pt va) =
        (if unat (va - dst) < unat n then src ! unat (va - dst) else pmem s (upa (pmem s) pt va))"
      using w1 va unfolding uwrites_def by blast
    have eq: "va - (dst + n) = va - dst - n" by (simp add: algebra_simps)
    from s1 s2 [unfolded eq] n unat_minus_chunk [OF n(1), of "va - dst"] show ?thesis
      by (auto simp del: diff_diff_eq)
  qed
  with w1 w2 show ?thesis unfolding uwrites_def u lk by simp
qed

lemma copyout_step:
  assumes inv: "pt_inv s pt" and wr: "uwritable (pmem s) pt dstva" and len: "0 < len"
  defines "n \<equiv> min (PGSIZE - (dstva - PGROUNDDOWN dstva)) len"
  shows "copyout ppt psz pt dstva src len s =
    copyout ppt psz pt (PGROUNDDOWN dstva + PGSIZE) (drop (unat n) src) (len - n)
      (s\<lparr>pmem := poke (upa (pmem s) pt dstva) (take (unat n) src) (pmem s)\<rparr>)"
proof -
  obtain e where e: "lookup (pmem s) pt (PGROUNDDOWN dstva) = Some e" "e AND PTE_W \<noteq> 0"
    and va: "dstva < MAXVA" using wr unfolding uwritable_def by blast
  have rd: "ureadable (pmem s) pt dstva" using wr unfolding ureadable_def uwritable_def by blast
  note w = walkaddr_readable [OF inv rd]
  obtain b where b: "slot (pmem s) pt (PGROUNDDOWN dstva) = Some b" "ld64 (pmem s) b = e"
    using e(1) by (auto simp: lookup_def split: option.splits if_splits)
  have wk: "walk pt (PGROUNDDOWN dstva) False s = Inr (b, s)"
    using walk_find [OF PGROUNDDOWN_below [OF va], of False s pt] b(1) by simp
  have "\<not> MAXVA \<le> PGROUNDDOWN dstva" using PGROUNDDOWN_below [OF va] by (simp add: not_le)
  with len w wk b e(2) slot_nonzero [OF inv b(1)] show ?thesis
    by (simp add: copyout.simps [of ppt psz pt dstva] Let_def n_def
        del: PGSIZE_def PTE_W_def MAXVA_def)
qed

lemma copyout_mapped:
  assumes "pt_inv s pt" and "owned s pt V" and "unat len \<le> length src"
    and "\<And>i. i < unat len \<Longrightarrow> uwritable (pmem s) pt (dstva + of_nat i) \<and> PGROUNDDOWN (dstva + of_nat i) \<in> V"
  shows "\<exists>s'. copyout ppt psz pt dstva src len s = Inr (0, s') \<and>
    uwrites pt V dstva src (unat len) s s'"
  using assms
proof (induction "unat len" arbitrary: dstva src len s rule: less_induct)
  case less
  show ?case
  proof (cases "0 < len")
    case False
    then have "len = 0" by (simp add: word_less_nat_alt unsigned_eq_0_iff)
    with less.prems show ?thesis by (simp add: uwrites_def)
  next
    case True
    let ?n = "min (PGSIZE - (dstva - PGROUNDDOWN dstva)) len"
    note c = chunk_facts [OF True, where x = dstva]
    have wr: "uwritable (pmem s) pt dstva" and V: "PGROUNDDOWN dstva \<in> V"
      using less.prems(4) [of 0] c(1,2) by auto
    then have rd: "ureadable (pmem s) pt dstva" unfolding ureadable_def uwritable_def by blast
    note w = walkaddr_readable [OF less.prems(1) rd]
    let ?s1 = "s\<lparr>pmem := poke (upa (pmem s) pt dstva) (take (unat ?n) src) (pmem s)\<rparr>"
    have w1: "uwrites pt V dstva src (unat ?n) s ?s1"
    proof (rule poke_chunk [OF less.prems(1,2) V rd])
      have "?n \<le> PGSIZE - (dstva - PGROUNDDOWN dstva)" by simp
      then show "unat ?n \<le> unat (PGSIZE - (dstva - PGROUNDDOWN dstva))" by (simp only: word_le_nat_alt)
      show "unat ?n \<le> length src" using c(2) less.prems(3) by linarith
    qed
    have lk: "lookup (pmem ?s1) pt = lookup (pmem s) pt" using w1 by (auto simp: uwrites_def)
    obtain s' where run: "copyout ppt psz pt (PGROUNDDOWN dstva + PGSIZE) (drop (unat ?n) src) (len - ?n) ?s1 = Inr (0, s')"
      and w2: "uwrites pt V (dstva + ?n) (drop (unat ?n) src) (unat len - unat ?n) ?s1 s'"
    proof (cases "len - ?n = 0")
      case z: True
      have "unat len - unat ?n = 0" using c(3) unfolding z by simp
      moreover have "uwrites pt V (dstva + ?n) (drop (unat ?n) src) 0 ?s1 ?s1"
        using w1 by (simp add: uwrites_def del: PGSIZE_def)
      ultimately show ?thesis using that [of ?s1] unfolding z by (simp del: PGSIZE_def)
    next
      case False
      have "\<exists>s'. copyout ppt psz pt (dstva + ?n) (drop (unat ?n) src) (len - ?n) ?s1 = Inr (0, s') \<and>
          uwrites pt V (dstva + ?n) (drop (unat ?n) src) (unat (len - ?n)) ?s1 s'"
      proof (rule less.hyps)
        show "unat (len - ?n) < unat len" using c(1-3) by linarith
        show "pt_inv ?s1 pt" "owned ?s1 pt V" using w1 unfolding uwrites_def by blast+
        show "unat (len - ?n) \<le> length (drop (unat ?n) src)"
          using c(2,3) less.prems(3) by (simp del: PGSIZE_def)
        fix i assume "i < unat (len - ?n)"
        then have "unat ?n + i < unat len" using c(2,3) by linarith
        from less.prems(4) [OF this]
        show "uwritable (pmem ?s1) pt (dstva + ?n + of_nat i) \<and> PGROUNDDOWN (dstva + ?n + of_nat i) \<in> V"
          unfolding uwritable_def lk by (simp add: add.assoc del: PGSIZE_def MAXVA_def)
      qed
      then show ?thesis using that c(3) c(5) [OF False] by (auto simp del: PGSIZE_def)
    qed
    have "copyout ppt psz pt dstva src len s = Inr (0, s')"
      using copyout_step [OF less.prems(1) wr True] run by simp
    moreover have "uwrites pt V dstva src (unat len) s s'"
      by (rule uwrites_trans [OF w1 w2 c(2) less.prems(3)])
    ultimately show ?thesis by blast
  qed
qed

lemma uwrites_uread:
  assumes w: "uwrites pt V dstva src n s s'" and n: "n \<le> length src" "n < 18446744073709551616"
    and wr: "\<And>i. i < n \<Longrightarrow> uwritable (pmem s) pt (dstva + of_nat i) \<and> PGROUNDDOWN (dstva + of_nat i) \<in> V"
  shows "uread (pmem s') pt dstva n = take n src"
    and "i < n \<Longrightarrow> ureadable (pmem s') pt (dstva + of_nat i)"
proof -
  have lk: "lookup (pmem s') pt = lookup (pmem s) pt" using w by (auto simp: uwrites_def)
  have rd: "ureadable (pmem s) pt (dstva + of_nat i)" if "i < n" for i
    using wr [OF that] unfolding uwritable_def ureadable_def by blast
  then show "i < n \<Longrightarrow> ureadable (pmem s') pt (dstva + of_nat i)" by (simp add: ureadable_def lk)
  have "pmem s' (upa (pmem s') pt (dstva + of_nat i)) = src ! i" if "i < n" for i
  proof -
    have "unat (of_nat i :: u64) = i" using that n by (intro unat_of_nat_u64) simp
    moreover have "upa (pmem s') pt (dstva + of_nat i) = upa (pmem s) pt (dstva + of_nat i)"
      by (simp add: upa_def lk)
    ultimately show ?thesis
      using w wr [OF that] rd [OF that] that by (simp add: uwrites_def)
  qed
  then show "uread (pmem s') pt dstva n = take n src"
    using n by (intro nth_equalityI) (auto simp: uread_def)
qed

lemma copyout_copyin:
  assumes inv: "pt_inv s pt" and own: "owned s pt V" and len: "unat len \<le> length src"
    and wr: "\<And>i. i < unat len \<Longrightarrow> uwritable (pmem s) pt (dstva + of_nat i) \<and>
      PGROUNDDOWN (dstva + of_nat i) \<in> V"
  obtains s' where "copyout ppt psz pt dstva src len s = Inr (0, s')"
    "uwrites pt V dstva src (unat len) s s'"
    "copyin ppt psz pt dstva len s' = Inr (0, take (unat len) src, s')"
proof -
  obtain s' where run: "copyout ppt psz pt dstva src len s = Inr (0, s')"
    and w: "uwrites pt V dstva src (unat len) s s'"
    using copyout_mapped [OF inv own len wr] by blast
  note u = uwrites_uread [OF w len unat_u64_less wr]
  have inv': "pt_inv s' pt" using w by (simp add: uwrites_def)
  from copyin_mapped [OF inv' u(2)] u(1) have "copyin ppt psz pt dstva len s' = Inr (0, take (unat len) src, s')"
    by simp
  with run w that show thesis by blast
qed

section \<open>copyinstr\<close>

lemma str_chunk_spec:
  "str_chunk m p n =
     (let bs = map (\<lambda>i. m (p + of_nat i)) [0..<n] in
      if 0 \<in> set bs then (True, takeWhile (\<lambda>b. b \<noteq> 0) bs @ [0]) else (False, bs))"
proof (induction n arbitrary: p)
  case (Suc n)
  have "map (\<lambda>i. m (p + of_nat i)) [0..<Suc n] = m p # map (\<lambda>i. m (p + 1 + of_nat i)) [0..<n]"
    by (simp add: upt_conv_Cons map_Suc_upt [symmetric] del: upt_Suc) (simp add: add.assoc)
  then show ?case using Suc.IH [of "p + 1"] by (auto simp: Let_def simp del: upt_Suc)
qed simp

lemma takeWhile_uread:
  assumes "k < n" and "uread m pt va n ! k = 0" and "\<And>i. i < k \<Longrightarrow> uread m pt va n ! i \<noteq> 0"
  shows "0 \<in> set (uread m pt va n)" and "takeWhile (\<lambda>b. b \<noteq> 0) (uread m pt va n) = uread m pt va k"
proof -
  have len: "length (uread m pt va n) = n" by (simp add: uread_def)
  show "0 \<in> set (uread m pt va n)"
    using assms(1,2) len nth_mem [of k "uread m pt va n"] by metis
  have "takeWhile (\<lambda>b. b \<noteq> 0) (uread m pt va n) = take k (uread m pt va n)"
    using assms len by (intro takeWhile_eq_take_P_nth) auto
  also have "\<dots> = uread m pt va k" using assms(1) by (simp add: uread_def take_map)
  finally show "takeWhile (\<lambda>b. b \<noteq> 0) (uread m pt va n) = uread m pt va k" .
qed

lemma uread_nth: "i < n \<Longrightarrow> uread m pt va n ! i = m (upa m pt (va + of_nat i))"
  by (simp add: uread_def)

lemma copyinstr_mapped:
  assumes "pt_inv s pt" and "k < unat mx"
    and "\<And>i. i \<le> k \<Longrightarrow> ureadable (pmem s) pt (srcva + of_nat i)"
    and "\<And>i. i < k \<Longrightarrow> pmem s (upa (pmem s) pt (srcva + of_nat i)) \<noteq> 0"
    and "pmem s (upa (pmem s) pt (srcva + of_nat k)) = 0"
  shows "copyinstr pt srcva mx s = Inr (0, uread (pmem s) pt srcva k @ [0])"
  using assms
proof (induction "unat mx" arbitrary: srcva mx k rule: less_induct)
  case less
  have pos: "0 < mx" using less.prems(2) by (simp add: word_less_nat_alt)
  let ?n = "min (PGSIZE - (srcva - PGROUNDDOWN srcva)) mx"
  note c = chunk_facts [OF pos, where x = srcva]
  have rd: "ureadable (pmem s) pt srcva" using less.prems(3) [of 0] by simp
  note w = walkaddr_readable [OF less.prems(1) rd]
  let ?a = "upa (pmem s) pt (PGROUNDDOWN srcva) + (srcva - PGROUNDDOWN srcva)"
  have bs: "map (\<lambda>i. pmem s (?a + of_nat i)) [0..<unat ?n] = uread (pmem s) pt srcva (unat ?n)"
    using peek_uread [OF less.prems(1) rd pos] by (simp add: peek_def del: PGSIZE_def)
  note sc = str_chunk_spec [of "pmem s" ?a "unat ?n", unfolded bs Let_def]
  show ?case
  proof (cases "k < unat ?n")
    case True
    have "0 \<in> set (uread (pmem s) pt srcva (unat ?n))"
      "takeWhile (\<lambda>b. b \<noteq> 0) (uread (pmem s) pt srcva (unat ?n)) = uread (pmem s) pt srcva k"
      using takeWhile_uread [OF True] less.prems(4,5) True by (simp_all add: uread_nth del: PGSIZE_def)
    with sc w pos show ?thesis
      by (simp add: copyinstr.simps [of pt srcva] Let_def del: PGSIZE_def)
  next
    case False
    have nz: "0 \<notin> set (uread (pmem s) pt srcva (unat ?n))"
      using less.prems(4) False by (auto simp: uread_def simp del: PGSIZE_def)
    have "unat (mx - ?n) \<noteq> 0" using c(3) less.prems(2) False by linarith
    then have ne: "mx - ?n \<noteq> 0" unfolding unsigned_eq_0_iff .
    have shift: "srcva + ?n + of_nat i = srcva + of_nat (unat ?n + i)" for i
      by (simp add: add.assoc del: PGSIZE_def)
    have "copyinstr pt (srcva + ?n) (mx - ?n) s =
        Inr (0, uread (pmem s) pt (srcva + ?n) (k - unat ?n) @ [0])"
    proof (rule less.hyps)
      show "unat (mx - ?n) < unat mx" using c(1-3) by linarith
      show "k - unat ?n < unat (mx - ?n)" using c(2,3) less.prems(2) False by linarith
      show "ureadable (pmem s) pt (srcva + ?n + of_nat i)" if "i \<le> k - unat ?n" for i
        unfolding shift by (rule less.prems(3)) (use that False in linarith)
      show "pmem s (upa (pmem s) pt (srcva + ?n + of_nat i)) \<noteq> 0" if "i < k - unat ?n" for i
        unfolding shift by (rule less.prems(4)) (use that False in linarith)
      show "pmem s (upa (pmem s) pt (srcva + ?n + of_nat (k - unat ?n))) = 0"
        unfolding shift using less.prems(5) False by simp
    qed (rule less.prems(1))
    moreover have "uread (pmem s) pt srcva k = uread (pmem s) pt srcva (unat ?n) @
        uread (pmem s) pt (srcva + ?n) (k - unat ?n)"
      using uread_append [of "pmem s" pt srcva "unat ?n" "k - unat ?n"] False by (simp del: PGSIZE_def)
    ultimately show ?thesis
      using nz sc w pos c(5) [OF ne] by (simp add: copyinstr.simps [of pt srcva] Let_def del: PGSIZE_def)
  qed
qed

end
