(* ===== verification/VmSpec.thy ===== *)
theory VmSpec
  imports VmCopy
begin

unbundle bit_operations_syntax

text \<open>
  The contract of the virtual-memory code: the properties of \<open>mappages\<close>, \<open>uvmunmap\<close>,
  \<open>uvmfree\<close>, \<open>vmfault\<close>, \<open>copyin\<close>, \<open>copyout\<close> and \<open>copyinstr\<close>, each with a concrete address
  space on which its hypotheses hold.
\<close>

section \<open>Empty tables\<close>

lemma empty_table:
  assumes "pgaligned pt" and z: "\<And>x. PGROUNDDOWN x = pt \<Longrightarrow> m x = 0"
  shows "pt_wf m pt" and "tables m pt = {pt}" and "lookup m pt va = None"
proof -
  have "ld64 m (pt + 8 * i) = 0" if "i < 512" for i
    by (rule ld64_zero) (use z page_word [OF assms(1) that] in auto)
  then have n: "node m pt p = (if p = [] then Some pt else None)" if "tpath p" for p
    using that by (cases p) (auto simp: tpath_def)
  then have pe: "tpath p \<Longrightarrow> node m pt p = Some a \<Longrightarrow> p = [] \<and> a = pt" for p a
    by (auto split: if_splits)
  have "pt_links m pt"
    unfolding pt_links_def using pe \<open>\<And>i. i < 512 \<Longrightarrow> ld64 m (pt + 8 * i) = 0\<close> by fastforce
  then show "pt_wf m pt" unfolding pt_wf_def using assms(1) pe by blast
  show "tables m pt = {pt}" unfolding tables_def using pe by (auto intro: exI [of _ "[]"])
  show "lookup m pt va = None"
    using n [OF tpath_vpath, of va] by (simp add: lookup_def slot_def vpath_def del: node.simps)
qed

lemma uvmcreate_ok:
  assumes inv: "kmem_inv s" and run: "uvmcreate s = (pt, s')" and "pt \<noteq> 0"
  shows "pt_inv s' pt" and "tables (pmem s') pt = {pt}" and "lookup (pmem s') pt va = None"
    and "pt \<in> free_pages s" and "free_pages s' = free_pages s - {pt}"
proof -
  obtain s1 where ka: "kalloc s = (pt, s1)"
    and s': "s' = s1\<lparr>pmem := memset pt 0 (unat PGSIZE) (pmem s1)\<rparr>"
    using run assms(3) by (auto simp: uvmcreate_def split: prod.splits if_splits)
  obtain as where ok: "kmem_ok s (pt # as)" using inv ka assms(3) by (cases rule: kalloc_cases) auto
  have ok1: "kmem_ok s1 as" using kalloc_ok [OF ok] ka by simp
  have fr: "free_pages s = insert pt (set as)" using kmem_ok_pages [OF ok] by simp
  have pt: "pgaligned pt" "pt \<notin> set as" "valid_page s pt"
    using ok by (auto simp: kmem_ok_def valid_page_def)
  have m: "pmem s' x = (if PGROUNDDOWN x = pt then 0 else pmem s1 x)" for x
    by (simp add: s' memset_page [OF pt(1)])
  have ok': "kmem_ok s' as"
    by (rule kmem_ok_frame [OF ok1]) (use pt(2) m in \<open>auto simp: s'\<close>)
  note e = empty_table [OF pt(1), of "pmem s'"]
  show tb: "tables (pmem s') pt = {pt}" and "lookup (pmem s') pt va = None" using e m by auto
  show "pt \<in> free_pages s" using fr by simp
  show fr': "free_pages s' = free_pages s - {pt}" using kmem_ok_pages [OF ok'] fr pt(2) by auto
  have "kend s' = kend s" using kalloc_cons [OF ok] ka by (simp add: s')
  then have "valid_page s' pt" using pt(3) by (simp add: valid_page_def)
  then show "pt_inv s' pt"
    unfolding pt_inv_def kmem_inv_def tb fr' using e(1) m ok' by auto
qed

section \<open>A concrete address space\<close>

definition demo_e :: u64 where
  "demo_e = PA2PTE 0x80004000 OR (PTE_W OR PTE_U OR PTE_R) OR PTE_V"

definition demo_mem :: mem where
  "demo_mem = st64 0x80003000 demo_e
     (link_table 0x80002000 0 0x80003000 (link_table 0x80001000 0 0x80002000 (\<lambda>_. 0)))"

definition demo_state :: phys where
  "demo_state = \<lparr>pmem = demo_mem, freelist = 0, kend = 0x80000000\<rparr>"

definition demo_empty :: phys where
  "demo_empty = \<lparr>pmem = (\<lambda>_. 0), freelist = 0x80005000, kend = 0x80000000\<rparr>"

lemma demo_aligned:
  "pgaligned 0x80001000" "pgaligned 0x80002000" "pgaligned 0x80003000" "pgaligned 0x80005000"
  by (simp_all add: pgaligned_def)

lemma demo_empty_inv: "pt_inv demo_empty 0x80001000"
proof -
  have "kmem_ok demo_empty [0x80005000]"
    by (auto simp: kmem_ok_def demo_empty_def valid_page_def pgaligned_def intro: ld64_zero)
  then have "kmem_inv demo_empty" "free_pages demo_empty = {0x80005000}"
    by (auto simp: kmem_inv_def kmem_ok_pages)
  with empty_table [OF demo_aligned(1), of "\<lambda>_. 0"] show ?thesis
    by (simp add: pt_inv_def demo_empty_def valid_page_def pgaligned_def)
qed

lemma demo_empty_lookup: "lookup (pmem demo_empty) 0x80001000 va = None"
  unfolding demo_empty_def using empty_table(3) [OF demo_aligned(1), of "\<lambda>_. 0"] by simp

lemma vpath_0: "vpath 0 = [0, 0]"
  by (simp add: vpath_def PX_def)

lemma demo_tables_inv:
  defines "m \<equiv> link_table 0x80002000 0 0x80003000 (link_table 0x80001000 0 0x80002000 (\<lambda>_. 0))"
  shows "pt_inv (\<lparr>pmem = m, freelist = 0, kend = 0x80000000\<rparr> :: phys) 0x80001000"
    and "tables m 0x80001000 = {0x80001000, 0x80002000, 0x80003000}"
    and "slot m 0x80001000 0 = Some 0x80003000"
    and "upage vb \<Longrightarrow> lookup m 0x80001000 vb = None"
proof -
  let ?m1 = "link_table 0x80001000 0 0x80002000 (\<lambda>_. 0)"
  note e = empty_table [OF demo_aligned(1), of "\<lambda>_. 0", simplified]
  have z: "ld64 (\<lambda>_. 0) a = 0" for a :: u64 by (rule ld64_zero) simp
  note w1 = link_wf [of "\<lambda>_. 0" "0x80001000" "[]" "0x80001000" 0 "0x80002000"]
  have wf1: "pt_wf ?m1 0x80001000" "tables ?m1 0x80001000 = {0x80001000, 0x80002000}"
    using w1 e demo_aligned by (auto simp: z)
  have lk1: "lookup ?m1 0x80001000 vb = None" for vb
    using lookup_link [of "\<lambda>_. 0" "0x80001000" "[]" "0x80001000" 0 "0x80002000"] e demo_aligned
    by (simp add: z)
  have n1: "node ?m1 0x80001000 [0] = Some 0x80002000"
    using node_link [of "\<lambda>_. 0" "0x80001000" "[]" "0x80001000" 0 "0x80002000" "[0]"] e demo_aligned
    by (simp del: node.simps(2))
  have ne: "(0x80001000::u64) \<noteq> 0x80002000" "(0x80003000::u64) \<noteq> 0x80001000" "(0x80003000::u64) \<noteq> 0x80002000"
    by simp_all
  have e1: "ld64 ?m1 0x80002000 = 0"
    using link_entry [OF demo_aligned(1,2,2), of 0 0 "\<lambda>_. 0"] by simp
  have tp: "tpath [0]" by (simp add: tpath_def)
  note w2 = link_wf [OF wf1(1) tp _ n1, of 0 "0x80003000"]
  have wf2: "pt_wf m 0x80001000"
    and tb: "tables m 0x80001000 = {0x80001000, 0x80002000, 0x80003000}"
    unfolding m_def using w2 wf1(2) demo_aligned e1 by auto
  show "tables m 0x80001000 = {0x80001000, 0x80002000, 0x80003000}" by (rule tb)
  have n2: "node m 0x80001000 [0, 0] = Some 0x80003000"
    unfolding m_def using node_link [OF wf1(1) tp _ n1, of 0 "0x80003000" "[0, 0]"] wf1(2) demo_aligned
    by (simp del: node.simps(2))
  then show "slot m 0x80001000 0 = Some 0x80003000" by (simp add: slot_def vpath_0 PX_def)
  show "lookup m 0x80001000 vb = None" if "upage vb"
    unfolding m_def using lookup_link [OF wf1(1) tp _ n1, of 0 "0x80003000" vb] wf1(2) demo_aligned e1 lk1 by simp
  have "kmem_ok (\<lparr>pmem = m, freelist = 0, kend = 0x80000000\<rparr> :: phys) []" by (simp add: kmem_ok_def)
  then have "kmem_inv (\<lparr>pmem = m, freelist = 0, kend = 0x80000000\<rparr> :: phys)"
    "free_pages (\<lparr>pmem = m, freelist = 0, kend = 0x80000000\<rparr> :: phys) = {}"
    by (auto simp: kmem_inv_def kmem_ok_pages)
  then show "pt_inv (\<lparr>pmem = m, freelist = 0, kend = 0x80000000\<rparr> :: phys) 0x80001000"
    by (simp add: pt_inv_def wf2 tb valid_page_def pgaligned_def)
qed

lemma demo_state_facts:
  "pt_inv demo_state 0x80001000" "free_pages demo_state = {}"
  "tables demo_mem 0x80001000 = {0x80001000, 0x80002000, 0x80003000}"
  "upage vb \<Longrightarrow> lookup demo_mem 0x80001000 vb = (if vb = 0 then Some demo_e else None)"
proof -
  note d = demo_tables_inv
  have up: "upage 0" by (simp add: upage_def pgaligned_def)
  note se = set_entry [where v = demo_e, OF d(1) _ up]
  have "kmem_ok demo_state []" by (simp add: kmem_ok_def demo_state_def)
  then show "free_pages demo_state = {}" by (simp add: kmem_ok_pages)
  show "pt_inv demo_state 0x80001000"
    using se(1) d(3) by (simp add: vm_pres_def demo_state_def demo_mem_def)
  show "tables demo_mem 0x80001000 = {0x80001000, 0x80002000, 0x80003000}"
    using se(4) d(2,3) by (simp add: demo_mem_def)
  show "lookup demo_mem 0x80001000 vb = (if vb = 0 then Some demo_e else None)" if "upage vb"
    using se(6) [OF _ that] d(3) d(4) [OF that] by (simp add: demo_mem_def demo_e_def del: PTE_V_def)
qed

lemma demo_e_flags: "PTE2PA demo_e = 0x80004000" "demo_e AND PTE_U \<noteq> 0" "demo_e AND PTE_W \<noteq> 0"
  unfolding demo_e_def
  by (simp_all add: PTE2PA_PA2PTE AND_PA2PTE pgaligned_def del: PA2PTE_def)

lemma demo_owned: "owned demo_state 0x80001000 {va. upage va}"
  using demo_state_facts demo_e_flags(1)
  by (auto simp: owned_def demo_state_def valid_page_def pgaligned_def split: if_splits)

lemma demo_writable:
  assumes "unat va < 4096"
  shows "uwritable (pmem demo_state) 0x80001000 va" and "PGROUNDDOWN va = 0"
proof -
  have "unat (PGROUNDDOWN va) = 0" using assms by (simp add: unat_PGROUNDDOWN)
  then show pg: "PGROUNDDOWN va = 0" unfolding unsigned_eq_0_iff .
  have "upage 0" by (simp add: upage_def pgaligned_def)
  moreover have "va < MAXVA" using assms by (simp add: word_less_nat_alt)
  ultimately show "uwritable (pmem demo_state) 0x80001000 va"
    using demo_state_facts(4) [of 0] demo_e_flags unfolding uwritable_def pg
    by (simp add: demo_state_def)
qed

section \<open>mappages\<close>

lemma mappages_ok:
  assumes "pt_inv s pt" and "upage va" and "unat va + 4096 * n < 2 ^ 38"
    and "\<And>vb. upage vb \<Longrightarrow> in_range va (Suc n) vb \<Longrightarrow> lookup (pmem s) pt vb = None"
  shows "\<exists>r s'. mappages pt va (of_nat (4096 * Suc n)) pa perm s = Inr (r, s') \<and>
    vm_pres pt s s' \<and> pt_grown pt (paths_of {vb. upage vb \<and> in_range va (Suc n) vb}) (pmem s) (pmem s') \<and>
    (r = 0 \<and> mapped_range (pmem s) (pmem s') pt va (Suc n) pa perm \<or>
     r = -1 \<and> free_pages s' = {} \<and> same_outside (pmem s) (pmem s') pt va (Suc n))"
proof -
  have u: "unat (of_nat (4096 * Suc n) :: u64) = 4096 * Suc n"
    by (rule unat_of_nat_u64) (use assms(3) in simp)
  have al: "pgaligned (of_nat (4096 * Suc n))"
    unfolding pgaligned_unat u by simp
  have nz: "(of_nat (4096 * Suc n) :: u64) \<noteq> 0"
    using u by (auto simp: word_unat_eq_iff simp del: of_nat_mult of_nat_Suc mult_Suc_right)
  have lst: "va + of_nat (4096 * Suc n) - PGSIZE = va + of_nat (4096 * n)" by (simp add: algebra_simps)
  have "mappages pt va (of_nat (4096 * Suc n)) pa perm s =
      mappages_loop pt va (va + of_nat (4096 * n)) pa perm s"
    unfolding mappages_def lst using assms(2) al nz
    by (simp add: upage_def pgaligned_def del: of_nat_mult of_nat_Suc mult_Suc_right)
  with mappages_loop_ok [OF assms(1,2) _ refl, of n pa perm] assms(3,4) show ?thesis by simp
qed

section \<open>Properties\<close>

text \<open>
  C2. \<open>mappages\<close> of \<open>n + 1\<close> unmapped pages refines the update of the address space: either
  it returns 0, every page of the range is mapped to the corresponding physical page with
  the given permissions and every other address translates as before, or it returns -1
  with the free list exhausted and everything outside the range unchanged. In both cases
  the table stays well formed and only free pages were taken.
\<close>

theorem mappages_refines:
  assumes "pt_inv s pt" and "upage va" and "unat va + 4096 * n < 2 ^ 38"
    and "\<And>vb. upage vb \<Longrightarrow> in_range va (Suc n) vb \<Longrightarrow> lookup (pmem s) pt vb = None"
  shows "\<exists>r s'. mappages pt va (of_nat (4096 * Suc n)) pa perm s = Inr (r, s') \<and>
    vm_pres pt s s' \<and>
    (r = 0 \<and> mapped_range (pmem s) (pmem s') pt va (Suc n) pa perm \<or>
     r = -1 \<and> free_pages s' = {} \<and> same_outside (pmem s) (pmem s') pt va (Suc n))"
  using mappages_ok [OF assms] by blast

theorem mappages_refines_witness:
  "\<exists>r s'. mappages 0x80001000 0x4000 (of_nat (4096 * Suc 1)) 0x80006000 22 demo_empty = Inr (r, s') \<and>
    vm_pres 0x80001000 demo_empty s' \<and>
    (r = 0 \<and> mapped_range (pmem demo_empty) (pmem s') 0x80001000 0x4000 (Suc 1) 0x80006000 22 \<or>
     r = -1 \<and> free_pages s' = {} \<and> same_outside (pmem demo_empty) (pmem s') 0x80001000 0x4000 (Suc 1))"
  by (rule mappages_refines [OF demo_empty_inv])
    (simp_all add: demo_empty_lookup upage_def pgaligned_def)

text \<open>
  C7. Unmapping a range that this address space owns never panics: afterwards exactly the
  range is unmapped, the table pages are the same, and with \<open>do_free\<close> exactly the pages
  that were mapped in the range have been put back on the free list.
\<close>

theorem uvmunmap_exact:
  assumes "pt_inv s pt" and "pgaligned va" and "unat va + 4096 * unat npages \<le> 2 ^ 38"
    and "do_free \<Longrightarrow> owned s pt (range_pages va (unat npages))"
  shows "\<exists>s'. uvmunmap pt va npages do_free s = Inr s' \<and>
    unmapped pt (range_pages va (unat npages)) do_free s s'"
proof -
  have "unat (npages * PGSIZE) = 4096 * unat npages"
    using assms(3) by (subst unat_word_ariths) simp
  moreover from this have "unat (va + npages * PGSIZE) = unat va + 4096 * unat npages"
    using assms(3) by (subst unat_word_ariths) simp
  ultimately show ?thesis
    using uvmunmap_loop_ok [OF assms(1,2), of "unat npages" "va + npages * PGSIZE" do_free] assms(2-4)
    by (simp add: uvmunmap_def pgaligned_def del: PGSIZE_def)
qed

theorem uvmunmap_exact_witness:
  "\<exists>s'. uvmunmap 0x80001000 0 2 True demo_state = Inr s' \<and>
    unmapped 0x80001000 (range_pages 0 (unat (2::u64))) True demo_state s'"
  by (rule uvmunmap_exact [OF demo_state_facts(1)])
    (auto simp: pgaligned_def intro: owned_mono [OF demo_owned] dest: range_upage)

text \<open>
  C4. \<open>uvmfree\<close> of an address space that owns all its pages, all mapped below \<open>sz\<close>, ends
  without a panic and gives back every page: the free list gains exactly the user pages
  and the page-table pages, and no other memory is written.
\<close>

theorem uvmfree_returns_all:
  assumes "pt_inv s pt" and "sz \<le> MAXVA"
    and "\<And>va. upage va \<Longrightarrow> lookup (pmem s) pt va \<noteq> None \<Longrightarrow> va < sz"
    and "owned s pt {va. upage va}"
  shows "\<exists>s'. uvmfree pt sz s = Inr s' \<and>
    freed (tables (pmem s) pt \<union> frames (pmem s) pt {va. upage va}) s s'"
  using assms by (rule uvmfree_ok)

theorem uvmfree_returns_all_witness:
  "\<exists>s'. uvmfree 0x80001000 4096 demo_state = Inr s' \<and>
    freed (tables (pmem demo_state) 0x80001000 \<union> frames (pmem demo_state) 0x80001000 {va. upage va})
      demo_state s'"
  by (rule uvmfree_returns_all [OF demo_state_facts(1) _ _ demo_owned])
    (use demo_state_facts(4) in \<open>auto simp: demo_state_def split: if_splits\<close>)

lemma vmfault_refuses:
  assumes "pt_inv s pt" and "va < MAXVA" and "psz \<le> va \<or> lookup (pmem s) pt (PGROUNDDOWN va) \<noteq> None"
  shows "vmfault pt psz pt va s = Inr (0, s)"
proof -
  have "PGROUNDDOWN va < MAXVA" using assms(2) PGROUNDDOWN_le [of va] by (auto simp del: MAXVA_def)
  with assms show ?thesis
    by (cases "psz \<le> va") (simp_all add: vmfault_def Let_def ismapped_lookup del: MAXVA_def)
qed

definition demo_lazy :: phys where
  "demo_lazy = demo_state\<lparr>freelist := 0x80005000\<rparr>"

lemma demo_lazy_facts:
  "pt_inv demo_lazy 0x80001000" "free_pages demo_lazy = {0x80005000}"
  "lookup (pmem demo_lazy) 0x80001000 0x1000 = None" "new_tables (pmem demo_lazy) 0x80001000 0x1000 = 0"
proof -
  have "demo_mem x = 0" if "PGROUNDDOWN x = 0x80005000" for x
    using that entry_page [OF demo_aligned(1), of 0 x] entry_page [OF demo_aligned(2), of 0 x]
      entry_page [OF demo_aligned(3), of 0 x]
    by (simp add: demo_mem_def link_table_def)
  then have "ld64 demo_mem 0x80005000 = 0"
    by (intro ld64_zero) (use page_word [OF demo_aligned(4), of 0] in auto)
  then have "kmem_ok demo_lazy [0x80005000]"
    by (simp add: kmem_ok_def demo_lazy_def demo_state_def valid_page_def pgaligned_def)
  then show f: "free_pages demo_lazy = {0x80005000}" and "pt_inv demo_lazy 0x80001000"
    using demo_state_facts(1,3) by (auto simp: pt_inv_def kmem_inv_def kmem_ok_pages demo_lazy_def demo_state_def valid_page_def)
  show "lookup (pmem demo_lazy) 0x80001000 0x1000 = None"
    using demo_state_facts(4) [of "0x1000"] by (simp add: demo_lazy_def demo_state_def upage_def pgaligned_def)
  have px: "PX 2 0x1000 = 0" "vpath 0x1000 = [0, 0]" by code_simp+
  have "node demo_mem 0x80001000 [0, 0] \<noteq> None"
    using demo_state_facts(4) [of 0] by (auto simp: lookup_def slot_def vpath_0 upage_def pgaligned_def simp del: node.simps split: option.splits)
  then have "node demo_mem 0x80001000 q \<noteq> None" if "q \<in> {[0], [0, 0]}" for q
    using that node_append [of demo_mem "0x80001000" "[0]" "[0]"] by (auto simp: Option.bind_eq_Some_conv simp del: node.simps)
  then have "{q \<in> {[0], [0, 0]}. node demo_mem 0x80001000 q = None} = {}" by blast
  then show "new_tables (pmem demo_lazy) 0x80001000 0x1000 = 0"
    by (simp add: new_tables_def px demo_lazy_def demo_state_def del: node.simps)
qed

text \<open>
  C5. A lazy page fault at or above the process size, or on a page that is mapped already,
  returns 0 and changes nothing. Below the size and on an unmapped page, it maps one fresh
  zeroed page, readable and writable for the user, at exactly that page, whenever the free
  list holds more pages than the page tables missing on the way to it, that is one page
  for each of them and one for the data; with fewer it returns 0, leaves every translation
  as it was and loses no page.
\<close>

theorem vmfault_maps_zero_page:
  assumes "pt_inv s pt" and "va < MAXVA"
  shows "if psz \<le> va \<or> lookup (pmem s) pt (PGROUNDDOWN va) \<noteq> None then vmfault pt psz pt va s = Inr (0, s)
    else \<exists>r s'. vmfault pt psz pt va s = Inr (r, s') \<and> vm_frame pt s s' \<and>
      (if new_tables (pmem s) pt (PGROUNDDOWN va) < card (free_pages s) then fault_maps pt va r s s'
       else r = 0 \<and> fault_fails pt s s')"
  using vmfault_refuses [OF assms, of psz] vmfault_ok [OF assms(1) _ assms(2), of psz]
  by (simp add: not_le del: MAXVA_def)

theorem vmfault_maps_zero_page_witness:
  "\<exists>r s'. vmfault 0x80001000 0x8000 0x80001000 0x1123 demo_lazy = Inr (r, s') \<and>
    vm_frame 0x80001000 demo_lazy s' \<and> fault_maps 0x80001000 0x1123 r demo_lazy s'"
  using vmfault_maps_zero_page [OF demo_lazy_facts(1), of "0x1123" "0x8000"]
  by (simp add: PGROUNDDOWN_def demo_lazy_facts)

text \<open>
  C3. Round trip of the user copies: after \<open>copyout\<close> of \<open>len\<close> bytes to user memory that is
  mapped writable, \<open>copyin\<close> from the same address returns exactly those bytes, although
  both go page by page through the page table; no other user byte has changed.
\<close>

theorem copyout_copyin_roundtrip:
  assumes "pt_inv s pt" and "owned s pt V" and "unat len \<le> length src"
    and "\<And>i. i < unat len \<Longrightarrow> uwritable (pmem s) pt (dstva + of_nat i) \<and>
      PGROUNDDOWN (dstva + of_nat i) \<in> V"
  shows "\<exists>s'. copyout ppt psz pt dstva src len s = Inr (0, s') \<and>
    uwrites pt V dstva src (unat len) s s' \<and>
    copyin ppt psz pt dstva len s' = Inr (0, take (unat len) src, s')"
  using copyout_copyin [OF assms] by metis

theorem copyout_copyin_roundtrip_witness:
  "\<exists>s'. copyout 0x80001000 0x1000 0x80001000 0x10 [1, 2, 3] 3 demo_state = Inr (0, s') \<and>
    uwrites 0x80001000 {va. upage va} 0x10 [1, 2, 3] (unat (3::u64)) demo_state s' \<and>
    copyin 0x80001000 0x1000 0x80001000 0x10 3 s' = Inr (0, take (unat (3::u64)) [1, 2, 3], s')"
proof (rule copyout_copyin_roundtrip [OF demo_state_facts(1) demo_owned])
  fix i assume "i < unat (3::u64)"
  then have "unat (0x10 + of_nat i :: u64) < 4096"
    by (simp add: unat_word_ariths unat_of_nat)
  from demo_writable [OF this]
  show "uwritable (pmem demo_state) 0x80001000 (0x10 + of_nat i) \<and>
      PGROUNDDOWN (0x10 + of_nat i) \<in> {va. upage va}"
    by (simp add: upage_def pgaligned_def)
qed simp

text \<open>
  C10. \<open>copyinstr\<close> of a user string whose bytes up to its terminating NUL are mapped, and
  whose length is below the limit, succeeds with exactly the string and its NUL, whatever
  page boundaries it crosses.
\<close>

theorem copyinstr_reads_string:
  assumes "pt_inv s pt" and "k < unat mx"
    and "\<And>i. i \<le> k \<Longrightarrow> ureadable (pmem s) pt (srcva + of_nat i)"
    and "\<And>i. i < k \<Longrightarrow> pmem s (upa (pmem s) pt (srcva + of_nat i)) \<noteq> 0"
    and "pmem s (upa (pmem s) pt (srcva + of_nat k)) = 0"
  shows "copyinstr pt srcva mx s = Inr (0, uread (pmem s) pt srcva k @ [0])"
  using assms by (rule copyinstr_mapped)

lemma demo_data_zero: "PGROUNDDOWN x = 0x80004000 \<Longrightarrow> demo_mem x = 0"
  using entry_page [OF demo_aligned(1), of 0 x] entry_page [OF demo_aligned(2), of 0 x]
    entry_page [OF demo_aligned(3), of 0 x]
  by (simp add: demo_mem_def link_table_def)

theorem copyinstr_reads_string_witness:
  "copyinstr 0x80001000 0x20 5 demo_state = Inr (0, uread (pmem demo_state) 0x80001000 0x20 0 @ [0])"
proof (rule copyinstr_reads_string [OF demo_state_facts(1)])
  have w: "uwritable (pmem demo_state) 0x80001000 0x20" and pg: "PGROUNDDOWN 0x20 = 0"
    using demo_writable [of "0x20"] by auto
  then show "ureadable (pmem demo_state) 0x80001000 (0x20 + of_nat i)" if "i \<le> 0" for i
    using that unfolding uwritable_def ureadable_def by auto
  have "upa demo_mem 0x80001000 0x20 = 0x80004000 + 0x20"
    using demo_state_facts(4) [of 0] demo_e_flags(1) by (simp add: upa_def pg upage_def pgaligned_def)
  moreover have "PGROUNDDOWN (0x80004000 + 0x20) = 0x80004000"
    by (rule page_byte) (simp_all add: pgaligned_def)
  ultimately show "pmem demo_state (upa (pmem demo_state) 0x80001000 (0x20 + of_nat 0)) = 0"
    using demo_data_zero by (simp add: demo_state_def)
qed simp_all

end
