(* ===== verification/KvmSpec.thy ===== *)
theory KvmSpec
  imports VmSpec
begin

text \<open>
  The kernel's own address space: \<open>kvmmake\<close>, run on the memory that \<open>kinit\<close> has put on the free list, builds a table that maps
  the devices, the kernel, the physical memory, the trampoline and a stack for each process, and nothing else.
\<close>

section \<open>How many tables it takes\<close>

text \<open>
  The paths to the tables in use: the devices lie below the root's entry 0, memory below entry 2, and trampoline and stacks in
  the last two megabytes below \<open>MAXVA\<close>.
\<close>

definition kpaths :: "u64 list set" where
  "kpaths = {[], [0], [2], [255], [255, 511]} \<union> (\<lambda>k. [0, of_nat k]) ` {96..<129} \<union> (\<lambda>k. [2, of_nat k]) ` {0..<64}"

definition kva :: "u64 \<Rightarrow> bool" where
  "kva va \<longleftrightarrow> 0xC000000 \<le> unat va \<and> unat va < 0x10002000 \<or> 0x80000000 \<le> unat va \<and> unat va < 0x88000000 \<or>
     2 ^ 38 - 4096 * 129 \<le> unat va \<and> unat va < 2 ^ 38"

lemma card_kpaths: "finite kpaths" "card kpaths \<le> 102"
proof -
  show "finite kpaths" by (simp add: kpaths_def)
  have "card ((\<lambda>k. [0, of_nat k :: u64]) ` {96..<129}) \<le> 33" "card ((\<lambda>k. [2, of_nat k :: u64]) ` {0..<64}) \<le> 64"
    using card_image_le [of "{96..<129::nat}" "\<lambda>k. [0, of_nat k :: u64]"] card_image_le [of "{0..<64::nat}" "\<lambda>k. [2, of_nat k :: u64]"] by simp_all
  moreover have "card {[], [0], [2], [255], [255, 511 :: u64]} \<le> 5" by (simp add: card_insert_if)
  ultimately show "card kpaths \<le> 102" unfolding kpaths_def
    using card_Un_le [of "{[], [0], [2], [255], [255, 511 :: u64]}" "(\<lambda>k. [0, of_nat k]) ` {96..<129}"]
      card_Un_le [of "{[], [0], [2], [255], [255, 511 :: u64]} \<union> (\<lambda>k. [0, of_nat k]) ` {96..<129}" "(\<lambda>k. [2, of_nat k]) ` {0..<64}"]
    by linarith
qed

lemma PX_of_nat: "PX l va = of_nat (unat va div 2 ^ (12 + 9 * l) mod 512)"
  unfolding unat_PX [symmetric] by simp

lemma div_range: "a * d \<le> x \<Longrightarrow> x < b * d \<Longrightarrow> a \<le> x div d \<and> x div d < b" for a d x b :: nat
  by (metis less_mult_imp_div_less div_le_mono gr0I mult_0_right nonzero_mult_div_cancel_right not_less0)

lemma kva_paths:
  assumes "\<forall>va\<in>V. kva va"
  shows "paths_of V \<subseteq> kpaths"
proof
  fix q assume "q \<in> paths_of V"
  then obtain va where k: "kva va" and q: "q = [] \<or> q = [PX 2 va] \<or> q = [PX 2 va, PX 1 va]"
    using assms by (auto simp: paths_of_def vpath_def prefix_Cons)
  have p: "PX 2 va = of_nat (unat va div 1073741824 mod 512)" "PX 1 va = of_nat (unat va div 2097152 mod 512)"
    by (simp_all add: PX_of_nat)
  define a b where "a = unat va div 1073741824" and "b = unat va div 2097152"
  consider (dev) "0xC000000 \<le> unat va" "unat va < 0x10002000" | (mem) "0x80000000 \<le> unat va" "unat va < 0x88000000"
    | (top) "2 ^ 38 - 4096 * 129 \<le> unat va" "unat va < 2 ^ 38"
    using k unfolding kva_def by blast
  then show "q \<in> kpaths"
  proof cases
    case dev
    then have "a = 0" "96 \<le> b" "b < 129"
      using div_range [of 0 1073741824 "unat va" 1] div_range [of 96 2097152 "unat va" 129] by (simp_all add: a_def b_def)
    then have "a mod 512 = 0" "b mod 512 \<in> {96..<129}" by simp_all
    then show ?thesis using q unfolding p a_def [symmetric] b_def [symmetric] kpaths_def by auto
  next
    case mem
    then have ab: "a = 2" "1024 \<le> b" "b < 1088"
      using div_range [of 2 1073741824 "unat va" 3] div_range [of 1024 2097152 "unat va" 1088] by (simp_all add: a_def b_def)
    then obtain c where "b = c + 2 * 512" "c < 64" using le_Suc_ex [of 1024 b] by auto
    then have "a mod 512 = 2" "b mod 512 \<in> {0..<64}" using ab by (simp_all only: mod_mult_self1) simp_all
    then show ?thesis using q unfolding p a_def [symmetric] b_def [symmetric] kpaths_def by auto
  next
    case top
    then have "a = 255" "b = 131071"
      using div_range [of 255 1073741824 "unat va" 256] div_range [of 131071 2097152 "unat va" 131072] by (simp_all add: a_def b_def)
    then have "a mod 512 = 255" "b mod 512 = 511" by simp_all
    then show ?thesis using q unfolding p a_def [symmetric] b_def [symmetric] kpaths_def by auto
  qed
qed

section \<open>Building the table\<close>

text \<open>
  The table at \<open>kp\<close> maps the pages as \<open>f\<close> says; of the pages \<open>F\<close> that were free at the start some are tables now, some are in
  \<open>used\<close> and the others are still free.
\<close>

definition kvm :: "u64 set \<Rightarrow> u64 set \<Rightarrow> u64 \<Rightarrow> (u64 \<Rightarrow> u64 option) \<Rightarrow> 'z phys_scheme \<Rightarrow> bool" where
  "kvm F used kp f s \<longleftrightarrow> pt_inv s kp \<and> (\<forall>vb. upage vb \<longrightarrow> lookup (pmem s) kp vb = f vb) \<and>
     (\<forall>q. tpath q \<longrightarrow> node (pmem s) kp q \<noteq> None \<longrightarrow> q \<in> kpaths) \<and>
     tables (pmem s) kp \<union> free_pages s \<union> used = F \<and> used \<inter> (tables (pmem s) kp \<union> free_pages s) = {} \<and> finite used"

lemma card_tables:
  assumes "\<forall>q. tpath q \<longrightarrow> node m kp q \<noteq> None \<longrightarrow> q \<in> kpaths"
  shows "finite (tables m kp)" "card (tables m kp) \<le> 102"
proof -
  have sub: "tables m kp \<subseteq> (\<lambda>q. the (node m kp q)) ` kpaths" using assms by (force simp: tables_def)
  then show "finite (tables m kp)" using card_kpaths(1) finite_subset by blast
  show "card (tables m kp) \<le> 102"
    using card_mono [OF _ sub] card_image_le [OF card_kpaths(1), of "\<lambda>q. the (node m kp q)"] card_kpaths by simp
qed

lemma kvm_room:
  assumes "kvm F used kp f s" and "102 + card used < card F"
  shows "free_pages s \<noteq> {}"
proof
  assume "free_pages s = {}"
  then have F: "F = tables (pmem s) kp \<union> used" using assms(1) by (auto simp: kvm_def)
  have "card (tables (pmem s) kp) \<le> 102" using assms(1) by (intro card_tables) (simp add: kvm_def)
  then show False using assms(2) card_Un_le [of "tables (pmem s) kp" used] unfolding F by linarith
qed

lemma region:
  assumes "pgaligned a" "pgaligned b" "a < b"
  obtains n where "b - a = of_nat (4096 * Suc n)" "unat b = unat a + 4096 * Suc n"
proof -
  have "4096 dvd unat b - unat a" using assms(1,2) by (simp add: pgaligned_unat)
  then obtain k where k: "unat b - unat a = 4096 * k" by (auto elim: dvdE)
  have lt: "unat a < unat b" using assms(3) by (simp add: word_less_nat_alt)
  with k obtain n where n: "k = Suc n" by (cases k) auto
  have "unat (b - a) = 4096 * Suc n" using k n assms(3) by (subst unat_sub) (auto simp: less_imp_le)
  then have "of_nat (unat (b - a)) = (of_nat (4096 * Suc n) :: u64)" by simp
  then have "b - a = of_nat (4096 * Suc n)" by (simp del: of_nat_mult of_nat_Suc)
  moreover have "unat b = unat a + 4096 * Suc n" using k lt unfolding n by linarith
  ultimately show thesis by (rule that)
qed

definition map_region :: "u64 \<Rightarrow> u64 \<Rightarrow> u64 \<Rightarrow> u64 \<Rightarrow> (u64 \<Rightarrow> u64 option) \<Rightarrow> u64 \<Rightarrow> u64 option" where
  "map_region a b pa perm f va = (if a \<le> va \<and> va < b then Some (PA2PTE (pa + (va - a)) OR perm OR PTE_V) else f va)"

lemma kvm_map:
  assumes kv: "kvm F used kp f s" and room: "102 + card used < card F"
    and ab: "pgaligned a" "pgaligned b" "a < b" "b \<le> MAXVA"
    and new: "\<And>vb. upage vb \<Longrightarrow> a \<le> vb \<Longrightarrow> vb < b \<Longrightarrow> kva vb \<and> f vb = None"
  shows "\<exists>s'. kvmmap kp a pa (b - a) perm s = Inr s' \<and> phys.more s' = phys.more s \<and>
    kvm F used kp (map_region a b pa perm f) s'"
proof -
  obtain n where n: "b - a = of_nat (4096 * Suc n)" "unat b = unat a + 4096 * Suc n" by (rule region [OF ab(1-3)])
  have r: "in_range a (Suc n) vb \<longleftrightarrow> a \<le> vb \<and> vb < b" for vb
    unfolding in_range_def n(2) [symmetric] by (simp add: word_le_nat_alt word_less_nat_alt)
  have up: "upage a" using ab by (simp add: upage_def)
  have le: "unat b \<le> 2 ^ 38" using ab(4) by (simp add: word_le_nat_alt push_bit_eq_mult)
  have inv: "pt_inv s kp" and lk: "\<And>vb. upage vb \<Longrightarrow> lookup (pmem s) kp vb = f vb" using kv by (auto simp: kvm_def)
  obtain x s' where m: "mappages kp a (b - a) pa perm s = Inr (x, s')" "vm_pres kp s s'"
      "pt_grown kp (paths_of {vb. upage vb \<and> a \<le> vb \<and> vb < b}) (pmem s) (pmem s')"
      "x = 0 \<and> mapped_range (pmem s) (pmem s') kp a (Suc n) pa perm \<or> x = -1 \<and> free_pages s' = {}"
    using mappages_ok [OF inv up, of n pa perm] new lk le n(2) unfolding r n(1) by auto
  have "paths_of {vb. upage vb \<and> a \<le> vb \<and> vb < b} \<subseteq> kpaths" by (rule kva_paths) (use new in auto)
  then have q: "\<forall>q. tpath q \<longrightarrow> node (pmem s') kp q \<noteq> None \<longrightarrow> q \<in> kpaths"
    using kv m(3) unfolding kvm_def pt_grown_def by blast
  have F: "tables (pmem s') kp \<union> free_pages s' \<union> used = F" "used \<inter> (tables (pmem s') kp \<union> free_pages s') = {}" "finite used"
    using kv m(2) unfolding kvm_def vm_pres_def by auto
  have "x = 0"
  proof (rule ccontr)
    assume "x \<noteq> 0"
    then have "F = tables (pmem s') kp \<union> used" using m(4) F(1) by auto
    then show False using room card_tables(2) [OF q] card_Un_le [of "tables (pmem s') kp" used] by simp
  qed
  moreover have "phys.more s' = phys.more s" "pt_inv s' kp" using m(2) by (simp_all add: vm_pres_def)
  ultimately show ?thesis using m(1,4) F q lk by (simp add: kvmmap_def kbind_def kvm_def mapped_range_def map_region_def r)
qed

lemma kvm_cong: "kvm F used kp f s \<Longrightarrow> (\<And>vb. upage vb \<Longrightarrow> f vb = g vb) \<Longrightarrow> kvm F used kp g s"
  by (simp add: kvm_def)

lemma kvm_kalloc:
  assumes kv: "kvm F used kp f s" and room: "102 + card used < card F"
  obtains pg s1 where "kalloc s = (pg, s1)" "pg \<noteq> 0" "kvm F (insert pg used) kp f s1" "pg \<notin> used" "phys.more s1 = phys.more s"
proof -
  have inv: "pt_inv s kp" using kv by (simp add: kvm_def)
  obtain pg s1 where ka: "kalloc s = (pg, s1)" by force
  have pg: "pg \<noteq> 0" using kvm_room [OF assms] ka kalloc_cases [OF pt_inv_dest(1) [OF inv]] by (metis fst_conv)
  note k = pt_kalloc [OF inv ka pg]
  have ag: "pmem s x = pmem s1 x" if "t' \<in> tables (pmem s) kp" "PGROUNDDOWN x = t'" for t' x
    using k(4,7) that pt_inv_dest(5) [OF inv] by metis
  have "node (pmem s1) kp q = node (pmem s) kp q" if "tpath q" for q
    by (rule node_cong [OF pt_inv_dest(3) [OF inv] ag]) (use that in \<open>auto simp: tpath_def\<close>)
  then have "kvm F (insert pg used) kp f s1"
    using kv k(1-4,6) pt_inv_dest(5) [OF inv] unfolding kvm_def by (simp add: k(2,3,6)) blast
  moreover have "pg \<notin> used" using kv k(4) by (auto simp: kvm_def)
  ultimately show thesis using that ka pg k(9) by blast
qed

section \<open>Stacks\<close>

lemma KSTACK_facts:
  assumes "i < NPROC"
  shows "unat (KSTACK i) = 2 ^ 38 - 4096 - 8192 * (i + 1)" "pgaligned (KSTACK i)" "kva (KSTACK i)" "upage (KSTACK i)"
proof -
  have "unat (of_nat (i + 1) * 2 * PGSIZE) = 8192 * (i + 1)"
    using assms by (simp add: unat_word_ariths unat_of_nat_u64)
  then show u: "unat (KSTACK i) = 2 ^ 38 - 4096 - 8192 * (i + 1)"
    unfolding KSTACK_def using assms by (subst unat_sub) (simp_all add: word_le_nat_alt push_bit_eq_mult)
  show "kva (KSTACK i)" unfolding kva_def u using assms by (intro disjI2 conjI) simp_all
  have "unat (KSTACK i) = 4096 * (67108863 - 2 * (i + 1))" unfolding u using assms by simp
  then show al: "pgaligned (KSTACK i)" unfolding pgaligned_unat by simp
  then show "upage (KSTACK i)" unfolding upage_def unat_below_MAXVA u by simp
qed

lemma KSTACK_eq: "i < NPROC \<Longrightarrow> j < NPROC \<Longrightarrow> KSTACK i = KSTACK j \<longleftrightarrow> i = j"
  using KSTACK_facts(1) [of i] KSTACK_facts(1) [of j] by (auto simp del: of_nat_Suc)

lemma page_iff:
  assumes "upage a" "upage vb"
  shows "a \<le> vb \<and> vb < a + PGSIZE \<longleftrightarrow> vb = a"
proof -
  have "unat (a + 4096) = unat a + 4096" using assms(1) by (intro next_page_greater) (simp add: upage_def)
  then have "a \<le> vb \<and> vb < a + PGSIZE \<longleftrightarrow> in_range a 1 vb" by (simp add: in_range_def word_le_nat_alt word_less_nat_alt)
  also have "\<dots> \<longleftrightarrow> vb = a" using in_range_Suc [OF assms, of 0] by (auto simp: in_range_def)
  finally show ?thesis .
qed

abbreviation stack_pte :: "u64 \<Rightarrow> u64" where
  "stack_pte pg \<equiv> PA2PTE pg OR (PTE_R OR PTE_W) OR PTE_V"

primrec stack_map :: "nat \<Rightarrow> u64 list \<Rightarrow> (u64 \<Rightarrow> u64 option) \<Rightarrow> u64 \<Rightarrow> u64 option" where
  "stack_map i [] f = f"
| "stack_map i (pg # pgs) f = stack_map (i + 1) pgs (f(KSTACK i \<mapsto> stack_pte pg))"

lemma stack_map_other: "(\<And>j. j < length pgs \<Longrightarrow> va \<noteq> KSTACK (i + j)) \<Longrightarrow> stack_map i pgs f va = f va"
proof (induction pgs arbitrary: i f)
  case (Cons pg pgs)
  have "va \<noteq> KSTACK i" using Cons.prems [of 0] by simp
  moreover have "va \<noteq> KSTACK (i + 1 + j)" if "j < length pgs" for j using Cons.prems [of "Suc j"] that by simp
  ultimately show ?case using Cons.IH [of "i + 1"] by simp
qed simp

lemma stack_map_at:
  "i + length pgs \<le> NPROC \<Longrightarrow> j < length pgs \<Longrightarrow> stack_map i pgs f (KSTACK (i + j)) = Some (stack_pte (pgs ! j))"
proof (induction pgs arbitrary: i f j)
  case (Cons pg pgs)
  show ?case
  proof (cases j)
    case 0
    have "KSTACK i \<noteq> KSTACK (i + 1 + k)" if "k < length pgs" for k using Cons.prems that by (simp add: KSTACK_eq)
    then have "stack_map (i + 1) pgs (f(KSTACK i \<mapsto> stack_pte pg)) (KSTACK i) = (f(KSTACK i \<mapsto> stack_pte pg)) (KSTACK i)"
      by (rule stack_map_other)
    then show ?thesis using 0 by simp
  next
    case (Suc k)
    then show ?thesis using Cons.IH [of "i + 1" k] Cons.prems by simp
  qed
qed simp

lemma proc_mapstacks_ok:
  assumes "kvm F used kp f s" and "102 + card used + n < card F" and "i + n = NPROC"
    and "\<And>j. i \<le> j \<Longrightarrow> j < NPROC \<Longrightarrow> f (KSTACK j) = None"
  shows "\<exists>pgs s'. proc_mapstacks i n kp s = Inr s' \<and> phys.more s' = phys.more s \<and> length pgs = n \<and> distinct pgs \<and>
    set pgs \<inter> used = {} \<and> kvm F (used \<union> set pgs) kp (stack_map i pgs f) s'"
  using assms
proof (induction n arbitrary: i used f s)
  case 0
  then show ?case by (intro exI [of _ "[]"]) simp
next
  case (Suc n)
  have i: "i < NPROC" using Suc.prems(3) by simp
  obtain pg s1 where ka: "kalloc s = (pg, s1)" "pg \<noteq> 0" "kvm F (insert pg used) kp f s1" "pg \<notin> used" "phys.more s1 = phys.more s"
    using Suc.prems(2) by (auto intro: kvm_kalloc [OF Suc.prems(1)])
  have fin: "finite used" using Suc.prems(1) by (simp add: kvm_def)
  then have c: "card (insert pg used) = card used + 1" using ka(4) by simp
  note k = KSTACK_facts [OF i]
  let ?g = "f(KSTACK i \<mapsto> stack_pte pg)"
  have b: "unat (KSTACK i + PGSIZE) = unat (KSTACK i) + 4096"
    using next_page_greater [of "KSTACK i"] k(4) by (simp add: upage_def)
  have e: "KSTACK i + PGSIZE - KSTACK i = PGSIZE" by simp
  obtain s2 where s2: "kvmmap kp (KSTACK i) pg PGSIZE (PTE_R OR PTE_W) s1 = Inr s2" "phys.more s2 = phys.more s1"
    "kvm F (insert pg used) kp ?g s2"
  proof -
    have "\<exists>s2. kvmmap kp (KSTACK i) pg (KSTACK i + PGSIZE - KSTACK i) (PTE_R OR PTE_W) s1 = Inr s2 \<and> phys.more s2 = phys.more s1 \<and>
       kvm F (insert pg used) kp (map_region (KSTACK i) (KSTACK i + PGSIZE) pg (PTE_R OR PTE_W) f) s2"
    proof (rule kvm_map [OF ka(3)])
      show "102 + card (insert pg used) < card F" using c Suc.prems(2) by simp
      show "pgaligned (KSTACK i + PGSIZE)" using k(2) b by (simp add: pgaligned_unat)
      show "KSTACK i < KSTACK i + PGSIZE" using b by (simp add: word_less_nat_alt)
      show "KSTACK i + PGSIZE \<le> MAXVA" using b k(1) by (simp add: word_le_nat_alt push_bit_eq_mult)
      show "kva vb \<and> f vb = None" if "upage vb" "KSTACK i \<le> vb" "vb < KSTACK i + PGSIZE" for vb
        using page_iff [OF k(4) that(1)] that k(3) Suc.prems(4) [of i] i by simp
    qed (rule k(2))
    moreover have "map_region (KSTACK i) (KSTACK i + PGSIZE) pg (PTE_R OR PTE_W) f vb = ?g vb" if "upage vb" for vb
      using page_iff [OF k(4) that] by (simp add: map_region_def)
    ultimately show thesis unfolding e using that kvm_cong [where g = ?g] by blast
  qed
  have nn: "?g (KSTACK j) = None" if "i + 1 \<le> j" "j < NPROC" for j using that Suc.prems(4) [of j] KSTACK_eq [of i j] by simp
  have "102 + card (insert pg used) + n < card F" "i + 1 + n = NPROC" using c Suc.prems(2,3) by simp_all
  from Suc.IH [OF s2(3) this nn] obtain pgs s3 where
    r: "proc_mapstacks (i + 1) n kp s2 = Inr s3" "phys.more s3 = phys.more s2" "length pgs = n" "distinct pgs"
      "set pgs \<inter> insert pg used = {}" "kvm F (insert pg used \<union> set pgs) kp (stack_map (i + 1) pgs ?g) s3" by blast
  then show ?case using ka s2 by (intro exI [of _ "pg # pgs"]) (simp add: kbind_def)
qed

section \<open>The whole table\<close>

definition is_device :: "u64 \<Rightarrow> bool" where
  "is_device va \<longleftrightarrow> va = UART0 \<or> va = VIRTIO0 \<or> PLIC \<le> va \<and> va < PLIC + 0x4000000"

definition kernel_entry :: "u64 \<Rightarrow> u64 \<Rightarrow> u64 list \<Rightarrow> u64 \<Rightarrow> u64 option \<Rightarrow> bool" where
  "kernel_entry etext trampoline stacks va e \<longleftrightarrow>
     (is_device va \<longrightarrow> e = Some (PA2PTE va OR (PTE_R OR PTE_W) OR PTE_V)) \<and>
     (KERNBASE \<le> va \<and> va < etext \<longrightarrow> e = Some (PA2PTE va OR (PTE_R OR PTE_X) OR PTE_V)) \<and>
     (etext \<le> va \<and> va < PHYSTOP \<longrightarrow> e = Some (PA2PTE va OR (PTE_R OR PTE_W) OR PTE_V)) \<and>
     (va = TRAMPOLINE \<longrightarrow> e = Some (PA2PTE trampoline OR (PTE_R OR PTE_X) OR PTE_V)) \<and>
     (\<forall>i < NPROC. va = KSTACK i \<longrightarrow> e = Some (PA2PTE (stacks ! i) OR (PTE_R OR PTE_W) OR PTE_V)) \<and>
     (\<not> is_device va \<and> \<not> (KERNBASE \<le> va \<and> va < PHYSTOP) \<and> va \<noteq> TRAMPOLINE \<and> (\<forall>i < NPROC. va \<noteq> KSTACK i) \<longrightarrow> e = None)"

definition kernel_map :: "u64 \<Rightarrow> u64 \<Rightarrow> u64 list \<Rightarrow> (u64 \<Rightarrow> u64 option) \<Rightarrow> bool" where
  "kernel_map etext trampoline stacks f \<longleftrightarrow> (\<forall>va. upage va \<longrightarrow> kernel_entry etext trampoline stacks va (f va))"

text \<open>The map before the stacks, in the order of the calls.\<close>

definition boot_map :: "u64 \<Rightarrow> u64 \<Rightarrow> u64 \<Rightarrow> u64 option" where
  "boot_map etext trampoline =
     map_region TRAMPOLINE MAXVA trampoline (PTE_R OR PTE_X)
     (map_region etext PHYSTOP etext (PTE_R OR PTE_W)
     (map_region KERNBASE etext KERNBASE (PTE_R OR PTE_X)
     (map_region PLIC (PLIC + 0x4000000) PLIC (PTE_R OR PTE_W)
     (map_region VIRTIO0 (VIRTIO0 + PGSIZE) VIRTIO0 (PTE_R OR PTE_W)
     (map_region UART0 (UART0 + PGSIZE) UART0 (PTE_R OR PTE_W) (\<lambda>_. None))))))"

lemma kvm_steps:
  assumes "kvm F {} kp (\<lambda>_. None) s" and F: "102 < card F"
    and et: "pgaligned etext" "KERNBASE < etext" "etext < PHYSTOP"
  obtains s3 s4 s5 s6 s7 s8 where
    "kvmmap kp UART0 UART0 PGSIZE (PTE_R OR PTE_W) s = Inr s3" "kvmmap kp VIRTIO0 VIRTIO0 PGSIZE (PTE_R OR PTE_W) s3 = Inr s4"
    "kvmmap kp PLIC PLIC 0x4000000 (PTE_R OR PTE_W) s4 = Inr s5"
    "kvmmap kp KERNBASE KERNBASE (etext - KERNBASE) (PTE_R OR PTE_X) s5 = Inr s6"
    "kvmmap kp etext etext (PHYSTOP - etext) (PTE_R OR PTE_W) s6 = Inr s7"
    "kvmmap kp TRAMPOLINE trampoline PGSIZE (PTE_R OR PTE_X) s7 = Inr s8"
    "kvm F {} kp (boot_map etext trampoline) s8" "phys.more s8 = phys.more s"
proof -
  have c: "102 + card {} < card F" using F by simp
  note u = word_le_nat_alt word_less_nat_alt kva_def map_region_def upage_def pgaligned_unat
  obtain s3 where 3: "kvmmap kp UART0 UART0 PGSIZE (PTE_R OR PTE_W) s = Inr s3" "phys.more s3 = phys.more s"
      "kvm F {} kp (map_region UART0 (UART0 + PGSIZE) UART0 (PTE_R OR PTE_W) (\<lambda>_. None)) s3" (is "kvm F {} kp ?f3 s3")
    using kvm_map [OF assms(1) c, of UART0 "UART0 + PGSIZE" UART0 "PTE_R OR PTE_W"] by (auto simp: u)
  obtain s4 where 4: "kvmmap kp VIRTIO0 VIRTIO0 PGSIZE (PTE_R OR PTE_W) s3 = Inr s4" "phys.more s4 = phys.more s3"
      "kvm F {} kp (map_region VIRTIO0 (VIRTIO0 + PGSIZE) VIRTIO0 (PTE_R OR PTE_W) ?f3) s4" (is "kvm F {} kp ?f4 s4")
    using kvm_map [OF 3(3) c, of VIRTIO0 "VIRTIO0 + PGSIZE" VIRTIO0 "PTE_R OR PTE_W"] by (auto simp: u)
  obtain s5 where 5: "kvmmap kp PLIC PLIC 0x4000000 (PTE_R OR PTE_W) s4 = Inr s5" "phys.more s5 = phys.more s4"
      "kvm F {} kp (map_region PLIC (PLIC + 0x4000000) PLIC (PTE_R OR PTE_W) ?f4) s5" (is "kvm F {} kp ?f5 s5")
    using kvm_map [OF 4(3) c, of PLIC "PLIC + 0x4000000" PLIC "PTE_R OR PTE_W"] by (auto simp: u)
  have e: "2147483648 < unat etext" "unat etext < 2281701376" using et(2,3) by (simp_all add: word_less_nat_alt)
  have "\<exists>s6. kvmmap kp KERNBASE KERNBASE (etext - KERNBASE) (PTE_R OR PTE_X) s5 = Inr s6 \<and> phys.more s6 = phys.more s5 \<and>
      kvm F {} kp (map_region KERNBASE etext KERNBASE (PTE_R OR PTE_X) ?f5) s6"
    by (rule kvm_map [OF 5(3) c]) (use e et in \<open>auto simp: u push_bit_eq_mult\<close>)
  then obtain s6 where 6: "kvmmap kp KERNBASE KERNBASE (etext - KERNBASE) (PTE_R OR PTE_X) s5 = Inr s6" "phys.more s6 = phys.more s5"
      "kvm F {} kp (map_region KERNBASE etext KERNBASE (PTE_R OR PTE_X) ?f5) s6" (is "kvm F {} kp ?f6 s6") by blast
  have "\<exists>s7. kvmmap kp etext etext (PHYSTOP - etext) (PTE_R OR PTE_W) s6 = Inr s7 \<and> phys.more s7 = phys.more s6 \<and>
      kvm F {} kp (map_region etext PHYSTOP etext (PTE_R OR PTE_W) ?f6) s7"
    by (rule kvm_map [OF 6(3) c]) (use e et in \<open>auto simp: u push_bit_eq_mult\<close>)
  then obtain s7 where 7: "kvmmap kp etext etext (PHYSTOP - etext) (PTE_R OR PTE_W) s6 = Inr s7" "phys.more s7 = phys.more s6"
      "kvm F {} kp (map_region etext PHYSTOP etext (PTE_R OR PTE_W) ?f6) s7" (is "kvm F {} kp ?f7 s7") by blast
  have "\<exists>s8. kvmmap kp TRAMPOLINE trampoline (MAXVA - TRAMPOLINE) (PTE_R OR PTE_X) s7 = Inr s8 \<and> phys.more s8 = phys.more s7 \<and>
      kvm F {} kp (map_region TRAMPOLINE MAXVA trampoline (PTE_R OR PTE_X) ?f7) s8"
    by (rule kvm_map [OF 7(3) c]) (use e in \<open>auto simp: u push_bit_eq_mult\<close>)
  moreover have "MAXVA - TRAMPOLINE = PGSIZE" by simp
  ultimately obtain s8 where 8: "kvmmap kp TRAMPOLINE trampoline PGSIZE (PTE_R OR PTE_X) s7 = Inr s8" "phys.more s8 = phys.more s7"
      "kvm F {} kp (boot_map etext trampoline) s8" unfolding boot_map_def by auto
  show thesis by (rule that [OF 3(1) 4(1) 5(1) 6(1) 7(1) 8(1,3)]) (simp add: 3(2) 4(2) 5(2) 6(2) 7(2) 8(2))
qed

lemma kernel_map_stacks:
  assumes et: "KERNBASE < etext" "etext < PHYSTOP" and n: "length pgs = NPROC"
  shows "kernel_map etext trampoline pgs (stack_map 0 pgs (boot_map etext trampoline))"
proof -
  let ?f = "stack_map 0 pgs (boot_map etext trampoline)"
  have e: "2147483648 < unat etext" "unat etext < 2281701376" using et by (simp_all add: word_less_nat_alt)
  have stk: "?f (KSTACK i) = Some (stack_pte (pgs ! i))" if "i < NPROC" for i
    using stack_map_at [of 0 pgs i] n that by simp
  have oth: "?f va = boot_map etext trampoline va" if "\<And>i. i < NPROC \<Longrightarrow> va \<noteq> KSTACK i" for va
    using that n by (intro stack_map_other) simp
  have not_stack: "va \<noteq> KSTACK i" if "unat va < 2281701376 \<or> va = TRAMPOLINE" "i < NPROC" for va i
  proof
    assume "va = KSTACK i"
    then have "unat va = 2 ^ 38 - 4096 - 8192 * (i + 1)" using KSTACK_facts(1) [OF that(2)] by simp
    then show False using that by (auto simp: push_bit_eq_mult)
  qed
  note u = word_le_nat_alt word_less_nat_alt map_region_def boot_map_def
  have dev: "unat va < 2281701376" if "is_device va" for va using that by (auto simp: is_device_def word_less_nat_alt)
  have low: "?f va = boot_map etext trampoline va" if "unat va < 2281701376 \<or> va = TRAMPOLINE" for va
    by (rule oth) (use not_stack that in blast)
  show ?thesis
    unfolding kernel_map_def kernel_entry_def
  proof (intro allI impI conjI)
    fix va assume va: "upage va"
    show "?f va = Some (PA2PTE va OR (PTE_R OR PTE_W) OR PTE_V)" if "is_device va"
      using low [of va] dev [OF that] that e by (auto simp: u is_device_def)
    show "?f va = Some (PA2PTE va OR (PTE_R OR PTE_X) OR PTE_V)" if "KERNBASE \<le> va \<and> va < etext"
      using low [of va] that e by (auto simp: u push_bit_eq_mult)
    show "?f va = Some (PA2PTE va OR (PTE_R OR PTE_W) OR PTE_V)" if "etext \<le> va \<and> va < PHYSTOP"
      using low [of va] that e by (auto simp: u push_bit_eq_mult)
    show "?f va = Some (PA2PTE trampoline OR (PTE_R OR PTE_X) OR PTE_V)" if "va = TRAMPOLINE"
      using low [of va] that by (auto simp: u push_bit_eq_mult)
    show "?f va = Some (stack_pte (pgs ! i))" if "i < NPROC" "va = KSTACK i" for i using stk that by simp
    show "?f va = None" if "\<not> is_device va \<and> \<not> (KERNBASE \<le> va \<and> va < PHYSTOP) \<and> va \<noteq> TRAMPOLINE \<and> (\<forall>i < NPROC. va \<noteq> KSTACK i)"
    proof -
      have "upage UART0" "upage VIRTIO0" "upage TRAMPOLINE" by (simp_all add: upage_def pgaligned_unat unat_below_MAXVA push_bit_eq_mult)
      note pg = page_iff [OF this(1) va] page_iff [OF this(2) va] page_iff [OF this(3) va]
      have "TRAMPOLINE + PGSIZE = MAXVA" by simp
      then have "boot_map etext trampoline va = None"
        using that pg e unfolding boot_map_def map_region_def is_device_def by (auto simp: word_le_nat_alt word_less_nat_alt)
      then show ?thesis using oth [of va] that by simp
    qed
  qed
qed

lemma kvmmake_ok:
  assumes ki: "kmem_inv s" and F: "166 < card (free_pages s)" and et: "pgaligned etext" "KERNBASE < etext" "etext < PHYSTOP"
  shows "\<exists>kp s' stacks. kvmmake etext trampoline s = Inr (kp, s') \<and> phys.more s' = phys.more s \<and> length stacks = NPROC \<and> distinct stacks \<and>
    kvm (free_pages s) (set stacks) kp (stack_map 0 stacks (boot_map etext trampoline)) s'"
proof -
  obtain kp s1 where ka: "kalloc s = (kp, s1)" by force
  have "free_pages s \<noteq> {}" using F by auto
  then have nz: "kp \<noteq> 0" using ka kalloc_cases [OF ki] by (metis fst_conv)
  define s2 where "s2 = s1\<lparr>pmem := memset kp 0 (unat PGSIZE) (pmem s1)\<rparr>"
  have uv: "uvmcreate s = (kp, s2)" using ka nz by (simp add: uvmcreate_def s2_def)
  note c = uvmcreate_ok [OF ki uv nz]
  have more: "phys.more s2 = phys.more s" using ka by (auto simp: s2_def kalloc_def Let_def split: if_splits)
  have "q = []" if "tpath q" "node (pmem s2) kp q \<noteq> None" for q
  proof -
    from that(2) obtain a where a: "node (pmem s2) kp q = Some a" by blast
    then have "a = kp" using tablesI [OF that(1) a] c(2) by simp
    then show "q = []" using pt_wf_inj [OF pt_inv_dest(2) [OF c(1)] that(1) tpath_Nil] a by simp
  qed
  then have "kvm (free_pages s) {} kp (\<lambda>_. None) s2" using c by (auto simp: kvm_def kpaths_def)
  moreover have "102 < card (free_pages s)" using F by simp
  ultimately obtain s3 s4 s5 s6 s7 s8 where
    st: "kvmmap kp UART0 UART0 PGSIZE (PTE_R OR PTE_W) s2 = Inr s3" "kvmmap kp VIRTIO0 VIRTIO0 PGSIZE (PTE_R OR PTE_W) s3 = Inr s4"
    "kvmmap kp PLIC PLIC 0x4000000 (PTE_R OR PTE_W) s4 = Inr s5"
    "kvmmap kp KERNBASE KERNBASE (etext - KERNBASE) (PTE_R OR PTE_X) s5 = Inr s6"
    "kvmmap kp etext etext (PHYSTOP - etext) (PTE_R OR PTE_W) s6 = Inr s7"
    "kvmmap kp TRAMPOLINE trampoline PGSIZE (PTE_R OR PTE_X) s7 = Inr s8"
    "kvm (free_pages s) {} kp (boot_map etext trampoline) s8" "phys.more s8 = phys.more s2"
    using et by (rule kvm_steps)
  have e: "unat etext < 2281701376" using et(3) by (simp add: word_less_nat_alt)
  have "boot_map etext trampoline (KSTACK j) = None" if "j < NPROC" for j
  proof -
    have "unat (KSTACK j) < 2 ^ 38 - 4096" "2281701376 \<le> unat (KSTACK j)" using KSTACK_facts(1) [OF that] that by simp_all
    then show ?thesis using e by (simp add: boot_map_def map_region_def word_le_nat_alt word_less_nat_alt push_bit_eq_mult)
  qed
  then obtain pgs s9 where r: "proc_mapstacks 0 NPROC kp s8 = Inr s9" "phys.more s9 = phys.more s8" "length pgs = NPROC" "distinct pgs"
      "kvm (free_pages s) (set pgs) kp (stack_map 0 pgs (boot_map etext trampoline)) s9"
    using proc_mapstacks_ok [OF st(7), of NPROC 0] F by auto
  have "kvmmake etext trampoline s = Inr (kp, s9)"
    unfolding kvmmake_def ka Let_def prod.case s2_def [symmetric] by (simp only: st(1-6) r(1) kbind_def sum.case)
  then show ?thesis using r st(8) more by auto
qed

lemma card_valid_pages:
  assumes "kend s \<le> PHYSTOP - 167 * 4096"
  shows "166 < card {a. valid_page s a}"
proof -
  let ?p = "\<lambda>k. PHYSTOP - of_nat (4096 * (k + 1)) :: u64"
  have u: "unat (?p k) = 2281701376 - 4096 * (k + 1)" if "k < 167" for k
    using that by (subst unat_sub) (simp_all add: word_le_nat_alt unat_of_nat_u64 del: of_nat_mult of_nat_add)
  have "inj_on ?p {..<167}"
  proof (rule inj_onI)
    fix j k assume "j \<in> {..<167}" "k \<in> {..<167}" "?p j = ?p k"
    then show "j = k" using u [of j] u [of k] by simp
  qed
  then have "card (?p ` {..<167}) = 167" by (simp add: card_image)
  moreover have "?p k \<in> {a. valid_page s a}" if "k < 167" for k
  proof -
    have "unat (?p k) = 4096 * (557055 - k)" using u [OF that] that by simp
    then have "pgaligned (?p k)" unfolding pgaligned_unat by simp
    moreover have "unat (kend s) \<le> 2281017344" using assms by (simp add: word_le_nat_alt)
    then have "unat (kend s) \<le> unat (?p k)" "unat (?p k) < unat PHYSTOP" unfolding u [OF that] using that by simp_all
    ultimately show ?thesis unfolding mem_Collect_eq valid_page_def word_le_nat_alt word_less_nat_alt by blast
  qed
  then have "?p ` {..<167} \<subseteq> {a. valid_page s a}" by blast
  ultimately show ?thesis using card_mono [of "{a. valid_page s a}" "?p ` {..<167}"] by simp
qed

text \<open>
  C8. Boot: if at least 167 pages lie between the end of the kernel and \<open>PHYSTOP\<close>, \<open>kinit\<close> puts exactly the pages there on the free
  list, and \<open>kvmmake\<close> then ends without a panic and builds a well-formed table. It maps the devices and the memory at their own
  addresses, the kernel's text executable and not writable and everything after it writable and not executable, the trampoline
  at the top, and one fresh page as the stack of each process; every other page, in particular the one below each stack,
  is unmapped. Of the free pages it took those of the table and of the stacks, and no others.
\<close>

theorem boot_kernel_map:
  assumes "freelist s = 0" and "KERNBASE \<le> kend s" and "kend s \<le> PHYSTOP - 167 * 4096"
    and "pgaligned etext" and "KERNBASE < etext" and "etext < PHYSTOP"
  shows "\<exists>s1 kp s2 stacks. kinit s = Some (Inr s1) \<and> free_pages s1 = {a. valid_page s a} \<and>
    kvmmake etext trampoline s1 = Inr (kp, s2) \<and> pt_inv s2 kp \<and>
    kernel_map etext trampoline stacks (lookup (pmem s2) kp) \<and> length stacks = NPROC \<and> distinct stacks \<and>
    set stacks \<union> tables (pmem s2) kp \<union> free_pages s2 = free_pages s1 \<and> set stacks \<inter> (tables (pmem s2) kp \<union> free_pages s2) = {}"
proof -
  have "PHYSTOP - 167 * 4096 \<le> PHYSTOP" by simp
  then have "kend s \<le> PHYSTOP" using assms(3) by (rule order_trans [rotated])
  from kinit_ok [OF assms(1,2) this] obtain s1 where s1: "kinit s = Some (Inr s1)" "kmem_inv s1" "free_pages s1 = {a. valid_page s a}"
    by blast
  have "166 < card (free_pages s1)" unfolding s1(3) by (rule card_valid_pages [OF assms(3)])
  from kvmmake_ok [OF s1(2) this assms(4-6)] obtain kp s2 stacks where k: "kvmmake etext trampoline s1 = Inr (kp, s2)"
    "length stacks = NPROC" "distinct stacks" "kvm (free_pages s1) (set stacks) kp (stack_map 0 stacks (boot_map etext trampoline)) s2"
    by blast
  have "kernel_map etext trampoline stacks (lookup (pmem s2) kp)"
    using kernel_map_stacks [OF assms(5,6) k(2), of trampoline] k(4) by (simp add: kvm_def kernel_map_def)
  then show ?thesis using s1 k unfolding kvm_def by blast
qed

theorem boot_kernel_map_witness:
  "\<exists>s1 kp s2 stacks. kinit \<lparr>pmem = (\<lambda>_. 0), freelist = 0, kend = 0x80021ff8\<rparr> = Some (Inr s1) \<and>
    kvmmake 0x80008000 0x80007000 s1 = Inr (kp, s2) \<and> pt_inv s2 kp \<and>
    kernel_map 0x80008000 0x80007000 stacks (lookup (pmem s2) kp)"
  using boot_kernel_map [of "\<lparr>pmem = (\<lambda>_. 0), freelist = 0, kend = 0x80021ff8\<rparr>" "0x80008000" "0x80007000"]
  by (fastforce simp: pgaligned_def)

end
