(* ===== verification/Printf.thy ===== *)
theory Printf
  imports KBase
begin

text \<open>
  Formatted output: \<open>printint\<close>, \<open>printptr\<close> and \<open>printf\<close> of \<^verbatim>\<open>kernel/printf.c\<close> as functions to
  the bytes sent to the console, and \<open>vprintf\<close> of \<^verbatim>\<open>user/printf.c\<close> with its state machine. A
  format is the list of its bytes up to the terminating NUL. An argument is a 64-bit
  register or a string; a format that asks for an argument that is not there, or for an
  argument of the other kind, has no defined result (\<open>None\<close>).
\<close>

section \<open>Numbers\<close>

definition chr :: "char \<Rightarrow> byte" where
  "chr c = of_char c"

definition str :: "string \<Rightarrow> byte list" where
  "str = map of_char"

definition digits :: "byte list" where
  "digits = str ''0123456789abcdef''"

definition udigits :: "byte list" where
  "udigits = str ''0123456789ABCDEF''"

text \<open>The \<open>do\<close> loop, least significant digit first. The bases are 10 and 16.\<close>

function digit_loop :: "byte list \<Rightarrow> nat \<Rightarrow> nat \<Rightarrow> byte list" where
  "digit_loop ds base x =
     ds ! (x mod base) # (if x div base = 0 \<or> base < 2 then [] else digit_loop ds base (x div base))"
  by pat_completeness auto
termination
proof (relation "measure (\<lambda>(_, _, x). x)")
  fix ds :: "byte list" and base x :: nat
  assume *: "\<not> (x div base = 0 \<or> base < 2)"
  then have "0 < x" by (cases "x = 0") auto
  with * show "((ds, base, x div base), (ds, base, x)) \<in> measure (\<lambda>(_, _, x). x)" by simp
qed simp

declare digit_loop.simps [simp del]

definition printint :: "byte list \<Rightarrow> u64 \<Rightarrow> nat \<Rightarrow> bool \<Rightarrow> byte list" where
  "printint ds xx base sign =
     (let neg = sign \<and> sint xx < 0; x = (if neg then - xx else xx) in
      rev (digit_loop ds base (unat x) @ (if neg then [chr CHR ''-''] else [])))"

definition printptr :: "byte list \<Rightarrow> u64 \<Rightarrow> byte list" where
  "printptr ds x = [chr CHR ''0'', chr CHR ''x''] @ map (\<lambda>i. ds ! unat (drop_bit 60 (push_bit (4 * i) x))) [0..<16]"

section \<open>Formats\<close>

datatype parg = PInt u64 | PStr "byte list option"

datatype pconv = ConvInt nat nat bool | ConvPtr | ConvChar | ConvStr | ConvPercent | ConvUnknown

text \<open>
  The chain of tests on the characters after the percent sign: the conversion (width, base and sign for a
  number) and how many further characters it takes.
\<close>

definition directive :: "byte \<Rightarrow> byte \<Rightarrow> byte \<Rightarrow> pconv \<times> nat" where
  "directive c0 c1 c2 =
     (if c0 = chr CHR ''d'' then (ConvInt 32 10 True, 0)
      else if c0 = chr CHR ''l'' \<and> c1 = chr CHR ''d'' then (ConvInt 64 10 True, 1)
      else if c0 = chr CHR ''l'' \<and> c1 = chr CHR ''l'' \<and> c2 = chr CHR ''d'' then (ConvInt 64 10 True, 2)
      else if c0 = chr CHR ''u'' then (ConvInt 32 10 False, 0)
      else if c0 = chr CHR ''l'' \<and> c1 = chr CHR ''u'' then (ConvInt 64 10 False, 1)
      else if c0 = chr CHR ''l'' \<and> c1 = chr CHR ''l'' \<and> c2 = chr CHR ''u'' then (ConvInt 64 10 False, 2)
      else if c0 = chr CHR ''x'' then (ConvInt 32 16 False, 0)
      else if c0 = chr CHR ''l'' \<and> c1 = chr CHR ''x'' then (ConvInt 64 16 False, 1)
      else if c0 = chr CHR ''l'' \<and> c1 = chr CHR ''l'' \<and> c2 = chr CHR ''x'' then (ConvInt 64 16 False, 2)
      else if c0 = chr CHR ''p'' then (ConvPtr, 0)
      else if c0 = chr CHR ''c'' then (ConvChar, 0)
      else if c0 = chr CHR ''s'' then (ConvStr, 0)
      else if c0 = chr CHR ''%'' then (ConvPercent, 0)
      else (ConvUnknown, 0))"

text \<open>A 32-bit argument is the low half of its register, sign- or zero-extended.\<close>

definition va_int :: "nat \<Rightarrow> bool \<Rightarrow> u64 \<Rightarrow> u64" where
  "va_int w sign x = (if w = 64 then x else if sign then scast (ucast x :: u32) else ucast (ucast x :: u32))"

abbreviation BACKSPACE :: u32 where "BACKSPACE \<equiv> 0x100"

definition consputc_bytes :: "u32 \<Rightarrow> byte list" where
  "consputc_bytes c = (if c = BACKSPACE then [8, 32, 8] else [ucast c])"

definition emit_conv ::
  "byte list \<Rightarrow> (u32 \<Rightarrow> byte list) \<Rightarrow> pconv \<Rightarrow> byte \<Rightarrow> parg list \<Rightarrow> (byte list \<times> parg list) option" where
  "emit_conv ds put conv c0 args =
     (case conv of
        ConvInt w base sign \<Rightarrow> (case args of PInt x # as \<Rightarrow> Some (printint ds (va_int w sign x) base sign, as) | _ \<Rightarrow> None)
      | ConvPtr \<Rightarrow> (case args of PInt x # as \<Rightarrow> Some (printptr ds x, as) | _ \<Rightarrow> None)
      | ConvChar \<Rightarrow> (case args of PInt x # as \<Rightarrow> Some (put (ucast x), as) | _ \<Rightarrow> None)
      | ConvStr \<Rightarrow> (case args of PStr (Some s) # as \<Rightarrow> Some (s, as) | PStr None # as \<Rightarrow> Some (str ''(null)'', as) | _ \<Rightarrow> None)
      | ConvPercent \<Rightarrow> Some ([chr CHR ''%''], args)
      | ConvUnknown \<Rightarrow> Some ([chr CHR ''%'', c0], args))"

definition char_at :: "byte list \<Rightarrow> nat \<Rightarrow> byte" where
  "char_at fmt i = (if i < length fmt then fmt ! i else 0)"

definition lookahead :: "byte list \<Rightarrow> pconv \<times> nat" where
  "lookahead r =
     (let c0 = char_at r 0; c1 = (if c0 \<noteq> 0 then char_at r 1 else 0);
          c2 = (if c1 \<noteq> 0 then char_at r 2 else 0)
      in directive c0 c1 c2)"

function printf :: "byte list \<Rightarrow> parg list \<Rightarrow> byte list option" where
  "printf [] args = Some []"
| "printf (cx # r) args =
     (if cx \<noteq> chr CHR ''%'' then map_option ((@) (consputc_bytes (ucast cx))) (printf r args)
      else if r = [] then Some []
      else
        let (conv, extra) = lookahead r in
        case emit_conv digits consputc_bytes conv (hd r) args of
          None \<Rightarrow> None
        | Some (out, as) \<Rightarrow> map_option ((@) out) (printf (drop (Suc extra) r) as))"
  by pat_completeness auto
termination by (relation "measure (\<lambda>(fmt, _). length fmt)") auto

text \<open>\<^verbatim>\<open>user/printf.c\<close>: one pass over the index with a state, here whether a percent sign was just read.\<close>

function vprintf :: "byte list \<Rightarrow> bool \<Rightarrow> parg list \<Rightarrow> byte list option" where
  "vprintf [] state ap = Some []"
| "vprintf (c0 # r) state ap =
     (if \<not> state then
        if c0 = chr CHR ''%'' then vprintf r True ap
        else map_option ((@) [c0]) (vprintf r False ap)
      else
        let (conv, extra) = lookahead (c0 # r) in
        case emit_conv udigits (\<lambda>c. [ucast c]) conv c0 ap of
          None \<Rightarrow> None
        | Some (out, as) \<Rightarrow> map_option ((@) out) (vprintf (drop extra r) False as))"
  by pat_completeness auto
termination by (relation "measure (\<lambda>(fmt, _). length fmt)") auto

definition panic_bytes :: "byte list \<Rightarrow> byte list option" where
  "panic_bytes s = (case printf (str ''panic: '') [] of None \<Rightarrow> None
     | Some a \<Rightarrow> map_option ((@) a) (printf (str ''%s'' @ [10]) [PStr (Some s)]))"

section \<open>Numbers read back\<close>

definition digit_val :: "byte list \<Rightarrow> byte \<Rightarrow> nat" where
  "digit_val ds c = length (takeWhile (\<lambda>d. d \<noteq> c) ds)"

definition read_nat :: "byte list \<Rightarrow> nat \<Rightarrow> byte list \<Rightarrow> nat" where
  "read_nat ds base cs = foldl (\<lambda>a c. a * base + digit_val ds c) 0 cs"

definition read_int :: "byte list \<Rightarrow> nat \<Rightarrow> byte list \<Rightarrow> int" where
  "read_int ds base cs = (if cs \<noteq> [] \<and> hd cs = chr CHR ''-'' then - int (read_nat ds base (tl cs))
     else int (read_nat ds base cs))"

lemma digits_simps: "length digits = 16" "distinct digits" "chr CHR ''-'' \<notin> set digits"
  by (simp_all add: digits_def str_def chr_def of_char_def)

lemma digit_val_nth: "i < 16 \<Longrightarrow> digit_val digits (digits ! i) = i"
proof -
  assume i: "i < 16"
  have "takeWhile (\<lambda>d. d \<noteq> digits ! i) digits = take i digits"
    by (rule takeWhile_eq_take_P_nth) (use i digits_simps in \<open>auto simp: nth_eq_iff_index_eq\<close>)
  with i show ?thesis by (simp add: digit_val_def digits_simps)
qed

lemma digit_loop_value:
  assumes "2 \<le> base" and "base \<le> 16"
  shows "read_nat digits base (rev (digit_loop digits base x)) = x"
  using assms
proof (induction digits base x rule: digit_loop.induct)
  case (1 base x)
  then have "x mod base < 16" by (intro less_le_trans [OF mod_less_divisor]) auto
  then have v: "digit_val digits (digits ! (x mod base)) = x mod base" by (rule digit_val_nth)
  show ?case
  proof (cases "x div base = 0")
    case True
    with 1 v show ?thesis by (subst digit_loop.simps) (simp add: read_nat_def div_eq_0_iff)
  next
    case False
    with 1 have "read_nat digits base (rev (digit_loop digits base (x div base))) = x div base" by auto
    with False 1(2) v show ?thesis by (subst digit_loop.simps) (simp add: read_nat_def)
  qed
qed

lemma digit_loop_length:
  assumes "2 \<le> base" and "0 < k" and "x < base ^ k"
  shows "length (digit_loop ds base x) \<le> k"
  using assms(2,3)
proof (induction k arbitrary: x)
  case (Suc k)
  show ?case
  proof (cases "x div base = 0")
    case True
    then show ?thesis by (subst digit_loop.simps) simp
  next
    case False
    have "x div base < base ^ k"
      using Suc.prems(2) assms(1) by (simp add: less_mult_imp_div_less mult.commute)
    moreover from this False have "0 < k" by (cases k) auto
    ultimately show ?thesis using Suc.IH by (subst digit_loop.simps) simp
  qed
qed simp

lemma digit_loop_set: "2 \<le> base \<Longrightarrow> base \<le> 16 \<Longrightarrow> set (digit_loop digits base x) \<subseteq> set digits"
proof (induction digits base x rule: digit_loop.induct)
  case (1 base x)
  have "x mod base < length digits"
    unfolding digits_simps using 1 by (intro less_le_trans [OF mod_less_divisor]) auto
  with 1 show ?case by (subst digit_loop.simps) auto
qed

lemma digit_loop_Nil [simp]: "digit_loop ds base x \<noteq> []"
  by (subst digit_loop.simps) simp

lemma uint_of_sint: "uint (xx :: u64) = (if sint xx < 0 then sint xx + 2 ^ 64 else sint xx)"
proof -
  have r: "- (2 ^ 63) \<le> sint xx" "sint xx < 2 ^ 63" using sint_ge [of xx] sint_lt [of xx] by simp_all
  have "uint xx = sint xx mod 2 ^ 64" using uint_sint [of xx] by (simp add: take_bit_eq_mod)
  also have "\<dots> = (if sint xx < 0 then sint xx + 2 ^ 64 else sint xx)"
  proof (cases "sint xx < 0")
    case True
    have "sint xx mod 2 ^ 64 = (sint xx + 2 ^ 64) mod 2 ^ 64" by simp
    also have "\<dots> = sint xx + 2 ^ 64" by (rule mod_pos_pos_trivial) (use True r in auto)
    finally show ?thesis using True by simp
  qed (use r in \<open>simp add: mod_pos_pos_trivial\<close>)
  finally show ?thesis .
qed

lemma neg_magnitude: "sint xx < 0 \<Longrightarrow> unat (- xx :: u64) = nat (- sint xx) \<and> nat (- sint xx) \<le> 2 ^ 63"
proof -
  assume n: "sint xx < 0"
  have r: "- (2 ^ 63) \<le> sint xx" using sint_ge [of xx] by simp
  have "uint (- xx) = (- sint xx) mod 2 ^ 64"
    using uint_of_sint [of xx] n by (simp add: uint_word_ariths)
  also have "\<dots> = - sint xx" using n r by (intro mod_pos_pos_trivial) auto
  finally have "unat (- xx) = nat (- sint xx)" by (simp add: unat_eq_nat_uint)
  then show ?thesis using r n by simp
qed

text \<open>
  C16. The number printer is exact: for both bases of the format language and every 64-bit value,
  reading the printed text back (a minus sign, then digits, most significant first)
  gives the value, taken as signed or unsigned as asked; and the text never exceeds the 20
  bytes of the local buffer, not even for the most negative number.
\<close>

theorem printint_roundtrip:
  assumes "base = 10 \<or> base = 16"
  shows "read_int digits base (printint digits xx base sign) = (if sign then sint xx else uint xx) \<and>
    length (printint digits xx base sign) \<le> 20"
proof (rule conjI)
  define neg where "neg \<longleftrightarrow> sign \<and> sint xx < 0"
  let ?x = "if neg then - xx else xx"
  let ?ds = "rev (digit_loop digits base (unat ?x))"
  have b: "2 \<le> base" "base \<le> 16" using assms by auto
  have out: "printint digits xx base sign = (if neg then [chr CHR ''-''] else []) @ ?ds"
    by (simp add: printint_def neg_def Let_def)
  note val = digit_loop_value [OF b, of "unat ?x"]
  have "hd ?ds \<in> set (digit_loop digits base (unat ?x))" using hd_in_set [of ?ds] by (simp del: hd_in_set)
  then have "hd ?ds \<noteq> chr CHR ''-''"
    using digit_loop_set [OF b, of "unat ?x"] digits_simps(3) by (metis subsetD)
  with val have rd: "read_int digits base (printint digits xx base sign) = (if neg then - int (unat ?x) else int (unat ?x))"
    unfolding out read_int_def by auto
  have "neg \<Longrightarrow> int (unat (- xx)) = - sint xx"
    using neg_magnitude [of xx] by (simp add: neg_def)
  moreover have "\<not> neg \<Longrightarrow> sign \<Longrightarrow> uint xx = sint xx"
    using uint_of_sint [of xx] by (simp add: neg_def)
  ultimately show "read_int digits base (printint digits xx base sign) = (if sign then sint xx else uint xx)"
    unfolding rd by (auto simp: neg_def)
  show "length (printint digits xx base sign) \<le> 20"
  proof (cases neg)
    case True
    then have "unat ?x \<le> 2 ^ 63" using neg_magnitude [of xx] by (simp add: neg_def)
    also have "(2::nat) ^ 63 < base ^ 19" using assms by auto
    finally have "length ?ds \<le> 19" using digit_loop_length [OF b(1), of 19] by simp
    with True show ?thesis by (simp add: out)
  next
    case False
    have "unat ?x < 2 ^ 64" using unsigned_less [of ?x] by simp
    also have "(2::nat) ^ 64 < base ^ 20" using assms by auto
    finally have "length ?ds \<le> 20" using digit_loop_length [OF b(1), of 20] by simp
    with False show ?thesis by (simp add: out)
  qed
qed

theorem printint_roundtrip_witness:
  "length (printint digits 0x8000000000000000 10 True) \<le> 20 \<and>
   read_int digits 10 (printint digits 0x8000000000000000 10 True) = - (2 ^ 63)"
  using printint_roundtrip [of 10 "0x8000000000000000" True] by simp

end
