(* ===== verification/ProcBase.thy ===== *)
theory ProcBase
  imports Vm Printf "HOL-Library.Signed_Division"
begin

unbundle bit_operations_syntax

text \<open>
  The process table of \<^verbatim>\<open>kernel/proc.h\<close> and the part of \<^verbatim>\<open>kernel/proc.c\<close> that needs no file
  system: allocation and release of table entries and of user page tables, sleep and
  wakeup, kill, \<open>growproc\<close> and the copies to or from either address space; and
  \<^verbatim>\<open>kernel/sleeplock.c\<close>. The table \<^verbatim>\<open>proc[NPROC]\<close> is a function from the index; pointers to
  processes, files and inodes are table indices, null is \<open>None\<close>. Sections under a spinlock
  are atomic. A blocked \<open>acquiresleep\<close> is the result \<open>Sleep\<close>.
\<close>

section \<open>Processes\<close>

type_synonym i32 = "32 word"

datatype procstate = UNUSED | USED | SLEEPING | RUNNABLE | RUNNING | ZOMBIE

record vregion =
  vr_start :: u64
  vr_size :: i32

record kcontext =
  ctx_ra :: u64
  ctx_sp :: u64
  ctx_s :: "u64 list"

record proc =
  pstate :: procstate
  pchan :: "chan option"
  pkilled :: bool
  xstate :: i32
  pid :: i32
  trace_mask :: i32
  page_faults :: i32
  has_region :: bool
  region :: vregion
  parent :: "nat option"
  kstack :: u64
  sz :: u64
  pagetable :: u64
  trapframe :: u64
  pcontext :: kcontext
  ofile :: "nat option list"
  cwd :: "nat option"
  pname :: "byte list"

record kern = phys +
  procs :: "nat \<Rightarrow> proc"
  curp :: nat
  nextpid :: i32
  initproc :: nat
  ticks :: u32
  trampoline :: u64
  forkret_addr :: u64
  kout :: "byte list"

definition myproc :: "'z kern_scheme \<Rightarrow> proc" where
  "myproc s = procs s (curp s)"

definition upd_proc :: "nat \<Rightarrow> (proc \<Rightarrow> proc) \<Rightarrow> 'z kern_scheme \<Rightarrow> 'z kern_scheme" where
  "upd_proc i f s = s\<lparr>procs := (procs s)(i := f (procs s i))\<rparr>"

definition kprint :: "byte list \<Rightarrow> 'z kern_scheme \<Rightarrow> 'z kern_scheme" where
  "kprint bs s = s\<lparr>kout := kout s @ bs\<rparr>"

definition kprintf :: "string \<Rightarrow> parg list \<Rightarrow> 'z kern_scheme \<Rightarrow> 'z kern_scheme" where
  "kprintf fmt args s = (case printf (str fmt) args of None \<Rightarrow> s | Some out \<Rightarrow> kprint out s)"

definition procinit :: "'z kern_scheme \<Rightarrow> 'z kern_scheme" where
  "procinit s = fold (\<lambda>i. upd_proc i (\<lambda>p. p\<lparr>pstate := UNUSED, kstack := KSTACK i\<rparr>)) [0..<NPROC] s"

definition allocpid :: "'z kern_scheme \<Rightarrow> i32 \<times> 'z kern_scheme" where
  "allocpid s = (nextpid s, s\<lparr>nextpid := nextpid s + 1\<rparr>)"

section \<open>User page tables\<close>

definition proc_pagetable :: "u64 \<Rightarrow> 'z kern_scheme \<Rightarrow> (u64 \<times> 'z kern_scheme) kres" where
  "proc_pagetable tf s =
     (let (pt, s1) = uvmcreate s in
      if pt = 0 then Inr (0, s1)
      else kbind (mappages pt TRAMPOLINE PGSIZE (trampoline s1) (PTE_R OR PTE_X) s1) (\<lambda>(r, s2).
        if r < 0 then kbind (uvmfree pt 0 s2) (\<lambda>s3. Inr (0, s3))
        else kbind (mappages pt TRAPFRAME PGSIZE tf (PTE_R OR PTE_W) s2) (\<lambda>(r', s3).
          if r' < 0 then
            kbind (uvmunmap pt TRAMPOLINE 1 False s3) (\<lambda>s4.
            kbind (uvmfree pt 0 s4) (\<lambda>s5. Inr (0, s5)))
          else Inr (pt, s3))))"

definition unmap_if_valid :: "u64 \<Rightarrow> u64 \<Rightarrow> 'z kern_scheme \<Rightarrow> 'z kern_scheme kres" where
  "unmap_if_valid pt va s =
     kbind (walk pt va False s) (\<lambda>(pte, _).
       if pte \<noteq> 0 \<and> ld64 (pmem s) pte AND PTE_V \<noteq> 0 then uvmunmap pt va 1 False s else Inr s)"

definition proc_freepagetable :: "u64 \<Rightarrow> u64 \<Rightarrow> 'z kern_scheme \<Rightarrow> 'z kern_scheme kres" where
  "proc_freepagetable pt psz s =
     (let shmemva = 0x60000000; rova = 0x50000000 in
      kbind (unmap_if_valid pt shmemva s) (\<lambda>s1.
      kbind (unmap_if_valid pt rova s1) (\<lambda>s2.
      kbind (uvmunmap pt TRAMPOLINE 1 False s2) (\<lambda>s3.
      kbind (uvmunmap pt TRAPFRAME 1 False s3) (\<lambda>s4.
      uvmfree pt psz s4)))))"

section \<open>Allocating and freeing table entries\<close>

definition clear_proc :: "proc \<Rightarrow> proc" where
  "clear_proc p = p\<lparr>pagetable := 0, sz := 0, pid := 0, parent := None, pname := [],
     pchan := None, pkilled := False, xstate := 0, pstate := UNUSED, trace_mask := 0,
     page_faults := 0, has_region := False, region := \<lparr>vr_start = 0, vr_size = 0\<rparr>\<rparr>"

text \<open>\<^verbatim>\<open>region.size / PGSIZE\<close> divides an \<open>int\<close> by an \<open>int\<close>, then widens to \<open>uint64\<close>.\<close>

definition region_pages :: "vregion \<Rightarrow> u64" where
  "region_pages r = of_int (sint (vr_size r) sdiv 4096)"

definition freeproc :: "nat \<Rightarrow> 'z kern_scheme \<Rightarrow> 'z kern_scheme kres" where
  "freeproc i s =
     kbind (if trapframe (procs s i) \<noteq> 0 then kfree (trapframe (procs s i)) s else Inr s) (\<lambda>s1.
     let s2 = upd_proc i (\<lambda>p. p\<lparr>trapframe := 0\<rparr>) s1; p = procs s2 i in
     kbind
       (if pagetable p \<noteq> 0 then
          kbind (if has_region p
                 then uvmunmap (pagetable p) (vr_start (region p)) (region_pages (region p)) True s2
                 else Inr s2)
            (proc_freepagetable (pagetable p) (sz p))
        else Inr s2)
       (\<lambda>s3. Inr (upd_proc i clear_proc s3)))"

definition allocproc :: "'z kern_scheme \<Rightarrow> (nat option \<times> 'z kern_scheme) kres" where
  "allocproc s =
     (case find (\<lambda>i. pstate (procs s i) = UNUSED) [0..<NPROC] of
        None \<Rightarrow> Inr (None, s)
      | Some i \<Rightarrow>
          let (np, s1) = allocpid s;
              s2 = upd_proc i (\<lambda>p. p\<lparr>pid := np, pstate := USED, trace_mask := 0, page_faults := 0,
                has_region := False, region := \<lparr>vr_start = 0, vr_size = 0\<rparr>\<rparr>) s1;
              (tf, s3) = kalloc s2;
              s4 = upd_proc i (\<lambda>p. p\<lparr>trapframe := tf\<rparr>) s3 in
          if tf = 0 then kbind (freeproc i s4) (\<lambda>s5. Inr (None, s5))
          else kbind (proc_pagetable tf s4) (\<lambda>(pt, s5).
            let s6 = upd_proc i (\<lambda>p. p\<lparr>pagetable := pt\<rparr>) s5 in
            if pt = 0 then kbind (freeproc i s6) (\<lambda>s7. Inr (None, s7))
            else Inr (Some i, upd_proc i (\<lambda>p. p\<lparr>pcontext :=
              \<lparr>ctx_ra = forkret_addr s6, ctx_sp = kstack p + PGSIZE, ctx_s = replicate 12 0\<rparr>\<rparr>) s6)))"

section \<open>Growing memory\<close>

definition growproc :: "i32 \<Rightarrow> 'z kern_scheme \<Rightarrow> (int \<times> 'z kern_scheme) kres" where
  "growproc n s =
     (let p = myproc s; sz0 = sz p;
          set = (\<lambda>v s'. upd_proc (curp s) (\<lambda>p. p\<lparr>sz := v\<rparr>) s') in
      if sint n > 0 then
        if sz0 + scast n > TRAPFRAME then Inr (-1, s)
        else kbind (uvmalloc (pagetable p) sz0 (sz0 + scast n) PTE_W s) (\<lambda>(v, s1).
          if v = 0 then Inr (-1, s1) else Inr (0, set v s1))
      else if sint n < 0 then
        kbind (uvmdealloc (pagetable p) sz0 (sz0 + scast n) s) (\<lambda>(v, s1). Inr (0, set v s1))
      else Inr (0, set sz0 s))"

section \<open>Sleep, wakeup and kill\<close>

text \<open>\<open>go_to_sleep\<close> is \<open>sleep\<close> up to the switch to the scheduler, \<open>wake_tidy\<close> the rest.\<close>

definition go_to_sleep :: "chan \<Rightarrow> 'z kern_scheme \<Rightarrow> 'z kern_scheme" where
  "go_to_sleep ch s = upd_proc (curp s) (\<lambda>p. p\<lparr>pchan := Some ch, pstate := SLEEPING\<rparr>) s"

definition wake_tidy :: "'z kern_scheme \<Rightarrow> 'z kern_scheme" where
  "wake_tidy s = upd_proc (curp s) (\<lambda>p. p\<lparr>pchan := None\<rparr>) s"

text \<open>The iterations of the loop of \<open>wakeup\<close> are independent: entry \<open>i\<close> is changed by its own only.\<close>

definition wakeup :: "chan \<Rightarrow> 'z kern_scheme \<Rightarrow> 'z kern_scheme" where
  "wakeup ch s = s\<lparr>procs := (\<lambda>i.
     if i < NPROC \<and> i \<noteq> curp s \<and> pstate (procs s i) = SLEEPING \<and> pchan (procs s i) = Some ch
     then (procs s i)\<lparr>pstate := RUNNABLE\<rparr> else procs s i)\<rparr>"

lemma wakeup_simps [simp]:
  "curp (wakeup ch s) = curp s" "pid (procs (wakeup ch s) i) = pid (procs s i)"
  "pmem (wakeup ch s) = pmem s" "kern.more (wakeup ch s) = kern.more s"
  "myproc (wakeup ch s) = myproc s"
  by (simp_all add: wakeup_def myproc_def)

definition kkill :: "i32 \<Rightarrow> 'z kern_scheme \<Rightarrow> int \<times> 'z kern_scheme" where
  "kkill k s =
     (case find (\<lambda>i. pid (procs s i) = k) [0..<NPROC] of
        None \<Rightarrow> (-1, s)
      | Some i \<Rightarrow> (0, upd_proc i (\<lambda>p. p\<lparr>pkilled := True,
          pstate := (if pstate p = SLEEPING then RUNNABLE else pstate p)\<rparr>) s))"

definition setkilled :: "nat \<Rightarrow> 'z kern_scheme \<Rightarrow> 'z kern_scheme" where
  "setkilled i s = upd_proc i (\<lambda>p. p\<lparr>pkilled := True\<rparr>) s"

definition killed :: "nat \<Rightarrow> 'z kern_scheme \<Rightarrow> bool" where
  "killed i s = pkilled (procs s i)"

definition findproc :: "i32 \<Rightarrow> 'z kern_scheme \<Rightarrow> nat option" where
  "findproc k s = find (\<lambda>i. pstate (procs s i) \<noteq> UNUSED \<and> pid (procs s i) = k) [0..<NPROC]"

definition yield_cpu :: "'z kern_scheme \<Rightarrow> 'z kern_scheme" where
  "yield_cpu s = upd_proc (curp s) (\<lambda>p. p\<lparr>pstate := RUNNABLE\<rparr>) s"

text \<open>
  One pass of the scheduler's scan at entry \<open>i\<close>: a runnable process is marked running and
  becomes the current one.
\<close>

definition schedule :: "nat \<Rightarrow> 'z kern_scheme \<Rightarrow> 'z kern_scheme option" where
  "schedule i s =
     (if i < NPROC \<and> pstate (procs s i) = RUNNABLE
      then Some (upd_proc i (\<lambda>p. p\<lparr>pstate := RUNNING\<rparr>) (s\<lparr>curp := i\<rparr>)) else None)"

section \<open>Copies to and from either address space\<close>

text \<open>
  A destination or source is a user address, a kernel (physical) address, or a kernel
  variable, whose contents are values of the model.
\<close>

datatype kdst = UserDst u64 | MemDst u64 | VarDst

datatype ksrc = UserSrc u64 | VarSrc "byte list"

definition either_copyout ::
  "kdst \<Rightarrow> byte list \<Rightarrow> 'z kern_scheme \<Rightarrow> (int \<times> 'z kern_scheme) kres" where
  "either_copyout dst src s =
     (let p = myproc s in
      case dst of
        UserDst va \<Rightarrow> copyout (pagetable p) (sz p) (pagetable p) va src (of_nat (length src)) s
      | MemDst a \<Rightarrow> Inr (0, s\<lparr>pmem := poke a src (pmem s)\<rparr>)
      | VarDst \<Rightarrow> Inr (0, s))"

definition dst_add :: "kdst \<Rightarrow> nat \<Rightarrow> kdst" where
  "dst_add dst n = (case dst of UserDst va \<Rightarrow> UserDst (va + of_nat n)
     | MemDst a \<Rightarrow> MemDst (a + of_nat n) | VarDst \<Rightarrow> VarDst)"

definition either_copyin ::
  "ksrc \<Rightarrow> nat \<Rightarrow> 'z kern_scheme \<Rightarrow> (int \<times> byte list \<times> 'z kern_scheme) kres" where
  "either_copyin src len s =
     (let p = myproc s in
      case src of
        UserSrc va \<Rightarrow> copyin (pagetable p) (sz p) (pagetable p) va (of_nat len) s
      | VarSrc bs \<Rightarrow> Inr (0, take len bs, s))"

definition src_add :: "ksrc \<Rightarrow> nat \<Rightarrow> ksrc" where
  "src_add src n = (case src of UserSrc va \<Rightarrow> UserSrc (va + of_nat n) | VarSrc bs \<Rightarrow> VarSrc (drop n bs))"

section \<open>Sleep locks\<close>

record sleeplock =
  sl_locked :: bool
  sl_pid :: i32

definition initsleeplock :: sleeplock where
  "initsleeplock = \<lparr>sl_locked = False, sl_pid = 0\<rparr>"

definition acquiresleep :: "chan \<Rightarrow> sleeplock \<Rightarrow> 'z kern_scheme \<Rightarrow> sleeplock kres" where
  "acquiresleep ch lk s =
     (if sl_locked lk then Inl (Sleep ch)
      else Inr (lk\<lparr>sl_locked := True, sl_pid := pid (myproc s)\<rparr>))"

definition releasesleep :: "chan \<Rightarrow> sleeplock \<Rightarrow> 'z kern_scheme \<Rightarrow> sleeplock \<times> 'z kern_scheme" where
  "releasesleep ch lk s = (lk\<lparr>sl_locked := False, sl_pid := 0\<rparr>, wakeup ch s)"

definition holdingsleep :: "sleeplock \<Rightarrow> 'z kern_scheme \<Rightarrow> bool" where
  "holdingsleep lk s \<longleftrightarrow> sl_locked lk \<and> sl_pid lk = pid (myproc s)"

end
