(* ===== verification/Bio.thy ===== *)
theory Bio
  imports ProcBase
begin

text \<open>
  \<^verbatim>\<open>kernel/bio.c\<close>: the buffer cache. The buffers \<^verbatim>\<open>bcache.buf[NBUF]\<close> are indexed by number,
  the list head \<^verbatim>\<open>bcache.head\<close> is index \<open>NBUF\<close>; the doubly linked LRU list is kept with its
  \<open>prev\<close> and \<open>next\<close> pointers, so a scan of the list is a \<open>partial_function\<close>. A block is the
  contents of its \<open>BSIZE\<close> bytes. A disk transfer is its effect on the
  disk, \<open>disk_rw\<close>, which \<^verbatim>\<open>virtio_disk_rw\<close> is shown to refine in the theory of the driver; \<open>dwrites\<close> is the history of the writes, oldest first, for the crash arguments.

  The invariant \<open>bcache_inv\<close>: the pointers form one cyclic list of all buffers, no two
  buffers cache the same block of the same device unless one is unused, and every clean
  cached block agrees with the disk. \<open>view\<close> is the block a reader sees.
\<close>

section \<open>State\<close>

definition BSIZE :: nat where [simp]: "BSIZE = 1024"

record buf =
  bvalid :: bool
  bdev :: u32
  blockno :: u32
  block_lock :: sleeplock
  refcnt :: u32
  bprev :: nat
  bnext :: nat
  bdata :: block

record bio = kern +
  bufs :: "nat \<Rightarrow> buf"
  disk :: "u32 \<Rightarrow> block"
  dwrites :: "(u32 \<times> block) list"

definition bhead :: nat where
  "bhead = NBUF"

definition upd_buf :: "nat \<Rightarrow> (buf \<Rightarrow> buf) \<Rightarrow> 'z bio_scheme \<Rightarrow> 'z bio_scheme" where
  "upd_buf b f s = s\<lparr>bufs := (bufs s)(b := f (bufs s b))\<rparr>"

definition disk_rw :: "nat \<Rightarrow> bool \<Rightarrow> 'z bio_scheme \<Rightarrow> 'z bio_scheme" where
  "disk_rw b write s =
     (let bn = blockno (bufs s b) in
      if write then s\<lparr>disk := (disk s)(bn := bdata (bufs s b)),
                      dwrites := dwrites s @ [(bn, bdata (bufs s b))]\<rparr>
      else upd_buf b (\<lambda>x. x\<lparr>bdata := disk s bn\<rparr>) s)"

section \<open>Operations\<close>

definition push_front :: "nat \<Rightarrow> (nat \<Rightarrow> buf) \<Rightarrow> nat \<Rightarrow> buf" where
  "push_front b f =
     (let f1 = f(b := (f b)\<lparr>bnext := bnext (f bhead), bprev := bhead\<rparr>);
          h = bnext (f1 bhead);
          f2 = f1(h := (f1 h)\<lparr>bprev := b\<rparr>)
      in f2(bhead := (f2 bhead)\<lparr>bnext := b\<rparr>))"

definition unlink_buf :: "nat \<Rightarrow> (nat \<Rightarrow> buf) \<Rightarrow> nat \<Rightarrow> buf" where
  "unlink_buf b f =
     (let n = bnext (f b); f1 = f(n := (f n)\<lparr>bprev := bprev (f b)\<rparr>);
          p = bprev (f1 b)
      in f1(p := (f1 p)\<lparr>bnext := bnext (f1 b)\<rparr>))"

definition binit_buf :: "nat \<Rightarrow> (nat \<Rightarrow> buf) \<Rightarrow> nat \<Rightarrow> buf" where
  "binit_buf b f = push_front b (f(b := (f b)\<lparr>block_lock := initsleeplock\<rparr>))"

definition binit :: "'z bio_scheme \<Rightarrow> 'z bio_scheme" where
  "binit s =
     (let f0 = (bufs s)(bhead := (bufs s bhead)\<lparr>bprev := bhead, bnext := bhead\<rparr>) in
      s\<lparr>bufs := fold binit_buf [0..<NBUF] f0\<rparr>)"

partial_function (option) scan_cached ::
  "u32 \<Rightarrow> u32 \<Rightarrow> (nat \<Rightarrow> buf) \<Rightarrow> nat \<Rightarrow> nat option option" where
  "scan_cached dev bn f b =
     (if b = bhead then Some None
      else if bdev (f b) = dev \<and> blockno (f b) = bn then Some (Some b)
      else scan_cached dev bn f (bnext (f b)))"

partial_function (option) scan_unused :: "(nat \<Rightarrow> buf) \<Rightarrow> nat \<Rightarrow> nat option option" where
  "scan_unused f b =
     (if b = bhead then Some None
      else if refcnt (f b) = 0 then Some (Some b)
      else scan_unused f (bprev (f b)))"

definition lock_buf :: "nat \<Rightarrow> 'z bio_scheme \<Rightarrow> 'z bio_scheme kres" where
  "lock_buf b s =
     kbind (acquiresleep (ChBufLock b) (block_lock (bufs s b)) s)
       (\<lambda>lk. Inr (upd_buf b (\<lambda>x. x\<lparr>block_lock := lk\<rparr>) s))"

definition bget :: "u32 \<Rightarrow> u32 \<Rightarrow> 'z bio_scheme \<Rightarrow> (nat \<times> 'z bio_scheme) kres" where
  "bget dev bn s =
     (case scan_cached dev bn (bufs s) (bnext (bufs s bhead)) of
        None \<Rightarrow> Inl Diverge
      | Some (Some b) \<Rightarrow>
          kbind (lock_buf b (upd_buf b (\<lambda>x. x\<lparr>refcnt := refcnt x + 1\<rparr>) s)) (\<lambda>s1. Inr (b, s1))
      | Some None \<Rightarrow>
          (case scan_unused (bufs s) (bprev (bufs s bhead)) of
             None \<Rightarrow> Inl Diverge
           | Some None \<Rightarrow> kpanic ''bget: no buffers''
           | Some (Some b) \<Rightarrow>
               kbind (lock_buf b (upd_buf b (\<lambda>x. x\<lparr>bdev := dev, blockno := bn, bvalid := False,
                 refcnt := 1\<rparr>) s)) (\<lambda>s1. Inr (b, s1))))"

definition bread :: "u32 \<Rightarrow> u32 \<Rightarrow> 'z bio_scheme \<Rightarrow> (nat \<times> 'z bio_scheme) kres" where
  "bread dev bn s =
     kbind (bget dev bn s) (\<lambda>(b, s1).
       if \<not> bvalid (bufs s1 b)
       then Inr (b, upd_buf b (\<lambda>x. x\<lparr>bvalid := True\<rparr>) (disk_rw b False s1))
       else Inr (b, s1))"

definition bwrite :: "nat \<Rightarrow> 'z bio_scheme \<Rightarrow> 'z bio_scheme kres" where
  "bwrite b s =
     (if \<not> holdingsleep (block_lock (bufs s b)) s then kpanic ''bwrite''
      else Inr (disk_rw b True s))"

definition brelse :: "nat \<Rightarrow> 'z bio_scheme \<Rightarrow> 'z bio_scheme kres" where
  "brelse b s =
     (if \<not> holdingsleep (block_lock (bufs s b)) s then kpanic ''brelse''
      else
        let (lk, s1) = releasesleep (ChBufLock b) (block_lock (bufs s b)) s;
            s2 = upd_buf b (\<lambda>x. x\<lparr>block_lock := lk, refcnt := refcnt x - 1\<rparr>) s1 in
        if refcnt (bufs s2 b) = 0
        then Inr (s2\<lparr>bufs := push_front b (unlink_buf b (bufs s2))\<rparr>)
        else Inr s2)"

definition bpin :: "nat \<Rightarrow> 'z bio_scheme \<Rightarrow> 'z bio_scheme" where
  "bpin b s = upd_buf b (\<lambda>x. x\<lparr>refcnt := refcnt x + 1\<rparr>) s"

definition bunpin :: "nat \<Rightarrow> 'z bio_scheme \<Rightarrow> 'z bio_scheme" where
  "bunpin b s = upd_buf b (\<lambda>x. x\<lparr>refcnt := refcnt x - 1\<rparr>) s"

end
