(* ===== verification/BioInv.thy ===== *)
theory BioInv
  imports Bio
begin

text \<open>
  The buffer cache keeps its promises. The \<open>prev\<close>/\<open>next\<close> pointers implement a list kept in
  order of use (\<open>lru\<close>); a scan of the pointers is a search in that list. \<open>binv\<close> is the cache
  invariant. Clients see the cache through \<open>view\<close> (the contents of a block), \<open>refs\<close> (its
  reference count) and \<open>lockd\<close>; the lemmas \<open>bread_spec\<close>, \<open>bwrite_spec\<close>, \<open>brelse_spec\<close>,
  \<open>bpin_spec\<close> and \<open>bunpin_spec\<close> say what each operation does to them.
\<close>

section \<open>Doubly linked chains\<close>

primrec chain :: "(nat \<Rightarrow> nat) \<Rightarrow> (nat \<Rightarrow> nat) \<Rightarrow> nat \<Rightarrow> nat list \<Rightarrow> nat \<Rightarrow> bool" where
  "chain nx pv u [] w \<longleftrightarrow> nx u = w \<and> pv w = u"
| "chain nx pv u (x # xs) w \<longleftrightarrow> nx u = x \<and> pv x = u \<and> chain nx pv x xs w"

lemma chain_append:
  "chain nx pv u (xs @ x # ys) w \<longleftrightarrow> chain nx pv u xs x \<and> chain nx pv x ys w"
  by (induction xs arbitrary: u) auto

lemma chain_snoc: "chain nx pv u (xs @ [x]) w \<longleftrightarrow> chain nx pv u xs x \<and> nx x = w \<and> pv w = x"
  using chain_append [of nx pv u xs x "[]" w] by simp

lemma chain_rev: "chain nx pv u xs w \<longleftrightarrow> chain pv nx w (rev xs) u"
  by (induction xs arbitrary: u) (auto simp: chain_snoc)

lemma chain_cong:
  assumes "chain nx pv u xs w"
    and "\<And>x. x \<in> insert u (set xs) \<Longrightarrow> nx' x = nx x"
    and "\<And>x. x \<in> insert w (set xs) \<Longrightarrow> pv' x = pv x"
  shows "chain nx' pv' u xs w"
  using assms by (induction xs arbitrary: u) auto

lemma chain_unlink:
  assumes ch: "chain nx pv h (as @ b # cs) h" and d: "distinct (h # as @ b # cs)"
  shows "chain (nx(pv b := nx b)) (pv(nx b := pv b)) h (as @ cs) h"
proof -
  have l: "chain nx pv h as b" and r: "chain nx pv b cs h"
    using ch by (simp_all add: chain_append)
  have left: "chain (nx(pv b := nx b)) pv' h as (nx b)"
    if "\<And>x. x \<in> set as \<Longrightarrow> pv' x = pv x" and "pv' (nx b) = pv b" for pv'
  proof (cases as rule: rev_cases)
    case Nil
    with l that show ?thesis by simp
  next
    case (snoc as' p)
    with l have p: "nx p = b" "pv b = p" "chain nx pv h as' p" by (simp_all add: chain_snoc)
    have "chain (nx(p := nx b)) pv' h as' p"
      by (rule chain_cong [OF p(3)]) (use d snoc that(1) in auto)
    with p that(2) snoc show ?thesis by (simp add: chain_snoc)
  qed
  show ?thesis
  proof (cases cs)
    case Nil
    with r have h: "nx b = h" by simp
    have "chain (nx(pv b := nx b)) (pv(nx b := pv b)) h as (nx b)"
      by (rule left) (use d h in auto)
    with Nil h show ?thesis by simp
  next
    case (Cons n cs')
    with r have n: "nx b = n" "pv n = b" "chain nx pv n cs' h" by simp_all
    have pb: "pv b \<in> insert h (set as)" using l by (cases as rule: rev_cases) (auto simp: chain_snoc)
    have "chain (nx(pv b := nx b)) (pv(nx b := pv b)) n cs' h"
      by (rule chain_cong [OF n(3)]) (use d Cons n(1) pb in auto)
    moreover have "chain (nx(pv b := nx b)) (pv(nx b := pv b)) h as n"
      unfolding n(1) [symmetric] by (rule left) (use d n(1) Cons in auto)
    ultimately show ?thesis using Cons by (simp add: chain_append)
  qed
qed

lemma chain_push:
  assumes ch: "chain nx pv h xs h" and b: "b \<noteq> h" "b \<notin> set xs" and d: "distinct (h # xs)"
  shows "chain (nx(b := nx h, h := b)) (pv(b := h, nx h := b)) h (b # xs) h"
proof (cases xs)
  case Nil
  with ch b show ?thesis by auto
next
  case (Cons x ys)
  with ch have x: "nx h = x" "chain nx pv x ys h" by simp_all
  have "chain (nx(b := nx h, h := b)) (pv(b := h, nx h := b)) x ys h"
    by (rule chain_cong [OF x(2)]) (use b d Cons x(1) in auto)
  with x(1) b Cons d show ?thesis by auto
qed

section \<open>The LRU list\<close>

definition lru :: "(nat \<Rightarrow> buf) \<Rightarrow> nat list \<Rightarrow> bool" where
  "lru f xs \<longleftrightarrow> chain (\<lambda>b. bnext (f b)) (\<lambda>b. bprev (f b)) bhead xs bhead \<and>
     distinct xs \<and> set xs = {..<NBUF}"

lemma bhead_notin: "lru f xs \<Longrightarrow> bhead \<notin> set xs"
  by (auto simp: lru_def bhead_def)

lemma lru_cong:
  assumes "lru f xs" and "\<And>b. bnext (g b) = bnext (f b)" and "\<And>b. bprev (g b) = bprev (f b)"
  shows "lru g xs"
  using assms by (simp add: lru_def)

lemma scan_cached_chain:
  assumes "chain (\<lambda>b. bnext (f b)) pv u xs bhead" and "bhead \<notin> set xs"
  shows "scan_cached dev bn f (bnext (f u)) = Some (find (\<lambda>b. bdev (f b) = dev \<and> blockno (f b) = bn) xs)"
  using assms
proof (induction xs arbitrary: u)
  case Nil
  then show ?case by (simp add: scan_cached.simps [of _ _ _ bhead])
next
  case (Cons x xs)
  then show ?case by (auto simp: scan_cached.simps [of dev bn f x])
qed

lemma scan_unused_chain:
  assumes "chain (\<lambda>b. bprev (f b)) pv u xs bhead" and "bhead \<notin> set xs"
  shows "scan_unused f (bprev (f u)) = Some (find (\<lambda>b. refcnt (f b) = 0) xs)"
  using assms
proof (induction xs arbitrary: u)
  case Nil
  then show ?case by (simp add: scan_unused.simps [of _ bhead])
next
  case (Cons x xs)
  then show ?case by (auto simp: scan_unused.simps [of f x])
qed

lemma scans:
  assumes "lru f xs"
  shows "scan_cached dev bn f (bnext (f bhead)) =
      Some (find (\<lambda>b. bdev (f b) = dev \<and> blockno (f b) = bn) xs)"
    and "scan_unused f (bprev (f bhead)) = Some (find (\<lambda>b. refcnt (f b) = 0) (rev xs))"
proof -
  have ch: "chain (\<lambda>b. bnext (f b)) (\<lambda>b. bprev (f b)) bhead xs bhead" using assms by (simp add: lru_def)
  from scan_cached_chain [OF ch bhead_notin [OF assms]]
  show "scan_cached dev bn f (bnext (f bhead)) =
      Some (find (\<lambda>b. bdev (f b) = dev \<and> blockno (f b) = bn) xs)" .
  from ch have "chain (\<lambda>b. bprev (f b)) (\<lambda>b. bnext (f b)) bhead (rev xs) bhead" by (simp only: chain_rev [symmetric])
  from scan_unused_chain [OF this] bhead_notin [OF assms]
  show "scan_unused f (bprev (f bhead)) = Some (find (\<lambda>b. refcnt (f b) = 0) (rev xs))" by simp
qed

definition payload :: "buf \<Rightarrow> bool \<times> u32 \<times> u32 \<times> sleeplock \<times> u32 \<times> block" where
  "payload x = (bvalid x, bdev x, blockno x, block_lock x, refcnt x, bdata x)"

lemma push_front_links:
  assumes "b \<noteq> bhead"
  shows "(\<lambda>x. bnext (push_front b f x)) = (\<lambda>y. bnext (f y))(b := bnext (f bhead), bhead := b)"
    and "(\<lambda>x. bprev (push_front b f x)) = (\<lambda>y. bprev (f y))(b := bhead, bnext (f bhead) := b)"
    and "payload (push_front b f x) = payload (f x)"
  using assms by (auto simp: push_front_def Let_def payload_def fun_eq_iff)

lemma unlink_links:
  assumes "bnext (f b) \<noteq> b"
  shows "(\<lambda>x. bnext (unlink_buf b f x)) = (\<lambda>y. bnext (f y))(bprev (f b) := bnext (f b))"
    and "(\<lambda>x. bprev (unlink_buf b f x)) = (\<lambda>y. bprev (f y))(bnext (f b) := bprev (f b))"
    and "payload (unlink_buf b f x) = payload (f x)"
  using assms by (auto simp: unlink_buf_def Let_def payload_def fun_eq_iff)

text \<open>Moving a buffer to the front of the pointer list moves it to the front of the list.\<close>

lemma lru_move_front:
  assumes "lru f xs" and "b < NBUF"
  shows "lru (push_front b (unlink_buf b f)) (b # remove1 b xs)"
    and "payload (push_front b (unlink_buf b f) x) = payload (f x)"
proof -
  let ?nx = "\<lambda>b. bnext (f b)" and ?pv = "\<lambda>b. bprev (f b)"
  have ch: "chain ?nx ?pv bhead xs bhead" and d: "distinct xs" and st: "set xs = {..<NBUF}"
    using assms(1) by (auto simp: lru_def)
  from assms(2) st obtain as cs where xs: "xs = as @ b # cs" by (metis lessThan_iff split_list)
  have bh: "b \<noteq> bhead" "bhead \<notin> set xs" using assms bhead_notin by (auto simp: bhead_def)
  have d': "distinct (bhead # as @ b # cs)" using d bh xs by auto
  have "bnext (f b) \<noteq> b"
    using ch d' unfolding xs chain_append by (cases cs) auto
  note ul = unlink_links [where f = f and b = b, OF this]
  note pf = push_front_links [OF bh(1), of "unlink_buf b f"]
  let ?nx1 = "?nx(bprev (f b) := bnext (f b))" and ?pv1 = "?pv(bnext (f b) := bprev (f b))"
  have rm: "remove1 b xs = as @ cs" using d xs by (simp add: remove1_append)
  have c1: "chain ?nx1 ?pv1 bhead (as @ cs) bhead"
    using chain_unlink [OF ch [unfolded xs] d'] by simp
  have "chain (?nx1(b := ?nx1 bhead, bhead := b)) (?pv1(b := bhead, ?nx1 bhead := b)) bhead (b # as @ cs) bhead"
    by (rule chain_push [OF c1 bh(1)]) (use d' in auto)
  moreover have "?nx1 bhead = bnext (unlink_buf b f bhead)" using ul(1) by (metis (no_types))
  ultimately have "chain (\<lambda>x. bnext (push_front b (unlink_buf b f) x))
      (\<lambda>x. bprev (push_front b (unlink_buf b f) x)) bhead (b # as @ cs) bhead"
    unfolding pf(1,2) ul(1,2) by simp
  then show "lru (push_front b (unlink_buf b f)) (b # remove1 b xs)"
    using d' st xs unfolding lru_def rm by auto
  show "payload (push_front b (unlink_buf b f) x) = payload (f x)" using pf(3) ul(3) by simp
qed

lemma lru_push:
  assumes "chain (\<lambda>b. bnext (f b)) (\<lambda>b. bprev (f b)) bhead xs bhead" and "distinct (bhead # xs)"
    and "b \<noteq> bhead" and "b \<notin> set xs"
  shows "chain (\<lambda>x. bnext (push_front b f x)) (\<lambda>x. bprev (push_front b f x)) bhead (b # xs) bhead"
  unfolding push_front_links [OF assms(3)] by (rule chain_push) (use assms in auto)

lemma binit_buf_chain:
  assumes "chain (\<lambda>b. bnext (f b)) (\<lambda>b. bprev (f b)) bhead xs bhead" and "distinct (bhead # xs)"
    and "b \<noteq> bhead" and "b \<notin> set xs"
  shows "chain (\<lambda>x. bnext (binit_buf b f x)) (\<lambda>x. bprev (binit_buf b f x)) bhead (b # xs) bhead"
proof -
  let ?h = "f(b := (f b)\<lparr>block_lock := initsleeplock\<rparr>)"
  have eq: "(\<lambda>b. bnext (?h b)) = (\<lambda>b. bnext (f b))" "(\<lambda>b. bprev (?h b)) = (\<lambda>b. bprev (f b))"
    by auto
  have "chain (\<lambda>b. bnext (?h b)) (\<lambda>b. bprev (?h b)) bhead xs bhead" unfolding eq by (rule assms(1))
  from lru_push [OF this assms(2-4)] show ?thesis by (simp only: binit_buf_def)
qed

lemma binit_lru: "lru (bufs (binit s)) (rev [0..<NBUF])"
proof -
  define f where "f = (bufs s)(bhead := (bufs s bhead)\<lparr>bprev := bhead, bnext := bhead\<rparr>)"
  have "chain (\<lambda>b. bnext (fold binit_buf [0..<n] f b)) (\<lambda>b. bprev (fold binit_buf [0..<n] f b)) bhead
      (rev [0..<n]) bhead" if "n \<le> NBUF" for n
    using that
  proof (induction n)
    case 0
    show ?case by (simp add: f_def)
  next
    case (Suc n)
    from Suc.prems have "n \<noteq> bhead" by (simp add: bhead_def)
    with Suc binit_buf_chain [of "fold binit_buf [0..<n] f" "rev [0..<n]" n] show ?case
      by (simp add: bhead_def)
  qed
  then show ?thesis by (auto simp: lru_def binit_def f_def [symmetric])
qed

section \<open>The cache invariant and the client's view\<close>

definition uniq :: "(nat \<Rightarrow> buf) \<Rightarrow> bool" where
  "uniq f \<longleftrightarrow> (\<forall>b < NBUF. \<forall>c < NBUF. b \<noteq> c \<longrightarrow> bdev (f b) \<noteq> 0 \<longrightarrow> bdev (f c) = bdev (f b) \<longrightarrow>
     blockno (f c) \<noteq> blockno (f b))"

definition clean :: "(u32 \<Rightarrow> block) \<Rightarrow> buf \<Rightarrow> bool" where
  "clean dsk x \<longleftrightarrow> (bdev x \<noteq> 0 \<longrightarrow> bvalid x \<longrightarrow> bdata x = dsk (blockno x))"

definition binv :: "'z bio_scheme \<Rightarrow> bool" where
  "binv s \<longleftrightarrow> (\<exists>xs. lru (bufs s) xs) \<and> uniq (bufs s) \<and>
     (\<forall>b < NBUF. bdev (bufs s b) = 0 \<or> bdev (bufs s b) = ROOTDEV) \<and>
     (\<forall>b < NBUF. refcnt (bufs s b) = 0 \<longrightarrow>
        \<not> sl_locked (block_lock (bufs s b)) \<and> clean (disk s) (bufs s b))"

definition bfind :: "(nat \<Rightarrow> buf) \<Rightarrow> u32 \<Rightarrow> u32 \<Rightarrow> nat option" where
  "bfind f dev bn = find (\<lambda>b. bdev (f b) = dev \<and> blockno (f b) = bn) [0..<NBUF]"

definition view :: "'z bio_scheme \<Rightarrow> u32 \<Rightarrow> block" where
  "view s bn =
     (case bfind (bufs s) ROOTDEV bn of
        None \<Rightarrow> disk s bn
      | Some b \<Rightarrow> if bvalid (bufs s b) then bdata (bufs s b) else disk s bn)"

definition refs :: "'z bio_scheme \<Rightarrow> u32 \<Rightarrow> nat" where
  "refs s bn = (case bfind (bufs s) ROOTDEV bn of None \<Rightarrow> 0 | Some b \<Rightarrow> unat (refcnt (bufs s b)))"

definition lockd :: "'z bio_scheme \<Rightarrow> u32 \<Rightarrow> bool" where
  "lockd s bn = (case bfind (bufs s) ROOTDEV bn of
     None \<Rightarrow> False | Some b \<Rightarrow> sl_locked (block_lock (bufs s b)))"

definition unused_bufs :: "(nat \<Rightarrow> buf) \<Rightarrow> nat set" where
  "unused_bufs f = {b. b < NBUF \<and> refcnt (f b) = 0}"

lemma find_at_most_one:
  assumes "\<And>x y. x \<in> set xs \<Longrightarrow> y \<in> set xs \<Longrightarrow> P x \<Longrightarrow> P y \<Longrightarrow> x = y"
  shows "find P xs = Some b \<longleftrightarrow> b \<in> set xs \<and> P b"
  using assms by (induction xs) auto

lemma find_SomeD: "find P xs = Some b \<Longrightarrow> b \<in> set xs \<and> P b"
  by (induction xs) (auto split: if_splits)

lemma find_None: "find P xs = None \<longleftrightarrow> (\<forall>x \<in> set xs. \<not> P x)"
  by (induction xs) auto

lemma uniqD:
  "uniq f \<Longrightarrow> b < NBUF \<Longrightarrow> c < NBUF \<Longrightarrow> bdev (f b) = dev \<Longrightarrow> bdev (f c) = dev \<Longrightarrow> dev \<noteq> 0 \<Longrightarrow>
   blockno (f b) = blockno (f c) \<Longrightarrow> b = c"
  unfolding uniq_def by metis

lemma bfind_Some:
  assumes "uniq f" and "dev \<noteq> 0"
  shows "bfind f dev bn = Some b \<longleftrightarrow> b < NBUF \<and> bdev (f b) = dev \<and> blockno (f b) = bn"
  unfolding bfind_def by (subst find_at_most_one) (use uniqD [OF assms(1)] assms(2) in auto)

lemma bfind_None: "bfind f dev bn = None \<longleftrightarrow> (\<forall>b < NBUF. \<not> (bdev (f b) = dev \<and> blockno (f b) = bn))"
  by (auto simp: bfind_def find_None)

lemma bfind_lru:
  assumes "lru f xs" and "uniq f" and "dev \<noteq> 0"
  shows "find (\<lambda>b. bdev (f b) = dev \<and> blockno (f b) = bn) xs = bfind f dev bn"
proof (cases "bfind f dev bn")
  case None
  then have "find (\<lambda>b. bdev (f b) = dev \<and> blockno (f b) = bn) xs = None"
    using assms(1) by (auto simp: bfind_None find_None lru_def)
  with None show ?thesis by simp
next
  case (Some b)
  then have b: "b < NBUF \<and> bdev (f b) = dev \<and> blockno (f b) = bn" using bfind_Some [OF assms(2,3)] by simp
  have "find (\<lambda>b. bdev (f b) = dev \<and> blockno (f b) = bn) xs = Some b"
    by (subst find_at_most_one) (use assms b uniqD [OF assms(2)] in \<open>auto simp: lru_def\<close>)
  with Some show ?thesis by simp
qed

text \<open>What \<open>bget\<close> does, in terms of the list.\<close>

lemma bget_hit:
  assumes "binv s" and "dev \<noteq> 0" and "bfind (bufs s) dev bn = Some b"
  shows "bget dev bn s = kbind (lock_buf b (upd_buf b (\<lambda>x. x\<lparr>refcnt := refcnt x + 1\<rparr>) s)) (\<lambda>s1. Inr (b, s1))"
proof -
  obtain xs where xs: "lru (bufs s) xs" and u: "uniq (bufs s)" using assms(1) by (auto simp: binv_def)
  show ?thesis by (simp add: bget_def scans [OF xs] bfind_lru [OF xs u assms(2)] assms(3))
qed

lemma bget_miss:
  assumes "binv s" and "dev \<noteq> 0" and "bfind (bufs s) dev bn = None"
  obtains (full) "unused_bufs (bufs s) = {}" "bget dev bn s = kpanic ''bget: no buffers''"
    | (recycle) b where "b \<in> unused_bufs (bufs s)"
      "bget dev bn s = kbind (lock_buf b (upd_buf b (\<lambda>x. x\<lparr>bdev := dev, blockno := bn,
         bvalid := False, refcnt := 1\<rparr>) s)) (\<lambda>s1. Inr (b, s1))"
proof -
  obtain xs where xs: "lru (bufs s) xs" and u: "uniq (bufs s)" using assms(1) by (auto simp: binv_def)
  have sx: "set (rev xs) = {..<NBUF}" using xs by (simp add: lru_def)
  note eq = bget_def [of dev bn s] scans [OF xs] bfind_lru [OF xs u assms(2)] assms(3)
  show thesis
  proof (cases "find (\<lambda>b. refcnt (bufs s b) = 0) (rev xs)")
    case None
    with sx have "unused_bufs (bufs s) = {}" by (auto simp: unused_bufs_def find_None)
    with None full show thesis by (simp add: eq)
  next
    case (Some b)
    then have "b \<in> set (rev xs)" "refcnt (bufs s b) = 0" by (auto dest: find_SomeD)
    with sx have "b \<in> unused_bufs (bufs s)" by (auto simp: unused_bufs_def)
    with Some recycle show thesis by (simp add: eq)
  qed
qed

section \<open>Specifications of the operations\<close>

lemma bfind_upd_same:
  assumes "bdev x = bdev (f b)" and "blockno x = blockno (f b)"
  shows "bfind (f(b := x)) d n = bfind f d n"
proof -
  have "(\<lambda>c. bdev ((f(b := x)) c) = d \<and> blockno ((f(b := x)) c) = n) = (\<lambda>c. bdev (f c) = d \<and> blockno (f c) = n)"
    using assms by auto
  then show ?thesis unfolding bfind_def by (rule arg_cong)
qed

lemma uniq_upd_same:
  assumes "uniq f" and "bdev x = bdev (f b)" and "blockno x = blockno (f b)"
  shows "uniq (f(b := x))"
  using assms unfolding uniq_def by (auto split: if_splits)

lemma obs_upd_same:
  fixes n :: u32
  assumes "uniq (bufs s)" and b: "b < NBUF"
    and x: "bdev x = bdev (bufs s b)" "blockno x = blockno (bufs s b)"
  defines "s' \<equiv> s\<lparr>bufs := (bufs s)(b := x)\<rparr>"
  defines "here \<equiv> bdev (bufs s b) = ROOTDEV \<and> n = blockno (bufs s b)"
  shows "view s' n = (if here then if bvalid x then bdata x else disk s n else view s n)"
    and "refs s' n = (if here then unat (refcnt x) else refs s n)"
    and "lockd s' n = (if here then sl_locked (block_lock x) else lockd s n)"
proof -
  have f: "bfind (bufs s') ROOTDEV n = bfind (bufs s) ROOTDEV n"
    using x by (simp add: s'_def bfind_upd_same)
  have h: "bfind (bufs s) ROOTDEV n = Some c \<Longrightarrow> c = b \<longleftrightarrow> here" for c
    using bfind_Some [OF assms(1) ROOTDEV_nonzero, of n c] bfind_Some [OF assms(1) ROOTDEV_nonzero, of n b] b
    unfolding here_def by auto
  have hb: "here \<Longrightarrow> bfind (bufs s) ROOTDEV n = Some b"
    using bfind_Some [OF assms(1) ROOTDEV_nonzero] b by (simp add: here_def)
  show "view s' n = (if here then if bvalid x then bdata x else disk s n else view s n)"
    "refs s' n = (if here then unat (refcnt x) else refs s n)"
    "lockd s' n = (if here then sl_locked (block_lock x) else lockd s n)"
    using h hb unfolding view_def refs_def lockd_def f
    by (auto simp: s'_def split: option.splits)
qed

lemma lru_upd:
  assumes "lru f xs" and "bnext x = bnext (f b)" and "bprev x = bprev (f b)"
  shows "lru (f(b := x)) xs"
  by (rule lru_cong [OF assms(1)]) (use assms in auto)

text \<open>A buffer held by the running process.\<close>

definition bheld :: "'z bio_scheme \<Rightarrow> u32 \<Rightarrow> nat \<Rightarrow> bool" where
  "bheld s bn b \<longleftrightarrow> b < NBUF \<and> bdev (bufs s b) = ROOTDEV \<and> blockno (bufs s b) = bn \<and>
     bvalid (bufs s b) \<and> holdingsleep (block_lock (bufs s b)) s \<and> refcnt (bufs s b) \<noteq> 0"

text \<open>
  The change of a client's view: one block's contents, reference count and lock. The other
  buffers held stay held, and the rest of the kernel changes only in the scheduling states
  of processes that were woken up (\<open>bio_frame\<close>).
\<close>

definition bio_frame :: "'z bio_scheme \<Rightarrow> 'z bio_scheme \<Rightarrow> bool" where
  "bio_frame s s' \<longleftrightarrow>
     s' = s\<lparr>procs := procs s', bufs := bufs s', disk := disk s', dwrites := dwrites s'\<rparr> \<and>
     (\<forall>i. procs s' i = (procs s i)\<lparr>pstate := pstate (procs s' i)\<rparr>)"

lemma myproc_bufs [simp]: "myproc (s\<lparr>bufs := g\<rparr>) = myproc s"
  by (simp add: myproc_def)

lemma bio_frame_bufs [simp]: "bio_frame s (s\<lparr>bufs := f\<rparr>)"
  by (simp add: bio_frame_def)

lemma bio_frame_refl [simp]: "bio_frame s s"
  by (simp add: bio_frame_def)

lemma bio_frame_trans:
  assumes "bio_frame s s1" and "bio_frame s1 s2"
  shows "bio_frame s s2"
proof -
  have 1: "s1 = s\<lparr>procs := procs s1, bufs := bufs s1, disk := disk s1, dwrites := dwrites s1\<rparr>"
    and 2: "s2 = s1\<lparr>procs := procs s2, bufs := bufs s2, disk := disk s2, dwrites := dwrites s2\<rparr>"
    and p: "\<And>i. procs s1 i = (procs s i)\<lparr>pstate := pstate (procs s1 i)\<rparr>"
      "\<And>i. procs s2 i = (procs s1 i)\<lparr>pstate := pstate (procs s2 i)\<rparr>"
    using assms by (auto simp: bio_frame_def)
  have "s2 = s\<lparr>procs := procs s2, bufs := bufs s2, disk := disk s2, dwrites := dwrites s2\<rparr>"
    by (subst 2, subst 1) simp
  moreover have "procs s2 i = (procs s i)\<lparr>pstate := pstate (procs s2 i)\<rparr>" for i
    by (subst p(2), subst p(1)) simp
  ultimately show ?thesis unfolding bio_frame_def by blast
qed

lemma bio_frameD:
  assumes "bio_frame s s'"
  shows "bio.more s' = bio.more s" "pmem s' = pmem s" "curp s' = curp s" "pid (myproc s') = pid (myproc s)"
proof -
  have 1: "s' = s\<lparr>procs := procs s', bufs := bufs s', disk := disk s', dwrites := dwrites s'\<rparr>"
    and p: "\<And>i. procs s' i = (procs s i)\<lparr>pstate := pstate (procs s' i)\<rparr>"
    using assms by (auto simp: bio_frame_def)
  show "bio.more s' = bio.more s" "pmem s' = pmem s" and c: "curp s' = curp s" by (subst 1, simp)+
  show "pid (myproc s') = pid (myproc s)" unfolding myproc_def c by (subst p) simp
qed

definition bstep ::
  "u32 \<Rightarrow> block \<Rightarrow> nat \<Rightarrow> bool \<Rightarrow> 'z bio_scheme \<Rightarrow> 'z bio_scheme \<Rightarrow> bool" where
  "bstep bn v r l s s' \<longleftrightarrow> binv s' \<and> bio_frame s s' \<and>
     (\<forall>n c. n \<noteq> bn \<longrightarrow> bheld s n c \<longrightarrow> bheld s' n c) \<and>
     (\<forall>n. view s' n = (if n = bn then v else view s n) \<and>
          refs s' n = (if n = bn then r else refs s n) \<and>
          lockd s' n = (if n = bn then l else lockd s n))"

lemma unat_inc: "unat x < 2 ^ 32 - 1 \<Longrightarrow> unat (x + 1 :: u32) = unat x + 1"
  by (simp add: unat_word_ariths)

lemma bread_hit:
  assumes inv: "binv s" and find: "bfind (bufs s) ROOTDEV bn = Some b"
    and free: "\<not> lockd s bn" and small: "refs s bn < 2 ^ 32 - 1"
  obtains f' where "bread ROOTDEV bn s = Inr (b, s\<lparr>bufs := f'\<rparr>)"
    "bheld (s\<lparr>bufs := f'\<rparr>) bn b" "bdata (f' b) = view s bn"
    "bstep bn (view s bn) (refs s bn + 1) True s (s\<lparr>bufs := f'\<rparr>)"
    "unused_bufs f' = unused_bufs (bufs s) - {b}"
proof -
  let ?x = "bufs s b"
  have u: "uniq (bufs s)" and b: "b < NBUF" "bdev ?x = ROOTDEV" "blockno ?x = bn"
    using inv find bfind_Some [of "bufs s" ROOTDEV bn b] by (auto simp: binv_def)
  have lk: "\<not> sl_locked (block_lock ?x)" using free find by (simp add: lockd_def)
  let ?y = "?x\<lparr>refcnt := refcnt ?x + 1, block_lock := (block_lock ?x)\<lparr>sl_locked := True, sl_pid := pid (myproc s)\<rparr>,
    bvalid := True, bdata := view s bn\<rparr>"
  have vw: "view s bn = (if bvalid ?x then bdata ?x else disk s bn)" by (simp add: view_def find)
  have run: "bread ROOTDEV bn s = Inr (b, s\<lparr>bufs := (bufs s)(b := ?y)\<rparr>)"
    using lk b(3) vw
    by (cases "bvalid ?x"; cases "bufs s b") (simp_all add: bread_def bget_hit [OF inv ROOTDEV_nonzero find] lock_buf_def
        acquiresleep_def upd_buf_def disk_rw_def Let_def fun_upd_upd)
  have inc: "unat (refcnt ?x + 1) = refs s bn + 1"
    using small find unat_inc [of "refcnt ?x"] by (simp add: refs_def)
  have nz: "refcnt ?y \<noteq> 0"
  proof
    assume "refcnt ?y = 0"
    with inc show False by simp
  qed
  note key = uniq_upd_same [where x = ?y and b = b, OF u] obs_upd_same [where x = ?y, OF u b(1)]
  obtain xs where xs: "lru (bufs s) xs" using inv by (auto simp: binv_def)
  have inv': "binv (s\<lparr>bufs := (bufs s)(b := ?y)\<rparr>)"
    unfolding binv_def using inv key(1) lru_upd [where x = ?y and b = b, OF xs] nz b by (auto simp: binv_def)
  show thesis
  proof (rule that [OF run])
    show "bheld (s\<lparr>bufs := (bufs s)(b := ?y)\<rparr>) bn b"
      using b nz by (simp add: bheld_def holdingsleep_def)
    show "bstep bn (view s bn) (refs s bn + 1) True s (s\<lparr>bufs := (bufs s)(b := ?y)\<rparr>)"
      unfolding bstep_def using inv' key(2-4) b inc by (auto simp: bheld_def holdingsleep_def)
    show "unused_bufs ((bufs s)(b := ?y)) = unused_bufs (bufs s) - {b}"
      using nz by (auto simp: unused_bufs_def)
  qed simp
qed

lemma bfind_recycle:
  assumes u: "uniq f" and none: "bfind f dev bn = None" and b: "b < NBUF"
    and x: "bdev x = dev" "blockno x = bn" and d: "d \<noteq> 0"
  shows "uniq (f(b := x))"
    and "bfind (f(b := x)) d n = (if d = dev \<and> n = bn then Some b
      else if bfind f d n = Some b then None else bfind f d n)"
proof -
  have no: "\<not> (bdev (f c) = dev \<and> blockno (f c) = bn)" if "c < NBUF" for c
    using none that by (auto simp: bfind_None)
  show u': "uniq (f(b := x))"
    unfolding uniq_def
  proof (intro allI impI)
    fix c c' assume c: "c < NBUF" "c' < NBUF" "c \<noteq> c'" "bdev ((f(b := x)) c) \<noteq> 0"
      "bdev ((f(b := x)) c') = bdev ((f(b := x)) c)"
    show "blockno ((f(b := x)) c') \<noteq> blockno ((f(b := x)) c)"
      using c no [OF c(1)] no [OF c(2)] x u unfolding uniq_def by (auto split: if_splits)
  qed
  note S = bfind_Some [OF u' d] bfind_Some [OF u d]
  show "bfind (f(b := x)) d n = (if d = dev \<and> n = bn then Some b
      else if bfind f d n = Some b then None else bfind f d n)"
  proof (cases "d = dev \<and> n = bn")
    case True
    with S(1) b x show ?thesis by simp
  next
    case False
    show ?thesis
    proof (cases "bfind (f(b := x)) d n")
      case None
      then have "c < NBUF \<Longrightarrow> c \<noteq> b \<Longrightarrow> \<not> (bdev (f c) = d \<and> blockno (f c) = n)" for c
        by (auto simp: bfind_None split: if_splits)
      then have "bfind f d n = None \<or> bfind f d n = Some b"
        using S(2) by (cases "bfind f d n") auto
      with False None show ?thesis by auto
    next
      case (Some c)
      with S(1) have c: "c < NBUF" "bdev ((f(b := x)) c) = d" "blockno ((f(b := x)) c) = n" by auto
      with False x have "c \<noteq> b" by auto
      with c S(2) have "bfind f d n = Some c" by auto
      with Some False \<open>c \<noteq> b\<close> show ?thesis by auto
    qed
  qed
qed

lemma bread_miss:
  assumes inv: "binv s" and find: "bfind (bufs s) ROOTDEV bn = None"
    and avail: "unused_bufs (bufs s) \<noteq> {}"
  obtains b f' where "bread ROOTDEV bn s = Inr (b, s\<lparr>bufs := f'\<rparr>)" "b \<in> unused_bufs (bufs s)"
    "bheld (s\<lparr>bufs := f'\<rparr>) bn b" "bdata (f' b) = view s bn"
    "bstep bn (view s bn) 1 True s (s\<lparr>bufs := f'\<rparr>)"
    "unused_bufs f' = unused_bufs (bufs s) - {b}"
  using inv ROOTDEV_nonzero find
proof (cases rule: bget_miss)
  case full
  with avail show thesis by simp
next
  case (recycle b)
  let ?x = "bufs s b"
  have u: "uniq (bufs s)" and b: "b < NBUF" "refcnt ?x = 0" and lk: "\<not> sl_locked (block_lock ?x)"
    and cl: "clean (disk s) ?x"
    using inv recycle(1) by (auto simp: binv_def unused_bufs_def)
  let ?y = "?x\<lparr>bdev := ROOTDEV, blockno := bn, refcnt := 1,
    block_lock := (block_lock ?x)\<lparr>sl_locked := True, sl_pid := pid (myproc s)\<rparr>,
    bvalid := True, bdata := disk s bn\<rparr>"
  have vw: "view s bn = disk s bn" by (simp add: view_def find)
  have run: "bread ROOTDEV bn s = Inr (b, s\<lparr>bufs := (bufs s)(b := ?y)\<rparr>)"
    using lk
    by (cases "bufs s b") (simp add: bread_def recycle(2) lock_buf_def
        acquiresleep_def upd_buf_def disk_rw_def Let_def fun_upd_upd)
  note fr = bfind_recycle [where x = ?y, OF u find b(1)]
  obtain xs where xs: "lru (bufs s) xs" using inv by (auto simp: binv_def)
  have inv': "binv (s\<lparr>bufs := (bufs s)(b := ?y)\<rparr>)"
    unfolding binv_def using inv fr(1) [OF _ _ ROOTDEV_nonzero] lru_upd [where x = ?y and b = b, OF xs] by (auto simp: binv_def)
  show thesis
  proof (rule that [OF run recycle(1)])
    show "bheld (s\<lparr>bufs := (bufs s)(b := ?y)\<rparr>) bn b"
      using b by (simp add: bheld_def holdingsleep_def)
    show "bdata (((bufs s)(b := ?y)) b) = view s bn" by (simp add: vw)
    show "unused_bufs ((bufs s)(b := ?y)) = unused_bufs (bufs s) - {b}"
      by (auto simp: unused_bufs_def)
    have old: "view s n = disk s n" "refs s n = 0" "\<not> lockd s n"
      if "bfind (bufs s) ROOTDEV n = Some b" for n
    proof -
      have "bdev ?x = ROOTDEV" "blockno ?x = n"
        using bfind_Some [OF u ROOTDEV_nonzero, of n b] that by auto
      with that cl b lk show "view s n = disk s n" "refs s n = 0" "\<not> lockd s n"
        by (auto simp: view_def refs_def lockd_def clean_def)
    qed
    show "bstep bn (view s bn) 1 True s (s\<lparr>bufs := (bufs s)(b := ?y)\<rparr>)"
      unfolding bstep_def
    proof (intro conjI allI impI)
      fix n :: u32
      show "bheld (s\<lparr>bufs := (bufs s)(b := ?y)\<rparr>) n c" if "bheld s n c" for c
        using that b(2) by (cases "c = b") (auto simp: bheld_def holdingsleep_def)
      note fr2 = fr(2) [of ROOTDEV n, OF _ _ ROOTDEV_nonzero]
      show "view (s\<lparr>bufs := (bufs s)(b := ?y)\<rparr>) n = (if n = bn then view s bn else view s n)"
        using fr2 old [of n] vw by (auto simp: view_def split: option.splits)
      show "refs (s\<lparr>bufs := (bufs s)(b := ?y)\<rparr>) n = (if n = bn then 1 else refs s n)"
        using fr2 old [of n] by (auto simp: refs_def split: option.splits)
      show "lockd (s\<lparr>bufs := (bufs s)(b := ?y)\<rparr>) n = (if n = bn then True else lockd s n)"
        using fr2 old [of n] by (auto simp: lockd_def split: option.splits)
    qed (rule inv' bio_frame_bufs)+
  qed
qed

definition nunused :: "'z bio_scheme \<Rightarrow> nat" where
  "nunused s = card (unused_bufs (bufs s))"

lemma finite_unused [simp]: "finite (unused_bufs f)"
  by (simp add: unused_bufs_def)

lemma bread_spec:
  assumes inv: "binv s" and free: "\<not> lockd s bn" and small: "refs s bn < 2 ^ 32 - 1"
    and avail: "0 < refs s bn \<or> 0 < nunused s"
  obtains b f' where "bread ROOTDEV bn s = Inr (b, s\<lparr>bufs := f'\<rparr>)"
    "bheld (s\<lparr>bufs := f'\<rparr>) bn b" "bdata (f' b) = view s bn"
    "bstep bn (view s bn) (refs s bn + 1) True s (s\<lparr>bufs := f'\<rparr>)"
    "nunused (s\<lparr>bufs := f'\<rparr>) = nunused s - (if refs s bn = 0 then 1 else 0)"
proof (cases "bfind (bufs s) ROOTDEV bn")
  case None
  then have r0: "refs s bn = 0" by (simp add: refs_def)
  with avail have "unused_bufs (bufs s) \<noteq> {}" by (auto simp: nunused_def)
  from inv None this show thesis
  proof (rule bread_miss)
    fix b f'
    assume "bread ROOTDEV bn s = Inr (b, s\<lparr>bufs := f'\<rparr>)" "b \<in> unused_bufs (bufs s)"
      "bheld (s\<lparr>bufs := f'\<rparr>) bn b" "bdata (f' b) = view s bn"
      "bstep bn (view s bn) 1 True s (s\<lparr>bufs := f'\<rparr>)" "unused_bufs f' = unused_bufs (bufs s) - {b}"
    then show thesis using r0 by (intro that [of b f']) (simp_all add: nunused_def)
  qed
next
  case (Some b)
  from inv this free small show thesis
  proof (rule bread_hit)
    fix f'
    assume *: "bread ROOTDEV bn s = Inr (b, s\<lparr>bufs := f'\<rparr>)"
      "bheld (s\<lparr>bufs := f'\<rparr>) bn b" "bdata (f' b) = view s bn"
      "bstep bn (view s bn) (refs s bn + 1) True s (s\<lparr>bufs := f'\<rparr>)"
      "unused_bufs f' = unused_bufs (bufs s) - {b}"
    have "b < NBUF" using inv Some bfind_Some by (auto simp: binv_def)
    then have "b \<in> unused_bufs (bufs s) \<longleftrightarrow> refs s bn = 0"
      using Some by (simp add: unused_bufs_def refs_def unsigned_eq_0_iff)
    with * show thesis by (intro that [of b f']) (simp_all add: nunused_def card_Diff_singleton_if)
  qed
qed

lemma bheld_obs:
  assumes "binv s" and "bheld s bn b"
  shows "bfind (bufs s) ROOTDEV bn = Some b" and "view s bn = bdata (bufs s b)"
    and "refs s bn = unat (refcnt (bufs s b))" and "lockd s bn" and "0 < refs s bn"
proof -
  show f: "bfind (bufs s) ROOTDEV bn = Some b"
    using assms bfind_Some [OF _ ROOTDEV_nonzero] by (simp add: binv_def bheld_def)
  with assms(2) show "view s bn = bdata (bufs s b)" "refs s bn = unat (refcnt (bufs s b))" "lockd s bn"
    "0 < refs s bn"
    by (auto simp: view_def refs_def lockd_def bheld_def holdingsleep_def unat_gt_0)
qed

text \<open>One buffer replaced by another state of the same block.\<close>

lemma obs_cong:
  assumes "bufs s1 = bufs s" and "disk s1 = disk s"
  shows "view s1 = view s" and "refs s1 = refs s" and "lockd s1 = lockd s"
  unfolding view_def [abs_def] refs_def [abs_def] lockd_def [abs_def] assms by (rule refl)+

lemma bstep_upd:
  assumes inv: "binv s" and fr: "bio_frame s s1" and s1: "bufs s1 = bufs s" "disk s1 = disk s"
    and h: "bheld s bn b"
    and x: "bdev x = ROOTDEV" "blockno x = bn" "bnext x = bnext (bufs s b)" "bprev x = bprev (bufs s b)" "bvalid x"
    and z: "refcnt x = 0 \<Longrightarrow> \<not> sl_locked (block_lock x) \<and> bdata x = disk s bn"
  shows "bstep bn (bdata x) (unat (refcnt x)) (sl_locked (block_lock x)) s (s1\<lparr>bufs := (bufs s)(b := x)\<rparr>)"
proof -
  have u: "uniq (bufs s1)" and b: "b < NBUF" "bdev (bufs s b) = ROOTDEV" "blockno (bufs s b) = bn"
    using inv h s1 by (auto simp: binv_def bheld_def)
  have y: "bdev x = bdev (bufs s1 b)" "blockno x = blockno (bufs s1 b)" using b x s1 by auto
  note o = obs_upd_same [where x = x, OF u b(1) y] obs_cong [OF s1] uniq_upd_same [where x = x, OF u y]
  obtain xs where xs: "lru (bufs s) xs" using inv by (auto simp: binv_def)
  have inv': "binv (s1\<lparr>bufs := (bufs s)(b := x)\<rparr>)"
    unfolding binv_def
    using inv lru_upd [OF xs x(3,4)] o(7) z x s1 by (auto simp: binv_def clean_def)
  show ?thesis unfolding bstep_def
  proof (intro conjI allI impI)
    show "bio_frame s (s1\<lparr>bufs := (bufs s)(b := x)\<rparr>)" by (rule bio_frame_trans [OF fr bio_frame_bufs])
    fix n c assume "n \<noteq> bn" "bheld s n c"
    then show "bheld (s1\<lparr>bufs := (bufs s)(b := x)\<rparr>) n c"
      using b s1 bio_frameD [OF fr] by (auto simp: bheld_def holdingsleep_def)
  qed (use o(1-6) s1 b x inv' in auto)
qed

lemma bstepD:
  assumes "bstep bn v r l s s'"
  shows "binv s'" "bio_frame s s'" "view s' = (view s)(bn := v)" "refs s' = (refs s)(bn := r)"
    "lockd s' = (lockd s)(bn := l)" "n \<noteq> bn \<Longrightarrow> bheld s n c \<Longrightarrow> bheld s' n c"
  using assms by (auto simp: bstep_def fun_eq_iff)

text \<open>Changing the data of a held buffer, and its reference count while it stays in use.\<close>

lemma nunused_upd:
  assumes "refcnt x = 0 \<longleftrightarrow> refcnt (bufs s b) = 0"
  shows "nunused (s1\<lparr>bufs := (bufs s)(b := x)\<rparr>) = nunused s"
  using assms by (auto simp: nunused_def unused_bufs_def intro!: arg_cong [where f = card])

lemma set_data_spec:
  fixes s :: "'z bio_scheme" and v :: block
  assumes inv: "binv s" and h: "bheld s bn b"
  defines "s' \<equiv> upd_buf b (\<lambda>x. x\<lparr>bdata := v\<rparr>) s"
  shows "bstep bn v (refs s bn) True s s'" and "bheld s' bn b" and "nunused s' = nunused s"
    and "disk s' = disk s" and "dwrites s' = dwrites s"
proof -
  let ?x = "(bufs s b)\<lparr>bdata := v\<rparr>"
  have s': "s' = s\<lparr>bufs := (bufs s)(b := ?x)\<rparr>" by (simp add: s'_def upd_buf_def)
  have "bstep bn (bdata ?x) (unat (refcnt ?x)) (sl_locked (block_lock ?x)) s s'"
    unfolding s' by (rule bstep_upd [OF inv bio_frame_refl _ _ h]) (use h in \<open>auto simp: bheld_def\<close>)
  with h bheld_obs [OF inv h] show "bstep bn v (refs s bn) True s s'"
    by (simp add: bheld_def holdingsleep_def)
  show "bheld s' bn b" using h by (auto simp: bheld_def s' holdingsleep_def)
  show "nunused s' = nunused s" unfolding s' by (rule nunused_upd) simp
qed (simp_all add: s'_def upd_buf_def)

lemma set_refcnt_spec:
  fixes s :: "'z bio_scheme" and r :: u32
  assumes inv: "binv s" and h: "bheld s bn b" and r: "r \<noteq> 0"
  defines "s' \<equiv> upd_buf b (\<lambda>x. x\<lparr>refcnt := r\<rparr>) s"
  shows "bstep bn (view s bn) (unat r) True s s'" and "bheld s' bn b" and "nunused s' = nunused s"
    and "disk s' = disk s" and "dwrites s' = dwrites s"
proof -
  let ?x = "(bufs s b)\<lparr>refcnt := r\<rparr>"
  have s': "s' = s\<lparr>bufs := (bufs s)(b := ?x)\<rparr>" by (simp add: s'_def upd_buf_def)
  have "bstep bn (bdata ?x) (unat (refcnt ?x)) (sl_locked (block_lock ?x)) s s'"
    unfolding s' by (rule bstep_upd [OF inv bio_frame_refl _ _ h]) (use h r in \<open>auto simp: bheld_def\<close>)
  with h bheld_obs [OF inv h] show "bstep bn (view s bn) (unat r) True s s'"
    by (simp add: bheld_def holdingsleep_def)
  show "bheld s' bn b" using h r by (auto simp: bheld_def s' holdingsleep_def)
  show "nunused s' = nunused s" unfolding s' by (rule nunused_upd) (use h r in \<open>simp add: bheld_def\<close>)
qed (simp_all add: s'_def upd_buf_def)

lemma bpin_spec:
  assumes inv: "binv s" and h: "bheld s bn b" and small: "refs s bn < 2 ^ 32 - 1"
  shows "bstep bn (view s bn) (refs s bn + 1) True s (bpin b s)" and "bheld (bpin b s) bn b"
    and "nunused (bpin b s) = nunused s" and "disk (bpin b s) = disk s" and "dwrites (bpin b s) = dwrites s"
proof -
  have e: "bpin b s = upd_buf b (\<lambda>x. x\<lparr>refcnt := refcnt (bufs s b) + 1\<rparr>) s"
    by (simp add: bpin_def upd_buf_def)
  have u: "unat (refcnt (bufs s b) + 1) = refs s bn + 1"
    using small unat_inc bheld_obs(3) [OF inv h] by simp
  then have "refcnt (bufs s b) + 1 \<noteq> 0" by (metis add_is_0 one_neq_zero unsigned_0)
  note * = set_refcnt_spec [OF inv h this]
  from * u show "bstep bn (view s bn) (refs s bn + 1) True s (bpin b s)" "bheld (bpin b s) bn b"
    "nunused (bpin b s) = nunused s" "disk (bpin b s) = disk s" "dwrites (bpin b s) = dwrites s"
    by (simp_all add: e)
qed

lemma unat_dec: "x \<noteq> 0 \<Longrightarrow> unat (x - 1 :: u32) = unat x - 1"
  by (simp add: unat_minus_one)

lemma bunpin_spec:
  assumes inv: "binv s" and h: "bheld s bn b" and big: "1 < refs s bn"
  shows "bstep bn (view s bn) (refs s bn - 1) True s (bunpin b s)" and "bheld (bunpin b s) bn b"
    and "nunused (bunpin b s) = nunused s" and "disk (bunpin b s) = disk s" and "dwrites (bunpin b s) = dwrites s"
proof -
  have e: "bunpin b s = upd_buf b (\<lambda>x. x\<lparr>refcnt := refcnt (bufs s b) - 1\<rparr>) s"
    by (simp add: bunpin_def upd_buf_def)
  have nz: "refcnt (bufs s b) \<noteq> 0" using h by (simp add: bheld_def)
  then have u: "unat (refcnt (bufs s b) - 1) = refs s bn - 1"
    using unat_dec bheld_obs(3) [OF inv h] by simp
  with big have "refcnt (bufs s b) - 1 \<noteq> 0" by (metis unsigned_0 zero_less_diff less_irrefl)
  note * = set_refcnt_spec [OF inv h this]
  from * u show "bstep bn (view s bn) (refs s bn - 1) True s (bunpin b s)" "bheld (bunpin b s) bn b"
    "nunused (bunpin b s) = nunused s" "disk (bunpin b s) = disk s" "dwrites (bunpin b s) = dwrites s"
    by (simp_all add: e)
qed

text \<open>Writing a held buffer to the disk.\<close>

lemma bwrite_spec:
  assumes inv: "binv s" and h: "bheld s bn b"
  obtains s' where "bwrite b s = Inr s'" "bstep bn (view s bn) (refs s bn) True s s'" "bheld s' bn b"
    "nunused s' = nunused s" "disk s' = (disk s)(bn := view s bn)" "dwrites s' = dwrites s @ [(bn, view s bn)]"
proof -
  note o = bheld_obs [OF inv h]
  let ?s = "s\<lparr>disk := (disk s)(bn := view s bn), dwrites := dwrites s @ [(bn, view s bn)]\<rparr>"
  have run: "bwrite b s = Inr ?s"
    using h o by (simp add: bwrite_def disk_rw_def bheld_def Let_def)
  have u: "uniq (bufs s)" using inv by (simp add: binv_def)
  have hd: "holdingsleep lk (s\<lparr>disk := d, dwrites := w\<rparr>) = holdingsleep lk s" for lk d w by (simp add: holdingsleep_def myproc_def)
  have v: "view ?s n = view s n" for n
    using o h by (auto simp: view_def bheld_def split: option.splits)
  have rl: "refs ?s = refs s" "lockd ?s = lockd s" by (auto simp: refs_def lockd_def fun_eq_iff cong: option.case_cong)
  have "binv ?s"
    unfolding binv_def
  proof (intro conjI allI impI)
    fix c assume c: "c < NBUF" "refcnt (bufs ?s c) = 0"
    with inv have cl: "clean (disk s) (bufs s c)" by (simp add: binv_def)
    have "c \<noteq> b" using c h by (auto simp: bheld_def)
    then have "\<not> (bdev (bufs s c) = ROOTDEV \<and> blockno (bufs s c) = bn)"
      using uniqD [OF u c(1), of b] h by (auto simp: bheld_def)
    with cl c inv show "clean (disk ?s) (bufs ?s c)" by (auto simp: clean_def binv_def)
  qed (use inv in \<open>auto simp: binv_def\<close>)
  then have "bstep bn (view s bn) (refs s bn) True s ?s"
    using v rl o by (auto simp: bstep_def bio_frame_def bheld_def hd)
  moreover have "bheld ?s bn b" using h by (simp add: bheld_def hd)
  ultimately show thesis by (intro that [OF run]) (simp_all add: nunused_def)
qed

text \<open>
  Releasing a buffer. The last reference may be dropped only when the cached block is the
  one on the disk.
\<close>

lemma payloadD:
  assumes "payload x = payload y"
  shows "bvalid x = bvalid y" "bdev x = bdev y" "blockno x = blockno y" "block_lock x = block_lock y"
    "refcnt x = refcnt y" "bdata x = bdata y"
  using assms by (auto simp: payload_def)

lemma payload_same:
  assumes "\<And>x. payload (g x) = payload (bufs s x)" and "lru g xs" and "binv s"
  defines "s' \<equiv> s\<lparr>bufs := g\<rparr>"
  shows "view s' = view s" "refs s' = refs s" "lockd s' = lockd s" "bheld s' = bheld s" "binv s'"
    "nunused s' = nunused s"
proof -
  note p = payloadD [OF assms(1)]
  have f: "bfind g = bfind (bufs s)" by (simp add: bfind_def fun_eq_iff p)
  show "view s' = view s" "refs s' = refs s" "lockd s' = lockd s" "bheld s' = bheld s"
    by (auto simp: s'_def view_def refs_def lockd_def bheld_def holdingsleep_def f p fun_eq_iff split: option.splits)
  show "nunused s' = nunused s" by (simp add: s'_def nunused_def unused_bufs_def p)
  show "binv s'" using assms(2,3) by (auto simp: s'_def binv_def uniq_def clean_def p)
qed

lemma bio_frame_wakeup: "bio_frame s (wakeup ch s)"
  by (simp add: bio_frame_def wakeup_def)

lemma wakeup_bio [simp]: "bufs (wakeup ch s) = bufs s" "disk (wakeup ch s) = disk s" "dwrites (wakeup ch s) = dwrites s"
  by (simp_all add: wakeup_def)

lemma brelse_spec:
  assumes inv: "binv s" and h: "bheld s bn b" and cl: "refs s bn = 1 \<Longrightarrow> view s bn = disk s bn"
  obtains s' where "brelse b s = Inr s'" "bstep bn (view s bn) (refs s bn - 1) False s s'"
    "nunused s' = nunused s + (if refs s bn = 1 then 1 else 0)"
    "disk s' = disk s" "dwrites s' = dwrites s"
proof -
  note o = bheld_obs [OF inv h]
  have b: "b < NBUF" and nz: "refcnt (bufs s b) \<noteq> 0" using h by (auto simp: bheld_def)
  let ?x = "(bufs s b)\<lparr>block_lock := (block_lock (bufs s b))\<lparr>sl_locked := False, sl_pid := 0\<rparr>,
    refcnt := refcnt (bufs s b) - 1\<rparr>"
  let ?s = "(wakeup (ChBufLock b) s)\<lparr>bufs := (bufs s)(b := ?x)\<rparr>"
  have dec: "unat (refcnt ?x) = refs s bn - 1" using unat_dec [OF nz] o(3) by simp
  have r1: "refcnt ?x = 0 \<longleftrightarrow> refs s bn = 1" using dec o(5) by (auto simp: unat_eq_zero [symmetric])
  have "bstep bn (bdata ?x) (unat (refcnt ?x)) (sl_locked (block_lock ?x)) s ?s"
    by (rule bstep_upd [OF inv bio_frame_wakeup _ _ h]) (use h r1 cl o in \<open>auto simp: bheld_def\<close>)
  with dec o have st: "bstep bn (view s bn) (refs s bn - 1) False s ?s" by simp
  have nu: "nunused ?s = nunused s + (if refs s bn = 1 then 1 else 0)"
  proof -
    have "unused_bufs (bufs ?s) = (if refs s bn = 1 then insert b (unused_bufs (bufs s)) else unused_bufs (bufs s))"
      using r1 nz b by (auto simp: unused_bufs_def)
    with nz show ?thesis by (simp add: nunused_def) (simp add: unused_bufs_def)
  qed
  have run: "brelse b s = Inr (if refs s bn = 1 then ?s\<lparr>bufs := push_front b (unlink_buf b (bufs ?s))\<rparr> else ?s)"
    using h r1 by (simp add: brelse_def bheld_def releasesleep_def upd_buf_def Let_def)
  show thesis
  proof (cases "refs s bn = 1")
    case False
    with st nu run show thesis by (intro that [of ?s]) simp_all
  next
    case True
    have binv: "binv ?s" using st by (rule bstepD)
    then obtain xs where "lru (bufs ?s) xs" by (auto simp: binv_def)
    note mv = lru_move_front [OF this b]
    note same = payload_same [OF mv(2,1) binv]
    let ?t = "?s\<lparr>bufs := push_front b (unlink_buf b (bufs ?s))\<rparr>"
    have "bio_frame s ?t" using bio_frame_trans [OF bstepD(2) [OF st] bio_frame_bufs] .
    with st same have "bstep bn (view s bn) (refs s bn - 1) False s ?t" by (simp add: bstep_def)
    with True run nu same show thesis by (intro that [of ?t]) simp_all
  qed
qed

end
