(* ===== verification/Log.thy ===== *)
theory Log
  imports Bio
begin

text \<open>
  \<^verbatim>\<open>kernel/log.c\<close>: the redo log. \<^verbatim>\<open>struct log\<close> extends the state; the in-memory header's array
  \<^verbatim>\<open>lh.block\<close> is a function from the index. \<^verbatim>\<open>struct logheader\<close> laid over a block is read and
  written at its offsets, little endian: \<open>n\<close> at 0, \<open>block[i]\<close> at \<open>4 + 4 i\<close>. A caller of \<open>begin_op\<close> that has to wait
  gets \<open>Sleep\<close>.
\<close>

record logst = bio +
  log_start :: u32
  outstanding :: i32
  committing :: bool
  log_dev :: u32
  lh_n :: i32
  lh_block :: "nat \<Rightarrow> u32"

definition lh_count :: "'z logst_scheme \<Rightarrow> nat" where
  "lh_count s = nat (sint (lh_n s))"

definition install_step :: "bool \<Rightarrow> nat \<Rightarrow> 'z logst_scheme \<Rightarrow> 'z logst_scheme kres" where
  "install_step recovering tail s =
     (let s0 = (if recovering
                then kprintf ''recovering tail %d dst %d\<newline>'' [PInt (of_nat tail), PInt (scast (lh_block s tail))] s
                else s) in
      kbind (bread (log_dev s0) (log_start s0 + of_nat tail + 1) s0) (\<lambda>(lbuf, s1).
      kbind (bread (log_dev s1) (lh_block s1 tail) s1) (\<lambda>(dbuf, s2).
      kbind (bwrite dbuf (upd_buf dbuf (\<lambda>x. x\<lparr>bdata := bdata (bufs s2 lbuf)\<rparr>) s2)) (\<lambda>s3.
      kbind (brelse lbuf (if recovering then s3 else bunpin dbuf s3)) (\<lambda>s4.
      brelse dbuf s4)))))"

definition install_trans :: "bool \<Rightarrow> 'z logst_scheme \<Rightarrow> 'z logst_scheme kres" where
  "install_trans recovering s = kfold (install_step recovering) [0..<lh_count s] s"

definition read_head :: "'z logst_scheme \<Rightarrow> 'z logst_scheme kres" where
  "read_head s =
     kbind (bread (log_dev s) (log_start s) s) (\<lambda>(b, s1).
     let d = bdata (bufs s1 b); s2 = s1\<lparr>lh_n := ld32 d 0\<rparr> in
     brelse b (s2\<lparr>lh_block := fold (\<lambda>i f. f(i := ld32 d (4 + 4 * i))) [0..<lh_count s2] (lh_block s2)\<rparr>))"

definition write_head :: "'z logst_scheme \<Rightarrow> 'z logst_scheme kres" where
  "write_head s =
     kbind (bread (log_dev s) (log_start s) s) (\<lambda>(b, s1).
     kbind (bwrite b (upd_buf b (\<lambda>x. x\<lparr>bdata :=
         fold (\<lambda>i d. st32 (4 + 4 * i) (lh_block s1 i) d) [0..<lh_count s1] (st32 0 (lh_n s1) (bdata x))\<rparr>) s1))
       (brelse b))"

definition recover_from_log :: "'z logst_scheme \<Rightarrow> 'z logst_scheme kres" where
  "recover_from_log s =
     kbind (read_head s) (\<lambda>s1. kbind (install_trans True s1) (\<lambda>s2. write_head (s2\<lparr>lh_n := 0\<rparr>)))"

text \<open>The header is \<open>4 + 4 * LOGBLOCKS\<close> bytes long, so the size check of \<open>initlog\<close> passes.\<close>

definition initlog :: "u32 \<Rightarrow> u32 \<Rightarrow> 'z logst_scheme \<Rightarrow> 'z logst_scheme kres" where
  "initlog dev logstart s =
     (if 4 + 4 * LOGBLOCKS \<ge> BSIZE then kpanic ''initlog: too big logheader''
      else recover_from_log (s\<lparr>log_start := logstart, log_dev := dev\<rparr>))"

definition begin_op :: "'z logst_scheme \<Rightarrow> 'z logst_scheme kres" where
  "begin_op s =
     (if committing s then Inl (Sleep ChLog)
      else if sint (lh_n s + (outstanding s + 1) * of_nat MAXOPBLOCKS) > int LOGBLOCKS then Inl (Sleep ChLog)
      else Inr (s\<lparr>outstanding := outstanding s + 1\<rparr>))"

definition write_log_step :: "nat \<Rightarrow> 'z logst_scheme \<Rightarrow> 'z logst_scheme kres" where
  "write_log_step tail s =
     kbind (bread (log_dev s) (log_start s + of_nat tail + 1) s) (\<lambda>(to, s1).
     kbind (bread (log_dev s1) (lh_block s1 tail) s1) (\<lambda>(from, s2).
     kbind (bwrite to (upd_buf to (\<lambda>x. x\<lparr>bdata := bdata (bufs s2 from)\<rparr>) s2)) (\<lambda>s3.
     kbind (brelse from s3) (brelse to))))"

definition write_log :: "'z logst_scheme \<Rightarrow> 'z logst_scheme kres" where
  "write_log s = kfold write_log_step [0..<lh_count s] s"

definition commit :: "'z logst_scheme \<Rightarrow> 'z logst_scheme kres" where
  "commit s =
     (if sint (lh_n s) > 0 then
        kbind (write_log s) (\<lambda>s1.
        kbind (write_head s1) (\<lambda>s2.
        kbind (install_trans False s2) (\<lambda>s3. write_head (s3\<lparr>lh_n := 0\<rparr>))))
      else Inr s)"

definition end_op :: "'z logst_scheme \<Rightarrow> 'z logst_scheme kres" where
  "end_op s =
     (let s1 = s\<lparr>outstanding := outstanding s - 1\<rparr> in
      if committing s1 then kpanic ''log.committing''
      else if outstanding s1 = 0 then
        kbind (commit (s1\<lparr>committing := True\<rparr>)) (\<lambda>s2. Inr (wakeup ChLog (s2\<lparr>committing := False\<rparr>)))
      else Inr (wakeup ChLog s1))"

definition log_slot :: "u32 \<Rightarrow> 'z logst_scheme \<Rightarrow> nat" where
  "log_slot bn s = (case find (\<lambda>i. lh_block s i = bn) [0..<lh_count s] of Some i \<Rightarrow> i | None \<Rightarrow> lh_count s)"

definition log_write :: "nat \<Rightarrow> 'z logst_scheme \<Rightarrow> 'z logst_scheme kres" where
  "log_write b s =
     (if sint (lh_n s) \<ge> int LOGBLOCKS then kpanic ''too big a transaction''
      else if sint (outstanding s) < 1 then kpanic ''log_write outside of trans''
      else
        let bn = blockno (bufs s b); i = log_slot bn s;
            s1 = s\<lparr>lh_block := (lh_block s)(i := bn)\<rparr> in
        if i = lh_count s1 then Inr ((bpin b s1)\<lparr>lh_n := lh_n s1 + 1\<rparr>) else Inr s1)"

end
