(* ===== verification/LogInv.thy ===== *)
theory LogInv
  imports BioInv Log
begin

text \<open>
  What one transaction does. The lemmas follow the calls of \<open>commit\<close> and \<open>recover_from_log\<close>
  through the buffer cache and state their effect on the client's view of the cache, on the
  disk and on the sequence of disk writes.
\<close>

section \<open>Blocks nobody references\<close>

lemma refs0:
  assumes inv: "binv s" and r: "refs s bn = 0"
  shows "view s bn = disk s bn" and "\<not> lockd s bn"
proof -
  have "view s bn = disk s bn \<and> \<not> lockd s bn"
  proof (cases "bfind (bufs s) ROOTDEV bn")
    case None
    then show ?thesis by (simp add: view_def lockd_def)
  next
    case (Some b)
    then have "b < NBUF" "bdev (bufs s b) = ROOTDEV" "blockno (bufs s b) = bn" "refcnt (bufs s b) = 0"
      using inv bfind_Some [OF _ ROOTDEV_nonzero] r by (auto simp: binv_def refs_def unsigned_eq_0_iff)
    with inv Some show ?thesis by (auto simp: binv_def clean_def view_def lockd_def)
  qed
  then show "view s bn = disk s bn" "\<not> lockd s bn" by auto
qed

section \<open>One block copied\<close>

definition need :: "'z bio_scheme \<Rightarrow> u32 \<Rightarrow> nat" where
  "need s bn = (if refs s bn = 0 then 1 else 0)"

text \<open>The effect of writing the contents of block \<open>from\<close> to block \<open>to\<close>, in the cache and on the disk.\<close>

definition copied :: "u32 \<Rightarrow> block \<Rightarrow> 'z bio_scheme \<Rightarrow> 'z bio_scheme \<Rightarrow> bool" where
  "copied to v s s' \<longleftrightarrow> binv s' \<and> bio_frame s s' \<and> view s' = (view s)(to := v) \<and>
     lockd s' = lockd s \<and> disk s' = (disk s)(to := v) \<and> dwrites s' = dwrites s @ [(to, v)]"

lemma bread_two:
  assumes inv: "binv s" and ne: "a \<noteq> b" and free: "\<not> lockd s a" "\<not> lockd s b"
    and small: "refs s a < 2 ^ 32 - 2" "refs s b < 2 ^ 32 - 2" and avail: "need s a + need s b \<le> nunused s"
  obtains i j s1 s2 where "bread ROOTDEV a s = Inr (i, s1)" "bio_frame s s1" "bread ROOTDEV b s1 = Inr (j, s2)"
    "binv s2" "bio_frame s s2" "bheld s2 a i" "bheld s2 b j" "view s2 = view s"
    "refs s2 = (refs s)(a := refs s a + 1, b := refs s b + 1)" "lockd s2 = (lockd s)(a := True, b := True)"
    "nunused s2 + need s a + need s b = nunused s" "disk s2 = disk s" "dwrites s2 = dwrites s"
proof -
  have av: "0 < refs s a \<or> 0 < nunused s" using avail by (cases "refs s a = 0") (auto simp: need_def)
  obtain i f where 1: "bread ROOTDEV a s = Inr (i, s\<lparr>bufs := f\<rparr>)" "bheld (s\<lparr>bufs := f\<rparr>) a i"
    "bstep a (view s a) (refs s a + 1) True s (s\<lparr>bufs := f\<rparr>)"
    "nunused (s\<lparr>bufs := f\<rparr>) = nunused s - (if refs s a = 0 then 1 else 0)"
    by (rule bread_spec [OF inv free(1) _ av]) (use small in \<open>simp, blast\<close>)
  let ?s1 = "s\<lparr>bufs := f\<rparr>"
  note st1 = bstepD [OF 1(3)]
  have r: "refs ?s1 b = refs s b" "\<not> lockd ?s1 b" using ne free by (simp_all add: st1)
  have av2: "0 < refs ?s1 b \<or> 0 < nunused ?s1" using avail unfolding 1(4) r by (auto simp: need_def split: if_splits)
  obtain j g where 2: "bread ROOTDEV b ?s1 = Inr (j, ?s1\<lparr>bufs := g\<rparr>)" "bheld (?s1\<lparr>bufs := g\<rparr>) b j"
    "bstep b (view ?s1 b) (refs ?s1 b + 1) True ?s1 (?s1\<lparr>bufs := g\<rparr>)"
    "nunused (?s1\<lparr>bufs := g\<rparr>) = nunused ?s1 - (if refs ?s1 b = 0 then 1 else 0)"
    by (rule bread_spec [OF st1(1) r(2) _ av2]) (use small r in \<open>simp, blast\<close>)
  show thesis
  proof (rule that [OF 1(1) st1(2) 2(1)])
    show "bheld (?s1\<lparr>bufs := g\<rparr>) a i" using bstepD(6) [OF 2(3) ne 1(2)] .
    show "bio_frame s (?s1\<lparr>bufs := g\<rparr>)" by simp
    show "nunused (?s1\<lparr>bufs := g\<rparr>) + need s a + need s b = nunused s"
      using 2(4) 1(4) avail r by (auto simp: need_def split: if_splits)
  qed (use 2(2) st1 bstepD [OF 2(3)] ne in simp_all)
qed

lemma copy_held:
  assumes inv: "binv s" and h: "bheld s to i" "bheld s from j" and ne: "from \<noteq> to"
  obtains s' where "bwrite i (upd_buf i (\<lambda>x. x\<lparr>bdata := bdata (bufs s j)\<rparr>) s) = Inr s'"
    "bheld s' to i" "bheld s' from j" "copied to (view s from) s s'" "refs s' = refs s" "nunused s' = nunused s"
proof -
  let ?s1 = "upd_buf i (\<lambda>x. x\<lparr>bdata := bdata (bufs s j)\<rparr>) s"
  note d = set_data_spec [OF inv h(1), of "bdata (bufs s j)"]
  note d1 = bstepD [OF d(1)] and o = bheld_obs [OF inv h(1)] bheld_obs [OF inv h(2)]
  have hj: "bheld ?s1 from j" using d1(6) [OF ne h(2)] .
  obtain s' where w: "bwrite i ?s1 = Inr s'" "bstep to (view ?s1 to) (refs ?s1 to) True ?s1 s'" "bheld s' to i"
    "nunused s' = nunused ?s1" "disk s' = (disk ?s1)(to := view ?s1 to)"
    "dwrites s' = dwrites ?s1 @ [(to, view ?s1 to)]"
    by (rule bwrite_spec [OF d1(1) d(2)])
  note w2 = bstepD [OF w(2)]
  have v: "view ?s1 to = view s from" using d1(3) o by simp
  show thesis
  proof (rule that [OF w(1,3)])
    show "bheld s' from j" using w2(6) [OF ne hj] .
    show "nunused s' = nunused s" using w(4) d(3) by simp
    show "refs s' = refs s" using w2(4) d1(4) by simp
    show "copied to (view s from) s s'"
      unfolding copied_def using w(5,6) w2 d1 d v o bio_frame_trans [OF d1(2) w2(2)]
      by (auto simp: fun_upd_idem)
  qed
qed

lemma release_two:
  assumes inv: "binv s" and h: "bheld s a i" "bheld s b j" and ne: "a \<noteq> b"
    and cl: "refs s a = 1 \<Longrightarrow> view s a = disk s a" "refs s b = 1 \<Longrightarrow> view s b = disk s b"
  obtains s1 s2 where "brelse i s = Inr s1" "brelse j s1 = Inr s2" "binv s2" "bio_frame s s2" "view s2 = view s"
    "refs s2 = (refs s)(a := refs s a - 1, b := refs s b - 1)" "lockd s2 = (lockd s)(a := False, b := False)"
    "disk s2 = disk s" "dwrites s2 = dwrites s"
    "nunused s2 = nunused s + (if refs s a = 1 then 1 else 0) + (if refs s b = 1 then 1 else 0)"
proof -
  obtain s1 where 1: "brelse i s = Inr s1" "bstep a (view s a) (refs s a - 1) False s s1"
    "nunused s1 = nunused s + (if refs s a = 1 then 1 else 0)" "disk s1 = disk s" "dwrites s1 = dwrites s"
    by (rule brelse_spec [OF inv h(1) cl(1)])
  note b1 = bstepD [OF 1(2)]
  have h1: "bheld s1 b j" using b1(6) [OF _ h(2)] ne by simp
  have cl1: "refs s1 b = 1 \<Longrightarrow> view s1 b = disk s1 b" using cl(2) ne by (simp add: b1 1)
  obtain s2 where 2: "brelse j s1 = Inr s2" "bstep b (view s1 b) (refs s1 b - 1) False s1 s2"
    "nunused s2 = nunused s1 + (if refs s1 b = 1 then 1 else 0)" "disk s2 = disk s1" "dwrites s2 = dwrites s1"
    by (rule brelse_spec [OF b1(1) h1 cl1])
  note b2 = bstepD [OF 2(2)]
  show thesis
    by (rule that [OF 1(1) 2(1) b2(1) bio_frame_trans [OF b1(2) b2(2)]]) (use b2 b1 1 2 ne in \<open>simp_all add: need_def\<close>)
qed

lemma bio_frame_log:
  assumes "bio_frame s s'"
  shows "log_start s' = log_start s" "log_dev s' = log_dev s" "lh_n s' = lh_n s" "lh_block s' = lh_block s"
    "outstanding s' = outstanding s" "committing s' = committing s" "lh_count s' = lh_count s"
proof -
  have e: "s' = s\<lparr>procs := procs s', bufs := bufs s', disk := disk s', dwrites := dwrites s'\<rparr>"
    using assms by (simp add: bio_frame_def)
  show "log_start s' = log_start s" "log_dev s' = log_dev s" and n: "lh_n s' = lh_n s" and "lh_block s' = lh_block s"
    "outstanding s' = outstanding s" "committing s' = committing s"
    by (subst e, simp)+
  then show "lh_count s' = lh_count s" by (simp add: lh_count_def)
qed

text \<open>One iteration of \<open>write_log\<close>, and one of \<open>install_trans\<close>.\<close>

lemma write_log_step_spec:
  fixes s :: "'z logst_scheme" and tail :: nat
  assumes inv: "binv s" and dev: "log_dev s = ROOTDEV"
  defines "to \<equiv> log_start s + of_nat tail + 1" and "from \<equiv> lh_block s tail"
  assumes ne: "to \<noteq> from" and free: "\<not> lockd s to" "\<not> lockd s from"
    and small: "refs s to < 2 ^ 32 - 2" "refs s from < 2 ^ 32 - 2" and avail: "need s to + need s from \<le> nunused s"
  obtains s' where "write_log_step tail s = Inr s'" "copied to (view s from) s s'" "refs s' = refs s"
    "nunused s' = nunused s"
proof -
  obtain i j s1 s2 where r: "bread ROOTDEV to s = Inr (i, s1)" "bio_frame s s1" "bread ROOTDEV from s1 = Inr (j, s2)"
    "binv s2" "bio_frame s s2" "bheld s2 to i" "bheld s2 from j" "view s2 = view s"
    "refs s2 = (refs s)(to := refs s to + 1, from := refs s from + 1)" "lockd s2 = (lockd s)(to := True, from := True)"
    "nunused s2 + need s to + need s from = nunused s" "disk s2 = disk s" "dwrites s2 = dwrites s"
    by (rule bread_two [OF inv ne free small avail])
  obtain s3 where w: "bwrite i (upd_buf i (\<lambda>x. x\<lparr>bdata := bdata (bufs s2 j)\<rparr>) s2) = Inr s3"
    "bheld s3 to i" "bheld s3 from j" "copied to (view s2 from) s2 s3" "refs s3 = refs s2" "nunused s3 = nunused s2"
    by (rule copy_held [OF r(4,6,7) ne [symmetric]])
  have c: "binv s3" "view s3 = (view s)(to := view s from)" "disk s3 = (disk s)(to := view s from)"
    "lockd s3 = lockd s2" "dwrites s3 = dwrites s @ [(to, view s from)]" "bio_frame s2 s3"
    using w(4) r by (simp_all add: copied_def)
  have cl: "refs s3 from = 1 \<Longrightarrow> view s3 from = disk s3 from" "refs s3 to = 1 \<Longrightarrow> view s3 to = disk s3 to"
    using refs0(1) [OF inv] ne by (simp_all add: c w(5) r)
  obtain s4 s5 where f: "brelse j s3 = Inr s4" "brelse i s4 = Inr s5" "binv s5" "bio_frame s3 s5" "view s5 = view s3"
    "refs s5 = (refs s3)(from := refs s3 from - 1, to := refs s3 to - 1)" "lockd s5 = (lockd s3)(from := False, to := False)"
    "disk s5 = disk s3" "dwrites s5 = dwrites s3"
    "nunused s5 = nunused s3 + (if refs s3 from = 1 then 1 else 0) + (if refs s3 to = 1 then 1 else 0)"
    by (rule release_two [OF c(1) w(3,2) ne [symmetric] cl])
  have fr: "bio_frame s s5" using bio_frame_trans [OF bio_frame_trans [OF r(5) c(6)] f(4)] .
  show thesis
  proof (rule that [of s5])
    show "write_log_step tail s = Inr s5"
      using r(1,3) w(1) f(1,2) bio_frame_log [OF r(2)] dev
      by (simp add: write_log_step_def to_def from_def)
    show "refs s5 = refs s" using ne by (auto simp: f(6) w(5) r(9) fun_eq_iff)
    show "nunused s5 = nunused s" using r(11) ne by (auto simp: f(10) w(5,6) r(9) need_def split: if_splits)
    have "lockd s5 = lockd s" using free ne by (auto simp: f(7) c(4) r(10) fun_eq_iff)
    then show "copied to (view s from) s s5" using fr f c by (simp add: copied_def)
  qed
qed

lemma kout_obs [simp]:
  "binv (s\<lparr>kout := k\<rparr>) = binv s" "view (s\<lparr>kout := k\<rparr>) = view s" "refs (s\<lparr>kout := k\<rparr>) = refs s"
  "lockd (s\<lparr>kout := k\<rparr>) = lockd s" "nunused (s\<lparr>kout := k\<rparr>) = nunused s" "need (s\<lparr>kout := k\<rparr>) = need s"
  "lh_count (s\<lparr>kout := k\<rparr>) = lh_count s" for s :: "'z logst_scheme"
  using obs_cong [of "s\<lparr>kout := k\<rparr>" s]
  by (auto simp: binv_def nunused_def need_def fun_eq_iff lh_count_def)

lemma kprintf_kout: "\<exists>k. kprintf f as s = s\<lparr>kout := k\<rparr>"
  by (cases "printf (str f) as") (auto simp: kprintf_def kprint_def intro: exI [of _ "kout s"])

definition copied_out :: "u32 \<Rightarrow> block \<Rightarrow> 'z bio_scheme \<Rightarrow> 'z bio_scheme \<Rightarrow> bool" where
  "copied_out to v s s' \<longleftrightarrow> (\<exists>k. copied to v (s\<lparr>kout := k\<rparr>) s')"

lemma copied_outD:
  fixes s :: "'z logst_scheme"
  assumes "copied_out to v s s'"
  shows "binv s'" "view s' = (view s)(to := v)" "lockd s' = lockd s" "disk s' = (disk s)(to := v)"
    "dwrites s' = dwrites s @ [(to, v)]" "log_start s' = log_start s" "log_dev s' = log_dev s" "lh_n s' = lh_n s"
    "lh_block s' = lh_block s" "outstanding s' = outstanding s" "committing s' = committing s"
    "lh_count s' = lh_count s"
proof -
  obtain k where "copied to v (s\<lparr>kout := k\<rparr>) s'" using assms by (auto simp: copied_out_def)
  then have c: "binv s'" "bio_frame (s\<lparr>kout := k\<rparr>) s'" "view s' = (view s)(to := v)" "lockd s' = lockd s"
    "disk s' = (disk s)(to := v)" "dwrites s' = dwrites s @ [(to, v)]" by (auto simp: copied_def)
  from c bio_frame_log [OF c(2)] show "binv s'" "view s' = (view s)(to := v)" "lockd s' = lockd s"
    "disk s' = (disk s)(to := v)" "dwrites s' = dwrites s @ [(to, v)]" "log_start s' = log_start s"
    "log_dev s' = log_dev s" "lh_n s' = lh_n s" "lh_block s' = lh_block s" "outstanding s' = outstanding s"
    "committing s' = committing s" "lh_count s' = lh_count s" by simp_all
qed

lemma install_step_spec:
  fixes s :: "'z logst_scheme" and tail :: nat
  assumes inv: "binv s" and dev: "log_dev s = ROOTDEV"
  defines "from \<equiv> log_start s + of_nat tail + 1" and "to \<equiv> lh_block s tail"
  assumes ne: "from \<noteq> to" and free: "\<not> lockd s from" "\<not> lockd s to"
    and small: "refs s from < 2 ^ 32 - 2" "refs s to < 2 ^ 32 - 2" and avail: "need s from + need s to \<le> nunused s"
    and pin: "\<not> rec \<Longrightarrow> 0 < refs s to"
  obtains s' where "install_step rec tail s = Inr s'" "copied_out to (view s from) s s'"
    "refs s' = (if rec then refs s else (refs s)(to := refs s to - 1))"
    "nunused s' = nunused s + (if \<not> rec \<and> refs s to = 1 then 1 else 0)"
proof -
  obtain k where k: "(if rec then kprintf ''recovering tail %d dst %d\<newline>'' [PInt (of_nat tail), PInt (scast (lh_block s tail))] s
    else s) = s\<lparr>kout := k\<rparr>"
    using kprintf_kout [of "''recovering tail %d dst %d\<newline>''" "[PInt (of_nat tail), PInt (scast (lh_block s tail))]" s]
    by (cases rec) (auto intro: that that [of "kout s"])
  let ?s = "s\<lparr>kout := k\<rparr>"
  obtain i j s1 s2 where r: "bread ROOTDEV from ?s = Inr (i, s1)" "bio_frame ?s s1" "bread ROOTDEV to s1 = Inr (j, s2)"
    "binv s2" "bio_frame ?s s2" "bheld s2 from i" "bheld s2 to j" "view s2 = view s"
    "refs s2 = (refs s)(from := refs s from + 1, to := refs s to + 1)" "lockd s2 = (lockd s)(from := True, to := True)"
    "nunused s2 + need s from + need s to = nunused s" "disk s2 = disk s" "dwrites s2 = dwrites s"
    by (rule bread_two [of ?s "from" "to"]) (use inv ne free small avail in simp_all)
  obtain s3 where w: "bwrite j (upd_buf j (\<lambda>x. x\<lparr>bdata := bdata (bufs s2 i)\<rparr>) s2) = Inr s3"
    "bheld s3 to j" "bheld s3 from i" "copied to (view s2 from) s2 s3" "refs s3 = refs s2" "nunused s3 = nunused s2"
    by (rule copy_held [OF r(4,7,6) ne])
  have c: "binv s3" "view s3 = (view s)(to := view s from)" "disk s3 = (disk s)(to := view s from)"
    "lockd s3 = lockd s2" "dwrites s3 = dwrites s @ [(to, view s from)]" "bio_frame s2 s3"
    using w(4) r by (simp_all add: copied_def)
  let ?u = "if rec then s3 else bunpin j s3"
  have u: "binv ?u" "bio_frame s3 ?u" "bheld ?u from i" "bheld ?u to j" "view ?u = view s3" "lockd ?u = lockd s3"
    "refs ?u = (if rec then refs s3 else (refs s3)(to := refs s to))" "nunused ?u = nunused s3" "disk ?u = disk s3"
    "dwrites ?u = dwrites s3"
  proof -
    have "\<not> rec \<Longrightarrow> 1 < refs s3 to" using pin by (simp add: w(5) r(9))
    note b = bunpin_spec [OF c(1) w(2) this] and b1 = bstepD [OF bunpin_spec(1) [OF c(1) w(2) this]]
    have lk: "lockd s3 to" by (simp add: c(4) r(10))
    have "refs s3 to - 1 = refs s to" by (simp add: w(5) r(9))
    with lk b b1 c(1) w(2,3) ne b1(6) [OF _ ne w(3)] show "binv ?u" "bio_frame s3 ?u" "bheld ?u from i" "bheld ?u to j"
      "view ?u = view s3" "lockd ?u = lockd s3" "refs ?u = (if rec then refs s3 else (refs s3)(to := refs s to))"
      "nunused ?u = nunused s3" "disk ?u = disk s3" "dwrites ?u = dwrites s3"
      by (simp_all add: fun_upd_idem)
  qed
  have cl: "refs ?u from = 1 \<Longrightarrow> view ?u from = disk ?u from" "refs ?u to = 1 \<Longrightarrow> view ?u to = disk ?u to"
    using refs0(1) [OF inv] ne by (auto simp: u c w(5) r split: if_splits)
  obtain s4 s5 where f: "brelse i ?u = Inr s4" "brelse j s4 = Inr s5" "binv s5" "bio_frame ?u s5" "view s5 = view ?u"
    "refs s5 = (refs ?u)(from := refs ?u from - 1, to := refs ?u to - 1)" "lockd s5 = (lockd ?u)(from := False, to := False)"
    "disk s5 = disk ?u" "dwrites s5 = dwrites ?u"
    "nunused s5 = nunused ?u + (if refs ?u from = 1 then 1 else 0) + (if refs ?u to = 1 then 1 else 0)"
    by (rule release_two [OF u(1,3,4) ne cl])
  have fr: "bio_frame ?s s5" using bio_frame_trans [OF bio_frame_trans [OF bio_frame_trans [OF r(5) c(6)] u(2)] f(4)] .
  show thesis
  proof (rule that [of s5])
    show "install_step rec tail s = Inr s5"
      using r(1,3) w(1) f(1,2) bio_frame_log [OF r(2)] dev
      by (simp add: install_step_def k to_def from_def)
    show "refs s5 = (if rec then refs s else (refs s)(to := refs s to - 1))"
      using ne by (auto simp: f(6) u(7) w(5) r(9) fun_eq_iff)
    show "nunused s5 = nunused s + (if \<not> rec \<and> refs s to = 1 then 1 else 0)"
      using r(11) ne pin by (auto simp: f(10) u(7,8) w(5,6) r(9) need_def split: if_splits)
    have "lockd s5 = lockd s" using free ne by (auto simp: f(7) u(6) c(4) r(10) fun_eq_iff)
    then show "copied_out to (view s from) s s5" using fr f u c by (auto simp: copied_out_def copied_def)
  qed
qed

end
