(* ===== verification/LogCommit.thy ===== *)
theory LogCommit
  imports LogInv
begin

text \<open>
  The loops of the log: \<open>write_log\<close>, \<open>install_trans\<close> and the header reads and writes as
  sequences of block writes, and from them what \<open>commit\<close> and \<open>recover_from_log\<close> do.
\<close>

section \<open>Sequences of writes\<close>

definition apply_writes :: "(u32 \<times> block) list \<Rightarrow> (u32 \<Rightarrow> block) \<Rightarrow> u32 \<Rightarrow> block" where
  "apply_writes ws d = fold (\<lambda>(n, v) d. d(n := v)) ws d"

lemma apply_writes_simps [simp]:
  "apply_writes [] d = d" "apply_writes ((n, v) # ws) d = apply_writes ws (d(n := v))"
  "apply_writes (ws @ xs) d = apply_writes xs (apply_writes ws d)"
  by (simp_all add: apply_writes_def)

lemma apply_writes_other: "n \<notin> fst ` set ws \<Longrightarrow> apply_writes ws d n = d n"
  by (induction ws arbitrary: d) auto

lemma apply_writes_map:
  assumes "distinct (map f ks)" and "k \<in> set ks"
  shows "apply_writes (map (\<lambda>k. (f k, g k)) ks) d (f k) = g k"
  using assms
proof (induction ks arbitrary: d)
  case (Cons a ks)
  show ?case
  proof (cases "k = a")
    case True
    with Cons.prems(1) have "f k \<notin> fst ` set (map (\<lambda>k. (f k, g k)) ks)" by force
    then show ?thesis using True by (simp add: apply_writes_other)
  qed (use Cons in auto)
qed simp

section \<open>Geometry\<close>

definition logblk :: "'z logst_scheme \<Rightarrow> nat \<Rightarrow> u32" where
  "logblk s k = log_start s + of_nat k + 1"

definition log_area :: "'z logst_scheme \<Rightarrow> u32 set" where
  "log_area s = insert (log_start s) (logblk s ` {..<LOGBLOCKS})"

definition log_geom :: "'z logst_scheme \<Rightarrow> bool" where
  "log_geom s \<longleftrightarrow> log_dev s = ROOTDEV \<and> unat (log_start s) + LOGBLOCKS < 2 ^ 32"

definition homes :: "'z logst_scheme \<Rightarrow> u32 list" where
  "homes s = map (lh_block s) [0..<lh_count s]"

definition same_log :: "'z logst_scheme \<Rightarrow> 'z logst_scheme \<Rightarrow> bool" where
  "same_log s s' \<longleftrightarrow> log_start s' = log_start s \<and> log_dev s' = log_dev s \<and> lh_n s' = lh_n s \<and>
     lh_block s' = lh_block s \<and> outstanding s' = outstanding s \<and> committing s' = committing s"

lemma same_logD:
  assumes "same_log s s'"
  shows "logblk s' = logblk s" "log_area s' = log_area s" "log_geom s' = log_geom s" "homes s' = homes s"
    "lh_count s' = lh_count s" "log_start s' = log_start s" "log_dev s' = log_dev s" "lh_block s' = lh_block s"
    "lh_n s' = lh_n s"
proof -
  show b: "logblk s' = logblk s" using assms by (simp add: same_log_def logblk_def fun_eq_iff)
  show c: "lh_count s' = lh_count s" using assms by (simp add: same_log_def lh_count_def)
  show "log_area s' = log_area s" "log_geom s' = log_geom s" "homes s' = homes s"
    "log_start s' = log_start s" "log_dev s' = log_dev s" "lh_block s' = lh_block s" "lh_n s' = lh_n s"
    using assms b c by (simp_all add: same_log_def log_area_def log_geom_def homes_def)
qed

lemma same_log_refl [simp]: "same_log s s"
  by (simp add: same_log_def)

lemma same_log_trans: "same_log s s1 \<Longrightarrow> same_log s1 s2 \<Longrightarrow> same_log s s2"
  by (simp add: same_log_def)

lemma unat_logblk:
  assumes "log_geom s" and "k < LOGBLOCKS"
  shows "unat (logblk s k) = unat (log_start s) + k + 1"
  using assms by (simp add: logblk_def log_geom_def unat_word_ariths unat_of_nat)

lemma logblk_inj:
  assumes "log_geom s" and "k < LOGBLOCKS" and "k' < LOGBLOCKS"
  shows "logblk s k = logblk s k' \<longleftrightarrow> k = k'"
  using unat_logblk [OF assms(1,2)] unat_logblk [OF assms(1,3)] by (metis add_right_cancel add_left_cancel)

lemma logblk_start:
  assumes "log_geom s" and "k < LOGBLOCKS"
  shows "logblk s k \<noteq> log_start s"
  using unat_logblk [OF assms] by auto

lemma copied_same_log: "copied to v s s' \<Longrightarrow> same_log s s'" "copied_out to v s s' \<Longrightarrow> same_log s s'"
  for s :: "'z logst_scheme"
  by (auto simp: same_log_def copied_def bio_frame_log copied_outD)

text \<open>A sequence of writes made through the cache.\<close>

definition wrote :: "(u32 \<times> block) list \<Rightarrow> 'z logst_scheme \<Rightarrow> 'z logst_scheme \<Rightarrow> bool" where
  "wrote ws s s' \<longleftrightarrow> binv s' \<and> same_log s s' \<and> view s' = apply_writes ws (view s) \<and> lockd s' = lockd s \<and>
     disk s' = apply_writes ws (disk s) \<and> dwrites s' = dwrites s @ ws"

lemma wrote_copied: "copied to v s s' \<Longrightarrow> wrote [(to, v)] s s'" for s :: "'z logst_scheme"
  unfolding wrote_def using copied_same_log(1) [of "to" v s s'] by (simp add: copied_def)

lemma wrote_copied_out: "copied_out to v s s' \<Longrightarrow> wrote [(to, v)] s s'" for s :: "'z logst_scheme"
  unfolding wrote_def using copied_same_log(2) [of "to" v s s'] copied_outD [of "to" v s s'] by simp

lemma wrote_trans: "wrote ws s s1 \<Longrightarrow> wrote xs s1 s2 \<Longrightarrow> wrote (ws @ xs) s s2"
  unfolding wrote_def by (auto intro: same_log_trans)

section \<open>The loops\<close>

definition log_ready :: "'z logst_scheme \<Rightarrow> bool" where
  "log_ready s \<longleftrightarrow> binv s \<and> log_geom s \<and> lh_count s \<le> LOGBLOCKS \<and> distinct (homes s) \<and>
     set (homes s) \<inter> log_area s = {} \<and> (\<forall>a \<in> log_area s. refs s a = 0) \<and>
     (\<forall>h \<in> set (homes s). \<not> lockd s h \<and> refs s h < 2 ^ 32 - 2)"

definition log_copies :: "'z logst_scheme \<Rightarrow> nat \<Rightarrow> (u32 \<times> block) list" where
  "log_copies s m = map (\<lambda>k. (logblk s k, view s (lh_block s k))) [0..<m]"

definition home_copies :: "'z logst_scheme \<Rightarrow> nat \<Rightarrow> (u32 \<times> block) list" where
  "home_copies s m = map (\<lambda>k. (lh_block s k, view s (logblk s k))) [0..<m]"

lemma log_readyD:
  assumes "log_ready s" and "k < lh_count s"
  shows "logblk s k \<in> log_area s" "lh_block s k \<notin> log_area s" "lh_block s k \<in> set (homes s)"
    "refs s (logblk s k) = 0" "\<not> lockd s (logblk s k)" "\<not> lockd s (lh_block s k)" "refs s (lh_block s k) < 2 ^ 32 - 2"
    "j < lh_count s \<Longrightarrow> lh_block s k = lh_block s j \<longleftrightarrow> k = j"
proof -
  show a: "logblk s k \<in> log_area s" and h: "lh_block s k \<in> set (homes s)"
    using assms by (auto simp: log_area_def log_ready_def homes_def)
  show "lh_block s k \<notin> log_area s" "\<not> lockd s (lh_block s k)" "refs s (lh_block s k) < 2 ^ 32 - 2"
    and r: "refs s (logblk s k) = 0"
    using assms h a by (auto simp: log_ready_def)
  from r show "\<not> lockd s (logblk s k)" using assms refs0(2) by (auto simp: log_ready_def)
  show "j < lh_count s \<Longrightarrow> lh_block s k = lh_block s j \<longleftrightarrow> k = j"
    using assms nth_eq_iff_index_eq [of "homes s" k j] by (simp add: log_ready_def homes_def)
qed

lemma write_log_loop:
  assumes rdy: "log_ready s" and pin: "\<And>k. k < lh_count s \<Longrightarrow> 0 < refs s (lh_block s k)" and av: "0 < nunused s"
    and m: "m \<le> lh_count s"
  shows "\<exists>s'. kfold write_log_step [0..<m] s = Inr s' \<and> wrote (log_copies s m) s s' \<and> refs s' = refs s \<and> nunused s' = nunused s"
  using m
proof (induction m)
  case 0
  then show ?case using rdy by (simp add: wrote_def log_copies_def log_ready_def)
next
  case (Suc m)
  then obtain s1 where 1: "kfold write_log_step [0..<m] s = Inr s1" "wrote (log_copies s m) s s1" "refs s1 = refs s"
    "nunused s1 = nunused s" by auto
  have k: "m < lh_count s" using Suc.prems by simp
  note d = log_readyD [OF rdy k]
  have w: "binv s1" "same_log s s1" "lockd s1 = lockd s" using 1(2) by (auto simp: wrote_def)
  note sl = same_logD [OF w(2)]
  have hv: "view s1 (lh_block s m) = view s (lh_block s m)"
  proof -
    have "lh_block s m \<notin> fst ` set (log_copies s m)"
      using log_readyD(1) [OF rdy] d(2) Suc.prems by (force simp: log_copies_def)
    with 1(2) show ?thesis by (simp add: wrote_def apply_writes_other)
  qed
  have lb: "log_start s + of_nat m + 1 = logblk s m" by (simp add: logblk_def)
  obtain s2 where 2: "write_log_step m s1 = Inr s2" "copied (logblk s m) (view s (lh_block s m)) s1 s2"
    "refs s2 = refs s1" "nunused s2 = nunused s1"
  proof (rule write_log_step_spec [OF w(1), of m, unfolded lb sl hv])
    show "log_dev s = ROOTDEV" using rdy by (simp add: log_ready_def log_geom_def)
    show "need s1 (logblk s m) + need s1 (lh_block s m) \<le> nunused s1" using d pin [OF k] av 1(3,4) by (simp add: need_def)
    show "logblk s m \<noteq> lh_block s m" using d(1,2) by auto
  qed (use d w 1 in simp_all)
  have "wrote (log_copies s (Suc m)) s s2"
    using wrote_trans [OF 1(2) wrote_copied [OF 2(2)]] by (simp add: log_copies_def)
  with 1 2 show ?case by (simp add: kfold_append)
qed

lemma install_loop:
  assumes rdy: "log_ready s" and pin: "\<And>k. \<not> rec \<Longrightarrow> k < lh_count s \<Longrightarrow> 0 < refs s (lh_block s k)"
    and av: "(if rec then 2 else 1) \<le> nunused s" and m: "m \<le> lh_count s"
  shows "\<exists>s'. kfold (install_step rec) [0..<m] s = Inr s' \<and> wrote (home_copies s m) s s' \<and>
    refs s' = (\<lambda>n. if \<not> rec \<and> n \<in> lh_block s ` {..<m} then refs s n - 1 else refs s n) \<and> nunused s \<le> nunused s'"
  using m
proof (induction m)
  case 0
  then show ?case using rdy by (simp add: wrote_def home_copies_def log_ready_def)
next
  case (Suc m)
  then obtain s1 where 1: "kfold (install_step rec) [0..<m] s = Inr s1" "wrote (home_copies s m) s s1"
    "refs s1 = (\<lambda>n. if \<not> rec \<and> n \<in> lh_block s ` {..<m} then refs s n - 1 else refs s n)" "nunused s \<le> nunused s1" by auto
  have k: "m < lh_count s" using Suc.prems by simp
  note d = log_readyD [OF rdy k]
  have w: "binv s1" "same_log s s1" "lockd s1 = lockd s" using 1(2) by (auto simp: wrote_def)
  note sl = same_logD [OF w(2)]
  have hv: "view s1 (logblk s m) = view s (logblk s m)"
  proof -
    have "logblk s m \<notin> fst ` set (home_copies s m)"
      using log_readyD(2) [OF rdy] d(1) Suc.prems by (force simp: home_copies_def)
    with 1(2) show ?thesis by (simp add: wrote_def apply_writes_other)
  qed
  have fresh: "lh_block s m \<notin> lh_block s ` {..<m}"
  proof
    assume "lh_block s m \<in> lh_block s ` {..<m}"
    then obtain x where "x < m" "lh_block s m = lh_block s x" by auto
    with d(8) [of x] k show False by simp
  qed
  have lf: "logblk s m \<notin> lh_block s ` {..<m}" using log_readyD(2) [OF rdy] d(1) k by (auto simp: less_trans)
  have lb: "log_start s + of_nat m + 1 = logblk s m" by (simp add: logblk_def)
  obtain s2 where 2: "install_step rec m s1 = Inr s2" "copied_out (lh_block s m) (view s (logblk s m)) s1 s2"
    "refs s2 = (if rec then refs s1 else (refs s1)(lh_block s m := refs s1 (lh_block s m) - 1))"
    "nunused s2 = nunused s1 + (if \<not> rec \<and> refs s1 (lh_block s m) = 1 then 1 else 0)"
  proof (rule install_step_spec [OF w(1), of m rec, unfolded lb sl hv])
    show "log_dev s = ROOTDEV" using rdy by (simp add: log_ready_def log_geom_def)
    show "need s1 (logblk s m) + need s1 (lh_block s m) \<le> nunused s1"
      using d pin [OF _ k] av 1(3,4) fresh lf by (auto simp: need_def split: if_splits)
    show "logblk s m \<noteq> lh_block s m" using d(1,2) by auto
    show "\<not> rec \<Longrightarrow> 0 < refs s1 (lh_block s m)" using pin [OF _ k] fresh by (simp add: 1(3))
  qed (use d w 1(3) fresh lf in simp_all)
  have "wrote (home_copies s (Suc m)) s s2"
    using wrote_trans [OF 1(2) wrote_copied_out [OF 2(2)]] by (simp add: home_copies_def)
  moreover have "refs s2 = (\<lambda>n. if \<not> rec \<and> n \<in> lh_block s ` {..<Suc m} then refs s n - 1 else refs s n)"
    using fresh by (auto simp: 2(3) 1(3) fun_eq_iff lessThan_Suc)
  ultimately show ?case using 1 2 by (simp add: kfold_append)
qed

section \<open>The header\<close>

definition enc_head :: "i32 \<Rightarrow> (nat \<Rightarrow> u32) \<Rightarrow> block \<Rightarrow> block" where
  "enc_head n bs d = fold (\<lambda>i d. st32 (4 + 4 * i) (bs i) d) [0..<nat (sint n)] (st32 0 n d)"

lemma enc_head_read:
  "ld32 (enc_head n bs d) 0 = n" "i < nat (sint n) \<Longrightarrow> ld32 (enc_head n bs d) (4 + 4 * i) = bs i"
proof -
  let ?f = "\<lambda>m. fold (\<lambda>i d. st32 (4 + 4 * i) (bs i) d) [0..<m] (st32 0 n d)"
  have 0: "ld32 (?f m) 0 = n" for m
    by (induction m) (simp_all add: ld32_st32_other_nat)
  show "ld32 (enc_head n bs d) 0 = n" unfolding enc_head_def by (rule 0)
  have "i < m \<Longrightarrow> ld32 (?f m) (4 + 4 * i) = bs i" for m
  proof (induction m)
    case (Suc m)
    then show ?case by (cases "i = m") (simp_all add: ld32_st32_other_nat)
  qed simp
  then show "i < nat (sint n) \<Longrightarrow> ld32 (enc_head n bs d) (4 + 4 * i) = bs i" unfolding enc_head_def .
qed

lemma write_head_spec:
  assumes inv: "binv s" and g: "log_geom s" and r: "refs s (log_start s) = 0" and av: "0 < nunused s"
  obtains s' where "write_head s = Inr s'"
    "wrote [(log_start s, enc_head (lh_n s) (lh_block s) (disk s (log_start s)))] s s'"
    "refs s' = refs s" "nunused s' = nunused s"
proof -
  let ?a = "log_start s" and ?h = "enc_head (lh_n s) (lh_block s) (disk s (log_start s))"
  note f = refs0 [OF inv r]
  obtain b f' where 1: "bread ROOTDEV ?a s = Inr (b, s\<lparr>bufs := f'\<rparr>)" "bheld (s\<lparr>bufs := f'\<rparr>) ?a b"
    "bdata (f' b) = view s ?a" "bstep ?a (view s ?a) (refs s ?a + 1) True s (s\<lparr>bufs := f'\<rparr>)"
    "nunused (s\<lparr>bufs := f'\<rparr>) = nunused s - (if refs s ?a = 0 then 1 else 0)"
    by (rule bread_spec [OF inv f(2), of]) (use r av in \<open>auto\<close>)
  let ?s1 = "s\<lparr>bufs := f'\<rparr>"
  note b1 = bstepD [OF 1(4)]
  let ?s2 = "upd_buf b (\<lambda>x. x\<lparr>bdata := ?h\<rparr>) ?s1"
  note d = set_data_spec [OF b1(1) 1(2), of ?h]
  note b2 = bstepD [OF d(1)]
  obtain s3 where 3: "bwrite b ?s2 = Inr s3" "bstep ?a (view ?s2 ?a) (refs ?s2 ?a) True ?s2 s3" "bheld s3 ?a b"
    "nunused s3 = nunused ?s2" "disk s3 = (disk ?s2)(?a := view ?s2 ?a)" "dwrites s3 = dwrites ?s2 @ [(?a, view ?s2 ?a)]"
    by (rule bwrite_spec [OF b2(1) d(2)])
  note b3 = bstepD [OF 3(2)]
  have v: "view ?s2 ?a = ?h" "refs ?s2 ?a = 1" using b2(3,4) b1(4) r by simp_all
  obtain s4 where 4: "brelse b s3 = Inr s4" "bstep ?a (view s3 ?a) (refs s3 ?a - 1) False s3 s4"
    "nunused s4 = nunused s3 + (if refs s3 ?a = 1 then 1 else 0)" "disk s4 = disk s3" "dwrites s4 = dwrites s3"
    by (rule brelse_spec [OF b3(1) 3(3)]) (use b3(3) 3(5) in auto)
  note b4 = bstepD [OF 4(2)]
  have fr: "bio_frame s s4" using bio_frame_trans [OF bio_frame_trans [OF bio_frame_trans [OF b1(2) b2(2)] b3(2)] b4(2)] .
  show thesis
  proof (rule that [of s4])
    show "write_head s = Inr s4"
      using 1(1,3) 3(1) 4(1) g f
      by (simp add: write_head_def log_geom_def upd_buf_def enc_head_def lh_count_def)
    show "refs s4 = refs s" using b4(4) b3(4) v b2(4) b1(4) r by (simp add: fun_upd_idem)
    show "nunused s4 = nunused s" using 4(3) 3(4) d(3) 1(5) b3(4) v r av by simp
    have "lockd s4 = lockd s" using b4(5) b3(5) b2(5) b1(5) f(2) by (simp add: fun_upd_idem)
    moreover have "view s4 = (view s)(?a := ?h)" using b4(3) b3(3) b2(3) b1(3) by simp
    ultimately show "wrote [(?a, ?h)] s s4"
      using b4(1) bio_frame_log [OF fr] 4(4,5) 3(5,6) v d(4,5)
      by (simp add: wrote_def same_log_def)
  qed
qed

lemma lh_obs [simp]:
  "binv (s\<lparr>lh_n := n, lh_block := f\<rparr>) = binv s" "binv (s\<lparr>lh_n := n\<rparr>) = binv s"
  "view (s\<lparr>lh_n := n, lh_block := f\<rparr>) = view s" "view (s\<lparr>lh_n := n\<rparr>) = view s"
  "refs (s\<lparr>lh_n := n, lh_block := f\<rparr>) = refs s" "refs (s\<lparr>lh_n := n\<rparr>) = refs s"
  "lockd (s\<lparr>lh_n := n, lh_block := f\<rparr>) = lockd s" "lockd (s\<lparr>lh_n := n\<rparr>) = lockd s"
  "nunused (s\<lparr>lh_n := n, lh_block := f\<rparr>) = nunused s" "nunused (s\<lparr>lh_n := n\<rparr>) = nunused s"
  "log_geom (s\<lparr>lh_n := n, lh_block := f\<rparr>) = log_geom s" "log_geom (s\<lparr>lh_n := n\<rparr>) = log_geom s"
  "bheld (s\<lparr>lh_n := n, lh_block := f\<rparr>) = bheld s" "bheld (s\<lparr>lh_n := n\<rparr>) = bheld s"
  using obs_cong [of "s\<lparr>lh_n := n, lh_block := f\<rparr>" s] obs_cong [of "s\<lparr>lh_n := n\<rparr>" s]
  by (auto simp: binv_def nunused_def log_geom_def bheld_def holdingsleep_def myproc_def fun_eq_iff)

lemma log_ready_wrote:
  assumes "log_ready s" and "wrote ws s s1" and "refs s1 = refs s"
  shows "log_ready s1"
proof -
  have "same_log s s1" using assms(2) by (simp add: wrote_def)
  from same_logD [OF this] assms show ?thesis by (simp add: log_ready_def wrote_def)
qed

section \<open>Commit\<close>

definition commit_writes :: "'z logst_scheme \<Rightarrow> (u32 \<times> block) list" where
  "commit_writes s =
     (let h = enc_head (lh_n s) (lh_block s) (disk s (log_start s)) in
      map (\<lambda>k. (logblk s k, view s (lh_block s k))) [0..<lh_count s] @ [(log_start s, h)] @
      map (\<lambda>k. (lh_block s k, view s (lh_block s k))) [0..<lh_count s] @ [(log_start s, enc_head 0 (lh_block s) h)])"

lemma log_area_start [simp]: "log_start s \<in> log_area s"
  by (simp add: log_area_def)

lemma log_copies_view:
  assumes "log_ready s" and "k < lh_count s"
  shows "apply_writes (log_copies s (lh_count s)) d (logblk s k) = view s (lh_block s k)"
  unfolding log_copies_def
proof (rule apply_writes_map)
  have "lh_count s \<le> LOGBLOCKS" "log_geom s" using assms by (auto simp: log_ready_def)
  then have "inj_on (logblk s) {..<lh_count s}"
    by (intro inj_onI) (metis lessThan_iff less_le_trans logblk_inj)
  then show "distinct (map (logblk s) [0..<lh_count s])" by (simp add: distinct_map atLeast0LessThan)
qed (use assms in simp)

lemma commit_spec:
  assumes rdy: "log_ready s" and pin: "\<And>k. k < lh_count s \<Longrightarrow> 0 < refs s (lh_block s k)" and av: "0 < nunused s"
    and pos: "sint (lh_n s) > 0"
  obtains s' where "commit s = Inr s'" "binv s'" "dwrites s' = dwrites s @ commit_writes s"
    "disk s' = apply_writes (commit_writes s) (disk s)" "view s' = apply_writes (commit_writes s) (view s)"
    "lh_n s' = 0" "lockd s' = lockd s" "log_start s' = log_start s" "log_dev s' = log_dev s"
    "outstanding s' = outstanding s" "committing s' = committing s"
    "refs s' = (\<lambda>n. if n \<in> set (homes s) then refs s n - 1 else refs s n)" "nunused s \<le> nunused s'"
proof -
  let ?N = "lh_count s" and ?a = "log_start s"
  obtain s1 where 1: "write_log s = Inr s1" "wrote (log_copies s ?N) s s1" "refs s1 = refs s" "nunused s1 = nunused s"
    using write_log_loop [OF rdy pin av order_refl] by (auto simp: write_log_def)
  have r1: "log_ready s1" by (rule log_ready_wrote [OF rdy 1(2,3)])
  note sl1 = same_logD [of s s1]
  have l1: "same_log s s1" using 1(2) by (simp add: wrote_def)
  note sl1 = same_logD [OF l1]
  have st: "refs s ?a = 0" using rdy by (simp add: log_ready_def)
  have inv1: "binv s1" "log_geom s1" using r1 by (simp_all add: log_ready_def)
  obtain s2 where 2: "write_head s1 = Inr s2"
    "wrote [(log_start s1, enc_head (lh_n s1) (lh_block s1) (disk s1 (log_start s1)))] s1 s2" "refs s2 = refs s1" "nunused s2 = nunused s1"
    by (rule write_head_spec [OF inv1]) (use st av 1 sl1 in \<open>simp_all\<close>)
  have geom: "log_geom s" and cnt: "?N \<le> LOGBLOCKS" using rdy by (auto simp: log_ready_def)
  have d1: "disk s1 ?a = disk s ?a"
  proof -
    have "?a \<noteq> logblk s k" if "k < ?N" for k using logblk_start [OF geom, of k] that cnt by simp
    then have "?a \<notin> fst ` set (log_copies s ?N)" by (force simp: log_copies_def)
    with 1(2) show ?thesis by (simp add: wrote_def apply_writes_other)
  qed
  let ?h = "enc_head (lh_n s) (lh_block s) (disk s ?a)"
  have w2: "wrote (log_copies s ?N @ [(?a, ?h)]) s s2"
    using wrote_trans [OF 1(2) 2(2)] by (simp add: sl1 d1)
  have rf2: "refs s2 = refs s" using 1(3) 2(3) by simp
  have r2: "log_ready s2" by (rule log_ready_wrote [OF rdy w2 rf2])
  have l2: "same_log s s2" using w2 by (simp add: wrote_def)
  note sl2 = same_logD [OF l2]
  obtain s3 where 3: "install_trans False s2 = Inr s3" "wrote (home_copies s2 ?N) s2 s3"
    "refs s3 = (\<lambda>n. if n \<in> lh_block s ` {..<?N} then refs s n - 1 else refs s n)" "nunused s2 \<le> nunused s3"
    using install_loop [OF r2, of False ?N] pin av 1(4) 2(4) by (auto simp: install_trans_def sl2 rf2 cong: if_cong)
  have hc: "home_copies s2 ?N = map (\<lambda>k. (lh_block s k, view s (lh_block s k))) [0..<?N]"
  proof -
    have "view s2 (logblk s k) = view s (lh_block s k)" if "k < ?N" for k
      using w2 log_copies_view [OF rdy that] logblk_start [OF geom, of k] that cnt by (simp add: wrote_def)
    then show ?thesis by (simp add: home_copies_def sl2)
  qed
  have w3: "wrote (log_copies s ?N @ [(?a, ?h)] @ map (\<lambda>k. (lh_block s k, view s (lh_block s k))) [0..<?N]) s s3"
    using wrote_trans [OF w2 3(2) [unfolded hc]] by simp
  have l3: "same_log s s3" using w3 by (simp add: wrote_def)
  note sl3 = same_logD [OF l3]
  let ?t = "s3\<lparr>lh_n := 0\<rparr>"
  have na: "?a \<notin> lh_block s ` {..<?N}" using log_readyD(2) [OF rdy] log_area_start [of s] by (metis imageE lessThan_iff)
  have d3: "disk s3 ?a = ?h"
  proof -
    have "?a \<notin> fst ` set (map (\<lambda>k. (lh_block s k, view s (lh_block s k))) [0..<?N])" using na by force
    with w3 show ?thesis by (simp add: wrote_def apply_writes_other)
  qed
  have inv3: "binv ?t" "log_geom ?t" "refs ?t (log_start ?t) = 0" "0 < nunused ?t"
    using w3 geom st na av 1(4) 2(4) 3(4) by (simp_all add: wrote_def sl3 3(3))
  obtain s4 where 4: "write_head ?t = Inr s4"
    "wrote [(log_start ?t, enc_head (lh_n ?t) (lh_block ?t) (disk ?t (log_start ?t)))] ?t s4" "refs s4 = refs ?t" "nunused s4 = nunused ?t"
    by (rule write_head_spec [OF inv3])
  have cw: "commit_writes s = (log_copies s ?N @ [(?a, ?h)] @ map (\<lambda>k. (lh_block s k, view s (lh_block s k))) [0..<?N]) @
      [(?a, enc_head 0 (lh_block s) ?h)]"
    by (simp add: commit_writes_def log_copies_def Let_def)
  have w4: "wrote [(?a, enc_head 0 (lh_block s) ?h)] ?t s4" using 4(2) by (simp add: sl3 d3)
  show thesis
  proof (rule that [of s4])
    show "commit s = Inr s4" using pos 1(1) 2(1) 3(1) 4(1) by (simp add: commit_def)
    show "refs s4 = (\<lambda>n. if n \<in> set (homes s) then refs s n - 1 else refs s n)"
      by (simp add: 4(3) 3(3) homes_def atLeast0LessThan)
    show "nunused s \<le> nunused s4" using 1(4) 2(4) 3(4) 4(4) by simp
  qed (use w3 w4 in \<open>simp_all add: cw wrote_def same_log_def\<close>)
qed

end
