(* ===== verification/BioSpec.thy ===== *)
theory BioSpec
  imports BioInv
begin

text \<open>
  The properties of the buffer cache that its clients rely on: what the cache looks like
  after \<open>binit\<close>, what \<open>bread\<close> returns, which buffer a miss recycles, and that dropping the
  last reference makes a buffer the most recently used one.
\<close>

section \<open>The cache after initialisation\<close>

lemma binit_buf_payload:
  assumes "b \<noteq> bhead"
  shows "payload (binit_buf b f x) = payload (if x = b then (f b)\<lparr>block_lock := initsleeplock\<rparr> else f x)"
  unfolding binit_buf_def push_front_links(3) [OF assms] by simp

lemma binit_payload:
  assumes "n \<le> NBUF"
  shows "payload (fold binit_buf [0..<n] f x) =
    payload (if x < n then (f x)\<lparr>block_lock := initsleeplock\<rparr> else f x)"
  using assms
proof (induction n)
  case (Suc n)
  have "n \<noteq> bhead" using Suc.prems by (simp add: bhead_def)
  note p = payloadD [OF Suc.IH]
  have "payload (fold binit_buf [0..<Suc n] f x) = payload (binit_buf n (fold binit_buf [0..<n] f) x)"
    by simp
  also have "\<dots> = payload (if x < Suc n then (f x)\<lparr>block_lock := initsleeplock\<rparr> else f x)"
    unfolding binit_buf_payload [OF \<open>n \<noteq> bhead\<close>]
    using p Suc by (auto simp: payload_def less_Suc_eq)
  finally show ?case .
qed simp

lemma binit_bufs:
  assumes "b < NBUF"
  shows "payload (bufs (binit s) b) = payload ((bufs s b)\<lparr>block_lock := initsleeplock\<rparr>)"
proof -
  have "b \<noteq> bhead" using assms by (simp add: bhead_def)
  with assms binit_payload [of NBUF "(bufs s)(bhead := (bufs s bhead)\<lparr>bprev := bhead, bnext := bhead\<rparr>)" b]
  show ?thesis by (simp add: binit_def Let_def)
qed

lemma binit_frame: "binit s = s\<lparr>bufs := bufs (binit s)\<rparr>"
  by (simp add: binit_def Let_def)

lemma binit_inv:
  assumes "\<And>b. b < NBUF \<Longrightarrow> refcnt (bufs s b) = 0 \<and> bdev (bufs s b) = 0"
  shows "binv (binit s)" and "view (binit s) = disk s" and "refs (binit s) = (\<lambda>_. 0)"
    and "lockd (binit s) = (\<lambda>_. False)" and "nunused (binit s) = NBUF"
proof -
  note p = payloadD [OF binit_bufs [of _ s]]
  have q: "refcnt (bufs (binit s) b) = 0" "bdev (bufs (binit s) b) = 0"
    "\<not> sl_locked (block_lock (bufs (binit s) b))" if "b < NBUF" for b
    using p [OF that] assms [OF that] by (simp_all add: initsleeplock_def)
  have n: "bfind (bufs (binit s)) ROOTDEV n = None" for n
    unfolding bfind_None using q by (metis ROOTDEV_nonzero)
  show "binv (binit s)"
    unfolding binv_def uniq_def clean_def using q binit_lru by blast
  show "view (binit s) = disk s"
    unfolding view_def [abs_def] n by (subst binit_frame) simp
  show "refs (binit s) = (\<lambda>_. 0)" "lockd (binit s) = (\<lambda>_. False)"
    by (simp_all add: refs_def [abs_def] lockd_def [abs_def] n)
  have "unused_bufs (bufs (binit s)) = {..<NBUF}" using q by (auto simp: unused_bufs_def)
  then show "nunused (binit s) = NBUF" by (simp add: nunused_def)
qed

text \<open>A state to evaluate: zeroed tables, block \<open>n\<close> of the disk filled with the low byte of \<open>n\<close>.\<close>

definition zero_proc :: proc where
  "zero_proc = \<lparr>pstate = UNUSED, pchan = None, pkilled = False, xstate = 0, pid = 0, trace_mask = 0,
     page_faults = 0, has_region = False, region = \<lparr>vr_start = 0, vr_size = 0\<rparr>, parent = None,
     kstack = 0, sz = 0, pagetable = 0, trapframe = 0,
     pcontext = \<lparr>ctx_ra = 0, ctx_sp = 0, ctx_s = replicate 12 0\<rparr>,
     ofile = replicate NOFILE None, cwd = None, pname = []\<rparr>"

definition zero_buf :: buf where
  "zero_buf = \<lparr>bvalid = False, bdev = 0, blockno = 0, block_lock = initsleeplock, refcnt = 0,
     bprev = 0, bnext = 0, bdata = (\<lambda>_. 0)\<rparr>"

definition demo_bio :: bio where
  "demo_bio = \<lparr>pmem = (\<lambda>_. 0), freelist = 0, kend = 0x80000000,
     procs = (\<lambda>_. zero_proc), curp = 0, nextpid = 1, initproc = 0, ticks = 0, trampoline = 0x80001000,
     forkret_addr = 0x80002000, kout = [], bufs = (\<lambda>_. zero_buf), disk = (\<lambda>n _. ucast n), dwrites = []\<rparr>"

lemma demo_binit:
  "binv (binit demo_bio)" "view (binit demo_bio) = disk demo_bio" "refs (binit demo_bio) = (\<lambda>_. 0)"
  "lockd (binit demo_bio) = (\<lambda>_. False)" "nunused (binit demo_bio) = NBUF"
proof -
  have "refcnt (bufs demo_bio b) = 0 \<and> bdev (bufs demo_bio b) = 0" for b
    by (simp add: demo_bio_def zero_buf_def)
  note * = binit_inv [of demo_bio, OF this]
  show "binv (binit demo_bio)" "view (binit demo_bio) = disk demo_bio" "refs (binit demo_bio) = (\<lambda>_. 0)"
    "lockd (binit demo_bio) = (\<lambda>_. False)" "nunused (binit demo_bio) = NBUF"
    by (rule *)+
qed

lemma find_hd: "find P xs = Some b \<Longrightarrow> hd (filter P xs) = b"
  by (induction xs) (auto split: if_splits)

section \<open>Properties\<close>

text \<open>
  C14. Reading a block that no one has locked succeeds when the block is already referenced or some
  buffer is unused. It returns a buffer of that block, locked by the caller, that holds the
  current contents (the cached ones if the block is cached and dirty, the disk's otherwise), takes
  exactly one reference, and changes nothing for any other block, the disk or the cache invariant.
\<close>

theorem bread_returns_contents:
  assumes "binv s" and "\<not> lockd s bn" and "refs s bn < 2 ^ 32 - 1"
    and "0 < refs s bn \<or> 0 < nunused s"
  shows "\<exists>b s'. bread ROOTDEV bn s = Inr (b, s') \<and> binv s' \<and>
    b < NBUF \<and> bdev (bufs s' b) = ROOTDEV \<and> blockno (bufs s' b) = bn \<and>
    holdingsleep (block_lock (bufs s' b)) s' \<and> bdata (bufs s' b) = view s bn \<and>
    view s' = view s \<and> refs s' = (refs s)(bn := refs s bn + 1) \<and> lockd s' = (lockd s)(bn := True) \<and>
    disk s' = disk s \<and> dwrites s' = dwrites s"
  using assms
proof (rule bread_spec)
  fix b f'
  assume *: "bread ROOTDEV bn s = Inr (b, s\<lparr>bufs := f'\<rparr>)" "bheld (s\<lparr>bufs := f'\<rparr>) bn b"
    "bdata (f' b) = view s bn" "bstep bn (view s bn) (refs s bn + 1) True s (s\<lparr>bufs := f'\<rparr>)"
  note st = bstepD(1,3-5) [OF *(4)]
  show ?thesis
    by (rule exI [where x = b], rule exI [where x = "s\<lparr>bufs := f'\<rparr>"])
      (use * st in \<open>simp add: bheld_def\<close>)
qed

theorem bread_returns_contents_witness:
  "\<exists>b s'. bread ROOTDEV 7 (binit demo_bio) = Inr (b, s') \<and> bdata (bufs s' b) = (\<lambda>_. 7)"
proof -
  have "disk demo_bio 7 = (\<lambda>_. 7)" by (simp add: demo_bio_def)
  then have "view (binit demo_bio) 7 = (\<lambda>_. 7)" by (simp only: demo_binit)
  moreover have "\<not> lockd (binit demo_bio) 7" "refs (binit demo_bio) 7 < 2 ^ 32 - 1" "0 < nunused (binit demo_bio)"
    by (simp_all add: demo_binit)
  ultimately show ?thesis
    using bread_returns_contents [OF demo_binit(1)] by metis
qed

text \<open>
  C15. Replacement is least recently used: with the buffers in order of last use (\<open>lru\<close>), a miss
  recycles the unused buffer nearest the end of the list, panics exactly when every
  buffer is in use, and always finishes its scans of the pointer list; and dropping the last
  reference to a buffer moves it to the front and keeps the order of the others.
\<close>

theorem bget_brelse_lru:
  assumes "binv s" and "lru (bufs s) xs" and "bfind (bufs s) ROOTDEV bn = None"
  shows "(if \<forall>b < NBUF. refcnt (bufs s b) \<noteq> 0 then bget ROOTDEV bn s = kpanic ''bget: no buffers''
      else \<exists>b s'. bget ROOTDEV bn s = Inr (b, s') \<and> b = hd (filter (\<lambda>b. refcnt (bufs s b) = 0) (rev xs)) \<and>
        blockno (bufs s' b) = bn \<and> \<not> bvalid (bufs s' b))
    \<and> (\<forall>b m. bheld s m b \<longrightarrow> refcnt (bufs s b) = 1 \<longrightarrow>
        (\<exists>s'. brelse b s = Inr s' \<and> lru (bufs s') (b # remove1 b xs)))"
proof (intro conjI allI impI)
  have u: "uniq (bufs s)" and sx: "set xs = {..<NBUF}" using assms by (auto simp: binv_def lru_def)
  note eq = bget_def [of ROOTDEV bn s] scans [OF assms(2)] bfind_lru [OF assms(2) u ROOTDEV_nonzero] assms(3)
  show "if \<forall>b < NBUF. refcnt (bufs s b) \<noteq> 0 then bget ROOTDEV bn s = kpanic ''bget: no buffers''
      else \<exists>b s'. bget ROOTDEV bn s = Inr (b, s') \<and> b = hd (filter (\<lambda>b. refcnt (bufs s b) = 0) (rev xs)) \<and>
        blockno (bufs s' b) = bn \<and> \<not> bvalid (bufs s' b)"
  proof (cases "find (\<lambda>b. refcnt (bufs s b) = 0) (rev xs)")
    case None
    then have "\<forall>b < NBUF. refcnt (bufs s b) \<noteq> 0" using sx by (auto simp: find_None)
    with None show ?thesis by (simp add: eq)
  next
    case (Some b)
    have b: "b < NBUF" "refcnt (bufs s b) = 0" using find_SomeD [OF Some] sx by auto
    have "b = hd (filter (\<lambda>b. refcnt (bufs s b) = 0) (rev xs))"
      using Some by (simp add: find_hd)
    moreover have "\<not> sl_locked (block_lock (bufs s b))" using assms(1) b by (auto simp: binv_def)
    ultimately show ?thesis using b Some
      by (auto simp: eq lock_buf_def upd_buf_def acquiresleep_def)
  qed
next
  fix b m assume h: "bheld s m b" and one: "refcnt (bufs s b) = 1"
  let ?x = "(bufs s b)\<lparr>block_lock := (block_lock (bufs s b))\<lparr>sl_locked := False, sl_pid := 0\<rparr>, refcnt := 0\<rparr>"
  have l: "lru ((bufs s)(b := ?x)) xs" by (rule lru_upd [OF assms(2)]) simp_all
  have "b < NBUF" using h by (simp add: bheld_def)
  from lru_move_front(1) [OF l this] h one
  show "\<exists>s'. brelse b s = Inr s' \<and> lru (bufs s') (b # remove1 b xs)"
    by (simp add: brelse_def bheld_def releasesleep_def upd_buf_def Let_def)
qed

theorem bget_brelse_lru_witness:
  "\<exists>s'. bget ROOTDEV 7 (binit demo_bio) = Inr (0, s') \<and> blockno (bufs s' 0) = 7"
proof -
  have r: "refcnt (bufs (binit demo_bio) b) = 0" and d: "bdev (bufs (binit demo_bio) b) = 0" if "b < NBUF" for b
    using payloadD [OF binit_bufs [OF that, of demo_bio]] by (simp_all add: demo_bio_def zero_buf_def)
  have miss: "bfind (bufs (binit demo_bio)) ROOTDEV 7 = None"
    unfolding bfind_None using d by (metis ROOTDEV_nonzero)
  have "filter (\<lambda>b. refcnt (bufs (binit demo_bio) b) = 0) (rev (rev [0..<NBUF])) = [0..<NBUF]"
    using r by (simp add: filter_id_conv del: NBUF_def)
  moreover have "hd [0..<NBUF] = 0" by simp
  moreover have "\<not> (\<forall>b < NBUF. refcnt (bufs (binit demo_bio) b) \<noteq> 0)" using r [of 0] by force
  ultimately show ?thesis
    using bget_brelse_lru [OF demo_binit(1) binit_lru miss] by (metis (no_types, lifting))
qed

end
