(* ===== verification/LogSpec.thy ===== *)
theory LogSpec
  imports LogCommit BioSpec
begin

text \<open>
  Crash safety of the log. \<open>recover_spec\<close> says what \<open>recover_from_log\<close> does on a freshly
  initialised cache; the properties combine it with \<open>commit_spec\<close>: whatever prefix of the writes of
  \<open>commit\<close> reached the disk, recovery restores either the old contents or the new ones of all
  home blocks, and a crash during recovery is harmless. Block writes are taken to be atomic.
\<close>

section \<open>Recovery\<close>

definition hdr_count :: "block \<Rightarrow> nat" where
  "hdr_count h = nat (sint (ld32 h 0))"

definition hdr_block :: "block \<Rightarrow> nat \<Rightarrow> u32" where
  "hdr_block h i = ld32 h (4 + 4 * i)"

definition log_blk :: "u32 \<Rightarrow> nat \<Rightarrow> u32" where
  "log_blk st k = st + of_nat k + 1"

definition area_at :: "u32 \<Rightarrow> u32 set" where
  "area_at st = insert st (log_blk st ` {..<LOGBLOCKS})"

text \<open>A header that \<open>write_head\<close> could have written.\<close>

definition hdr_ok :: "u32 \<Rightarrow> block \<Rightarrow> bool" where
  "hdr_ok st h \<longleftrightarrow> hdr_count h \<le> LOGBLOCKS \<and> distinct (map (hdr_block h) [0..<hdr_count h]) \<and>
     hdr_block h ` {..<hdr_count h} \<inter> area_at st = {}"

definition recover_writes :: "u32 \<Rightarrow> (nat \<Rightarrow> u32) \<Rightarrow> (u32 \<Rightarrow> block) \<Rightarrow> (u32 \<times> block) list" where
  "recover_writes st bs d =
     map (\<lambda>i. (hdr_block (d st) i, d (log_blk st i))) [0..<hdr_count (d st)] @ [(st, enc_head 0 bs (d st))]"

lemma logblk_blk: "logblk s = log_blk (log_start s)" "log_area s = area_at (log_start s)"
  by (auto simp: logblk_def log_blk_def log_area_def area_at_def fun_eq_iff)

lemma fold_fun_upd: "fold (\<lambda>i f. f(i := g i)) [0..<n] f = (\<lambda>i. if i < n then g i else f i)"
  by (induction n) (auto simp: fun_eq_iff less_Suc_eq)

text \<open>A cache just initialised: nothing referenced, so every read sees the disk.\<close>

definition fresh :: "'z bio_scheme \<Rightarrow> bool" where
  "fresh s \<longleftrightarrow> binv s \<and> (\<forall>n. refs s n = 0) \<and> 2 \<le> nunused s"

lemma freshD:
  assumes "fresh s"
  shows "binv s" "refs s = (\<lambda>_. 0)" "view s = disk s" "\<not> lockd s n"
  using assms refs0 [of s] by (auto simp: fresh_def fun_eq_iff)

lemma read_head_spec:
  assumes fr: "fresh s" and g: "log_geom s"
  defines "h \<equiv> disk s (log_start s)"
  obtains s' where "read_head s = Inr s'" "fresh s'" "log_geom s'" "disk s' = disk s" "dwrites s' = dwrites s"
    "log_start s' = log_start s" "lh_n s' = ld32 h 0" "lh_count s' = hdr_count h"
    "\<And>i. i < hdr_count h \<Longrightarrow> lh_block s' i = hdr_block h i"
    "outstanding s' = outstanding s" "committing s' = committing s" "log_dev s' = log_dev s"
proof -
  let ?a = "log_start s"
  note f = freshD [OF fr]
  have av: "0 < refs s ?a \<or> 0 < nunused s" using fr by (auto simp: fresh_def)
  have small: "refs s ?a < 2 ^ 32 - 1" by (simp add: f)
  obtain b f' where 1: "bread ROOTDEV ?a s = Inr (b, s\<lparr>bufs := f'\<rparr>)" "bheld (s\<lparr>bufs := f'\<rparr>) ?a b"
    "bdata (f' b) = view s ?a" "bstep ?a (view s ?a) (refs s ?a + 1) True s (s\<lparr>bufs := f'\<rparr>)"
    "nunused (s\<lparr>bufs := f'\<rparr>) = nunused s - (if refs s ?a = 0 then 1 else 0)"
    by (rule bread_spec [OF f(1) f(4) small av])
  note b1 = bstepD [OF 1(4)]
  define s2 where "s2 = s\<lparr>bufs := f', lh_n := ld32 h 0, lh_block := fold (\<lambda>i f. f(i := ld32 h (4 + 4 * i))) [0..<hdr_count h] (lh_block s)\<rparr>"
  have h2: "binv s2" "bheld s2 ?a b" "refs s2 = refs (s\<lparr>bufs := f'\<rparr>)" "view s2 = view (s\<lparr>bufs := f'\<rparr>)"
    "nunused s2 = nunused (s\<lparr>bufs := f'\<rparr>)" "disk s2 = disk s" "dwrites s2 = dwrites s"
    using b1(1) 1(2) unfolding s2_def by simp_all
  have cl: "refs s2 ?a = 1 \<Longrightarrow> view s2 ?a = disk s2 ?a" using h2(3,4,6) b1(3) f(3) by simp
  obtain s3 where 3: "brelse b s2 = Inr s3" "bstep ?a (view s2 ?a) (refs s2 ?a - 1) False s2 s3"
    "nunused s3 = nunused s2 + (if refs s2 ?a = 1 then 1 else 0)" "disk s3 = disk s2" "dwrites s3 = dwrites s2"
    by (rule brelse_spec [OF h2(1,2) cl])
  note b3 = bstepD [OF 3(2)] and l3 = bio_frame_log [OF bstepD(2) [OF 3(2)]]
  show thesis
  proof (rule that [of s3])
    show "read_head s = Inr s3"
      using 1(1,3) 3(1) g by (simp add: read_head_def log_geom_def s2_def f h_def lh_count_def hdr_count_def Let_def)
    show "fresh s3"
      using b3(1) fr f(2) h2(3,5) b1(4) 3(3) 1(5) by (simp add: fresh_def b3(4))
    show "log_geom s3" using g l3 by (simp add: log_geom_def s2_def)
    show "lh_count s3 = hdr_count h" using l3(3) by (simp add: lh_count_def hdr_count_def s2_def)
    show "lh_block s3 i = hdr_block h i" if "i < hdr_count h" for i
      using l3(4) that by (simp add: s2_def fold_fun_upd hdr_block_def)
  qed (use 3 h2 l3 in \<open>simp_all add: s2_def\<close>)
qed

lemma recover_spec:
  assumes fr: "fresh s" and g: "log_geom s" and ok: "hdr_ok (log_start s) (disk s (log_start s))"
  obtains s' bs where "recover_from_log s = Inr s'" "binv s'" "refs s' = (\<lambda>_. 0)"
    "dwrites s' = dwrites s @ recover_writes (log_start s) bs (disk s)"
    "disk s' = apply_writes (recover_writes (log_start s) bs (disk s)) (disk s)" "view s' = disk s'"
    "lh_n s' = 0" "outstanding s' = outstanding s" "committing s' = committing s"
    "log_start s' = log_start s" "log_dev s' = log_dev s"
proof -
  let ?a = "log_start s" and ?h = "disk s (log_start s)"
  obtain s1 where 1: "read_head s = Inr s1" "fresh s1" "log_geom s1" "disk s1 = disk s" "dwrites s1 = dwrites s"
    "log_start s1 = log_start s" "lh_n s1 = ld32 ?h 0" "lh_count s1 = hdr_count ?h"
    "\<And>i. i < hdr_count ?h \<Longrightarrow> lh_block s1 i = hdr_block ?h i"
    "outstanding s1 = outstanding s" "committing s1 = committing s" "log_dev s1 = log_dev s"
    by (rule read_head_spec [OF fr g]) (rule that; assumption)
  note f1 = freshD [OF 1(2)]
  have hm: "homes s1 = map (hdr_block ?h) [0..<hdr_count ?h]" using 1(8,9) by (simp add: homes_def)
  have rdy: "log_ready s1"
    using f1 1(3,6,8) ok unfolding log_ready_def hm
    by (auto simp: hdr_ok_def logblk_blk atLeast0LessThan)
  obtain s2 where 2: "install_trans True s1 = Inr s2" "wrote (home_copies s1 (hdr_count ?h)) s1 s2"
    "refs s2 = refs s1" "nunused s1 \<le> nunused s2"
    using install_loop [OF rdy, of True "hdr_count ?h"] 1(2,8) by (auto simp: install_trans_def fresh_def)
  have hc: "home_copies s1 (hdr_count ?h) = map (\<lambda>i. (hdr_block ?h i, disk s (log_blk ?a i))) [0..<hdr_count ?h]"
    using 1(4,6,9) f1(3) by (simp add: home_copies_def logblk_blk)
  have l2: "same_log s1 s2" using 2(2) by (simp add: wrote_def)
  note sl = same_logD [OF l2]
  have d2: "disk s2 ?a = ?h"
  proof -
    have "?a \<notin> fst ` set (home_copies s1 (hdr_count ?h))"
      using ok by (auto simp: hc hdr_ok_def area_at_def image_iff)
    then show ?thesis using 2(2) 1(4) by (simp add: wrote_def apply_writes_other)
  qed
  let ?t = "s2\<lparr>lh_n := 0\<rparr>"
  have t: "binv ?t" "log_geom ?t" "refs ?t (log_start ?t) = 0" "0 < nunused ?t"
    using 2 1(2,3) f1 sl by (simp_all add: wrote_def fresh_def)
  obtain s3 where 3: "write_head ?t = Inr s3"
    "wrote [(log_start ?t, enc_head (lh_n ?t) (lh_block ?t) (disk ?t (log_start ?t)))] ?t s3" "refs s3 = refs ?t"
    by (rule write_head_spec [OF t])
  have w: "wrote [(?a, enc_head 0 (lh_block s2) ?h)] ?t s3" using 3(2) d2 sl 1(6) by simp
  have rw: "recover_writes ?a (lh_block s2) (disk s) =
      home_copies s1 (hdr_count ?h) @ [(?a, enc_head 0 (lh_block s2) ?h)]"
    by (simp add: recover_writes_def hc)
  show thesis
  proof (rule that [of s3 "lh_block s2"])
    show "recover_from_log s = Inr s3" using 1(1) 2(1) 3(1) by (simp add: recover_from_log_def)
    show "refs s3 = (\<lambda>_. 0)" using 3(3) 2(3) f1 by simp
    show d: "disk s3 = apply_writes (recover_writes ?a (lh_block s2) (disk s)) (disk s)"
      using w 2(2) 1(4) unfolding rw by (simp add: wrote_def)
    show "binv s3" using w by (simp add: wrote_def)
    then show "view s3 = disk s3" using refs0(1) [of s3] 3(3) 2(3) f1 by auto
  qed (use w 2(2) 1 rw in \<open>simp_all add: wrote_def same_log_def\<close>)
qed

section \<open>Crashes\<close>

lemma apply_writes_fun:
  "apply_writes (map (\<lambda>x. (f x, g (f x))) xs) d n = (if n \<in> f ` set xs then g n else d n)"
  by (induction xs arbitrary: d) auto

lemma enc_head_hdr:
  "hdr_count (enc_head n bs d) = nat (sint n)" "i < nat (sint n) \<Longrightarrow> hdr_block (enc_head n bs d) i = bs i"
  "hdr_count (enc_head 0 bs d) = 0"
  by (simp_all add: hdr_count_def hdr_block_def enc_head_read)

lemma hdr_ok_empty: "hdr_count h = 0 \<Longrightarrow> hdr_ok st h"
  by (simp add: hdr_ok_def)

lemma recover_empty:
  "hdr_count (d st) = 0 \<Longrightarrow> n \<noteq> st \<Longrightarrow> apply_writes (recover_writes st bs d) d n = d n"
  by (simp add: recover_writes_def)

lemma recover_nonlog:
  assumes "hdr_ok st (d st)" and "n \<noteq> st"
    and "\<And>i. i < hdr_count (d st) \<Longrightarrow> d (log_blk st i) = v (hdr_block (d st) i)"
  shows "apply_writes (recover_writes st bs d) d n = (if n \<in> hdr_block (d st) ` {..<hdr_count (d st)} then v n else d n)"
proof -
  have eq: "map (\<lambda>i. (hdr_block (d st) i, d (log_blk st i))) [0..<hdr_count (d st)] =
      map (\<lambda>i. (hdr_block (d st) i, v (hdr_block (d st) i))) [0..<hdr_count (d st)]"
    using assms(3) by simp
  show ?thesis
    unfolding recover_writes_def eq using assms(2) apply_writes_fun [of "hdr_block (d st)" v]
    by (simp add: atLeast0LessThan)
qed

text \<open>The disk after a prefix of the writes of a commit, and what recovery makes of it.\<close>

lemma log_copies_area:
  assumes "log_ready s" and "n \<notin> log_area s"
  shows "apply_writes (take k (log_copies s (lh_count s))) d n = d n"
proof (rule apply_writes_other)
  have "fst ` set (log_copies s (lh_count s)) \<subseteq> log_area s"
    using log_readyD(1) [OF assms(1)] by (auto simp: log_copies_def)
  then show "n \<notin> fst ` set (take k (log_copies s (lh_count s)))"
    using assms(2) set_take_subset [of k "log_copies s (lh_count s)"] by auto
qed

lemma log_copies_start:
  assumes "log_ready s"
  shows "apply_writes (take k (log_copies s (lh_count s))) d (log_start s) = d (log_start s)"
proof (rule apply_writes_other)
  have "log_geom s" "lh_count s \<le> LOGBLOCKS" using assms by (auto simp: log_ready_def)
  then have "log_start s \<noteq> logblk s k" if "k < lh_count s" for k
    using logblk_start [of s k] that by simp
  then have "log_start s \<notin> fst ` set (log_copies s (lh_count s))" by (force simp: log_copies_def)
  then show "log_start s \<notin> fst ` set (take k (log_copies s (lh_count s)))"
    using set_take_subset [of k "log_copies s (lh_count s)"] by auto
qed

definition home_writes :: "'z logst_scheme \<Rightarrow> (u32 \<times> block) list" where
  "home_writes s = map (\<lambda>k. (lh_block s k, view s (lh_block s k))) [0..<lh_count s]"

lemma home_writes_take:
  "apply_writes (take j (home_writes s)) d n = (if n \<in> lh_block s ` set (take j [0..<lh_count s]) then view s n else d n)"
  unfolding home_writes_def take_map by (rule apply_writes_fun)

lemma crash_uncommitted:
  fixes s :: "'z logst_scheme" and k :: nat
  assumes rdy: "log_ready s" and empty: "hdr_count (disk s (log_start s)) = 0"
  defines "d \<equiv> apply_writes (take k (log_copies s (lh_count s))) (disk s)"
  shows "hdr_ok (log_start s) (d (log_start s))"
    and "n \<notin> log_area s \<Longrightarrow> apply_writes (recover_writes (log_start s) bs d) d n = disk s n"
proof -
  have h: "hdr_count (d (log_start s)) = 0" using log_copies_start [OF rdy] empty by (simp add: d_def)
  then show "hdr_ok (log_start s) (d (log_start s))" by (rule hdr_ok_empty)
  assume n: "n \<notin> log_area s"
  then have "n \<noteq> log_start s" by auto
  from recover_empty [where d = d, OF h this] show "apply_writes (recover_writes (log_start s) bs d) d n = disk s n"
    using log_copies_area [OF rdy n] by (simp add: d_def)
qed

lemma crash_committed:
  fixes s :: "'z logst_scheme" and j :: nat
  assumes rdy: "log_ready s" and clean: "\<And>n. n \<notin> set (homes s) \<Longrightarrow> view s n = disk s n"
  defines "d \<equiv> apply_writes (log_copies s (lh_count s) @
    [(log_start s, enc_head (lh_n s) (lh_block s) (disk s (log_start s)))] @ take j (home_writes s)) (disk s)"
  shows "hdr_ok (log_start s) (d (log_start s))"
    and "n \<notin> log_area s \<Longrightarrow> apply_writes (recover_writes (log_start s) bs d) d n = view s n"
proof -
  let ?st = "log_start s" and ?h = "enc_head (lh_n s) (lh_block s) (disk s (log_start s))"
  let ?A = "apply_writes (log_copies s (lh_count s)) (disk s)"
  have d: "d m = (if m \<in> lh_block s ` set (take j [0..<lh_count s]) then view s m else (?A(?st := ?h)) m)" for m
    unfolding d_def by (simp add: home_writes_take)
  have out: "m \<notin> lh_block s ` set (take j [0..<lh_count s])" if "m \<in> log_area s" for m
    using log_readyD(2) [OF rdy] that set_take_subset [of j "[0..<lh_count s]"] by (auto simp: subset_iff)
  have dst: "d ?st = ?h" using out [of ?st] by (simp add: d)
  have cnt: "hdr_count (d ?st) = lh_count s" "\<And>i. i < lh_count s \<Longrightarrow> hdr_block (d ?st) i = lh_block s i"
    using enc_head_hdr(1,2) [where n = "lh_n s"] by (simp_all add: dst lh_count_def)
  have ids: "hdr_block (d ?st) ` {..<lh_count s} = set (homes s)" "map (hdr_block (d ?st)) [0..<lh_count s] = homes s"
    using cnt(2) by (auto simp: homes_def)
  show ok: "hdr_ok ?st (d ?st)"
    using rdy unfolding hdr_ok_def cnt ids by (simp add: log_ready_def logblk_blk)
  have blk: "d (log_blk ?st i) = view s (hdr_block (d ?st) i)" if "i < hdr_count (d ?st)" for i
  proof -
    have i: "i < lh_count s" using that cnt by simp
    have ne: "logblk s i \<noteq> ?st" using logblk_start [of s i] rdy i by (simp add: log_ready_def)
    have "d (logblk s i) = view s (lh_block s i)"
      using out [OF log_readyD(1) [OF rdy i]] ne log_copies_view [OF rdy i] by (simp add: d)
    then show ?thesis using cnt i by (simp add: logblk_blk)
  qed
  assume n: "n \<notin> log_area s"
  then have ne: "n \<noteq> ?st" by auto
  have dn: "d n = (if n \<in> lh_block s ` set (take j [0..<lh_count s]) then view s n else disk s n)"
    using log_copies_area [OF rdy n, of "length (log_copies s (lh_count s))"] ne by (simp add: d)
  have "apply_writes (recover_writes ?st bs d) d n =
      (if n \<in> hdr_block (d ?st) ` {..<hdr_count (d ?st)} then view s n else d n)"
    by (rule recover_nonlog [where d = d, OF ok ne]) (rule blk)
  then show "apply_writes (recover_writes ?st bs d) d n = view s n"
    unfolding cnt(1) ids using dn clean [of n] by simp
qed

section \<open>Every crash point of a commit\<close>

lemma commit_writes_split:
  "commit_writes s = log_copies s (lh_count s) @
     [(log_start s, enc_head (lh_n s) (lh_block s) (disk s (log_start s)))] @ home_writes s @
     [(log_start s, enc_head 0 (lh_block s) (enc_head (lh_n s) (lh_block s) (disk s (log_start s))))]"
  by (simp add: commit_writes_def log_copies_def home_writes_def Let_def)

lemma crash_prefix:
  fixes s :: "'z logst_scheme" and k :: nat
  assumes rdy: "log_ready s" and clean: "\<And>n. n \<notin> set (homes s) \<Longrightarrow> view s n = disk s n"
    and empty: "hdr_count (disk s (log_start s)) = 0" and k: "k \<le> length (commit_writes s)"
  defines "d \<equiv> apply_writes (take k (commit_writes s)) (disk s)"
  shows "hdr_ok (log_start s) (d (log_start s))"
    and "n \<notin> log_area s \<Longrightarrow> apply_writes (recover_writes (log_start s) bs d) d n =
      (if k \<le> lh_count s then disk s n else view s n)"
proof -
  let ?N = "lh_count s"
  have len: "length (log_copies s ?N) = ?N" "length (home_writes s) = ?N"
    by (simp_all add: log_copies_def home_writes_def)
  consider (before) "k \<le> ?N" | (after) j where "k = ?N + 1 + j" "j \<le> ?N" | (erased) "k = 2 * ?N + 2"
  proof -
    have "k \<le> ?N \<or> (\<exists>j. k = ?N + 1 + j \<and> j \<le> ?N) \<or> k = 2 * ?N + 2"
      using k by (simp add: commit_writes_split len) presburger
    then show thesis using that by blast
  qed
  then have "hdr_ok (log_start s) (d (log_start s)) \<and> (n \<notin> log_area s \<longrightarrow>
      apply_writes (recover_writes (log_start s) bs d) d n = (if k \<le> ?N then disk s n else view s n))"
  proof cases
    case before
    then have "d = apply_writes (take k (log_copies s ?N)) (disk s)" by (simp add: d_def commit_writes_split len)
    with before crash_uncommitted [where k = k, OF rdy empty] show ?thesis by simp
  next
    case after
    then have "d = apply_writes (log_copies s ?N @ [(log_start s, enc_head (lh_n s) (lh_block s) (disk s (log_start s)))] @
        take j (home_writes s)) (disk s)"
      by (simp add: d_def commit_writes_split len)
    with after crash_committed [where j = j, OF rdy clean] show ?thesis by simp
  next
    case erased
    let ?e = "apply_writes (log_copies s ?N @ [(log_start s, enc_head (lh_n s) (lh_block s) (disk s (log_start s)))] @
        home_writes s) (disk s)"
    have d: "d = ?e(log_start s := enc_head 0 (lh_block s) (enc_head (lh_n s) (lh_block s) (disk s (log_start s))))"
      using erased by (simp add: d_def commit_writes_split len)
    have h: "hdr_count (d (log_start s)) = 0" by (simp add: d enc_head_hdr)
    have "apply_writes (recover_writes (log_start s) bs d) d n = view s n" if n: "n \<notin> log_area s"
    proof -
      have ne: "n \<noteq> log_start s" using n by auto
      have "d n = (if n \<in> lh_block s ` {..<?N} then view s n else disk s n)"
        using log_copies_area [OF rdy n, of ?N] home_writes_take [of ?N s] ne
        by (simp add: d len atLeast0LessThan)
      then show ?thesis using recover_empty [where d = d, OF h ne] clean [of n]
        by (auto simp: homes_def atLeast0LessThan)
    qed
    with hdr_ok_empty [OF h] erased show ?thesis by simp
  qed
  then show "hdr_ok (log_start s) (d (log_start s))"
    and "n \<notin> log_area s \<Longrightarrow> apply_writes (recover_writes (log_start s) bs d) d n =
      (if k \<le> ?N then disk s n else view s n)" by blast+
qed

section \<open>A state to evaluate\<close>

text \<open>
  The log occupies the blocks 2 to 32. Block 50 was changed to all ones by a transaction,
  logged and released: buffer 0 holds it, pinned.
\<close>

definition demo_log0 :: logst where
  "demo_log0 = bio.extend (binit demo_bio) \<lparr>log_start = 2, outstanding = 0, committing = False,
     log_dev = ROOTDEV, lh_n = 1, lh_block = (\<lambda>_. 50)\<rparr>"

definition demo_dirty :: "buf \<Rightarrow> buf" where
  "demo_dirty x = x\<lparr>bdev := ROOTDEV, blockno := 50, bvalid := True, refcnt := 1, bdata := (\<lambda>_. 1)\<rparr>"

definition demo_log :: logst where
  "demo_log = upd_buf 0 demo_dirty (demo_log0\<lparr>disk := (disk demo_log0)(2 := (\<lambda>_. 0))\<rparr>)"

lemma demo_log_sel:
  "bufs demo_log = (bufs (binit demo_bio))(0 := demo_dirty (bufs (binit demo_bio) 0))"
  "disk demo_log = (disk demo_bio)(2 := (\<lambda>_. 0))" "log_start demo_log = 2" "log_dev demo_log = ROOTDEV"
  "lh_n demo_log = 1" "lh_block demo_log = (\<lambda>_. 50)" "lh_count demo_log = 1" "homes demo_log = [50]"
  using binit_frame [of demo_bio]
  by (simp_all add: demo_log_def demo_log0_def upd_buf_def lh_count_def homes_def bio.extend_def binit_def Let_def)

lemma demo_log_bufs:
  assumes "b < NBUF"
  shows "refcnt (bufs demo_log b) = (if b = 0 then 1 else 0)" "bdev (bufs demo_log b) = (if b = 0 then ROOTDEV else 0)"
    "\<not> sl_locked (block_lock (bufs demo_log b))"
proof -
  have "refcnt (bufs demo_bio b) = 0" "bdev (bufs demo_bio b) = 0" by (simp_all add: demo_bio_def zero_buf_def)
  with payloadD [OF binit_bufs [OF assms, of demo_bio]]
  show "refcnt (bufs demo_log b) = (if b = 0 then 1 else 0)" "bdev (bufs demo_log b) = (if b = 0 then ROOTDEV else 0)"
    "\<not> sl_locked (block_lock (bufs demo_log b))"
    by (auto simp: demo_log_sel demo_dirty_def initsleeplock_def)
qed

lemma demo_log_find: "bfind (bufs demo_log) ROOTDEV n = (if n = 50 then Some 0 else None)"
proof -
  have u: "uniq (bufs demo_log)" unfolding uniq_def using demo_log_bufs(2) by (metis (full_types))
  have "bfind (bufs demo_log) ROOTDEV n = Some b \<longleftrightarrow> b = 0 \<and> n = 50" for b
    unfolding bfind_Some [OF u ROOTDEV_nonzero] using demo_log_bufs(2) [of b]
    by (auto simp: demo_log_sel demo_dirty_def split: if_splits)
  then show ?thesis by (cases "bfind (bufs demo_log) ROOTDEV n") auto
qed

lemma demo_log_obs:
  "view demo_log = (disk demo_log)(50 := (\<lambda>_. 1))" "refs demo_log = (\<lambda>n. if n = 50 then 1 else 0)"
  "lockd demo_log = (\<lambda>_. False)" "0 < nunused demo_log"
proof -
  show "view demo_log = (disk demo_log)(50 := (\<lambda>_. 1))"
    by (rule ext) (simp add: view_def demo_log_find, simp add: demo_log_sel demo_dirty_def)
  show "refs demo_log = (\<lambda>n. if n = 50 then 1 else 0)"
    by (rule ext) (simp add: refs_def demo_log_find demo_log_bufs)
  show "lockd demo_log = (\<lambda>_. False)"
    by (rule ext) (simp add: lockd_def demo_log_find demo_log_bufs)
  have "1 \<in> unused_bufs (bufs demo_log)" using demo_log_bufs(1) [of 1] by (simp add: unused_bufs_def)
  then show "0 < nunused demo_log" by (auto simp: nunused_def card_gt_0_iff)
qed

lemma demo_log_inv: "binv demo_log"
proof -
  have "uniq (bufs demo_log)" unfolding uniq_def using demo_log_bufs(2) by (metis (full_types))
  moreover have "lru (bufs demo_log) (rev [0..<NBUF])"
    unfolding demo_log_sel by (rule lru_upd [OF binit_lru]) (simp_all add: demo_dirty_def)
  moreover have "\<forall>b < NBUF. bdev (bufs demo_log b) = 0 \<or> bdev (bufs demo_log b) = ROOTDEV"
    using demo_log_bufs(2) by metis
  moreover have "\<forall>b < NBUF. refcnt (bufs demo_log b) = 0 \<longrightarrow>
      \<not> sl_locked (block_lock (bufs demo_log b)) \<and> clean (disk demo_log) (bufs demo_log b)"
    using demo_log_bufs unfolding clean_def by (metis zero_neq_one)
  ultimately show ?thesis unfolding binv_def by blast
qed

lemma demo_log_area: "log_area demo_log = {2..32}"
proof -
  have "(\<lambda>k. 3 + of_nat k :: u32) ` {..<30} = {3..32}"
  proof (intro equalityI subsetI)
    fix x :: u32 assume "x \<in> (\<lambda>k. 3 + of_nat k) ` {..<30}"
    then obtain k :: nat where "x = 3 + of_nat k" "k < 30" by auto
    then show "x \<in> {3..32}" by (auto simp: word_le_nat_alt unat_word_ariths unat_of_nat)
  next
    fix x :: u32 assume x: "x \<in> {3..32}"
    then have "3 \<le> unat x" "unat x \<le> 32" by (auto simp: word_le_nat_alt)
    then have "x = 3 + of_nat (unat x - 3)" "unat x - 3 < 30" by (auto simp: of_nat_diff)
    then show "x \<in> (\<lambda>k. 3 + of_nat k) ` {..<30}" by blast
  qed
  moreover have "{2..32::u32} = insert 2 {3..32}"
    by (auto simp: word_le_nat_alt word_unat_eq_iff)
  ultimately show ?thesis by (simp add: log_area_def logblk_def [abs_def] demo_log_sel add.commute add.left_commute)
qed

lemma demo_log_ready: "log_ready demo_log"
  unfolding log_ready_def
  by (auto simp: demo_log_inv log_geom_def demo_log_sel demo_log_area demo_log_obs)

section \<open>Properties\<close>

text \<open>
  C1. A commit is atomic with respect to crashes. When every block changed since the last commit is in the log
  header and pinned, and the header on disk is empty, \<open>commit\<close> ends without panic and leaves on the disk
  exactly the contents the file system sees. If the machine stops after any number \<open>k\<close> of the
  block writes of the commit and is restarted, \<open>initlog\<close> on the remaining disk ends without panic and leaves
  every block outside the log either at its old contents, when the header write had not happened,
  or at its new contents, when it had: all blocks together, never a mixture.
\<close>

theorem commit_crash_atomic:
  fixes s :: "'z logst_scheme"
  assumes rdy: "log_ready s" and pin: "\<forall>h \<in> set (homes s). 0 < refs s h" and av: "0 < nunused s"
    and clean: "\<forall>n. n \<notin> set (homes s) \<longrightarrow> view s n = disk s n"
    and empty: "hdr_count (disk s (log_start s)) = 0"
  shows "\<exists>s' ws. commit s = Inr s' \<and> dwrites s' = dwrites s @ ws \<and> disk s' = apply_writes ws (disk s) \<and>
    (\<forall>n. n \<notin> log_area s \<longrightarrow> disk s' n = view s n \<and> view s' n = view s n) \<and>
    (\<forall>k \<le> length ws. \<forall>t :: 'z logst_scheme.
      fresh t \<longrightarrow> disk t = apply_writes (take k ws) (disk s) \<longrightarrow>
      (\<exists>t'. initlog ROOTDEV (log_start s) t = Inr t' \<and>
        (\<forall>n. n \<notin> log_area s \<longrightarrow> disk t' n = (if k \<le> lh_count s then disk s n else view s n))))"
proof -
  let ?ws = "if sint (lh_n s) > 0 then commit_writes s else []"
  have cl: "n \<notin> set (homes s) \<Longrightarrow> view s n = disk s n" for n using clean by blast
  have geom: "unat (log_start s) + LOGBLOCKS < 2 ^ 32" using rdy by (simp add: log_ready_def log_geom_def)
  have N0: "\<not> sint (lh_n s) > 0 \<Longrightarrow> lh_count s = 0 \<and> homes s = []" by (simp add: lh_count_def homes_def)
  have rec: "\<exists>t'. initlog ROOTDEV (log_start s) t = Inr t' \<and>
        (\<forall>n. n \<notin> log_area s \<longrightarrow> disk t' n = (if k \<le> lh_count s then disk s n else view s n))"
    if k: "k \<le> length ?ws" and t: "fresh t" "disk t = apply_writes (take k ?ws) (disk s)" for k and t :: "'z logst_scheme"
  proof -
    let ?t = "t\<lparr>log_start := log_start s, log_dev := ROOTDEV\<rparr>"
    have f: "fresh ?t" using t(1) obs_cong [of ?t t] by (simp add: fresh_def binv_def nunused_def)
    have g: "log_geom ?t" using geom by (simp add: log_geom_def)
    have "hdr_ok (log_start s) (disk t (log_start s)) \<and> (\<forall>n bs. n \<notin> log_area s \<longrightarrow>
        apply_writes (recover_writes (log_start s) bs (disk t)) (disk t) n = (if k \<le> lh_count s then disk s n else view s n))"
    proof (cases "sint (lh_n s) > 0")
      case True
      then show ?thesis using crash_prefix [where k = k, OF rdy cl empty] k by (auto simp: t(2))
    next
      case False
      then have "disk t = disk s" using t(2) by simp
      then show ?thesis using recover_empty [of "disk s", OF empty] hdr_ok_empty [OF empty] N0 [OF False] clean
        by (auto simp: log_area_def)
    qed
    then have ok: "hdr_ok (log_start ?t) (disk ?t (log_start ?t))" and post: "\<And>n bs. n \<notin> log_area s \<Longrightarrow>
        apply_writes (recover_writes (log_start s) bs (disk t)) (disk t) n = (if k \<le> lh_count s then disk s n else view s n)"
      by simp_all
    obtain t' bs where "recover_from_log ?t = Inr t'"
      "disk t' = apply_writes (recover_writes (log_start ?t) bs (disk ?t)) (disk ?t)"
      by (rule recover_spec [OF f g ok])
    with post show ?thesis by (simp add: initlog_def)
  qed
  have "\<exists>s'. commit s = Inr s' \<and> dwrites s' = dwrites s @ ?ws \<and> disk s' = apply_writes ?ws (disk s) \<and>
      (\<forall>n. n \<notin> log_area s \<longrightarrow> disk s' n = view s n \<and> view s' n = view s n)"
  proof (cases "sint (lh_n s) > 0")
    case True
    have p: "k < lh_count s \<Longrightarrow> 0 < refs s (lh_block s k)" for k using pin log_readyD(3) [OF rdy] by blast
    obtain s' where c: "commit s = Inr s'" "dwrites s' = dwrites s @ commit_writes s"
      "disk s' = apply_writes (commit_writes s) (disk s)" "view s' = apply_writes (commit_writes s) (view s)"
      by (rule commit_spec [OF rdy p av True])
    have nn: "apply_writes (commit_writes s) d n = (if n \<in> set (homes s) then view s n else d n)"
      if n: "n \<notin> log_area s" for n d
    proof -
      have "n \<noteq> log_start s" using n by auto
      then show ?thesis
        using log_copies_area [OF rdy n, of "lh_count s"] home_writes_take [of "lh_count s" s]
        by (simp add: commit_writes_split home_writes_def log_copies_def homes_def atLeast0LessThan)
    qed
    show ?thesis using c True cl by (auto simp: nn)
  next
    case False
    then show ?thesis using clean N0 by (simp add: commit_def)
  qed
  with rec show ?thesis by blast
qed

theorem commit_crash_atomic_witness:
  "\<exists>s'. commit demo_log = Inr s' \<and> disk s' 50 = (\<lambda>_. 1) \<and> disk s' 49 = (\<lambda>_. 49)"
proof -
  have "hdr_count (disk demo_log (log_start demo_log)) = 0"
    by (simp add: demo_log_sel hdr_count_def ld32_def peek_def upt_rec)
  with commit_crash_atomic [of demo_log, OF demo_log_ready]
  obtain s' where "commit demo_log = Inr s'" "\<forall>n. n \<notin> log_area demo_log \<longrightarrow> disk s' n = view demo_log n"
    by (auto simp: demo_log_sel(8) demo_log_obs)
  then show ?thesis by (auto simp: demo_log_area demo_log_obs demo_log_sel demo_bio_def)
qed

end
