(* ===== verification/LogAdmit.thy ===== *)
theory LogAdmit
  imports LogSpec
begin

text \<open>
  Admission to the log: \<open>begin_op\<close> reserves room for an operation before it starts. Operations of many processes run interleaved; as
  long as each adds at most \<open>MAXOPBLOCKS\<close> blocks to the log, the log never overflows. A log that is exactly full can be reached, and then
  \<open>log_write\<close> panics even for a block that is in the log already.
\<close>

section \<open>What the buffer cache leaves alone\<close>

lemma kern_more [simp]:
  "bio.more (upd_buf b f s) = bio.more s" "bio.more (disk_rw b w s) = bio.more s" "bio.more (wakeup ch s) = bio.more s"
  "bio.more (bunpin b s) = bio.more s" "bio.more (bpin b s) = bio.more s"
  by (cases s; simp add: upd_buf_def disk_rw_def wakeup_def bunpin_def bpin_def Let_def)+

lemma bread_more: "bread dev n s = Inr (b, s1) \<Longrightarrow> bio.more s1 = bio.more s"
  by (auto simp: bread_def bget_def lock_buf_def kres_simps split: option.splits if_splits)

lemma brelse_more: "brelse b s = Inr s1 \<Longrightarrow> bio.more s1 = bio.more s"
  by (auto simp: brelse_def releasesleep_def Let_def split: if_splits prod.splits)

lemma bwrite_more: "bwrite b s = Inr s1 \<Longrightarrow> bio.more s1 = bio.more s"
  by (auto simp: bwrite_def split: if_splits)

lemma log_of_more:
  assumes "bio.more s1 = bio.more s"
  shows "lh_n s1 = lh_n s" "outstanding s1 = outstanding s" "committing s1 = committing s"
  using assms by (cases s; cases s1; simp)+

lemma kfold_more:
  assumes "\<And>i s s1. f i s = Inr s1 \<Longrightarrow> bio.more s1 = bio.more s"
  shows "kfold f xs s = Inr s1 \<Longrightarrow> bio.more s1 = bio.more s"
proof (induction xs arbitrary: s)
  case (Cons x xs)
  then obtain s2 where "f x s = Inr s2" "kfold f xs s2 = Inr s1" by (auto simp: kres_simps)
  then show ?case using Cons.IH assms by metis
qed simp

lemma write_log_more: "write_log s = Inr s1 \<Longrightarrow> bio.more s1 = bio.more s"
  unfolding write_log_def
  by (rule kfold_more [of write_log_step]) (auto simp: write_log_step_def kres_simps dest!: bread_more brelse_more bwrite_more)

lemma install_more: "install_trans False s = Inr s1 \<Longrightarrow> bio.more s1 = bio.more s"
  unfolding install_trans_def
  by (rule kfold_more [of "install_step False"]) (auto simp: install_step_def kres_simps dest!: bread_more brelse_more bwrite_more)

lemma write_head_more: "write_head s = Inr s1 \<Longrightarrow> bio.more s1 = bio.more s"
  by (auto simp: write_head_def kres_simps dest!: bread_more brelse_more bwrite_more)

lemma sint_of_nat32: "n < 2 ^ 31 \<Longrightarrow> sint (of_nat n :: u32) = int n"
  by (simp add: sint_uint unsigned_of_nat take_bit_nat_eq_self signed_take_bit_eq_if_positive bit_iff_odd take_bit_int_eq_self)

text \<open>A commit that returns leaves an empty log.\<close>

lemma commit_empties:
  assumes "commit s = Inr s1" and "lh_n s = of_nat n" and "n \<le> LOGBLOCKS"
  shows "lh_n s1 = 0" "outstanding s1 = outstanding s" "committing s1 = committing s"
proof -
  have n: "sint (lh_n s) = int n" unfolding assms(2) using assms(3) by (simp add: sint_of_nat32)
  have "lh_n s1 = 0 \<and> outstanding s1 = outstanding s \<and> committing s1 = committing s"
  proof (cases "n = 0")
    case True
    then show ?thesis using assms(1,2) n by (simp add: commit_def)
  next
    case False
    then obtain s2 s3 s4 where r: "write_log s = Inr s2" "write_head s2 = Inr s3" "install_trans False s3 = Inr s4" "write_head (s4\<lparr>lh_n := 0\<rparr>) = Inr s1"
      using assms(1) n by (auto simp: commit_def kres_simps)
    have "bio.more s4 = bio.more s" using write_log_more [OF r(1)] write_head_more [OF r(2)] install_more [OF r(3)] by simp
    moreover have "bio.more s1 = bio.more (s4\<lparr>lh_n := 0\<rparr>)" by (rule write_head_more [OF r(4)])
    ultimately show ?thesis using log_of_more [of s4 s] log_of_more [of s1 "s4\<lparr>lh_n := 0\<rparr>"] by simp
  qed
  then show "lh_n s1 = 0" "outstanding s1 = outstanding s" "committing s1 = committing s" by auto
qed

section \<open>Interleaved operations\<close>

text \<open>
  \<open>left p\<close> is the number of blocks that the operation of process \<open>p\<close> may still add; \<open>None\<close> outside an operation. The
  rest of the kernel may do anything that leaves the log alone. The commit of the last \<open>end_op\<close> is one step: while it runs
  \<open>committing\<close> is set, so that \<open>begin_op\<close> sleeps, and no operation is left that could write.
\<close>

inductive ops :: "'z logst_scheme \<Rightarrow> (nat \<Rightarrow> nat option) \<Rightarrow> bool" where
  start: "lh_n s = 0 \<Longrightarrow> outstanding s = 0 \<Longrightarrow> \<not> committing s \<Longrightarrow> ops s Map.empty"
| admit: "ops s left \<Longrightarrow> left p = None \<Longrightarrow> begin_op s = Inr s1 \<Longrightarrow> ops s1 (left(p \<mapsto> MAXOPBLOCKS))"
| log: "ops s left \<Longrightarrow> left p = Some k \<Longrightarrow> log_write b s = Inr s1 \<Longrightarrow> lh_count s1 - lh_count s \<le> k \<Longrightarrow>
    ops s1 (left(p \<mapsto> k - (lh_count s1 - lh_count s)))"
| finish: "ops s left \<Longrightarrow> left p \<noteq> None \<Longrightarrow> end_op s = Inr s1 \<Longrightarrow> ops s1 (left(p := None))"
| other: "ops s left \<Longrightarrow> lh_n s1 = lh_n s \<Longrightarrow> outstanding s1 = outstanding s \<Longrightarrow> committing s1 = committing s \<Longrightarrow> ops s1 left"

definition room_left :: "(nat \<Rightarrow> nat option) \<Rightarrow> nat" where
  "room_left left = (\<Sum>p\<in>dom left. the (left p))"

definition ainv :: "'z logst_scheme \<Rightarrow> (nat \<Rightarrow> nat option) \<Rightarrow> bool" where
  "ainv s left \<longleftrightarrow> finite (dom left) \<and> \<not> committing s \<and> outstanding s = of_nat (card (dom left)) \<and> card (dom left) \<le> 3 \<and>
     (\<forall>p k. left p = Some k \<longrightarrow> k \<le> MAXOPBLOCKS) \<and> (left = Map.empty \<longrightarrow> lh_n s = 0) \<and>
     (\<exists>n. lh_n s = of_nat n \<and> n + room_left left \<le> LOGBLOCKS)"

lemma room_left_upd:
  assumes "finite (dom left)"
  shows "room_left (left(p \<mapsto> k)) = room_left (left(p := None)) + k"
    and "left p = Some m \<Longrightarrow> room_left left = room_left (left(p := None)) + m"
    and "left p = None \<Longrightarrow> room_left (left(p := None)) = room_left left"
proof -
  have d: "dom (left(p \<mapsto> k)) = insert p (dom left - {p})" "dom (left(p := None)) = dom left - {p}" by auto
  have e: "(\<Sum>q\<in>dom left - {p}. the ((left(p \<mapsto> k)) q)) = (\<Sum>q\<in>dom left - {p}. the ((left(p := None)) q))"
    by (rule sum.cong) auto
  show u: "room_left (left(p \<mapsto> k)) = room_left (left(p := None)) + k" for k
    unfolding room_left_def d using assms e by (simp add: sum.insert_remove del: fun_upd_apply) simp
  show "left p = Some m \<Longrightarrow> room_left left = room_left (left(p := None)) + m"
    using u [of m] by (simp add: fun_upd_idem)
  show "left p = None \<Longrightarrow> room_left (left(p := None)) = room_left left" by (simp add: fun_upd_idem)
qed

lemma room_left_le:
  assumes "\<And>p k. left p = Some k \<Longrightarrow> k \<le> m"
  shows "room_left left \<le> card (dom left) * m"
  unfolding room_left_def using sum_bounded_above [of "dom left" "\<lambda>p. the (left p)" m] assms by (auto simp: dom_def)

lemma ainv_admit:
  assumes i: "ainv s left" and p: "left p = None" and b: "begin_op s = Inr s1"
  shows "ainv s1 (left(p \<mapsto> MAXOPBLOCKS))"
proof -
  let ?c = "card (dom left)"
  obtain n where n: "lh_n s = of_nat n" "n + room_left left \<le> LOGBLOCKS" and f: "finite (dom left)"
    and o: "outstanding s = of_nat ?c" "?c \<le> 3" and k: "\<And>p k. left p = Some k \<Longrightarrow> k \<le> MAXOPBLOCKS"
    using i unfolding ainv_def by blast
  have w: "lh_n s + (outstanding s + 1) * of_nat MAXOPBLOCKS = of_nat (n + (?c + 1) * MAXOPBLOCKS)"
    by (simp add: n o algebra_simps)
  have "sint (lh_n s + (outstanding s + 1) * of_nat MAXOPBLOCKS) = int (n + (?c + 1) * MAXOPBLOCKS)"
    unfolding w using n(2) o(2) by (intro sint_of_nat32) simp
  then have a: "n + (?c + 1) * MAXOPBLOCKS \<le> LOGBLOCKS" "s1 = s\<lparr>outstanding := outstanding s + 1\<rparr>"
    using b by (auto simp: begin_op_def split: if_splits)
  have "room_left (left(p \<mapsto> MAXOPBLOCKS)) = room_left left + MAXOPBLOCKS"
    using room_left_upd(1,3) [OF f] p by metis
  moreover have r: "room_left left \<le> ?c * MAXOPBLOCKS" by (rule room_left_le) (rule k)
  ultimately have "n + room_left (left(p \<mapsto> MAXOPBLOCKS)) \<le> LOGBLOCKS" using a(1) r by simp
  moreover have "dom (left(p \<mapsto> MAXOPBLOCKS)) = insert p (dom left)" "p \<notin> dom left" using p by auto
  moreover have "\<forall>q j. (left(p \<mapsto> MAXOPBLOCKS)) q = Some j \<longrightarrow> j \<le> MAXOPBLOCKS" using k by (auto split: if_splits)
  moreover have "\<not> committing s" using i by (simp add: ainv_def)
  moreover have "lh_n s1 = of_nat n" "outstanding s1 = of_nat (card (insert p (dom left)))" "committing s1 = committing s"
    using a(2) n(1) o(1) f p by (simp_all add: card_insert_if domIff)
  moreover have "card (insert p (dom left)) \<le> 3" using a(1) f by (simp add: card_insert_if)
  ultimately show ?thesis using f unfolding ainv_def by (auto simp del: fun_upd_apply)
qed

lemma log_write_result:
  assumes "lh_n s = of_nat n" and "n < LOGBLOCKS" and "outstanding s = of_nat c" and "0 < c" and "c \<le> 3"
  shows "\<exists>s1. log_write b s = Inr s1"
    and "log_write b s = Inr s1 \<Longrightarrow> outstanding s1 = outstanding s \<and> committing s1 = committing s \<and>
      (lh_n s1 = of_nat n \<or> lh_n s1 = of_nat (n + 1))"
proof -
  have "sint (lh_n s) = int n" "sint (outstanding s) = int c"
    unfolding assms(1,3) using assms(2,5) by (simp_all add: sint_of_nat32)
  then show "\<exists>s1. log_write b s = Inr s1" using assms(2,4) by (simp add: log_write_def Let_def)
  have "outstanding (bpin b s) = outstanding s" "committing (bpin b s) = committing s" for s :: "'a logst_scheme"
    using log_of_more [of "bpin b s" s] by simp_all
  then show "log_write b s = Inr s1 \<Longrightarrow> outstanding s1 = outstanding s \<and> committing s1 = committing s \<and>
      (lh_n s1 = of_nat n \<or> lh_n s1 = of_nat (n + 1))"
    using assms(1) by (auto simp: log_write_def Let_def split: if_splits)
qed

lemma lh_count_of_nat: "lh_n s = of_nat n \<Longrightarrow> n < 2 ^ 31 \<Longrightarrow> lh_count s = n"
  by (simp add: lh_count_def sint_of_nat32)

lemma ainvE:
  assumes "ainv s left"
  obtains n where "lh_n s = of_nat n" "n + room_left left \<le> LOGBLOCKS" "finite (dom left)" "\<not> committing s"
    "outstanding s = of_nat (card (dom left))" "card (dom left) \<le> 3" "\<forall>p k. left p = Some k \<longrightarrow> k \<le> MAXOPBLOCKS"
    "left = Map.empty \<Longrightarrow> lh_n s = 0"
  using assms unfolding ainv_def by blast

lemma ainv_log:
  assumes i: "ainv s left" and p: "left p = Some k" and w: "log_write b s = Inr s1"
    and g: "lh_count s1 - lh_count s \<le> k"
  shows "ainv s1 (left(p \<mapsto> k - (lh_count s1 - lh_count s)))"
proof -
  from i obtain n where n: "lh_n s = of_nat n" "n + room_left left \<le> LOGBLOCKS" and f: "finite (dom left)" and c: "\<not> committing s"
    and o: "outstanding s = of_nat (card (dom left))" "card (dom left) \<le> 3" and b: "\<forall>p k. left p = Some k \<longrightarrow> k \<le> MAXOPBLOCKS"
    by (rule ainvE)
  have n30: "n < LOGBLOCKS"
  proof (rule ccontr)
    assume "\<not> n < LOGBLOCKS"
    then have "sint (lh_n s) \<ge> int LOGBLOCKS" using n by (simp add: sint_of_nat32)
    then show False using w by (simp add: log_write_def)
  qed
  have c0: "0 < card (dom left)" using f p by (auto simp: card_gt_0_iff)
  note r = log_write_result(2) [OF n(1) n30 o(1) c0 o(2) w]
  then obtain m where m: "lh_n s1 = of_nat m" "m = n \<or> m = n + 1" by blast
  let ?l = "left(p \<mapsto> k - (lh_count s1 - lh_count s))"
  have cnt: "lh_count s = n" "lh_count s1 = m" using lh_count_of_nat [OF n(1)] lh_count_of_nat [OF m(1)] m(2) n30 by auto
  have "m + room_left ?l \<le> n + room_left left"
    using room_left_upd(1) [OF f, of p "k - (lh_count s1 - lh_count s)"] room_left_upd(2) [OF f p] g m(2) cnt by auto
  then have "\<exists>m. lh_n s1 = of_nat m \<and> m + room_left ?l \<le> LOGBLOCKS" using m(1) n(2) order_trans by blast
  moreover have "dom ?l = dom left" "?l \<noteq> Map.empty" using p by auto
  moreover have "k \<le> MAXOPBLOCKS" using b p by blast
  then have "\<forall>q j. ?l q = Some j \<longrightarrow> j \<le> MAXOPBLOCKS" using b by auto
  moreover have "outstanding s1 = of_nat (card (dom left))" "\<not> committing s1" using r c o(1) by simp_all
  ultimately show ?thesis using f o(2) unfolding ainv_def by (simp del: fun_upd_apply)
qed

lemma end_op_log:
  assumes "end_op s = Inr s1" and "lh_n s = of_nat n" and "n \<le> LOGBLOCKS"
  shows "outstanding s1 = outstanding s - 1" "\<not> committing s1" "lh_n s1 = (if outstanding s1 = 0 then 0 else lh_n s)"
proof -
  have w: "outstanding (wakeup ch s) = outstanding s" "committing (wakeup ch s) = committing s" "lh_n (wakeup ch s) = lh_n s"
    for s :: "'a logst_scheme" and ch using log_of_more [of "wakeup ch s" s] by simp_all
  show "outstanding s1 = outstanding s - 1" "\<not> committing s1" "lh_n s1 = (if outstanding s1 = 0 then 0 else lh_n s)"
    using assms commit_empties [of "s\<lparr>outstanding := outstanding s - 1, committing := True\<rparr>" _ n]
    by (auto simp: end_op_def Let_def kres_simps w split: if_splits)
qed

lemma ainv_finish:
  assumes i: "ainv s left" and p: "left p \<noteq> None" and e: "end_op s = Inr s1"
  shows "ainv s1 (left(p := None))"
proof -
  from i obtain n where n: "lh_n s = of_nat n" "n + room_left left \<le> LOGBLOCKS" and f: "finite (dom left)"
    and o: "outstanding s = of_nat (card (dom left))" "card (dom left) \<le> 3" and b: "\<forall>p k. left p = Some k \<longrightarrow> k \<le> MAXOPBLOCKS"
    by (rule ainvE)
  have "n \<le> LOGBLOCKS" using n(2) by simp
  note e = end_op_log [OF e n(1) this]
  let ?l = "left(p := None)"
  have d: "dom ?l = dom left - {p}" "p \<in> dom left" using p by auto
  have c: "card (dom left) = Suc (card (dom ?l))" using d f by (metis card_Suc_Diff1)
  have o1: "outstanding s1 = of_nat (card (dom ?l))" using e(1) o(1) c by simp
  have z: "?l = Map.empty \<Longrightarrow> lh_n s1 = 0" using e(3) o1 by simp
  have "\<exists>m. lh_n s1 = of_nat m \<and> m \<le> n" 
    by (rule exI [of _ "if outstanding s1 = 0 then 0 else n"]) (simp add: e(3) n(1))
  moreover have "room_left ?l \<le> room_left left" using p room_left_upd(2) [OF f, of p] by fastforce
  ultimately have "\<exists>m. lh_n s1 = of_nat m \<and> m + room_left ?l \<le> LOGBLOCKS" using n(2) by fastforce
  moreover have "finite (dom ?l)" using f d by simp
  moreover have "\<forall>q j. ?l q = Some j \<longrightarrow> j \<le> MAXOPBLOCKS" using b by simp
  ultimately show ?thesis using z e(2) o1 c o(2) unfolding ainv_def by (simp del: fun_upd_apply)
qed

lemma ops_ainv: "ops s left \<Longrightarrow> ainv s left"
proof (induction rule: ops.induct)
  case (start s)
  then show ?case by (auto simp: ainv_def room_left_def intro: exI [of _ 0])
next
  case (other s left s1)
  then show ?case by (simp add: ainv_def)
next
  case (admit s left p s1)
  from ainv_admit [OF admit.IH admit.hyps(2,3)] show ?case .
next
  case (log s left p k b s1)
  from ainv_log [OF log.IH log.hyps(2-4)] show ?case .
next
  case (finish s left p s1)
  from ainv_finish [OF finish.IH finish.hyps(2,3)] show ?case .
qed




definition demo_ops :: logst where
  "demo_ops = demo_log0\<lparr>lh_n := 0\<rparr>"



section \<open>A full log\<close>

lemma log_slot_new: "\<forall>i < lh_count s. lh_block s i \<noteq> bn \<Longrightarrow> log_slot bn s = lh_count s"
  by (auto simp: log_slot_def find_None_iff split: option.split) (auto simp: find_Some_iff)

text \<open>An operation can use all its reservation.\<close>

lemma fill_log:
  fixes s :: logst
  assumes "ops s left" and "left q = Some m" and "lh_n s = of_nat n" and "\<forall>i < n. lh_block s i = of_nat i" and "n + m \<le> LOGBLOCKS"
  shows "\<exists>s1 :: logst. ops s1 (left(q \<mapsto> 0)) \<and> lh_n s1 = of_nat (n + m) \<and> (\<forall>i < n + m. lh_block s1 i = of_nat i) \<and> outstanding s1 = outstanding s"
  using assms
proof (induction m arbitrary: s left n)
  case 0
  then show ?case by (auto simp: fun_upd_idem)
next
  case (Suc m)
  define s0 where "s0 = upd_buf 0 (\<lambda>b. b\<lparr>blockno := of_nat n\<rparr>) s"
  have same: "lh_n s0 = lh_n s" "outstanding s0 = outstanding s" "committing s0 = committing s" "lh_block s0 = lh_block s"
    "blockno (bufs s0 0) = of_nat n" by (simp_all add: s0_def upd_buf_def)
  have ops0: "ops s0 left" by (rule ops.other [OF Suc.prems(1) same(1-3)])
  from ops_ainv [OF ops0] obtain f: "finite (dom left)" and o: "outstanding s0 = of_nat (card (dom left))" "card (dom left) \<le> 3"
    by (rule ainvE) blast
  have c: "0 < card (dom left)" using f Suc.prems(2) by (auto simp: card_gt_0_iff)
  have cnt: "lh_count s0 = n" using same(1) Suc.prems(3,5) by (intro lh_count_of_nat) auto
  have "unat (of_nat i :: u32) = i" if "i \<le> n" for i
    using that Suc.prems(5) by (simp add: unat_of_nat)
  then have "of_nat i \<noteq> (of_nat n :: u32)" if "i < n" for i
    using that by (metis less_imp_le nat_neq_iff order_refl)
  then have sl: "log_slot (of_nat n) s0 = n" using log_slot_new [of s0 "of_nat n"] Suc.prems(4) same(4) cnt by auto
  have pin: "lh_n (bpin b s) = lh_n s" "lh_block (bpin b s) = lh_block s" "outstanding (bpin b s) = outstanding s" for b and s :: logst
    by (cases s; simp add: bpin_def upd_buf_def)+
  define s1 where "s1 = (bpin 0 (s0\<lparr>lh_block := (lh_block s0)(n := of_nat n)\<rparr>))\<lparr>lh_n := lh_n s0 + 1\<rparr>"
  have s1: "lh_n s1 = of_nat (n + 1)" "lh_block s1 = (lh_block s)(n := of_nat n)" "outstanding s1 = outstanding s"
    by (simp_all add: s1_def pin same Suc.prems(3))
  obtain s2 where "log_write 0 s0 = Inr s2"
    using log_write_result(1) [OF _ _ o(1) c o(2)] same(1) Suc.prems(3,5) by fastforce
  then have w: "log_write 0 s0 = Inr s1" using sl cnt same(5)
    by (auto simp: log_write_def Let_def lh_count_def s1_def split: if_splits)
  have d: "lh_count s1 - lh_count s0 = 1" using lh_count_of_nat [OF s1(1)] Suc.prems(5) cnt by simp
  have "ops s1 (left(q \<mapsto> m))" using ops.log [OF ops0 Suc.prems(2) w] d by simp
  moreover have "\<forall>i < n + 1. lh_block s1 i = of_nat i" using s1(2) Suc.prems(4) by (simp add: less_Suc_eq)
  ultimately obtain s2 :: logst where "ops s2 (left(q \<mapsto> m, q \<mapsto> 0))" "lh_n s2 = of_nat (n + 1 + m)"
    "\<forall>i < n + 1 + m. lh_block s2 i = of_nat i" "outstanding s2 = outstanding s1"
    using Suc.IH [of s1 "left(q \<mapsto> m)" "n + 1", OF _ _ s1(1)] Suc.prems(5) by (auto simp del: fun_upd_apply simp: fun_upd_same)
  then show ?case using s1(3) by (intro exI [of _ s2]) (simp del: fun_upd_apply)
qed

lemma full_log_panics:
  "\<exists>s :: logst. ops s (Map.empty(1 \<mapsto> 0, 2 \<mapsto> 0, 3 \<mapsto> 0)) \<and> lh_count s = LOGBLOCKS \<and>
     (\<exists>i < lh_count s. lh_block s i = 5) \<and> log_write b s = kpanic ''too big a transaction''"
proof -
  have s: "lh_n demo_ops = 0" "outstanding demo_ops = 0" "\<not> committing demo_ops"
    by (simp_all add: demo_ops_def demo_log0_def bio.extend_def)
  then have "ops demo_ops Map.empty" by (rule ops.start)
  then have "ops (demo_ops\<lparr>outstanding := 1\<rparr>) (Map.empty(1 \<mapsto> MAXOPBLOCKS))"
    by (rule ops.admit) (simp_all add: begin_op_def s)
  then have "ops (demo_ops\<lparr>outstanding := 2\<rparr>) (Map.empty(1 \<mapsto> MAXOPBLOCKS, 2 \<mapsto> MAXOPBLOCKS))"
    by (rule ops.admit) (simp_all add: begin_op_def s)
  then have "ops (demo_ops\<lparr>outstanding := 3\<rparr>) (Map.empty(1 \<mapsto> MAXOPBLOCKS, 2 \<mapsto> MAXOPBLOCKS, 3 \<mapsto> MAXOPBLOCKS))"
    by (rule ops.admit) (simp_all add: begin_op_def s)
  from fill_log [OF this, of 1 10 0] obtain a :: logst where "ops a (Map.empty(1 \<mapsto> 0, 2 \<mapsto> 10, 3 \<mapsto> 10))" "lh_n a = of_nat 10"
    "\<forall>i < 10. lh_block a i = of_nat i" by (auto simp: s fun_upd_twist)
  from fill_log [OF this(1), of 2 10 10] this(2,3) obtain b' :: logst where "ops b' (Map.empty(1 \<mapsto> 0, 2 \<mapsto> 0, 3 \<mapsto> 10))"
    "lh_n b' = of_nat 20" "\<forall>i < 20. lh_block b' i = of_nat i" by (auto simp: fun_upd_twist)
  from fill_log [OF this(1), of 3 10 20] this(2,3) obtain c :: logst where c: "ops c (Map.empty(1 \<mapsto> 0, 2 \<mapsto> 0, 3 \<mapsto> 0))"
    "lh_n c = of_nat 30" "\<forall>i < 30. lh_block c i = of_nat i" by auto
  have "lh_count c = 30" using lh_count_of_nat [OF c(2)] by simp
  moreover have "\<exists>i < 30. lh_block c i = 5" using c(3) by (intro exI [of _ 5]) simp
  moreover have "log_write b c = kpanic ''too big a transaction''" using c(2) by (simp add: log_write_def)
  ultimately show ?thesis using c(1) by (intro exI [of _ c]) auto
qed

end
