(* ===== verification/Fs.thy ===== *)
theory Fs
  imports Log
begin

unbundle bit_operations_syntax

text \<open>
  \<^verbatim>\<open>kernel/fs.c\<close> and \<^verbatim>\<open>kernel/fs.h\<close>: the block allocator, inodes, directories and path names. The
  in-memory inode table is a function from the index; an inode pointer is an index, null is \<open>None\<close>.
  On-disk structures are read and written at their offsets in a block: \<^verbatim>\<open>struct dinode\<close> is 64
  bytes (four shorts, \<open>size\<close> at 8, \<open>addrs\<close> at 12), \<^verbatim>\<open>struct dirent\<close> 16 (\<open>inum\<close>, then 14 bytes of
  name). Names and paths are the bytes before the terminating NUL.
\<close>

section \<open>State\<close>

definition NDIRECT :: nat where [simp]: "NDIRECT = 12"
definition NINDIRECT :: nat where [simp]: "NINDIRECT = 256"
definition MAXFILE :: nat where [simp]: "MAXFILE = NDIRECT + NINDIRECT"
definition ROOTINO :: u32 where "ROOTINO = 1"
abbreviation FSMAGIC :: u32 where "FSMAGIC \<equiv> 0x10203040"
definition IPB :: nat where [simp]: "IPB = 16"
definition BPB :: nat where [simp]: "BPB = BSIZE * 8"
definition DIRSIZ :: nat where [simp]: "DIRSIZ = 14"
definition T_DIR :: u16 where "T_DIR = 1"
definition T_FILE :: u16 where "T_FILE = 2"
definition T_DEVICE :: u16 where "T_DEVICE = 3"

record superblock =
  sb_magic :: u32
  sb_size :: u32
  sb_nblocks :: u32
  sb_ninodes :: u32
  sb_nlog :: u32
  sb_logstart :: u32
  sb_inodestart :: u32
  sb_bmapstart :: u32

record inode =
  idev :: u32
  inum :: u32
  iref :: i32
  ilk :: sleeplock
  ivalid :: bool
  itype :: u16
  imajor :: u16
  iminor :: u16
  inlink :: u16
  isize :: u32
  iaddrs :: "u32 list"

record stat =
  st_dev :: u32
  st_ino :: u32
  st_type :: u16
  st_nlink :: u16
  st_size :: u64

record fsst = logst +
  fsb :: superblock
  itable :: "nat \<Rightarrow> inode"

definition upd_inode :: "nat \<Rightarrow> (inode \<Rightarrow> inode) \<Rightarrow> 'z fsst_scheme \<Rightarrow> 'z fsst_scheme" where
  "upd_inode i f s = s\<lparr>itable := (itable s)(i := f (itable s i))\<rparr>"

definition IBLOCK :: "u32 \<Rightarrow> 'z fsst_scheme \<Rightarrow> u32" where
  "IBLOCK i s = i div of_nat IPB + sb_inodestart (fsb s)"

definition BBLOCK :: "u32 \<Rightarrow> 'z fsst_scheme \<Rightarrow> u32" where
  "BBLOCK b s = b div of_nat BPB + sb_bmapstart (fsb s)"

section \<open>The super block and blocks\<close>

definition readsb :: "u32 \<Rightarrow> 'z fsst_scheme \<Rightarrow> 'z fsst_scheme kres" where
  "readsb dev s =
     kbind (bread dev 1 s) (\<lambda>(bp, s1).
     let d = bdata (bufs s1 bp) in
     brelse bp (s1\<lparr>fsb := \<lparr>sb_magic = ld32 d 0, sb_size = ld32 d 4, sb_nblocks = ld32 d 8,
       sb_ninodes = ld32 d 12, sb_nlog = ld32 d 16, sb_logstart = ld32 d 20,
       sb_inodestart = ld32 d 24, sb_bmapstart = ld32 d 28\<rparr>\<rparr>))"

definition set_bdata :: "nat \<Rightarrow> block \<Rightarrow> 'z bio_scheme \<Rightarrow> 'z bio_scheme" where
  "set_bdata b d s = upd_buf b (\<lambda>x. x\<lparr>bdata := d\<rparr>) s"

definition bzero :: "u32 \<Rightarrow> u32 \<Rightarrow> 'z fsst_scheme \<Rightarrow> 'z fsst_scheme kres" where
  "bzero dev bno s =
     kbind (bread dev bno s) (\<lambda>(bp, s1).
     kbind (log_write bp (set_bdata bp (\<lambda>i. if i < BSIZE then 0 else bdata (bufs s1 bp) i) s1)) (brelse bp))"

definition bit_mask :: "nat \<Rightarrow> byte" where
  "bit_mask bi = push_bit (bi mod 8) 1"

definition bit_free :: "block \<Rightarrow> nat \<Rightarrow> bool" where
  "bit_free d bi \<longleftrightarrow> d (bi div 8) AND bit_mask bi = 0"

text \<open>The bounds of the loops do not change while they run: \<open>nb\<close> is \<^verbatim>\<open>sb.size\<close>.\<close>

function balloc_loop :: "u32 \<Rightarrow> nat \<Rightarrow> nat \<Rightarrow> 'z fsst_scheme \<Rightarrow> (u32 \<times> 'z fsst_scheme) kres" where
  "balloc_loop dev nb b s =
     (if b < nb then
        kbind (bread dev (BBLOCK (of_nat b) s) s) (\<lambda>(bp, s1).
          case find (\<lambda>bi. bit_free (bdata (bufs s1 bp)) bi) [0..<min BPB (nb - b)] of
            Some bi \<Rightarrow>
              let d = bdata (bufs s1 bp) in
              kbind (log_write bp (set_bdata bp (d(bi div 8 := d (bi div 8) OR bit_mask bi)) s1)) (\<lambda>s2.
              kbind (brelse bp s2) (\<lambda>s3.
              kbind (bzero dev (of_nat (b + bi)) s3) (\<lambda>s4.
              Inr (of_nat (b + bi), s4))))
          | None \<Rightarrow> kbind (brelse bp s1) (\<lambda>s2. balloc_loop dev nb (b + BPB) s2))
      else Inr (0, kprintf ''balloc: out of blocks\<newline>'' [] s))"
  by pat_completeness auto
termination by (relation "measure (\<lambda>(_, nb, b, _). nb - b)") auto

declare balloc_loop.simps [simp del]

definition balloc :: "u32 \<Rightarrow> 'z fsst_scheme \<Rightarrow> (u32 \<times> 'z fsst_scheme) kres" where
  "balloc dev s = balloc_loop dev (unat (sb_size (fsb s))) 0 s"

definition bfree :: "u32 \<Rightarrow> u32 \<Rightarrow> 'z fsst_scheme \<Rightarrow> 'z fsst_scheme kres" where
  "bfree dev b s =
     kbind (bread dev (BBLOCK b s) s) (\<lambda>(bp, s1).
     let bi = unat b mod BPB; d = bdata (bufs s1 bp) in
     if bit_free d bi then kpanic ''freeing free block''
     else kbind (log_write bp (set_bdata bp (d(bi div 8 := d (bi div 8) AND NOT (bit_mask bi))) s1)) (brelse bp))"

section \<open>Inodes\<close>

definition iinit :: "'z fsst_scheme \<Rightarrow> 'z fsst_scheme" where
  "iinit s = fold (\<lambda>i. upd_inode i (\<lambda>ip. ip\<lparr>ilk := initsleeplock\<rparr>)) [0..<NINODE] s"

definition dinode_off :: "u32 \<Rightarrow> nat" where
  "dinode_off n = unat n mod IPB * 64"

definition iget :: "u32 \<Rightarrow> u32 \<Rightarrow> 'z fsst_scheme \<Rightarrow> (nat \<times> 'z fsst_scheme) kres" where
  "iget dev n s =
     (case find (\<lambda>i. sint (iref (itable s i)) > 0 \<and> idev (itable s i) = dev \<and> inum (itable s i) = n) [0..<NINODE] of
        Some i \<Rightarrow> Inr (i, upd_inode i (\<lambda>ip. ip\<lparr>iref := iref ip + 1\<rparr>) s)
      | None \<Rightarrow>
          (case find (\<lambda>i. iref (itable s i) = 0) [0..<NINODE] of
             None \<Rightarrow> kpanic ''iget: no inodes''
           | Some i \<Rightarrow> Inr (i, upd_inode i (\<lambda>ip. ip\<lparr>idev := dev, inum := n, iref := 1, ivalid := False\<rparr>) s)))"

function ialloc_loop ::
  "u32 \<Rightarrow> u16 \<Rightarrow> nat \<Rightarrow> nat \<Rightarrow> 'z fsst_scheme \<Rightarrow> (nat option \<times> 'z fsst_scheme) kres" where
  "ialloc_loop dev type ninodes n s =
     (if n < ninodes then
        kbind (bread dev (IBLOCK (of_nat n) s) s) (\<lambda>(bp, s1).
          let d = bdata (bufs s1 bp); off = dinode_off (of_nat n) in
          if ld16 d off = 0 then
            kbind (log_write bp (set_bdata bp (st16 off type (poke off (replicate 64 0) d)) s1)) (\<lambda>s2.
            kbind (brelse bp s2) (\<lambda>s3.
            kbind (iget dev (of_nat n) s3) (\<lambda>(i, s4). Inr (Some i, s4))))
          else kbind (brelse bp s1) (\<lambda>s2. ialloc_loop dev type ninodes (Suc n) s2))
      else Inr (None, kprintf ''ialloc: no inodes\<newline>'' [] s))"
  by pat_completeness auto
termination by (relation "measure (\<lambda>(_, _, ninodes, n, _). ninodes - n)") auto

declare ialloc_loop.simps [simp del]

definition ialloc :: "u32 \<Rightarrow> u16 \<Rightarrow> 'z fsst_scheme \<Rightarrow> (nat option \<times> 'z fsst_scheme) kres" where
  "ialloc dev type s = ialloc_loop dev type (unat (sb_ninodes (fsb s))) 1 s"

definition enc_dinode :: "inode \<Rightarrow> byte list" where
  "enc_dinode ip = le_bytes 2 (unat (itype ip)) @ le_bytes 2 (unat (imajor ip)) @ le_bytes 2 (unat (iminor ip)) @
     le_bytes 2 (unat (inlink ip)) @ le_bytes 4 (unat (isize ip)) @ concat (map (\<lambda>a. le_bytes 4 (unat a)) (iaddrs ip))"

definition iupdate :: "nat \<Rightarrow> 'z fsst_scheme \<Rightarrow> 'z fsst_scheme kres" where
  "iupdate i s =
     (let ip = itable s i in
      kbind (bread (idev ip) (IBLOCK (inum ip) s) s) (\<lambda>(bp, s1).
      kbind (log_write bp (set_bdata bp (poke (dinode_off (inum ip)) (enc_dinode ip) (bdata (bufs s1 bp))) s1))
        (brelse bp)))"

definition idup :: "nat \<Rightarrow> 'z fsst_scheme \<Rightarrow> nat \<times> 'z fsst_scheme" where
  "idup i s = (i, upd_inode i (\<lambda>ip. ip\<lparr>iref := iref ip + 1\<rparr>) s)"

definition dec_dinode :: "block \<Rightarrow> nat \<Rightarrow> inode \<Rightarrow> inode" where
  "dec_dinode d off ip = ip\<lparr>itype := ld16 d off, imajor := ld16 d (off + 2), iminor := ld16 d (off + 4),
     inlink := ld16 d (off + 6), isize := ld32 d (off + 8),
     iaddrs := map (\<lambda>k. ld32 d (off + 12 + 4 * k)) [0..<NDIRECT + 1]\<rparr>"

definition ilock :: "nat option \<Rightarrow> 'z fsst_scheme \<Rightarrow> 'z fsst_scheme kres" where
  "ilock ipp s =
     (case ipp of None \<Rightarrow> kpanic ''ilock''
      | Some i \<Rightarrow>
        if sint (iref (itable s i)) < 1 then kpanic ''ilock''
        else kbind (acquiresleep (ChInodeLock i) (ilk (itable s i)) s) (\<lambda>lk.
          let s1 = upd_inode i (\<lambda>ip. ip\<lparr>ilk := lk\<rparr>) s; ip = itable s1 i in
          if \<not> ivalid ip then
            kbind (bread (idev ip) (IBLOCK (inum ip) s1) s1) (\<lambda>(bp, s2).
            kbind (brelse bp (upd_inode i (dec_dinode (bdata (bufs s2 bp)) (dinode_off (inum ip))) s2)) (\<lambda>s3.
            let s4 = upd_inode i (\<lambda>ip. ip\<lparr>ivalid := True\<rparr>) s3 in
            if itype (itable s4 i) = 0 then kpanic ''ilock: no type'' else Inr s4))
          else Inr s1))"

definition iunlock :: "nat option \<Rightarrow> 'z fsst_scheme \<Rightarrow> 'z fsst_scheme kres" where
  "iunlock ipp s =
     (case ipp of None \<Rightarrow> kpanic ''iunlock''
      | Some i \<Rightarrow>
        if \<not> holdingsleep (ilk (itable s i)) s \<or> sint (iref (itable s i)) < 1 then kpanic ''iunlock''
        else let (lk, s1) = releasesleep (ChInodeLock i) (ilk (itable s i)) s in
          Inr (upd_inode i (\<lambda>ip. ip\<lparr>ilk := lk\<rparr>) s1))"

section \<open>Inode content\<close>

definition bmap :: "nat \<Rightarrow> u32 \<Rightarrow> 'z fsst_scheme \<Rightarrow> (u32 \<times> 'z fsst_scheme) kres" where
  "bmap i bn s =
     (let dev = idev (itable s i); n = unat bn in
      if n < NDIRECT then
        let addr = iaddrs (itable s i) ! n in
        if addr = 0 then
          kbind (balloc dev s) (\<lambda>(a, s1).
            if a = 0 then Inr (0, s1)
            else Inr (a, upd_inode i (\<lambda>ip. ip\<lparr>iaddrs := (iaddrs ip)[n := a]\<rparr>) s1))
        else Inr (addr, s)
      else if n - NDIRECT < NINDIRECT then
        kbind (let addr = iaddrs (itable s i) ! NDIRECT in
               if addr = 0 then
                 kbind (balloc dev s) (\<lambda>(a, s1).
                   if a = 0 then Inr (0, s1)
                   else Inr (a, upd_inode i (\<lambda>ip. ip\<lparr>iaddrs := (iaddrs ip)[NDIRECT := a]\<rparr>) s1))
               else Inr (addr, s)) (\<lambda>(ind, s1).
          if ind = 0 then Inr (0, s1)
          else kbind (bread dev ind s1) (\<lambda>(bp, s2).
            let k = 4 * (n - NDIRECT); addr = ld32 (bdata (bufs s2 bp)) k in
            if addr = 0 then
              kbind (balloc dev s2) (\<lambda>(a, s3).
              kbind (if a \<noteq> 0 then log_write bp (set_bdata bp (st32 k a (bdata (bufs s3 bp))) s3) else Inr s3) (\<lambda>s4.
              kbind (brelse bp s4) (\<lambda>s5. Inr (a, s5))))
            else kbind (brelse bp s2) (\<lambda>s3. Inr (addr, s3))))
      else kpanic ''bmap: out of range'')"

definition itrunc_direct :: "nat \<Rightarrow> nat \<Rightarrow> 'z fsst_scheme \<Rightarrow> 'z fsst_scheme kres" where
  "itrunc_direct i k s =
     (let a = iaddrs (itable s i) ! k in
      if a \<noteq> 0 then
        kbind (bfree (idev (itable s i)) a s) (\<lambda>s1.
        Inr (upd_inode i (\<lambda>ip. ip\<lparr>iaddrs := (iaddrs ip)[k := 0]\<rparr>) s1))
      else Inr s)"

definition itrunc_indirect :: "nat \<Rightarrow> nat \<Rightarrow> nat \<Rightarrow> 'z fsst_scheme \<Rightarrow> 'z fsst_scheme kres" where
  "itrunc_indirect i bp j s =
     (let a = ld32 (bdata (bufs s bp)) (4 * j) in
      if a \<noteq> 0 then bfree (idev (itable s i)) a s else Inr s)"

definition itrunc :: "nat \<Rightarrow> 'z fsst_scheme \<Rightarrow> 'z fsst_scheme kres" where
  "itrunc i s =
     kbind (kfold (itrunc_direct i) [0..<NDIRECT] s) (\<lambda>s1.
     kbind (let a = iaddrs (itable s1 i) ! NDIRECT; dev = idev (itable s1 i) in
       if a \<noteq> 0 then
         kbind (bread dev a s1) (\<lambda>(bp, s2).
         kbind (kfold (itrunc_indirect i bp) [0..<NINDIRECT] s2) (\<lambda>s3.
         kbind (brelse bp s3) (\<lambda>s4.
         kbind (bfree dev (iaddrs (itable s4 i) ! NDIRECT) s4) (\<lambda>s5.
         Inr (upd_inode i (\<lambda>ip. ip\<lparr>iaddrs := (iaddrs ip)[NDIRECT := 0]\<rparr>) s5)))))
       else Inr s1) (\<lambda>s6.
     iupdate i (upd_inode i (\<lambda>ip. ip\<lparr>isize := 0\<rparr>) s6)))"

definition iput :: "nat \<Rightarrow> 'z fsst_scheme \<Rightarrow> 'z fsst_scheme kres" where
  "iput i s =
     (let ip = itable s i in
      kbind
        (if iref ip = 1 \<and> ivalid ip \<and> inlink ip = 0 then
           kbind (acquiresleep (ChInodeLock i) (ilk ip) s) (\<lambda>lk.
           kbind (itrunc i (upd_inode i (\<lambda>ip. ip\<lparr>ilk := lk\<rparr>) s)) (\<lambda>s1.
           kbind (iupdate i (upd_inode i (\<lambda>ip. ip\<lparr>itype := 0\<rparr>) s1)) (\<lambda>s2.
           let s3 = upd_inode i (\<lambda>ip. ip\<lparr>ivalid := False\<rparr>) s2;
               (lk', s4) = releasesleep (ChInodeLock i) (ilk (itable s3 i)) s3 in
           Inr (upd_inode i (\<lambda>ip. ip\<lparr>ilk := lk'\<rparr>) s4))))
         else Inr s)
        (\<lambda>s5. Inr (upd_inode i (\<lambda>ip. ip\<lparr>iref := iref ip - 1\<rparr>) s5)))"

definition iunlockput :: "nat \<Rightarrow> 'z fsst_scheme \<Rightarrow> 'z fsst_scheme kres" where
  "iunlockput i s = kbind (iunlock (Some i) s) (iput i)"

definition ireclaim_step :: "u32 \<Rightarrow> nat \<Rightarrow> 'z fsst_scheme \<Rightarrow> 'z fsst_scheme kres" where
  "ireclaim_step dev n s =
     kbind (bread dev (IBLOCK (of_nat n) s) s) (\<lambda>(bp, s1).
     let d = bdata (bufs s1 bp); off = dinode_off (of_nat n) in
     kbind (if ld16 d off \<noteq> 0 \<and> ld16 d (off + 6) = 0
            then kbind (iget dev (of_nat n) (kprintf ''ireclaim: orphaned inode %d\<newline>'' [PInt (of_nat n)] s1))
                   (\<lambda>(i, s2). Inr (Some i, s2))
            else Inr (None, s1)) (\<lambda>(ipp, s2).
     kbind (brelse bp s2) (\<lambda>s3.
     case ipp of None \<Rightarrow> Inr s3
     | Some i \<Rightarrow>
         kbind (begin_op s3) (\<lambda>s4.
         kbind (ilock (Some i) s4) (\<lambda>s5.
         kbind (iunlock (Some i) s5) (\<lambda>s6.
         kbind (iput i s6) end_op))))))"

definition ireclaim :: "u32 \<Rightarrow> 'z fsst_scheme \<Rightarrow> 'z fsst_scheme kres" where
  "ireclaim dev s = kfold (ireclaim_step dev) [1..<unat (sb_ninodes (fsb s))] s"

definition fsinit :: "u32 \<Rightarrow> 'z fsst_scheme \<Rightarrow> 'z fsst_scheme kres" where
  "fsinit dev s =
     kbind (readsb dev s) (\<lambda>s1.
     if sb_magic (fsb s1) \<noteq> FSMAGIC then kpanic ''invalid file system''
     else kbind (initlog dev (sb_logstart (fsb s1)) s1) (ireclaim dev))"

definition stati :: "nat \<Rightarrow> 'z fsst_scheme \<Rightarrow> stat" where
  "stati i s = (let ip = itable s i in
     \<lparr>st_dev = idev ip, st_ino = inum ip, st_type = itype ip, st_nlink = inlink ip, st_size = ucast (isize ip)\<rparr>)"

end
