(* ===== verification/FsDir.thy ===== *)
theory FsDir
  imports Fs
begin

text \<open>
  The second half of \<^verbatim>\<open>kernel/fs.c\<close>: reading and writing the content of an inode, directories
  and path names. \<open>readi\<close> also returns the bytes it copied, the value of a kernel destination;
  the \<open>uint\<close> results are 32-bit words.
\<close>

section \<open>Reading and writing\<close>

function readi_loop ::
  "nat \<Rightarrow> kdst \<Rightarrow> u32 \<Rightarrow> nat \<Rightarrow> nat \<Rightarrow> 'z fsst_scheme \<Rightarrow> (u32 \<times> byte list \<times> 'z fsst_scheme) kres" where
  "readi_loop i dst off n tot s =
     (if tot < n then
        kbind (bmap i (off div of_nat BSIZE) s) (\<lambda>(addr, s1).
          if addr = 0 then Inr (of_nat tot, [], s1)
          else kbind (bread (idev (itable s1 i)) addr s1) (\<lambda>(bp, s2).
            let o' = unat off mod BSIZE; m = min (n - tot) (BSIZE - o');
                bs = peek (bdata (bufs s2 bp)) o' m in
            kbind (either_copyout dst bs s2) (\<lambda>(r, s3).
              if r = -1 then kbind (brelse bp s3) (\<lambda>s4. Inr (-1, [], s4))
              else kbind (brelse bp s3) (\<lambda>s4.
                kbind (readi_loop i (dst_add dst m) (off + of_nat m) n (tot + m) s4) (\<lambda>(r, cs, s5).
                  Inr (r, bs @ cs, s5))))))
      else Inr (of_nat tot, [], s))"
  by pat_completeness auto
termination by (relation "measure (\<lambda>(_, _, _, n, tot, _). n - tot)") auto

declare readi_loop.simps [simp del]

definition readi ::
  "nat \<Rightarrow> kdst \<Rightarrow> u32 \<Rightarrow> u32 \<Rightarrow> 'z fsst_scheme \<Rightarrow> (u32 \<times> byte list \<times> 'z fsst_scheme) kres" where
  "readi i dst off n s =
     (let sz = isize (itable s i) in
      if off > sz \<or> off + n < off then Inr (0, [], s)
      else let n' = (if off + n > sz then sz - off else n) in readi_loop i dst off (unat n') 0 s)"

function writei_loop ::
  "nat \<Rightarrow> ksrc \<Rightarrow> u32 \<Rightarrow> nat \<Rightarrow> nat \<Rightarrow> 'z fsst_scheme \<Rightarrow> (u32 \<times> u32 \<times> 'z fsst_scheme) kres" where
  "writei_loop i src off n tot s =
     (if tot < n then
        kbind (bmap i (off div of_nat BSIZE) s) (\<lambda>(addr, s1).
          if addr = 0 then Inr (of_nat tot, off, s1)
          else kbind (bread (idev (itable s1 i)) addr s1) (\<lambda>(bp, s2).
            let o' = unat off mod BSIZE; m = min (n - tot) (BSIZE - o') in
            kbind (either_copyin src m s2) (\<lambda>(r, bs, s3).
              let s4 = set_bdata bp (poke o' bs (bdata (bufs s3 bp))) s3 in
              if r = -1 then kbind (brelse bp s4) (\<lambda>s5. Inr (of_nat tot, off, s5))
              else kbind (log_write bp s4) (\<lambda>s5.
                kbind (brelse bp s5) (\<lambda>s6.
                  writei_loop i (src_add src m) (off + of_nat m) n (tot + m) s6)))))
      else Inr (of_nat tot, off, s))"
  by pat_completeness auto
termination by (relation "measure (\<lambda>(_, _, _, n, tot, _). n - tot)") auto

declare writei_loop.simps [simp del]

definition writei ::
  "nat \<Rightarrow> ksrc \<Rightarrow> u32 \<Rightarrow> u32 \<Rightarrow> 'z fsst_scheme \<Rightarrow> (u32 \<times> 'z fsst_scheme) kres" where
  "writei i src off n s =
     (let sz = isize (itable s i) in
      if off > sz \<or> off + n < off then Inr (-1, s)
      else if off + n > of_nat (MAXFILE * BSIZE) then Inr (-1, s)
      else kbind (writei_loop i src off (unat n) 0 s) (\<lambda>(tot, off', s1).
        let s2 = (if off' > isize (itable s1 i) then upd_inode i (\<lambda>ip. ip\<lparr>isize := off'\<rparr>) s1 else s1) in
        kbind (iupdate i s2) (\<lambda>s3. Inr (tot, s3))))"

section \<open>Directories\<close>

primrec strncmp_bytes :: "byte list \<Rightarrow> byte list \<Rightarrow> nat \<Rightarrow> int" where
  "strncmp_bytes p q 0 = 0"
| "strncmp_bytes p q (Suc n) =
     (if char_at p 0 \<noteq> 0 \<and> char_at p 0 = char_at q 0 then strncmp_bytes (tl p) (tl q) n
      else uint (char_at p 0) - uint (char_at q 0))"

definition namecmp :: "byte list \<Rightarrow> byte list \<Rightarrow> int" where
  "namecmp s t = strncmp_bytes s t DIRSIZ"

definition de_inum :: "byte list \<Rightarrow> u16" where
  "de_inum de = of_nat (le_nat (take 2 de))"

definition de_name :: "byte list \<Rightarrow> byte list" where
  "de_name de = take DIRSIZ (drop 2 de)"

definition enc_dirent :: "u16 \<Rightarrow> byte list \<Rightarrow> byte list" where
  "enc_dirent n name = le_bytes 2 (unat n) @ take DIRSIZ (takeWhile (\<lambda>c. c \<noteq> 0) name @ replicate DIRSIZ 0)"

function dirlookup_loop ::
  "nat \<Rightarrow> byte list \<Rightarrow> nat \<Rightarrow> nat \<Rightarrow> 'z fsst_scheme \<Rightarrow> ((nat \<times> u32) option \<times> 'z fsst_scheme) kres" where
  "dirlookup_loop dp name dlen off s =
     (if off < dlen then
        kbind (readi dp VarDst (of_nat off) 16 s) (\<lambda>(r, de, s1).
          if r \<noteq> 16 then kpanic ''dirlookup read''
          else if de_inum de = 0 then dirlookup_loop dp name dlen (off + 16) s1
          else if namecmp name (de_name de) = 0 then
            kbind (iget (idev (itable s1 dp)) (ucast (de_inum de)) s1) (\<lambda>(i, s2). Inr (Some (i, of_nat off), s2))
          else dirlookup_loop dp name dlen (off + 16) s1)
      else Inr (None, s))"
  by pat_completeness auto
termination by (relation "measure (\<lambda>(_, _, dlen, off, _). dlen - off)") auto

declare dirlookup_loop.simps [simp del]

text \<open>The result is the inode and the offset of its entry, the value of \<^verbatim>\<open>*poff\<close>.\<close>

definition dirlookup ::
  "nat \<Rightarrow> byte list \<Rightarrow> 'z fsst_scheme \<Rightarrow> ((nat \<times> u32) option \<times> 'z fsst_scheme) kres" where
  "dirlookup dp name s =
     (if itype (itable s dp) \<noteq> T_DIR then kpanic ''dirlookup not DIR''
      else dirlookup_loop dp name (unat (isize (itable s dp))) 0 s)"

function dirlink_scan :: "nat \<Rightarrow> nat \<Rightarrow> nat \<Rightarrow> 'z fsst_scheme \<Rightarrow> (nat \<times> 'z fsst_scheme) kres" where
  "dirlink_scan dp dlen off s =
     (if off < dlen then
        kbind (readi dp VarDst (of_nat off) 16 s) (\<lambda>(r, de, s1).
          if r \<noteq> 16 then kpanic ''dirlink read''
          else if de_inum de = 0 then Inr (off, s1)
          else dirlink_scan dp dlen (off + 16) s1)
      else Inr (off, s))"
  by pat_completeness auto
termination by (relation "measure (\<lambda>(_, dlen, off, _). dlen - off)") auto

declare dirlink_scan.simps [simp del]

definition dirlink :: "nat \<Rightarrow> byte list \<Rightarrow> u32 \<Rightarrow> 'z fsst_scheme \<Rightarrow> (int \<times> 'z fsst_scheme) kres" where
  "dirlink dp name n s =
     kbind (dirlookup dp name s) (\<lambda>(found, s1).
       case found of
         Some (i, _) \<Rightarrow> kbind (iput i s1) (\<lambda>s2. Inr (-1, s2))
       | None \<Rightarrow>
           kbind (dirlink_scan dp (unat (isize (itable s1 dp))) 0 s1) (\<lambda>(off, s2).
           kbind (writei dp (VarSrc (enc_dirent (ucast n) name)) (of_nat off) 16 s2) (\<lambda>(r, s3).
           Inr (if r \<noteq> 16 then -1 else 0, s3))))"

section \<open>Paths\<close>

definition slash :: byte where
  "slash = chr CHR ''/''"

text \<open>
  The next element of a path and the rest, which starts at a following element or is empty. The element copied to
  \<^verbatim>\<open>name\<close> has at most \<open>DIRSIZ\<close> bytes.
\<close>

definition skipelem :: "byte list \<Rightarrow> (byte list \<times> byte list) option" where
  "skipelem path =
     (let p = dropWhile (\<lambda>c. c = slash) path in
      if p = [] then None
      else let elem = takeWhile (\<lambda>c. c \<noteq> slash) p; rest = dropWhile (\<lambda>c. c \<noteq> slash) p in
        Some (take DIRSIZ elem, dropWhile (\<lambda>c. c = slash) rest))"

lemma skipelem_less: "skipelem path = Some (name, rest) \<Longrightarrow> length rest < length path"
proof -
  assume *: "skipelem path = Some (name, rest)"
  let ?p = "dropWhile (\<lambda>c. c = slash) path"
  from * have ne: "?p \<noteq> []" and r: "rest = dropWhile (\<lambda>c. c = slash) (dropWhile (\<lambda>c. c \<noteq> slash) ?p)"
    by (auto simp: skipelem_def Let_def split: if_splits)
  have "hd ?p \<noteq> slash" using hd_dropWhile [of "\<lambda>c. c = slash" path] ne by simp
  with ne obtain c cs where p: "?p = c # cs" and c: "c \<noteq> slash" by (cases ?p) auto
  have "length rest \<le> length (dropWhile (\<lambda>c. c \<noteq> slash) ?p)" unfolding r by (rule length_dropWhile_le)
  also have "\<dots> \<le> length cs" unfolding p using c length_dropWhile_le [of "\<lambda>c. c \<noteq> slash" cs] by simp
  also have "length cs < length ?p" unfolding p by simp
  also have "length ?p \<le> length path" by (rule length_dropWhile_le)
  finally show ?thesis .
qed

function namex_loop ::
  "bool \<Rightarrow> byte list \<Rightarrow> byte list \<Rightarrow> nat \<Rightarrow> 'z fsst_scheme \<Rightarrow> (nat option \<times> byte list \<times> 'z fsst_scheme) kres" where
  "namex_loop par path name i s =
     (case skipelem path of
        None \<Rightarrow>
          if par then kbind (iput i s) (\<lambda>s1. Inr (None, name, s1)) else Inr (Some i, name, s)
      | Some (elem, rest) \<Rightarrow>
          kbind (ilock (Some i) s) (\<lambda>s1.
          if itype (itable s1 i) \<noteq> T_DIR then kbind (iunlockput i s1) (\<lambda>s2. Inr (None, elem, s2))
          else if par \<and> rest = [] then kbind (iunlock (Some i) s1) (\<lambda>s2. Inr (Some i, elem, s2))
          else kbind (dirlookup i elem s1) (\<lambda>(found, s2).
            case found of
              None \<Rightarrow> kbind (iunlockput i s2) (\<lambda>s3. Inr (None, elem, s3))
            | Some (nxt, _) \<Rightarrow> kbind (iunlockput i s2) (\<lambda>s3. namex_loop par rest elem nxt s3))))"
  by pat_completeness auto
termination
  by (relation "measure (\<lambda>(_, path, _, _, _). length path)") (auto simp: skipelem_less)

declare namex_loop.simps [simp del]

text \<open>A process without a current directory would make \<open>idup\<close> write through a null pointer: a kernel fault.\<close>

definition namex :: "bool \<Rightarrow> byte list \<Rightarrow> 'z fsst_scheme \<Rightarrow> (nat option \<times> byte list \<times> 'z fsst_scheme) kres" where
  "namex par path s =
     (if char_at path 0 = slash
      then kbind (iget ROOTDEV ROOTINO s) (\<lambda>(i, s1). namex_loop par path [] i s1)
      else (case cwd (myproc s) of
          None \<Rightarrow> kpanic ''kerneltrap''
        | Some c \<Rightarrow> let (i, s1) = idup c s in namex_loop par path [] i s1))"

definition namei :: "byte list \<Rightarrow> 'z fsst_scheme \<Rightarrow> (nat option \<times> 'z fsst_scheme) kres" where
  "namei path s = kbind (namex False path s) (\<lambda>(r, _, s1). Inr (r, s1))"

definition nameiparent :: "byte list \<Rightarrow> 'z fsst_scheme \<Rightarrow> (nat option \<times> byte list \<times> 'z fsst_scheme) kres" where
  "nameiparent path s = namex True path s"

end
