(* ===== verification/Ring.thy ===== *)
theory Ring
  imports KBase
begin

text \<open>
  The ring buffers of the kernel: an array of \<open>cap\<close> entries with two free-running counters, used by pipes
  (512 bytes, 32-bit counters), by the console (128 bytes, 32-bit counters) and by the queues of the disk
  driver (8 entries, 16-bit counters). The locale \<open>ring\<close> is the interface: how writing an entry and reading
  one change the array and the counters. In it the buffer is shown to be a queue, also when the counters wrap around.
\<close>

text \<open>The entries between the counters, oldest first.\<close>

definition ring_list :: "nat \<Rightarrow> (nat \<Rightarrow> 'a) \<Rightarrow> 'w::len word \<Rightarrow> 'w word \<Rightarrow> 'a list" where
  "ring_list cap d r w = map (\<lambda>i. d (unat (r + of_nat i) mod cap)) [0..<unat (w - r)]"

lemma length_ring_list [simp]: "length (ring_list cap d r w) = unat (w - r)"
  by (simp add: ring_list_def)

lemma ring_empty: "ring_list cap d r w = [] \<longleftrightarrow> r = w"
  by (metis eq_iff_diff_eq_0 length_0_conv length_ring_list unsigned_0 unsigned_eq_0_iff)

lemma ring_index:
  fixes r :: "'w::len word"
  assumes "cap dvd 2 ^ LENGTH('w)"
  shows "unat (r + of_nat i) mod cap = (unat r + i) mod cap"
proof -
  have "unat (r + of_nat i) = (unat r + i) mod 2 ^ LENGTH('w)" by (simp add: unat_word_ariths unat_of_nat mod_simps)
  then show ?thesis using assms by (simp add: mod_mod_cancel)
qed

lemma ring_list_nth:
  fixes r w :: "'w::len word"
  assumes "cap dvd 2 ^ LENGTH('w)" "i < unat (w - r)"
  shows "ring_list cap d r w ! i = d ((unat r + i) mod cap)"
  using assms ring_index [OF assms(1), of r i] by (simp add: ring_list_def)

lemma ring_list_eqI:
  fixes r w :: "'w::len word"
  assumes "cap dvd 2 ^ LENGTH('w)" "unat (w - r) = length xs" "\<And>i. i < length xs \<Longrightarrow> d ((unat r + i) mod cap) = xs ! i"
  shows "ring_list cap d r w = xs"
  using assms(2,3) ring_list_nth [OF assms(1), of _ w r d] by (intro nth_equalityI) simp_all

lemma mod_inj:
  assumes "(a + i) mod cap = (a + j) mod cap" "i \<le> j" "j - i < (cap::nat)"
  shows "i = j"
proof -
  have "cap dvd (a + j) - (a + i)" using assms(1,2) by (metis add_le_cancel_left mod_eq_dvd_iff_nat)
  then have "cap dvd j - i" by simp
  then show ?thesis using assms(2,3) nat_dvd_not_less by fastforce
qed

lemma ring_put:
  fixes r w :: "'w::len word"
  assumes cap: "cap dvd 2 ^ LENGTH('w)" and room: "unat (w - r) < cap" and lim: "cap < 2 ^ LENGTH('w)"
  shows "ring_list cap (d(unat w mod cap := c)) r (w + 1) = ring_list cap d r w @ [c]"
proof (rule ring_list_eqI [OF cap])
  let ?n = "unat (w - r)"
  have eq: "w + 1 - r = (w - r) + 1" by simp
  have "unat ((w - r) + 1) = ?n + 1" using room lim by (simp add: unat_word_ariths(1))
  then show "unat (w + 1 - r) = length (ring_list cap d r w @ [c])" unfolding eq by simp
  have w: "unat w mod cap = (unat r + ?n) mod cap" using ring_index [OF cap, of r ?n] by simp
  fix i assume i: "i < length (ring_list cap d r w @ [c])"
  show "(d(unat w mod cap := c)) ((unat r + i) mod cap) = (ring_list cap d r w @ [c]) ! i"
  proof (cases "i = ?n")
    case True
    then show ?thesis by (simp add: w nth_append)
  next
    case False
    then have "i < ?n" using i by simp
    then have "(unat r + i) mod cap \<noteq> (unat r + ?n) mod cap" using mod_inj [of "unat r" i cap ?n] room by fastforce
    then show ?thesis using \<open>i < ?n\<close> by (simp add: w nth_append ring_list_nth [OF cap])
  qed
qed

lemma ring_get:
  fixes r w :: "'w::len word"
  assumes cap: "cap dvd 2 ^ LENGTH('w)" and ne: "r \<noteq> w"
  shows "ring_list cap d r w = d (unat r mod cap) # ring_list cap d (r + 1) w"
    and "unat (w - (r + 1)) = unat (w - r) - 1"
proof -
  have nz: "w - r \<noteq> 0" using ne by simp
  have "w - (r + 1) = (w - r) - 1" by simp
  then show n: "unat (w - (r + 1)) = unat (w - r) - 1" by (simp only: unat_minus_one [OF nz])
  have pos: "0 < unat (w - r)" using nz by (simp add: unat_gt_0)
  show "ring_list cap d r w = d (unat r mod cap) # ring_list cap d (r + 1) w"
  proof (rule ring_list_eqI [OF cap])
    show "unat (w - r) = length (d (unat r mod cap) # ring_list cap d (r + 1) w)" using n pos by simp
    fix i assume i: "i < length (d (unat r mod cap) # ring_list cap d (r + 1) w)"
    show "d ((unat r + i) mod cap) = (d (unat r mod cap) # ring_list cap d (r + 1) w) ! i"
    proof (cases i)
      case (Suc j)
      then have j: "j < unat (w - (r + 1))" using i by simp
      have "unat (r + 1 + of_nat j) mod cap = unat (r + of_nat (Suc j)) mod cap" by (simp add: algebra_simps)
      then have "(unat (r + 1) + j) mod cap = (unat r + Suc j) mod cap" using ring_index [OF cap] by metis
      then show ?thesis using Suc j by (simp add: ring_list_nth [OF cap])
    qed simp
  qed
qed

lemma ring_unput:
  fixes r w :: "'w::len word"
  assumes "cap dvd 2 ^ LENGTH('w)" "r \<noteq> w"
  shows "ring_list cap d r (w - 1) = butlast (ring_list cap d r w)"
proof (rule ring_list_eqI [OF assms(1)])
  have nz: "w - r \<noteq> 0" using assms(2) by simp
  have "w - 1 - r = (w - r) - 1" by simp
  then show "unat (w - 1 - r) = length (butlast (ring_list cap d r w))"
    by (simp only: unat_minus_one [OF nz] length_butlast length_ring_list)
  show "d ((unat r + i) mod cap) = butlast (ring_list cap d r w) ! i" if "i < length (butlast (ring_list cap d r w))" for i
    using that ring_list_nth [OF assms(1), of i w r d] by (simp add: nth_butlast)
qed

lemma ring_split:
  fixes e r w :: "'w::len word"
  assumes "cap dvd 2 ^ LENGTH('w)" "unat (e - r) = unat (w - r) + unat (e - w)"
  shows "ring_list cap d r e = ring_list cap d r w @ ring_list cap d w e"
proof (rule ring_list_eqI [OF assms(1)])
  show "unat (e - r) = length (ring_list cap d r w @ ring_list cap d w e)" by (simp add: assms(2))
  fix i assume i: "i < length (ring_list cap d r w @ ring_list cap d w e)"
  show "d ((unat r + i) mod cap) = (ring_list cap d r w @ ring_list cap d w e) ! i"
  proof (cases "i < unat (w - r)")
    case True
    then show ?thesis by (simp add: nth_append ring_list_nth [OF assms(1)])
  next
    case False
    define j where "j = i - unat (w - r)"
    have "unat w mod cap = (unat r + unat (w - r)) mod cap" using ring_index [OF assms(1), of r "unat (w - r)"] by simp
    then have "(unat w + j) mod cap = (unat r + i) mod cap"
      using False mod_add_cong [of "unat w" cap "unat r + unat (w - r)" j j] by (simp add: j_def)
    moreover have "j < unat (e - w)" using i False by (simp add: j_def)
    ultimately have "ring_list cap d w e ! j = d ((unat r + i) mod cap)" by (simp add: ring_list_nth [OF assms(1)])
    then show ?thesis using False by (simp add: nth_append j_def)
  qed
qed

section \<open>The interface\<close>

locale ring =
  fixes cap :: nat
    and data :: "'s \<Rightarrow> nat \<Rightarrow> 'a"
    and rd wr :: "'s \<Rightarrow> 'w::len word"
    and put :: "'a \<Rightarrow> 's \<Rightarrow> 's"
    and get :: "'s \<Rightarrow> 's"
  assumes cap_dvd: "cap dvd 2 ^ LENGTH('w)" and cap_lim: "cap < 2 ^ LENGTH('w)"
    and put_data: "data (put c s) = (data s)(unat (wr s) mod cap := c)"
    and put_wr: "wr (put c s) = wr s + 1"
    and put_rd: "rd (put c s) = rd s"
    and get_data: "data (get s) = data s"
    and get_wr: "wr (get s) = wr s"
    and get_rd: "rd (get s) = rd s + 1"
begin

definition queue :: "'s \<Rightarrow> 'a list" where
  "queue s = ring_list cap (data s) (rd s) (wr s)"

definition fits :: "'s \<Rightarrow> bool" where
  "fits s \<longleftrightarrow> length (queue s) \<le> cap"

lemma put_queue: "length (queue s) < cap \<Longrightarrow> queue (put c s) = queue s @ [c]"
  unfolding queue_def put_data put_wr put_rd length_ring_list by (rule ring_put [OF cap_dvd _ cap_lim])

lemma get_queue: "rd s \<noteq> wr s \<Longrightarrow> queue s = data s (unat (rd s) mod cap) # queue (get s)"
  unfolding queue_def get_data get_wr get_rd by (rule ring_get(1) [OF cap_dvd])

lemma empty_queue: "queue s = [] \<longleftrightarrow> rd s = wr s"
  by (simp add: queue_def ring_empty)

lemma full_queue: "fits s \<Longrightarrow> wr s = rd s + of_nat cap \<longleftrightarrow> length (queue s) = cap"
proof -
  assume f: "fits s"
  have u: "unat (of_nat cap :: 'w word) = cap" using cap_lim by (simp add: unat_of_nat)
  have "wr s = rd s + of_nat cap \<longleftrightarrow> wr s - rd s = of_nat cap" by (auto simp: algebra_simps)
  also have "\<dots> \<longleftrightarrow> unat (wr s - rd s) = cap" using u by (metis word_unat_eq_iff)
  finally show ?thesis by (simp add: queue_def)
qed

lemma put_fits: "length (queue s) < cap \<Longrightarrow> fits (put c s)"
  by (simp add: fits_def put_queue)

lemma get_fits: "fits s \<Longrightarrow> rd s \<noteq> wr s \<Longrightarrow> fits (get s)"
  using get_queue [of s] by (simp add: fits_def)

end

end
