(* ===== verification/Console.thy ===== *)
theory Console
  imports FsDir Ring
begin

text \<open>
  \<^verbatim>\<open>kernel/console.c\<close> and the byte path of \<^verbatim>\<open>kernel/uart.c\<close>. The bytes written to the
  transmit register are appended to \<open>kout\<close>; the loop of \<open>uartputc_sync\<close> that waits for
  the register to empty is taken to end. A call that has to sleep in the middle of its
  loop returns what it needs to go on, \<open>resume\<close>: \<open>Block ch r\<close> means that the caller sleeps
  on \<open>ch\<close> and continues as \<open>r\<close> says when it is woken.
\<close>

section \<open>Results of calls that may sleep\<close>

datatype resume =
    RConsRead kdst nat nat
  | RConsWrite ksrc nat nat "byte list"
  | RPipeRead u64 u64 nat
  | RPipeWrite u64 u64 nat nat
  | RWait u64
  | RPause u32 nat

datatype callres = Ret int | Block chan resume

section \<open>State\<close>

definition INPUT_BUF_SIZE :: nat where [simp]: "INPUT_BUF_SIZE = 128"

record consst = fsst +
  cons_buf :: "nat \<Rightarrow> byte"
  cons_r :: u32
  cons_w :: u32
  cons_e :: u32
  tx_busy :: bool

definition ctrl :: "char \<Rightarrow> byte" where
  "ctrl x = chr x - chr CHR ''@''"

section \<open>Output\<close>

definition uartputc_sync :: "byte \<Rightarrow> 'z kern_scheme \<Rightarrow> 'z kern_scheme" where
  "uartputc_sync c s = kprint [c] s"

definition consputc :: "u32 \<Rightarrow> 'z kern_scheme \<Rightarrow> 'z kern_scheme" where
  "consputc c s =
     (if c = BACKSPACE then uartputc_sync 8 (uartputc_sync 32 (uartputc_sync 8 s))
      else uartputc_sync (ucast c) s)"

text \<open>The bytes that remain to be sent: none, or the caller sleeps until the device is ready again.\<close>

primrec uartwrite :: "byte list \<Rightarrow> 'z consst_scheme \<Rightarrow> byte list \<times> 'z consst_scheme" where
  "uartwrite [] s = ([], s)"
| "uartwrite (c # cs) s =
     (if tx_busy s then (c # cs, s) else uartwrite cs ((kprint [c] s)\<lparr>tx_busy := True\<rparr>))"

text \<open>\<open>n\<close> bytes in all, \<open>i\<close> sent before the current batch of at most 32 bytes.\<close>

function consolewrite_loop ::
  "ksrc \<Rightarrow> nat \<Rightarrow> nat \<Rightarrow> 'z consst_scheme \<Rightarrow> (callres \<times> 'z consst_scheme) kres" where
  "consolewrite_loop src n i s =
     (if i < n then
        let nn = min 32 (n - i) in
        kbind (either_copyin (src_add src i) nn s) (\<lambda>(r, bs, s1).
          if r = -1 then Inr (Ret (int i), s1)
          else case uartwrite bs s1 of (rest, s2) \<Rightarrow>
            if rest \<noteq> [] then Inr (Block ChTx (RConsWrite src n (i + nn) rest), s2)
            else consolewrite_loop src n (i + nn) s2)
      else Inr (Ret (int i), s))"
  by pat_completeness auto
termination by (relation "measure (\<lambda>(_, n, i, _). n - i)") auto

declare consolewrite_loop.simps [simp del]

definition consolewrite :: "ksrc \<Rightarrow> int \<Rightarrow> 'z consst_scheme \<Rightarrow> (callres \<times> 'z consst_scheme) kres" where
  "consolewrite src n s = consolewrite_loop src (nat n) 0 s"

definition consolewrite_resume ::
  "ksrc \<Rightarrow> nat \<Rightarrow> nat \<Rightarrow> byte list \<Rightarrow> 'z consst_scheme \<Rightarrow> (callres \<times> 'z consst_scheme) kres" where
  "consolewrite_resume src n i pending s =
     (let (rest, s1) = uartwrite pending s in
      if rest \<noteq> [] then Inr (Block ChTx (RConsWrite src n i rest), s1)
      else consolewrite_loop src n i s1)"

section \<open>Input\<close>

text \<open>A byte into the ring of input, and the step over a byte taken from it.\<close>

definition cons_put :: "byte \<Rightarrow> 'z consst_scheme \<Rightarrow> 'z consst_scheme" where
  "cons_put c s = s\<lparr>cons_buf := (cons_buf s)(unat (cons_e s) mod INPUT_BUF_SIZE := c), cons_e := cons_e s + 1\<rparr>"

definition cons_get :: "'z consst_scheme \<Rightarrow> 'z consst_scheme" where
  "cons_get s = s\<lparr>cons_r := cons_r s + 1\<rparr>"

text \<open>\<open>n\<close> bytes still wanted of \<open>target\<close>; each iteration takes one byte from the buffer.\<close>

primrec consoleread_loop ::
  "nat \<Rightarrow> kdst \<Rightarrow> nat \<Rightarrow> 'z consst_scheme \<Rightarrow> (callres \<times> 'z consst_scheme) kres" where
  "consoleread_loop 0 dst target s = Inr (Ret (int target), s)"
| "consoleread_loop (Suc n) dst target s =
     (if cons_r s = cons_w s then
        if killed (curp s) s then Inr (Ret (-1), s)
        else Inr (Block ChConsRead (RConsRead dst (Suc n) target), s)
      else
        let c = cons_buf s (unat (cons_r s) mod INPUT_BUF_SIZE); s1 = cons_get s in
        if c = ctrl CHR ''D'' then
          Inr (Ret (int target - int (Suc n)),
               if Suc n < target then s1\<lparr>cons_r := cons_r s1 - 1\<rparr> else s1)
        else kbind (either_copyout dst [c] s1) (\<lambda>(r, s2).
          if r = -1 then Inr (Ret (int target - int (Suc n)), s2)
          else if c = 10 then Inr (Ret (int target - int n), s2)
          else consoleread_loop n (dst_add dst 1) target s2))"

definition consoleread :: "kdst \<Rightarrow> int \<Rightarrow> 'z consst_scheme \<Rightarrow> (callres \<times> 'z consst_scheme) kres" where
  "consoleread dst n s = (if n > 0 then consoleread_loop (nat n) dst (nat n) s else Inr (Ret 0, s))"

definition state_name :: "procstate \<Rightarrow> string" where
  "state_name st = (case st of UNUSED \<Rightarrow> ''unused'' | USED \<Rightarrow> ''used'' | SLEEPING \<Rightarrow> ''sleep ''
     | RUNNABLE \<Rightarrow> ''runble'' | RUNNING \<Rightarrow> ''run   '' | ZOMBIE \<Rightarrow> ''zombie'')"

definition procdump :: "'z kern_scheme \<Rightarrow> 'z kern_scheme" where
  "procdump s =
     fold (\<lambda>i s. if pstate (procs s i) = UNUSED then s
                 else kprintf ''\<newline>'' [] (kprintf ''%d %s %s'' [PInt (scast (pid (procs s i))),
                   PStr (Some (str (state_name (pstate (procs s i))))), PStr (Some (pname (procs s i)))] s))
       [0..<NPROC] (kprintf ''\<newline>'' [] s)"

text \<open>Erasing the line: each step takes one byte back, so at most the buffer's size steps are made.\<close>

function kill_line :: "'z consst_scheme \<Rightarrow> 'z consst_scheme" where
  "kill_line s =
     (if cons_e s \<noteq> cons_w s \<and> cons_buf s (unat (cons_e s - 1) mod INPUT_BUF_SIZE) \<noteq> 10
      then kill_line (consputc BACKSPACE (s\<lparr>cons_e := cons_e s - 1\<rparr>)) else s)"
  by pat_completeness auto
termination
proof (relation "measure (\<lambda>s. unat (cons_e s - cons_w s))")
  fix s :: "'z consst_scheme"
  assume "cons_e s \<noteq> cons_w s \<and> cons_buf s (unat (cons_e s - 1) mod INPUT_BUF_SIZE) \<noteq> 10"
  then have nz: "cons_e s - cons_w s \<noteq> 0" by simp
  have eq: "cons_e s - 1 - cons_w s = cons_e s - cons_w s - 1" by (simp add: algebra_simps)
  have "unat (cons_e s - 1 - cons_w s) < unat (cons_e s - cons_w s)"
    unfolding eq using unat_minus_one [OF nz] unat_gt_0 [of "cons_e s - cons_w s"] nz by simp
  then show "(consputc BACKSPACE (s\<lparr>cons_e := cons_e s - 1\<rparr>), s) \<in> measure (\<lambda>s. unat (cons_e s - cons_w s))"
    by (simp add: consputc_def uartputc_sync_def kprint_def)
qed simp

declare kill_line.simps [simp del]

definition consoleintr :: "byte \<Rightarrow> 'z consst_scheme \<Rightarrow> 'z consst_scheme" where
  "consoleintr c s =
     (if c = ctrl CHR ''P'' then procdump s
      else if c = ctrl CHR ''U'' then kill_line s
      else if c = ctrl CHR ''H'' \<or> c = 0x7f then
        if cons_e s \<noteq> cons_w s then consputc BACKSPACE (s\<lparr>cons_e := cons_e s - 1\<rparr>) else s
      else if c \<noteq> 0 \<and> cons_e s - cons_r s < of_nat INPUT_BUF_SIZE then
        let c' = (if c = 13 then 10 else c); s2 = cons_put c' (consputc (ucast c') s) in
        if c' = 10 \<or> c' = ctrl CHR ''D'' \<or> cons_e s2 - cons_r s2 = of_nat INPUT_BUF_SIZE
        then wakeup ChConsRead (s2\<lparr>cons_w := cons_e s2\<rparr>) else s2
      else s)"

text \<open>
  \<open>uartintr\<close>: whether the transmitter is idle and the input bytes waiting are what the
  device registers return.
\<close>

definition uartintr :: "bool \<Rightarrow> byte list \<Rightarrow> 'z consst_scheme \<Rightarrow> 'z consst_scheme" where
  "uartintr tx_idle input s =
     (let s1 = (if tx_idle then wakeup ChTx (s\<lparr>tx_busy := False\<rparr>) else s) in
      fold consoleintr input s1)"

end
