(* ===== verification/File.thy ===== *)
theory File
  imports Console Ring
begin

text \<open>
  \<^verbatim>\<open>kernel/file.c\<close>, \<^verbatim>\<open>kernel/file.h\<close> and \<^verbatim>\<open>kernel/pipe.c\<close>: the open file table and pipes. A
  \<^verbatim>\<open>struct pipe\<close> lives in a page of its own; \<open>pipes\<close> maps the address of the page to the
  contents. \<open>stat_pad\<close> stands for the stack bytes that fill the padding of \<^verbatim>\<open>struct stat\<close>.
\<close>

section \<open>State\<close>

datatype fdtype = FD_NONE | FD_PIPE | FD_INODE | FD_DEVICE

record kfile =
  ftype :: fdtype
  fref :: i32
  readable :: bool
  writable :: bool
  fpipe :: u64
  fip :: "nat option"
  foff :: u32
  fmajor :: u16

definition PIPESIZE :: nat where [simp]: "PIPESIZE = 512"

record pipe =
  pdata :: "nat \<Rightarrow> byte"
  nread :: u32
  nwrite :: u32
  readopen :: bool
  writeopen :: bool

record filest = consst +
  ftable :: "nat \<Rightarrow> kfile"
  pipes :: "u64 \<Rightarrow> pipe"
  stat_pad :: "byte list"

definition upd_file :: "nat \<Rightarrow> (kfile \<Rightarrow> kfile) \<Rightarrow> 'z filest_scheme \<Rightarrow> 'z filest_scheme" where
  "upd_file f g s = s\<lparr>ftable := (ftable s)(f := g (ftable s f))\<rparr>"

definition upd_pipe :: "u64 \<Rightarrow> (pipe \<Rightarrow> pipe) \<Rightarrow> 'z filest_scheme \<Rightarrow> 'z filest_scheme" where
  "upd_pipe pi g s = s\<lparr>pipes := (pipes s)(pi := g (pipes s pi))\<rparr>"

abbreviation CONSOLE :: u16 where "CONSOLE \<equiv> 1"

section \<open>The file table\<close>

definition filealloc :: "'z filest_scheme \<Rightarrow> nat option \<times> 'z filest_scheme" where
  "filealloc s =
     (case find (\<lambda>f. fref (ftable s f) = 0) [0..<NFILE] of
        None \<Rightarrow> (None, s)
      | Some f \<Rightarrow> (Some f, upd_file f (\<lambda>x. x\<lparr>fref := 1\<rparr>) s))"

definition filedup :: "nat \<Rightarrow> 'z filest_scheme \<Rightarrow> (nat \<times> 'z filest_scheme) kres" where
  "filedup f s =
     (if sint (fref (ftable s f)) < 1 then kpanic ''filedup''
      else Inr (f, upd_file f (\<lambda>x. x\<lparr>fref := fref x + 1\<rparr>) s))"

section \<open>Pipes\<close>

definition pipeclose :: "u64 \<Rightarrow> bool \<Rightarrow> 'z filest_scheme \<Rightarrow> 'z filest_scheme kres" where
  "pipeclose pi wr s =
     (let s1 = (if wr then wakeup (ChPipeRead pi) (upd_pipe pi (\<lambda>p. p\<lparr>writeopen := False\<rparr>) s)
                else wakeup (ChPipeWrite pi) (upd_pipe pi (\<lambda>p. p\<lparr>readopen := False\<rparr>) s)) in
      if \<not> readopen (pipes s1 pi) \<and> \<not> writeopen (pipes s1 pi) then kfree pi s1 else Inr s1)"

text \<open>One byte into the ring of a pipe, and the step over the byte read.\<close>

definition pipe_put :: "byte \<Rightarrow> pipe \<Rightarrow> pipe" where
  "pipe_put c p = p\<lparr>pdata := (pdata p)(unat (nwrite p) mod PIPESIZE := c), nwrite := nwrite p + 1\<rparr>"

definition pipe_get :: "pipe \<Rightarrow> pipe" where
  "pipe_get p = p\<lparr>nread := nread p + 1\<rparr>"

function pipewrite_loop ::
  "u64 \<Rightarrow> u64 \<Rightarrow> nat \<Rightarrow> nat \<Rightarrow> 'z filest_scheme \<Rightarrow> (callres \<times> 'z filest_scheme) kres" where
  "pipewrite_loop pi addr n i s =
     (if i < n then
        if \<not> readopen (pipes s pi) \<or> killed (curp s) s then Inr (Ret (-1), s)
        else if nwrite (pipes s pi) = nread (pipes s pi) + of_nat PIPESIZE
        then Inr (Block (ChPipeWrite pi) (RPipeWrite pi addr n i), wakeup (ChPipeRead pi) s)
        else
          let p = myproc s in
          kbind (copyin (pagetable p) (sz p) (pagetable p) (addr + of_nat i) 1 s) (\<lambda>(r, bs, s1).
            if r = -1 then Inr (Ret (int i), wakeup (ChPipeRead pi) s1)
            else pipewrite_loop pi addr n (Suc i) (upd_pipe pi (pipe_put (hd bs)) s1))
      else Inr (Ret (int i), wakeup (ChPipeRead pi) s))"
  by pat_completeness auto
termination by (relation "measure (\<lambda>(_, _, n, i, _). n - i)") auto

declare pipewrite_loop.simps [simp del]

definition pipewrite :: "u64 \<Rightarrow> u64 \<Rightarrow> int \<Rightarrow> 'z filest_scheme \<Rightarrow> (callres \<times> 'z filest_scheme) kres" where
  "pipewrite pi addr n s = pipewrite_loop pi addr (nat n) 0 s"

function piperead_loop ::
  "u64 \<Rightarrow> u64 \<Rightarrow> nat \<Rightarrow> nat \<Rightarrow> 'z filest_scheme \<Rightarrow> (int \<times> 'z filest_scheme) kres" where
  "piperead_loop pi addr n i s =
     (if i < n then
        if nread (pipes s pi) = nwrite (pipes s pi) then Inr (int i, s)
        else
          let p = myproc s; ch = pdata (pipes s pi) (unat (nread (pipes s pi)) mod PIPESIZE) in
          kbind (copyout (pagetable p) (sz p) (pagetable p) (addr + of_nat i) [ch] 1 s) (\<lambda>(r, s1).
            if r = -1 then Inr (if i = 0 then -1 else int i, s1)
            else piperead_loop pi addr n (Suc i) (upd_pipe pi pipe_get s1))
      else Inr (int i, s))"
  by pat_completeness auto
termination by (relation "measure (\<lambda>(_, _, n, i, _). n - i)") auto

declare piperead_loop.simps [simp del]

definition piperead :: "u64 \<Rightarrow> u64 \<Rightarrow> nat \<Rightarrow> 'z filest_scheme \<Rightarrow> (callres \<times> 'z filest_scheme) kres" where
  "piperead pi addr n s =
     (if nread (pipes s pi) = nwrite (pipes s pi) \<and> writeopen (pipes s pi) then
        if killed (curp s) s then Inr (Ret (-1), s)
        else Inr (Block (ChPipeRead pi) (RPipeRead pi addr n), s)
      else kbind (piperead_loop pi addr n 0 s) (\<lambda>(r, s1). Inr (Ret r, wakeup (ChPipeWrite pi) s1)))"

section \<open>Operations on open files\<close>

definition fileclose :: "nat \<Rightarrow> 'z filest_scheme \<Rightarrow> 'z filest_scheme kres" where
  "fileclose f s =
     (if sint (fref (ftable s f)) < 1 then kpanic ''fileclose''
      else
        let s1 = upd_file f (\<lambda>x. x\<lparr>fref := fref x - 1\<rparr>) s in
        if sint (fref (ftable s1 f)) > 0 then Inr s1
        else
          let ff = ftable s1 f; s2 = upd_file f (\<lambda>x. x\<lparr>fref := 0, ftype := FD_NONE\<rparr>) s1 in
          case ftype ff of
            FD_PIPE \<Rightarrow> pipeclose (fpipe ff) (writable ff) s2
          | FD_NONE \<Rightarrow> Inr s2
          | _ \<Rightarrow>
              kbind (begin_op s2) (\<lambda>s3.
              kbind (case fip ff of None \<Rightarrow> kpanic ''kerneltrap'' | Some i \<Rightarrow> iput i s3) end_op))"

definition enc_stat :: "byte list \<Rightarrow> stat \<Rightarrow> byte list" where
  "enc_stat pad st = le_bytes 4 (unat (st_dev st)) @ le_bytes 4 (unat (st_ino st)) @
     le_bytes 2 (unat (st_type st)) @ le_bytes 2 (unat (st_nlink st)) @ pad @ le_bytes 8 (unat (st_size st))"

definition filestat :: "nat \<Rightarrow> u64 \<Rightarrow> 'z filest_scheme \<Rightarrow> (int \<times> 'z filest_scheme) kres" where
  "filestat f addr s =
     (if ftype (ftable s f) = FD_INODE \<or> ftype (ftable s f) = FD_DEVICE then
        kbind (ilock (fip (ftable s f)) s) (\<lambda>s1.
        let st = stati (the (fip (ftable s f))) s1 in
        kbind (iunlock (fip (ftable s f)) s1) (\<lambda>s2.
        let p = myproc s2 in
        kbind (copyout (pagetable p) (sz p) (pagetable p) addr (enc_stat (stat_pad s2) st) 24 s2) (\<lambda>(r, s3).
        Inr (if r < 0 then -1 else 0, s3))))
      else Inr (-1, s))"

definition has_dev :: "u16 \<Rightarrow> bool" where
  "has_dev major \<longleftrightarrow> \<not> (sint major < 0 \<or> sint major \<ge> int NDEV) \<and> major = CONSOLE"

definition fileread :: "nat \<Rightarrow> u64 \<Rightarrow> int \<Rightarrow> 'z filest_scheme \<Rightarrow> (callres \<times> 'z filest_scheme) kres" where
  "fileread f addr n s =
     (let x = ftable s f in
      if \<not> readable x then Inr (Ret (-1), s)
      else case ftype x of
        FD_PIPE \<Rightarrow> piperead (fpipe x) addr (nat n) s
      | FD_DEVICE \<Rightarrow> if \<not> has_dev (fmajor x) then Inr (Ret (-1), s) else consoleread (UserDst addr) n s
      | FD_INODE \<Rightarrow>
          kbind (ilock (fip x) s) (\<lambda>s1.
          kbind (readi (the (fip x)) (UserDst addr) (foff x) (of_int n) s1) (\<lambda>(r, _, s2).
          let s3 = (if sint r > 0 then upd_file f (\<lambda>x. x\<lparr>foff := foff x + r\<rparr>) s2 else s2) in
          kbind (iunlock (fip x) s3) (\<lambda>s4. Inr (Ret (sint r), s4))))
      | FD_NONE \<Rightarrow> kpanic ''fileread'')"

definition write_max :: int where
  "write_max = (int MAXOPBLOCKS - 1 - 1 - 2) div 2 * int BSIZE"

text \<open>One transaction of \<open>filewrite\<close>: at most \<open>write_max\<close> bytes.\<close>

definition filewrite_chunk ::
  "nat \<Rightarrow> u64 \<Rightarrow> int \<Rightarrow> 'z filest_scheme \<Rightarrow> (int \<times> 'z filest_scheme) kres" where
  "filewrite_chunk f addr n1 s =
     kbind (begin_op s) (\<lambda>s1.
     kbind (ilock (fip (ftable s1 f)) s1) (\<lambda>s2.
     kbind (writei (the (fip (ftable s2 f))) (UserSrc addr) (foff (ftable s2 f)) (of_int n1) s2) (\<lambda>(r, s3).
     let s4 = (if sint r > 0 then upd_file f (\<lambda>x. x\<lparr>foff := foff x + r\<rparr>) s3 else s3) in
     kbind (iunlock (fip (ftable s4 f)) s4) (\<lambda>s5.
     kbind (end_op s5) (\<lambda>s6. Inr (sint r, s6))))))"

function filewrite_loop ::
  "nat \<Rightarrow> u64 \<Rightarrow> int \<Rightarrow> int \<Rightarrow> 'z filest_scheme \<Rightarrow> (int \<times> 'z filest_scheme) kres" where
  "filewrite_loop f addr n i s =
     (if i < n then
        let n1 = (if n - i > write_max then write_max else n - i) in
        kbind (filewrite_chunk f (addr + of_int i) n1 s) (\<lambda>(r, s1).
          if r \<noteq> n1 then Inr (i, s1) else filewrite_loop f addr n (i + r) s1)
      else Inr (i, s))"
  by pat_completeness auto
termination
  by (relation "measure (\<lambda>(_, _, n, i, _). nat (n - i))") (auto simp: write_max_def split: if_splits)

declare filewrite_loop.simps [simp del]

definition filewrite :: "nat \<Rightarrow> u64 \<Rightarrow> int \<Rightarrow> 'z filest_scheme \<Rightarrow> (callres \<times> 'z filest_scheme) kres" where
  "filewrite f addr n s =
     (let x = ftable s f in
      if \<not> writable x then Inr (Ret (-1), s)
      else case ftype x of
        FD_PIPE \<Rightarrow> pipewrite (fpipe x) addr n s
      | FD_DEVICE \<Rightarrow> if \<not> has_dev (fmajor x) then Inr (Ret (-1), s) else consolewrite (UserSrc addr) n s
      | FD_INODE \<Rightarrow>
          kbind (filewrite_loop f addr n 0 s) (\<lambda>(i, s1). Inr (Ret (if i = n then n else -1), s1))
      | FD_NONE \<Rightarrow> kpanic ''filewrite'')"

text \<open>The label \<open>bad\<close> of \<open>pipealloc\<close>: release what was obtained.\<close>

definition pipealloc_bad ::
  "u64 \<Rightarrow> nat option \<Rightarrow> nat option \<Rightarrow> 'z filest_scheme \<Rightarrow> 'z filest_scheme kres" where
  "pipealloc_bad pi f0 f1 s =
     kbind (if pi \<noteq> 0 then kfree pi s else Inr s) (\<lambda>s1.
     kbind (case f0 of None \<Rightarrow> Inr s1 | Some f \<Rightarrow> fileclose f s1) (\<lambda>s2.
     case f1 of None \<Rightarrow> Inr s2 | Some f \<Rightarrow> fileclose f s2))"

definition pipealloc :: "'z filest_scheme \<Rightarrow> ((nat \<times> nat) option \<times> 'z filest_scheme) kres" where
  "pipealloc s =
     (let (f0, s1) = filealloc s in
      case f0 of
        None \<Rightarrow> kbind (pipealloc_bad 0 None None s1) (\<lambda>s2. Inr (None, s2))
      | Some a \<Rightarrow>
        let (f1, s2) = filealloc s1 in
        case f1 of
          None \<Rightarrow> kbind (pipealloc_bad 0 (Some a) None s2) (\<lambda>s3. Inr (None, s3))
        | Some b \<Rightarrow>
          let (pi, s3) = kalloc s2 in
          if pi = 0 then kbind (pipealloc_bad 0 (Some a) (Some b) s3) (\<lambda>s4. Inr (None, s4))
          else
            let s4 = upd_pipe pi (\<lambda>p. p\<lparr>readopen := True, writeopen := True, nwrite := 0, nread := 0\<rparr>) s3;
                s5 = upd_file a (\<lambda>x. x\<lparr>ftype := FD_PIPE, readable := True, writable := False, fpipe := pi\<rparr>) s4;
                s6 = upd_file b (\<lambda>x. x\<lparr>ftype := FD_PIPE, readable := False, writable := True, fpipe := pi\<rparr>) s5 in
            Inr (Some (a, b), s6))"

end
