(* ===== verification/Proc.thy ===== *)
theory Proc
  imports File
begin

text \<open>
  The rest of \<^verbatim>\<open>kernel/proc.c\<close>: \<open>userinit\<close>, \<open>kfork\<close>, \<open>kexit\<close>, \<open>kwait\<close>. The trap frame of a process is
  read and written in its physical page, at the offsets of \<^verbatim>\<open>struct trapframe\<close>. \<open>kexit\<close>
  ends with the switch to the scheduler and does not return: its result is the state then.
\<close>

section \<open>Trap frames\<close>

abbreviation TF_epc :: u64 where "TF_epc \<equiv> 24"
abbreviation TF_sp :: u64 where "TF_sp \<equiv> 48"
abbreviation TF_a0 :: u64 where "TF_a0 \<equiv> 112"
abbreviation TF_a1 :: u64 where "TF_a1 \<equiv> 120"
abbreviation TF_a7 :: u64 where "TF_a7 \<equiv> 168"

definition tf_get :: "nat \<Rightarrow> u64 \<Rightarrow> 'z kern_scheme \<Rightarrow> u64" where
  "tf_get i off s = ld64 (pmem s) (trapframe (procs s i) + off)"

definition tf_set :: "nat \<Rightarrow> u64 \<Rightarrow> u64 \<Rightarrow> 'z kern_scheme \<Rightarrow> 'z kern_scheme" where
  "tf_set i off v s = s\<lparr>pmem := st64 (trapframe (procs s i) + off) v (pmem s)\<rparr>"

definition tf_copy :: "nat \<Rightarrow> nat \<Rightarrow> 'z kern_scheme \<Rightarrow> 'z kern_scheme" where
  "tf_copy i j s = s\<lparr>pmem := poke (trapframe (procs s j)) (peek (pmem s) (trapframe (procs s i)) 288) (pmem s)\<rparr>"

text \<open>\<^verbatim>\<open>safestrcpy\<close> to a process name of 16 bytes keeps 15.\<close>

definition name15 :: "byte list \<Rightarrow> byte list" where
  "name15 n = take 15 (takeWhile (\<lambda>c. c \<noteq> 0) n)"

section \<open>The first process\<close>

definition userinit :: "'z fsst_scheme \<Rightarrow> 'z fsst_scheme kres" where
  "userinit s =
     kbind (allocproc s) (\<lambda>(ip, s1).
       case ip of
         None \<Rightarrow> kpanic ''kerneltrap''
       | Some i \<Rightarrow>
           kbind (namei (str ''/'') (s1\<lparr>initproc := i\<rparr>)) (\<lambda>(c, s2).
           Inr (upd_proc i (\<lambda>p. p\<lparr>cwd := c, pstate := RUNNABLE\<rparr>) s2)))"

section \<open>Fork\<close>

definition dup_fd :: "nat \<Rightarrow> nat \<Rightarrow> nat \<Rightarrow> 'z filest_scheme \<Rightarrow> 'z filest_scheme kres" where
  "dup_fd me np fd s =
     (case ofile (procs s me) ! fd of
        None \<Rightarrow> Inr s
      | Some f \<Rightarrow> kbind (filedup f s) (\<lambda>(g, s1).
          Inr (upd_proc np (\<lambda>p. p\<lparr>ofile := (ofile p)[fd := Some g]\<rparr>) s1)))"

definition kfork :: "'z filest_scheme \<Rightarrow> (int \<times> 'z filest_scheme) kres" where
  "kfork s =
     (let me = curp s in
      kbind (allocproc s) (\<lambda>(npo, s1).
        case npo of
          None \<Rightarrow> Inr (-1, s1)
        | Some np \<Rightarrow>
            kbind (uvmcopy (pagetable (procs s1 me)) (pagetable (procs s1 np)) (sz (procs s1 me)) s1) (\<lambda>(r, s2).
              if r < 0 then kbind (freeproc np s2) (\<lambda>s3. Inr (-1, s3))
              else
                let s3 = tf_copy me np (upd_proc np (\<lambda>p. p\<lparr>sz := sz (procs s2 me)\<rparr>) s2);
                    q = procs s3 me;
                    s4 = upd_proc np (\<lambda>p. p\<lparr>trace_mask := trace_mask q, page_faults := page_faults q,
                      has_region := has_region q, region := region q\<rparr>) s3;
                    s5 = tf_set np TF_a0 0 s4 in
                kbind (kfold (dup_fd me np) [0..<NOFILE] s5) (\<lambda>s6.
                  case cwd (procs s6 me) of
                    None \<Rightarrow> kpanic ''kerneltrap''
                  | Some c \<Rightarrow>
                      let (c', s7) = idup c s6;
                          s8 = upd_proc np (\<lambda>p. p\<lparr>cwd := Some c', pname := name15 (pname (procs s7 me))\<rparr>) s7;
                          npid = pid (procs s8 np);
                          s9 = upd_proc np (\<lambda>p. p\<lparr>parent := Some me\<rparr>) s8 in
                      Inr (sint npid, upd_proc np (\<lambda>p. p\<lparr>pstate := RUNNABLE\<rparr>) s9)))))"

section \<open>Exit and wait\<close>

definition reparent :: "nat \<Rightarrow> 'z kern_scheme \<Rightarrow> 'z kern_scheme" where
  "reparent me s =
     fold (\<lambda>i s. if parent (procs s i) = Some me
                 then wakeup (ChProc (initproc s)) (upd_proc i (\<lambda>p. p\<lparr>parent := Some (initproc s)\<rparr>) s)
                 else s) [0..<NPROC] s"

definition close_fd :: "nat \<Rightarrow> nat \<Rightarrow> 'z filest_scheme \<Rightarrow> 'z filest_scheme kres" where
  "close_fd me fd s =
     (case ofile (procs s me) ! fd of
        None \<Rightarrow> Inr s
      | Some f \<Rightarrow> kbind (fileclose f s) (\<lambda>s1.
          Inr (upd_proc me (\<lambda>p. p\<lparr>ofile := (ofile p)[fd := None]\<rparr>) s1)))"

definition kexit :: "i32 \<Rightarrow> 'z filest_scheme \<Rightarrow> 'z filest_scheme kres" where
  "kexit status s =
     (let me = curp s in
      if me = initproc s then kpanic ''init exiting''
      else
        kbind (kfold (close_fd me) [0..<NOFILE] s) (\<lambda>s1.
        kbind (begin_op s1) (\<lambda>s2.
        kbind (case cwd (procs s2 me) of None \<Rightarrow> kpanic ''kerneltrap'' | Some c \<Rightarrow> iput c s2) (\<lambda>s3.
        kbind (end_op s3) (\<lambda>s4.
          let s5 = reparent me (upd_proc me (\<lambda>p. p\<lparr>cwd := None\<rparr>) s4);
              s6 = (case parent (procs s5 me) of None \<Rightarrow> s5 | Some q \<Rightarrow> wakeup (ChProc q) s5) in
          Inr (upd_proc me (\<lambda>p. p\<lparr>xstate := status, pstate := ZOMBIE\<rparr>) s6))))))"

text \<open>One pass over the table; a process with children but no zombie among them sleeps.\<close>

definition kwait :: "u64 \<Rightarrow> 'z kern_scheme \<Rightarrow> (callres \<times> 'z kern_scheme) kres" where
  "kwait addr s =
     (let me = curp s; kids = filter (\<lambda>i. parent (procs s i) = Some me) [0..<NPROC] in
      case find (\<lambda>i. pstate (procs s i) = ZOMBIE) kids of
        Some i \<Rightarrow>
          let cpid = pid (procs s i); p = procs s me in
          kbind (if addr \<noteq> 0 then copyout (pagetable p) (sz p) (pagetable p) addr
                   (le_bytes 4 (unat (xstate (procs s i)))) 4 s
                 else Inr (0, s)) (\<lambda>(r, s1).
            if r < 0 then Inr (Ret (-1), s1)
            else kbind (freeproc i s1) (\<lambda>s2. Inr (Ret (sint cpid), s2)))
      | None \<Rightarrow>
          if kids = [] \<or> killed me s then Inr (Ret (-1), s)
          else Inr (Block (ChProc me) (RWait addr), s))"

end
