(* ===== verification/Exec.thy ===== *)
theory Exec
  imports Proc
begin

unbundle bit_operations_syntax

text \<open>
  \<^verbatim>\<open>kernel/exec.c\<close>: loading a program. The ELF headers are read at their offsets in the bytes
  \<open>readi\<close> returns; the arguments are the kernel copies of the strings.
\<close>

abbreviation ELF_MAGIC :: u32 where "ELF_MAGIC \<equiv> 0x464C457F"

definition flags2perm :: "u32 \<Rightarrow> u64" where
  "flags2perm flags =
     (let perm = (if flags AND 1 \<noteq> 0 then PTE_X else 0) in
      if flags AND 2 \<noteq> 0 then perm OR PTE_W else perm)"

function loadseg ::
  "u64 \<Rightarrow> u64 \<Rightarrow> nat \<Rightarrow> u32 \<Rightarrow> nat \<Rightarrow> nat \<Rightarrow> 'z fsst_scheme \<Rightarrow> (int \<times> 'z fsst_scheme) kres" where
  "loadseg pt va ip off len i s =
     (if i < len then
        kbind (walkaddr pt (va + of_nat i) s) (\<lambda>pa.
          if pa = 0 then kpanic ''loadseg: address should exist''
          else
            let n = (if len - i < 4096 then len - i else 4096) in
            kbind (readi ip (MemDst pa) (off + of_nat i) (of_nat n) s) (\<lambda>(r, _, s1).
              if r \<noteq> of_nat n then Inr (-1, s1) else loadseg pt va ip off len (i + 4096) s1))
      else Inr (0, s))"
  by pat_completeness auto
termination by (relation "measure (\<lambda>(_, _, _, _, len, i, _). len - i)") auto

declare loadseg.simps [simp del]

text \<open>The loop over the program headers: whether all were loaded, and the size reached.\<close>

primrec load_segs ::
  "nat \<Rightarrow> u64 \<Rightarrow> nat \<Rightarrow> u32 \<Rightarrow> u64 \<Rightarrow> 'z fsst_scheme \<Rightarrow> (bool \<times> u64 \<times> 'z fsst_scheme) kres" where
  "load_segs 0 pt ip off z s = Inr (True, z, s)"
| "load_segs (Suc k) pt ip off z s =
     kbind (readi ip VarDst off 56 s) (\<lambda>(r, bs, s1).
       let ph = char_at bs; vaddr = ld64 ph 16; filesz = ld64 ph 32; memsz = ld64 ph 40 in
       if r \<noteq> 56 then Inr (False, z, s1)
       else if ld32 ph 0 \<noteq> 1 then load_segs k pt ip (off + 56) z s1
       else if memsz < filesz \<or> vaddr + memsz < vaddr \<or> vaddr mod PGSIZE \<noteq> 0 then Inr (False, z, s1)
       else kbind (uvmalloc pt z (vaddr + memsz) (flags2perm (ld32 ph 4)) s1) (\<lambda>(sz1, s2).
         if sz1 = 0 then Inr (False, z, s2)
         else kbind (loadseg pt vaddr ip (ucast (ld64 ph 8)) (unat (ucast filesz :: u32)) 0 s2) (\<lambda>(r', s3).
           if r' < 0 then Inr (False, sz1, s3) else load_segs k pt ip (off + 56) sz1 s3)))"

definition exec_bad :: "u64 \<Rightarrow> u64 \<Rightarrow> nat option \<Rightarrow> 'z fsst_scheme \<Rightarrow> (int \<times> 'z fsst_scheme) kres" where
  "exec_bad pt z ipo s =
     kbind (if pt \<noteq> 0 then proc_freepagetable pt z s else Inr s) (\<lambda>s1.
     kbind (case ipo of None \<Rightarrow> Inr s1 | Some ip \<Rightarrow> kbind (iunlockput ip s1) end_op) (\<lambda>s2.
     Inr (-1, s2)))"

definition copyout_to :: "u64 \<Rightarrow> u64 \<Rightarrow> byte list \<Rightarrow> 'z kern_scheme \<Rightarrow> (int \<times> 'z kern_scheme) kres" where
  "copyout_to pt va bs s = (let p = myproc s in copyout (pagetable p) (sz p) pt va bs (of_nat (length bs)) s)"

text \<open>Pushing the argument strings: the stack pointer and the addresses, or nothing on failure.\<close>

primrec push_args ::
  "byte list list \<Rightarrow> nat \<Rightarrow> u64 \<Rightarrow> u64 \<Rightarrow> u64 \<Rightarrow> 'z kern_scheme \<Rightarrow> ((u64 \<times> u64 list) option \<times> 'z kern_scheme) kres" where
  "push_args [] argc pt stackbase sp s = Inr (Some (sp, []), s)"
| "push_args (a # as) argc pt stackbase sp s =
     (if argc \<ge> MAXARG then Inr (None, s)
      else
        let sp1 = sp - (of_nat (length a) + 1); sp2 = sp1 - sp1 mod 16 in
        if sp2 < stackbase then Inr (None, s)
        else kbind (copyout_to pt sp2 (a @ [0]) s) (\<lambda>(r, s1).
          if r < 0 then Inr (None, s1)
          else kbind (push_args as (Suc argc) pt stackbase sp2 s1) (\<lambda>(res, s2).
            Inr (map_option (\<lambda>(sp', us). (sp', sp2 # us)) res, s2))))"

definition last_elem :: "byte list \<Rightarrow> byte list" where
  "last_elem path = rev (takeWhile (\<lambda>c. c \<noteq> slash) (rev path))"

definition exec_commit ::
  "byte list \<Rightarrow> nat \<Rightarrow> u64 \<Rightarrow> u64 \<Rightarrow> u64 \<Rightarrow> u64 \<Rightarrow> 'z fsst_scheme \<Rightarrow> (int \<times> 'z fsst_scheme) kres" where
  "exec_commit path argc entry pt z sp s =
     (let me = curp s; oldpt = pagetable (procs s me); oldsz = sz (procs s me);
          s1 = tf_set me TF_a1 sp s;
          s2 = upd_proc me (\<lambda>p. p\<lparr>pname := name15 (last_elem path), pagetable := pt, sz := z\<rparr>) s1;
          s3 = tf_set me TF_sp sp (tf_set me TF_epc entry s2) in
      kbind (proc_freepagetable oldpt oldsz s3) (\<lambda>s4. Inr (int argc, s4)))"

definition exec_stack ::
  "byte list \<Rightarrow> byte list list \<Rightarrow> u64 \<Rightarrow> u64 \<Rightarrow> u64 \<Rightarrow> 'z fsst_scheme \<Rightarrow> (int \<times> 'z fsst_scheme) kres" where
  "exec_stack path argv entry pt z s =
     (let z0 = PGROUNDUP z; guard = of_nat (USERSTACK + 1) * PGSIZE in
      kbind (uvmalloc pt z0 (z0 + guard) PTE_W s) (\<lambda>(z1, s1).
        if z1 = 0 then exec_bad pt z0 None s1
        else kbind (uvmclear pt (z1 - guard) s1) (\<lambda>s2.
          let stackbase = z1 - of_nat USERSTACK * PGSIZE in
          kbind (push_args argv 0 pt stackbase z1 s2) (\<lambda>(res, s3).
            case res of
              None \<Rightarrow> exec_bad pt z1 None s3
            | Some (sp, us) \<Rightarrow>
                let argc = length us; sp1 = sp - of_nat (argc + 1) * 8; sp2 = sp1 - sp1 mod 16 in
                if sp2 < stackbase then exec_bad pt z1 None s3
                else kbind (copyout_to pt sp2 (concat (map (\<lambda>a. le_bytes 8 (unat a)) (us @ [0]))) s3) (\<lambda>(r, s4).
                  if r < 0 then exec_bad pt z1 None s4
                  else exec_commit path argc entry pt z1 sp2 s4)))))"

definition kexec :: "byte list \<Rightarrow> byte list list \<Rightarrow> 'z fsst_scheme \<Rightarrow> (int \<times> 'z fsst_scheme) kres" where
  "kexec path argv s =
     kbind (begin_op s) (\<lambda>s1.
     kbind (namei path s1) (\<lambda>(ipo, s2).
       case ipo of
         None \<Rightarrow> kbind (end_op s2) (\<lambda>s3. Inr (-1, s3))
       | Some ip \<Rightarrow>
           kbind (ilock (Some ip) s2) (\<lambda>s3.
           kbind (readi ip VarDst 0 64 s3) (\<lambda>(r, bs, s4).
             let elf = char_at bs in
             if r \<noteq> 64 \<or> ld32 elf 0 \<noteq> ELF_MAGIC then exec_bad 0 0 (Some ip) s4
             else kbind (proc_pagetable (trapframe (myproc s4)) s4) (\<lambda>(pt, s5).
               if pt = 0 then exec_bad 0 0 (Some ip) s5
               else kbind (load_segs (unat (ld16 elf 56)) pt ip (ucast (ld64 elf 32)) 0 s5) (\<lambda>(ok, z, s6).
                 if \<not> ok then exec_bad pt z (Some ip) s6
                 else kbind (iunlockput ip s6) (\<lambda>s7.
                   kbind (end_op s7) (exec_stack path argv (ld64 elf 24) pt z))))))))"

section \<open>The first return to user space\<close>

text \<open>
  \<open>forkret\<close> up to the return to user space; \<open>first\<close> is its static variable.
\<close>

definition forkret :: "bool \<Rightarrow> 'z fsst_scheme \<Rightarrow> 'z fsst_scheme kres" where
  "forkret first s =
     (if first then
        kbind (fsinit ROOTDEV s) (\<lambda>s1.
        kbind (kexec (str ''/init'') [str ''/init''] s1) (\<lambda>(r, s2).
        let s3 = tf_set (curp s2) TF_a0 (of_int r) s2 in
        if tf_get (curp s3) TF_a0 s3 = -1 then kpanic ''exec'' else Inr s3))
      else Inr s)"

end
