(* ===== verification/Sysproc.thy ===== *)
theory Sysproc
  imports Exec
begin

unbundle bit_operations_syntax

text \<open>
  The arguments of system calls (first part of \<^verbatim>\<open>kernel/syscall.c\<close>), \<^verbatim>\<open>kernel/sysproc.c\<close> and the
  page-table dump of \<^verbatim>\<open>kernel/vm.c\<close>. A handler's result is the value for register \<open>a0\<close>, a
  sleep with what is needed to go on, or the end of the process.
\<close>

datatype sysres = SRet u64 | SBlock chan resume | SGone

definition of_call :: "callres \<Rightarrow> sysres" where
  "of_call r = (case r of Ret v \<Rightarrow> SRet (of_int v) | Block ch k \<Rightarrow> SBlock ch k)"

section \<open>Arguments\<close>

definition fetchaddr :: "u64 \<Rightarrow> 'z kern_scheme \<Rightarrow> (u64 option \<times> 'z kern_scheme) kres" where
  "fetchaddr addr s =
     (let p = myproc s in
      if addr \<ge> sz p \<or> addr + 8 > sz p then Inr (None, s)
      else kbind (copyin (pagetable p) (sz p) (pagetable p) addr 8 s) (\<lambda>(r, bs, s1).
        Inr (if r \<noteq> 0 then None else Some (of_nat (le_nat bs)), s1)))"

text \<open>The string is its bytes before the terminating NUL; their number is the result of the C function.\<close>

definition fetchstr :: "u64 \<Rightarrow> nat \<Rightarrow> 'z kern_scheme \<Rightarrow> byte list option kres" where
  "fetchstr addr mx s =
     kbind (copyinstr (pagetable (myproc s)) addr (of_nat mx) s) (\<lambda>(r, bs).
     Inr (if r < 0 then None else Some (takeWhile (\<lambda>c. c \<noteq> 0) bs)))"

definition argraw :: "nat \<Rightarrow> 'z kern_scheme \<Rightarrow> u64 kres" where
  "argraw n s = (if n < 6 then Inr (tf_get (curp s) (TF_a0 + 8 * of_nat n) s) else kpanic ''argraw'')"

definition argint :: "nat \<Rightarrow> 'z kern_scheme \<Rightarrow> i32 kres" where
  "argint n s = kbind (argraw n s) (\<lambda>v. Inr (ucast v))"

definition argaddr :: "nat \<Rightarrow> 'z kern_scheme \<Rightarrow> u64 kres" where
  "argaddr n s = argraw n s"

definition argstr :: "nat \<Rightarrow> nat \<Rightarrow> 'z kern_scheme \<Rightarrow> byte list option kres" where
  "argstr n mx s = kbind (argaddr n s) (\<lambda>addr. fetchstr addr mx s)"

section \<open>Dumping a page table\<close>

definition vmprint_entry :: "nat \<Rightarrow> nat \<Rightarrow> u64 \<Rightarrow> 'z kern_scheme \<Rightarrow> 'z kern_scheme" where
  "vmprint_entry level i pte s =
     (let s1 = fold (\<lambda>_. kprintf '' ..'' []) [0..<level] s;
          s2 = kprintf ''%d: pte 0x%lx pa 0x%lx'' [PInt (of_nat i), PInt pte, PInt (PTE2PA pte)] s1;
          s3 = (if pte AND PTE_R \<noteq> 0 then kprintf '' R'' [] s2 else s2);
          s4 = (if pte AND PTE_W \<noteq> 0 then kprintf '' W'' [] s3 else s3);
          s5 = (if pte AND PTE_X \<noteq> 0 then kprintf '' X'' [] s4 else s4);
          s6 = (if pte AND PTE_U \<noteq> 0 then kprintf '' U'' [] s5 else s5) in
      kprintf ''\<newline>'' [] s6)"

partial_function (option) vmprint_level ::
  "u64 \<Rightarrow> nat \<Rightarrow> nat \<Rightarrow> 'z kern_scheme \<Rightarrow> 'z kern_scheme option" where
  "vmprint_level pt level i s =
     (if i < 512 then
        let pte = ld64 (pmem s) (pt + 8 * of_nat i) in
        if pte AND PTE_V \<noteq> 0 then
          let s1 = vmprint_entry level i pte s in
          Option.bind (if pte AND (PTE_R OR PTE_W OR PTE_X) = 0
                       then vmprint_level (PTE2PA pte) (level + 1) 0 s1 else Some s1)
            (\<lambda>s2. vmprint_level pt level (i + 1) s2)
        else vmprint_level pt level (i + 1) s
      else Some s)"

definition vmprint :: "u64 \<Rightarrow> 'z kern_scheme \<Rightarrow> 'z kern_scheme kres" where
  "vmprint pt s =
     kopt (map_option Inr (vmprint_level pt 1 0 (kprintf ''page table %p\<newline>'' [PInt pt] s)))"

section \<open>Handlers\<close>

definition sys_exit :: "'z filest_scheme \<Rightarrow> (sysres \<times> 'z filest_scheme) kres" where
  "sys_exit s = kbind (argint 0 s) (\<lambda>n. kbind (kexit n s) (\<lambda>s1. Inr (SGone, s1)))"

definition sys_getpid :: "'z kern_scheme \<Rightarrow> (sysres \<times> 'z kern_scheme) kres" where
  "sys_getpid s = Inr (SRet (scast (pid (myproc s))), s)"

definition sys_fork :: "'z filest_scheme \<Rightarrow> (sysres \<times> 'z filest_scheme) kres" where
  "sys_fork s = kbind (kfork s) (\<lambda>(r, s1). Inr (SRet (of_int r), s1))"

definition sys_wait :: "'z kern_scheme \<Rightarrow> (sysres \<times> 'z kern_scheme) kres" where
  "sys_wait s = kbind (argaddr 0 s) (\<lambda>a. kbind (kwait a s) (\<lambda>(r, s1). Inr (of_call r, s1)))"

text \<open>The second argument, the kind of growth, is fetched and not used.\<close>

definition sys_sbrk :: "'z kern_scheme \<Rightarrow> (sysres \<times> 'z kern_scheme) kres" where
  "sys_sbrk s =
     kbind (argint 0 s) (\<lambda>n. kbind (argint 1 s) (\<lambda>t.
     let addr = sz (myproc s) in
     if sint n < 0 then
       kbind (growproc n s) (\<lambda>(r, s1). Inr (SRet (if r < 0 then -1 else addr), s1))
     else if addr + scast n < addr then Inr (SRet (-1), s)
     else if addr + scast n > TRAPFRAME then Inr (SRet (-1), s)
     else Inr (SRet addr, upd_proc (curp s) (\<lambda>p. p\<lparr>sz := sz p + scast n\<rparr>) s)))"

definition pause_loop :: "u32 \<Rightarrow> nat \<Rightarrow> 'z kern_scheme \<Rightarrow> callres" where
  "pause_loop ticks0 n s =
     (if ticks s - ticks0 < of_nat n then
        if killed (curp s) s then Ret (-1) else Block ChTicks (RPause ticks0 n)
      else Ret 0)"

definition sys_pause :: "'z kern_scheme \<Rightarrow> (sysres \<times> 'z kern_scheme) kres" where
  "sys_pause s = kbind (argint 0 s) (\<lambda>n. Inr (of_call (pause_loop (ticks s) (nat (sint n)) s), s))"

definition sys_kill :: "'z kern_scheme \<Rightarrow> (sysres \<times> 'z kern_scheme) kres" where
  "sys_kill s = kbind (argint 0 s) (\<lambda>k. case kkill k s of (r, s1) \<Rightarrow> Inr (SRet (of_int r), s1))"

definition sys_uptime :: "'z kern_scheme \<Rightarrow> (sysres \<times> 'z kern_scheme) kres" where
  "sys_uptime s = Inr (SRet (ucast (ticks s)), s)"

definition sys_shmem :: "'z kern_scheme \<Rightarrow> (sysres \<times> 'z kern_scheme) kres" where
  "sys_shmem s =
     kbind (argint 0 s) (\<lambda>k. kbind (argaddr 1 s) (\<lambda>va.
     case findproc k s of
       None \<Rightarrow> Inr (SRet (-1), s)
     | Some other \<Rightarrow>
         let (pa, s1) = kalloc s in
         if pa = 0 then Inr (SRet (-1), s1)
         else
           let s2 = s1\<lparr>pmem := memset pa 0 (unat PGSIZE) (pmem s1)\<rparr>;
               perm = PTE_R OR PTE_W OR PTE_U; mine = pagetable (myproc s2) in
           kbind (mappages mine va PGSIZE pa perm s2) (\<lambda>(r, s3).
             if r \<noteq> 0 then kbind (kfree pa s3) (\<lambda>s4. Inr (SRet (-1), s4))
             else kbind (mappages (pagetable (procs s3 other)) va PGSIZE pa perm s3) (\<lambda>(r', s4).
               if r' \<noteq> 0 then
                 kbind (uvmunmap mine va 1 False s4) (\<lambda>s5.
                 kbind (kfree pa s5) (\<lambda>s6. Inr (SRet (-1), s6)))
               else Inr (SRet va, s4)))))"

definition sys_hello :: "'z kern_scheme \<Rightarrow> (sysres \<times> 'z kern_scheme) kres" where
  "sys_hello s = Inr (SRet 42, s)"

definition sys_trace :: "'z kern_scheme \<Rightarrow> (sysres \<times> 'z kern_scheme) kres" where
  "sys_trace s = kbind (argint 0 s) (\<lambda>mask.
     Inr (SRet 0, upd_proc (curp s) (\<lambda>p. p\<lparr>trace_mask := mask\<rparr>) s))"

definition sys_dumpvm :: "'z kern_scheme \<Rightarrow> (sysres \<times> 'z kern_scheme) kres" where
  "sys_dumpvm s = kbind (vmprint (pagetable (myproc s)) s) (\<lambda>s1. Inr (SRet 0, s1))"

definition ro_message :: "byte list" where
  "ro_message = str ''mensaje solo lectura''"

definition sys_map_ro :: "'z kern_scheme \<Rightarrow> (sysres \<times> 'z kern_scheme) kres" where
  "sys_map_ro s =
     kbind (argaddr 0 s) (\<lambda>va0.
     let va = PGROUNDDOWN va0; pt = pagetable (myproc s) in
     kbind (ismapped pt va s) (\<lambda>mapped.
       if mapped then Inr (SRet (-1), s)
       else let (mem, s1) = kalloc s in
         if mem = 0 then Inr (SRet (-1), s1)
         else
           let s2 = s1\<lparr>pmem := poke mem (ro_message @ [0]) (memset mem 0 (unat PGSIZE) (pmem s1))\<rparr> in
           kbind (mappages pt va PGSIZE mem (PTE_R OR PTE_U) s2) (\<lambda>(r, s3).
             if r \<noteq> 0 then kbind (kfree mem s3) (\<lambda>s4. Inr (SRet (-1), s4))
             else Inr (SRet 0, s3))))"

definition sys_getpfaults :: "'z kern_scheme \<Rightarrow> (sysres \<times> 'z kern_scheme) kres" where
  "sys_getpfaults s = Inr (SRet (scast (page_faults (myproc s))), s)"

definition sys_resetpfaults :: "'z kern_scheme \<Rightarrow> (sysres \<times> 'z kern_scheme) kres" where
  "sys_resetpfaults s = Inr (SRet 0, upd_proc (curp s) (\<lambda>p. p\<lparr>page_faults := 0\<rparr>) s)"

text \<open>\<^verbatim>\<open>PGROUNDUP\<close> of an \<open>int\<close> is computed at 32 bits; an overflow is taken to wrap around.\<close>

abbreviation mapzero_start :: u64 where "mapzero_start \<equiv> 0x70000000"

definition round_int :: "i32 \<Rightarrow> i32" where
  "round_int n = (n + 4095) AND NOT 4095"

definition sys_mapzero :: "'z kern_scheme \<Rightarrow> (sysres \<times> 'z kern_scheme) kres" where
  "sys_mapzero s =
     kbind (argint 0 s) (\<lambda>size0.
     if sint size0 \<le> 0 then Inr (SRet (-1), s)
     else
       let size = round_int size0 in
       if has_region (myproc s) then Inr (SRet (-1), s)
       else if mapzero_start + scast size < mapzero_start then Inr (SRet (-1), s)
       else if mapzero_start + scast size \<ge> TRAPFRAME then Inr (SRet (-1), s)
       else Inr (SRet mapzero_start, upd_proc (curp s) (\<lambda>p. p\<lparr>
         region := \<lparr>vr_start = mapzero_start, vr_size = size\<rparr>, has_region := True\<rparr>) s))"

end
