(* ===== verification/Fcntl.thy ===== *)
theory Fcntl
  imports KBase
begin

text \<open>The flags of \<^verbatim>\<open>kernel/fcntl.h\<close>, shared by the kernel and the user programs.\<close>

abbreviation O_RDONLY :: u32 where "O_RDONLY \<equiv> 0"
abbreviation O_WRONLY :: u32 where "O_WRONLY \<equiv> 1"
abbreviation O_RDWR :: u32 where "O_RDWR \<equiv> 2"
abbreviation O_CREATE :: u32 where "O_CREATE \<equiv> 0x200"
abbreviation O_TRUNC :: u32 where "O_TRUNC \<equiv> 0x400"

end
