(* ===== verification/Sysfile.thy ===== *)
theory Sysfile
  imports Sysproc Fcntl
begin

unbundle bit_operations_syntax

text \<open>
  \<^verbatim>\<open>kernel/sysfile.c\<close>: the system calls on files. A handler that fails returns the value \<open>-1\<close> as 64 bits.
\<close>

definition fail :: "'s \<Rightarrow> (sysres \<times> 's) kres" where
  "fail s = Inr (SRet (-1), s)"

section \<open>File descriptors\<close>

definition argfd :: "nat \<Rightarrow> 'z kern_scheme \<Rightarrow> (nat \<times> nat) option kres" where
  "argfd n s =
     kbind (argint n s) (\<lambda>fd.
     if sint fd < 0 \<or> sint fd \<ge> int NOFILE then Inr None
     else Inr (map_option (Pair (unat fd)) (ofile (myproc s) ! unat fd)))"

definition set_fd :: "nat \<Rightarrow> nat option \<Rightarrow> 'z kern_scheme \<Rightarrow> 'z kern_scheme" where
  "set_fd fd v s = upd_proc (curp s) (\<lambda>p. p\<lparr>ofile := (ofile p)[fd := v]\<rparr>) s"

definition fdalloc :: "nat \<Rightarrow> 'z kern_scheme \<Rightarrow> nat option \<times> 'z kern_scheme" where
  "fdalloc f s =
     (case find (\<lambda>fd. ofile (myproc s) ! fd = None) [0..<NOFILE] of
        None \<Rightarrow> (None, s)
      | Some fd \<Rightarrow> (Some fd, set_fd fd (Some f) s))"

definition sys_dup :: "'z filest_scheme \<Rightarrow> (sysres \<times> 'z filest_scheme) kres" where
  "sys_dup s =
     kbind (argfd 0 s) (\<lambda>a. case a of None \<Rightarrow> fail s | Some (_, f) \<Rightarrow>
       (case fdalloc f s of (None, s1) \<Rightarrow> fail s1
        | (Some fd, s1) \<Rightarrow> kbind (filedup f s1) (\<lambda>(_, s2). Inr (SRet (of_nat fd), s2))))"

definition sys_read :: "'z filest_scheme \<Rightarrow> (sysres \<times> 'z filest_scheme) kres" where
  "sys_read s =
     kbind (argaddr 1 s) (\<lambda>p. kbind (argint 2 s) (\<lambda>n.
     kbind (argfd 0 s) (\<lambda>a. case a of None \<Rightarrow> fail s
       | Some (_, f) \<Rightarrow> kbind (fileread f p (sint n) s) (\<lambda>(r, s1). Inr (of_call r, s1)))))"

definition sys_write :: "'z filest_scheme \<Rightarrow> (sysres \<times> 'z filest_scheme) kres" where
  "sys_write s =
     kbind (argaddr 1 s) (\<lambda>p. kbind (argint 2 s) (\<lambda>n.
     kbind (argfd 0 s) (\<lambda>a. case a of None \<Rightarrow> fail s
       | Some (_, f) \<Rightarrow> kbind (filewrite f p (sint n) s) (\<lambda>(r, s1). Inr (of_call r, s1)))))"

definition sys_close :: "'z filest_scheme \<Rightarrow> (sysres \<times> 'z filest_scheme) kres" where
  "sys_close s =
     kbind (argfd 0 s) (\<lambda>a. case a of None \<Rightarrow> fail s
       | Some (fd, f) \<Rightarrow> kbind (fileclose f (set_fd fd None s)) (\<lambda>s1. Inr (SRet 0, s1)))"

definition sys_fstat :: "'z filest_scheme \<Rightarrow> (sysres \<times> 'z filest_scheme) kres" where
  "sys_fstat s =
     kbind (argaddr 1 s) (\<lambda>st.
     kbind (argfd 0 s) (\<lambda>a. case a of None \<Rightarrow> fail s
       | Some (_, f) \<Rightarrow> kbind (filestat f st s) (\<lambda>(r, s1). Inr (SRet (of_int r), s1))))"

section \<open>Links\<close>

definition end_fail :: "'z fsst_scheme \<Rightarrow> (sysres \<times> 'z fsst_scheme) kres" where
  "end_fail s = kbind (end_op s) fail"

definition put_fail :: "nat \<Rightarrow> 'z fsst_scheme \<Rightarrow> (sysres \<times> 'z fsst_scheme) kres" where
  "put_fail i s = kbind (iunlockput i s) end_fail"

definition add_nlink :: "nat \<Rightarrow> u16 \<Rightarrow> 'z fsst_scheme \<Rightarrow> 'z fsst_scheme kres" where
  "add_nlink i d s = iupdate i (upd_inode i (\<lambda>x. x\<lparr>inlink := inlink x + d\<rparr>) s)"

definition link_bad :: "nat \<Rightarrow> 'z fsst_scheme \<Rightarrow> (sysres \<times> 'z fsst_scheme) kres" where
  "link_bad ip s = kbind (ilock (Some ip) s) (\<lambda>s1. kbind (add_nlink ip (-1) s1) (put_fail ip))"

definition link_paths :: "byte list \<Rightarrow> byte list \<Rightarrow> 'z fsst_scheme \<Rightarrow> (sysres \<times> 'z fsst_scheme) kres" where
  "link_paths old new s =
     kbind (begin_op s) (\<lambda>s1.
     kbind (namei old s1) (\<lambda>(ipo, s2).
       case ipo of None \<Rightarrow> end_fail s2
       | Some ip \<Rightarrow>
           kbind (ilock (Some ip) s2) (\<lambda>s3.
           if itype (itable s3 ip) = T_DIR then put_fail ip s3
           else
             kbind (add_nlink ip 1 s3) (\<lambda>s4.
             kbind (iunlock (Some ip) s4) (\<lambda>s5.
             kbind (nameiparent new s5) (\<lambda>(dpo, name, s6).
               case dpo of None \<Rightarrow> link_bad ip s6
               | Some dp \<Rightarrow>
                   kbind (ilock (Some dp) s6) (\<lambda>s7.
                   kbind (if idev (itable s7 dp) \<noteq> idev (itable s7 ip) then Inr (-1, s7)
                          else dirlink dp name (inum (itable s7 ip)) s7) (\<lambda>(r, s8).
                     if r < 0 then kbind (iunlockput dp s8) (link_bad ip)
                     else
                       kbind (iunlockput dp s8) (\<lambda>s9.
                       kbind (iput ip s9) (\<lambda>s10.
                       kbind (end_op s10) (\<lambda>s11. Inr (SRet 0, s11)))))))))))) "

definition sys_link :: "'z fsst_scheme \<Rightarrow> (sysres \<times> 'z fsst_scheme) kres" where
  "sys_link s =
     kbind (argstr 0 MAXPATH s) (\<lambda>old. case old of None \<Rightarrow> fail s | Some old \<Rightarrow>
     kbind (argstr 1 MAXPATH s) (\<lambda>new. case new of None \<Rightarrow> fail s | Some new \<Rightarrow> link_paths old new s))"

function isdirempty :: "nat \<Rightarrow> nat \<Rightarrow> nat \<Rightarrow> 'z fsst_scheme \<Rightarrow> (bool \<times> 'z fsst_scheme) kres" where
  "isdirempty dp dlen off s =
     (if off < dlen then
        kbind (readi dp VarDst (of_nat off) 16 s) (\<lambda>(r, de, s1).
          if r \<noteq> 16 then kpanic ''isdirempty: readi''
          else if de_inum de \<noteq> 0 then Inr (False, s1)
          else isdirempty dp dlen (off + 16) s1)
      else Inr (True, s))"
  by pat_completeness auto
termination by (relation "measure (\<lambda>(_, dlen, off, _). dlen - off)") auto

declare isdirempty.simps [simp del]

definition unlink_entry :: "nat \<Rightarrow> nat \<Rightarrow> u32 \<Rightarrow> 'z fsst_scheme \<Rightarrow> (sysres \<times> 'z fsst_scheme) kres" where
  "unlink_entry dp ip off s =
     kbind (writei dp (VarSrc (replicate 16 0)) off 16 s) (\<lambda>(r, s1).
     if r \<noteq> 16 then kpanic ''unlink: writei''
     else
       kbind (if itype (itable s1 ip) = T_DIR then add_nlink dp (-1) s1 else Inr s1) (\<lambda>s2.
       kbind (iunlockput dp s2) (\<lambda>s3.
       kbind (add_nlink ip (-1) s3) (\<lambda>s4.
       kbind (iunlockput ip s4) (\<lambda>s5.
       kbind (end_op s5) (\<lambda>s6. Inr (SRet 0, s6)))))))"

definition unlink_path :: "byte list \<Rightarrow> 'z fsst_scheme \<Rightarrow> (sysres \<times> 'z fsst_scheme) kres" where
  "unlink_path path s =
     kbind (begin_op s) (\<lambda>s1.
     kbind (nameiparent path s1) (\<lambda>(dpo, name, s2).
       case dpo of None \<Rightarrow> end_fail s2
       | Some dp \<Rightarrow>
           kbind (ilock (Some dp) s2) (\<lambda>s3.
           if namecmp name (str ''.'') = 0 \<or> namecmp name (str ''..'') = 0 then put_fail dp s3
           else kbind (dirlookup dp name s3) (\<lambda>(found, s4).
             case found of None \<Rightarrow> put_fail dp s4
             | Some (ip, off) \<Rightarrow>
                 kbind (ilock (Some ip) s4) (\<lambda>s5.
                 if sint (inlink (itable s5 ip)) < 1 then kpanic ''unlink: nlink < 1''
                 else
                   kbind (if itype (itable s5 ip) = T_DIR
                          then isdirempty ip (unat (isize (itable s5 ip))) 32 s5 else Inr (True, s5)) (\<lambda>(ok, s6).
                   if \<not> ok then kbind (iunlockput ip s6) (put_fail dp)
                   else unlink_entry dp ip off s6))))))"

definition sys_unlink :: "'z fsst_scheme \<Rightarrow> (sysres \<times> 'z fsst_scheme) kres" where
  "sys_unlink s =
     kbind (argstr 0 MAXPATH s) (\<lambda>path. case path of None \<Rightarrow> fail s | Some path \<Rightarrow> unlink_path path s)"

section \<open>Creating files\<close>

definition create_fail :: "nat \<Rightarrow> nat \<Rightarrow> 'z fsst_scheme \<Rightarrow> (nat option \<times> 'z fsst_scheme) kres" where
  "create_fail ip dp s =
     kbind (iupdate ip (upd_inode ip (\<lambda>x. x\<lparr>inlink := 0\<rparr>) s)) (\<lambda>s1.
     kbind (iunlockput ip s1) (\<lambda>s2.
     kbind (iunlockput dp s2) (\<lambda>s3. Inr (None, s3))))"

text \<open>The entries \<^verbatim>\<open>.\<close> and \<^verbatim>\<open>..\<close> of a new directory.\<close>

definition create_dots :: "nat \<Rightarrow> nat \<Rightarrow> 'z fsst_scheme \<Rightarrow> (bool \<times> 'z fsst_scheme) kres" where
  "create_dots ip dp s =
     kbind (dirlink ip (str ''.'') (inum (itable s ip)) s) (\<lambda>(r, s1).
     if r < 0 then Inr (False, s1)
     else kbind (dirlink ip (str ''..'') (inum (itable s1 dp)) s1) (\<lambda>(r', s2). Inr (\<not> r' < 0, s2)))"

definition create_new ::
  "nat \<Rightarrow> byte list \<Rightarrow> u16 \<Rightarrow> u16 \<Rightarrow> u16 \<Rightarrow> 'z fsst_scheme \<Rightarrow> (nat option \<times> 'z fsst_scheme) kres" where
  "create_new dp name type major minor s =
     kbind (ialloc (idev (itable s dp)) type s) (\<lambda>(ipo, s1).
       case ipo of None \<Rightarrow> kbind (iunlockput dp s1) (\<lambda>s2. Inr (None, s2))
       | Some ip \<Rightarrow>
           kbind (ilock (Some ip) s1) (\<lambda>s2.
           kbind (iupdate ip (upd_inode ip (\<lambda>x. x\<lparr>imajor := major, iminor := minor, inlink := 1\<rparr>) s2)) (\<lambda>s3.
           kbind (if type = T_DIR then create_dots ip dp s3 else Inr (True, s3)) (\<lambda>(ok, s4).
             if \<not> ok then create_fail ip dp s4
             else kbind (dirlink dp name (inum (itable s4 ip)) s4) (\<lambda>(r, s5).
               if r < 0 then create_fail ip dp s5
               else
                 kbind (if type = T_DIR then add_nlink dp 1 s5 else Inr s5) (\<lambda>s6.
                 kbind (iunlockput dp s6) (\<lambda>s7. Inr (Some ip, s7))))))))"

definition create ::
  "byte list \<Rightarrow> u16 \<Rightarrow> u16 \<Rightarrow> u16 \<Rightarrow> 'z fsst_scheme \<Rightarrow> (nat option \<times> 'z fsst_scheme) kres" where
  "create path type major minor s =
     kbind (nameiparent path s) (\<lambda>(dpo, name, s1).
       case dpo of None \<Rightarrow> Inr (None, s1)
       | Some dp \<Rightarrow>
           kbind (ilock (Some dp) s1) (\<lambda>s2.
           kbind (dirlookup dp name s2) (\<lambda>(found, s3).
             case found of
               Some (ip, _) \<Rightarrow>
                 kbind (iunlockput dp s3) (\<lambda>s4.
                 kbind (ilock (Some ip) s4) (\<lambda>s5.
                 if type = T_FILE \<and> (itype (itable s5 ip) = T_FILE \<or> itype (itable s5 ip) = T_DEVICE)
                 then Inr (Some ip, s5)
                 else kbind (iunlockput ip s5) (\<lambda>s6. Inr (None, s6))))
             | None \<Rightarrow> create_new dp name type major minor s3)))"

section \<open>Opening\<close>


text \<open>The rest of \<open>sys_open\<close> once \<open>ip\<close> is locked.\<close>

definition open_inode :: "nat \<Rightarrow> i32 \<Rightarrow> 'z filest_scheme \<Rightarrow> (sysres \<times> 'z filest_scheme) kres" where
  "open_inode ip omode s =
     (let x = itable s ip in
      if itype x = T_DEVICE \<and> (sint (imajor x) < 0 \<or> sint (imajor x) \<ge> int NDEV) then put_fail ip s
      else case filealloc s of
        (None, s1) \<Rightarrow> put_fail ip s1
      | (Some f, s1) \<Rightarrow>
          (case fdalloc f s1 of
             (None, s2) \<Rightarrow> kbind (fileclose f s2) (put_fail ip)
           | (Some fd, s2) \<Rightarrow>
               let s3 = upd_file f (\<lambda>y. if itype x = T_DEVICE then y\<lparr>ftype := FD_DEVICE, fmajor := imajor x\<rparr>
                                        else y\<lparr>ftype := FD_INODE, foff := 0\<rparr>) s2;
                   s4 = upd_file f (\<lambda>y. y\<lparr>fip := Some ip, readable := (omode AND O_WRONLY = 0),
                     writable := (omode AND O_WRONLY \<noteq> 0 \<or> omode AND O_RDWR \<noteq> 0)\<rparr>) s3 in
               kbind (if omode AND O_TRUNC \<noteq> 0 \<and> itype (itable s4 ip) = T_FILE then itrunc ip s4 else Inr s4) (\<lambda>s5.
               kbind (iunlock (Some ip) s5) (\<lambda>s6.
               kbind (end_op s6) (\<lambda>s7. Inr (SRet (of_nat fd), s7))))))"

definition open_path :: "byte list \<Rightarrow> i32 \<Rightarrow> 'z filest_scheme \<Rightarrow> (sysres \<times> 'z filest_scheme) kres" where
  "open_path path omode s =
     kbind (begin_op s) (\<lambda>s1.
     if omode AND O_CREATE \<noteq> 0 then
       kbind (create path T_FILE 0 0 s1) (\<lambda>(ipo, s2).
         case ipo of None \<Rightarrow> end_fail s2 | Some ip \<Rightarrow> open_inode ip omode s2)
     else
       kbind (namei path s1) (\<lambda>(ipo, s2).
         case ipo of None \<Rightarrow> end_fail s2
         | Some ip \<Rightarrow>
             kbind (ilock (Some ip) s2) (\<lambda>s3.
             if itype (itable s3 ip) = T_DIR \<and> omode \<noteq> O_RDONLY then put_fail ip s3
             else open_inode ip omode s3)))"

definition sys_open :: "'z filest_scheme \<Rightarrow> (sysres \<times> 'z filest_scheme) kres" where
  "sys_open s =
     kbind (argint 1 s) (\<lambda>omode.
     kbind (argstr 0 MAXPATH s) (\<lambda>path. case path of None \<Rightarrow> fail s | Some path \<Rightarrow> open_path path omode s))"

definition make_node ::
  "byte list option \<Rightarrow> u16 \<Rightarrow> u16 \<Rightarrow> u16 \<Rightarrow> 'z fsst_scheme \<Rightarrow> (sysres \<times> 'z fsst_scheme) kres" where
  "make_node path type major minor s =
     (case path of None \<Rightarrow> end_fail s
      | Some path \<Rightarrow>
          kbind (create path type major minor s) (\<lambda>(ipo, s1).
            case ipo of None \<Rightarrow> end_fail s1
            | Some ip \<Rightarrow>
                kbind (iunlockput ip s1) (\<lambda>s2.
                kbind (end_op s2) (\<lambda>s3. Inr (SRet 0, s3)))))"

definition sys_mkdir :: "'z fsst_scheme \<Rightarrow> (sysres \<times> 'z fsst_scheme) kres" where
  "sys_mkdir s =
     kbind (begin_op s) (\<lambda>s1.
     kbind (argstr 0 MAXPATH s1) (\<lambda>path. make_node path T_DIR 0 0 s1))"

definition sys_mknod :: "'z fsst_scheme \<Rightarrow> (sysres \<times> 'z fsst_scheme) kres" where
  "sys_mknod s =
     kbind (begin_op s) (\<lambda>s1.
     kbind (argint 1 s1) (\<lambda>major.
     kbind (argint 2 s1) (\<lambda>minor.
     kbind (argstr 0 MAXPATH s1) (\<lambda>path. make_node path T_DEVICE (ucast major) (ucast minor) s1))))"

section \<open>Directory, program and pipe\<close>

definition chdir_path :: "byte list \<Rightarrow> 'z fsst_scheme \<Rightarrow> (sysres \<times> 'z fsst_scheme) kres" where
  "chdir_path path s =
     kbind (namei path s) (\<lambda>(ipo, s1).
       case ipo of None \<Rightarrow> end_fail s1
       | Some ip \<Rightarrow>
           kbind (ilock (Some ip) s1) (\<lambda>s2.
           if itype (itable s2 ip) \<noteq> T_DIR then put_fail ip s2
           else
             kbind (iunlock (Some ip) s2) (\<lambda>s3.
             kbind (case cwd (myproc s3) of None \<Rightarrow> kpanic ''kerneltrap'' | Some c \<Rightarrow> iput c s3) (\<lambda>s4.
             kbind (end_op s4) (\<lambda>s5.
             Inr (SRet 0, upd_proc (curp s5) (\<lambda>p. p\<lparr>cwd := Some ip\<rparr>) s5))))))"

definition sys_chdir :: "'z fsst_scheme \<Rightarrow> (sysres \<times> 'z fsst_scheme) kres" where
  "sys_chdir s =
     kbind (begin_op s) (\<lambda>s1.
     kbind (argstr 0 MAXPATH s1) (\<lambda>path. case path of None \<Rightarrow> end_fail s1 | Some path \<Rightarrow> chdir_path path s1))"

text \<open>
  The loop of \<open>sys_exec\<close> with \<open>k\<close> places of \<^verbatim>\<open>argv\<close> left: whether the terminating null was found, the pages
  taken and the strings in them.
\<close>

primrec exec_args :: "nat \<Rightarrow> u64 \<Rightarrow> 'z kern_scheme \<Rightarrow> (bool \<times> u64 list \<times> byte list list \<times> 'z kern_scheme) kres" where
  "exec_args 0 ua s = Inr (False, [], [], s)"
| "exec_args (Suc k) ua s =
     kbind (fetchaddr ua s) (\<lambda>(v, s1).
       case v of None \<Rightarrow> Inr (False, [], [], s1)
       | Some uarg \<Rightarrow>
           if uarg = 0 then Inr (True, [], [], s1)
           else let (pg, s2) = kalloc s1 in
             if pg = 0 then Inr (False, [], [], s2)
             else kbind (copyinstr (pagetable (myproc s2)) uarg PGSIZE s2) (\<lambda>(r, bs).
               let s3 = s2\<lparr>pmem := poke pg bs (pmem s2)\<rparr> in
               if r < 0 then Inr (False, [pg], [], s3)
               else kbind (exec_args k (ua + 8) s3) (\<lambda>(ok, pgs, strs, s4).
                 Inr (ok, pg # pgs, takeWhile (\<lambda>c. c \<noteq> 0) bs # strs, s4))))"

definition sys_exec :: "'z fsst_scheme \<Rightarrow> (sysres \<times> 'z fsst_scheme) kres" where
  "sys_exec s =
     kbind (argaddr 1 s) (\<lambda>uargv.
     kbind (argstr 0 MAXPATH s) (\<lambda>path. case path of None \<Rightarrow> fail s | Some path \<Rightarrow>
     kbind (exec_args MAXARG uargv s) (\<lambda>(ok, pgs, strs, s1).
       if ok then
         kbind (kexec path strs s1) (\<lambda>(r, s2).
         kbind (kfold kfree pgs s2) (\<lambda>s3. Inr (SRet (of_int r), s3)))
       else kbind (kfold kfree pgs s1) fail)))"

definition pipe_close_both :: "nat \<Rightarrow> nat \<Rightarrow> 'z filest_scheme \<Rightarrow> (sysres \<times> 'z filest_scheme) kres" where
  "pipe_close_both rfl wfl s = kbind (fileclose rfl s) (\<lambda>s1. kbind (fileclose wfl s1) fail)"

definition sys_pipe :: "'z filest_scheme \<Rightarrow> (sysres \<times> 'z filest_scheme) kres" where
  "sys_pipe s =
     kbind (argaddr 0 s) (\<lambda>fdarray.
     kbind (pipealloc s) (\<lambda>(fs, s1).
       case fs of None \<Rightarrow> fail s1
       | Some (rfl, wfl) \<Rightarrow>
           (case fdalloc rfl s1 of
              (None, s2) \<Rightarrow> pipe_close_both rfl wfl s2
            | (Some fd0, s2) \<Rightarrow>
                (case fdalloc wfl s2 of
                   (None, s3) \<Rightarrow> pipe_close_both rfl wfl (set_fd fd0 None s3)
                 | (Some fd1, s3) \<Rightarrow>
                     kbind (copyout_to (pagetable (myproc s3)) fdarray (le_bytes 4 fd0) s3) (\<lambda>(r, s4).
                     kbind (if r < 0 then Inr (r, s4)
                            else copyout_to (pagetable (myproc s4)) (fdarray + 4) (le_bytes 4 fd1) s4) (\<lambda>(r', s5).
                       if r' < 0 then pipe_close_both rfl wfl (set_fd fd1 None (set_fd fd0 None s5))
                       else Inr (SRet 0, s5)))))))"

end
