(* ===== verification/Syscall.thy ===== *)
theory Syscall
  imports Sysfile
begin

unbundle bit_operations_syntax

text \<open>
  The dispatch of \<^verbatim>\<open>kernel/syscall.c\<close>: the tables of handlers and of names, \<open>syscall\<close> with its tracing, and
  the continuation of a call that slept.
\<close>

section \<open>Tables\<close>

definition syscall_names :: "string list" where
  "syscall_names = [''fork'', ''exit'', ''wait'', ''pipe'', ''read'', ''kill'', ''exec'', ''fstat'', ''chdir'',
     ''dup'', ''getpid'', ''sbrk'', ''pause'', ''uptime'', ''open'', ''write'', ''mknod'', ''unlink'', ''link'',
     ''mkdir'', ''close'', ''hello'', ''trace'', ''dumpvm'', ''map_ro'', ''shmem'', ''getpfaults'',
     ''resetpfaults'', ''mapzero'']"

definition syscalls :: "('z filest_scheme \<Rightarrow> (sysres \<times> 'z filest_scheme) kres) list" where
  "syscalls = [sys_fork, sys_exit, sys_wait, sys_pipe, sys_read, sys_kill, sys_exec, sys_fstat, sys_chdir,
     sys_dup, sys_getpid, sys_sbrk, sys_pause, sys_uptime, sys_open, sys_write, sys_mknod, sys_unlink, sys_link,
     sys_mkdir, sys_close, sys_hello, sys_trace, sys_dumpvm, sys_map_ro, sys_shmem, sys_getpfaults,
     sys_resetpfaults, sys_mapzero]"

section \<open>Dispatch\<close>

text \<open>The end of \<open>syscall\<close>, once the handler has returned.\<close>

definition syscall_ret ::
  "i32 \<Rightarrow> u64 \<Rightarrow> u64 \<Rightarrow> u64 \<Rightarrow> u64 \<Rightarrow> 'z kern_scheme \<Rightarrow> 'z kern_scheme" where
  "syscall_ret num a0 a1 a2 ret s =
     (let s1 = tf_set (curp s) TF_a0 ret s; p = myproc s1 in
      if trace_mask p AND push_bit (unat num) 1 \<noteq> 0 then
        kprintf ''trace: pid=%d name=%s syscall=%d (%s) a0=0x%lx a1=0x%lx a2=0x%lx ret=0x%lx\<newline>''
          [PInt (scast (pid p)), PStr (Some (pname p)), PInt (scast num),
           PStr (Some (str (syscall_names ! (unat num - 1)))), PInt a0, PInt a1, PInt a2, PInt ret] s1
      else s1)"

definition syscall :: "'z filest_scheme \<Rightarrow> (sysres \<times> 'z filest_scheme) kres" where
  "syscall s =
     (let me = curp s; num = (ucast (tf_get me TF_a7 s) :: i32) in
      if 0 < sint num \<and> sint num \<le> int (length syscall_names) then
        let a0 = tf_get me TF_a0 s; a1 = tf_get me TF_a1 s; a2 = tf_get me (TF_a1 + 8) s in
        kbind ((syscalls ! (unat num - 1)) s) (\<lambda>(r, s1).
          case r of SRet ret \<Rightarrow> Inr (r, syscall_ret num a0 a1 a2 ret s1) | _ \<Rightarrow> Inr (r, s1))
      else
        Inr (SRet (-1), tf_set me TF_a0 (-1) (kprintf ''%d %s: unknown sys call %d\<newline>''
          [PInt (scast (pid (myproc s))), PStr (Some (pname (myproc s))), PInt (scast num)] s)))"

text \<open>A process that slept in a call goes on with the loop it slept in.\<close>

definition resume_call :: "resume \<Rightarrow> 'z filest_scheme \<Rightarrow> (callres \<times> 'z filest_scheme) kres" where
  "resume_call k s0 =
     (let s = wake_tidy s0 in
      case k of
        RConsRead dst n target \<Rightarrow> consoleread_loop n dst target s
      | RConsWrite src n i pending \<Rightarrow> consolewrite_resume src n i pending s
      | RPipeRead pi addr n \<Rightarrow> piperead pi addr n s
      | RPipeWrite pi addr n i \<Rightarrow> pipewrite_loop pi addr n i s
      | RWait addr \<Rightarrow> kwait addr s
      | RPause t0 n \<Rightarrow> Inr (pause_loop t0 n s, s))"

end
