(* ===== verification/Trap.thy ===== *)
theory Trap
  imports Syscall
begin

unbundle bit_operations_syntax

text \<open>
  \<^verbatim>\<open>kernel/trap.c\<close> and the use of \<^verbatim>\<open>kernel/plic.c\<close>. The supervisor registers are a record of the state; what a
  device register returns when it is read (the interrupt number claimed from the PLIC, the state
  of the UART, the bytes waiting in it) is a record \<open>devices\<close>, an argument. \<open>disk_intr\<close>
  stands for \<open>virtio_disk_intr\<close>, which a theory of its own models.
\<close>

section \<open>Registers and devices\<close>

record csr =
  sstatus :: u64
  scause :: u64
  sepc :: u64
  stval :: u64
  stvec :: u64
  satp :: u64
  tp :: u64
  stimecmp :: u64

record trapst = filest +
  csrs :: csr
  plic_done :: "u32 list"
  first_ret :: bool

record devices =
  irq_claim :: u32
  uart_tx_idle :: bool
  uart_input :: "byte list"
  mtime :: u64

abbreviation SSTATUS_SPP :: u64 where "SSTATUS_SPP \<equiv> push_bit 8 1"
abbreviation SSTATUS_SPIE :: u64 where "SSTATUS_SPIE \<equiv> push_bit 5 1"
abbreviation SSTATUS_SIE :: u64 where "SSTATUS_SIE \<equiv> push_bit 1 1"

definition upd_csr :: "(csr \<Rightarrow> csr) \<Rightarrow> 'z trapst_scheme \<Rightarrow> 'z trapst_scheme" where
  "upd_csr f s = s\<lparr>csrs := f (csrs s)\<rparr>"

definition intr_on :: "'z trapst_scheme \<Rightarrow> 'z trapst_scheme" where
  "intr_on = upd_csr (\<lambda>c. c\<lparr>sstatus := sstatus c OR SSTATUS_SIE\<rparr>)"

definition intr_off :: "'z trapst_scheme \<Rightarrow> 'z trapst_scheme" where
  "intr_off = upd_csr (\<lambda>c. c\<lparr>sstatus := sstatus c AND NOT SSTATUS_SIE\<rparr>)"

definition intr_get :: "'z trapst_scheme \<Rightarrow> bool" where
  "intr_get s \<longleftrightarrow> sstatus (csrs s) AND SSTATUS_SIE \<noteq> 0"

section \<open>Interrupts\<close>

definition clockintr :: "devices \<Rightarrow> 'z trapst_scheme \<Rightarrow> 'z trapst_scheme" where
  "clockintr d s =
     (let s1 = (if ucast (tp (csrs s)) = (0::u32) then wakeup ChTicks (s\<lparr>ticks := ticks s + 1\<rparr>) else s) in
      upd_csr (\<lambda>c. c\<lparr>stimecmp := mtime d + 1000000\<rparr>) s1)"

definition plic_complete :: "u32 \<Rightarrow> 'z trapst_scheme \<Rightarrow> 'z trapst_scheme" where
  "plic_complete irq s = s\<lparr>plic_done := plic_done s @ [irq]\<rparr>"

definition devintr ::
  "('z trapst_scheme \<Rightarrow> 'z trapst_scheme kres) \<Rightarrow> devices \<Rightarrow> 'z trapst_scheme \<Rightarrow> (nat \<times> 'z trapst_scheme) kres" where
  "devintr disk_intr d s =
     (if scause (csrs s) = 0x8000000000000009 then
        let irq = irq_claim d in
        kbind (if irq = UART0_IRQ then Inr (uartintr (uart_tx_idle d) (uart_input d) s)
               else if irq = VIRTIO0_IRQ then disk_intr s
               else if irq \<noteq> 0 then Inr (kprintf ''unexpected interrupt irq=%d\<newline>'' [PInt (scast irq)] s)
               else Inr s) (\<lambda>s1.
        Inr (1, if irq \<noteq> 0 then plic_complete irq s1 else s1))
      else if scause (csrs s) = 0x8000000000000005 then Inr (2, clockintr d s)
      else Inr (0, s))"

section \<open>Page faults\<close>

definition fault_msg :: "u64 \<Rightarrow> 'z trapst_scheme \<Rightarrow> 'z trapst_scheme" where
  "fault_msg badva s = setkilled (curp s)
     (kprintf ''page fault: pid=%d scause=%d stval=0x%lx sepc=0x%lx\<newline>''
       [PInt (scast (pid (myproc s))), PInt (scause (csrs s)), PInt badva, PInt (sepc (csrs s))] s)"

definition count_fault :: "string \<Rightarrow> u64 \<Rightarrow> 'z trapst_scheme \<Rightarrow> 'z trapst_scheme" where
  "count_fault msg badva s =
     (let s1 = upd_proc (curp s) (\<lambda>p. p\<lparr>page_faults := page_faults p + 1\<rparr>) s in
      kprintf msg [PInt (scast (pid (myproc s1))), PInt (scause (csrs s1)), PInt badva] s1)"

text \<open>A fault in the region of \<open>mapzero\<close>: the page is filled with the letter A and mapped.\<close>

definition region_fault :: "u64 \<Rightarrow> 'z trapst_scheme \<Rightarrow> 'z trapst_scheme kres" where
  "region_fault badva s =
     (let va = PGROUNDDOWN badva; pt = pagetable (myproc s) in
      kbind (ismapped pt va s) (\<lambda>mapped.
        if mapped then Inr (fault_msg badva s)
        else let (mem, s1) = kalloc s in
          if mem = 0 then Inr (fault_msg badva s1)
          else
            let s2 = s1\<lparr>pmem := memset mem (chr CHR ''A'') (unat PGSIZE) (pmem s1)\<rparr> in
            kbind (mappages pt va PGSIZE mem (PTE_R OR PTE_W OR PTE_U) s2) (\<lambda>(r, s3).
              if r \<noteq> 0 then kbind (kfree mem s3) (\<lambda>s4. Inr (fault_msg badva s4))
              else Inr (count_fault ''mapzero alloc: pid=%d scause=%d stval=0x%lx\<newline>'' badva s3))))"

definition in_region :: "proc \<Rightarrow> u64 \<Rightarrow> bool" where
  "in_region p va \<longleftrightarrow> has_region p \<and> va \<ge> vr_start (region p)
     \<and> va < vr_start (region p) + scast (vr_size (region p))"

definition user_fault :: "'z trapst_scheme \<Rightarrow> 'z trapst_scheme kres" where
  "user_fault s =
     (let badva = stval (csrs s); p = myproc s in
      if in_region p badva then region_fault badva s
      else kbind (vmfault (pagetable p) (sz p) (pagetable p) badva s) (\<lambda>(pa, s1).
        if pa \<noteq> 0 then Inr (count_fault ''lazy alloc: pid=%d scause=%d stval=0x%lx\<newline>'' badva s1)
        else Inr (fault_msg badva s1)))"

definition unexpected_trap :: "'z trapst_scheme \<Rightarrow> 'z trapst_scheme" where
  "unexpected_trap s = setkilled (curp s)
     (kprintf ''            sepc=0x%lx stval=0x%lx\<newline>'' [PInt (sepc (csrs s)), PInt (stval (csrs s))]
       (kprintf ''usertrap(): unexpected scause 0x%lx pid=%d\<newline>''
         [PInt (scause (csrs s)), PInt (scast (pid (myproc s)))] s))"

section \<open>Return to user space\<close>

text \<open>\<open>uservec\<close> is the offset of that label in the trampoline page, \<open>usertrap_addr\<close> the address of the handler.\<close>

definition prepare_return :: "u64 \<Rightarrow> u64 \<Rightarrow> 'z trapst_scheme \<Rightarrow> 'z trapst_scheme" where
  "prepare_return uservec usertrap_addr s =
     (let me = curp s;
          s1 = upd_csr (\<lambda>c. c\<lparr>stvec := TRAMPOLINE + uservec\<rparr>) (intr_off s);
          s2 = tf_set me 0 (satp (csrs s1)) s1;
          s3 = tf_set me 8 (kstack (procs s2 me) + PGSIZE) s2;
          s4 = tf_set me 16 usertrap_addr s3;
          s5 = tf_set me 32 (tp (csrs s4)) s4;
          s6 = upd_csr (\<lambda>c. c\<lparr>sstatus := (sstatus c AND NOT SSTATUS_SPP) OR SSTATUS_SPIE\<rparr>) s5 in
      upd_csr (\<lambda>c. c\<lparr>sepc := tf_get me TF_epc s6\<rparr>) s6)"

section \<open>Traps from user space\<close>

datatype trapres = TReturn u64 | TYield | TBlock chan resume | TExit

text \<open>
  The end of \<open>usertrap\<close> after the cause was handled. A timer interrupt gives up the CPU: the result is then
  \<open>TYield\<close>, and \<open>usertrap_return\<close> is what the process does when it runs again.
\<close>

definition usertrap_return :: "u64 \<Rightarrow> u64 \<Rightarrow> 'z trapst_scheme \<Rightarrow> (trapres \<times> 'z trapst_scheme) kres" where
  "usertrap_return uservec usertrap_addr s =
     (let s1 = prepare_return uservec usertrap_addr s in
      Inr (TReturn (MAKE_SATP (pagetable (myproc s1))), s1))"

definition usertrap_end ::
  "u64 \<Rightarrow> u64 \<Rightarrow> nat \<Rightarrow> 'z trapst_scheme \<Rightarrow> (trapres \<times> 'z trapst_scheme) kres" where
  "usertrap_end uservec usertrap_addr which_dev s =
     (if killed (curp s) s then kbind (kexit (-1) s) (\<lambda>s1. Inr (TExit, s1))
      else if which_dev = 2 then Inr (TYield, yield_cpu s)
      else usertrap_return uservec usertrap_addr s)"

definition usertrap ::
  "u64 \<Rightarrow> u64 \<Rightarrow> u64 \<Rightarrow> ('z trapst_scheme \<Rightarrow> 'z trapst_scheme kres) \<Rightarrow> devices \<Rightarrow> 'z trapst_scheme
   \<Rightarrow> (trapres \<times> 'z trapst_scheme) kres" where
  "usertrap kernelvec uservec usertrap_addr disk_intr d s =
     (if sstatus (csrs s) AND SSTATUS_SPP \<noteq> 0 then kpanic ''usertrap: not from user mode''
      else
        let s1 = upd_csr (\<lambda>c. c\<lparr>stvec := kernelvec\<rparr>) s; me = curp s1;
            s2 = tf_set me TF_epc (sepc (csrs s1)) s1 in
        if scause (csrs s2) = 8 then
          if killed me s2 then kbind (kexit (-1) s2) (\<lambda>s3. Inr (TExit, s3))
          else
            let s3 = intr_on (tf_set me TF_epc (tf_get me TF_epc s2 + 4) s2) in
            kbind (syscall s3) (\<lambda>(r, s4).
              case r of
                SRet _ \<Rightarrow> usertrap_end uservec usertrap_addr 0 s4
              | SBlock ch k \<Rightarrow> Inr (TBlock ch k, go_to_sleep ch s4)
              | SGone \<Rightarrow> Inr (TExit, s4))
        else kbind (devintr disk_intr d s2) (\<lambda>(which_dev, s3).
          if which_dev \<noteq> 0 then usertrap_end uservec usertrap_addr which_dev s3
          else if scause (csrs s3) = 13 \<or> scause (csrs s3) = 15
          then kbind (user_fault s3) (usertrap_end uservec usertrap_addr 0)
          else usertrap_end uservec usertrap_addr 0 (unexpected_trap s3)))"

section \<open>Traps from kernel code\<close>

text \<open>\<open>running\<close> tells whether a process runs on the CPU. The registers are restored also after a yield.\<close>

definition kerneltrap ::
  "('z trapst_scheme \<Rightarrow> 'z trapst_scheme kres) \<Rightarrow> devices \<Rightarrow> bool \<Rightarrow> 'z trapst_scheme
   \<Rightarrow> (bool \<times> 'z trapst_scheme) kres" where
  "kerneltrap disk_intr d running s =
     (let c = csrs s in
      if sstatus c AND SSTATUS_SPP = 0 then kpanic ''kerneltrap: not from supervisor mode''
      else if intr_get s then kpanic ''kerneltrap: interrupts enabled''
      else kbind (devintr disk_intr d s) (\<lambda>(which_dev, s1).
        if which_dev = 0 then kpanic ''kerneltrap''
        else
          let yields = (which_dev = 2 \<and> running); s2 = (if yields then yield_cpu s1 else s1) in
          Inr (yields, upd_csr (\<lambda>r. r\<lparr>sepc := sepc c, sstatus := sstatus c\<rparr>) s2)))"

section \<open>The first return of a process\<close>

definition forkret_trap :: "u64 \<Rightarrow> u64 \<Rightarrow> 'z trapst_scheme \<Rightarrow> (u64 \<times> 'z trapst_scheme) kres" where
  "forkret_trap uservec usertrap_addr s =
     kbind (forkret (first_ret s) s) (\<lambda>s1.
     let s2 = prepare_return uservec usertrap_addr (s1\<lparr>first_ret := False\<rparr>) in
     Inr (MAKE_SATP (pagetable (myproc s2)), s2))"

end
