(* ===== verification/Spinlock.thy ===== *)
theory Spinlock
  imports KBase
begin

text \<open>
  \<^verbatim>\<open>kernel/spinlock.c\<close> on several CPUs, with \<open>sched\<close> of \<^verbatim>\<open>kernel/proc.c\<close>, which checks the locks held. A CPU has
  its interrupt enable bit (\<^verbatim>\<open>SSTATUS_SIE\<close>) and the fields of \<^verbatim>\<open>struct cpu\<close>; a lock is named by a number. The
  other theories take a section under a spinlock to be one atomic step; here \<open>acquire\<close> and
  \<open>release\<close> are broken up at their atomic accesses, CPUs interleave, and mutual exclusion is what makes those
  sections atomic. \<^verbatim>\<open>noff\<close> is an \<open>int\<close> that counts nested calls, kept unbounded here.
\<close>

section \<open>State\<close>

record cpu =
  noff :: int
  intena :: bool
  sie :: bool

record spinlock =
  locked :: bool
  lk_name :: string
  lk_cpu :: "nat option"

record smp =
  cpus :: "nat \<Rightarrow> cpu"
  locks :: "nat \<Rightarrow> spinlock"

definition upd_cpu :: "nat \<Rightarrow> (cpu \<Rightarrow> cpu) \<Rightarrow> smp \<Rightarrow> smp" where
  "upd_cpu c f s = s\<lparr>cpus := (cpus s)(c := f (cpus s c))\<rparr>"

definition upd_lock :: "nat \<Rightarrow> (spinlock \<Rightarrow> spinlock) \<Rightarrow> smp \<Rightarrow> smp" where
  "upd_lock l f s = s\<lparr>locks := (locks s)(l := f (locks s l))\<rparr>"

section \<open>Operations\<close>

definition initlock :: "string \<Rightarrow> spinlock" where
  "initlock name = \<lparr>locked = False, lk_name = name, lk_cpu = None\<rparr>"

definition holding :: "nat \<Rightarrow> nat \<Rightarrow> smp \<Rightarrow> bool" where
  "holding c l s \<longleftrightarrow> locked (locks s l) \<and> lk_cpu (locks s l) = Some c"

definition push_off :: "nat \<Rightarrow> smp \<Rightarrow> smp" where
  "push_off c s =
     (let old = sie (cpus s c) in
      upd_cpu c (\<lambda>x. x\<lparr>sie := False, intena := (if noff x = 0 then old else intena x), noff := noff x + 1\<rparr>) s)"

definition pop_off :: "nat \<Rightarrow> smp \<Rightarrow> smp kres" where
  "pop_off c s =
     (if sie (cpus s c) then kpanic ''pop_off - interruptible''
      else if noff (cpus s c) < 1 then kpanic ''pop_off''
      else
        let s1 = upd_cpu c (\<lambda>x. x\<lparr>noff := noff x - 1\<rparr>) s in
        if noff (cpus s1 c) = 0 \<and> intena (cpus s1 c) then Inr (upd_cpu c (\<lambda>x. x\<lparr>sie := True\<rparr>) s1) else Inr s1)"

text \<open>\<open>acquire\<close> up to its loop, one test-and-set of the loop, and what follows the loop.\<close>

definition acquire_enter :: "nat \<Rightarrow> nat \<Rightarrow> smp \<Rightarrow> smp kres" where
  "acquire_enter c l s = (let s1 = push_off c s in if holding c l s1 then kpanic ''acquire'' else Inr s1)"

definition test_and_set :: "nat \<Rightarrow> smp \<Rightarrow> bool \<times> smp" where
  "test_and_set l s = (locked (locks s l), upd_lock l (\<lambda>x. x\<lparr>locked := True\<rparr>) s)"

definition acquire_done :: "nat \<Rightarrow> nat \<Rightarrow> smp \<Rightarrow> smp" where
  "acquire_done c l s = upd_lock l (\<lambda>x. x\<lparr>lk_cpu := Some c\<rparr>) s"

text \<open>Alone on the machine \<open>acquire\<close> of a lock that is taken spins forever.\<close>

definition acquire :: "nat \<Rightarrow> nat \<Rightarrow> smp \<Rightarrow> smp kres" where
  "acquire c l s =
     kbind (acquire_enter c l s) (\<lambda>s1.
     case test_and_set l s1 of (old, s2) \<Rightarrow> if old then Inl Diverge else Inr (acquire_done c l s2))"

definition release_enter :: "nat \<Rightarrow> nat \<Rightarrow> smp \<Rightarrow> smp kres" where
  "release_enter c l s =
     (if \<not> holding c l s then kpanic ''release'' else Inr (upd_lock l (\<lambda>x. x\<lparr>lk_cpu := None\<rparr>) s))"

definition release_done :: "nat \<Rightarrow> nat \<Rightarrow> smp \<Rightarrow> smp kres" where
  "release_done c l s = pop_off c (upd_lock l (\<lambda>x. x\<lparr>locked := False\<rparr>) s)"

definition release :: "nat \<Rightarrow> nat \<Rightarrow> smp \<Rightarrow> smp kres" where
  "release c l s = kbind (release_enter c l s) (release_done c l)"

text \<open>The checks of \<open>sched\<close>; \<open>pl\<close> is the lock of the process, \<open>running\<close> whether its state is still \<open>RUNNING\<close>.\<close>

definition sched :: "nat \<Rightarrow> nat \<Rightarrow> bool \<Rightarrow> smp \<Rightarrow> bool kres" where
  "sched c pl running s =
     (if \<not> holding c pl s then kpanic ''sched p->lock''
      else if noff (cpus s c) \<noteq> 1 then kpanic ''sched locks''
      else if running then kpanic ''sched RUNNING''
      else if sie (cpus s c) then kpanic ''sched interruptible''
      else Inr (intena (cpus s c)))"

section \<open>Interleaving\<close>

text \<open>Where each CPU is: in no lock operation, or at one of the two points inside \<open>acquire\<close>, or inside \<open>release\<close>.\<close>

datatype lpc = Run | Spin nat | Got nat | Rel nat

inductive lstep :: "smp \<times> (nat \<Rightarrow> lpc) \<Rightarrow> smp \<times> (nat \<Rightarrow> lpc) \<Rightarrow> bool" where
  enter: "pc c = Run \<Longrightarrow> acquire_enter c l s = Inr s' \<Longrightarrow> lstep (s, pc) (s', pc(c := Spin l))"
| spin: "pc c = Spin l \<Longrightarrow> test_and_set l s = (True, s') \<Longrightarrow> lstep (s, pc) (s', pc)"
| take: "pc c = Spin l \<Longrightarrow> test_and_set l s = (False, s') \<Longrightarrow> lstep (s, pc) (s', pc(c := Got l))"
| got: "pc c = Got l \<Longrightarrow> lstep (s, pc) (acquire_done c l s, pc(c := Run))"
| rel: "pc c = Run \<Longrightarrow> release_enter c l s = Inr s' \<Longrightarrow> lstep (s, pc) (s', pc(c := Rel l))"
| free: "pc c = Rel l \<Longrightarrow> release_done c l s = Inr s' \<Longrightarrow> lstep (s, pc) (s', pc(c := Run))"
| pushpop: "pc c = Run \<Longrightarrow> pop_off c (push_off c s) = Inr s' \<Longrightarrow> lstep (s, pc) (s', pc)"
| intr: "pc c = Run \<Longrightarrow> noff (cpus s c) = 0 \<Longrightarrow> lstep (s, pc) (upd_cpu c (\<lambda>x. x\<lparr>sie := b\<rparr>) s, pc)"

text \<open>The machine at boot: every lock as \<open>initlock\<close> leaves it, no lock operation under way, interrupts off.\<close>

definition boot_smp :: smp where
  "boot_smp = \<lparr>cpus = (\<lambda>_. \<lparr>noff = 0, intena = False, sie = False\<rparr>), locks = (\<lambda>_. initlock ''lock'')\<rparr>"

inductive lreach :: "smp \<times> (nat \<Rightarrow> lpc) \<Rightarrow> bool" where
  start: "lreach (boot_smp, \<lambda>_. Run)"
| step: "lreach a \<Longrightarrow> lstep a b \<Longrightarrow> lreach b"

section \<open>The invariant\<close>

text \<open>A CPU owns a lock from its successful test-and-set to the store that frees it.\<close>

definition owns :: "nat \<Rightarrow> nat \<Rightarrow> smp \<Rightarrow> (nat \<Rightarrow> lpc) \<Rightarrow> bool" where
  "owns c l s pc \<longleftrightarrow> lk_cpu (locks s l) = Some c \<or> pc c = Got l \<or> pc c = Rel l"

definition entering :: "lpc \<Rightarrow> nat" where
  "entering p = (case p of Spin _ \<Rightarrow> 1 | _ \<Rightarrow> 0)"

definition holds :: "nat \<Rightarrow> smp \<Rightarrow> (nat \<Rightarrow> lpc) \<Rightarrow> nat set" where
  "holds c s pc = {l. owns c l s pc}"

definition linv :: "smp \<Rightarrow> (nat \<Rightarrow> lpc) \<Rightarrow> bool" where
  "linv s pc \<longleftrightarrow>
     (\<forall>l c. owns c l s pc \<longrightarrow> locked (locks s l))
     \<and> (\<forall>l c c'. owns c l s pc \<longrightarrow> owns c' l s pc \<longrightarrow> c = c')
     \<and> (\<forall>l c. pc c = Got l \<or> pc c = Rel l \<longrightarrow> lk_cpu (locks s l) = None)
     \<and> (\<forall>c. finite (holds c s pc) \<and> noff (cpus s c) = int (card (holds c s pc)) + int (entering (pc c)))
     \<and> (\<forall>c. noff (cpus s c) > 0 \<longrightarrow> \<not> sie (cpus s c))"

lemma linvD:
  assumes "linv s pc"
  shows linv_locked: "owns c l s pc \<Longrightarrow> locked (locks s l)"
    and linv_unique: "owns c l s pc \<Longrightarrow> owns c' l s pc \<Longrightarrow> c = c'"
    and linv_none: "pc c = Got l \<or> pc c = Rel l \<Longrightarrow> lk_cpu (locks s l) = None"
    and linv_fin: "finite (holds c s pc)"
    and linv_noff: "noff (cpus s c) = int (card (holds c s pc)) + int (entering (pc c))"
    and linv_off: "noff (cpus s c) > 0 \<Longrightarrow> \<not> sie (cpus s c)"
  using assms unfolding linv_def by blast+

lemma push_off_simps [simp]:
  "locks (push_off c s) = locks s"
  "noff (cpus (push_off c s) c') = noff (cpus s c') + (if c' = c then 1 else 0)"
  "sie (cpus (push_off c s) c') = (c' \<noteq> c \<and> sie (cpus s c'))"
  by (auto simp: push_off_def upd_cpu_def Let_def)

lemma upd_lock_simps [simp]:
  "cpus (upd_lock l f s) = cpus s" "locks (upd_lock l f s) = (locks s)(l := f (locks s l))"
  by (simp_all add: upd_lock_def)

lemma upd_cpu_simps [simp]:
  "locks (upd_cpu c f s) = locks s" "cpus (upd_cpu c f s) = (cpus s)(c := f (cpus s c))"
  by (simp_all add: upd_cpu_def)

lemma pop_offD:
  assumes "pop_off c s = Inr s'"
  shows "locks s' = locks s" "\<not> sie (cpus s c)" "1 \<le> noff (cpus s c)"
    "noff (cpus s' c') = noff (cpus s c') - (if c' = c then 1 else 0)"
    "c' \<noteq> c \<Longrightarrow> cpus s' c' = cpus s c'" "sie (cpus s' c) \<Longrightarrow> noff (cpus s' c) = 0"
  using assms by (auto simp: pop_off_def kpanic_def Let_def split: if_splits)

lemma holds_cong:
  assumes "\<And>l. owns c l s' pc' = owns c l s pc"
  shows "holds c s' pc' = holds c s pc"
  using assms by (simp add: holds_def)

lemma linvI:
  assumes "\<And>l c. owns c l s pc \<Longrightarrow> locked (locks s l)"
    and "\<And>l c c'. owns c l s pc \<Longrightarrow> owns c' l s pc \<Longrightarrow> c = c'"
    and "\<And>l c. pc c = Got l \<or> pc c = Rel l \<Longrightarrow> lk_cpu (locks s l) = None"
    and "\<And>c. finite (holds c s pc) \<and> noff (cpus s c) = int (card (holds c s pc)) + int (entering (pc c))"
    and "\<And>c. noff (cpus s c) > 0 \<Longrightarrow> \<not> sie (cpus s c)"
  shows "linv s pc"
  unfolding linv_def using assms by blast

text \<open>A step that leaves ownership alone keeps the invariant if the counters and the bits follow.\<close>

lemma linv_same_owners:
  assumes inv: "linv s pc" and own: "\<And>c l. owns c l s' pc' = owns c l s pc"
    and lk: "\<And>l c. owns c l s pc \<Longrightarrow> locked (locks s' l)"
    and none: "\<And>l c. pc' c = Got l \<or> pc' c = Rel l \<Longrightarrow> lk_cpu (locks s' l) = None"
    and noff: "\<And>c. noff (cpus s' c) - int (entering (pc' c)) = noff (cpus s c) - int (entering (pc c))"
    and off: "\<And>c. noff (cpus s' c) > 0 \<Longrightarrow> \<not> sie (cpus s' c)"
  shows "linv s' pc'"
proof (rule linvI)
  show "owns c l s' pc' \<Longrightarrow> locked (locks s' l)" for l c using own lk by blast
  show "owns c l s' pc' \<Longrightarrow> owns c' l s' pc' \<Longrightarrow> c = c'" for l c c'
    using own linv_unique [OF inv] by blast
  show "finite (holds c s' pc') \<and> noff (cpus s' c) = int (card (holds c s' pc')) + int (entering (pc' c))" for c
    using holds_cong [OF own] linv_fin [OF inv] linv_noff [OF inv, of c] noff [of c] by simp
qed (fact none off)+

lemma enter_linv:
  assumes inv: "linv s pc" and "pc c = Run" "acquire_enter c l s = Inr s'"
  shows "linv s' (pc(c := Spin l))"
proof -
  have s': "s' = push_off c s" using assms(3) by (simp add: acquire_enter_def Let_def kpanic_def split: if_splits)
  show ?thesis
  proof (rule linv_same_owners [OF inv])
    show "owns c' l' s' (pc(c := Spin l)) = owns c' l' s pc" for c' l'
      using assms(2) by (auto simp: owns_def s')
  qed (use assms(2) linv_locked [OF inv] linv_none [OF inv] linv_off [OF inv] in \<open>auto simp: s' entering_def split: if_splits\<close>)
qed

lemma take_linv:
  assumes inv: "linv s pc" and "pc c = Spin l" "test_and_set l s = (False, s')"
  shows "linv s' (pc(c := Got l))"
proof -
  have nl: "\<not> locked (locks s l)" and s': "s' = upd_lock l (\<lambda>x. x\<lparr>locked := True\<rparr>) s"
    using assms(3) by (auto simp: test_and_set_def)
  have cs: "cpus s' = cpus s" by (simp add: s')
  have free: "\<not> owns c' l s pc" for c' using linv_locked [OF inv] nl by blast
  then have none: "lk_cpu (locks s l) = None" by (cases "lk_cpu (locks s l)") (auto simp: owns_def)
  have own: "owns c' l' s' (pc(c := Got l)) \<longleftrightarrow> owns c' l' s pc \<or> (c' = c \<and> l' = l)" for c' l'
    using assms(2) by (auto simp: owns_def s')
  have ins: "holds c s' (pc(c := Got l)) = insert l (holds c s pc)" by (auto simp: holds_def own)
  show ?thesis
  proof (rule linvI)
    show "owns c' l' s' (pc(c := Got l)) \<Longrightarrow> locked (locks s' l')" for l' c'
      unfolding own using linv_locked [OF inv, of c' l'] by (auto simp: s')
    show "owns c1 l' s' (pc(c := Got l)) \<Longrightarrow> owns c2 l' s' (pc(c := Got l)) \<Longrightarrow> c1 = c2" for l' c1 c2
      unfolding own using linv_unique [OF inv, of c1 l' c2] free by metis
    show "(pc(c := Got l)) c' = Got l' \<or> (pc(c := Got l)) c' = Rel l' \<Longrightarrow> lk_cpu (locks s' l') = None" for l' c'
      using none linv_none [OF inv, of c' l'] by (auto simp: s' split: if_splits)
    show "finite (holds c' s' (pc(c := Got l))) \<and> noff (cpus s' c') =
        int (card (holds c' s' (pc(c := Got l)))) + int (entering ((pc(c := Got l)) c'))" for c'
    proof (cases "c' = c")
      case True
      have "l \<notin> holds c s pc" using free by (simp add: holds_def)
      then show ?thesis using linv_noff [OF inv, of c] linv_fin [OF inv] assms(2)
        by (simp add: True ins cs entering_def)
    next
      case False
      then have "holds c' s' (pc(c := Got l)) = holds c' s pc" by (auto simp: holds_def own)
      then show ?thesis using linv_noff [OF inv, of c'] linv_fin [OF inv] False by (simp add: cs)
    qed
    show "noff (cpus s' c') > 0 \<Longrightarrow> \<not> sie (cpus s' c')" for c' using linv_off [OF inv] by (simp add: s')
  qed
qed

lemma got_linv:
  assumes inv: "linv s pc" and "pc c = Got l"
  shows "linv (acquire_done c l s) (pc(c := Run))"
proof (rule linv_same_owners [OF inv])
  have o: "owns c l s pc" using assms(2) by (simp add: owns_def)
  have uniq: "pc c' \<noteq> Got l \<and> pc c' \<noteq> Rel l" if "c' \<noteq> c" for c'
    using linv_unique [OF inv o, of c'] that by (auto simp: owns_def)
  have none: "lk_cpu (locks s l) = None" using linv_none [OF inv] assms(2) by blast
  show "owns c' l' (acquire_done c l s) (pc(c := Run)) = owns c' l' s pc" for c' l'
    using assms(2) uniq [of c'] none by (auto simp: owns_def acquire_done_def)
  show "(pc(c := Run)) c' = Got l' \<or> (pc(c := Run)) c' = Rel l' \<Longrightarrow>
      lk_cpu (locks (acquire_done c l s) l') = None" for l' c'
    using linv_none [OF inv, of c' l'] uniq [of c'] by (auto simp: acquire_done_def split: if_splits)
qed (use assms(2) linv_locked [OF inv] linv_off [OF inv] in \<open>auto simp: acquire_done_def entering_def\<close>)

lemma rel_linv:
  assumes inv: "linv s pc" and "pc c = Run" "release_enter c l s = Inr s'"
  shows "linv s' (pc(c := Rel l))"
proof (rule linv_same_owners [OF inv])
  have h: "locked (locks s l)" "lk_cpu (locks s l) = Some c" and s': "s' = upd_lock l (\<lambda>x. x\<lparr>lk_cpu := None\<rparr>) s"
    using assms(3) by (auto simp: release_enter_def holding_def kpanic_def split: if_splits)
  show "owns c' l' s' (pc(c := Rel l)) = owns c' l' s pc" for c' l'
    using assms(2) h by (auto simp: owns_def s')
  show "owns c' l' s pc \<Longrightarrow> locked (locks s' l')" for c' l' using linv_locked [OF inv] by (auto simp: s')
  show "(pc(c := Rel l)) c' = Got l' \<or> (pc(c := Rel l)) c' = Rel l' \<Longrightarrow> lk_cpu (locks s' l') = None" for c' l'
    using linv_none [OF inv, of c' l'] by (auto simp: s' split: if_splits)
  show "noff (cpus s' c') - int (entering ((pc(c := Rel l)) c')) = noff (cpus s c') - int (entering (pc c'))" for c'
    using assms(2) by (simp add: s' entering_def)
  show "0 < noff (cpus s' c') \<Longrightarrow> \<not> sie (cpus s' c')" for c' using linv_off [OF inv] by (simp add: s')
qed

lemma free_linv:
  assumes inv: "linv s pc" and "pc c = Rel l" "release_done c l s = Inr s'"
  shows "linv s' (pc(c := Run))"
proof (rule linvI)
  let ?s1 = "upd_lock l (\<lambda>x. x\<lparr>locked := False\<rparr>) s"
  note p = pop_offD [OF assms(3) [unfolded release_done_def]]
  have lk: "locks s' = (locks s)(l := (locks s l)\<lparr>locked := False\<rparr>)" using p(1) by simp
  have o: "owns c l s pc" using assms(2) by (simp add: owns_def)
  have none: "lk_cpu (locks s l) = None" using linv_none [OF inv] assms(2) by blast
  have own: "owns c' l' s' (pc(c := Run)) \<longleftrightarrow> owns c' l' s pc \<and> l' \<noteq> l" for c' l'
  proof -
    have u: "c' \<noteq> c \<Longrightarrow> pc c' \<noteq> Got l \<and> pc c' \<noteq> Rel l"
      using linv_unique [OF inv o, of c'] unfolding owns_def by blast
    show ?thesis
      using assms(2) none by (cases "c' = c"; cases "l' = l") (use u in \<open>auto simp: lk owns_def\<close>)
  qed
  show "owns c' l' s' (pc(c := Run)) \<Longrightarrow> locked (locks s' l')" for l' c'
    unfolding own using linv_locked [OF inv, of c' l'] by (auto simp: lk)
  show "owns c1 l' s' (pc(c := Run)) \<Longrightarrow> owns c2 l' s' (pc(c := Run)) \<Longrightarrow> c1 = c2" for l' c1 c2
    unfolding own using linv_unique [OF inv, of c1 l' c2] by blast
  show "(pc(c := Run)) c' = Got l' \<or> (pc(c := Run)) c' = Rel l' \<Longrightarrow> lk_cpu (locks s' l') = None" for l' c'
    using none linv_none [OF inv, of c' l'] by (auto simp: lk split: if_splits)
  show "finite (holds c' s' (pc(c := Run))) \<and> noff (cpus s' c') =
      int (card (holds c' s' (pc(c := Run)))) + int (entering ((pc(c := Run)) c'))" for c'
  proof (cases "c' = c")
    case True
    have eq: "holds c s' (pc(c := Run)) = holds c s pc - {l}" by (auto simp: holds_def own)
    have "l \<in> holds c s pc" using o by (simp add: holds_def)
    from card_Suc_Diff1 [OF linv_fin [OF inv] this]
    have "card (holds c s pc) = Suc (card (holds c s pc - {l}))" by simp
    then show ?thesis using linv_noff [OF inv, of c] linv_fin [OF inv] assms(2) p(4) [of c]
      by (simp add: True eq entering_def)
  next
    case False
    then have "l \<notin> holds c' s pc" using linv_unique [OF inv o, of c'] by (auto simp: holds_def)
    then have "holds c' s' (pc(c := Run)) = holds c' s pc" by (auto simp: holds_def own)
    then show ?thesis using linv_noff [OF inv, of c'] linv_fin [OF inv] False p(4) [of c'] by simp
  qed
  show "0 < noff (cpus s' c') \<Longrightarrow> \<not> sie (cpus s' c')" for c'
    using p(5) [of c'] p(6) linv_off [OF inv, of c'] by (cases "c' = c") auto
qed

lemma spin_linv:
  assumes inv: "linv s pc" and "test_and_set l s = (True, s')"
  shows "linv s' pc"
proof -
  have l: "locks s' = (locks s)(l := (locks s l)\<lparr>locked := True\<rparr>)" "cpus s' = cpus s" "locked (locks s l)"
    using assms(2) by (auto simp: test_and_set_def)
  then have "locks s' = locks s" by (auto simp: fun_eq_iff)
  with l(2) have "s' = s" by (cases s; cases s') simp
  with inv show ?thesis by simp
qed

lemma intr_linv:
  assumes inv: "linv s pc" and "noff (cpus s c) = 0"
  shows "linv (upd_cpu c (\<lambda>x. x\<lparr>sie := b\<rparr>) s) pc"
proof (rule linv_same_owners [OF inv])
  show "owns c' l' (upd_cpu c (\<lambda>x. x\<lparr>sie := b\<rparr>) s) pc = owns c' l' s pc" for c' l' by (simp add: owns_def)
qed (use assms(2) linv_locked [OF inv] linv_none [OF inv] linv_off [OF inv] in \<open>simp_all split: if_splits\<close>)

lemma pushpop_linv:
  assumes inv: "linv s pc" and "pop_off c (push_off c s) = Inr s'"
  shows "linv s' pc"
proof (rule linv_same_owners [OF inv])
  note p = pop_offD [OF assms(2)]
  show "owns c' l' s' pc = owns c' l' s pc" for c' l' using p(1) by (simp add: owns_def)
  show "owns c' l' s pc \<Longrightarrow> locked (locks s' l')" for c' l' using p(1) linv_locked [OF inv] by simp
  show "pc c' = Got l' \<or> pc c' = Rel l' \<Longrightarrow> lk_cpu (locks s' l') = None" for c' l'
    using p(1) linv_none [OF inv] by simp
  show "noff (cpus s' c') - int (entering (pc c')) = noff (cpus s c') - int (entering (pc c'))" for c'
    using p(4) [of c'] by simp
  show "0 < noff (cpus s' c') \<Longrightarrow> \<not> sie (cpus s' c')" for c'
    using p(5) [of c'] p(6) p(4) [of c'] linv_off [OF inv, of c'] push_off_simps(2,3) [of c s c']
    by (cases "c' = c") auto
qed

lemma linv_step: "lstep a b \<Longrightarrow> linv (fst a) (snd a) \<Longrightarrow> linv (fst b) (snd b)"
proof (induction rule: lstep.induct)
  case (enter pc c l s s') then show ?case using enter_linv [of s pc c l s'] by (simp del: fun_upd_apply)
next
  case (spin pc c l s s') then show ?case using spin_linv [of s pc l s'] by (simp del: fun_upd_apply)
next
  case (take pc c l s s') then show ?case using take_linv [of s pc c l s'] by (simp del: fun_upd_apply)
next
  case (got pc c l s) then show ?case using got_linv [of s pc c l] by (simp del: fun_upd_apply)
next
  case (rel pc c l s s') then show ?case using rel_linv [of s pc c l s'] by (simp del: fun_upd_apply)
next
  case (free pc c l s s') then show ?case using free_linv [of s pc c l s'] by (simp del: fun_upd_apply)
next
  case (pushpop pc c s s') then show ?case using pushpop_linv [of s pc c s'] by (simp del: fun_upd_apply)
next
  case (intr pc c s b) then show ?case using intr_linv [of s pc c b] by (simp del: fun_upd_apply)
qed

lemma lreach_inv: "lreach a \<Longrightarrow> linv (fst a) (snd a)"
proof (induction rule: lreach.induct)
  case start
  show ?case by (simp add: linv_def owns_def holds_def boot_smp_def initlock_def entering_def)
next
  case (step a b)
  then show ?case by (blast intro: linv_step)
qed

text \<open>
  C17. Spinlocks exclude each other on any number of CPUs. In every state reached from boot by
  interleaved steps of \<open>acquire\<close> and \<open>release\<close>, a lock is owned by at most one CPU and is then marked
  locked; the depth \<open>noff\<close> of a CPU counts its locks (with the one it waits for); a
  CPU that owns or waits for a lock has interrupts off; and a CPU that is leaving \<open>release\<close> can
  finish: \<open>pop_off\<close> does not panic.
\<close>

theorem spinlock_mutual_exclusion:
  assumes "lreach (s, pc)"
  shows "(\<forall>l c c'. owns c l s pc \<and> owns c' l s pc \<longrightarrow> c = c' \<and> locked (locks s l))
    \<and> (\<forall>c. noff (cpus s c) = int (card (holds c s pc)) + int (entering (pc c)))
    \<and> (\<forall>c l. owns c l s pc \<or> pc c = Spin l \<longrightarrow> \<not> sie (cpus s c))
    \<and> (\<forall>c l. pc c = Rel l \<longrightarrow> (\<exists>s'. release_done c l s = Inr s'))"
proof -
  have inv: "linv s pc" using lreach_inv [OF assms] by simp
  have pos: "noff (cpus s c) > 0" if "owns c l s pc \<or> pc c = Spin l" for c l
  proof -
    have "holds c s pc \<noteq> {}" if "owns c l s pc" using that by (auto simp: holds_def)
    then have "card (holds c s pc) > 0" if "owns c l s pc" using that linv_fin [OF inv, of c] by (simp add: card_gt_0_iff)
    then show ?thesis using that linv_noff [OF inv, of c] by (auto simp: entering_def)
  qed
  have "\<exists>s'. release_done c l s = Inr s'" if "pc c = Rel l" for c l
  proof -
    have "noff (cpus s c) > 0" using pos [of c l] that by (simp add: owns_def)
    then show ?thesis using linv_off [OF inv, of c] by (simp add: release_done_def pop_off_def Let_def)
  qed
  then show ?thesis
    using linv_unique [OF inv] linv_locked [OF inv] linv_noff [OF inv] linv_off [OF inv] pos by blast
qed

text \<open>Two CPUs contend for lock 0: the first has it, the second spins.\<close>

lemma contention_reached:
  "lreach (push_off 1 (upd_lock 0 (\<lambda>x. x\<lparr>locked := True\<rparr>) (push_off 0 boot_smp)), (\<lambda>_. Run)(0 := Got 0, 1 := Spin 0))"
proof -
  let ?p0 = "\<lambda>_::nat. Run"
  let ?s1 = "upd_lock 0 (\<lambda>x. x\<lparr>locked := True\<rparr>) (push_off 0 boot_smp)"
  have l0: "locks boot_smp = (\<lambda>_. \<lparr>locked = False, lk_name = ''lock'', lk_cpu = None\<rparr>)"
    by (simp add: boot_smp_def initlock_def)
  have a: "lreach (push_off 0 boot_smp, ?p0(0 := Spin 0))"
    by (rule lreach.step [OF start], rule lstep.enter) (simp_all add: acquire_enter_def holding_def l0)
  have b: "lreach (?s1, (?p0(0 := Spin 0))(0 := Got 0))"
    by (rule lreach.step [OF a], rule lstep.take [where l = 0]) (simp_all add: test_and_set_def l0)
  have "acquire_enter 1 0 ?s1 = Inr (push_off 1 ?s1)"
    by (simp add: acquire_enter_def holding_def l0 Let_def)
  then have "lreach (push_off 1 ?s1, ((?p0(0 := Spin 0))(0 := Got 0))(1 := Spin 0))"
    by (intro lreach.step [OF b] lstep.enter) simp_all
  then show ?thesis by simp
qed

theorem spinlock_mutual_exclusion_witness:
  "\<exists>s pc. pc 0 = Got 0 \<and> pc 1 = Spin 0 \<and> owns 0 0 s pc \<and> \<not> owns 1 0 s pc \<and> \<not> sie (cpus s 0) \<and> \<not> sie (cpus s 1)
     \<and> noff (cpus s 0) = int (card (holds 0 s pc))"
proof -
  let ?pc = "(\<lambda>_::nat. Run)(0 := Got 0, 1 := Spin 0)"
  let ?s = "push_off 1 (upd_lock 0 (\<lambda>x. x\<lparr>locked := True\<rparr>) (push_off 0 boot_smp))"
  note t = spinlock_mutual_exclusion [OF contention_reached]
  note t1 = t [THEN conjunct1, rule_format]
    and t2 = t [THEN conjunct2, THEN conjunct1, rule_format]
    and t3 = t [THEN conjunct2, THEN conjunct2, THEN conjunct1, rule_format]
  have o: "owns 0 0 ?s ?pc" by (simp only: owns_def) simp
  have "\<not> owns 1 0 ?s ?pc" using t1 [of 0 0 1] o by (metis zero_neq_one)
  moreover have "\<not> sie (cpus ?s 0)" using t3 [of 0 0] o by blast
  moreover have "?pc 1 = Spin 0" by simp
  moreover from this have "\<not> sie (cpus ?s 1)" using t3 [of 1 0] by blast
  moreover have "noff (cpus ?s 0) = int (card (holds 0 ?s ?pc))" using t2 [of 0] by (simp add: entering_def)
  moreover have "?pc 0 = Got 0" by simp
  ultimately show ?thesis using o by blast
qed

end
