(* ===== verification/Ulib.thy ===== *)
theory Ulib
  imports Cstring Printf Fcntl FsDir
begin

text \<open>
  What user programs are made of: the system calls of \<^verbatim>\<open>user/user.h\<close> as a process sees them, and the library
  \<^verbatim>\<open>user/ulib.c\<close> with the output functions of \<^verbatim>\<open>user/printf.c\<close>.

  A program is a function of the system calls \<open>os\<close> and of the world \<open>'w\<close> around the process. A run either never
  returns (\<open>None\<close>) or gives a value or the end of the process, and the new world. \<open>fork\<close> returns in one process
  at a time: a run is what the parent does if the answer is a process number, what the child does if it is 0.

  A string is the list of its bytes before the NUL; an array is a list of fixed length, and \<open>cstring\<close> the
  string at its start.
\<close>

section \<open>System calls\<close>

text \<open>\<open>exec\<close> returns only when it fails; \<open>read\<close> returns a count and the bytes it stored.\<close>

record 'w os =
  o_fork :: "'w \<Rightarrow> int \<times> 'w"
  o_wait :: "'w \<Rightarrow> int \<times> 'w"
  o_pipe :: "'w \<Rightarrow> (int \<times> int \<times> int) \<times> 'w"
  o_write :: "int \<Rightarrow> byte list \<Rightarrow> 'w \<Rightarrow> int \<times> 'w"
  o_read :: "int \<Rightarrow> nat \<Rightarrow> 'w \<Rightarrow> (int \<times> byte list) \<times> 'w"
  o_close :: "int \<Rightarrow> 'w \<Rightarrow> int \<times> 'w"
  o_kill :: "u32 \<Rightarrow> 'w \<Rightarrow> int \<times> 'w"
  o_exec :: "byte list \<Rightarrow> byte list list \<Rightarrow> 'w \<Rightarrow> int option \<times> 'w"
  o_open :: "byte list \<Rightarrow> u32 \<Rightarrow> 'w \<Rightarrow> int \<times> 'w"
  o_mknod :: "byte list \<Rightarrow> u16 \<Rightarrow> u16 \<Rightarrow> 'w \<Rightarrow> int \<times> 'w"
  o_unlink :: "byte list \<Rightarrow> 'w \<Rightarrow> int \<times> 'w"
  o_fstat :: "int \<Rightarrow> 'w \<Rightarrow> (int \<times> stat) \<times> 'w"
  o_link :: "byte list \<Rightarrow> byte list \<Rightarrow> 'w \<Rightarrow> int \<times> 'w"
  o_mkdir :: "byte list \<Rightarrow> 'w \<Rightarrow> int \<times> 'w"
  o_chdir :: "byte list \<Rightarrow> 'w \<Rightarrow> int \<times> 'w"
  o_dup :: "int \<Rightarrow> 'w \<Rightarrow> int \<times> 'w"
  o_getpid :: "'w \<Rightarrow> u32 \<times> 'w"
  o_sbrk :: "u32 \<Rightarrow> u32 \<Rightarrow> 'w \<Rightarrow> u64 \<times> 'w"
  o_uptime :: "'w \<Rightarrow> u32 \<times> 'w"
  o_trace :: "u32 \<Rightarrow> 'w \<Rightarrow> int \<times> 'w"

section \<open>Runs\<close>

datatype uend = Exit int | Image "byte list" "byte list list"

type_synonym ('w, 'a) um = "'w \<Rightarrow> ((uend + 'a) \<times> 'w) option"

definition ureturn :: "'a \<Rightarrow> ('w, 'a) um" where
  "ureturn x = (\<lambda>w. Some (Inr x, w))"

definition ubind :: "('w, 'a) um \<Rightarrow> ('a \<Rightarrow> ('w, 'b) um) \<Rightarrow> ('w, 'b) um" where
  "ubind m f = (\<lambda>w. Option.bind (m w) (\<lambda>(r, w1). case r of Inl e \<Rightarrow> Some (Inl e, w1) | Inr x \<Rightarrow> f x w1))"

definition ucall :: "('w \<Rightarrow> 'a \<times> 'w) \<Rightarrow> ('w, 'a) um" where
  "ucall c = (\<lambda>w. case c w of (r, w1) \<Rightarrow> Some (Inr r, w1))"

definition uexit :: "int \<Rightarrow> ('w, 'a) um" where
  "uexit n = (\<lambda>w. Some (Inl (Exit n), w))"

definition uexec :: "'w os \<Rightarrow> byte list \<Rightarrow> byte list list \<Rightarrow> ('w, int) um" where
  "uexec os path argv = (\<lambda>w. case o_exec os path argv w of
     (None, w1) \<Rightarrow> Some (Inl (Image path argv), w1) | (Some r, w1) \<Rightarrow> Some (Inr r, w1))"

lemma ubind_mono [partial_function_mono]:
  assumes "\<And>w. mono_option (\<lambda>f. B f w)" and "\<And>x w. mono_option (\<lambda>f. C x f w)"
  shows "mono_option (\<lambda>f. ubind (B f) (\<lambda>x. C x f) w)"
  unfolding ubind_def
  apply (intro bind_mono assms)
  subgoal for y by (cases y; cases "fst y") (auto intro: assms option.const_mono)
  done

section \<open>\<^verbatim>\<open>user/ulib.c\<close>\<close>

definition start :: "('w, int) um \<Rightarrow> ('w, 'a) um" where
  "start main = ubind main uexit"

definition cstring :: "byte list \<Rightarrow> byte list" where
  "cstring b = takeWhile (\<lambda>c. c \<noteq> 0) b"

partial_function (option) ustrcpy :: "u64 \<Rightarrow> u64 \<Rightarrow> mem \<Rightarrow> mem option" where
  "ustrcpy s t m = (let m1 = m(s := m t) in if m t \<noteq> 0 then ustrcpy (s + 1) (t + 1) m1 else Some m1)"

text \<open>A pointer into a string is the rest of the string; at its end \<open>char_at\<close> gives the NUL.\<close>

function strcmp :: "byte list \<Rightarrow> byte list \<Rightarrow> int" where
  "strcmp p q =
     (if char_at p 0 \<noteq> 0 \<and> char_at p 0 = char_at q 0 then strcmp (tl p) (tl q)
      else uint (char_at p 0) - uint (char_at q 0))"
  by pat_completeness auto
termination by (relation "measure (\<lambda>(p, _). length p)") (auto simp: char_at_def split: if_splits)

declare strcmp.simps [simp del]

function ustrlen_loop :: "byte list \<Rightarrow> nat \<Rightarrow> nat" where
  "ustrlen_loop s n = (if char_at s n \<noteq> 0 then ustrlen_loop s (Suc n) else n)"
  by pat_completeness auto
termination by (relation "measure (\<lambda>(s, n). length s - n)") (auto simp: char_at_def split: if_splits)

declare ustrlen_loop.simps [simp del]

definition ustrlen :: "byte list \<Rightarrow> nat" where
  "ustrlen s = ustrlen_loop s 0"

primrec umemset :: "nat \<Rightarrow> u64 \<Rightarrow> byte \<Rightarrow> mem \<Rightarrow> mem" where
  "umemset 0 cdst c m = m"
| "umemset (Suc n) cdst c m = umemset n (cdst + 1) c (m(cdst := c))"

text \<open>A null pointer is \<open>None\<close>.\<close>

fun strchr :: "byte list \<Rightarrow> byte \<Rightarrow> byte list option" where
  "strchr [] c = None"
| "strchr (x # s) c = (if x = 0 then None else if x = c then Some (x # s) else strchr s c)"

text \<open>The loop of \<open>gets\<close> at index \<open>i\<close>. It returns the array, as \<open>gets\<close> returns its non-null argument.\<close>

function gets_loop :: "'w os \<Rightarrow> byte list \<Rightarrow> nat \<Rightarrow> nat \<Rightarrow> ('w, byte list \<times> nat) um" where
  "gets_loop os buf mx i =
     (if i + 1 < mx then
        ubind (ucall (o_read os 0 1)) (\<lambda>(cc, bs).
          if cc < 1 then ureturn (buf, i)
          else let c = char_at bs 0 in
            if c = 10 \<or> c = 13 then ureturn (buf[i := c], Suc i)
            else gets_loop os (buf[i := c]) mx (Suc i))
      else ureturn (buf, i))"
  by pat_completeness auto
termination by (relation "measure (\<lambda>(_, _, mx, i). mx - i)") auto

declare gets_loop.simps [simp del]

definition gets :: "'w os \<Rightarrow> byte list \<Rightarrow> nat \<Rightarrow> ('w, byte list) um" where
  "gets os buf mx = ubind (gets_loop os buf mx 0) (\<lambda>(b, i). ureturn (b[i := 0]))"

definition ustat :: "'w os \<Rightarrow> byte list \<Rightarrow> stat \<Rightarrow> ('w, int \<times> stat) um" where
  "ustat os n st =
     ubind (ucall (o_open os n O_RDONLY)) (\<lambda>fd.
       if fd < 0 then ureturn (-1, st)
       else ubind (ucall (o_fstat os fd)) (\<lambda>r. ubind (ucall (o_close os fd)) (\<lambda>_. ureturn r)))"

text \<open>\<open>int\<close> arithmetic wraps at 32 bits.\<close>

primrec atoi_loop :: "byte list \<Rightarrow> u32 \<Rightarrow> u32" where
  "atoi_loop [] n = n"
| "atoi_loop (c # s) n =
     (if chr CHR ''0'' \<le> c \<and> c \<le> chr CHR ''9'' then atoi_loop s (n * 10 + ucast c - ucast (chr CHR ''0'')) else n)"

definition atoi :: "byte list \<Rightarrow> u32" where
  "atoi s = atoi_loop s 0"

definition umemmove :: "u64 \<Rightarrow> u64 \<Rightarrow> nat \<Rightarrow> mem \<Rightarrow> mem" where
  "umemmove dst src n m =
     (if src > dst then move_up n dst src m else move_down n (dst + of_nat n) (src + of_nat n) m)"

primrec umemcmp :: "mem \<Rightarrow> u64 \<Rightarrow> u64 \<Rightarrow> nat \<Rightarrow> int" where
  "umemcmp m p1 p2 0 = 0"
| "umemcmp m p1 p2 (Suc n) =
     (if m p1 \<noteq> m p2 then uint (m p1) - uint (m p2) else umemcmp m (p1 + 1) (p2 + 1) n)"

definition umemcpy :: "u64 \<Rightarrow> u64 \<Rightarrow> nat \<Rightarrow> mem \<Rightarrow> mem" where
  "umemcpy dst src n m = umemmove dst src n m"

abbreviation SBRK_EAGER :: u32 where "SBRK_EAGER \<equiv> 1"
abbreviation SBRK_LAZY :: u32 where "SBRK_LAZY \<equiv> 2"

definition sbrk :: "'w os \<Rightarrow> u32 \<Rightarrow> ('w, u64) um" where
  "sbrk os n = ucall (o_sbrk os n SBRK_EAGER)"

definition sbrklazy :: "'w os \<Rightarrow> u32 \<Rightarrow> ('w, u64) um" where
  "sbrklazy os n = ucall (o_sbrk os n SBRK_LAZY)"

section \<open>Output\<close>

text \<open>\<open>putc\<close> writes one byte; a format without its arguments has no defined run.\<close>

primrec putcs :: "'w os \<Rightarrow> int \<Rightarrow> byte list \<Rightarrow> ('w, unit) um" where
  "putcs os fd [] = ureturn ()"
| "putcs os fd (c # cs) = ubind (ucall (o_write os fd [c])) (\<lambda>_. putcs os fd cs)"

definition fprintf :: "'w os \<Rightarrow> int \<Rightarrow> byte list \<Rightarrow> parg list \<Rightarrow> ('w, unit) um" where
  "fprintf os fd fmt args = (case vprintf fmt False args of None \<Rightarrow> (\<lambda>_. None) | Some out \<Rightarrow> putcs os fd out)"

definition uprintf :: "'w os \<Rightarrow> byte list \<Rightarrow> parg list \<Rightarrow> ('w, unit) um" where
  "uprintf os fmt args = fprintf os 1 fmt args"

section \<open>Facts about runs\<close>

named_theorems um_simps \<open>evaluate and invert runs of user programs\<close>

lemma um_apply [um_simps]:
  "ureturn x w = Some (Inr x, w)" "ucall c w = Some (Inr (fst (c w)), snd (c w))" "uexit n w = Some (Inl (Exit n), w)"
  by (simp_all add: ureturn_def ucall_def uexit_def split: prod.split)

lemma ubind_run:
  "m w = Some (Inr x, w1) \<Longrightarrow> ubind m f w = f x w1"
  "m w = Some (Inl e, w1) \<Longrightarrow> ubind m f w = Some (Inl e, w1)"
  by (simp_all add: ubind_def)

lemma ubind_ureturn [um_simps]: "ubind (ureturn x) f w = f x w"
  by (simp add: ubind_def ureturn_def)

lemma ubind_ucall [um_simps]: "ubind (ucall c) f w = f (fst (c w)) (snd (c w))"
  by (simp add: ubind_def um_simps)

lemma ubind_eq_Inr:
  "ubind m f w = Some (Inr y, w2) \<longleftrightarrow> (\<exists>x w1. m w = Some (Inr x, w1) \<and> f x w1 = Some (Inr y, w2))"
  unfolding ubind_def by (cases "m w"; cases "fst (the (m w))") auto

lemma ubind_eq_Some:
  "ubind m f w = Some (r, w2) \<longleftrightarrow>
     (\<exists>e. r = Inl e \<and> m w = Some (Inl e, w2)) \<or> (\<exists>x w1. m w = Some (Inr x, w1) \<and> f x w1 = Some (r, w2))"
  unfolding ubind_def by (cases "m w"; cases "fst (the (m w))") auto

lemma ubind_assoc [um_simps]: "ubind (ubind m f) g w = ubind m (\<lambda>x. ubind (f x) g) w"
  unfolding ubind_def by (cases "m w"; cases "fst (the (m w))") auto

lemma putcs_append: "putcs os fd (a @ b) w = ubind (putcs os fd a) (\<lambda>_. putcs os fd b) w"
  by (induction a arbitrary: w) (simp_all add: um_simps)

section \<open>Formats\<close>

text \<open>How \<open>vprintf\<close> takes a format apart; \<open>str\<close> spells a literal out in bytes.\<close>

named_theorems fmt_simps \<open>evaluate formats\<close>

lemma str_simps [fmt_simps]: "str [] = []" "str (c # s) = of_char c # str s"
  by (simp_all add: str_def)

declare vprintf.simps [simp del]

lemma vprintf_Nil [fmt_simps]: "vprintf [] st ap = Some []"
  by (cases st) (simp_all add: vprintf.simps)

lemma vprintf_plain [fmt_simps]: "c \<noteq> 37 \<Longrightarrow> vprintf (c # r) False ap = map_option ((@) [c]) (vprintf r False ap)"
  by (simp add: vprintf.simps chr_def of_char_def)

lemma vprintf_s [fmt_simps]:
  "vprintf (37 # 115 # r) False (PStr (Some s) # ap) = map_option ((@) s) (vprintf r False ap)"
  by (simp add: vprintf.simps lookahead_def directive_def emit_conv_def char_at_def chr_def of_char_def Let_def)

lemma vprintf_d [fmt_simps]:
  "vprintf (37 # 100 # r) False (PInt x # ap) =
   map_option ((@) (printint udigits (va_int 32 True x) 10 True)) (vprintf r False ap)"
  by (simp add: vprintf.simps lookahead_def directive_def emit_conv_def char_at_def chr_def of_char_def Let_def)

section \<open>Facts about strings\<close>

lemma char_at_Cons_0 [simp]: "char_at (c # s) 0 = c" "char_at [] i = 0"
  by (simp_all add: char_at_def)

lemma cstring_simps [simp]: "cstring [] = []" "cstring (c # s) = (if c = 0 then [] else c # cstring s)"
  by (simp_all add: cstring_def)

lemma cstring_id: "0 \<notin> set s \<Longrightarrow> cstring s = s"
  by (auto simp: cstring_def takeWhile_eq_all_conv)

lemma cstring_no_0 [simp]: "0 \<notin> set (cstring s)"
  by (auto simp: cstring_def dest: set_takeWhileD)

lemma cstring_append_0: "0 \<notin> set s \<Longrightarrow> cstring (s @ 0 # t) = s"
  by (induction s) auto

lemma strcmp_eq_0: "strcmp p q = 0 \<longleftrightarrow> cstring p = cstring q"
proof (induction p q rule: strcmp.induct)
  case (1 p q)
  show ?case
  proof (cases "char_at p 0 \<noteq> 0 \<and> char_at p 0 = char_at q 0")
    case True
    then obtain c p1 q1 where "p = c # p1" "q = c # q1" "c \<noteq> 0" by (cases p; cases q) auto
    with 1 True show ?thesis by (subst strcmp.simps) simp
  next
    case False
    then show ?thesis
      by (subst strcmp.simps, cases p; cases q) (auto simp: uint_byte_eq unsigned_eq_0_iff)
  qed
qed

lemma ustrlen_loop_eq: "ustrlen_loop s n = n + length (cstring (drop n s))"
proof (induction s n rule: ustrlen_loop.induct)
  case (1 s n)
  show ?case
  proof (cases "char_at s n \<noteq> 0")
    case True
    then have "drop n s = s ! n # drop (Suc n) s" "s ! n \<noteq> 0"
      by (auto simp: char_at_def Cons_nth_drop_Suc split: if_splits)
    with 1 True show ?thesis by (subst ustrlen_loop.simps) simp
  next
    case False
    then have "cstring (drop n s) = []"
      by (cases "n < length s") (auto simp: char_at_def Cons_nth_drop_Suc [symmetric])
    with False show ?thesis by (subst ustrlen_loop.simps) simp
  qed
qed

lemma ustrlen_eq: "ustrlen s = length (cstring s)"
  by (simp add: ustrlen_def ustrlen_loop_eq)

lemma take_cstring: "take (length (cstring s)) s = cstring s"
  by (induction s) auto

lemma umemmove_eq:
  assumes "unat src + n < 18446744073709551616" and "unat dst + n < 18446744073709551616"
  shows "umemmove dst src n m = memmove dst src n m"
proof (cases "src > dst")
  case True
  then have "move_up n dst src m = memmove dst src n m"
    unfolding memmove_eq [OF assms] by (intro move_up_eq assms disjI1) simp
  with True show ?thesis by (simp add: umemmove_def)
next
  case False
  then have "move_down n (dst + of_nat n) (src + of_nat n) m = memmove dst src n m"
    unfolding memmove_eq [OF assms] by (intro move_down_eq assms) simp
  with False show ?thesis by (simp add: umemmove_def)
qed

section \<open>A concrete system\<close>

text \<open>
  System calls to run programs with: the standard input is the first component of the world, the output the second;
  there are no files and no other processes.
\<close>

definition tape_os :: "(byte list \<times> byte list) os" where
  "tape_os =
     \<lparr>o_fork = Pair (-1), o_wait = Pair (-1), o_pipe = Pair (-1, 0, 0),
      o_write = (\<lambda>fd bs (i, out). (int (length bs), (i, out @ bs))),
      o_read = (\<lambda>fd n (i, out). if fd = 0 then ((int (length (take n i)), take n i), (drop n i, out)) else ((-1, []), (i, out))),
      o_close = (\<lambda>_. Pair (-1)), o_kill = (\<lambda>_. Pair (-1)), o_exec = (\<lambda>_ _. Pair (Some (-1))),
      o_open = (\<lambda>_ _. Pair (-1)), o_mknod = (\<lambda>_ _ _. Pair (-1)), o_unlink = (\<lambda>_. Pair (-1)),
      o_fstat = (\<lambda>_. Pair (-1, \<lparr>st_dev = 0, st_ino = 0, st_type = 0, st_nlink = 0, st_size = 0\<rparr>)),
      o_link = (\<lambda>_ _. Pair (-1)), o_mkdir = (\<lambda>_. Pair (-1)), o_chdir = (\<lambda>_. Pair (-1)), o_dup = (\<lambda>_. Pair (-1)),
      o_getpid = Pair 1, o_sbrk = (\<lambda>_ _. Pair (-1)), o_uptime = Pair 0, o_trace = (\<lambda>_. Pair (-1))\<rparr>"

end
