(* ===== verification/Ustream.thy ===== *)
theory Ustream
  imports Ulib
begin

text \<open>
  What a filter relies on: reads take bytes from the front of the input, in pieces of any size, and writes
  append to the output. Both may fail.
\<close>

text \<open>
  \<open>inp w\<close> is what is left to read from the descriptor \<open>fd\<close> and \<open>outp w\<close> what was written to the standard output. A read that does
  not fail returns no byte only at the end of the input; a write that fails or is short has written some first part of its bytes.
  The standard error is another file.
\<close>

definition read_law :: "'w os \<Rightarrow> int \<Rightarrow> ('w \<Rightarrow> byte list) \<Rightarrow> ('w \<Rightarrow> byte list) \<Rightarrow> nat \<Rightarrow> 'w \<Rightarrow> bool" where
  "read_law os fd inp outp n w \<longleftrightarrow> (case o_read os fd n w of ((r, bs), w1) \<Rightarrow>
     outp w1 = outp w \<and>
     (r < 0 \<and> inp w1 = inp w \<or>
      r = int (length bs) \<and> length bs \<le> n \<and> inp w = bs @ inp w1 \<and> (bs = [] \<longrightarrow> inp w = [])))"

definition write_law :: "'w os \<Rightarrow> ('w \<Rightarrow> byte list) \<Rightarrow> ('w \<Rightarrow> byte list) \<Rightarrow> byte list \<Rightarrow> 'w \<Rightarrow> bool" where
  "write_law os inp outp bs w \<longleftrightarrow> (case o_write os 1 bs w of (r, w1) \<Rightarrow>
     inp w1 = inp w \<and> (\<exists>k. outp w1 = outp w @ take k bs \<and> (r = int (length bs) \<longrightarrow> k = length bs)))"

definition stream_laws :: "'w os \<Rightarrow> int \<Rightarrow> ('w \<Rightarrow> byte list) \<Rightarrow> ('w \<Rightarrow> byte list) \<Rightarrow> bool" where
  "stream_laws os fd inp outp \<longleftrightarrow> (\<forall>w.
     (\<forall>n > 0. read_law os fd inp outp n w) \<and> (\<forall>bs. write_law os inp outp bs w) \<and>
     (\<forall>bs. inp (snd (o_write os 2 bs w)) = inp w \<and> outp (snd (o_write os 2 bs w)) = outp w))"

text \<open>A system on which nothing fails.\<close>

definition no_errors :: "'w os \<Rightarrow> int \<Rightarrow> bool" where
  "no_errors os fd \<longleftrightarrow> (\<forall>w. (\<forall>n. fst (fst (o_read os fd n w)) \<ge> 0) \<and> (\<forall>bs. fst (o_write os 1 bs w) = int (length bs)))"

lemma stream_read:
  assumes "stream_laws os fd inp outp" and "0 < n"
  obtains (error) r bs w1 where "o_read os fd n w = ((r, bs), w1)" "r < 0" "inp w1 = inp w" "outp w1 = outp w"
  | (eof) w1 where "o_read os fd n w = ((0, []), w1)" "inp w = []" "inp w1 = []" "outp w1 = outp w"
  | (data) bs w1 where "o_read os fd n w = ((int (length bs), bs), w1)" "0 < length bs" "length bs \<le> n"
      "inp w = bs @ inp w1" "outp w1 = outp w"
proof -
  obtain r bs w1 where o: "o_read os fd n w = ((r, bs), w1)" by (metis surj_pair)
  have "read_law os fd inp outp n w" using assms by (simp add: stream_laws_def)
  then have l: "outp w1 = outp w" "r < 0 \<and> inp w1 = inp w \<or>
      r = int (length bs) \<and> length bs \<le> n \<and> inp w = bs @ inp w1 \<and> (bs = [] \<longrightarrow> inp w = [])"
    by (simp_all add: read_law_def o)
  show thesis
  proof (cases "r < 0")
    case True
    then show thesis using error o l by auto
  next
    case False
    then show thesis using eof data o l by (cases "bs = []") auto
  qed
qed

lemma stream_write:
  assumes "stream_laws os fd inp outp"
  obtains r w1 k where "o_write os 1 bs w = (r, w1)" "inp w1 = inp w" "outp w1 = outp w @ take k bs"
    "r = int (length bs) \<longrightarrow> k = length bs"
proof -
  obtain r w1 where o: "o_write os 1 bs w = (r, w1)" by (metis surj_pair)
  have "write_law os inp outp bs w" using assms by (simp add: stream_laws_def)
  then show thesis using that o by (auto simp: write_law_def)
qed

lemma write_all:
  assumes "stream_laws os fd inp outp" and "no_errors os fd"
  shows "\<exists>w1. o_write os 1 bs w = (int (length bs), w1) \<and> inp w1 = inp w \<and> outp w1 = outp w @ bs"
proof -
  obtain r w1 k where "o_write os 1 bs w = (r, w1)" "inp w1 = inp w" "outp w1 = outp w @ take k bs"
    "r = int (length bs) \<longrightarrow> k = length bs" by (rule stream_write [OF assms(1)])
  moreover from this have "r = int (length bs)" using assms(2) by (metis fst_conv no_errors_def)
  ultimately show ?thesis by simp
qed

lemma putcs_out:
  assumes "stream_laws os fd inp outp" and "no_errors os fd"
  shows "\<exists>w1. putcs os 1 cs w = Some (Inr (), w1) \<and> inp w1 = inp w \<and> outp w1 = outp w @ cs"
proof (induction cs arbitrary: w)
  case (Cons c cs)
  obtain w1 where w1: "o_write os 1 [c] w = (1, w1)" "inp w1 = inp w" "outp w1 = outp w @ [c]"
    using write_all [OF assms, of "[c]" w] by auto
  with Cons [of w1] show ?case by (auto simp: um_simps)
qed (simp add: um_simps)

lemma putcs_err:
  assumes "stream_laws os fd inp outp"
  shows "\<exists>w1. putcs os 2 cs w = Some (Inr (), w1) \<and> inp w1 = inp w \<and> outp w1 = outp w"
proof (induction cs arbitrary: w)
  case (Cons c cs)
  have "inp (snd (o_write os 2 [c] w)) = inp w" "outp (snd (o_write os 2 [c] w)) = outp w"
    using assms by (simp_all add: stream_laws_def)
  with Cons [of "snd (o_write os 2 [c] w)"] show ?case by (auto simp: um_simps)
qed (simp add: um_simps)

section \<open>A system with streams\<close>

text \<open>
  The input is read at most \<open>k\<close> bytes at a time, and its end is an error if the flag says so. The output goes to a disk, of
  \<open>c\<close> bytes if \<open>cap = Some c\<close>: a write that does not fit fails after filling it. The standard error is discarded.
\<close>

definition chunk_os :: "nat \<Rightarrow> bool \<Rightarrow> nat option \<Rightarrow> (byte list \<times> byte list) os" where
  "chunk_os k bad cap = tape_os
     \<lparr>o_read := (\<lambda>fd n (i, out). if i = [] \<and> bad then ((-1, []), (i, out))
        else let m = min n (max 1 k) in ((int (length (take m i)), take m i), (drop m i, out))),
      o_write := (\<lambda>fd bs (i, out). if fd \<noteq> 1 then (int (length bs), (i, out))
        else case cap of
          Some c \<Rightarrow> if length out + length bs \<le> c then (int (length bs), (i, out @ bs)) else (-1, (i, out @ take (c - length out) bs))
        | None \<Rightarrow> (int (length bs), (i, out @ bs)))\<rparr>"

lemma chunk_stream: "stream_laws (chunk_os k bad cap) fd fst snd"
  unfolding stream_laws_def read_law_def write_law_def chunk_os_def
  by (auto simp: Let_def split: prod.split option.split)

lemma chunk_no_errors: "no_errors (chunk_os k False None) fd"
  by (auto simp: no_errors_def chunk_os_def Let_def split: prod.split)

end
