(* ===== verification/Grep.thy ===== *)
theory Grep
  imports Ustream
begin

text \<open>
  \<^verbatim>\<open>user/grep.c\<close>: the regular expression matcher and the loop that feeds it lines. C strings are the bytes before
  the terminating NUL, so the end of the list is the NUL the C code looks at.
\<close>

section \<open>The matcher\<close>

definition caret :: byte where "caret = chr CHR ''^''"
definition star :: byte where "star = chr CHR ''*''"
definition dollar :: byte where "dollar = chr CHR ''$''"
definition dot :: byte where "dot = chr CHR ''.''"

function matchhere :: "byte list \<Rightarrow> byte list \<Rightarrow> bool"
  and matchstar :: "byte \<Rightarrow> byte list \<Rightarrow> byte list \<Rightarrow> bool" where
  "matchhere re text =
     (if re = [] then True
      else if char_at re 1 = star then matchstar (hd re) (drop 2 re) text
      else if hd re = dollar \<and> tl re = [] then text = []
      else if text \<noteq> [] \<and> (hd re = dot \<or> hd re = hd text) then matchhere (tl re) (tl text)
      else False)"
| "matchstar c re text =
     (if matchhere re text then True
      else if text \<noteq> [] \<and> (hd text = c \<or> c = dot) then matchstar c re (tl text)
      else False)"
  by pat_completeness auto
termination
  by (relation "measure (\<lambda>x. case x of Inl (re, t) \<Rightarrow> 2 * (length re + length t)
      | Inr (c, re, t) \<Rightarrow> 2 * (length re + length t) + 1)")
    (auto simp: length_greater_0_conv [symmetric] char_at_def star_def simp del: length_greater_0_conv split: if_splits)

declare matchhere.simps [simp del] matchstar.simps [simp del]

primrec match_from :: "byte list \<Rightarrow> byte list \<Rightarrow> bool" where
  "match_from re [] = matchhere re []"
| "match_from re (x # text) = (matchhere re (x # text) \<or> match_from re text)"

definition match :: "byte list \<Rightarrow> byte list \<Rightarrow> bool" where
  "match re text = (if char_at re 0 = caret then matchhere (tl re) text else match_from re text)"

section \<open>The loop over the input\<close>

text \<open>
  The inner loop: \<open>p\<close> is the buffer from the pointer \<open>p\<close> on, up to the NUL stored after the last byte read. It prints the matching
  lines and returns what follows the last newline.
\<close>

lemma strchr_length: "strchr p c = Some q \<Longrightarrow> length q \<le> length p \<and> q \<noteq> []"
  by (induction p) (fastforce split: if_splits)+

function grep_scan :: "'w os \<Rightarrow> byte list \<Rightarrow> byte list \<Rightarrow> ('w, byte list) um" where
  "grep_scan os re p =
     (case strchr p 10 of
        None \<Rightarrow> ureturn p
      | Some q \<Rightarrow>
          let line = take (length p - length q) p in
          ubind (if match re line then ubind (ucall (o_write os 1 (line @ [10]))) (\<lambda>_. ureturn ()) else ureturn ()) (\<lambda>_.
            grep_scan os re (tl q)))"
  by pat_completeness auto
termination
proof (relation "measure (\<lambda>(_, _, p). length p)")
  fix os :: "'w os" and re p q :: "byte list"
  assume "strchr p 10 = Some q"
  then show "((os, re, tl q), os, re, p) \<in> measure (\<lambda>(_, _, p). length p)" using strchr_length [of p 10 q] by (cases q) auto
qed simp

declare grep_scan.simps [simp del]

text \<open>The outer loop with the \<open>m\<close> bytes \<open>buf\<close> kept from the previous reads, in an array of 1024 bytes.\<close>

partial_function (option) grep_loop :: "'w os \<Rightarrow> byte list \<Rightarrow> int \<Rightarrow> byte list \<Rightarrow> 'w \<Rightarrow> ((uend + unit) \<times> 'w) option" where
  "grep_loop os re fd buf w =
     ubind (ucall (o_read os fd (1024 - length buf - 1))) (\<lambda>(n, bs) w1.
       if n > 0 then ubind (grep_scan os re (buf @ take (nat n) bs)) (\<lambda>rest w2. grep_loop os re fd rest w2) w1
       else ureturn () w1) w"

definition grep :: "'w os \<Rightarrow> byte list \<Rightarrow> int \<Rightarrow> ('w, unit) um" where
  "grep os re fd = grep_loop os re fd []"

primrec grep_files :: "'w os \<Rightarrow> byte list \<Rightarrow> byte list list \<Rightarrow> ('w, unit) um" where
  "grep_files os re [] = ureturn ()"
| "grep_files os re (a # as) =
     ubind (ucall (o_open os a O_RDONLY)) (\<lambda>fd.
       if fd < 0 then ubind (uprintf os (str ''grep: cannot open %s'' @ [10]) [PStr (Some a)]) (\<lambda>_. uexit 1)
       else ubind (grep os re fd) (\<lambda>_. ubind (ucall (o_close os fd)) (\<lambda>_. grep_files os re as)))"

definition grep_main :: "'w os \<Rightarrow> byte list list \<Rightarrow> ('w, unit) um" where
  "grep_main os argv =
     (if length argv \<le> 1 then ubind (fprintf os 2 (str ''usage: grep pattern [file ...]'' @ [10]) []) (\<lambda>_. uexit 1)
      else if length argv \<le> 2 then ubind (grep os (argv ! 1) 0) (\<lambda>_. uexit 0)
      else ubind (grep_files os (argv ! 1) (drop 2 argv)) (\<lambda>_. uexit 0))"

section \<open>What a pattern means\<close>

text \<open>
  A pattern after its leading \<^verbatim>\<open>^\<close> is a list of items and whether it ends in \<^verbatim>\<open>$\<close>. An item is one character or
  any number of repetitions of one; a dot stands for every character. The language of the items is a set of words.
\<close>

datatype item = Atom byte | Star byte

definition add_item :: "item \<Rightarrow> item list \<times> bool \<Rightarrow> item list \<times> bool" where
  "add_item i p = (i # fst p, snd p)"

fun pattern :: "byte list \<Rightarrow> item list \<times> bool" where
  "pattern [] = ([], False)"
| "pattern [c] = (if c = dollar then ([], True) else ([Atom c], False))"
| "pattern (c # d # r) =
     (if d = star then add_item (Star c) (pattern r) else add_item (Atom c) (pattern (d # r)))"

definition ok :: "byte \<Rightarrow> byte \<Rightarrow> bool" where
  "ok c x \<longleftrightarrow> c = dot \<or> c = x"

fun lang :: "item list \<Rightarrow> byte list set" where
  "lang [] = {[]}"
| "lang (Atom c # is) = {x # w | x w. ok c x \<and> w \<in> lang is}"
| "lang (Star c # is) = {u @ w | u w. (\<forall>x\<in>set u. ok c x) \<and> w \<in> lang is}"

definition prefix_in :: "item list \<times> bool \<Rightarrow> byte list \<Rightarrow> bool" where
  "prefix_in p text \<longleftrightarrow> (\<exists>w v. text = w @ v \<and> w \<in> lang (fst p) \<and> (snd p \<longrightarrow> v = []))"

definition pmatch :: "byte list \<Rightarrow> byte list \<Rightarrow> bool" where
  "pmatch re text \<longleftrightarrow>
     (\<exists>u v. text = u @ v \<and> (char_at re 0 = caret \<longrightarrow> u = [])
        \<and> prefix_in (pattern (if char_at re 0 = caret then tl re else re)) v)"

lemma prefix_in_Atom:
  "prefix_in (add_item (Atom c) p) text \<longleftrightarrow> text \<noteq> [] \<and> ok c (hd text) \<and> prefix_in p (tl text)"
  by (cases "text") (auto simp: prefix_in_def add_item_def Cons_eq_append_conv)

lemma prefix_in_Star:
  "prefix_in (add_item (Star c) p) text \<longleftrightarrow> (\<exists>u v. text = u @ v \<and> (\<forall>x\<in>set u. ok c x) \<and> prefix_in p v)"
proof
  assume "prefix_in (add_item (Star c) p) text"
  then obtain z v where z: "text = z @ v" "z \<in> lang (Star c # fst p)" "snd p \<longrightarrow> v = []"
    unfolding prefix_in_def add_item_def fst_conv snd_conv by blast
  then obtain u w where "text = (u @ w) @ v" "\<forall>x\<in>set u. ok c x" "w \<in> lang (fst p)" by auto
  then show "\<exists>u v. text = u @ v \<and> (\<forall>x\<in>set u. ok c x) \<and> prefix_in p v"
    by (intro exI [of _ u] exI [of _ "w @ v"]) (use z in \<open>auto simp: prefix_in_def\<close>)
next
  assume "\<exists>u v. text = u @ v \<and> (\<forall>x\<in>set u. ok c x) \<and> prefix_in p v"
  then obtain u w v where "text = u @ w @ v" "\<forall>x\<in>set u. ok c x" "w \<in> lang (fst p)" "snd p \<longrightarrow> v = []"
    unfolding prefix_in_def by blast
  then show "prefix_in (add_item (Star c) p) text"
    unfolding prefix_in_def by (intro exI [of _ "u @ w"] exI [of _ v]) (auto simp: add_item_def)
qed

lemma prefix_in_Star_step:
  "prefix_in (add_item (Star c) p) text \<longleftrightarrow>
     prefix_in p text \<or> text \<noteq> [] \<and> ok c (hd text) \<and> prefix_in (add_item (Star c) p) (tl text)"
proof
  assume "prefix_in (add_item (Star c) p) text"
  then obtain u v where t: "text = u @ v" "\<forall>x\<in>set u. ok c x" "prefix_in p v" unfolding prefix_in_Star by blast
  show "prefix_in p text \<or> text \<noteq> [] \<and> ok c (hd text) \<and> prefix_in (add_item (Star c) p) (tl text)"
  proof (cases u)
    case Nil with t show ?thesis by simp
  next
    case (Cons x u')
    then have "tl text = u' @ v" "\<forall>x\<in>set u'. ok c x" using t by auto
    then have "prefix_in (add_item (Star c) p) (tl text)" unfolding prefix_in_Star using t(3) by blast
    with t Cons show ?thesis by simp
  qed
next
  assume r: "prefix_in p text \<or> text \<noteq> [] \<and> ok c (hd text) \<and> prefix_in (add_item (Star c) p) (tl text)"
  then show "prefix_in (add_item (Star c) p) text"
  proof
    assume "prefix_in p text"
    then show ?thesis unfolding prefix_in_Star by (intro exI [of _ "[]"] exI [of _ "text"]) simp
  next
    assume s: "text \<noteq> [] \<and> ok c (hd text) \<and> prefix_in (add_item (Star c) p) (tl text)"
    then obtain u v where "tl text = u @ v" "\<forall>x\<in>set u. ok c x" "prefix_in p v" unfolding prefix_in_Star by blast
    with s show ?thesis unfolding prefix_in_Star by (intro exI [of _ "hd text # u"] exI [of _ v]) (cases "text"; simp)
  qed
qed

lemma star_nonzero [simp]: "star \<noteq> 0"
  by (simp add: star_def chr_def)

lemma matchhere_unfold:
  "matchhere [] text"
  "matchhere [c] text \<longleftrightarrow> (if c = dollar then text = [] else text \<noteq> [] \<and> ok c (hd text))"
  "matchhere (c # star # r) text = matchstar c r text"
  "d \<noteq> star \<Longrightarrow> matchhere (c # d # r) text \<longleftrightarrow> text \<noteq> [] \<and> ok c (hd text) \<and> matchhere (d # r) (tl text)"
  by (simp_all add: matchhere.simps [of "[]"] matchhere.simps [of "[c]"] matchhere.simps [of "c # star # r"]
      matchhere.simps [of "c # d # r"] char_at_def ok_def)

lemma prefix_in_single:
  "prefix_in ([], True) text \<longleftrightarrow> text = []"
  "prefix_in ([Atom c], False) text \<longleftrightarrow> text \<noteq> [] \<and> ok c (hd text)"
  using prefix_in_Atom [of c "([], False)" "text"] by (simp_all add: prefix_in_def add_item_def)

lemma matchhere_prefix_in:
  "matchhere re text \<longleftrightarrow> prefix_in (pattern re) text"
  "matchstar c re text \<longleftrightarrow> prefix_in (add_item (Star c) (pattern re)) text"
proof (induction re "text" and c re "text" rule: matchhere_matchstar.induct)
  case (1 re tx)
  show ?case
  proof (cases re rule: pattern.cases)
    case 1
    then show ?thesis by (simp add: matchhere_unfold prefix_in_def)
  next
    case (2 c)
    then show ?thesis by (simp add: matchhere_unfold prefix_in_single)
  next
    case (3 c d r)
    show ?thesis
    proof (cases "d = star")
      case True
      then show ?thesis using "1.IH"(1) 3 by (simp add: matchhere_unfold char_at_def)
    next
      case False
      have "matchhere (d # r) (tl tx) \<longleftrightarrow> prefix_in (pattern (d # r)) (tl tx)" if "tx \<noteq> []" "ok c (hd tx)"
        using "1.IH"(2) 3 False that by (simp add: char_at_def ok_def)
      then show ?thesis using 3 False by (auto simp: matchhere_unfold prefix_in_Atom)
    qed
  qed
next
  case (2 c re tx)
  have s: "matchstar c re tx \<longleftrightarrow> matchhere re tx \<or> tx \<noteq> [] \<and> ok c (hd tx) \<and> matchstar c re (tl tx)"
    by (subst matchstar.simps) (auto simp: ok_def)
  show ?case
    unfolding s by (subst prefix_in_Star_step) (use 2 in \<open>auto simp: ok_def\<close>)
qed

lemma match_from_iff: "match_from re text \<longleftrightarrow> (\<exists>u v. text = u @ v \<and> matchhere re v)"
proof (induction "text")
  case (Cons x tx)
  have "(\<exists>u v. x # tx = u @ v \<and> matchhere re v) \<longleftrightarrow> matchhere re (x # tx) \<or> (\<exists>u v. tx = u @ v \<and> matchhere re v)"
    by (auto simp: Cons_eq_append_conv)
  with Cons show ?case by simp
qed simp

text \<open>
  C18. The matcher of \<^verbatim>\<open>grep\<close> decides the language of the pattern: \<open>match re text\<close> holds exactly when some part of
  the text is a word of the language, the part beginning at the start of the text if the pattern begins with
  a caret and reaching its end if the pattern ends with a dollar sign.
\<close>

theorem match_is_language: "match re text = pmatch re text"
proof (cases "char_at re 0 = caret")
  case True
  then show ?thesis by (simp add: match_def pmatch_def matchhere_prefix_in)
next
  case False
  then show ?thesis by (simp add: match_def pmatch_def match_from_iff matchhere_prefix_in)
qed

section \<open>Whole files\<close>

text \<open>The complete lines of an input, after the bytes \<open>acc\<close> of a line that was begun, and what follows the last newline.\<close>

primrec lines_of :: "byte list \<Rightarrow> byte list \<Rightarrow> byte list list" where
  "lines_of acc [] = []"
| "lines_of acc (x # xs) = (if x = 10 then acc # lines_of [] xs else lines_of (acc @ [x]) xs)"

primrec rest_of :: "byte list \<Rightarrow> byte list \<Rightarrow> byte list" where
  "rest_of acc [] = acc"
| "rest_of acc (x # xs) = (if x = 10 then rest_of [] xs else rest_of (acc @ [x]) xs)"

definition print_matching :: "byte list \<Rightarrow> byte list list \<Rightarrow> byte list" where
  "print_matching re ls = concat (map (\<lambda>l. l @ [10]) (filter (match re) ls))"

lemma lines_of_append: "lines_of acc (p @ q) = lines_of acc p @ lines_of (rest_of acc p) q"
  by (induction p arbitrary: acc) simp_all

lemma rest_of_append: "rest_of acc (p @ q) = rest_of (rest_of acc p) q"
  by (induction p arbitrary: acc) simp_all

lemma lines_of_none: "10 \<notin> set p \<Longrightarrow> lines_of acc p = [] \<and> rest_of acc p = acc @ p"
  by (induction p arbitrary: acc) auto

lemma rest_of_set: "10 \<notin> set acc \<Longrightarrow> 10 \<notin> set (rest_of acc p)" "set (rest_of acc p) \<subseteq> set acc \<union> set p"
proof (induction p arbitrary: acc)
  case (Cons x p)
  {
    case 1 then show ?case using Cons by simp
  next
    case 2 show ?case using Cons(2) [of "[]"] Cons(2) [of "acc @ [x]"] by (simp add: subset_iff)
  }
qed simp_all

lemma acc_short: "length acc \<le> length (hd (lines_of acc p @ [rest_of acc p]))"
proof (induction p arbitrary: acc)
  case (Cons x p)
  then show ?case using Cons [of "acc @ [x]"] by auto
qed simp

lemma strchr_newline:
  assumes "0 \<notin> set p"
  shows "strchr p 10 = (if 10 \<in> set p then Some (dropWhile (\<lambda>c. c \<noteq> 10) p) else None)"
  using assms by (induction p) auto

lemma newline_split:
  assumes "0 \<notin> set p" and "strchr p 10 = Some q"
  shows "p = take (length p - length q) p @ 10 # tl q" and "10 \<notin> set (take (length p - length q) p)"
proof -
  have m: "10 \<in> set p" and q: "q = dropWhile (\<lambda>c. c \<noteq> 10) p" using assms strchr_newline [of p] by (auto split: if_splits)
  have "take (length p - length q) p = takeWhile (\<lambda>c. c \<noteq> 10) p"
    unfolding q using takeWhile_dropWhile_id [of "\<lambda>c. c \<noteq> 10" p]
    by (metis append_eq_conv_conj length_append add_diff_cancel_right')
  moreover have "q \<noteq> []" "hd q = 10" using m hd_dropWhile [of "\<lambda>c. c \<noteq> 10" p] unfolding q by (auto simp: dropWhile_eq_Nil_conv)
  then have "q = 10 # tl q" by (metis list.collapse)
  ultimately show "p = take (length p - length q) p @ 10 # tl q" "10 \<notin> set (take (length p - length q) p)"
    using takeWhile_dropWhile_id [of "\<lambda>c. c \<noteq> 10" p] q by (metis, auto dest: set_takeWhileD)
qed

lemma grep_scan_lines:
  assumes laws: "stream_laws os fd inp outp" "no_errors os fd"
  shows "0 \<notin> set p \<Longrightarrow> \<exists>w1. grep_scan os re p w = Some (Inr (rest_of [] p), w1) \<and> inp w1 = inp w \<and>
    outp w1 = outp w @ print_matching re (lines_of [] p)"
proof (induction "length p" arbitrary: p w rule: less_induct)
  case less
  show ?case
  proof (cases "strchr p 10")
    case None
    then have "10 \<notin> set p" using strchr_newline [OF less.prems] by (auto split: if_splits)
    with None show ?thesis using lines_of_none [of p "[]"] by (subst grep_scan.simps) (simp add: um_simps print_matching_def)
  next
    case (Some q)
    let ?l = "take (length p - length q) p"
    note sp = newline_split [OF less.prems Some]
    have r: "0 \<notin> set (tl q)" "length (tl q) < length p" using less.prems arg_cong [OF sp(1), of set] arg_cong [OF sp(1), of length] by auto
    have ls: "lines_of [] p = ?l # lines_of [] (tl q)" "rest_of [] p = rest_of [] (tl q)"
      using lines_of_none [OF sp(2), of "[]"] by (subst sp(1), simp add: lines_of_append rest_of_append)+
    obtain w1 where w1: "o_write os 1 (?l @ [10]) w = (int (length (?l @ [10])), w1)" "inp w1 = inp w" "outp w1 = outp w @ ?l @ [10]"
      using write_all [OF laws] by blast
    have "grep_scan os re p w = grep_scan os re (tl q) (if match re ?l then w1 else w)"
      using Some w1(1) by (subst grep_scan.simps) (simp add: Let_def um_simps)
    moreover note less.hyps [OF r(2,1), of "if match re ?l then w1 else w"]
    ultimately show ?thesis using w1(2,3) by (auto simp: ls print_matching_def)
  qed
qed

definition short_lines :: "byte list \<Rightarrow> byte list \<Rightarrow> bool" where
  "short_lines acc p \<longleftrightarrow> (\<forall>l\<in>set (lines_of acc p @ [rest_of acc p]). length l < 1023)"

lemma short_lines_buf: "short_lines buf p \<Longrightarrow> length buf < 1023"
  using acc_short [of buf p] unfolding short_lines_def by (metis hd_in_set le_less_trans snoc_eq_iff_butlast)

lemma grep_lines:
  assumes laws: "stream_laws os fd inp outp" "no_errors os fd"
  shows "0 \<notin> set buf \<union> set (inp w) \<Longrightarrow> 10 \<notin> set buf \<Longrightarrow> short_lines buf (inp w) \<Longrightarrow>
   \<exists>w1. grep_loop os re fd buf w = Some (Inr (), w1) \<and> inp w1 = [] \<and> outp w1 = outp w @ print_matching re (lines_of buf (inp w))"
proof (induction "length (inp w)" arbitrary: buf w rule: less_induct)
  case less
  have "0 < 1024 - length buf - 1" using short_lines_buf [OF less.prems(3)] by simp
  then show ?case
  proof (cases rule: stream_read [OF laws(1), where w = w, consumes 1, case_names error eof data])
    case (error r bs w1)
    then show ?thesis using laws(2) by (metis fst_conv no_errors_def not_le)
  next
    case (eof w1)
    then show ?thesis by (subst grep_loop.simps) (simp add: um_simps print_matching_def)
  next
    case (data bs w1)
    let ?b = "rest_of buf bs"
    have ls: "lines_of buf (inp w) = lines_of buf bs @ lines_of ?b (inp w1)" "rest_of buf (inp w) = rest_of ?b (inp w1)"
      by (simp_all add: data(4) lines_of_append rest_of_append)
    have "0 \<notin> set (buf @ bs)" using less.prems(1) data(4) by auto
    then obtain w2 where w2: "grep_scan os re (buf @ bs) w1 = Some (Inr ?b, w2)" "inp w2 = inp w1"
      "outp w2 = outp w @ print_matching re (lines_of buf bs)"
      using grep_scan_lines [OF laws, of "buf @ bs" re w1] lines_of_none [OF less.prems(2), of "[]"] data(5)
      by (auto simp: lines_of_append rest_of_append)
    have "grep_loop os re fd buf w = grep_loop os re fd ?b w2"
      using data(1,2) by (subst grep_loop.simps) (simp add: um_simps, subst ubind_run(1), rule w2(1), simp)
    moreover have "0 \<notin> set ?b \<union> set (inp w2)" using less.prems(1) data(4) w2(2) rest_of_set(2) [of buf bs] by auto
    moreover have "10 \<notin> set ?b" by (rule rest_of_set(1) [OF less.prems(2)])
    moreover have "short_lines ?b (inp w2)" using less.prems(3) unfolding short_lines_def ls w2(2) by simp
    moreover have "length (inp w2) < length (inp w)" using data w2(2) by simp
    ultimately show ?thesis using less.hyps [of w2 ?b] w2 by (simp add: ls(1) print_matching_def)
  qed
qed

text \<open>
  C19. \<^verbatim>\<open>grep\<close> prints exactly the matching lines, however the input is cut into reads: for an input without NUL
  bytes in which no line is longer than 1022 bytes, and if no call fails, it ends and writes every complete line that the
  pattern matches, in order, each with its newline. (What follows the last newline is not printed.)
\<close>

theorem grep_prints_matching_lines:
  assumes "stream_laws os fd inp outp" and "no_errors os fd" and "0 \<notin> set (inp w)" and "short_lines [] (inp w)"
  shows "\<exists>w1. grep os re fd w = Some (Inr (), w1) \<and> inp w1 = [] \<and> outp w1 = outp w @ print_matching re (lines_of [] (inp w))"
  unfolding grep_def by (rule grep_lines) (use assms in simp_all)

theorem grep_prints_matching_lines_witness:
  "\<exists>w1. grep (chunk_os 2 False None) (str ''a*b$'') 0 (str ''xaab'' @ [10] @ str ''ba'' @ [10] @ str ''b'', []) = Some (Inr (), w1) \<and>
     snd w1 = str ''xaab'' @ [10]"
proof -
  let ?inp = "str ''xaab'' @ [10] @ str ''ba'' @ [10] @ str ''b''"
  have "0 \<notin> set ?inp" "short_lines [] ?inp" by code_simp+
  then have "\<exists>w1. grep (chunk_os 2 False None) (str ''a*b$'') 0 (?inp, []) = Some (Inr (), w1) \<and>
      snd w1 = print_matching (str ''a*b$'') (lines_of [] ?inp)"
    using grep_prints_matching_lines [OF chunk_stream [of 2 False None 0] chunk_no_errors, of "(?inp, [])" "str ''a*b$''"] by auto
  moreover have "print_matching (str ''a*b$'') (lines_of [] ?inp) = str ''xaab'' @ [10]" by code_simp
  ultimately show ?thesis by simp
qed

end
