(* ===== verification/Uprogs.thy ===== *)
theory Uprogs
  imports Ustream File
begin

text \<open>
  The small programs of \<^verbatim>\<open>user/\<close>: \<open>cat\<close>, \<open>echo\<close>, \<open>wc\<close>, \<open>kill\<close>, \<open>ln\<close>, \<open>mkdir\<close>, \<open>rm\<close>, \<open>ls\<close> and \<open>init\<close>. A program is its \<open>main\<close>,
  applied to the argument strings with the program's name first; \<open>argc\<close> is their number.
\<close>

section \<open>\<^verbatim>\<open>user/cat.c\<close>\<close>

partial_function (option) cat :: "'w os \<Rightarrow> int \<Rightarrow> 'w \<Rightarrow> ((uend + unit) \<times> 'w) option" where
  "cat os fd w =
     ubind (ucall (o_read os fd 512)) (\<lambda>(n, buf) w1.
       if n > 0 then
         ubind (ucall (o_write os 1 (take (nat n) buf))) (\<lambda>r w2.
           if r \<noteq> n then ubind (fprintf os 2 (str ''cat: write error'' @ [10]) []) (\<lambda>_. uexit 1) w2
           else cat os fd w2) w1
       else if n < 0 then ubind (fprintf os 2 (str ''cat: read error'' @ [10]) []) (\<lambda>_. uexit 1) w1
       else ureturn () w1) w"

primrec cat_files :: "'w os \<Rightarrow> byte list list \<Rightarrow> ('w, unit) um" where
  "cat_files os [] = ureturn ()"
| "cat_files os (a # as) =
     ubind (ucall (o_open os a O_RDONLY)) (\<lambda>fd.
       if fd < 0 then ubind (fprintf os 2 (str ''cat: cannot open %s'' @ [10]) [PStr (Some a)]) (\<lambda>_. uexit 1)
       else ubind (cat os fd) (\<lambda>_. ubind (ucall (o_close os fd)) (\<lambda>_. cat_files os as)))"

definition cat_main :: "'w os \<Rightarrow> byte list list \<Rightarrow> ('w, unit) um" where
  "cat_main os argv =
     (if length argv \<le> 1 then ubind (cat os 0) (\<lambda>_. uexit 0)
      else ubind (cat_files os (tl argv)) (\<lambda>_. uexit 0))"

section \<open>\<^verbatim>\<open>user/echo.c\<close>\<close>

primrec echo_args :: "'w os \<Rightarrow> byte list list \<Rightarrow> ('w, unit) um" where
  "echo_args os [] = ureturn ()"
| "echo_args os (a # as) =
     ubind (ucall (o_write os 1 (take (ustrlen a) a))) (\<lambda>_.
     ubind (if as \<noteq> [] then ucall (o_write os 1 (str '' '')) else ucall (o_write os 1 [10])) (\<lambda>_.
     echo_args os as))"

definition echo_main :: "'w os \<Rightarrow> byte list list \<Rightarrow> ('w, unit) um" where
  "echo_main os argv = ubind (echo_args os (tl argv)) (\<lambda>_. uexit 0)"

section \<open>\<^verbatim>\<open>user/wc.c\<close>\<close>

text \<open>The counters are \<open>int\<close>s: lines, words, characters, and whether the last byte belongs to a word.\<close>

definition wc_byte :: "byte \<Rightarrow> u32 \<times> u32 \<times> u32 \<times> bool \<Rightarrow> u32 \<times> u32 \<times> u32 \<times> bool" where
  "wc_byte b = (\<lambda>(l, w, c, inword).
     let c1 = c + 1; l1 = (if b = 10 then l + 1 else l) in
     if strchr [32, 13, 9, 10, 11] b \<noteq> None then (l1, w, c1, False)
     else if \<not> inword then (l1, w + 1, c1, True)
     else (l1, w, c1, inword))"

partial_function (option) wc_loop ::
  "'w os \<Rightarrow> int \<Rightarrow> u32 \<times> u32 \<times> u32 \<times> bool \<Rightarrow> 'w \<Rightarrow> ((uend + int \<times> (u32 \<times> u32 \<times> u32 \<times> bool)) \<times> 'w) option" where
  "wc_loop os fd st w =
     ubind (ucall (o_read os fd 512)) (\<lambda>(n, buf) w1.
       if n > 0 then wc_loop os fd (fold wc_byte (take (nat n) buf) st) w1
       else ureturn (n, st) w1) w"

definition wc :: "'w os \<Rightarrow> int \<Rightarrow> byte list \<Rightarrow> ('w, unit) um" where
  "wc os fd name =
     ubind (wc_loop os fd (0, 0, 0, False)) (\<lambda>(n, l, w, c, _).
       if n < 0 then ubind (uprintf os (str ''wc: read error'' @ [10]) []) (\<lambda>_. uexit 1)
       else uprintf os (str ''%d %d %d %s'' @ [10]) [PInt (scast l), PInt (scast w), PInt (scast c), PStr (Some name)])"

primrec wc_files :: "'w os \<Rightarrow> byte list list \<Rightarrow> ('w, unit) um" where
  "wc_files os [] = ureturn ()"
| "wc_files os (a # as) =
     ubind (ucall (o_open os a O_RDONLY)) (\<lambda>fd.
       if fd < 0 then ubind (uprintf os (str ''wc: cannot open %s'' @ [10]) [PStr (Some a)]) (\<lambda>_. uexit 1)
       else ubind (wc os fd a) (\<lambda>_. ubind (ucall (o_close os fd)) (\<lambda>_. wc_files os as)))"

definition wc_main :: "'w os \<Rightarrow> byte list list \<Rightarrow> ('w, unit) um" where
  "wc_main os argv =
     (if length argv \<le> 1 then ubind (wc os 0 []) (\<lambda>_. uexit 0)
      else ubind (wc_files os (tl argv)) (\<lambda>_. uexit 0))"

section \<open>\<^verbatim>\<open>user/kill.c\<close>, \<^verbatim>\<open>user/ln.c\<close>, \<^verbatim>\<open>user/mkdir.c\<close>, \<^verbatim>\<open>user/rm.c\<close>\<close>

primrec kill_args :: "'w os \<Rightarrow> byte list list \<Rightarrow> ('w, unit) um" where
  "kill_args os [] = ureturn ()"
| "kill_args os (a # as) = ubind (ucall (o_kill os (atoi a))) (\<lambda>_. kill_args os as)"

definition kill_main :: "'w os \<Rightarrow> byte list list \<Rightarrow> ('w, unit) um" where
  "kill_main os argv =
     (if length argv < 2 then ubind (fprintf os 2 (str ''usage: kill pid...'' @ [10]) []) (\<lambda>_. uexit 1)
      else ubind (kill_args os (tl argv)) (\<lambda>_. uexit 0))"

definition ln_main :: "'w os \<Rightarrow> byte list list \<Rightarrow> ('w, unit) um" where
  "ln_main os argv =
     (if length argv \<noteq> 3 then ubind (fprintf os 2 (str ''Usage: ln old new'' @ [10]) []) (\<lambda>_. uexit 1)
      else ubind (ucall (o_link os (argv ! 1) (argv ! 2))) (\<lambda>r.
        ubind (if r < 0 then fprintf os 2 (str ''link %s %s: failed'' @ [10]) [PStr (Some (argv ! 1)), PStr (Some (argv ! 2))]
               else ureturn ()) (\<lambda>_. uexit 0)))"

primrec mkdir_args :: "'w os \<Rightarrow> byte list list \<Rightarrow> ('w, unit) um" where
  "mkdir_args os [] = ureturn ()"
| "mkdir_args os (a # as) =
     ubind (ucall (o_mkdir os a)) (\<lambda>r.
       if r < 0 then fprintf os 2 (str ''mkdir: %s failed to create'' @ [10]) [PStr (Some a)] else mkdir_args os as)"

definition mkdir_main :: "'w os \<Rightarrow> byte list list \<Rightarrow> ('w, unit) um" where
  "mkdir_main os argv =
     (if length argv < 2 then ubind (fprintf os 2 (str ''Usage: mkdir files...'' @ [10]) []) (\<lambda>_. uexit 1)
      else ubind (mkdir_args os (tl argv)) (\<lambda>_. uexit 0))"

primrec rm_args :: "'w os \<Rightarrow> byte list list \<Rightarrow> ('w, unit) um" where
  "rm_args os [] = ureturn ()"
| "rm_args os (a # as) =
     ubind (ucall (o_unlink os a)) (\<lambda>r.
       if r < 0 then fprintf os 2 (str ''rm: %s failed to delete'' @ [10]) [PStr (Some a)] else rm_args os as)"

definition rm_main :: "'w os \<Rightarrow> byte list list \<Rightarrow> ('w, unit) um" where
  "rm_main os argv =
     (if length argv < 2 then ubind (fprintf os 2 (str ''Usage: rm files...'' @ [10]) []) (\<lambda>_. uexit 1)
      else ubind (rm_args os (tl argv)) (\<lambda>_. uexit 0))"

section \<open>\<^verbatim>\<open>user/ls.c\<close>\<close>

text \<open>\<open>name_start path i\<close> is the offset of \<open>p\<close> after the loop that starts at \<open>i - 1\<close> and the \<open>p++\<close> that follows it.\<close>

primrec name_start :: "byte list \<Rightarrow> nat \<Rightarrow> nat" where
  "name_start path 0 = 0"
| "name_start path (Suc i) = (if char_at path i = chr CHR ''/'' then Suc i else name_start path i)"

definition fmtname :: "byte list \<Rightarrow> byte list" where
  "fmtname path =
     (let p = drop (name_start path (Suc (ustrlen path))) path in
      if ustrlen p \<ge> DIRSIZ then p else p @ replicate (DIRSIZ - ustrlen p) 32)"

definition ls_line :: "'w os \<Rightarrow> byte list \<Rightarrow> stat \<Rightarrow> ('w, unit) um" where
  "ls_line os path st =
     uprintf os (str ''%s %d %d %d'' @ [10])
       [PStr (Some (fmtname path)), PInt (scast (st_type st)), PInt (ucast (st_ino st)), PInt (scast (ucast (st_size st) :: u32))]"

text \<open>
  The entries of the directory \<open>path\<close>: \<open>buf\<close> is \<open>path\<close>, a slash, the 14 bytes of the name and a NUL.
\<close>

partial_function (option) ls_dir :: "'w os \<Rightarrow> int \<Rightarrow> byte list \<Rightarrow> stat \<Rightarrow> 'w \<Rightarrow> ((uend + unit) \<times> 'w) option" where
  "ls_dir os fd path st w =
     ubind (ucall (o_read os fd 16)) (\<lambda>(r, de) w1.
       if r \<noteq> 16 then ureturn () w1
       else if de_inum de = 0 then ls_dir os fd path st w1
       else let buf = cstring (path @ [chr CHR ''/''] @ de_name de @ [0]) in
         ubind (ustat os buf st) (\<lambda>(r, st1) w2.
           ubind (if r < 0 then uprintf os (str ''ls: cannot stat %s'' @ [10]) [PStr (Some buf)] else ls_line os buf st1)
             (\<lambda>_ w3. ls_dir os fd path st1 w3) w2) w1) w"

definition ls :: "'w os \<Rightarrow> byte list \<Rightarrow> ('w, unit) um" where
  "ls os path =
     ubind (ucall (o_open os path O_RDONLY)) (\<lambda>fd.
     if fd < 0 then fprintf os 2 (str ''ls: cannot open %s'' @ [10]) [PStr (Some path)]
     else ubind (ucall (o_fstat os fd)) (\<lambda>(r, st).
     if r < 0 then ubind (fprintf os 2 (str ''ls: cannot stat %s'' @ [10]) [PStr (Some path)]) (\<lambda>_. ubind (ucall (o_close os fd)) (\<lambda>_. ureturn ()))
     else ubind
       (if st_type st = T_DEVICE \<or> st_type st = T_FILE then ls_line os path st
        else if st_type st = T_DIR then
          if ustrlen path + 1 + DIRSIZ + 1 > 512 then uprintf os (str ''ls: path too long'' @ [10]) []
          else ls_dir os fd path st
        else ureturn ())
       (\<lambda>_. ubind (ucall (o_close os fd)) (\<lambda>_. ureturn ()))))"

primrec ls_args :: "'w os \<Rightarrow> byte list list \<Rightarrow> ('w, unit) um" where
  "ls_args os [] = ureturn ()"
| "ls_args os (a # as) = ubind (ls os a) (\<lambda>_. ls_args os as)"

definition ls_main :: "'w os \<Rightarrow> byte list list \<Rightarrow> ('w, unit) um" where
  "ls_main os argv =
     (if length argv < 2 then ubind (ls os (str ''.'')) (\<lambda>_. uexit 0)
      else ubind (ls_args os (tl argv)) (\<lambda>_. uexit 0))"

section \<open>\<^verbatim>\<open>user/init.c\<close>\<close>

text \<open>The inner loop of \<open>main\<close>: it ends when the shell, process \<open>child\<close>, has exited.\<close>

partial_function (option) init_wait :: "'w os \<Rightarrow> int \<Rightarrow> 'w \<Rightarrow> ((uend + unit) \<times> 'w) option" where
  "init_wait os child w =
     ubind (ucall (o_wait os)) (\<lambda>wpid w1.
       if wpid = child then ureturn () w1
       else if wpid < 0 then ubind (uprintf os (str ''init: wait returned an error'' @ [10]) []) (\<lambda>_. uexit 1) w1
       else init_wait os child w1) w"

definition init_round :: "'w os \<Rightarrow> ('w, unit) um" where
  "init_round os =
     ubind (uprintf os (str ''init: starting sh'' @ [10]) []) (\<lambda>_.
     ubind (ucall (o_fork os)) (\<lambda>child.
     if child < 0 then ubind (uprintf os (str ''init: fork failed'' @ [10]) []) (\<lambda>_. uexit 1)
     else if child = 0 then
       ubind (uexec os (str ''sh'') [(str ''sh'')]) (\<lambda>_. ubind (uprintf os (str ''init: exec sh failed'' @ [10]) []) (\<lambda>_. uexit 1))
     else init_wait os child))"

partial_function (option) init_loop :: "'w os \<Rightarrow> 'w \<Rightarrow> ((uend + unit) \<times> 'w) option" where
  "init_loop os w = ubind (init_round os) (\<lambda>_ w1. init_loop os w1) w"

definition init_main :: "'w os \<Rightarrow> ('w, unit) um" where
  "init_main os =
     ubind (ucall (o_open os (str ''console'') O_RDWR)) (\<lambda>fd.
     ubind (if fd < 0 then ubind (ucall (o_mknod os (str ''console'') CONSOLE 0)) (\<lambda>_. ucall (o_open os (str ''console'') O_RDWR)) else ureturn fd) (\<lambda>_.
     ubind (ucall (o_dup os 0)) (\<lambda>_. ubind (ucall (o_dup os 0)) (\<lambda>_. init_loop os))))"

end
