(* ===== verification/UprogsSpec.thy ===== *)
theory UprogsSpec
  imports Uprogs
begin

text \<open>
  What the small programs do: \<open>cat\<close> copies, \<open>wc\<close> counts, \<open>echo\<close> joins its arguments, \<open>ls\<close> pads names, and \<open>init\<close> restarts the
  shell for ever.
\<close>

declare vprintf.simps [simp del]

section \<open>cat\<close>

text \<open>The messages have no conversions, so printing them is writing their bytes.\<close>

lemma vprintf_text: "\<forall>c\<in>set s. c \<noteq> 37 \<Longrightarrow> vprintf s False ap = Some s"
  by (induction s) (simp_all add: fmt_simps)

lemma error_exit:
  assumes "stream_laws os fd inp outp" and "\<forall>c\<in>set msg. c \<noteq> 37"
  shows "\<exists>w1. ubind (fprintf os 2 msg []) (\<lambda>_. uexit n) w = Some (Inl (Exit n), w1) \<and> inp w1 = inp w \<and> outp w1 = outp w"
proof -
  obtain w1 where "putcs os 2 msg w = Some (Inr (), w1)" "inp w1 = inp w" "outp w1 = outp w"
    using putcs_err [OF assms(1)] by blast
  then show ?thesis by (simp add: fprintf_def vprintf_text [OF assms(2)] ubind_run(1) um_simps)
qed

definition copied :: "bool \<Rightarrow> ('w \<Rightarrow> byte list) \<Rightarrow> ('w \<Rightarrow> byte list) \<Rightarrow> 'w \<Rightarrow> ((uend + unit) \<times> 'w) option \<Rightarrow> bool" where
  "copied ok inp outp w res \<longleftrightarrow>
     (\<exists>w1. res = Some (Inr (), w1) \<and> inp w1 = [] \<and> outp w1 = outp w @ inp w) \<or>
     (\<exists>w1 k. \<not> ok \<and> res = Some (Inl (Exit 1), w1) \<and> outp w1 = outp w @ take k (inp w))"

lemma copied_more:
  assumes "copied ok inp outp w1 res" and "inp w = bs @ inp w1" and "outp w1 = outp w @ bs"
  shows "copied ok inp outp w res"
proof -
  have "outp w1 @ take k (inp w1) = outp w @ take (length bs + k) (inp w)" for k using assms(2,3) by simp
  then show ?thesis using assms unfolding copied_def by (metis append.assoc)
qed

lemma cat_copied:
  assumes laws: "stream_laws os fd inp outp"
  shows "copied (no_errors os fd) inp outp w (cat os fd w)"
proof (induction "length (inp w)" arbitrary: w rule: less_induct)
  case less
  show ?case
  proof (cases rule: stream_read [OF laws, where n = 512 and w = w, OF zero_less_numeral, case_names error eof data])
    case (error r bs w1)
    have "cat os fd w = ubind (fprintf os 2 (str ''cat: read error'' @ [10]) []) (\<lambda>_. uexit 1) w1"
      using error by (subst cat.simps) (simp add: um_simps)
    then obtain w2 where "cat os fd w = Some (Inl (Exit 1), w2)" "outp w2 = outp w1"
      using error_exit [OF laws, of "str ''cat: read error'' @ [10]" 1 w1] by (auto simp: fmt_simps of_char_def)
    moreover have "\<not> no_errors os fd" using error by (metis fst_conv no_errors_def not_le)
    ultimately show ?thesis using error(4) unfolding copied_def by (metis append_Nil2 take0)
  next
    case (eof w1)
    then show ?thesis by (subst cat.simps) (simp add: um_simps copied_def)
  next
    case (data bs w1)
    obtain r w2 k where wr: "o_write os 1 bs w1 = (r, w2)" "inp w2 = inp w1" "outp w2 = outp w1 @ take k bs"
      "r = int (length bs) \<longrightarrow> k = length bs" by (rule stream_write [OF laws])
    show ?thesis
    proof (cases "r = int (length bs)")
      case True
      then have "cat os fd w = cat os fd w2" using data wr by (subst cat.simps) (simp add: um_simps)
      moreover have "copied (no_errors os fd) inp outp w2 (cat os fd w2)" using less data wr by simp
      ultimately show ?thesis using copied_more [of _ inp outp w2 _ w bs] data wr True by simp
    next
      case False
      have "cat os fd w = ubind (fprintf os 2 (str ''cat: write error'' @ [10]) []) (\<lambda>_. uexit 1) w2"
        using data wr False by (subst cat.simps) (simp add: um_simps)
      then obtain w3 where "cat os fd w = Some (Inl (Exit 1), w3)" "outp w3 = outp w2"
        using error_exit [OF laws, of "str ''cat: write error'' @ [10]" 1 w2] by (auto simp: fmt_simps of_char_def)
      moreover have "outp w2 = outp w @ take (min k (length bs)) (inp w)" using data wr by (simp add: min_def)
      moreover have "\<not> no_errors os fd" using wr(1) False by (metis fst_conv no_errors_def)
      ultimately show ?thesis unfolding copied_def by auto
    qed
  qed
qed

text \<open>
  C13. Whatever the sizes of the reads and whichever calls fail, \<open>cat\<close> ends. What it wrote is the whole input if it returns, and
  some first part of it if it stops with status 1 because a read or a write failed; when nothing fails it returns.
\<close>

theorem cat_copies:
  assumes "stream_laws os fd inp outp"
  shows "((\<exists>w1. cat os fd w = Some (Inr (), w1) \<and> inp w1 = [] \<and> outp w1 = outp w @ inp w) \<or>
      (\<exists>w1 k. cat os fd w = Some (Inl (Exit 1), w1) \<and> outp w1 = outp w @ take k (inp w))) \<and>
    (no_errors os fd \<longrightarrow> (\<exists>w1. cat os fd w = Some (Inr (), w1)))"
  using cat_copied [OF assms, of w] unfolding copied_def by auto

theorem cat_copies_witness:
  "\<exists>w1. cat (chunk_os 3 False None) 0 ([97, 98, 99, 10, 0, 255, 97], [64]) = Some (Inr (), w1) \<and>
     snd w1 = [64, 97, 98, 99, 10, 0, 255, 97]"
  using cat_copies [OF chunk_stream, of 3 False None 0 "([97, 98, 99, 10, 0, 255, 97], [64])"] chunk_no_errors [of 3 0] by auto

section \<open>wc\<close>

definition blank :: "byte \<Rightarrow> bool" where
  "blank b \<longleftrightarrow> b \<in> {32, 13, 9, 10, 11}"

text \<open>A word begins at each byte that is not blank and is the first or follows a blank one.\<close>

definition word_starts :: "byte list \<Rightarrow> nat set" where
  "word_starts bs = {i. i < length bs \<and> \<not> blank (bs ! i) \<and> (i = 0 \<or> blank (bs ! (i - 1)))}"

lemma word_starts_snoc:
  "word_starts (bs @ [b]) = word_starts bs \<union> (if \<not> blank b \<and> (bs = [] \<or> blank (last bs)) then {length bs} else {})"
  by (cases "bs = []") (auto simp: word_starts_def nth_append last_conv_nth less_Suc_eq split: if_splits)

lemma strchr_blank: "strchr [32, 13, 9, 10, 11] b \<noteq> None \<longleftrightarrow> blank b"
  by (auto simp: blank_def)

lemma wc_fold:
  "fold wc_byte bs (0, 0, 0, False) =
   (of_nat (count_list bs 10), of_nat (card (word_starts bs)), of_nat (length bs), bs \<noteq> [] \<and> \<not> blank (last bs))"
proof (induction bs rule: rev_induct)
  case Nil
  then show ?case by (simp add: word_starts_def)
next
  case (snoc b bs)
  have "finite (word_starts bs)" "length bs \<notin> word_starts bs" by (auto simp: word_starts_def)
  then show ?case
    using snoc strchr_blank [of b] by (auto simp: wc_byte_def word_starts_snoc Let_def simp del: strchr.simps)
qed

lemma wc_loop_reads:
  assumes laws: "stream_laws os fd inp outp" and ok: "no_errors os fd"
  shows "\<exists>w1. wc_loop os fd st w = Some (Inr (0, fold wc_byte (inp w) st), w1) \<and> inp w1 = [] \<and> outp w1 = outp w"
proof (induction "length (inp w)" arbitrary: w st rule: less_induct)
  case less
  show ?case
  proof (cases rule: stream_read [OF laws, where n = 512 and w = w, OF zero_less_numeral, case_names error eof data])
    case (error r bs w1)
    then show ?thesis using ok by (metis fst_conv no_errors_def not_le)
  next
    case (eof w1)
    then show ?thesis by (subst wc_loop.simps) (simp add: um_simps)
  next
    case (data bs w1)
    then have "wc_loop os fd st w = wc_loop os fd (fold wc_byte bs st) w1"
      by (subst wc_loop.simps) (simp add: um_simps)
    with less [of w1 "fold wc_byte bs st"] data show ?thesis by simp
  qed
qed

text \<open>A count as \<open>%d\<close> prints it.\<close>

definition show_int :: "u32 \<Rightarrow> byte list" where
  "show_int x = printint udigits (va_int 32 True (scast x)) 10 True"

text \<open>
  C38. When no call fails, \<open>wc\<close> reads its input to the end and prints the numbers of its newlines, words and bytes as \<open>int\<close>s, and the
  name, however the input is cut into reads: a word that spans two of them counts once.
\<close>

theorem wc_counts:
  assumes "stream_laws os fd inp outp" and "no_errors os fd"
  shows "\<exists>w1. wc os fd name w = Some (Inr (), w1) \<and> inp w1 = [] \<and>
     outp w1 = outp w @ show_int (of_nat (count_list (inp w) 10)) @ [32] @ show_int (of_nat (card (word_starts (inp w)))) @ [32] @
       show_int (of_nat (length (inp w))) @ [32] @ name @ [10]"
proof -
  obtain w1 where w1: "wc_loop os fd (0, 0, 0, False) w = Some (Inr (0, fold wc_byte (inp w) (0, 0, 0, False)), w1)"
    "inp w1 = []" "outp w1 = outp w" using wc_loop_reads [OF assms] by blast
  let ?out = "show_int (of_nat (count_list (inp w) 10)) @ [32] @ show_int (of_nat (card (word_starts (inp w)))) @ [32] @
       show_int (of_nat (length (inp w))) @ [32] @ name @ [10]"
  have "wc os fd name w = putcs os 1 ?out w1"
    unfolding wc_def by (subst ubind_run(1), rule w1(1))
      (simp add: wc_fold uprintf_def fprintf_def fmt_simps of_char_def show_int_def)
  then show ?thesis using putcs_out [OF assms, of ?out w1] w1 by simp
qed

theorem wc_counts_witness:
  "\<exists>w1. wc (chunk_os 3 False None) 0 [102] ([97, 98, 32, 99, 100, 101, 10], []) = Some (Inr (), w1) \<and>
     snd w1 = [49, 32, 50, 32, 55, 32, 102, 10]"
proof -
  let ?bs = "[97, 98, 32, 99, 100, 101, 10] :: byte list"
  have "word_starts bs = set (filter (\<lambda>i. \<not> blank (bs ! i) \<and> (i = 0 \<or> blank (bs ! (i - 1)))) [0..<length bs])" for bs
    by (auto simp: word_starts_def)
  moreover have "card (set (filter (\<lambda>i. \<not> blank (?bs ! i) \<and> (i = 0 \<or> blank (?bs ! (i - 1)))) [0..<length ?bs])) = 2"
    by code_simp
  ultimately have "card (word_starts ?bs) = 2" by (simp only:)
  moreover have "show_int (of_nat 1) = [49]" "show_int (of_nat 2) = [50]" "show_int (of_nat 7) = [55]" by code_simp+
  ultimately show ?thesis
    using wc_counts [OF chunk_stream chunk_no_errors, of 3 0 "[102]" "(?bs, [])"] by auto
qed

section \<open>echo\<close>

lemma echo_joins:
  assumes laws: "stream_laws os fd inp outp" "no_errors os fd" and strs: "\<forall>a\<in>set as. 0 \<notin> set a" and "as \<noteq> []"
  shows "\<exists>w1. echo_args os as w = Some (Inr (), w1) \<and> outp w1 = outp w @ concat (map (\<lambda>a. a @ [32]) (butlast as)) @ last as @ [10]"
  using strs \<open>as \<noteq> []\<close>
proof (induction as arbitrary: w)
  case (Cons a as)
  define sep :: "byte list" where "sep = (if as \<noteq> [] then [32] else [10])"
  obtain w1 where w1: "o_write os 1 a w = (int (length a), w1)" "outp w1 = outp w @ a" using write_all [OF laws] by blast
  obtain w2 where w2: "o_write os 1 sep w1 = (int (length sep), w2)" "outp w2 = outp w1 @ sep" using write_all [OF laws] by blast
  have "take (ustrlen a) a = a" using Cons.prems by (simp add: ustrlen_eq cstring_id)
  then have r: "echo_args os (a # as) w = echo_args os as w2"
    using w1(1) w2(1) by (simp add: um_simps fmt_simps of_char_def sep_def split: if_splits)
  show ?case
  proof (cases "as = []")
    case True
    then show ?thesis using w1 w2 r by (simp add: um_simps sep_def)
  next
    case False
    then show ?thesis using Cons.IH [of w2] Cons.prems w1 w2 r by (simp add: sep_def)
  qed
qed simp

section \<open>ls\<close>

lemma name_start_slash:
  "47 \<notin> set n \<Longrightarrow> i \<le> length n \<Longrightarrow> name_start (d @ 47 # n) (Suc (length d + Suc i)) = Suc (length d)"
proof (induction i)
  case 0
  then show ?case by (cases n) (auto simp: char_at_def chr_def of_char_def nth_append)
next
  case (Suc i)
  then have "char_at (d @ 47 # n) (Suc (length d + Suc i)) \<noteq> 47" by (auto simp: char_at_def nth_append dest: nth_mem)
  with Suc show ?case by (simp add: chr_def of_char_def)
qed

text \<open>The last name of a path, filled up with blanks to 14 bytes.\<close>

lemma fmtname_pads:
  assumes "0 \<notin> set d" "0 \<notin> set n" "47 \<notin> set n"
  shows "fmtname (d @ 47 # n) = n @ replicate (DIRSIZ - length n) 32"
proof -
  have "ustrlen (d @ 47 # n) = length d + Suc (length n)" "ustrlen n = length n" using assms by (simp_all add: ustrlen_eq cstring_id)
  then show ?thesis using name_start_slash [OF assms(3), of "length n" d] by (simp add: fmtname_def Let_def)
qed

section \<open>init\<close>

text \<open>While \<open>fork\<close> and \<open>wait\<close> do not fail, the parent's run of \<open>init\<close> has no end: it starts the shell again each time it exits.\<close>

definition never_fails :: "'w os \<Rightarrow> bool" where
  "never_fails os \<longleftrightarrow> (\<forall>w. 0 < fst (o_fork os w) \<and> 0 \<le> fst (o_wait os w))"

lemma putcs_returns: "\<exists>w1. putcs os fd cs w = Some (Inr (), w1)"
  by (induction cs arbitrary: w) (simp_all add: um_simps)

lemma init_wait_returns:
  assumes "init_wait os child w = Some y"
  shows "never_fails os \<longrightarrow> (\<exists>w1. y = (Inr (), w1))"
proof (rule init_wait.raw_induct [OF _ assms], rule impI)
  fix f os child w y
  assume 1: "\<And>os child w y. f os child w = Some y \<Longrightarrow> never_fails os \<longrightarrow> (\<exists>w1. y = (Inr (), w1))" "never_fails os"
    "ubind (ucall (o_wait os)) (\<lambda>wpid w1. if wpid = child then ureturn () w1
       else if wpid < 0 then ubind (uprintf os (str ''init: wait returned an error'' @ [10]) []) (\<lambda>_. uexit 1) w1
       else f os child w1) w = Some y"
  have "0 \<le> fst (o_wait os w)" using 1(2) by (simp add: never_fails_def)
  then show "\<exists>w1. y = (Inr (), w1)" using 1 by (auto simp: um_simps split: if_splits)
qed

lemma init_round_returns:
  assumes "init_round os w = Some (r, w1)" and "never_fails os"
  shows "r = Inr ()"
proof -
  obtain w0 where "putcs os 1 (str ''init: starting sh'' @ [10]) w = Some (Inr (), w0)"
    using putcs_returns [of os 1 "str ''init: starting sh'' @ [10]" w] by blast
  then have "uprintf os (str ''init: starting sh'' @ [10]) [] w = Some (Inr (), w0)"
    by (simp add: uprintf_def fprintf_def fmt_simps of_char_def)
  moreover have "0 < fst (o_fork os w0)" using assms(2) by (simp add: never_fails_def)
  ultimately have "init_wait os (fst (o_fork os w0)) (snd (o_fork os w0)) = Some (r, w1)"
    using assms(1) by (simp add: init_round_def ubind_run(1) um_simps)
  from init_wait_returns [OF this] assms(2) show ?thesis by simp
qed

lemma init_loop_ends:
  assumes "init_loop os w = Some y"
  shows "\<not> never_fails os"
proof (rule init_loop.raw_induct [OF _ assms], rule notI)
  fix f os w y
  assume 1: "\<And>os w y. f os w = Some y \<Longrightarrow> \<not> never_fails os" "ubind (init_round os) (\<lambda>_ w1. f os w1) w = Some y" "never_fails os"
  then obtain r w1 where r: "init_round os w = Some (r, w1)" by (auto simp: ubind_def Option.bind_eq_Some_conv)
  with init_round_returns [OF r 1(3)] 1(2) have "f os w1 = Some y" by (simp add: ubind_run(1))
  from 1(1) [OF this] 1(3) show False by simp
qed

theorem init_never_ends:
  assumes "never_fails os"
  shows "init_main os w = None"
proof -
  have "init_loop os w = None" for w using init_loop_ends [of os w] assms by (cases "init_loop os w") auto
  then show ?thesis by (simp add: init_main_def um_simps split: if_splits)
qed

end
