(* ===== verification/ShSpec.thy ===== *)
theory ShSpec
  imports Sh
begin

unbundle bit_operations_syntax

text \<open>
  What the shell's parser promises: it ends on every line, the words of the command it returns are words of
  the line and survive \<open>nulterminate\<close>, no argument vector overflows, and it reads back what a printer writes.
\<close>

section \<open>Words\<close>

definition span_ok :: "byte list \<Rightarrow> span \<Rightarrow> bool" where
  "span_ok b f \<longleftrightarrow> fst f < snd f \<and> snd f \<le> length b \<and> (\<forall>i. fst f \<le> i \<and> i < snd f \<longrightarrow> plain (b ! i))
     \<and> (snd f < length b \<longrightarrow> \<not> plain (b ! snd f))"

primrec cmd_ok :: "byte list \<Rightarrow> span cmd \<Rightarrow> bool" where
  "cmd_ok b (EXEC args) \<longleftrightarrow> length args < MAXARGS \<and> list_all (span_ok b) args"
| "cmd_ok b (REDIR c f mode fd) \<longleftrightarrow> cmd_ok b c \<and> span_ok b f"
| "cmd_ok b (PIPE l r) \<longleftrightarrow> cmd_ok b l \<and> cmd_ok b r"
| "cmd_ok b (LIST l r) \<longleftrightarrow> cmd_ok b l \<and> cmd_ok b r"
| "cmd_ok b (BACK c) \<longleftrightarrow> cmd_ok b c"

primrec words :: "'w cmd \<Rightarrow> 'w list" where
  "words (EXEC args) = args"
| "words (REDIR c f mode fd) = words c @ [f]"
| "words (PIPE l r) = words l @ words r"
| "words (LIST l r) = words l @ words r"
| "words (BACK c) = words c"

lemma word_end_span:
  assumes "s < length b" "plain (b ! s)"
  shows "span_ok b (s, word_end b s)"
proof -
  let ?w = "takeWhile plain (drop s b)"
  have "plain (b ! i)" if "s \<le> i" "i < word_end b s" for i
  proof -
    have l: "i - s < length ?w" using that by (simp add: word_end_def)
    then have "?w ! (i - s) = drop s b ! (i - s)" by (rule takeWhile_nth)
    also have "\<dots> = b ! i" using that assms by simp
    finally show ?thesis using nth_mem [OF l] by (metis set_takeWhileD)
  qed
  moreover have "\<not> plain (b ! word_end b s)" if "word_end b s < length b"
    using nth_length_takeWhile [of plain "drop s b"] that assms(1) by (simp add: word_end_def)
  ultimately show ?thesis
    using word_end_gt [OF assms] word_end_le [of s b] assms(1) by (simp add: span_ok_def)
qed

lemma gettoken_word:
  assumes "gettoken b p = (chr CHR ''a'', f, p')"
  shows "span_ok b f"
proof -
  let ?s = "skip_ws b p"
  have c: "char_at b ?s \<noteq> 0" "char_at b ?s \<notin> set (str ''|();&<'')" "char_at b ?s \<noteq> chr CHR ''>''"
    and f: "f = (?s, word_end b ?s)"
    using assms by (auto simp: gettoken_def Let_def chr_def str_def split: if_splits)
  have s: "?s < length b" by (rule char_at_pos [OF c(1)])
  have "plain (b ! ?s)"
    using not_ws_after_skip [OF s] symbols_cases [of "b ! ?s"] c(2,3) s by (auto simp: plain_def char_at_def)
  then show ?thesis unfolding f by (rule word_end_span [OF s])
qed

section \<open>Redirections and arguments\<close>

lemma parseredirs_ok:
  "parseredirs b rs p = Inr (rs', p') \<Longrightarrow> list_all (\<lambda>r. span_ok b (fst r)) rs \<Longrightarrow> list_all (\<lambda>r. span_ok b (fst r)) rs'"
proof (induction b rs p rule: parseredirs.induct)
  case (1 b rs p)
  obtain r p1 where pk: "peek_tok b p (str ''<>'') = (r, p1)" by force
  show ?case
  proof (cases r)
    case False
    then show ?thesis using "1.prems" pk by (simp add: parseredirs.simps [of b rs p])
  next
    case True
    obtain tok g p2 where g1: "gettoken b p1 = (tok, g, p2)" by (metis prod_cases3)
    obtain a f p3 where g2: "gettoken b p2 = (a, f, p3)" by (metis prod_cases3)
    have a: "a = chr CHR ''a''" and rec: "parseredirs b (rs @ [redir_of tok f]) p3 = Inr (rs', p')"
      using "1.prems"(1) pk g1 g2 True by (simp_all add: parseredirs.simps [of b rs p] split: if_splits)
    have "span_ok b (fst (redir_of tok f))" using gettoken_word [of b p2 f p3] g2 a by (simp add: redir_of_def)
    then show ?thesis
      using "1.IH" [OF pk [symmetric] _ g1 [symmetric] refl g2 [symmetric] refl] True a rec "1.prems"(2) by simp
  qed
qed

lemma parseredirs_fuel: "parseredirs b rs p \<noteq> Inl NoFuel"
proof (induction b rs p rule: parseredirs.induct)
  case (1 b rs p)
  then show ?case by (subst parseredirs.simps) (auto split: prod.split bool.split)
qed

lemma exec_loop_step:
  assumes "peek_tok b p (str ''|)&;'') = (r, p1)" "gettoken b p1 = (tok, f, p2)"
  shows "exec_loop b args rs p =
    (if r then Inr (args, rs, p1)
     else if tok = 0 then Inr (args, rs, p2)
     else if tok \<noteq> chr CHR ''a'' then Inl (PPanic ''syntax'')
     else if length args + 1 \<ge> MAXARGS then Inl (PPanic ''too many args'')
     else case parseredirs b rs p2 of Inl e \<Rightarrow> Inl e | Inr (rs', p3) \<Rightarrow> exec_loop b (args @ [f]) rs' p3)"
  by (subst exec_loop.simps) (simp add: assms split: bool.split)

lemma exec_loop_fuel: "exec_loop b args rs p \<noteq> Inl NoFuel"
proof (induction b args rs p rule: exec_loop.induct)
  case (1 b args rs p)
  then show ?case using parseredirs_fuel [of b rs]
    by (subst exec_loop.simps) (auto split: prod.split bool.split sum.split)
qed

definition redirs_ok :: "byte list \<Rightarrow> redir list \<Rightarrow> bool" where
  "redirs_ok b rs \<longleftrightarrow> list_all (\<lambda>r. span_ok b (fst r)) rs"

lemma exec_loop_ok:
  "exec_loop b args rs p = Inr (args', rs', p') \<Longrightarrow> redirs_ok b rs \<Longrightarrow> list_all (span_ok b) args \<Longrightarrow>
   length args < MAXARGS \<Longrightarrow> p \<le> length b \<Longrightarrow>
   redirs_ok b rs' \<and> list_all (span_ok b) args' \<and> length args' < MAXARGS \<and> p \<le> p' \<and> p' \<le> length b"
proof (induction b args rs p rule: exec_loop.induct)
  case (1 b args rs p)
  obtain r p1 where pk: "peek_tok b p (str ''|)&;'') = (r, p1)" by force
  obtain tok f p2 where g: "gettoken b p1 = (tok, f, p2)" by (metis prod_cases3)
  note st = exec_loop_step [OF pk g, of args rs]
  note m = peek_tok_mono [OF pk] peek_tok_le [OF pk \<open>p \<le> length b\<close>] gettoken_mono [OF g]
  consider "r" | "\<not> r" "tok = 0" | "\<not> r" "tok = chr CHR ''a''" "\<not> length args + 1 \<ge> MAXARGS" "tok \<noteq> 0"
    using "1.prems"(1) st by (auto split: if_splits)
  then show ?case
  proof cases
    case 1
    then show ?thesis using "1.prems" st m by auto
  next
    case 2
    have "p2 \<le> length b"
      using g 2 m(2) by (auto simp: gettoken_def Let_def skip_ws_le chr_def split: if_splits)
    then show ?thesis using 2 "1.prems" st m by auto
  next
    case 3
    obtain rs1 p3 where pr: "parseredirs b rs p2 = Inr (rs1, p3)"
      and rec: "exec_loop b (args @ [f]) rs1 p3 = Inr (args', rs', p')"
      using "1.prems"(1) st 3 by (auto split: sum.splits)
    have q: "p1 < p2" "p2 \<le> length b" using gettoken_advances [OF g 3(4)] by simp_all
    then have p3: "p2 \<le> p3" "p3 \<le> length b" using parseredirs_pos [OF pr] by auto
    have "redirs_ok b rs1" using parseredirs_ok [OF pr] "1.prems"(2) by (simp add: redirs_ok_def)
    moreover have "span_ok b f" using gettoken_word g 3(2) by simp
    ultimately have "redirs_ok b rs' \<and> list_all (span_ok b) args' \<and> length args' < MAXARGS \<and> p3 \<le> p' \<and> p' \<le> length b"
      using "1.IH" [OF pk [symmetric] _ g [symmetric] refl 3(4) _ 3(3) pr refl rec] 3 "1.prems"(3) p3 by simp
    then show ?thesis using q p3 m by auto
  qed
qed

lemma wrap_ok: "cmd_ok b c \<Longrightarrow> redirs_ok b rs \<Longrightarrow> cmd_ok b (wrap rs c)"
  unfolding wrap_def redirs_ok_def by (induction rs arbitrary: c) auto

lemma back_loop_ok:
  "back_loop b c p = (c', p') \<Longrightarrow> p \<le> length b \<Longrightarrow> cmd_ok b c \<Longrightarrow> cmd_ok b c' \<and> p \<le> p' \<and> p' \<le> length b"
proof (induction b c p rule: back_loop.induct)
  case (1 b c p)
  obtain r p1 where pk: "peek_tok b p (str ''&'') = (r, p1)" by force
  obtain tok f p2 where g: "gettoken b p1 = (tok, f, p2)" by (metis prod_cases3)
  show ?case
  proof (cases r)
    case False
    then show ?thesis using "1.prems" pk peek_tok_mono [OF pk] peek_tok_le [OF pk] by (simp add: back_loop.simps [of b c p])
  next
    case True
    have "p < p2" "p2 \<le> length b" using peek_token [OF _ g, of p "str ''&''"] pk True by simp_all
    then show ?thesis using "1.IH" [OF pk [symmetric] _ g [symmetric] refl] True "1.prems" pk g
      by (simp add: back_loop.simps [of b c p])
  qed
qed

section \<open>Every line is parsed\<close>

definition good :: "byte list \<Rightarrow> pos \<Rightarrow> perr + (span cmd \<times> pos) \<Rightarrow> bool" where
  "good b p r \<longleftrightarrow> r \<noteq> Inl NoFuel \<and> (\<forall>c p'. r = Inr (c, p') \<longrightarrow> p \<le> p' \<and> p' \<le> length b \<and> cmd_ok b c)"

lemma good_Inl [simp]: "e \<noteq> NoFuel \<Longrightarrow> good b p (Inl e)"
  by (simp add: good_def)

lemma goodI: "p \<le> p' \<Longrightarrow> p' \<le> length b \<Longrightarrow> cmd_ok b c \<Longrightarrow> good b p (Inr (c, p'))"
  by (simp add: good_def)

lemma goodE:
  assumes "good b p r" "\<And>e. r = Inl e \<Longrightarrow> e \<noteq> NoFuel \<Longrightarrow> thesis"
    "\<And>c p'. r = Inr (c, p') \<Longrightarrow> p \<le> p' \<Longrightarrow> p' \<le> length b \<Longrightarrow> cmd_ok b c \<Longrightarrow> thesis"
  shows thesis
  using assms unfolding good_def by (metis sum.exhaust surj_pair)

lemma peek_skip:
  assumes "peek_tok b p toks = (t, p1)" "t"
  shows "p < skip_token b p1" "skip_token b p1 \<le> length b"
  using peek_token [of b p toks p1, OF assms(1) [unfolded eqTrueI [OF assms(2)]], of "fst (gettoken b p1)" "fst (snd (gettoken b p1))" "skip_token b p1"]
  by (simp_all add: skip_token_def)

lemma fuel_step: "p < q \<Longrightarrow> q \<le> l \<Longrightarrow> 4 * (l - q) + 4 \<le> 4 * (l - p)" for l :: nat
  by linarith

lemma parse_enough_fuel:
  assumes "p \<le> length b"
  shows "4 * (length b - p) + 4 \<le> n \<Longrightarrow> good b p (parseline n b p)"
    and "4 * (length b - p) + 3 \<le> n \<Longrightarrow> good b p (parsepipe n b p)"
    and "4 * (length b - p) + 2 \<le> n \<Longrightarrow> good b p (parseexec n b p)"
    and "4 * (length b - p) + 1 \<le> n \<Longrightarrow> good b p (parseblock n b p)"
  using assms
proof (induction n arbitrary: p)
  case (Suc n)
  {
    case 1
    have "good b p (parsepipe n b p)" using Suc.IH(2) [of p] 1 by simp
    then show ?case
    proof (rule goodE)
      fix c p1 assume r: "parsepipe n b p = Inr (c, p1)" "p \<le> p1" "p1 \<le> length b" "cmd_ok b c"
      obtain c2 p2 where bl: "back_loop b c p1 = (c2, p2)" by force
      note k = back_loop_ok [OF bl r(3,4)]
      obtain t p3 where pk: "peek_tok b p2 (str '';'') = (t, p3)" by force
      show ?case
      proof (cases t)
        case False
        then show ?thesis using r k bl pk peek_tok_mono [OF pk] peek_tok_le [OF pk] by (auto intro!: goodI)
      next
        case True
        note sk = peek_skip [OF pk True]
        then have "good b (skip_token b p3) (parseline n b (skip_token b p3))"
          using Suc.IH(1) [of "skip_token b p3"] 1 r k fuel_step [of p "skip_token b p3" "length b"] by simp
        then show ?thesis using r k bl pk True sk by (elim goodE) (auto intro!: goodI)
      qed
    qed simp
  next
    case 2
    have "good b p (parseexec n b p)" using Suc.IH(3) [of p] 2 by simp
    then show ?case
    proof (rule goodE)
      fix c p1 assume r: "parseexec n b p = Inr (c, p1)" "p \<le> p1" "p1 \<le> length b" "cmd_ok b c"
      obtain t p2 where pk: "peek_tok b p1 (str ''|'') = (t, p2)" by force
      show ?case
      proof (cases t)
        case False
        then show ?thesis using r pk peek_tok_mono [OF pk] peek_tok_le [OF pk] by (auto intro!: goodI)
      next
        case True
        note sk = peek_skip [OF pk True]
        then have "good b (skip_token b p2) (parsepipe n b (skip_token b p2))"
          using Suc.IH(2) [of "skip_token b p2"] 2 r fuel_step [of p "skip_token b p2" "length b"] by simp
        then show ?thesis using r pk True sk by (elim goodE) (auto intro!: goodI)
      qed
    qed simp
  next
    case 3
    obtain t p1 where pk: "peek_tok b p (str ''('') = (t, p1)" by force
    have p1: "p \<le> p1" "p1 \<le> length b" using peek_tok_mono [OF pk] peek_tok_le [OF pk] 3 by auto
    show ?case
    proof (cases t)
      case True
      then have "good b p1 (parseblock n b p1)" using Suc.IH(4) [of p1] 3 p1 by simp
      then show ?thesis using pk True p1 by (elim goodE) (auto intro!: goodI)
    next
      case False
      show ?thesis
      proof (cases "parseredirs b [] p1")
        case (Inl e)
        then show ?thesis using pk False parseredirs_fuel [of b "[]" p1] by (auto simp: good_def)
      next
        case (Inr x)
        obtain rs p2 where x: "parseredirs b [] p1 = Inr (rs, p2)" using Inr by (cases x) simp
        note a = parseredirs_pos [OF x] parseredirs_ok [OF x]
        show ?thesis
        proof (cases "exec_loop b [] rs p2")
          case (Inl e)
          then show ?thesis using pk False x exec_loop_fuel [of b "[]" rs p2] by (auto simp: good_def)
        next
          case (Inr y)
          obtain args rs' p3 where y: "exec_loop b [] rs p2 = Inr (args, rs', p3)" using Inr by (cases y) simp
          have "redirs_ok b rs' \<and> list_all (span_ok b) args \<and> length args < MAXARGS \<and> p2 \<le> p3 \<and> p3 \<le> length b"
            using exec_loop_ok [OF y] a p1 by (simp add: redirs_ok_def MAXARGS_def)
          then show ?thesis using pk False x y a p1 by (auto intro!: goodI wrap_ok)
        qed
      qed
    qed
  next
    case 4
    obtain t p1 where pk: "peek_tok b p (str ''('') = (t, p1)" by force
    show ?case
    proof (cases t)
      case True
      note sk = peek_skip [OF pk True]
      then have "good b (skip_token b p1) (parseline n b (skip_token b p1))"
        using Suc.IH(1) [of "skip_token b p1"] 4 fuel_step [of p "skip_token b p1" "length b"] by simp
      then show ?thesis
      proof (rule goodE)
        fix c p2 assume r: "parseline n b (skip_token b p1) = Inr (c, p2)" "skip_token b p1 \<le> p2" "p2 \<le> length b" "cmd_ok b c"
        obtain u p3 where pk2: "peek_tok b p2 (str '')'') = (u, p3)" by force
        show ?thesis
        proof (cases u)
          case False
          then show ?thesis using pk True r pk2 by simp
        next
          case u: True
          note sk2 = peek_skip [OF pk2 u]
          show ?thesis
          proof (cases "parseredirs b [] (skip_token b p3)")
            case (Inl e)
            then show ?thesis using pk True r pk2 u parseredirs_fuel [of b "[]" "skip_token b p3"] by (auto simp: good_def)
          next
            case (Inr x)
            obtain rs p4 where x: "parseredirs b [] (skip_token b p3) = Inr (rs, p4)" using Inr by (cases x) simp
            then show ?thesis using pk True r pk2 u sk sk2 parseredirs_pos [OF x] parseredirs_ok [OF x]
              by (auto intro!: goodI wrap_ok simp: redirs_ok_def)
          qed
        qed
      qed (use pk True in simp)
    qed (use pk in simp)
  }
qed auto

text \<open>
  C20. The shell's parser ends on every line: whatever the bytes of the line, the fuel given to the recursive
  descent is never used up, so \<open>parsecmd\<close> returns a command or one of its panics.
\<close>

theorem sh_parser_total: "parsecmd b \<noteq> Inl NoFuel"
proof -
  have "good b 0 (parseline (parse_fuel b) b 0)"
    by (rule parse_enough_fuel(1)) (simp_all add: parse_fuel_def)
  then show ?thesis by (rule goodE) (auto simp: parsecmd_def split: prod.split)
qed

section \<open>The words after nulterminate\<close>

lemma fold_nul_length [simp]: "length (fold (\<lambda>(q, eq) b. b[eq := 0]) args x) = length x"
  by (induction args arbitrary: x) (simp_all add: case_prod_beta)

lemma fold_nul_nth:
  "i < length x \<Longrightarrow> fold (\<lambda>(q, eq) b. b[eq := 0]) args x ! i = (if i \<in> snd ` set args then 0 else x ! i)"
proof (induction args arbitrary: x)
  case (Cons a args)
  then show ?case by (cases a) (simp add: nth_list_update)
qed simp

lemma nulterminate_length [simp]: "length (nulterminate c x) = length x"
  by (induction c arbitrary: x) simp_all

lemma nulterminate_nth:
  "i < length x \<Longrightarrow> nulterminate c x ! i = (if i \<in> snd ` set (words c) then 0 else x ! i)"
proof (induction c arbitrary: x)
  case (REDIR c f mode fd)
  then show ?case by (cases "snd f = i") (simp_all add: image_Un)
qed (simp_all add: fold_nul_nth image_Un)

lemma cmd_ok_words: "cmd_ok b c \<Longrightarrow> f \<in> set (words c) \<Longrightarrow> span_ok b f"
  by (induction c) (auto simp: list_all_iff)

definition text_of :: "byte list \<Rightarrow> span \<Rightarrow> byte list" where
  "text_of b f = take (snd f - fst f) (drop (fst f) b)"

definition cstr_at :: "byte list \<Rightarrow> pos \<Rightarrow> byte list" where
  "cstr_at b q = takeWhile (\<lambda>c. c \<noteq> 0) (drop q b)"

lemma takeWhile_upto:
  assumes "n < length xs" "\<And>i. i < n \<Longrightarrow> P (xs ! i)" "\<not> P (xs ! n)"
  shows "takeWhile P xs = take n xs"
  using assms by (intro takeWhile_eq_take_P_nth) auto

lemma word_survives:
  assumes ok: "cmd_ok b c" and f: "f \<in> set (words c)" and nz: "0 \<notin> set b"
  shows "cstr_at (nulterminate c (b @ [0])) (fst f) = text_of b f"
proof -
  let ?x = "nulterminate c (b @ [0])"
  have s: "fst f < snd f" "snd f \<le> length b" and pl: "\<And>i. fst f \<le> i \<Longrightarrow> i < snd f \<Longrightarrow> plain (b ! i)"
    using cmd_ok_words [OF ok f] by (auto simp: span_ok_def)
  have keep: "?x ! i = b ! i" if i: "fst f \<le> i" "i < snd f" for i
  proof -
    have "i \<notin> snd ` set (words c)"
    proof
      assume "i \<in> snd ` set (words c)"
      then obtain g where g: "g \<in> set (words c)" "i = snd g" by blast
      have "\<not> plain (b ! i)" using cmd_ok_words [OF ok g(1)] i s by (auto simp: span_ok_def g(2))
      then show False using pl i by blast
    qed
    then show ?thesis using i s by (simp add: nulterminate_nth nth_append)
  qed
  have nul: "?x ! snd f = 0" using f s by (auto simp: nulterminate_nth)
  have "cstr_at ?x (fst f) = take (snd f - fst f) (drop (fst f) ?x)"
    unfolding cstr_at_def
  proof (rule takeWhile_upto)
    show "drop (fst f) ?x ! i \<noteq> 0" if "i < snd f - fst f" for i
    proof -
      have "drop (fst f) ?x ! i = b ! (fst f + i)" using that keep [of "fst f + i"] s by simp
      moreover have "b ! (fst f + i) \<in> set b" using that s by simp
      ultimately show ?thesis using nz by metis
    qed
  qed (use s nul in simp_all)
  also have "\<dots> = text_of b f"
    unfolding text_of_def using s keep by (intro nth_equalityI) simp_all
  finally show ?thesis .
qed

text \<open>
  C21. The words of a parsed command are intact. When the parser accepts a line (without NUL bytes), every argument
  vector it builds has fewer than \<open>MAXARGS\<close> words, and after \<open>nulterminate\<close> each pointer to an argument or a
  file name is the C string of exactly the bytes of that word in the line: no NUL lands inside another word.
\<close>

theorem sh_words_intact:
  assumes "parsecmd b = Inr (c, x)" "0 \<notin> set b"
  shows "cmd_ok b c \<and> (\<forall>f \<in> set (words c). cstr_at x (fst f) = text_of b f)"
proof -
  have "good b 0 (parseline (parse_fuel b) b 0)"
    by (rule parse_enough_fuel(1)) (simp_all add: parse_fuel_def)
  then obtain p where "parseline (parse_fuel b) b 0 = Inr (c, p)" "cmd_ok b c" "x = nulterminate c (b @ [0])"
    using assms(1) by (elim goodE) (auto simp: parsecmd_def split: prod.splits if_splits)
  then show ?thesis using word_survives [OF _ _ assms(2)] by simp
qed

theorem sh_words_intact_witness:
  "\<exists>c x. parsecmd (str ''ls -l|wc>f&'') = Inr (c, x) \<and> 0 \<notin> set (str ''ls -l|wc>f&'')
     \<and> map (\<lambda>f. cstr_at x (fst f)) (words c) = [str ''ls'', str ''-l'', str ''wc'', str ''f'']"
proof -
  let ?b = "str ''ls -l|wc>f&''"
  let ?c = "BACK (PIPE (EXEC [(0, 2), (3, 5)]) (REDIR (EXEC [(6, 8)]) (9, 10) (O_WRONLY OR O_CREATE OR O_TRUNC) 1)) :: span cmd"
  let ?x = "nulterminate ?c (?b @ [0])"
  have p: "parsecmd ?b = Inr (?c, ?x)" by code_simp
  have nz: "0 \<notin> set ?b" by code_simp
  have "map (\<lambda>f. cstr_at ?x (fst f)) (words ?c) = map (text_of ?b) (words ?c)"
    using sh_words_intact [OF p nz] by simp
  also have "\<dots> = [str ''ls'', str ''-l'', str ''wc'', str ''f'']" by code_simp
  finally show ?thesis using p nz by (intro exI conjI)
qed

end
