(* ===== verification/ShPrint.thy ===== *)
theory ShPrint
  imports ShSpec
begin

unbundle bit_operations_syntax

text \<open>
  A printer for shell commands, and the proof that the parser reads back what it prints. The printer puts
  parentheses where the grammar needs them, so every command over well-formed words can be printed.
\<close>

section \<open>Tokens as text\<close>

datatype token = Word "byte list" | Sym byte | App

primrec bytes :: "token \<Rightarrow> byte list" where
  "bytes (Word w) = w"
| "bytes (Sym c) = [c]"
| "bytes App = str ''>>''"

primrec code :: "token \<Rightarrow> byte" where
  "code (Word w) = chr CHR ''a''"
| "code (Sym c) = c"
| "code App = chr CHR ''+''"

definition word_ok :: "byte list \<Rightarrow> bool" where
  "word_ok w \<longleftrightarrow> w \<noteq> [] \<and> list_all (\<lambda>c. plain c \<and> c \<noteq> 0) w"

primrec tok_ok :: "token \<Rightarrow> bool" where
  "tok_ok (Word w) = word_ok w"
| "tok_ok (Sym c) = (c \<in> set symbols)"
| "tok_ok App = True"

definition enc :: "token list \<Rightarrow> byte list" where
  "enc ts = concat (map (\<lambda>t. bytes t @ [32]) ts)"

lemma enc_simps [simp]: "enc [] = []" "enc (t # ts) = bytes t @ 32 # enc ts" "enc (ts @ us) = enc ts @ enc us"
  by (simp_all add: enc_def)

lemma space_ws [simp]: "is_ws 32"
  by (simp add: is_ws_def whitespace_def str_def chr_def)

lemma sym_facts:
  "c \<in> set symbols \<Longrightarrow> \<not> is_ws c \<and> c \<noteq> 0"
  by (auto simp: is_ws_def symbols_def whitespace_def str_def chr_def)

lemma tok_head:
  assumes "tok_ok t"
  shows "bytes t \<noteq> []" "\<not> is_ws (hd (bytes t))" "hd (bytes t) \<noteq> 0"
proof -
  have "62 \<in> set symbols" by (simp add: symbols_def str_def chr_def)
  then show "bytes t \<noteq> []" "\<not> is_ws (hd (bytes t))" "hd (bytes t) \<noteq> 0"
    using assms by (cases t; auto simp: word_ok_def plain_def sym_facts str_def chr_def list_all_iff)+
qed

lemma skip_ws_at:
  assumes "drop p b = enc ts" "list_all tok_ok ts"
  shows "skip_ws b p = p"
proof (cases ts)
  case (Cons t us)
  then obtain x xs where "bytes t = x # xs" "\<not> is_ws x" using tok_head [of t] assms(2) by (cases "bytes t") auto
  then show ?thesis using assms(1) Cons by (simp add: skip_ws_def)
qed (use assms in \<open>simp add: skip_ws_def\<close>)

lemma drop_more: "drop p b = xs @ ys \<Longrightarrow> drop (p + length xs) b = ys"
  by (metis add.commute append_eq_conv_conj drop_drop)

lemma char_at_drop: "drop p b = x # xs \<Longrightarrow> char_at b p = x"
  by (metis char_at_def drop_eq_Nil2 hd_drop_conv_nth linorder_not_le list.distinct(1) list.sel(1))

lemma char_at_drop_Nil: "drop p b = [] \<Longrightarrow> char_at b p = 0"
  by (simp add: char_at_def)

lemma skip_after:
  assumes "drop p b = 32 # enc ts" "list_all tok_ok ts"
  shows "skip_ws b p = p + 1" "drop (p + 1) b = enc ts"
proof -
  show d: "drop (p + 1) b = enc ts" using drop_more [of p b "[32]" "enc ts"] assms(1) by simp
  have "takeWhile is_ws (drop p b) = 32 # takeWhile is_ws (drop (p + 1) b)" using assms(1) d by simp
  moreover have "takeWhile is_ws (drop (p + 1) b) = []"
    using skip_ws_at [OF d assms(2)] by (simp add: skip_ws_def)
  ultimately show "skip_ws b p = p + 1" by (simp add: skip_ws_def)
qed

lemma peek_at:
  assumes "drop p b = enc ts" "list_all tok_ok ts"
  shows "peek_tok b p toks = (ts \<noteq> [] \<and> hd (bytes (hd ts)) \<in> set toks, p)"
proof (cases ts)
  case Nil
  then show ?thesis using assms skip_ws_at [OF assms] by (simp add: peek_tok_def char_at_drop_Nil)
next
  case (Cons t us)
  then obtain x xs where x: "bytes t = x # xs" "x \<noteq> 0" using tok_head [of t] assms(2) by (cases "bytes t") auto
  then have "char_at b p = x" using assms(1) Cons by (intro char_at_drop) auto
  then show ?thesis using x Cons skip_ws_at [OF assms] by (simp add: peek_tok_def)
qed

lemma get_at:
  assumes "drop p b = enc (t # ts)" "list_all tok_ok (t # ts)"
  shows "gettoken b p = (code t, (p, p + length (bytes t)), p + length (bytes t) + 1)"
    and "drop (p + length (bytes t) + 1) b = enc ts"
    and "text_of b (p, p + length (bytes t)) = bytes t"
proof -
  have s: "skip_ws b p = p" by (rule skip_ws_at [OF assms])
  let ?e = "p + length (bytes t)"
  have d: "drop ?e b = 32 # enc ts" using assms(1) by (intro drop_more) simp
  note a = skip_after [OF d]
  show "drop (?e + 1) b = enc ts" using a(2) assms(2) by simp
  show "text_of b (p, ?e) = bytes t" using assms(1) by (simp add: text_of_def)
  obtain x xs where x: "bytes t = x # xs" "x \<noteq> 0" "\<not> is_ws x" using tok_head [of t] assms(2) by (cases "bytes t") auto
  have c: "char_at b p = x" using assms(1) x by (intro char_at_drop) auto
  have k: "skip_ws b ?e = ?e + 1" using a(1) assms(2) by simp
  show "gettoken b p = (code t, (p, ?e), ?e + 1)"
  proof (cases t)
    case (Word w)
    then have w: "list_all (\<lambda>c. plain c \<and> c \<noteq> 0) w" "w = x # xs" using assms(2) x by (auto simp: word_ok_def)
    have "takeWhile plain (drop p b) = w"
    proof -
      have "drop p b = w @ 32 # enc ts" using assms(1) Word by simp
      moreover have "\<not> plain 32" by (simp add: plain_def)
      ultimately show ?thesis using w(1) by (simp add: takeWhile_append2 list_all_iff)
    qed
    then have we: "word_end b p = ?e" using Word by (simp add: word_end_def)
    have "plain x" using w by simp
    then have "x \<notin> set symbols" by (simp add: plain_def is_sym_def)
    then have "x \<notin> set (str ''|();&<'')" "x \<noteq> chr CHR ''>''" by (auto simp: symbols_def str_def chr_def)
    then show ?thesis using c x k we Word s by (simp add: gettoken_def)
  next
    case (Sym y)
    then have y: "y = x" "xs = []" "x \<in> set symbols" using x assms(2) by auto
    have n: "char_at b (p + 1) = 32" using d x y Sym by (intro char_at_drop) simp
    have "x \<in> set (str ''|();&<'') \<or> x = chr CHR ''>''" using y(3) symbols_cases by (simp add: is_sym_def)
    then show ?thesis using c x k n Sym y s by (auto simp: gettoken_def chr_def str_def)
  next
    case App
    then have y: "x = chr CHR ''>''" "xs = [chr CHR ''>'']" using x by (auto simp: str_def chr_def)
    have n: "char_at b (p + 1) = chr CHR ''>''"
    proof (rule char_at_drop)
      have "drop p b = [chr CHR ''>''] @ chr CHR ''>'' # 32 # enc ts" using assms(1) App by (simp add: str_def chr_def)
      from drop_more [OF this] show "drop (p + 1) b = chr CHR ''>'' # 32 # enc ts" by simp
    qed
    have "length (bytes t) = 2" using App by (simp add: str_def)
    then show ?thesis using c x k n App y s by (auto simp: gettoken_def chr_def str_def)
  qed
qed

section \<open>The printer\<close>

definition sym :: "char \<Rightarrow> token" where "sym c = Sym (chr c)"

definition redir_kind :: "u32 \<Rightarrow> nat \<Rightarrow> token option" where
  "redir_kind mode fd =
     (if mode = O_RDONLY \<and> fd = 0 then Some (sym CHR ''<'')
      else if mode = O_WRONLY OR O_CREATE OR O_TRUNC \<and> fd = 1 then Some (sym CHR ''>'')
      else if mode = O_WRONLY OR O_CREATE \<and> fd = 1 then Some App
      else None)"

type_synonym wredir = "byte list \<times> u32 \<times> nat"

definition redir_toks :: "wredir \<Rightarrow> token list" where
  "redir_toks r = (case r of (f, mode, fd) \<Rightarrow> [the (redir_kind mode fd), Word f])"

definition redirs_toks :: "wredir list \<Rightarrow> token list" where
  "redirs_toks rs = concat (map redir_toks rs)"

definition paren :: "bool \<Rightarrow> token list \<Rightarrow> token list" where
  "paren c ts = (if c then sym CHR ''('' # ts @ [sym CHR '')''] else ts)"

text \<open>Printing for a context: 3 inside a redirection or left of a bar, 2 right of a bar, 1 before an ampersand or a semicolon, 0 a line.\<close>

primrec shw :: "byte list cmd \<Rightarrow> nat \<Rightarrow> token list" where
  "shw (EXEC args) = (\<lambda>k. map Word args)"
| "shw (REDIR c f mode fd) = (\<lambda>k. shw c 3 @ redir_toks (f, mode, fd))"
| "shw (PIPE l r) = (\<lambda>k. paren (k > 2) (shw l 3 @ sym CHR ''|'' # shw r 2))"
| "shw (BACK c) = (\<lambda>k. paren (k > 1) (shw c 1 @ [sym CHR ''&'']))"
| "shw (LIST l r) = (\<lambda>k. paren (k > 0) (shw l 1 @ sym CHR '';'' # shw r 0))"

definition print_cmd :: "byte list cmd \<Rightarrow> byte list" where
  "print_cmd c = enc (shw c 0)"

text \<open>The commands the shell can express: words without white space and symbols, at most nine arguments, three kinds of redirection.\<close>

primrec cmd_wf :: "byte list cmd \<Rightarrow> bool" where
  "cmd_wf (EXEC args) \<longleftrightarrow> length args < MAXARGS \<and> list_all word_ok args"
| "cmd_wf (REDIR c f mode fd) \<longleftrightarrow> cmd_wf c \<and> word_ok f \<and> redir_kind mode fd \<noteq> None"
| "cmd_wf (PIPE l r) \<longleftrightarrow> cmd_wf l \<and> cmd_wf r"
| "cmd_wf (LIST l r) \<longleftrightarrow> cmd_wf l \<and> cmd_wf r"
| "cmd_wf (BACK c) \<longleftrightarrow> cmd_wf c"

definition wredir_ok :: "wredir \<Rightarrow> bool" where
  "wredir_ok r \<longleftrightarrow> word_ok (fst r) \<and> redir_kind (fst (snd r)) (snd (snd r)) \<noteq> None"

lemma redir_kind_ok:
  assumes "redir_kind mode fd = Some t"
  shows "tok_ok t" "hd (bytes t) \<in> set (str ''<>'')" "code t \<noteq> 0" "redir_of (code t) f = (f, mode, fd)"
  using assms
  by (auto simp: redir_kind_def sym_def symbols_def str_def chr_def redir_of_def split: if_splits)

lemma redirs_toks_simps [simp]:
  "redirs_toks [] = []" "redirs_toks (r # rs) = redir_toks r @ redirs_toks rs"
  by (simp_all add: redirs_toks_def)

lemma redir_toks_ok: "wredir_ok r \<Longrightarrow> list_all tok_ok (redir_toks r)"
  by (auto simp: wredir_ok_def redir_toks_def redir_kind_ok(1) split: prod.split)

lemma redirs_toks_ok: "list_all wredir_ok rs \<Longrightarrow> list_all tok_ok (redirs_toks rs)"
  by (induction rs) (simp_all add: redir_toks_ok)

lemma sym_ok [simp]:
  "tok_ok (sym CHR ''('')" "tok_ok (sym CHR '')'')" "tok_ok (sym CHR ''|'')" "tok_ok (sym CHR ''&'')" "tok_ok (sym CHR '';'')"
  by (simp_all add: sym_def symbols_def str_def chr_def)

lemma shw_ok: "cmd_wf c \<Longrightarrow> list_all tok_ok (shw c k)"
proof (induction c arbitrary: k)
  case (EXEC args)
  then show ?case by (simp add: list_all_iff)
next
  case (REDIR c f mode fd)
  then show ?case using redir_toks_ok [of "(f, mode, fd)"] by (simp add: wredir_ok_def)
qed (simp_all add: paren_def)

section \<open>Parsing what was printed\<close>

text \<open>Whether the rest begins with one of the given characters, or is empty.\<close>

definition follow :: "string \<Rightarrow> token list \<Rightarrow> bool" where
  "follow cs ts \<longleftrightarrow> ts = [] \<or> (\<exists>c\<in>set cs. hd ts = sym c)"

definition texts :: "byte list \<Rightarrow> redir list \<Rightarrow> wredir list" where
  "texts b rs = map (\<lambda>(f, mode, fd). (text_of b f, mode, fd)) rs"

definition wwrap :: "wredir list \<Rightarrow> byte list cmd \<Rightarrow> byte list cmd" where
  "wwrap rs c = fold (\<lambda>(f, mode, fd) c. REDIR c f mode fd) rs c"

lemma map_wrap: "map_cmd (text_of b) (wrap rs c) = wwrap (texts b rs) (map_cmd (text_of b) c)"
  unfolding wrap_def wwrap_def texts_def by (induction rs arbitrary: c) auto

lemma no_peek:
  assumes "drop p b = enc ts" "list_all tok_ok ts" "follow cs ts" "\<forall>c\<in>set cs. chr c \<notin> set toks"
  shows "peek_tok b p toks = (False, p)"
  using assms(3,4) by (simp add: peek_at [OF assms(1,2)]) (auto simp: follow_def sym_def)

lemma do_peek:
  assumes "drop p b = enc (sym c # ts)" "list_all tok_ok (sym c # ts)" "chr c \<in> set toks"
  shows "peek_tok b p toks = (True, p)"
  using assms(3) by (simp add: peek_at [OF assms(1,2)]) (simp add: sym_def)

lemma skip_at:
  assumes "drop p b = enc (sym c # ts)" "list_all tok_ok (sym c # ts)"
  shows "drop (skip_token b p) b = enc ts"
  using get_at [OF assms] by (simp add: skip_token_def)

lemma parseredirs_at:
  "drop p b = enc (redirs_toks rs @ ts) \<Longrightarrow> list_all wredir_ok rs \<Longrightarrow> list_all tok_ok ts \<Longrightarrow>
   ts = [] \<or> hd (bytes (hd ts)) \<notin> set (str ''<>'') \<Longrightarrow>
   \<exists>rs' p'. parseredirs b acc p = Inr (acc @ rs', p') \<and> texts b rs' = rs \<and> drop p' b = enc ts"
proof (induction rs arbitrary: acc p)
  case Nil
  then have "peek_tok b p (str ''<>'') = (False, p)" using peek_at [of p b ts] by simp
  then show ?case using Nil by (intro exI [of _ "[]"] exI [of _ p]) (simp add: parseredirs.simps [of b acc p] texts_def)
next
  case (Cons r rs)
  obtain f mode fd where r: "r = (f, mode, fd)" by (cases r)
  obtain t where t: "redir_kind mode fd = Some t" and f: "word_ok f" using Cons.prems(2) r by (auto simp: wredir_ok_def)
  note k = redir_kind_ok [OF t]
  let ?rest = "redirs_toks rs @ ts"
  have ok: "list_all tok_ok ?rest" using Cons.prems(2,3) redirs_toks_ok by simp
  have d: "drop p b = enc (t # Word f # ?rest)" using Cons.prems(1) r t by (simp add: redir_toks_def)
  have ok2: "list_all tok_ok (t # Word f # ?rest)" "list_all tok_ok (Word f # ?rest)" using ok k(1) f by simp_all
  have pk: "peek_tok b p (str ''<>'') = (True, p)" using peek_at [OF d ok2(1)] k(2) by simp
  note g1 = get_at [OF d ok2(1)]
  let ?p2 = "p + length (bytes t) + 1"
  note g2 = get_at [OF g1(2) ok2(2)]
  let ?s = "(?p2, ?p2 + length (bytes (Word f)))"
  have rsok: "list_all wredir_ok rs" using Cons.prems(2) by simp
  obtain rs' p' where ih: "parseredirs b (acc @ [redir_of (code t) ?s]) (?p2 + length (bytes (Word f)) + 1) =
      Inr ((acc @ [redir_of (code t) ?s]) @ rs', p')" "texts b rs' = rs" "drop p' b = enc ts"
    using Cons.IH [OF g2(2) rsok Cons.prems(3,4), of "acc @ [redir_of (code t) ?s]"] by blast
  have "parseredirs b acc p = Inr (acc @ (?s, mode, fd) # rs', p')"
    using pk g1(1) g2(1) ih(1) k(4) by (subst parseredirs.simps) simp
  moreover have "texts b ((?s, mode, fd) # rs') = r # rs" using g2(3) ih(2) r by (simp add: texts_def)
  ultimately show ?case using ih(3) by blast
qed

lemma parseredirs_none:
  assumes "drop p b = enc ts" "list_all tok_ok ts" "ts = [] \<or> hd (bytes (hd ts)) \<notin> set (str ''<>'')"
  shows "parseredirs b acc p = Inr (acc, p)"
  using peek_at [OF assms(1,2)] assms(3) by (subst parseredirs.simps) auto

lemma word_no_sym: "word_ok w \<Longrightarrow> set cs \<subseteq> set symbols \<Longrightarrow> hd w \<notin> set cs"
  by (cases w) (auto simp: word_ok_def plain_def is_sym_def)

lemma exec_loop_at:
  "drop p b = enc (map Word ws @ redirs_toks rs @ ts) \<Longrightarrow> list_all word_ok ws \<Longrightarrow> list_all wredir_ok rs \<Longrightarrow>
   list_all tok_ok ts \<Longrightarrow> follow ''|)&;'' ts \<Longrightarrow> (ws = [] \<longrightarrow> rs = []) \<Longrightarrow> length acc + length ws < MAXARGS \<Longrightarrow>
   \<exists>as rs' p'. exec_loop b acc racc p = Inr (acc @ as, racc @ rs', p') \<and> map (text_of b) as = ws \<and> texts b rs' = rs
     \<and> drop p' b = enc ts"
proof (induction ws arbitrary: acc racc p rs)
  case Nil
  then have d: "drop p b = enc ts" by simp
  have "exec_loop b acc racc p = Inr (acc, racc, p) \<or> exec_loop b acc racc p = Inr (acc, racc, skip_ws b (skip_ws b p)) \<and> ts = []"
  proof (cases ts)
    case Nil
    have "skip_ws b p = p" using skip_ws_at [of p b "[]"] d Nil by simp
    moreover have "char_at b p = 0" using d Nil by (simp add: char_at_drop_Nil)
    moreover have "peek_tok b p (str ''|)&;'') = (False, p)" using peek_at [of p b "[]"] d Nil by simp
    ultimately show ?thesis using Nil by (subst exec_loop.simps) (simp add: gettoken_def)
  next
    case (Cons t us)
    then have "peek_tok b p (str ''|)&;'') = (True, p)"
      using peek_at [OF d] Nil.prems(4,5) by (auto simp: follow_def sym_def str_def chr_def)
    then show ?thesis by (subst exec_loop.simps) simp
  qed
  moreover have "skip_ws b (skip_ws b p) = p" if "ts = []" using skip_ws_at [of p b "[]"] d that by simp
  ultimately have "exec_loop b acc racc p = Inr (acc @ [], racc @ [], p)" by auto
  then show ?case using d Nil.prems(6) by (metis list.simps(8) texts_def)
next
  case (Cons w ws)
  let ?rest = "map Word ws @ redirs_toks rs @ ts"
  have "list_all tok_ok (map Word ws)" using Cons.prems(2) by (simp add: list_all_iff)
  then have ok: "list_all tok_ok ?rest" using Cons.prems(3,4) redirs_toks_ok by simp
  have d: "drop p b = enc (Word w # ?rest)" and ok2: "list_all tok_ok (Word w # ?rest)" using Cons.prems ok by simp_all
  have "hd w \<notin> set (str ''|)&;'')" using Cons.prems(2) by (intro word_no_sym) (auto simp: str_def symbols_def chr_def)
  then have pk: "peek_tok b p (str ''|)&;'') = (False, p)" using peek_at [OF d ok2] by simp
  note g = get_at [OF d ok2]
  let ?s = "(p, p + length (bytes (Word w)))" and ?p2 = "p + length (bytes (Word w)) + 1"
  have nf: "us = [] \<or> hd (bytes (hd us)) \<notin> set (str ''<>'')" if "us = ts \<or> us = map Word (v # vs) @ us' \<and> word_ok v" for us v vs us'
  proof -
    have "hd (bytes (hd ts)) \<notin> set (str ''<>'')" if "ts \<noteq> []"
      using Cons.prems(5) that by (auto simp: follow_def sym_def str_def chr_def)
    moreover have "word_ok v \<Longrightarrow> hd v \<notin> set (str ''<>'')" by (rule word_no_sym) (auto simp: str_def symbols_def chr_def)
    ultimately show ?thesis using that by auto
  qed
  obtain rs1 rs2 p3 where pr: "parseredirs b racc ?p2 = Inr (racc @ rs1, p3)" and tr: "texts b rs1 @ rs2 = rs"
    and d3: "drop p3 b = enc (map Word ws @ redirs_toks rs2 @ ts)" and e: "ws = [] \<longrightarrow> rs2 = []"
  proof (cases ws)
    case Nil
    have "drop ?p2 b = enc (redirs_toks rs @ ts)" using g(2) Nil by simp
    from parseredirs_at [OF this Cons.prems(3,4) nf] obtain rs' p' where
      "parseredirs b racc ?p2 = Inr (racc @ rs', p')" "texts b rs' = rs" "drop p' b = enc ts" by blast
    then show ?thesis using that [of rs' p' "[]"] Nil by simp
  next
    case (Cons v vs)
    have "parseredirs b racc ?p2 = Inr (racc, ?p2)"
      by (rule parseredirs_none [OF g(2) ok], rule nf [of _ v vs "redirs_toks rs @ ts"]) (use Cons Cons.prems(2) in simp)
    then show ?thesis using that [of "[]" ?p2 rs] Cons g(2) by (simp add: texts_def)
  qed
  have l: "length (acc @ [?s]) + length ws < MAXARGS" and wok: "list_all word_ok ws" using Cons.prems(2,7) by simp_all
  have rok: "list_all wredir_ok rs2" using Cons.prems(3) tr by auto
  obtain as rs' p' where ih: "exec_loop b (acc @ [?s]) (racc @ rs1) p3 = Inr ((acc @ [?s]) @ as, (racc @ rs1) @ rs', p')"
    "map (text_of b) as = ws" "texts b rs' = rs2" "drop p' b = enc ts"
    using Cons.IH [OF d3 wok rok Cons.prems(4,5) e l, of "racc @ rs1"] by blast
  have "exec_loop b acc racc p = Inr (acc @ ?s # as, racc @ (rs1 @ rs'), p')"
    using exec_loop_step [OF pk g(1)] pr ih(1) Cons.prems(7) by (simp add: chr_def)
  moreover have "map (text_of b) (?s # as) = w # ws" using g(3) ih(2) by simp
  moreover have "texts b (rs1 @ rs') = rs" using tr ih(3) by (simp add: texts_def)
  ultimately show ?case using ih(4) by (intro exI conjI)
qed

section \<open>The levels of the grammar\<close>

text \<open>
  For a command \<open>c\<close>: the text of \<open>c\<close> in each context, followed by what may follow it there, is parsed by the
  function of that level, with enough fuel, to a command with the words of \<open>c\<close>. At the innermost level
  further redirections may follow, before an ampersand any number of ampersands.
\<close>

definition rt_exec :: "byte list cmd \<Rightarrow> bool" where
  "rt_exec c \<longleftrightarrow> (\<forall>b p rs ts. drop p b = enc (shw c 3 @ redirs_toks rs @ ts) \<longrightarrow> list_all wredir_ok rs \<longrightarrow>
     list_all tok_ok ts \<longrightarrow> follow ''|)&;'' ts \<longrightarrow>
     (\<exists>c' p' N. (\<forall>n\<ge>N. parseexec n b p = Inr (c', p')) \<and> drop p' b = enc ts \<and> map_cmd (text_of b) c' = wwrap rs c))"

definition rt_pipe :: "byte list cmd \<Rightarrow> bool" where
  "rt_pipe c \<longleftrightarrow> (\<forall>b p ts. drop p b = enc (shw c 2 @ ts) \<longrightarrow> list_all tok_ok ts \<longrightarrow> follow '')&;'' ts \<longrightarrow>
     (\<exists>c' p' N. (\<forall>n\<ge>N. parsepipe n b p = Inr (c', p')) \<and> drop p' b = enc ts \<and> map_cmd (text_of b) c' = c))"

definition rt_back :: "byte list cmd \<Rightarrow> bool" where
  "rt_back c \<longleftrightarrow> (\<forall>b p j ts. drop p b = enc (shw c 1 @ replicate j (sym CHR ''&'') @ ts) \<longrightarrow> list_all tok_ok ts \<longrightarrow>
     follow '');'' ts \<longrightarrow>
     (\<exists>c1 p1 c' p' N. (\<forall>n\<ge>N. parsepipe n b p = Inr (c1, p1)) \<and> back_loop b c1 p1 = (c', p') \<and> drop p' b = enc ts
        \<and> map_cmd (text_of b) c' = (BACK ^^ j) c))"

definition rt_line :: "byte list cmd \<Rightarrow> bool" where
  "rt_line c \<longleftrightarrow> (\<forall>b p ts. drop p b = enc (shw c 0 @ ts) \<longrightarrow> list_all tok_ok ts \<longrightarrow> follow '')'' ts \<longrightarrow>
     (\<exists>c' p' N. (\<forall>n\<ge>N. parseline n b p = Inr (c', p')) \<and> drop p' b = enc ts \<and> map_cmd (text_of b) c' = c))"

declare parseline.simps [simp del] parsepipe.simps [simp del] parseexec.simps [simp del] parseblock.simps [simp del]

lemma follow_mono: "follow cs ts \<Longrightarrow> set cs \<subseteq> set ds \<Longrightarrow> follow ds ts"
  by (auto simp: follow_def)

lemma Suc_fuel: "\<forall>n\<ge>N. P (Suc n) \<Longrightarrow> \<forall>n\<ge>Suc N. P n"
  by (metis Suc_le_D Suc_le_mono)

lemma rt_pipe_of_exec:
  assumes "rt_exec c" "cmd_wf c" "shw c 2 = shw c 3"
  shows "rt_pipe c"
  unfolding rt_pipe_def
proof (intro allI impI)
  fix b p ts assume d: "drop p b = enc (shw c 2 @ ts)" and ok: "list_all tok_ok ts" and f: "follow '')&;'' ts"
  obtain c' p' N where e: "\<forall>n\<ge>N. parseexec n b p = Inr (c', p')" "drop p' b = enc ts" "map_cmd (text_of b) c' = c"
    using assms(1) [unfolded rt_exec_def, rule_format, of p b "[]" ts] d ok assms(3) follow_mono [OF f, of "''|)&;''"]
    by (auto simp: wwrap_def)
  have "peek_tok b p' (str ''|'') = (False, p')"
    by (rule no_peek [OF e(2) ok f]) (simp add: str_def chr_def)
  then have "\<forall>n\<ge>Suc N. parsepipe n b p = Inr (c', p')" using e(1) by (intro Suc_fuel) (simp add: parsepipe.simps)
  then show "\<exists>c' p' N. (\<forall>n\<ge>N. parsepipe n b p = Inr (c', p')) \<and> drop p' b = enc ts \<and> map_cmd (text_of b) c' = c"
    using e by blast
qed

lemma back_loop_at:
  "drop p b = enc (replicate j (sym CHR ''&'') @ ts) \<Longrightarrow> list_all tok_ok ts \<Longrightarrow> follow '');'' ts \<Longrightarrow>
   \<exists>p'. back_loop b c p = ((BACK ^^ j) c, p') \<and> drop p' b = enc ts"
proof (induction j arbitrary: p c)
  case 0
  then have "peek_tok b p (str ''&'') = (False, p)" by (intro no_peek [of p b ts "'');''"]) (auto simp: str_def chr_def)
  then show ?case using 0 by (subst back_loop.simps) simp
next
  case (Suc j)
  let ?ts = "replicate j (sym CHR ''&'') @ ts"
  have d: "drop p b = enc (sym CHR ''&'' # ?ts)" and ok: "list_all tok_ok (sym CHR ''&'' # ?ts)"
    using Suc.prems by (auto simp: list_all_iff)
  have pk: "peek_tok b p (str ''&'') = (True, p)" by (rule do_peek [OF d ok]) (simp add: str_def chr_def)
  note g = get_at [OF d ok]
  obtain p' where "back_loop b (BACK c) (p + length (bytes (sym CHR ''&'')) + 1) = ((BACK ^^ j) (BACK c), p')" "drop p' b = enc ts"
    using Suc.IH [OF g(2) Suc.prems(2,3)] by blast
  then show ?case using pk g(1) by (subst back_loop.simps) (simp add: funpow_swap1)
qed

lemma rt_back_of_pipe:
  assumes "rt_pipe c" "shw c 1 = shw c 2"
  shows "rt_back c"
  unfolding rt_back_def
proof (intro allI impI)
  fix b p j ts
  assume d: "drop p b = enc (shw c 1 @ replicate j (sym CHR ''&'') @ ts)" and ok: "list_all tok_ok ts" and f: "follow '');'' ts"
  let ?ts = "replicate j (sym CHR ''&'') @ ts"
  have ok': "list_all tok_ok ?ts" using ok by (auto simp: list_all_iff)
  have f': "follow '')&;'' ?ts" using f by (cases j) (auto simp: follow_def)
  obtain c1 p1 N where e: "\<forall>n\<ge>N. parsepipe n b p = Inr (c1, p1)" "drop p1 b = enc ?ts" "map_cmd (text_of b) c1 = c"
    using assms(1) [unfolded rt_pipe_def, rule_format, of p b ?ts] d ok' f' assms(2) by auto
  obtain p' where "back_loop b c1 p1 = ((BACK ^^ j) c1, p')" "drop p' b = enc ts" using back_loop_at [OF e(2) ok f] by blast
  moreover have "map_cmd (text_of b) ((BACK ^^ j) c1) = (BACK ^^ j) c" using e(3) by (induction j) simp_all
  ultimately show "\<exists>c1 p1 c' p' N. (\<forall>n\<ge>N. parsepipe n b p = Inr (c1, p1)) \<and> back_loop b c1 p1 = (c', p') \<and>
      drop p' b = enc ts \<and> map_cmd (text_of b) c' = (BACK ^^ j) c"
    using e(1) by blast
qed

lemma rt_line_of_back:
  assumes "rt_back c" "shw c 0 = shw c 1"
  shows "rt_line c"
  unfolding rt_line_def
proof (intro allI impI)
  fix b p ts assume d: "drop p b = enc (shw c 0 @ ts)" and ok: "list_all tok_ok ts" and f: "follow '')'' ts"
  obtain c1 p1 c' p' N where e: "\<forall>n\<ge>N. parsepipe n b p = Inr (c1, p1)" "back_loop b c1 p1 = (c', p')" "drop p' b = enc ts"
    "map_cmd (text_of b) c' = c"
    using assms(1) [unfolded rt_back_def, rule_format, of p b 0 ts] d ok assms(2) follow_mono [OF f, of "'');''"] by auto
  have "peek_tok b p' (str '';'') = (False, p')" by (rule no_peek [OF e(3) ok f]) (simp add: str_def chr_def)
  then have "\<forall>n\<ge>Suc N. parseline n b p = Inr (c', p')" using e(1,2) by (intro Suc_fuel) (simp add: parseline.simps)
  then show "\<exists>c' p' N. (\<forall>n\<ge>N. parseline n b p = Inr (c', p')) \<and> drop p' b = enc ts \<and> map_cmd (text_of b) c' = c"
    using e by blast
qed

lemma rt_exec_of_line:
  assumes "rt_line c" "cmd_wf c" "shw c 3 = sym CHR ''('' # shw c 0 @ [sym CHR '')'']"
  shows "rt_exec c"
  unfolding rt_exec_def
proof (intro allI impI)
  fix b p rs ts
  assume d: "drop p b = enc (shw c 3 @ redirs_toks rs @ ts)" and rs: "list_all wredir_ok rs"
    and ok: "list_all tok_ok ts" and f: "follow ''|)&;'' ts"
  let ?t1 = "redirs_toks rs @ ts" and ?t2 = "sym CHR '')'' # redirs_toks rs @ ts"
  have ok1: "list_all tok_ok ?t1" "list_all tok_ok ?t2" using ok rs redirs_toks_ok by simp_all
  have d0: "drop p b = enc (sym CHR ''('' # shw c 0 @ ?t2)" and ok0: "list_all tok_ok (sym CHR ''('' # shw c 0 @ ?t2)"
    using d assms(3) ok1 shw_ok [OF assms(2)] by simp_all
  have pk: "peek_tok b p (str ''('') = (True, p)" by (rule do_peek [OF d0 ok0]) (simp add: str_def chr_def)
  have fl: "follow '')'' ?t2" by (simp add: follow_def)
  obtain c1 p1 N where e: "\<forall>n\<ge>N. parseline n b (skip_token b p) = Inr (c1, p1)" "drop p1 b = enc ?t2" "map_cmd (text_of b) c1 = c"
    using assms(1) [unfolded rt_line_def, rule_format, OF skip_at [OF d0 ok0] ok1(2) fl] by blast
  have pk2: "peek_tok b p1 (str '')'') = (True, p1)" by (rule do_peek [OF e(2) ok1(2)]) (simp add: str_def chr_def)
  have nr: "ts = [] \<or> hd (bytes (hd ts)) \<notin> set (str ''<>'')"
    using f by (auto simp: follow_def sym_def str_def chr_def)
  obtain rs' p' where r: "parseredirs b [] (skip_token b p1) = Inr ([] @ rs', p')" "texts b rs' = rs" "drop p' b = enc ts"
    using parseredirs_at [OF skip_at [OF e(2) ok1(2)] rs ok nr] by blast
  have "\<forall>n\<ge>Suc N. parseblock n b p = Inr (wrap rs' c1, p')" using e(1) pk pk2 r(1) by (intro Suc_fuel) (simp add: parseblock.simps)
  then have "\<forall>n\<ge>Suc (Suc N). parseexec n b p = Inr (wrap rs' c1, p')" using pk by (intro Suc_fuel) (simp add: parseexec.simps)
  moreover have "map_cmd (text_of b) (wrap rs' c1) = wwrap rs c" using e(3) r(2) by (simp add: map_wrap)
  ultimately show "\<exists>c' p' N. (\<forall>n\<ge>N. parseexec n b p = Inr (c', p')) \<and> drop p' b = enc ts \<and>
      map_cmd (text_of b) c' = wwrap rs c"
    using r(3) by blast
qed

lemma rt_exec_EXEC:
  assumes "cmd_wf (EXEC ws)"
  shows "rt_exec (EXEC ws)"
  unfolding rt_exec_def
proof (intro allI impI)
  fix b p rs ts
  assume d: "drop p b = enc (shw (EXEC ws) 3 @ redirs_toks rs @ ts)" and rs: "list_all wredir_ok rs"
    and ok: "list_all tok_ok ts" and f: "follow ''|)&;'' ts"
  let ?all = "map Word ws @ redirs_toks rs @ ts"
  have w: "list_all word_ok ws" "length ws < MAXARGS" using assms by simp_all
  have "list_all tok_ok (map Word ws)" using w(1) by (simp add: list_all_iff)
  then have oka: "list_all tok_ok ?all" using rs ok redirs_toks_ok by simp
  have da: "drop p b = enc ?all" using d by simp
  have nr: "ts = [] \<or> hd (bytes (hd ts)) \<notin> set (str ''<>'')"
    using f by (auto simp: follow_def sym_def str_def chr_def)
  have np: "peek_tok b p (str ''('') = (False, p)"
  proof (cases ws)
    case (Cons v vs)
    have "word_ok v" using w(1) Cons by simp
    then have "hd v \<notin> set (str ''('')" by (rule word_no_sym) (auto simp: str_def symbols_def chr_def)
    then show ?thesis using peek_at [OF da oka] Cons by simp
  next
    case Nil
    show ?thesis
    proof (cases rs)
      case Nil
      then show ?thesis using \<open>ws = []\<close> da ok f by (intro no_peek [of p b ts "''|)&;''"]) (auto simp: str_def chr_def)
    next
      case (Cons r rs')
      obtain g mode fd where r: "r = (g, mode, fd)" by (cases r)
      then obtain t where t: "redir_kind mode fd = Some t" using rs Cons by (auto simp: wredir_ok_def)
      have "hd (bytes t) \<notin> set (str ''('')" using redir_kind_ok(2) [OF t] by (auto simp: str_def chr_def)
      then show ?thesis using peek_at [OF da oka] \<open>ws = []\<close> Cons r t by (simp add: redir_toks_def)
    qed
  qed
  obtain rs1 rs2 p1 where r1: "parseredirs b [] p = Inr (rs1, p1)" "texts b rs1 @ rs2 = rs"
    "drop p1 b = enc (map Word ws @ redirs_toks rs2 @ ts)" "ws = [] \<longrightarrow> rs2 = []"
  proof (cases ws)
    case Nil
    have "drop p b = enc (redirs_toks rs @ ts)" using da Nil by simp
    from parseredirs_at [OF this rs ok nr, of "[]"] show ?thesis using that [of _ _ "[]"] Nil by auto
  next
    case (Cons v vs)
    have "word_ok v" using w(1) Cons by simp
    then have "hd v \<notin> set (str ''<>'')" by (rule word_no_sym) (auto simp: str_def symbols_def chr_def)
    then have "parseredirs b [] p = Inr ([], p)" using Cons by (intro parseredirs_none [OF da oka]) simp
    then show ?thesis using that [of "[]" p rs] da Cons by (simp add: texts_def)
  qed
  have "list_all wredir_ok rs2" using rs r1(2) by auto
  from exec_loop_at [OF r1(3) w(1) this ok f r1(4), of "[]" rs1]
  obtain as rs' p' where e: "exec_loop b [] rs1 p1 = Inr ([] @ as, rs1 @ rs', p')" "map (text_of b) as = ws"
    "texts b rs' = rs2" "drop p' b = enc ts" using w(2) by auto
  have "\<forall>n\<ge>Suc 0. parseexec n b p = Inr (wrap (rs1 @ rs') (EXEC as), p')"
    using np r1(1) e(1) by (intro Suc_fuel) (simp add: parseexec.simps)
  moreover have "texts b (rs1 @ rs') = rs" using r1(2) e(3) by (simp add: texts_def)
  then have "map_cmd (text_of b) (wrap (rs1 @ rs') (EXEC as)) = wwrap rs (EXEC ws)" using e(2) by (simp add: map_wrap)
  ultimately show "\<exists>c' p' N. (\<forall>n\<ge>N. parseexec n b p = Inr (c', p')) \<and> drop p' b = enc ts \<and>
      map_cmd (text_of b) c' = wwrap rs (EXEC ws)"
    using e(4) by blast
qed

lemma rt_exec_REDIR:
  assumes "rt_exec c" "cmd_wf (REDIR c f mode fd)"
  shows "rt_exec (REDIR c f mode fd)"
  unfolding rt_exec_def
proof (intro allI impI)
  fix b p rs ts
  assume d: "drop p b = enc (shw (REDIR c f mode fd) 3 @ redirs_toks rs @ ts)" and rs: "list_all wredir_ok rs"
    and ok: "list_all tok_ok ts" and fl: "follow ''|)&;'' ts"
  have "drop p b = enc (shw c 3 @ redirs_toks ((f, mode, fd) # rs) @ ts)" using d by simp
  moreover have "list_all wredir_ok ((f, mode, fd) # rs)" using rs assms(2) by (simp add: wredir_ok_def)
  moreover have "wwrap ((f, mode, fd) # rs) c = wwrap rs (REDIR c f mode fd)" by (simp add: wwrap_def)
  ultimately show "\<exists>c' p' N. (\<forall>n\<ge>N. parseexec n b p = Inr (c', p')) \<and> drop p' b = enc ts \<and>
      map_cmd (text_of b) c' = wwrap rs (REDIR c f mode fd)"
    using assms(1) [unfolded rt_exec_def, rule_format, OF _ _ ok fl] by metis
qed

lemma rt_pipe_PIPE:
  assumes "rt_exec l" "rt_pipe r" "cmd_wf l" "cmd_wf r"
  shows "rt_pipe (PIPE l r)"
  unfolding rt_pipe_def
proof (intro allI impI)
  fix b p ts assume d: "drop p b = enc (shw (PIPE l r) 2 @ ts)" and ok: "list_all tok_ok ts" and f: "follow '')&;'' ts"
  let ?t = "sym CHR ''|'' # shw r 2 @ ts"
  have d1: "drop p b = enc (shw l 3 @ redirs_toks [] @ ?t)" using d by (simp add: paren_def)
  have ok1: "list_all tok_ok ?t" using ok shw_ok [OF assms(4)] by simp
  have f1: "follow ''|)&;'' ?t" by (simp add: follow_def)
  obtain c1 p1 N where e: "\<forall>n\<ge>N. parseexec n b p = Inr (c1, p1)" "drop p1 b = enc ?t" "map_cmd (text_of b) c1 = l"
    using assms(1) [unfolded rt_exec_def, rule_format, OF d1 _ ok1 f1] by (auto simp: wwrap_def)
  have pk: "peek_tok b p1 (str ''|'') = (True, p1)" by (rule do_peek [OF e(2) ok1]) (simp add: str_def chr_def)
  obtain c2 p2 M where e2: "\<forall>n\<ge>M. parsepipe n b (skip_token b p1) = Inr (c2, p2)" "drop p2 b = enc ts" "map_cmd (text_of b) c2 = r"
    using assms(2) [unfolded rt_pipe_def, rule_format, OF skip_at [OF e(2) ok1] ok f] by blast
  have "\<forall>n\<ge>Suc (max N M). parsepipe n b p = Inr (PIPE c1 c2, p2)" using e(1) e2(1) pk by (intro Suc_fuel) (simp add: parsepipe.simps)
  then show "\<exists>c' p' N. (\<forall>n\<ge>N. parsepipe n b p = Inr (c', p')) \<and> drop p' b = enc ts \<and> map_cmd (text_of b) c' = PIPE l r"
    using e(3) e2(2,3) by (intro exI conjI) (assumption, simp_all)
qed

lemma rt_back_BACK:
  assumes "rt_back c"
  shows "rt_back (BACK c)"
  unfolding rt_back_def
proof (intro allI impI)
  fix b p j ts
  assume d: "drop p b = enc (shw (BACK c) 1 @ replicate j (sym CHR ''&'') @ ts)" and ok: "list_all tok_ok ts" and f: "follow '');'' ts"
  have "drop p b = enc (shw c 1 @ replicate (Suc j) (sym CHR ''&'') @ ts)" using d by (simp add: paren_def)
  from assms [unfolded rt_back_def, rule_format, OF this ok f]
  show "\<exists>c1 p1 c' p' N. (\<forall>n\<ge>N. parsepipe n b p = Inr (c1, p1)) \<and> back_loop b c1 p1 = (c', p') \<and>
      drop p' b = enc ts \<and> map_cmd (text_of b) c' = (BACK ^^ j) (BACK c)"
    by (simp add: funpow_swap1)
qed

lemma rt_line_LIST:
  assumes "rt_back l" "rt_line r" "cmd_wf l" "cmd_wf r"
  shows "rt_line (LIST l r)"
  unfolding rt_line_def
proof (intro allI impI)
  fix b p ts assume d: "drop p b = enc (shw (LIST l r) 0 @ ts)" and ok: "list_all tok_ok ts" and f: "follow '')'' ts"
  let ?t = "sym CHR '';'' # shw r 0 @ ts"
  have d1: "drop p b = enc (shw l 1 @ replicate 0 (sym CHR ''&'') @ ?t)" using d by (simp add: paren_def)
  have ok1: "list_all tok_ok ?t" using ok shw_ok [OF assms(4)] by simp
  have f1: "follow '');'' ?t" by (simp add: follow_def)
  obtain c0 p0 c1 p1 N where e: "\<forall>n\<ge>N. parsepipe n b p = Inr (c0, p0)" "back_loop b c0 p0 = (c1, p1)" "drop p1 b = enc ?t"
    "map_cmd (text_of b) c1 = l"
    using assms(1) [unfolded rt_back_def, rule_format, OF d1 ok1 f1] by auto
  have pk: "peek_tok b p1 (str '';'') = (True, p1)" by (rule do_peek [OF e(3) ok1]) (simp add: str_def chr_def)
  obtain c2 p2 M where e2: "\<forall>n\<ge>M. parseline n b (skip_token b p1) = Inr (c2, p2)" "drop p2 b = enc ts" "map_cmd (text_of b) c2 = r"
    using assms(2) [unfolded rt_line_def, rule_format, OF skip_at [OF e(3) ok1] ok f] by blast
  have "\<forall>n\<ge>Suc (max N M). parseline n b p = Inr (LIST c1 c2, p2)" using e(1,2) e2(1) pk by (intro Suc_fuel) (simp add: parseline.simps)
  then show "\<exists>c' p' N. (\<forall>n\<ge>N. parseline n b p = Inr (c', p')) \<and> drop p' b = enc ts \<and> map_cmd (text_of b) c' = LIST l r"
    using e(4) e2(2,3) by (intro exI conjI) (assumption, simp_all)
qed

lemma rt_all: "cmd_wf c \<Longrightarrow> rt_exec c \<and> rt_pipe c \<and> rt_back c \<and> rt_line c"
proof (induction c)
  case (EXEC ws)
  from rt_exec_EXEC [OF this] EXEC show ?case
    using rt_pipe_of_exec [of "EXEC ws"] rt_back_of_pipe [of "EXEC ws"] rt_line_of_back [of "EXEC ws"] by simp
next
  case (REDIR c f mode fd)
  let ?c = "REDIR c f mode fd"
  have "rt_exec ?c" using REDIR rt_exec_REDIR by simp
  then show ?case using REDIR.prems rt_pipe_of_exec [of ?c] rt_back_of_pipe [of ?c] rt_line_of_back [of ?c] by simp
next
  case (PIPE l r)
  let ?c = "PIPE l r"
  have "rt_pipe ?c" using PIPE rt_pipe_PIPE by simp
  then show ?case using PIPE.prems rt_back_of_pipe [of ?c] rt_line_of_back [of ?c] rt_exec_of_line [of ?c]
    by (simp add: paren_def)
next
  case (LIST l r)
  let ?c = "LIST l r"
  have "rt_line ?c" using LIST rt_line_LIST by simp
  then show ?case using LIST.prems rt_exec_of_line [of ?c] rt_pipe_of_exec [of ?c] rt_back_of_pipe [of ?c]
    by (simp add: paren_def)
next
  case (BACK c)
  let ?c = "BACK c"
  have "rt_back ?c" using BACK rt_back_BACK by simp
  then show ?case using BACK.prems rt_line_of_back [of ?c] rt_exec_of_line [of ?c] rt_pipe_of_exec [of ?c]
    by (simp add: paren_def)
qed

section \<open>More fuel changes nothing\<close>

lemma parse_more_fuel:
  "parseline n b p \<noteq> Inl NoFuel \<Longrightarrow> parseline (Suc n) b p = parseline n b p"
  "parsepipe n b p \<noteq> Inl NoFuel \<Longrightarrow> parsepipe (Suc n) b p = parsepipe n b p"
  "parseexec n b p \<noteq> Inl NoFuel \<Longrightarrow> parseexec (Suc n) b p = parseexec n b p"
  "parseblock n b p \<noteq> Inl NoFuel \<Longrightarrow> parseblock (Suc n) b p = parseblock n b p"
proof (induction n arbitrary: p)
  case (Suc n)
  note IH = Suc.IH
  {
    case 1
    then have "parsepipe n b p \<noteq> Inl NoFuel" by (auto simp: parseline.simps)
    from IH(2) [OF this] 1 IH(1) show ?case
      by (auto simp: parseline.simps(2) [of "Suc n" b p] parseline.simps(2) [of n b p] split: sum.splits prod.splits bool.splits)
  next
    case 2
    then have "parseexec n b p \<noteq> Inl NoFuel" by (auto simp: parsepipe.simps)
    from IH(3) [OF this] 2 IH(2) show ?case
      by (auto simp: parsepipe.simps(2) [of "Suc n" b p] parsepipe.simps(2) [of n b p] split: sum.splits prod.splits bool.splits)
  next
    case 3
    then show ?case using IH(4) by (auto simp: parseexec.simps(2) split: sum.splits prod.splits bool.splits)
  next
    case 4
    then show ?case using IH(1) by (auto simp: parseblock.simps(2) split: sum.splits prod.splits bool.splits)
  }
qed (auto simp: parseline.simps parsepipe.simps parseexec.simps parseblock.simps)

lemma parseline_fuel: "parseline n b p \<noteq> Inl NoFuel \<Longrightarrow> parseline (n + k) b p = parseline n b p"
  by (induction k) (simp_all add: parse_more_fuel)

section \<open>Round trip\<close>

lemma print_no_nul: "cmd_wf c \<Longrightarrow> 0 \<notin> set (print_cmd c)"
proof -
  assume "cmd_wf c"
  then have "0 \<notin> set (bytes t)" if "t \<in> set (shw c 0)" for t
    using shw_ok [of c 0] that
    by (cases t) (use sym_facts in \<open>fastforce simp: list_all_iff word_ok_def str_def chr_def\<close>)+
  then show ?thesis by (auto simp: print_cmd_def enc_def)
qed

text \<open>
  C22. Printing a command and parsing it gives it back: for every command whose words are non-empty, free of white
  space, symbols and NUL, with at most nine arguments each and one of the three kinds of redirection, the
  parser accepts the printed line, and the argument vectors and file names it leaves in the buffer are
  those of the command.
\<close>

theorem sh_print_parse:
  assumes "cmd_wf c"
  shows "\<exists>c' x. parsecmd (print_cmd c) = Inr (c', x) \<and> map_cmd (\<lambda>f. cstr_at x (fst f)) c' = c"
proof -
  let ?b = "print_cmd c"
  have "drop 0 ?b = enc (shw c 0 @ [])" by (simp add: print_cmd_def)
  then obtain c' p' N where r: "\<forall>n\<ge>N. parseline n ?b 0 = Inr (c', p')" "drop p' ?b = enc []" "map_cmd (text_of ?b) c' = c"
    using rt_all [OF assms] unfolding rt_line_def follow_def by (metis list.pred_inject(1))
  have g: "good ?b 0 (parseline (parse_fuel ?b) ?b 0)"
    by (rule parse_enough_fuel(1)) (simp_all add: parse_fuel_def)
  then have "parseline (parse_fuel ?b + N) ?b 0 = parseline (parse_fuel ?b) ?b 0"
    by (intro parseline_fuel) (simp add: good_def)
  then have p: "parseline (parse_fuel ?b) ?b 0 = Inr (c', p')" using r(1) by (metis le_add2)
  with g have ok: "cmd_ok ?b c'" and le: "p' \<le> length ?b" by (auto simp: good_def)
  have "p' = length ?b" using r(2) le by simp
  then have "peek_tok ?b p' [] = (False, length ?b)" by (simp add: peek_tok_def skip_ws_def)
  then have "parsecmd ?b = Inr (c', nulterminate c' (?b @ [0]))" using p by (simp add: parsecmd_def)
  moreover have "map_cmd (\<lambda>f. cstr_at (nulterminate c' (?b @ [0])) (fst f)) c' = map_cmd (text_of ?b) c'"
  proof (rule cmd.map_cong0)
    fix f assume "f \<in> set_cmd c'"
    moreover have "set_cmd d = set (words d)" for d :: "span cmd" by (induction d) auto
    ultimately show "cstr_at (nulterminate c' (?b @ [0])) (fst f) = text_of ?b f"
      using word_survives [OF ok _ print_no_nul [OF assms]] by simp
  qed
  ultimately show ?thesis using r(3) by simp
qed

theorem sh_print_parse_witness:
  "cmd_wf (LIST (BACK (PIPE (EXEC [str ''cat'', str ''f'']) (EXEC [str ''wc'']))) (REDIR (LIST (EXEC [str ''a'']) (EXEC [])) (str ''o'') O_RDONLY 0))
   \<and> (\<exists>c' x. parsecmd (str ''cat f | wc & ; ( a ; ) < o '') = Inr (c', x) \<and> map_cmd (\<lambda>f. cstr_at x (fst f)) c' =
      LIST (BACK (PIPE (EXEC [str ''cat'', str ''f'']) (EXEC [str ''wc'']))) (REDIR (LIST (EXEC [str ''a'']) (EXEC [])) (str ''o'') O_RDONLY 0))"
proof -
  let ?c = "LIST (BACK (PIPE (EXEC [str ''cat'', str ''f'']) (EXEC [str ''wc'']))) (REDIR (LIST (EXEC [str ''a'']) (EXEC [])) (str ''o'') O_RDONLY 0)"
  have wf: "cmd_wf ?c" by code_simp
  have "print_cmd ?c = str ''cat f | wc & ; ( a ; ) < o ''" by code_simp
  then show ?thesis using sh_print_parse [OF wf] wf by simp
qed

end
