(* ===== verification/ShRun.thy ===== *)
theory ShRun
  imports ShPrint Ulib
begin

text \<open>
  The shell of \<^verbatim>\<open>user/sh.c\<close> as a process: it reads lines, forks, and the child parses the line and becomes the programs the
  command names. The parser is in theory \<open>Sh\<close>. The constructors of commands allocate with \<open>malloc\<close>; here they cannot fail.
\<close>

declare vprintf.simps [simp del]

section \<open>Running a command\<close>

definition sh_panic :: "'w os \<Rightarrow> byte list \<Rightarrow> ('w, 'a) um" where
  "sh_panic os s = ubind (fprintf os 2 (str ''%s\<newline>'') [PStr (Some s)]) (\<lambda>_. uexit 1)"

definition fork1 :: "'w os \<Rightarrow> ('w, int) um" where
  "fork1 os = ubind (ucall (o_fork os)) (\<lambda>pid. if pid = -1 then sh_panic os (str ''fork'') else ureturn pid)"

text \<open>The words of a command are the strings that \<open>nulterminate\<close> leaves in the buffer. \<open>runcmd\<close> never returns.\<close>

primrec runcmd :: "'w os \<Rightarrow> byte list cmd \<Rightarrow> ('w, unit) um" where
  "runcmd os (EXEC argv) =
     (case argv of
        [] \<Rightarrow> uexit 1
      | a # _ \<Rightarrow>
          ubind (uexec os a argv) (\<lambda>_.
          ubind (fprintf os 2 (str ''exec %s failed\<newline>'') [PStr (Some a)]) (\<lambda>_. uexit 0)))"
| "runcmd os (REDIR c file mode fd) =
     ubind (ucall (o_close os (int fd))) (\<lambda>_.
     ubind (ucall (o_open os file mode)) (\<lambda>r.
       if r < 0 then ubind (fprintf os 2 (str ''open %s failed\<newline>'') [PStr (Some file)]) (\<lambda>_. uexit 1)
       else ubind (runcmd os c) (\<lambda>_. uexit 0)))"
| "runcmd os (LIST l r) =
     ubind (fork1 os) (\<lambda>pid.
     ubind (if pid = 0 then runcmd os l else ureturn ()) (\<lambda>_.
     ubind (ucall (o_wait os)) (\<lambda>_.
     ubind (runcmd os r) (\<lambda>_. uexit 0))))"
| "runcmd os (PIPE l r) =
     ubind (ucall (o_pipe os)) (\<lambda>(rc, p0, p1).
       if rc < 0 then sh_panic os (str ''pipe'')
       else
         ubind (fork1 os) (\<lambda>pid.
         ubind (if pid = 0 then
             ubind (ucall (o_close os 1)) (\<lambda>_.
             ubind (ucall (o_dup os p1)) (\<lambda>_.
             ubind (ucall (o_close os p0)) (\<lambda>_.
             ubind (ucall (o_close os p1)) (\<lambda>_. runcmd os l))))
           else ureturn ()) (\<lambda>_.
         ubind (fork1 os) (\<lambda>pid.
         ubind (if pid = 0 then
             ubind (ucall (o_close os 0)) (\<lambda>_.
             ubind (ucall (o_dup os p0)) (\<lambda>_.
             ubind (ucall (o_close os p0)) (\<lambda>_.
             ubind (ucall (o_close os p1)) (\<lambda>_. runcmd os r))))
           else ureturn ()) (\<lambda>_.
         ubind (ucall (o_close os p0)) (\<lambda>_.
         ubind (ucall (o_close os p1)) (\<lambda>_.
         ubind (ucall (o_wait os)) (\<lambda>_.
         ubind (ucall (o_wait os)) (\<lambda>_. uexit 0)))))))))"
| "runcmd os (BACK c) =
     ubind (fork1 os) (\<lambda>pid.
     ubind (if pid = 0 then runcmd os c else ureturn ()) (\<lambda>_. uexit 0))"

section \<open>The main loop\<close>

text \<open>\<open>runcmd(parsecmd(cmd))\<close>, with the messages of the parser's panics.\<close>

definition runline :: "'w os \<Rightarrow> byte list \<Rightarrow> ('w, unit) um" where
  "runline os line =
     (case parsecmd line of
        Inl (PPanic m) \<Rightarrow> sh_panic os (str m)
      | Inl (Leftovers s) \<Rightarrow> ubind (fprintf os 2 (str ''leftovers: %s\<newline>'') [PStr (Some s)]) (\<lambda>_. sh_panic os (str ''syntax''))
      | Inl NoFuel \<Rightarrow> (\<lambda>_. None)
      | Inr (c, x) \<Rightarrow> runcmd os (map_cmd (\<lambda>f. cstr_at x (fst f)) c))"

definition getcmd :: "'w os \<Rightarrow> byte list \<Rightarrow> nat \<Rightarrow> ('w, int \<times> byte list) um" where
  "getcmd os buf nbuf =
     ubind (ucall (o_write os 2 (str ''$ ''))) (\<lambda>_.
     ubind (gets os (replicate nbuf 0 @ drop nbuf buf) nbuf) (\<lambda>b.
       ureturn (if char_at b 0 = 0 then -1 else 0, b)))"

text \<open>One line: \<open>cmd\<close> points past the leading blanks of the buffer.\<close>

definition sh_line :: "'w os \<Rightarrow> byte list \<Rightarrow> ('w, unit) um" where
  "sh_line os buf =
     (let cmd = dropWhile (\<lambda>c. c = chr CHR '' '' \<or> c = 9) buf in
      if char_at cmd 0 = 10 then ureturn ()
      else if char_at cmd 0 = chr CHR ''c'' \<and> char_at cmd 1 = chr CHR ''d'' \<and> char_at cmd 2 = chr CHR '' '' then
        let dir = drop 3 (cstring (cmd[ustrlen cmd - 1 := 0])) in
        ubind (ucall (o_chdir os dir)) (\<lambda>r.
          if r < 0 then fprintf os 2 (str ''cannot cd %s\<newline>'') [PStr (Some dir)] else ureturn ())
      else
        ubind (fork1 os) (\<lambda>pid.
        ubind (if pid = 0 then runline os (cstring cmd) else ureturn ()) (\<lambda>_.
        ubind (ucall (o_wait os)) (\<lambda>_. ureturn ()))))"

partial_function (option) open_console :: "'w os \<Rightarrow> 'w \<Rightarrow> ((uend + unit) \<times> 'w) option" where
  "open_console os w =
     ubind (ucall (o_open os (str ''console'') O_RDWR)) (\<lambda>fd w1.
       if fd \<ge> 0 then
         if fd \<ge> 3 then ubind (ucall (o_close os fd)) (\<lambda>_. ureturn ()) w1 else open_console os w1
       else ureturn () w1) w"

partial_function (option) sh_loop :: "'w os \<Rightarrow> byte list \<Rightarrow> 'w \<Rightarrow> ((uend + unit) \<times> 'w) option" where
  "sh_loop os buf w =
     ubind (getcmd os buf 100) (\<lambda>(r, b) w1.
       if r < 0 then uexit 0 w1 else ubind (sh_line os b) (\<lambda>_ w2. sh_loop os b w2) w1) w"

definition sh_main :: "'w os \<Rightarrow> ('w, unit) um" where
  "sh_main os = ubind (open_console os) (\<lambda>_. sh_loop os (replicate 100 0))"

end
