(* ===== verification/ShRunSpec.thy ===== *)
theory ShRunSpec
  imports ShRun
begin

text \<open>
  What running a command means, over the table of open files of a process and the answers of \<open>fork\<close>, and the proof that \<open>runcmd\<close>
  does it with \<open>close\<close>, \<open>dup\<close>, \<open>open\<close> and \<open>pipe\<close> on any system with Unix file descriptors.
\<close>

section \<open>File descriptors\<close>

datatype fobj = File "byte list" u32 | ReadEnd nat | WriteEnd nat | Inherited nat

datatype event = Forked int | Waited | Opened "byte list" u32 | OpenFailed "byte list" u32 | Piped nat | PipeFailed
  | ExecFailed "byte list" "byte list list"

type_synonym fdtab = "nat \<Rightarrow> fobj option"

definition lowest :: "fdtab \<Rightarrow> nat" where
  "lowest t = (LEAST i. t i = None)"

text \<open>
  The documented behaviour of the system calls: \<open>tab\<close> is the table of the process and \<open>evs\<close> what its calls answered so far, so that a failed
  \<open>open\<close>, \<open>pipe\<close> or \<open>exec\<close> is on record. New descriptors are the lowest free ones; descriptors are below \<open>NOFILE\<close>.
\<close>

definition opens :: "fdtab \<Rightarrow> byte list \<Rightarrow> u32 \<Rightarrow> int \<Rightarrow> fdtab \<Rightarrow> event list \<Rightarrow> bool" where
  "opens t f m r t1 es \<longleftrightarrow>
     r < 0 \<and> t1 = t \<and> es = [OpenFailed f m] \<or>
     r = int (lowest t) \<and> t1 = t(lowest t \<mapsto> File f m) \<and> es = [Opened f m]"

definition pipes_to :: "fdtab \<Rightarrow> int \<times> int \<times> int \<Rightarrow> fdtab \<Rightarrow> event list \<Rightarrow> bool" where
  "pipes_to t r t1 es \<longleftrightarrow>
     fst r < 0 \<and> t1 = t \<and> es = [PipeFailed] \<or>
     fst r = 0 \<and> (\<exists>k i j. i = lowest t \<and> j = lowest (t(i \<mapsto> ReadEnd k)) \<and> snd r = (int i, int j) \<and>
       t1 = t(i \<mapsto> ReadEnd k, j \<mapsto> WriteEnd k) \<and> es = [Piped k])"

definition fd_laws :: "'w os \<Rightarrow> ('w \<Rightarrow> fdtab) \<Rightarrow> ('w \<Rightarrow> event list) \<Rightarrow> bool" where
  "fd_laws os tab evs \<longleftrightarrow> (\<forall>w.
     (\<forall>i \<ge> NOFILE. tab w i = None) \<and>
     - 1 \<le> fst (o_fork os w) \<and> tab (snd (o_fork os w)) = tab w \<and> evs (snd (o_fork os w)) = evs w @ [Forked (fst (o_fork os w))] \<and>
     tab (snd (o_wait os w)) = tab w \<and> evs (snd (o_wait os w)) = evs w @ [Waited] \<and>
     (\<forall>fd bs. tab (snd (o_write os fd bs w)) = tab w \<and> evs (snd (o_write os fd bs w)) = evs w) \<and>
     (\<forall>p a. tab (snd (o_exec os p a w)) = tab w \<and>
        evs (snd (o_exec os p a w)) = evs w @ (if fst (o_exec os p a w) = None then [] else [ExecFailed p a])) \<and>
     (\<forall>fd. tab (snd (o_close os (int fd) w)) = (tab w)(fd := None) \<and> evs (snd (o_close os (int fd) w)) = evs w) \<and>
     (\<forall>fd x i. tab w fd = Some x \<longrightarrow> i < NOFILE \<longrightarrow> tab w i = None \<longrightarrow>
        tab (snd (o_dup os (int fd) w)) = (tab w)(lowest (tab w) \<mapsto> x)) \<and>
     (\<forall>fd. evs (snd (o_dup os (int fd) w)) = evs w) \<and>
     (\<forall>p m. \<exists>es. evs (snd (o_open os p m w)) = evs w @ es \<and> opens (tab w) p m (fst (o_open os p m w)) (tab (snd (o_open os p m w))) es) \<and>
     (\<exists>es. evs (snd (o_pipe os w)) = evs w @ es \<and> pipes_to (tab w) (fst (o_pipe os w)) (tab (snd (o_pipe os w))) es))"

lemma fd_lawsD:
  assumes "fd_laws os tab evs"
  shows "i \<ge> NOFILE \<Longrightarrow> tab w i = None"
    "- 1 \<le> fst (o_fork os w)" "tab (snd (o_fork os w)) = tab w" "evs (snd (o_fork os w)) = evs w @ [Forked (fst (o_fork os w))]"
    "tab (snd (o_wait os w)) = tab w" "evs (snd (o_wait os w)) = evs w @ [Waited]"
    "tab (snd (o_write os v bs w)) = tab w" "evs (snd (o_write os v bs w)) = evs w"
    "tab (snd (o_exec os p a w)) = tab w" "evs (snd (o_exec os p a w)) = evs w @ (if fst (o_exec os p a w) = None then [] else [ExecFailed p a])"
    "tab (snd (o_close os (int fd) w)) = (tab w)(fd := None)" "evs (snd (o_close os (int fd) w)) = evs w"
    "tab w fd = Some x \<Longrightarrow> i < NOFILE \<Longrightarrow> tab w i = None \<Longrightarrow> tab (snd (o_dup os (int fd) w)) = (tab w)(lowest (tab w) \<mapsto> x)"
    "evs (snd (o_dup os (int fd) w)) = evs w"
    "\<exists>es. evs (snd (o_open os p m w)) = evs w @ es \<and> opens (tab w) p m (fst (o_open os p m w)) (tab (snd (o_open os p m w))) es"
    "\<exists>es. evs (snd (o_pipe os w)) = evs w @ es \<and> pipes_to (tab w) (fst (o_pipe os w)) (tab (snd (o_pipe os w))) es"
  using assms unfolding fd_laws_def by blast+

section \<open>The meaning of commands\<close>

text \<open>
  \<open>runs c t es e t1\<close>: a process with table \<open>t\<close> that runs \<open>c\<close> ends as \<open>e\<close> with table \<open>t1\<close> when its system calls answer \<open>es\<close>. It gives up
  only after the answer that made it fail. A \<open>fork\<close> that answers 0 makes the process the child. A process that exits closes its files, so \<open>t1\<close> is of interest only for the image of a program.
\<close>

inductive runs :: "byte list cmd \<Rightarrow> fdtab \<Rightarrow> event list \<Rightarrow> uend \<Rightarrow> fdtab \<Rightarrow> bool" where
  exec_empty: "runs (EXEC []) t [] (Exit 1) t1"
| exec_image: "runs (EXEC (a # as)) t [] (Image a (a # as)) t"
| exec_fails: "runs (EXEC (a # as)) t [ExecFailed a (a # as)] (Exit 0) t1"
| redir: "runs c (t(fd \<mapsto> File f m)) es e t1 \<Longrightarrow> runs (REDIR c f m fd) t (Opened f m # es) e t1"
| redir_fails: "runs (REDIR c f m fd) t [OpenFailed f m] (Exit 1) t1"
| list_left: "runs l t es e t1 \<Longrightarrow> runs (LIST l r) t (Forked 0 # es) e t1"
| list_right: "0 < p \<Longrightarrow> runs r t es e t1 \<Longrightarrow> runs (LIST l r) t (Forked p # Waited # es) e t1"
| list_fails: "runs (LIST l r) t [Forked (-1)] (Exit 1) t1"
| pipe_left: "runs l (t(1 \<mapsto> WriteEnd k)) es e t1 \<Longrightarrow> runs (PIPE l r) t (Piped k # Forked 0 # es) e t1"
| pipe_right: "0 < p \<Longrightarrow> runs r (t(0 \<mapsto> ReadEnd k)) es e t1 \<Longrightarrow> runs (PIPE l r) t (Piped k # Forked p # Forked 0 # es) e t1"
| pipe_parent: "0 < p \<Longrightarrow> 0 < q \<Longrightarrow> runs (PIPE l r) t [Piped k, Forked p, Forked q, Waited, Waited] (Exit 0) t1"
| pipe_fails: "runs (PIPE l r) t [PipeFailed] (Exit 1) t1"
| pipe_fork_fails: "runs (PIPE l r) t [Piped k, Forked (-1)] (Exit 1) t1"
| pipe_fork2_fails: "0 < p \<Longrightarrow> runs (PIPE l r) t [Piped k, Forked p, Forked (-1)] (Exit 1) t1"
| back_child: "runs c t es e t1 \<Longrightarrow> runs (BACK c) t (Forked 0 # es) e t1"
| back_parent: "0 < p \<Longrightarrow> runs (BACK c) t [Forked p] (Exit 0) t1"
| back_fails: "runs (BACK c) t [Forked (-1)] (Exit 1) t1"

text \<open>Redirections are of the standard input or output, as the parser makes them.\<close>

primrec std_redirs :: "'w cmd \<Rightarrow> bool" where
  "std_redirs (EXEC argv) \<longleftrightarrow> True"
| "std_redirs (REDIR c f m fd) \<longleftrightarrow> fd \<le> 1 \<and> std_redirs c"
| "std_redirs (PIPE l r) \<longleftrightarrow> std_redirs l \<and> std_redirs r"
| "std_redirs (LIST l r) \<longleftrightarrow> std_redirs l \<and> std_redirs r"
| "std_redirs (BACK c) \<longleftrightarrow> std_redirs c"

section \<open>The system calls of the shell\<close>

lemma lowest_eq: "t s = None \<Longrightarrow> (\<And>i. i < s \<Longrightarrow> t i \<noteq> None) \<Longrightarrow> lowest t = s"
  unfolding lowest_def by (rule Least_equality) (meson not_less)+

lemma lowest_free: "t i = None \<Longrightarrow> t (lowest t) = None"
  unfolding lowest_def by (rule LeastI)

lemma print_keeps:
  assumes "fd_laws os tab evs"
  shows "\<exists>w1. putcs os fd bs w = Some (Inr (), w1) \<and> tab w1 = tab w \<and> evs w1 = evs w"
proof (induction bs arbitrary: w)
  case (Cons b bs)
  show ?case using Cons.IH [of "snd (o_write os fd [b] w)"] fd_lawsD(7,8) [OF assms] by (simp add: um_simps)
qed (simp add: um_simps)

lemma print_exit:
  assumes "fd_laws os tab evs" and "vprintf fmt False args = Some out"
  shows "\<exists>w1. ubind (fprintf os fd fmt args) (\<lambda>_. uexit n) w = Some (Inl (Exit n), w1) \<and> evs w1 = evs w"
  using print_keeps [OF assms(1), of fd out w] assms(2) by (auto simp: fprintf_def um_simps ubind_run(1))

lemma formats [simp]:
  "vprintf (str ''%s\<newline>'') False [PStr (Some s)] = Some (s @ [10])"
  "vprintf (str ''exec %s failed\<newline>'') False [PStr (Some s)] = Some (str ''exec '' @ s @ str '' failed\<newline>'')"
  "vprintf (str ''open %s failed\<newline>'') False [PStr (Some s)] = Some (str ''open '' @ s @ str '' failed\<newline>'')"
  by (simp_all add: fmt_simps of_char_def)

lemma fork1_cases:
  assumes "fd_laws os tab evs"
  obtains w1 where "fork1 os w = Some (Inl (Exit 1), w1)" "evs w1 = evs w @ [Forked (-1)]"
  | p w1 where "0 \<le> p" "fork1 os w = Some (Inr p, w1)" "evs w1 = evs w @ [Forked p]" "tab w1 = tab w"
proof (cases "fst (o_fork os w) = -1")
  case True
  obtain w1 where w1: "ubind (fprintf os 2 (str ''%s\<newline>'') [PStr (Some (str ''fork''))]) (\<lambda>_. uexit 1) (snd (o_fork os w)) =
      Some (Inl (Exit 1) :: uend + int, w1)" "evs w1 = evs (snd (o_fork os w))"
    using print_exit [OF assms formats(1)] by blast
  show ?thesis by (rule that(1) [of w1]) (use w1 True fd_lawsD(4) [OF assms, of w] in \<open>simp_all add: fork1_def sh_panic_def um_simps\<close>)
next
  case False
  then show ?thesis using that(2) [of "fst (o_fork os w)" "snd (o_fork os w)"] fd_lawsD(2-4) [OF assms, of w]
    by (simp add: fork1_def um_simps)
qed

lemma plumb:
  assumes L: "fd_laws os tab evs" and w: "tab w = t(i \<mapsto> x, j \<mapsto> y)"
    and t: "t 0 \<noteq> None" "t 1 \<noteq> None" "t i = None" "t j = None" "i \<noteq> j"
    and s: "s \<le> 1" and src: "src = i \<and> z = x \<or> src = j \<and> z = y"
  defines "w1 \<equiv> snd (o_close os (int s) w)"
  defines "w2 \<equiv> snd (o_dup os (int src) w1)"
  defines "w3 \<equiv> snd (o_close os (int i) w2)"
  defines "w4 \<equiv> snd (o_close os (int j) w3)"
  shows "tab w4 = t(s \<mapsto> z)" "evs w4 = evs w"
proof -
  note D = fd_lawsD [OF L]
  have ij: "i \<noteq> 0" "i \<noteq> 1" "j \<noteq> 0" "j \<noteq> 1" using t by metis+
  have s01: "s = 0 \<or> s = 1" using s by auto
  have t1: "tab w1 = (t(i \<mapsto> x, j \<mapsto> y))(s := None)" unfolding w1_def using D(11) w by simp
  have "lowest (tab w1) = s" unfolding t1 by (rule lowest_eq) (use s01 t(1) in auto)
  moreover have "tab w1 src = Some z" unfolding t1 using src ij s01 t(5) by auto
  moreover have "tab w1 s = None" "s < NOFILE" using t1 s by (auto simp: NOFILE_def)
  ultimately have t2: "tab w2 = (t(i \<mapsto> x, j \<mapsto> y))(s \<mapsto> z)" unfolding w2_def using D(13) [of w1 src z s] t1 by simp
  show "tab w4 = t(s \<mapsto> z)"
    unfolding w4_def w3_def D(11) t2 using ij s01 t(3-5) by (intro ext) auto
  show "evs w4 = evs w" unfolding w4_def w3_def w2_def w1_def by (simp add: D(12,14))
qed

lemma pipe_cases:
  assumes L: "fd_laws os tab evs"
  obtains r a b w1 where "o_pipe os w = ((r, a, b), w1)" "r < 0" "tab w1 = tab w" "evs w1 = evs w @ [PipeFailed]"
  | i j k w1 where "o_pipe os w = ((0, int i, int j), w1)" "tab w1 = (tab w)(i \<mapsto> ReadEnd k, j \<mapsto> WriteEnd k)" "evs w1 = evs w @ [Piped k]"
      "tab w i = None" "tab w j = None" "i \<noteq> j"
proof -
  let ?t = "tab w"
  obtain r a b w1 where p: "o_pipe os w = ((r, a, b), w1)" by (metis prod_cases4 surj_pair)
  have f: "?t i = None" if "i \<ge> NOFILE" for i using fd_lawsD(1) [OF L that] .
  from fd_lawsD(16) [OF L, of w] consider "r < 0" "tab w1 = ?t" "evs w1 = evs w @ [PipeFailed]"
    | k i j where "r = 0" "i = lowest ?t" "j = lowest (?t(i \<mapsto> ReadEnd k))" "(a, b) = (int i, int j)" "tab w1 = ?t(i \<mapsto> ReadEnd k, j \<mapsto> WriteEnd k)"
        "evs w1 = evs w @ [Piped k]"
    unfolding pipes_to_def p by auto
  then show thesis
  proof cases
    case 1 then show thesis using that(1) p by blast
  next
    case (2 k i j)
    have i: "?t i = None" unfolding 2(2) by (rule lowest_free [of _ NOFILE]) (simp add: f)
    obtain m where m: "m \<ge> NOFILE" "m \<noteq> i" using that by (metis le_add1 n_not_Suc_n nat_le_linear le_SucI order_refl)
    then have "(?t(i \<mapsto> ReadEnd k)) m = None" using f [of m] by simp
    then have "(?t(i \<mapsto> ReadEnd k)) j = None" unfolding 2(3) by (rule lowest_free)
    then have "?t j = None" "i \<noteq> j" by (auto split: if_splits)
    then show thesis using that(2) [of i j w1 k] p i 2(1,4-6) by auto
  qed
qed

section \<open>Refinement\<close>

definition does :: "'w os \<Rightarrow> ('w \<Rightarrow> fdtab) \<Rightarrow> ('w \<Rightarrow> event list) \<Rightarrow> byte list cmd \<Rightarrow> 'w \<Rightarrow> bool" where
  "does os tab evs c w \<longleftrightarrow>
     (\<exists>es e w1. runcmd os c w = Some (Inl e, w1) \<and> evs w1 = evs w @ es \<and> runs c (tab w) es e (tab w1))"

lemma doesI: "runcmd os c w = Some (Inl e, w1) \<Longrightarrow> evs w1 = evs w @ es \<Longrightarrow> runs c (tab w) es e (tab w1) \<Longrightarrow> does os tab evs c w"
  unfolding does_def by blast

lemma doesE:
  assumes "does os tab evs c w"
  obtains es e w1 where "runcmd os c w = Some (Inl e, w1)" "evs w1 = evs w @ es" "runs c (tab w) es e (tab w1)"
  using assms unfolding does_def by blast

definition std_open :: "fdtab \<Rightarrow> bool" where
  "std_open t \<longleftrightarrow> t 0 \<noteq> None \<and> t 1 \<noteq> None"

lemma does_EXEC:
  assumes L: "fd_laws os tab evs"
  shows "does os tab evs (EXEC argv) w"
proof (cases argv)
  case Nil
  then show ?thesis by (intro doesI [where es = "[]"]) (auto simp: um_simps intro: runs.intros)
next
  case (Cons a as)
  obtain r w1 where x: "o_exec os a argv w = (r, w1)" by force
  have k: "tab w1 = tab w" "evs w1 = evs w @ (if r = None then [] else [ExecFailed a argv])"
    using fd_lawsD(9,10) [OF L, of a argv w] x by simp_all
  show ?thesis
  proof (cases r)
    case None
    then have "runcmd os (EXEC argv) w = Some (Inl (Image a argv), w1)" using Cons x by (simp add: uexec_def ubind_def)
    then show ?thesis by (rule doesI [where es = "[]"]) (use k Cons None in \<open>auto intro: runs.intros\<close>)
  next
    case (Some v)
    obtain w2 where w2: "ubind (fprintf os 2 (str ''exec %s failed\<newline>'') [PStr (Some a)]) (\<lambda>_. uexit 0) w1 = Some (Inl (Exit 0) :: uend + unit, w2)"
      "evs w2 = evs w1" using print_exit [OF L formats(2)] by blast
    have "uexec os a argv w = Some (Inr v, w1)" using Some x by (simp add: uexec_def)
    then have "runcmd os (EXEC argv) w = Some (Inl (Exit 0), w2)" using Cons w2(1) by (simp add: ubind_run(1))
    then show ?thesis by (rule doesI [where es = "[ExecFailed a argv]"]) (use w2 k Cons Some in \<open>auto intro: runs.intros\<close>)
  qed
qed

lemma does_REDIR:
  assumes L: "fd_laws os tab evs" and IH: "\<And>w. std_open (tab w) \<Longrightarrow> does os tab evs c w"
    and s: "std_open (tab w)" "fd \<le> 1"
  shows "does os tab evs (REDIR c f m fd) w"
proof -
  let ?w1 = "snd (o_close os (int fd) w)"
  obtain r w2 where o: "o_open os f m ?w1 = (r, w2)" by force
  have t1: "tab ?w1 = (tab w)(fd := None)" "evs ?w1 = evs w" using fd_lawsD(11,12) [OF L] by auto
  have "fd = 0 \<or> fd = 1" using s(2) by auto
  then have "lowest (tab ?w1) = fd" unfolding t1 using s(1) by (intro lowest_eq) (auto simp: std_open_def)
  then have t2: "r < 0 \<and> evs w2 = evs w @ [OpenFailed f m] \<or>
      0 \<le> r \<and> tab w2 = (tab w)(fd \<mapsto> File f m) \<and> evs w2 = evs w @ [Opened f m]"
    using fd_lawsD(15) [OF L, of f m ?w1] unfolding opens_def o t1 by auto
  show ?thesis
  proof (cases "r < 0")
    case True
    obtain w3 where w3: "ubind (fprintf os 2 (str ''open %s failed\<newline>'') [PStr (Some f)]) (\<lambda>_. uexit 1) w2 = Some (Inl (Exit 1) :: uend + unit, w3)"
      "evs w3 = evs w2" using print_exit [OF L formats(3)] by blast
    have "runcmd os (REDIR c f m fd) w = Some (Inl (Exit 1), w3)" using w3(1) True o by (simp add: um_simps)
    then show ?thesis by (rule doesI [where es = "[OpenFailed f m]"]) (use w3 t2 True in \<open>auto intro: runs.intros\<close>)
  next
    case False
    then have t2: "tab w2 = (tab w)(fd \<mapsto> File f m)" and e2: "evs w2 = evs w @ [Opened f m]" using t2 by auto
    then have "does os tab evs c w2" using s(1) by (intro IH) (auto simp: std_open_def)
    then obtain es e w3 where w3: "runcmd os c w2 = Some (Inl e, w3)" "evs w3 = evs w2 @ es" "runs c (tab w2) es e (tab w3)" by (rule doesE)
    have "runcmd os (REDIR c f m fd) w = Some (Inl e, w3)" using w3(1) False o by (simp add: um_simps ubind_run(2))
    then show ?thesis by (rule doesI) (use w3 e2 t2 in \<open>auto intro: runs.intros\<close>)
  qed
qed

lemma does_LIST:
  assumes L: "fd_laws os tab evs" and l: "\<And>w. std_open (tab w) \<Longrightarrow> does os tab evs l w"
    and r: "\<And>w. std_open (tab w) \<Longrightarrow> does os tab evs r w" and s: "std_open (tab w)"
  shows "does os tab evs (LIST l r) w"
proof (rule fork1_cases [OF L, of w])
  fix w1 assume "fork1 os w = Some (Inl (Exit 1), w1)" "evs w1 = evs w @ [Forked (-1)]"
  then show ?thesis by (intro doesI [of _ _ _ "Exit 1" w1]) (auto simp: ubind_run(2) intro: runs.intros)
next
  fix p w1 assume f: "0 \<le> p" "fork1 os w = Some (Inr p, w1)" "evs w1 = evs w @ [Forked p]" "tab w1 = tab w"
  show ?thesis
  proof (cases "p = 0")
    case True
    obtain es e w2 where w2: "runcmd os l w1 = Some (Inl e, w2)" "evs w2 = evs w1 @ es" "runs l (tab w1) es e (tab w2)"
      using l [of w1] s f(4) by (auto elim: doesE)
    have "runcmd os (LIST l r) w = Some (Inl e, w2)" using f(2) True w2(1) by (simp add: ubind_run)
    then show ?thesis by (rule doesI) (use w2 f True in \<open>auto intro: runs.intros\<close>)
  next
    case False
    let ?w2 = "snd (o_wait os w1)"
    have t: "tab ?w2 = tab w" "evs ?w2 = evs w @ [Forked p, Waited]" using fd_lawsD(5,6) [OF L, of w1] f by simp_all
    then obtain es e w3 where w3: "runcmd os r ?w2 = Some (Inl e, w3)" "evs w3 = evs ?w2 @ es" "runs r (tab ?w2) es e (tab w3)"
      using r [of ?w2] s by (auto elim: doesE)
    have "runcmd os (LIST l r) w = Some (Inl e, w3)" using f(2) False w3(1) by (simp add: ubind_run um_simps)
    then show ?thesis by (rule doesI) (use w3 t f(1) False in \<open>auto intro: runs.intros\<close>)
  qed
qed

lemma does_BACK:
  assumes L: "fd_laws os tab evs" and c: "\<And>w. std_open (tab w) \<Longrightarrow> does os tab evs c w" and s: "std_open (tab w)"
  shows "does os tab evs (BACK c) w"
proof (rule fork1_cases [OF L, of w])
  fix w1 assume "fork1 os w = Some (Inl (Exit 1), w1)" "evs w1 = evs w @ [Forked (-1)]"
  then show ?thesis by (intro doesI [of _ _ _ "Exit 1" w1]) (auto simp: ubind_run(2) intro: runs.intros)
next
  fix p w1 assume f: "0 \<le> p" "fork1 os w = Some (Inr p, w1)" "evs w1 = evs w @ [Forked p]" "tab w1 = tab w"
  show ?thesis
  proof (cases "p = 0")
    case True
    obtain es e w2 where w2: "runcmd os c w1 = Some (Inl e, w2)" "evs w2 = evs w1 @ es" "runs c (tab w1) es e (tab w2)"
      using c [of w1] s f(4) by (auto elim: doesE)
    have "runcmd os (BACK c) w = Some (Inl e, w2)" using f(2) True w2(1) by (simp add: ubind_run)
    then show ?thesis by (rule doesI) (use w2 f True in \<open>auto intro: runs.intros\<close>)
  next
    case False
    then have "runcmd os (BACK c) w = Some (Inl (Exit 0), w1)" using f(2) by (simp add: ubind_run um_simps)
    then show ?thesis by (rule doesI) (use f False in \<open>auto intro: runs.intros\<close>)
  qed
qed

text \<open>A child of a pipe: \<open>src\<close> is the end it keeps, as its descriptor \<open>s\<close>.\<close>

lemma pipe_child:
  assumes L: "fd_laws os tab evs" and c: "\<And>w. std_open (tab w) \<Longrightarrow> does os tab evs c w"
    and w: "tab w = t(i \<mapsto> x, j \<mapsto> y)" and t: "std_open t" "t i = None" "t j = None" "i \<noteq> j"
    and s: "s \<le> 1" and src: "src = i \<and> z = x \<or> src = j \<and> z = y"
  obtains es e w1 where
    "ubind (ucall (o_close os (int s))) (\<lambda>_. ubind (ucall (o_dup os (int src))) (\<lambda>_.
       ubind (ucall (o_close os (int i))) (\<lambda>_. ubind (ucall (o_close os (int j))) (\<lambda>_. runcmd os c)))) w = Some (Inl e, w1)"
    "evs w1 = evs w @ es" "runs c (t(s \<mapsto> z)) es e (tab w1)"
proof -
  have t01: "t 0 \<noteq> None" "t 1 \<noteq> None" using t(1) by (auto simp: std_open_def)
  note P = plumb [OF L w t01 t(2-4) s src]
  let ?w4 = "snd (o_close os (int j) (snd (o_close os (int i) (snd (o_dup os (int src) (snd (o_close os (int s) w)))))))"
  have "std_open (tab ?w4)" unfolding P(1) using t01 by (auto simp: std_open_def)
  then obtain es e w1 where "runcmd os c ?w4 = Some (Inl e, w1)" "evs w1 = evs ?w4 @ es" "runs c (tab ?w4) es e (tab w1)"
    using c [of ?w4] by (auto elim: doesE)
  then show thesis using that [of e w1 es] unfolding P by (simp add: um_simps)
qed

text \<open>The shell after the first fork.\<close>

lemma pipe_rest:
  assumes L: "fd_laws os tab evs" and r: "\<And>w. std_open (tab w) \<Longrightarrow> does os tab evs r w"
    and w: "tab w = t(i \<mapsto> ReadEnd k, j \<mapsto> WriteEnd k)" and t: "std_open t" "t i = None" "t j = None" "i \<noteq> j"
  obtains es e w1 where
    "ubind (fork1 os) (\<lambda>pid. ubind (if pid = 0 then ubind (ucall (o_close os 0)) (\<lambda>_. ubind (ucall (o_dup os (int i))) (\<lambda>_.
         ubind (ucall (o_close os (int i))) (\<lambda>_. ubind (ucall (o_close os (int j))) (\<lambda>_. runcmd os r)))) else ureturn ()) (\<lambda>_.
       ubind (ucall (o_close os (int i))) (\<lambda>_. ubind (ucall (o_close os (int j))) (\<lambda>_. ubind (ucall (o_wait os)) (\<lambda>_.
       ubind (ucall (o_wait os)) (\<lambda>_. uexit 0)))))) w = Some (Inl e :: uend + unit, w1)"
    "evs w1 = evs w @ es" "\<And>p l. 0 < p \<Longrightarrow> runs (PIPE l r) t (Piped k # Forked p # es) e (tab w1)"
proof (rule fork1_cases [OF L, of w])
  fix w1 assume "fork1 os w = Some (Inl (Exit 1), w1)" "evs w1 = evs w @ [Forked (-1)]"
  then show thesis by (intro that [of "Exit 1" w1]) (auto simp: ubind_run(2) intro: runs.intros)
next
  fix q w1 assume f: "0 \<le> q" "fork1 os w = Some (Inr q, w1)" "evs w1 = evs w @ [Forked q]" "tab w1 = tab w"
  show thesis
  proof (cases "q = 0")
    case True
    have t1: "tab w1 = t(i \<mapsto> ReadEnd k, j \<mapsto> WriteEnd k)" using f(4) w by simp
    obtain es e w2 where x: "ubind (ucall (o_close os (int 0))) (\<lambda>_. ubind (ucall (o_dup os (int i))) (\<lambda>_.
        ubind (ucall (o_close os (int i))) (\<lambda>_. ubind (ucall (o_close os (int j))) (\<lambda>_. runcmd os r)))) w1 = Some (Inl e, w2)"
      and w2: "evs w2 = evs w1 @ es" "runs r (t(0 \<mapsto> ReadEnd k)) es e (tab w2)"
      by (rule pipe_child [OF L r t1 t, of 0 i "ReadEnd k"]) auto
    show thesis
      by (rule that [of e w2 "Forked 0 # es"]) (use x w2 f True in \<open>auto simp: um_simps ubind_run intro: runs.intros\<close>)
  next
    case False
    then show thesis using f fd_lawsD(6,12) [OF L]
      by (intro that [where es = "[Forked q, Waited, Waited]"]) (auto simp: um_simps ubind_run intro: runs.intros)
  qed
qed

lemma does_PIPE:
  assumes L: "fd_laws os tab evs" and l: "\<And>w. std_open (tab w) \<Longrightarrow> does os tab evs l w"
    and r: "\<And>w. std_open (tab w) \<Longrightarrow> does os tab evs r w" and s: "std_open (tab w)"
  shows "does os tab evs (PIPE l r) w"
proof (rule pipe_cases [OF L, of w])
  fix rc a b w1 assume p: "o_pipe os w = ((rc, a, b), w1)" "rc < 0" "evs w1 = evs w @ [PipeFailed]"
  obtain w2 where w2: "sh_panic os (str ''pipe'') w1 = Some (Inl (Exit 1) :: uend + unit, w2)" "evs w2 = evs w1"
    unfolding sh_panic_def using print_exit [OF L formats(1)] by blast
  have "runcmd os (PIPE l r) w = Some (Inl (Exit 1), w2)" using p(1,2) w2(1) by (simp add: um_simps)
  then show ?thesis by (rule doesI [where es = "[PipeFailed]"]) (use p w2 in \<open>auto intro: runs.intros\<close>)
next
  fix i j k w1
  assume p: "o_pipe os w = ((0, int i, int j), w1)" and t1: "tab w1 = (tab w)(i \<mapsto> ReadEnd k, j \<mapsto> WriteEnd k)"
    and e1: "evs w1 = evs w @ [Piped k]" and f: "tab w i = None" "tab w j = None" "i \<noteq> j"
  show ?thesis
  proof (rule fork1_cases [OF L, of w1])
    fix w2 assume "fork1 os w1 = Some (Inl (Exit 1), w2)" "evs w2 = evs w1 @ [Forked (-1)]"
    then show ?thesis using p e1 by (intro doesI [of _ _ _ "Exit 1" w2]) (auto simp: um_simps ubind_run(2) intro: runs.intros)
  next
    fix pid w2 assume k1: "0 \<le> pid" "fork1 os w1 = Some (Inr pid, w2)" "evs w2 = evs w1 @ [Forked pid]" "tab w2 = tab w1"
    have t2: "tab w2 = (tab w)(i \<mapsto> ReadEnd k, j \<mapsto> WriteEnd k)" using k1(4) t1 by simp
    show ?thesis
    proof (cases "pid = 0")
      case True
      obtain es e w3 where "ubind (ucall (o_close os (int 1))) (\<lambda>_. ubind (ucall (o_dup os (int j))) (\<lambda>_.
          ubind (ucall (o_close os (int i))) (\<lambda>_. ubind (ucall (o_close os (int j))) (\<lambda>_. runcmd os l)))) w2 = Some (Inl e, w3)"
        and w3: "evs w3 = evs w2 @ es" "runs l ((tab w)(1 \<mapsto> WriteEnd k)) es e (tab w3)"
        by (rule pipe_child [OF L l t2 s f, of 1 j "WriteEnd k"]) auto
      then have "runcmd os (PIPE l r) w = Some (Inl e, w3)" using p k1(2) True by (simp add: um_simps ubind_run)
      then show ?thesis by (rule doesI) (use w3 k1 e1 True in \<open>auto intro: runs.intros\<close>)
    next
      case False
      show ?thesis
      proof (rule pipe_rest [OF L r t2 s f])
        fix es e w3
        assume x: "ubind (fork1 os) (\<lambda>pid. ubind (if pid = 0 then ubind (ucall (o_close os 0)) (\<lambda>_. ubind (ucall (o_dup os (int i))) (\<lambda>_.
            ubind (ucall (o_close os (int i))) (\<lambda>_. ubind (ucall (o_close os (int j))) (\<lambda>_. runcmd os r)))) else ureturn ()) (\<lambda>_.
          ubind (ucall (o_close os (int i))) (\<lambda>_. ubind (ucall (o_close os (int j))) (\<lambda>_. ubind (ucall (o_wait os)) (\<lambda>_.
          ubind (ucall (o_wait os)) (\<lambda>_. uexit 0)))))) w2 = Some (Inl e :: uend + unit, w3)"
          and w3: "evs w3 = evs w2 @ es" "\<And>p l. 0 < p \<Longrightarrow> runs (PIPE l r) (tab w) (Piped k # Forked p # es) e (tab w3)"
        have "runcmd os (PIPE l r) w = Some (Inl e, w3)" using p k1(2) False x by (simp add: um_simps ubind_run(1))
        then show ?thesis by (rule doesI) (use w3 k1 e1 False in auto)
      qed
    qed
  qed
qed

text \<open>
  C23. On any system whose calls treat descriptors as documented, \<open>runcmd\<close> never returns and every process it forks does its part of the
  command: an \<open>EXEC\<close> becomes the program with the table as redirections and pipes left it; a redirection opens its file, once, as the
  descriptor it redirects; the left side of a pipe has the write end of the pipe just made as its output, the right side the read end as
  its input, and nobody keeps another end; the parent of a pipe waits for both, that of a list for the left side, that of a background
  command for none. A process gives up only when its last system call failed: with status 0 after a failed \<open>exec\<close>, with 1 after a failed
  \<open>open\<close>, \<open>pipe\<close> or \<open>fork\<close>.
\<close>

theorem runcmd_plumbing:
  assumes "fd_laws os tab evs" and "std_redirs c" and "std_open (tab w)"
  shows "\<exists>es e w1. runcmd os c w = Some (Inl e, w1) \<and> evs w1 = evs w @ es \<and> runs c (tab w) es e (tab w1)"
proof -
  have "does os tab evs c w"
    using assms(2,3)
    by (induction c arbitrary: w)
      (auto simp del: runcmd.simps intro: does_EXEC does_REDIR does_LIST does_PIPE does_BACK assms(1))
  then show ?thesis unfolding does_def .
qed

section \<open>A concrete system\<close>

text \<open>The world is the table, the events, the answers \<open>fork\<close> will give and the number of pipes made.\<close>

type_synonym fdworld = "fdtab \<times> event list \<times> int list \<times> nat"

definition fdw_tab :: "fdworld \<Rightarrow> fdtab" where
  "fdw_tab w i = (if i < NOFILE then fst w i else None)"

definition first_free :: "fdtab \<Rightarrow> nat" where
  "first_free t = (case find (\<lambda>i. t i = None) [0..<NOFILE] of Some i \<Rightarrow> i | None \<Rightarrow> NOFILE)"

definition fdw_put :: "fobj \<Rightarrow> fdworld \<Rightarrow> int \<times> fdworld" where
  "fdw_put x w = (let i = first_free (fdw_tab w) in if i < NOFILE then (int i, ((fst w)(i \<mapsto> x), snd w)) else (-1, w))"

definition fdw_log :: "event \<Rightarrow> fdworld \<Rightarrow> fdworld" where
  "fdw_log e = (\<lambda>(t, es, r). (t, es @ [e], r))"

definition fdw_open :: "byte list \<Rightarrow> u32 \<Rightarrow> fdworld \<Rightarrow> int \<times> fdworld" where
  "fdw_open p m w =
     (let (r, w1) = fdw_put (File p m) w in (r, fdw_log (if r < 0 then OpenFailed p m else Opened p m) w1))"

definition fdw_pipe :: "fdworld \<Rightarrow> (int \<times> int \<times> int) \<times> fdworld" where
  "fdw_pipe w = (case w of (t, es, fs, k) \<Rightarrow>
     let i = first_free (fdw_tab w); j = first_free ((fdw_tab w)(i \<mapsto> ReadEnd k)) in
     if i < NOFILE \<and> j < NOFILE then ((0, int i, int j), (t(i \<mapsto> ReadEnd k, j \<mapsto> WriteEnd k), es @ [Piped k], fs, Suc k))
     else ((-1, 0, 0), fdw_log PipeFailed w))"

definition fd_os :: "fdworld os" where
  "fd_os =
     \<lparr>o_fork = (\<lambda>(t, es, fs, k). let a = (if fs = [] then -1 else max (-1) (hd fs)) in (a, (t, es @ [Forked a], tl fs, k))),
      o_wait = (\<lambda>(t, es, r). (1, (t, es @ [Waited], r))), o_pipe = fdw_pipe,
      o_write = (\<lambda>_ bs. Pair (int (length bs))), o_read = (\<lambda>_ _. Pair (0, [])),
      o_close = (\<lambda>fd (t, r). (0, (t(nat fd := None), r))), o_kill = (\<lambda>_. Pair (-1)), o_exec = (\<lambda>_ _. Pair None),
      o_open = fdw_open, o_mknod = (\<lambda>_ _ _. Pair (-1)), o_unlink = (\<lambda>_. Pair (-1)),
      o_fstat = (\<lambda>_. Pair (-1, \<lparr>st_dev = 0, st_ino = 0, st_type = 0, st_nlink = 0, st_size = 0\<rparr>)),
      o_link = (\<lambda>_ _. Pair (-1)), o_mkdir = (\<lambda>_. Pair (-1)), o_chdir = (\<lambda>_. Pair (-1)),
      o_dup = (\<lambda>fd w. case fdw_tab w (nat fd) of None \<Rightarrow> (-1, w) | Some x \<Rightarrow> fdw_put x w),
      o_getpid = Pair 1, o_sbrk = (\<lambda>_ _. Pair (-1)), o_uptime = Pair 0, o_trace = (\<lambda>_. Pair (-1))\<rparr>"

lemma first_free_eq:
  assumes "\<And>i. i \<ge> NOFILE \<Longrightarrow> t i = None"
  shows "first_free t = lowest t"
proof (cases "find (\<lambda>i. t i = None) [0..<NOFILE]")
  case None
  then have "first_free t = NOFILE" unfolding first_free_def by (simp del: NOFILE_def)
  moreover from None have "\<forall>i < NOFILE. t i \<noteq> None" by (auto simp: find_None_iff)
  ultimately show ?thesis using assms [of NOFILE] by (intro lowest_eq [symmetric]) auto
next
  case (Some i)
  then have "first_free t = i" unfolding first_free_def by (simp del: NOFILE_def)
  moreover from Some have "t i = None" "\<forall>j < i. t j \<noteq> None" by (auto simp: find_Some_iff)
  ultimately show ?thesis by (intro lowest_eq [symmetric]) auto
qed

lemma fdw_free: "first_free (fdw_tab w) = lowest (fdw_tab w)"
  by (rule first_free_eq) (simp add: fdw_tab_def)

lemma fdw_free2: "i < NOFILE \<Longrightarrow> first_free ((fdw_tab w)(i \<mapsto> x)) = lowest ((fdw_tab w)(i \<mapsto> x))"
  by (rule first_free_eq) (simp add: fdw_tab_def)

lemma fdw_log_simps [simp]: "fdw_tab (fdw_log e w) = fdw_tab w" "fst (snd (fdw_log e w)) = fst (snd w) @ [e]"
  by (auto simp: fdw_log_def fdw_tab_def split: prod.splits)

lemma fdw_put_tab:
  "lowest (fdw_tab w) < NOFILE \<Longrightarrow> fdw_put x w = (int (lowest (fdw_tab w)), ((fst w)(lowest (fdw_tab w) \<mapsto> x), snd w))"
  "\<not> lowest (fdw_tab w) < NOFILE \<Longrightarrow> fdw_put x w = (-1, w)"
  "lowest (fdw_tab w) < NOFILE \<Longrightarrow> fdw_tab ((fst w)(lowest (fdw_tab w) \<mapsto> x), snd w) = (fdw_tab w)(lowest (fdw_tab w) \<mapsto> x)"
  "fst (snd (snd (fdw_put x w))) = fst (snd w)"
  by (auto simp: fdw_put_def fdw_free fdw_tab_def Let_def)

lemma fdw_open_opens:
  "\<exists>es. fst (snd (snd (fdw_open p m w))) = fst (snd w) @ es \<and> opens (fdw_tab w) p m (fst (fdw_open p m w)) (fdw_tab (snd (fdw_open p m w))) es"
  by (cases "lowest (fdw_tab w) < NOFILE") (simp_all add: fdw_open_def opens_def fdw_put_tab)

lemma fdw_pipe_pipes:
  "\<exists>es. fst (snd (snd (fdw_pipe w))) = fst (snd w) @ es \<and> pipes_to (fdw_tab w) (fst (fdw_pipe w)) (fdw_tab (snd (fdw_pipe w))) es"
proof -
  obtain t es fs k where w: "w = (t, es, fs, k)" by (cases w)
  let ?i = "lowest (fdw_tab w)" and ?j = "first_free ((fdw_tab w)(lowest (fdw_tab w) \<mapsto> ReadEnd k))"
  show ?thesis
  proof (cases "?i < NOFILE \<and> ?j < NOFILE")
    case True
    then have "fdw_tab (t(?i \<mapsto> ReadEnd k, ?j \<mapsto> WriteEnd k), es @ [Piped k], fs, Suc k) = (fdw_tab w)(?i \<mapsto> ReadEnd k, ?j \<mapsto> WriteEnd k)"
      unfolding w by (auto simp: fdw_tab_def fun_eq_iff)
    then show ?thesis using True fdw_free2 [of ?i w "ReadEnd k"] by (auto simp: pipes_to_def fdw_pipe_def w fdw_free Let_def)
  next
    case False
    then have "fdw_pipe w = ((-1, 0, 0), fdw_log PipeFailed w)" unfolding fdw_pipe_def fdw_free by (simp add: w Let_def fdw_free)
    then show ?thesis by (simp add: pipes_to_def)
  qed
qed

lemma fd_os_laws: "fd_laws fd_os fdw_tab (\<lambda>w. fst (snd w))"
proof -
  have dup: "fdw_tab (snd (o_dup fd_os (int fd) w)) = (fdw_tab w)(lowest (fdw_tab w) \<mapsto> x)"
    if "fdw_tab w fd = Some x" "i < NOFILE" "fdw_tab w i = None" for w fd x i
  proof -
    have "lowest (fdw_tab w) \<le> i" unfolding lowest_def by (rule Least_le) (rule that(3))
    then show ?thesis using that(1,2) by (simp add: fd_os_def fdw_put_tab)
  qed
  show ?thesis
    unfolding fd_laws_def using dup fdw_open_opens fdw_pipe_pipes
    by (auto simp: fd_os_def fdw_tab_def fdw_put_tab(4) Let_def fun_eq_iff split: option.split)
qed

text \<open>The right side of a pipe whose output goes to a file: the shell forks twice and the second child becomes the program.\<close>

definition demo_cmd :: "byte list cmd" where
  "demo_cmd = PIPE (EXEC [str ''ls'']) (REDIR (EXEC [str ''wc'']) (str ''f'') O_WRONLY 1)"

definition demo_fds :: fdtab where
  "demo_fds i = (if i < 3 then Some (Inherited 0) else None)"

lemma demo_run:
  "map_option (\<lambda>(e, w1). (e, fst (snd w1), map (fdw_tab w1) [0, 1, 2, 3])) (runcmd fd_os demo_cmd (demo_fds, [], [5, 0], 0)) =
     Some (Inl (Image (str ''wc'') [str ''wc'']), [Piped 0, Forked 5, Forked 0, Opened (str ''f'') O_WRONLY],
       [Some (ReadEnd 0), Some (File (str ''f'') O_WRONLY), Some (Inherited 0), None])"
  by code_simp

theorem runcmd_plumbing_witness:
  "\<exists>w1. runcmd fd_os demo_cmd (demo_fds, [], [5, 0], 0) = Some (Inl (Image (str ''wc'') [str ''wc'']), w1) \<and>
     runs demo_cmd demo_fds [Piped 0, Forked 5, Forked 0, Opened (str ''f'') O_WRONLY] (Image (str ''wc'') [str ''wc'']) (fdw_tab w1) \<and>
     fdw_tab w1 0 = Some (ReadEnd 0) \<and> fdw_tab w1 1 = Some (File (str ''f'') O_WRONLY)"
proof -
  have t: "fdw_tab (demo_fds, [], [5, 0], 0) = demo_fds"
    by (auto simp: fdw_tab_def demo_fds_def NOFILE_def)
  have "std_redirs demo_cmd" "std_open demo_fds" by (simp_all add: demo_cmd_def std_open_def demo_fds_def)
  then obtain es e w1 where "runcmd fd_os demo_cmd (demo_fds, [], [5, 0], 0) = Some (Inl e, w1)" "fst (snd w1) = es"
      "runs demo_cmd demo_fds es e (fdw_tab w1)"
    using runcmd_plumbing [OF fd_os_laws, of demo_cmd "(demo_fds, [], [5, 0], 0)"] unfolding t by auto
  with demo_run show ?thesis by auto
qed

end
