(* ===== verification/Demo.thy ===== *)
theory Demo
  imports File VmSpec BioSpec
begin

text \<open>
  A concrete kernel state, used to apply theorems at: all tables empty, memory as in the
  sample address space of the virtual memory theories, where page 0 is mapped at
  physical page \<open>0x80004000\<close>; every process has that page table.
\<close>

definition zero_file :: kfile where
  "zero_file = \<lparr>ftype = FD_NONE, fref = 0, readable = False, writable = False, fpipe = 0, fip = None,
     foff = 0, fmajor = 0\<rparr>"

definition zero_inode :: inode where
  "zero_inode = \<lparr>idev = 0, inum = 0, iref = 0, ilk = initsleeplock, ivalid = False, itype = 0, imajor = 0,
     iminor = 0, inlink = 0, isize = 0, iaddrs = replicate 13 0\<rparr>"

definition zero_pipe :: pipe where
  "zero_pipe = \<lparr>pdata = (\<lambda>_. 0), nread = 0, nwrite = 0, readopen = True, writeopen = True\<rparr>"

definition demo_kernel :: filest where
  "demo_kernel = \<lparr>pmem = demo_mem, freelist = 0, kend = 0x80000000,
     procs = (\<lambda>_. zero_proc\<lparr>pagetable := 0x80001000, sz := 0x1000\<rparr>), curp = 0, nextpid = 1, initproc = 0, ticks = 0,
     trampoline = 0x80001000, forkret_addr = 0x80002000, kout = [], bufs = (\<lambda>_. zero_buf), disk = (\<lambda>n _. ucast n),
     dwrites = [], log_start = 2, outstanding = 0, committing = False, log_dev = ROOTDEV, lh_n = 0, lh_block = (\<lambda>_. 0),
     fsb = \<lparr>sb_magic = FSMAGIC, sb_size = 2000, sb_nblocks = 1954, sb_ninodes = 200, sb_nlog = 31, sb_logstart = 2,
       sb_inodestart = 33, sb_bmapstart = 46\<rparr>,
     itable = (\<lambda>_. zero_inode), cons_buf = (\<lambda>_. 0), cons_r = 0, cons_w = 0, cons_e = 0, tx_busy = False,
     ftable = (\<lambda>_. zero_file), pipes = (\<lambda>_. zero_pipe), stat_pad = [0, 0, 0, 0]\<rparr>"

lemma demo_kernel_sel [simp]:
  "pmem demo_kernel = demo_mem" "curp demo_kernel = 0" "pipes demo_kernel pi = zero_pipe"
  "procs demo_kernel i = zero_proc\<lparr>pagetable := 0x80001000, sz := 0x1000\<rparr>"
  "myproc demo_kernel = zero_proc\<lparr>pagetable := 0x80001000, sz := 0x1000\<rparr>"
  by (simp_all add: demo_kernel_def myproc_def)

lemma demo_kernel_vm: "pt_inv demo_kernel 0x80001000" "owned demo_kernel 0x80001000 {va. upage va}"
proof -
  have "pmem demo_kernel = pmem demo_state" "freelist demo_kernel = freelist demo_state" "kend demo_kernel = kend demo_state"
    by (simp_all add: demo_state_def) (simp_all add: demo_kernel_def)
  note same = phys_same [OF this]
  show "pt_inv demo_kernel 0x80001000" unfolding same(1) by (rule demo_state_facts(1))
  show "owned demo_kernel 0x80001000 {va. upage va}" unfolding same(2) by (rule demo_owned)
qed

lemma demo_page:
  assumes "unat va < 4096"
  shows "uwritable demo_mem 0x80001000 va" "ureadable demo_mem 0x80001000 va" "PGROUNDDOWN va \<in> {va. upage va}"
proof -
  show w: "uwritable demo_mem 0x80001000 va" using demo_writable(1) [OF assms] by (simp add: demo_state_def)
  then show "ureadable demo_mem 0x80001000 va" unfolding uwritable_def ureadable_def by blast
  show "PGROUNDDOWN va \<in> {va. upage va}" by (simp add: demo_writable(2) [OF assms] upage_def pgaligned_def)
qed

end
