(* ===== verification/PipeSpec.thy ===== *)
theory PipeSpec
  imports Syscall Demo
begin

text \<open>
  Pipes are byte queues. The interface \<open>ring\<close> is interpreted on the pipe's buffer, and
  \<open>pipewrite\<close> and \<open>piperead\<close> are shown to move bytes between user memory and that
  queue, in order, and to wake the processes that wait at the other end.
\<close>

section \<open>The ring of a pipe\<close>

interpretation pr: ring PIPESIZE pdata nread nwrite pipe_put pipe_get
  by unfold_locales (simp_all add: pipe_put_def pipe_get_def)

definition pipe_bytes :: "pipe \<Rightarrow> byte list" where
  "pipe_bytes p = ring_list PIPESIZE (pdata p) (nread p) (nwrite p)"

lemma pipe_queue: "pr.queue p = pipe_bytes p"
  unfolding pr.queue_def pipe_bytes_def ..

lemmas pipe_full = pr.full_queue [unfolded pr.fits_def pipe_queue]
lemmas pipe_empty = pr.empty_queue [unfolded pipe_queue]
lemmas pipe_bytes_put = pr.put_queue [unfolded pipe_queue]
lemmas pipe_bytes_get = pr.get_queue [unfolded pipe_queue]

lemma pipe_put_open [simp]: "readopen (pipe_put c p) = readopen p" "writeopen (pipe_put c p) = writeopen p"
  by (simp_all add: pipe_put_def)

lemma pipe_put_all:
  "length (pipe_bytes p) + length bs \<le> PIPESIZE \<Longrightarrow> pipe_bytes (fold pipe_put bs p) = pipe_bytes p @ bs"
  by (induction bs arbitrary: p) (simp_all add: pipe_bytes_put)

lemma pipe_get_all:
  "k \<le> length (pipe_bytes p) \<Longrightarrow> pipe_bytes ((pipe_get ^^ k) p) = drop k (pipe_bytes p)"
proof (induction k arbitrary: p)
  case (Suc k)
  then have "nread p \<noteq> nwrite p" using pipe_empty [of p] by auto
  note g = pipe_bytes_get [OF this]
  then have "k \<le> length (pipe_bytes (pipe_get p))" using Suc.prems by (metis Suc_le_mono length_Cons)
  from Suc.IH [OF this] show ?case by (simp add: funpow_Suc_right g del: funpow.simps)
qed simp

section \<open>Writing\<close>

lemma upd_pipe_simps [simp]:
  "pipes (upd_pipe pi f s) pi = f (pipes s pi)" "pmem (upd_pipe pi f s) = pmem s"
  "myproc (upd_pipe pi f s) = myproc s" "curp (upd_pipe pi f s) = curp s" "procs (upd_pipe pi f s) = procs s"
  "kend (upd_pipe pi f s) = kend s" "freelist (upd_pipe pi f s) = freelist s"
  by (simp_all add: upd_pipe_def myproc_def)

lemma upd_pipe_comp: "upd_pipe pi f (upd_pipe pi g s) = upd_pipe pi (f \<circ> g) s"
  by (simp add: upd_pipe_def)

definition can_read :: "'z kern_scheme \<Rightarrow> u64 \<Rightarrow> nat \<Rightarrow> bool" where
  "can_read s va n \<longleftrightarrow> pt_inv s (pagetable (myproc s)) \<and>
     (\<forall>j < n. ureadable (pmem s) (pagetable (myproc s)) (va + of_nat j))"

definition user_bytes :: "'z kern_scheme \<Rightarrow> u64 \<Rightarrow> nat \<Rightarrow> byte list" where
  "user_bytes s va n = uread (pmem s) (pagetable (myproc s)) va n"

lemma wakeup_pipes [simp]: "pipes (wakeup ch s) = pipes s"
  by (simp add: wakeup_def)

lemma wakeup_user_bytes [simp]: "user_bytes (wakeup ch s) va n = user_bytes s va n"
  by (simp add: user_bytes_def)

lemma user_bytes_Suc: "user_bytes s va (Suc n) = hd (user_bytes s va 1) # user_bytes s (va + 1) n"
  using uread_append [of "pmem s" "pagetable (myproc s)" va 1 n] by (simp add: user_bytes_def uread_def)

lemma pipewrite_loop_spec:
  assumes "can_read s addr n" "readopen (pipes s pi)" "\<not> killed (curp s) s"
    and "length (pipe_bytes (pipes s pi)) \<le> PIPESIZE" "i \<le> n"
    and "k = min (n - i) (PIPESIZE - length (pipe_bytes (pipes s pi)))"
  shows "pipewrite_loop pi addr n i s =
    Inr (if i + k = n then Ret (int n) else Block (ChPipeWrite pi) (RPipeWrite pi addr n (i + k)),
         wakeup (ChPipeRead pi) (upd_pipe pi (fold pipe_put (user_bytes s (addr + of_nat i) k)) s))"
  using assms
proof (induction "n - i" arbitrary: i k s)
  case 0
  then have "i = n" "k = 0" by simp_all
  then show ?case by (simp add: pipewrite_loop.simps [of pi addr n] user_bytes_def uread_def upd_pipe_def)
next
  case (Suc d)
  let ?p = "pipes s pi"
  have i: "i < n" using Suc.hyps(2) by simp
  show ?case
  proof (cases "length (pipe_bytes ?p) = PIPESIZE")
    case True
    then have "k = 0" "nwrite ?p = nread ?p + of_nat PIPESIZE" using Suc.prems(6) pipe_full [OF Suc.prems(4)] by simp_all
    then show ?thesis using i Suc.prems(2,3)
      by (simp add: pipewrite_loop.simps [of pi addr n] user_bytes_def uread_def upd_pipe_def)
  next
    case False
    then have room: "length (pipe_bytes ?p) < PIPESIZE" and nf: "nwrite ?p \<noteq> nread ?p + of_nat PIPESIZE"
      using Suc.prems(4) pipe_full [OF Suc.prems(4)] by simp_all
    define k' where "k' = k - 1"
    have k: "k = Suc k'" using Suc.prems(6) i room by (simp add: k'_def)
    let ?va = "addr + of_nat i" and ?p = "myproc s"
    have c: "copyin (pagetable ?p) (sz ?p) (pagetable ?p) ?va 1 s = Inr (0, user_bytes s ?va 1, s)"
      using copyin_mapped [of s "pagetable ?p" 1 ?va "pagetable ?p" "sz ?p"] Suc.prems(1) i
      by (simp add: can_read_def user_bytes_def)
    define s1 where "s1 = upd_pipe pi (pipe_put (hd (user_bytes s ?va 1))) s"
    have "pipewrite_loop pi addr n i s = pipewrite_loop pi addr n (Suc i) s1"
      using i Suc.prems(2,3) nf c by (simp add: pipewrite_loop.simps [of pi addr n i] s1_def)
    also have "\<dots> = Inr (if Suc i + k' = n then Ret (int n) else Block (ChPipeWrite pi) (RPipeWrite pi addr n (Suc i + k')),
         wakeup (ChPipeRead pi) (upd_pipe pi (fold pipe_put (user_bytes s1 (addr + of_nat (Suc i)) k')) s1))"
    proof (rule Suc.hyps(1))
      show "d = n - Suc i" using Suc.hyps(2) by simp
      show "can_read s1 addr n" using Suc.prems(1) phys_same(1) [of s1 s]
        by (simp add: can_read_def s1_def)
      show "readopen (pipes s1 pi)" "\<not> killed (curp s1) s1" using Suc.prems(2,3) by (simp_all add: s1_def killed_def)
      show "length (pipe_bytes (pipes s1 pi)) \<le> PIPESIZE" "Suc i \<le> n"
        "k' = min (n - Suc i) (PIPESIZE - length (pipe_bytes (pipes s1 pi)))"
        using room i Suc.prems(6) by (simp_all add: s1_def pipe_bytes_put k'_def min_def)
    qed
    also have "upd_pipe pi (fold pipe_put (user_bytes s1 (addr + of_nat (Suc i)) k')) s1 =
        upd_pipe pi (fold pipe_put (user_bytes s ?va k)) s"
      unfolding k user_bytes_Suc [of s ?va k'] by (simp add: s1_def upd_pipe_comp user_bytes_def add_ac comp_def)
    finally show ?thesis by (simp add: k)
  qed
qed

section \<open>Reading\<close>

definition can_write :: "'z kern_scheme \<Rightarrow> u64 set \<Rightarrow> u64 \<Rightarrow> nat \<Rightarrow> bool" where
  "can_write s V va n \<longleftrightarrow> pt_inv s (pagetable (myproc s)) \<and> owned s (pagetable (myproc s)) V \<and>
     (\<forall>j < n. uwritable (pmem s) (pagetable (myproc s)) (va + of_nat j) \<and> PGROUNDDOWN (va + of_nat j) \<in> V)"

lemma uwrites_pmem:
  assumes "uwrites pt V d b n s s'"
  obtains m where "s' = s\<lparr>pmem := m\<rparr>"
proof
  show "s' = s\<lparr>pmem := pmem s'\<rparr>" using assms by (cases s; cases s') (simp add: uwrites_def)
qed

lemma myproc_pmem [simp]: "myproc (s\<lparr>pmem := m\<rparr>) = myproc s"
  by (simp add: myproc_def)

lemma uwrites_pipe:
  "uwrites pt V d b n (upd_pipe pi f s) ((upd_pipe pi f s)\<lparr>pmem := m\<rparr>) = uwrites pt V d b n s (s\<lparr>pmem := m\<rparr>)"
  using phys_same [of "(upd_pipe pi f s)\<lparr>pmem := m\<rparr>" "s\<lparr>pmem := m\<rparr>"] by (simp add: uwrites_def)

lemma uwrites_head: "uwrites pt V d [c] (Suc 0) s s' = uwrites pt V d (c # cs) (Suc 0) s s'"
  by (simp add: uwrites_def)

lemma uwrites_cons:
  assumes w1: "uwrites pt V va [c] 1 s s1" and w2: "uwrites pt V (va + 1) cs k s1 s2"
    and k: "k \<le> length cs" "k < 2 ^ 63"
  shows "uwrites pt V va (c # cs) (Suc k) s s2"
proof -
  have u: "unat (of_nat (Suc k) :: u64) = Suc k" using k(2) by (intro unat_of_nat_u64) simp
  have "uwrites pt V va (c # cs) (unat (of_nat (Suc k) :: u64)) s s2"
  proof (rule uwrites_trans)
    show "uwrites pt V va (c # cs) (unat (1::u64)) s s1" using w1 uwrites_head [of pt V va c s s1 cs] by simp
    show "uwrites pt V (va + 1) (drop (unat (1::u64)) (c # cs)) (unat (of_nat (Suc k) :: u64) - unat (1::u64)) s1 s2"
      unfolding u using w2 by simp
    show "unat (1::u64) \<le> unat (of_nat (Suc k) :: u64)" "unat (of_nat (Suc k) :: u64) \<le> length (c # cs)"
      unfolding u using k by simp_all
  qed
  then show ?thesis unfolding u .
qed

lemma can_write_step:
  assumes "can_write s V va n" "uwrites (pagetable (myproc s)) V d b k s s1"
  shows "can_write (upd_pipe pi f s1) V va n"
proof -
  obtain m where "s1 = s\<lparr>pmem := m\<rparr>" by (rule uwrites_pmem [OF assms(2)])
  then have "myproc s1 = myproc s" by simp
  moreover have "uwritable (pmem s1) pt va = uwritable (pmem s) pt va" if "pt = pagetable (myproc s)" for va pt
    using assms(2) that by (simp add: uwritable_def uwrites_def)
  ultimately show ?thesis using assms phys_same [of "upd_pipe pi f s1" s1]
    by (auto simp: can_write_def uwrites_def)
qed

lemma piperead_loop_spec:
  assumes "can_write s V addr n" "length (pipe_bytes (pipes s pi)) \<le> PIPESIZE" "i \<le> n"
    and "k = min (n - i) (length (pipe_bytes (pipes s pi)))"
  shows "\<exists>m. piperead_loop pi addr n i s = Inr (int (i + k), upd_pipe pi (pipe_get ^^ k) (s\<lparr>pmem := m\<rparr>)) \<and>
    uwrites (pagetable (myproc s)) V (addr + of_nat i) (pipe_bytes (pipes s pi)) k s (s\<lparr>pmem := m\<rparr>)"
  using assms
proof (induction "n - i" arbitrary: i k s)
  case 0
  then have "i = n" "k = 0" by simp_all
  then show ?case using 0
    by (intro exI [of _ "pmem s"]) (simp add: piperead_loop.simps [of pi addr n] upd_pipe_def uwrites_def can_write_def)
next
  case (Suc d)
  let ?p = "pipes s pi" and ?pt = "pagetable (myproc s)" and ?va = "addr + of_nat i"
  have i: "i < n" using Suc.hyps(2) by simp
  show ?case
  proof (cases "nread ?p = nwrite ?p")
    case True
    then have "k = 0" using Suc.prems(4) pipe_empty [of ?p] by simp
    then show ?thesis using i True Suc.prems(1)
      by (intro exI [of _ "pmem s"]) (simp add: piperead_loop.simps [of pi addr n] upd_pipe_def uwrites_def can_write_def)
  next
    case False
    define ch where "ch = pdata ?p (unat (nread ?p) mod PIPESIZE)"
    have bytes: "pipe_bytes ?p = ch # pipe_bytes (pipe_get ?p)" unfolding ch_def by (rule pipe_bytes_get [OF False])
    define k' where "k' = k - 1"
    have k: "k = Suc k'" using Suc.prems(4) i bytes by (simp add: k'_def)
    have k': "k' = min (n - Suc i) (length (pipe_bytes (pipe_get ?p)))" "k' \<le> length (pipe_bytes (pipe_get ?p))"
      using Suc.prems(4) i unfolding bytes by (auto simp: k'_def min_def)
    obtain s1 where c: "copyout ?pt (sz (myproc s)) ?pt ?va [ch] 1 s = Inr (0, s1)" and w: "uwrites ?pt V ?va [ch] 1 s s1"
      using copyout_mapped [of s ?pt V 1 "[ch]" ?va ?pt "sz (myproc s)"] Suc.prems(1) i by (auto simp: can_write_def)
    obtain m1 where s1: "s1 = s\<lparr>pmem := m1\<rparr>" by (rule uwrites_pmem [OF w])
    have d: "d = n - Suc i" using Suc.hyps(2) by simp
    obtain m where m: "piperead_loop pi addr n (Suc i) (upd_pipe pi pipe_get s1) =
        Inr (int (Suc i + k'), upd_pipe pi (pipe_get ^^ k') ((upd_pipe pi pipe_get s1)\<lparr>pmem := m\<rparr>))"
      and w2: "uwrites ?pt V (addr + of_nat (Suc i)) (pipe_bytes (pipe_get ?p)) k' (upd_pipe pi pipe_get s1)
        ((upd_pipe pi pipe_get s1)\<lparr>pmem := m\<rparr>)"
      using Suc.hyps(1) [OF d, of "upd_pipe pi pipe_get s1" k'] can_write_step [OF Suc.prems(1) w] i k' bytes Suc.prems(2)
      by (auto simp: s1)
    have w3: "uwrites ?pt V ?va (pipe_bytes ?p) k s (s\<lparr>pmem := m\<rparr>)"
      unfolding bytes k
    proof (rule uwrites_cons [OF w])
      show "uwrites ?pt V (?va + 1) (pipe_bytes (pipe_get ?p)) k' s1 (s\<lparr>pmem := m\<rparr>)"
        using w2 s1 by (simp add: uwrites_pipe add_ac)
      show "k' \<le> length (pipe_bytes (pipe_get ?p))" by (rule k'(2))
      show "k' < 2 ^ 63" using k'(2) bytes Suc.prems(2) by simp
    qed
    have up: "upd_pipe pi (pipe_get ^^ k') ((upd_pipe pi pipe_get s1)\<lparr>pmem := m\<rparr>) = upd_pipe pi (pipe_get ^^ k) (s\<lparr>pmem := m\<rparr>)"
      unfolding k funpow_Suc_right by (simp add: s1 upd_pipe_def)
    have "piperead_loop pi addr n i s = Inr (int (i + k), upd_pipe pi (pipe_get ^^ k) (s\<lparr>pmem := m\<rparr>))"
      using i False c m up by (simp add: piperead_loop.simps [of pi addr n i] ch_def k del: funpow.simps)
    with w3 show ?thesis by blast
  qed
qed

lemma piperead_spec:
  assumes "can_write s V addr n" "length (pipe_bytes (pipes s pi)) \<le> PIPESIZE"
    and "pipe_bytes (pipes s pi) \<noteq> [] \<or> \<not> writeopen (pipes s pi)"
    and "k = min n (length (pipe_bytes (pipes s pi)))"
  obtains s' where "piperead pi addr n s = Inr (Ret (int k), wakeup (ChPipeWrite pi) s')"
    "uwrites (pagetable (myproc s)) V addr (pipe_bytes (pipes s pi)) k s (s\<lparr>pmem := pmem s'\<rparr>)"
    "pipe_bytes (pipes s' pi) = drop k (pipe_bytes (pipes s pi))"
    "user_bytes s' addr k = take k (pipe_bytes (pipes s pi))" "procs s' = procs s" "curp s' = curp s"
proof -
  obtain m where m: "piperead_loop pi addr n 0 s = Inr (int k, upd_pipe pi (pipe_get ^^ k) (s\<lparr>pmem := m\<rparr>))"
    and w: "uwrites (pagetable (myproc s)) V addr (pipe_bytes (pipes s pi)) k s (s\<lparr>pmem := m\<rparr>)"
    using piperead_loop_spec [OF assms(1,2) le0, of k] assms(4) by auto
  have "\<not> (nread (pipes s pi) = nwrite (pipes s pi) \<and> writeopen (pipes s pi))"
    using assms(3) pipe_empty [of "pipes s pi"] by auto
  then have run: "piperead pi addr n s =
      Inr (Ret (int k), wakeup (ChPipeWrite pi) (upd_pipe pi (pipe_get ^^ k) (s\<lparr>pmem := m\<rparr>)))"
    using m by (simp add: piperead_def)
  have "uread m (pagetable (myproc s)) addr k = take k (pipe_bytes (pipes s pi))"
    using uwrites_uread(1) [OF w] assms(1,2,4) by (simp add: can_write_def)
  then show thesis using that [OF run] w assms(4) by (simp add: pipe_get_all user_bytes_def)
qed

section \<open>Sample states\<close>

lemma demo_can:
  assumes "unat va + n < 4096"
  shows "can_read demo_kernel va n" "can_write demo_kernel {va. upage va} va n"
proof -
  have "unat (va + of_nat j) < 4096" if "j < n" for j
    using assms that by (simp add: unat_word_ariths unat_of_nat)
  note p = demo_page [OF this]
  show "can_read demo_kernel va n" "can_write demo_kernel {va. upage va} va n"
    using demo_kernel_vm p by (simp_all add: can_read_def can_write_def)
qed

lemma demo_empty_pipe: "pipe_bytes zero_pipe = []" "readopen zero_pipe"
  using pipe_empty [of zero_pipe] by (simp_all add: zero_pipe_def)

definition demo_full :: filest where
  "demo_full = demo_kernel\<lparr>pipes := (\<lambda>_. fold pipe_put [7, 8, 9] zero_pipe)\<rparr>"

lemma demo_full_bytes: "pipe_bytes (pipes demo_full pi) = [7, 8, 9]"
  using pipe_put_all [of zero_pipe "[7, 8, 9]"] demo_empty_pipe by (simp add: demo_full_def)

lemma demo_full_can: "unat va + n < 4096 \<Longrightarrow> can_write demo_full {va. upage va} va n"
  using demo_can(2) [of va n] phys_same [of demo_full demo_kernel]
  by (simp add: can_write_def demo_full_def myproc_def)

definition demo_sleeper :: filest where
  "demo_sleeper = demo_kernel\<lparr>procs := (procs demo_kernel)
     (1 := (procs demo_kernel 1)\<lparr>pstate := SLEEPING, pchan := Some (ChPipeRead 0x80005000)\<rparr>)\<rparr>"

lemma demo_sleeper_sel:
  "curp demo_sleeper = 0" "pipes demo_sleeper pi = zero_pipe" "procs demo_sleeper 0 = procs demo_kernel 0"
  "pstate (procs demo_sleeper 1) = SLEEPING" "pchan (procs demo_sleeper 1) = Some (ChPipeRead 0x80005000)"
  by (simp_all add: demo_sleeper_def demo_kernel_def)

lemma demo_sleeper_can:
  "unat va + n < 4096 \<Longrightarrow> can_read demo_sleeper va n"
  "unat va + n < 4096 \<Longrightarrow> can_write (demo_sleeper\<lparr>curp := 1\<rparr>) {va. upage va} va n"
  using demo_can [of va n] phys_same [of demo_sleeper demo_kernel] phys_same [of "demo_sleeper\<lparr>curp := 1\<rparr>" demo_kernel]
  by (simp_all add: can_write_def can_read_def demo_sleeper_def myproc_def)

section \<open>Properties\<close>

text \<open>
  C24. Writing to a pipe whose reading end is open appends to the pipe's queue: of the \<open>n\<close> bytes
  in the caller's memory the first \<open>k\<close> are appended in order, where \<open>k\<close> is what fits;
  if all fit the call returns \<open>n\<close>, otherwise the caller sleeps and will go on at byte \<open>k\<close>. The
  queue never exceeds the buffer, also when the 32-bit counters wrap around, and memory is unchanged.
\<close>

theorem pipe_write_appends:
  assumes "can_read s addr n" and "readopen (pipes s pi)" and "\<not> killed (curp s) s"
    and "length (pipe_bytes (pipes s pi)) \<le> PIPESIZE"
    and "k = min n (PIPESIZE - length (pipe_bytes (pipes s pi)))"
  shows "\<exists>s'. pipewrite pi addr (int n) s =
      Inr (if k = n then Ret (int n) else Block (ChPipeWrite pi) (RPipeWrite pi addr n k), s') \<and>
    pipe_bytes (pipes s' pi) = pipe_bytes (pipes s pi) @ take k (user_bytes s addr n) \<and>
    length (pipe_bytes (pipes s' pi)) \<le> PIPESIZE \<and> pmem s' = pmem s"
proof -
  have k: "user_bytes s addr k = take k (user_bytes s addr n)"
    using assms(5) by (simp add: user_bytes_def uread_def take_map)
  have len: "length (take k (user_bytes s addr n)) = k" using assms(5) by (simp add: user_bytes_def uread_def)
  let ?s' = "wakeup (ChPipeRead pi) (upd_pipe pi (fold pipe_put (take k (user_bytes s addr n))) s)"
  have "pipewrite pi addr (int n) s =
      Inr (if k = n then Ret (int n) else Block (ChPipeWrite pi) (RPipeWrite pi addr n k), ?s')"
    using pipewrite_loop_spec [OF assms(1-4) le0, of k] assms(5) k by (simp add: pipewrite_def)
  moreover have "pipe_bytes (pipes ?s' pi) = pipe_bytes (pipes s pi) @ take k (user_bytes s addr n)"
    using pipe_put_all [of "pipes s pi" "take k (user_bytes s addr n)"] assms(4,5) len by (simp add: wakeup_def)
  moreover from this have "length (pipe_bytes (pipes ?s' pi)) \<le> PIPESIZE" using assms(4,5) len by simp
  ultimately show ?thesis by auto
qed

theorem pipe_write_appends_witness:
  "\<exists>s'. pipewrite 0x80005000 0x10 3 demo_kernel = Inr (Ret 3, s') \<and>
    pipe_bytes (pipes s' 0x80005000) = user_bytes demo_kernel 0x10 3"
proof -
  have "length (user_bytes demo_kernel 0x10 3) = 3" by (simp add: user_bytes_def uread_def)
  then show ?thesis
    using pipe_write_appends [OF demo_can(1) [of "0x10" 3], of "0x80005000" 3] demo_empty_pipe by (auto simp: killed_def zero_proc_def)
qed

text \<open>
  C25. Reading from a pipe that holds bytes, or whose writing end is closed, takes the oldest bytes:
  the call returns the number \<open>k\<close> of bytes taken (0 for end of file), the reader's buffer holds
  them in order, exactly that buffer of the reader's memory is written, and the rest of the queue stays.
\<close>

theorem pipe_read_takes:
  assumes "can_write s V addr n" and "length (pipe_bytes (pipes s pi)) \<le> PIPESIZE"
    and "pipe_bytes (pipes s pi) \<noteq> [] \<or> \<not> writeopen (pipes s pi)"
    and "k = min n (length (pipe_bytes (pipes s pi)))"
  shows "\<exists>s'. piperead pi addr n s = Inr (Ret (int k), s') \<and>
    user_bytes s' addr k = take k (pipe_bytes (pipes s pi)) \<and>
    pipe_bytes (pipes s' pi) = drop k (pipe_bytes (pipes s pi)) \<and>
    uwrites (pagetable (myproc s)) V addr (pipe_bytes (pipes s pi)) k s (s\<lparr>pmem := pmem s'\<rparr>)"
proof -
  obtain s' where "piperead pi addr n s = Inr (Ret (int k), wakeup (ChPipeWrite pi) s')"
    "uwrites (pagetable (myproc s)) V addr (pipe_bytes (pipes s pi)) k s (s\<lparr>pmem := pmem s'\<rparr>)"
    "pipe_bytes (pipes s' pi) = drop k (pipe_bytes (pipes s pi))"
    "user_bytes s' addr k = take k (pipe_bytes (pipes s pi))"
    by (rule piperead_spec [OF assms])
  then show ?thesis by auto
qed

theorem pipe_read_takes_witness:
  "\<exists>s'. piperead 0x80005000 0x10 2 demo_full = Inr (Ret 2, s') \<and> user_bytes s' 0x10 2 = [7, 8] \<and>
    pipe_bytes (pipes s' 0x80005000) = [9]"
  using pipe_read_takes [OF demo_full_can, of "0x10" 2 "0x80005000" 2] demo_full_bytes by auto

text \<open>
  C26. No wakeup is lost: a process \<open>b\<close> that sleeps in a read of an empty pipe is made runnable by
  a write of another process; once the scheduler picks it, its read goes on and returns the first
  bytes the writer had in its memory.
\<close>

theorem pipe_wakes_reader:
  assumes "can_read s src n" and "readopen (pipes s pi)" and "\<not> killed (curp s) s"
    and "pipe_bytes (pipes s pi) = []" and "0 < n" and "n \<le> PIPESIZE"
    and "b < NPROC" and "b \<noteq> curp s" and "pstate (procs s b) = SLEEPING" and "pchan (procs s b) = Some (ChPipeRead pi)"
    and "can_write (s\<lparr>curp := b\<rparr>) V dst m"
  shows "\<exists>s1 s2 s3. pipewrite pi src (int n) s = Inr (Ret (int n), s1) \<and> schedule b s1 = Some s2 \<and>
    resume_call (RPipeRead pi dst m) s2 = Inr (Ret (int (min m n)), s3) \<and>
    user_bytes s3 dst (min m n) = take m (user_bytes s src n) \<and>
    pipe_bytes (pipes s3 pi) = drop m (user_bytes s src n)"
proof -
  let ?bs = "user_bytes s src n"
  have len: "length ?bs = n" by (simp add: user_bytes_def uread_def)
  let ?s1 = "wakeup (ChPipeRead pi) (upd_pipe pi (fold pipe_put ?bs) s)"
  have w: "pipewrite pi src (int n) s = Inr (Ret (int n), ?s1)"
    using pipewrite_loop_spec [OF assms(1-3) _ le0, of n] assms(4,6) by (simp add: pipewrite_def)
  have q: "pipe_bytes (pipes ?s1 pi) = ?bs"
    using pipe_put_all [of "pipes s pi" ?bs] assms(4,6) len by (simp add: wakeup_def)
  let ?s2 = "upd_proc b (\<lambda>p. p\<lparr>pstate := RUNNING\<rparr>) (?s1\<lparr>curp := b\<rparr>)"
  have sch: "schedule b ?s1 = Some ?s2" using assms(7-10) by (simp add: schedule_def wakeup_def)
  let ?t = "wake_tidy ?s2"
  have t: "pipes ?t pi = pipes ?s1 pi" "pagetable (myproc ?t) = pagetable (procs s b)"
    "pmem ?t = pmem s" "freelist ?t = freelist s" "kend ?t = kend s"
    by (simp_all add: wake_tidy_def upd_proc_def myproc_def wakeup_def)
  have "can_write ?t V dst m"
    using assms(11) t phys_same [of ?t "s\<lparr>curp := b\<rparr>"] by (simp add: can_write_def myproc_def)
  then obtain s3 where r: "piperead pi dst m ?t = Inr (Ret (int (min m n)), wakeup (ChPipeWrite pi) s3)"
    "pipe_bytes (pipes s3 pi) = drop (min m n) ?bs" "user_bytes s3 dst (min m n) = take (min m n) ?bs"
    using piperead_spec [of ?t V dst m pi "min m n"] q t(1) len assms(5,6) by (metis length_0_conv less_irrefl)
  have "take (min m n) ?bs = take m ?bs" "drop (min m n) ?bs = drop m ?bs"
    using len by (simp_all add: min_def)
  moreover have "resume_call (RPipeRead pi dst m) ?s2 = Inr (Ret (int (min m n)), wakeup (ChPipeWrite pi) s3)"
    using r(1) by (simp add: resume_call_def)
  ultimately show ?thesis using w sch r(2,3) wakeup_pipes [of "ChPipeWrite pi" s3]
      wakeup_user_bytes [of "ChPipeWrite pi" s3] by metis
qed

theorem pipe_wakes_reader_witness:
  "\<exists>s1 s2 s3. pipewrite 0x80005000 0x10 3 demo_sleeper = Inr (Ret 3, s1) \<and> schedule 1 s1 = Some s2 \<and>
    resume_call (RPipeRead 0x80005000 0x100 2) s2 = Inr (Ret 2, s3) \<and>
    user_bytes s3 0x100 2 = take 2 (user_bytes demo_sleeper 0x10 3)"
  using pipe_wakes_reader [OF demo_sleeper_can(1) [of "0x10" 3], of "0x80005000" 1 "{va. upage va}" "0x100" 2]
    demo_sleeper_can(2) [of "0x100" 2] demo_empty_pipe demo_sleeper_sel
  by (auto simp: killed_def zero_proc_def)

end
