(* ===== verification/ConsSpec.thy ===== *)
theory ConsSpec
  imports Demo PipeSpec
begin

text \<open>
  The line discipline of the console. The ring of input is seen as two byte strings: what
  readers may take (\<open>cons_ready\<close>) and the line still being edited (\<open>cons_line\<close>).
  \<open>consoleintr\<close> is shown to refine a line editor on these two strings, \<open>consoleread\<close> to hand out lines.
\<close>

section \<open>The ring of input\<close>

interpretation cr: ring INPUT_BUF_SIZE cons_buf cons_r cons_e cons_put cons_get
  by unfold_locales (simp_all add: cons_put_def cons_get_def)

definition cons_ready :: "'z consst_scheme \<Rightarrow> byte list" where
  "cons_ready s = ring_list INPUT_BUF_SIZE (cons_buf s) (cons_r s) (cons_w s)"

definition cons_line :: "'z consst_scheme \<Rightarrow> byte list" where
  "cons_line s = ring_list INPUT_BUF_SIZE (cons_buf s) (cons_w s) (cons_e s)"

text \<open>The write index lies between the other two, the buffer is not exceeded, and a line in progress has no end mark.\<close>

definition cons_inv :: "'z consst_scheme \<Rightarrow> bool" where
  "cons_inv s \<longleftrightarrow> unat (cons_e s - cons_r s) = unat (cons_w s - cons_r s) + unat (cons_e s - cons_w s) \<and>
     unat (cons_e s - cons_r s) \<le> INPUT_BUF_SIZE \<and> 10 \<notin> set (cons_line s)"

lemma cons_queue: "cons_inv s \<Longrightarrow> cr.queue s = cons_ready s @ cons_line s"
  unfolding cr.queue_def cons_ready_def cons_line_def cons_inv_def by (intro ring_split) simp_all


lemma cons_put_view:
  assumes inv: "cons_inv s" and room: "length (cons_ready s) + length (cons_line s) < INPUT_BUF_SIZE"
  shows "cons_ready (cons_put c s) = cons_ready s" "cons_line (cons_put c s) = cons_line s @ [c]"
    and "c \<noteq> 10 \<Longrightarrow> cons_inv (cons_put c s)"
    and "cr.queue (cons_put c s) = cons_ready s @ cons_line s @ [c]"
proof -
  have room': "unat (cons_w s - cons_r s) + unat (cons_e s - cons_w s) < INPUT_BUF_SIZE"
    using room by (simp add: cons_ready_def cons_line_def)
  show line: "cons_line (cons_put c s) = cons_line s @ [c]"
    using ring_put [of INPUT_BUF_SIZE "cons_e s" "cons_w s" "cons_buf s" c] room'
    by (simp add: cons_line_def cons_put_def)
  show q: "cr.queue (cons_put c s) = cons_ready s @ cons_line s @ [c]"
    using cr.put_queue [of s c] cons_queue [OF inv] room by simp
  have "unat (cons_e s + 1 - cons_r s) = Suc (unat (cons_e s - cons_r s))"
    using arg_cong [OF q, of length] inv unfolding cr.queue_def
    by (simp add: cons_put_def cons_ready_def cons_line_def cons_inv_def)
  moreover have "unat (cons_e s + 1 - cons_w s) = Suc (unat (cons_e s - cons_w s))"
    using arg_cong [OF line, of length] by (simp add: cons_put_def cons_line_def)
  ultimately have sp: "unat (cons_e s + 1 - cons_r s) = unat (cons_w s - cons_r s) + unat (cons_e s + 1 - cons_w s)"
    and le: "unat (cons_e s + 1 - cons_r s) \<le> INPUT_BUF_SIZE"
    using inv room' by (simp_all add: cons_inv_def)
  show "cons_inv (cons_put c s)" if "c \<noteq> 10"
    using sp le line that inv unfolding cons_inv_def by (simp add: cons_put_def)
  have "cr.queue (cons_put c s) = cons_ready (cons_put c s) @ cons_line (cons_put c s)"
    unfolding cr.queue_def cons_ready_def cons_line_def by (rule ring_split) (use sp in \<open>simp_all add: cons_put_def\<close>)
  then show "cons_ready (cons_put c s) = cons_ready s" using q line by simp
qed

lemma cons_commit_view:
  "cons_ready (s\<lparr>cons_w := cons_e s\<rparr>) = cr.queue s" "cons_line (s\<lparr>cons_w := cons_e s\<rparr>) = []"
  "length (cr.queue s) \<le> INPUT_BUF_SIZE \<Longrightarrow> cons_inv (s\<lparr>cons_w := cons_e s\<rparr>)"
  unfolding cons_ready_def cons_line_def cr.queue_def cons_inv_def by (simp_all add: ring_list_def)

lemma cons_erase_view:
  assumes inv: "cons_inv s" and ne: "cons_e s \<noteq> cons_w s"
  shows "cons_ready (s\<lparr>cons_e := cons_e s - 1\<rparr>) = cons_ready s"
    "cons_line (s\<lparr>cons_e := cons_e s - 1\<rparr>) = butlast (cons_line s)" "cons_inv (s\<lparr>cons_e := cons_e s - 1\<rparr>)"
proof -
  show "cons_ready (s\<lparr>cons_e := cons_e s - 1\<rparr>) = cons_ready s" by (simp add: cons_ready_def)
  show l: "cons_line (s\<lparr>cons_e := cons_e s - 1\<rparr>) = butlast (cons_line s)"
    using ring_unput [of INPUT_BUF_SIZE "cons_w s" "cons_e s"] ne by (simp add: cons_line_def)
  have pos: "0 < unat (cons_e s - cons_w s)" using ne by (simp add: unat_gt_0)
  then have "cons_e s - cons_w s \<noteq> 0" "cons_e s - cons_r s \<noteq> 0"
    using inv by (auto simp: cons_inv_def)
  note m = unat_minus_one [OF this(1)] unat_minus_one [OF this(2)]
  have eq: "cons_e s - 1 - cons_w s = cons_e s - cons_w s - 1" "cons_e s - 1 - cons_r s = cons_e s - cons_r s - 1"
    by simp_all
  have "unat (cons_e s - 1 - cons_r s) = unat (cons_w s - cons_r s) + unat (cons_e s - 1 - cons_w s)"
    "unat (cons_e s - 1 - cons_r s) \<le> INPUT_BUF_SIZE"
    using inv pos unfolding eq m cons_inv_def by linarith+
  moreover have "10 \<notin> set (butlast (cons_line s))" using inv by (auto simp: cons_inv_def dest: in_set_butlastD)
  ultimately show "cons_inv (s\<lparr>cons_e := cons_e s - 1\<rparr>)" using l by (simp add: cons_inv_def)
qed

text \<open>What only prints leaves the input alone.\<close>

lemma cons_out [simp]:
  "cons_ready (s\<lparr>kout := x\<rparr>) = cons_ready s" "cons_line (s\<lparr>kout := x\<rparr>) = cons_line s"
  "cons_inv (s\<lparr>kout := x\<rparr>) = cons_inv s"
  by (simp_all add: cons_ready_def cons_line_def cons_inv_def)

lemma consputc_out: "\<exists>x. consputc c s = s\<lparr>kout := x\<rparr>"
  by (auto simp: consputc_def uartputc_sync_def kprint_def)

lemma kprintf_out: "\<exists>x. kprintf f as s = s\<lparr>kout := x\<rparr>"
  by (cases "printf (str f) as") (auto simp: kprintf_def kprint_def intro: exI [of _ "kout s"])

lemma fold_out:
  assumes "\<And>i s. \<exists>x. f i s = s\<lparr>kout := x\<rparr>"
  shows "\<exists>x. fold f is s = s\<lparr>kout := x\<rparr>"
proof (induction "is" arbitrary: s)
  case Nil
  show ?case by (rule exI [of _ "kout s"]) simp
next
  case (Cons i "is")
  obtain x where "f i s = s\<lparr>kout := x\<rparr>" using assms by blast
  with Cons [of "s\<lparr>kout := x\<rparr>"] show ?case by auto
qed

lemma procdump_out: "\<exists>x. procdump s = s\<lparr>kout := x\<rparr>"
proof -
  let ?f = "\<lambda>i s. if pstate (procs s i) = UNUSED then s
     else kprintf ''\<newline>'' [] (kprintf ''%d %s %s'' [PInt (scast (pid (procs s i))),
       PStr (Some (str (state_name (pstate (procs s i))))), PStr (Some (pname (procs s i)))] s)"
  have "\<exists>x. ?f i t = t\<lparr>kout := x\<rparr>" for i and t :: "'a kern_scheme"
  proof (cases "pstate (procs t i) = UNUSED")
    case False
    obtain x where x: "kprintf ''%d %s %s'' [PInt (scast (pid (procs t i))),
       PStr (Some (str (state_name (pstate (procs t i))))), PStr (Some (pname (procs t i)))] t = t\<lparr>kout := x\<rparr>"
      using kprintf_out by blast
    obtain y where "kprintf ''\<newline>'' [] (t\<lparr>kout := x\<rparr>) = t\<lparr>kout := x\<rparr>\<lparr>kout := y\<rparr>" using kprintf_out by blast
    then show ?thesis using False x by auto
  qed (auto intro: exI [of _ "kout t"])
  from fold_out [of ?f, OF this] kprintf_out [of "''\<newline>''" "[]" s] show ?thesis
    unfolding procdump_def by (metis (no_types, lifting) kern.surjective kern.update_convs(8))
qed

lemma last_line:
  assumes "cons_e s \<noteq> cons_w s"
  shows "last (cons_line s) = cons_buf s (unat (cons_e s - 1) mod INPUT_BUF_SIZE)" "cons_line s \<noteq> []"
proof -
  let ?n = "unat (cons_e s - cons_w s)"
  have pos: "0 < ?n" using assms by (simp add: unat_gt_0)
  then show ne: "cons_line s \<noteq> []" using length_ring_list by (metis cons_line_def length_greater_0_conv)
  have "last (cons_line s) = cons_buf s (unat (cons_w s + of_nat (?n - 1)) mod INPUT_BUF_SIZE)"
    using pos ne by (simp add: last_conv_nth cons_line_def ring_list_def del: INPUT_BUF_SIZE_def)
  moreover have "cons_w s + of_nat (?n - 1) = cons_e s - 1" using pos by (simp add: of_nat_diff)
  ultimately show "last (cons_line s) = cons_buf s (unat (cons_e s - 1) mod INPUT_BUF_SIZE)" by simp
qed

lemma kill_line_view:
  "cons_inv s \<Longrightarrow> cons_ready (kill_line s) = cons_ready s \<and> cons_line (kill_line s) = [] \<and> cons_inv (kill_line s)"
proof (induction s rule: kill_line.induct)
  case (1 s)
  show ?case
  proof (cases "cons_e s = cons_w s")
    case True
    then show ?thesis using 1(2) by (simp add: kill_line.simps [of s] cons_line_def ring_list_def)
  next
    case False
    then have go: "cons_buf s (unat (cons_e s - 1) mod INPUT_BUF_SIZE) \<noteq> 10"
      using last_line [OF False] 1(2) last_in_set by (fastforce simp: cons_inv_def)
    obtain x where x: "consputc BACKSPACE (s\<lparr>cons_e := cons_e s - 1\<rparr>) = s\<lparr>cons_e := cons_e s - 1, kout := x\<rparr>"
      using consputc_out [of BACKSPACE "s\<lparr>cons_e := cons_e s - 1\<rparr>"] by auto
    have "s\<lparr>cons_e := cons_e s - 1, kout := x\<rparr> = s\<lparr>cons_e := cons_e s - 1\<rparr>\<lparr>kout := x\<rparr>" by simp
    note e = cons_erase_view [OF 1(2) False]
    have "kill_line s = kill_line (s\<lparr>cons_e := cons_e s - 1\<rparr>\<lparr>kout := x\<rparr>)"
      using False go x by (simp add: kill_line.simps [of s])
    moreover have "cons_e s \<noteq> cons_w s \<and> cons_buf s (unat (cons_e s - 1) mod INPUT_BUF_SIZE) \<noteq> 10" using False go by blast
    note 1(1) [OF this]
    ultimately show ?thesis using e x by simp
  qed
qed

section \<open>The abstract line editor\<close>

definition line_edit :: "byte \<Rightarrow> byte list \<times> byte list \<Rightarrow> byte list \<times> byte list" where
  "line_edit c = (\<lambda>(ready, line).
     if c = ctrl CHR ''P'' then (ready, line)
     else if c = ctrl CHR ''U'' then (ready, [])
     else if c = ctrl CHR ''H'' \<or> c = 0x7f then (ready, butlast line)
     else if c \<noteq> 0 \<and> length ready + length line < INPUT_BUF_SIZE then
       let c' = (if c = 13 then 10 else c); line' = line @ [c'] in
       if c' = 10 \<or> c' = ctrl CHR ''D'' \<or> length ready + length line' = INPUT_BUF_SIZE
       then (ready @ line', []) else (ready, line')
     else (ready, line))"

definition cons_view :: "'z consst_scheme \<Rightarrow> byte list \<times> byte list" where
  "cons_view s = (cons_ready s, cons_line s)"

lemma cons_wakeup [simp]:
  "cons_ready (wakeup ch s) = cons_ready s" "cons_line (wakeup ch s) = cons_line s" "cons_inv (wakeup ch s) = cons_inv s"
  by (simp_all add: wakeup_def cons_ready_def cons_line_def cons_inv_def)

lemma cons_room:
  "cons_inv s \<Longrightarrow> cons_e s - cons_r s < of_nat INPUT_BUF_SIZE \<longleftrightarrow> length (cons_ready s) + length (cons_line s) < INPUT_BUF_SIZE"
  by (simp add: word_less_nat_alt cons_inv_def cons_ready_def cons_line_def)

lemma u32_eq_128: "(x::u32) = 128 \<longleftrightarrow> unat x = 128"
  by (simp add: word_unat_eq_iff)

lemma type_char:
  assumes inv: "cons_inv s" and room: "length (cons_ready s) + length (cons_line s) < INPUT_BUF_SIZE"
    and s2: "s2 = cons_put c s" and stop: "stop \<longleftrightarrow> c = 10 \<or> c = ctrl CHR ''D'' \<or> cons_e s2 - cons_r s2 = of_nat INPUT_BUF_SIZE"
    and s3: "s3 = (if stop then wakeup ChConsRead (s2\<lparr>cons_w := cons_e s2\<rparr>) else s2)"
  shows "cons_inv s3" and "cons_view s3 = (if c = 10 \<or> c = ctrl CHR ''D'' \<or>
      length (cons_ready s) + length (cons_line s @ [c]) = INPUT_BUF_SIZE
    then (cons_ready s @ cons_line s @ [c], []) else (cons_ready s, cons_line s @ [c]))"
proof -
  note v = cons_put_view [OF inv room, of c, folded s2]
  have "unat (cons_e s2 - cons_r s2) = length (cons_ready s) + length (cons_line s @ [c])"
    using arg_cong [OF v(4), of length] unfolding cr.queue_def by simp
  then have full: "cons_e s2 - cons_r s2 = of_nat INPUT_BUF_SIZE \<longleftrightarrow>
      length (cons_ready s) + length (cons_line s @ [c]) = INPUT_BUF_SIZE"
    by (simp add: u32_eq_128)
  have "cons_inv s3 \<and> cons_view s3 = (if stop then (cons_ready s @ cons_line s @ [c], []) else (cons_ready s, cons_line s @ [c]))"
  proof (cases stop)
    case True
    then show ?thesis using s3 v(4) room cons_commit_view [of s2] by (simp add: cons_view_def)
  next
    case False
    then show ?thesis using s3 v(1-3) stop by (simp add: cons_view_def)
  qed
  then show "cons_inv s3" and "cons_view s3 = (if c = 10 \<or> c = ctrl CHR ''D'' \<or>
      length (cons_ready s) + length (cons_line s @ [c]) = INPUT_BUF_SIZE
    then (cons_ready s @ cons_line s @ [c], []) else (cons_ready s, cons_line s @ [c]))"
    unfolding stop full by simp_all
qed

lemma consoleintr_refines:
  assumes "cons_inv s"
  shows "cons_inv (consoleintr c s) \<and> cons_view (consoleintr c s) = line_edit c (cons_view s)"
proof -
  consider (P) "c = ctrl CHR ''P''" | (U) "c \<noteq> ctrl CHR ''P''" "c = ctrl CHR ''U''"
    | (H) "c \<noteq> ctrl CHR ''P''" "c \<noteq> ctrl CHR ''U''" "c = ctrl CHR ''H'' \<or> c = 0x7f"
    | (C) "c \<noteq> ctrl CHR ''P''" "c \<noteq> ctrl CHR ''U''" "\<not> (c = ctrl CHR ''H'' \<or> c = 0x7f)" by blast
  then show ?thesis
  proof cases
    case P
    obtain x where "procdump s = s\<lparr>kout := x\<rparr>" using procdump_out by blast
    with P show ?thesis using assms by (simp add: consoleintr_def line_edit_def cons_view_def)
  next
    case U
    then show ?thesis using kill_line_view [OF assms] by (simp add: consoleintr_def line_edit_def cons_view_def)
  next
    case H
    show ?thesis
    proof (cases "cons_e s = cons_w s")
      case True
      then have "cons_line s = []" by (simp add: cons_line_def ring_list_def)
      with H True show ?thesis using assms by (simp add: consoleintr_def line_edit_def cons_view_def)
    next
      case False
      obtain x where "consputc BACKSPACE (s\<lparr>cons_e := cons_e s - 1\<rparr>) = s\<lparr>cons_e := cons_e s - 1\<rparr>\<lparr>kout := x\<rparr>"
        using consputc_out by blast
      then have "consoleintr c s = s\<lparr>cons_e := cons_e s - 1\<rparr>\<lparr>kout := x\<rparr>" using H False by (simp add: consoleintr_def)
      then show ?thesis using H cons_erase_view [OF assms False]
        unfolding cons_view_def cons_out by (simp only: cons_out) (simp add: line_edit_def)
    qed
  next
    case C
    define c' where "c' = (if c = 13 then 10 else c)"
    obtain x where x: "consputc (ucast c') s = s\<lparr>kout := x\<rparr>" using consputc_out by blast
    let ?s = "s\<lparr>kout := x\<rparr>"
    have inv: "cons_inv ?s" "cons_ready ?s = cons_ready s" "cons_line ?s = cons_line s" using assms by simp_all
    note r = cons_room [OF assms]
    show ?thesis
    proof (cases "c \<noteq> 0 \<and> length (cons_ready s) + length (cons_line s) < INPUT_BUF_SIZE")
      case True
      note t = type_char [OF inv(1), unfolded inv(2,3), OF _ refl refl refl, of c']
      have "consoleintr c s = (let s2 = cons_put c' ?s in if c' = 10 \<or> c' = ctrl CHR ''D'' \<or>
          cons_e s2 - cons_r s2 = of_nat INPUT_BUF_SIZE then wakeup ChConsRead (s2\<lparr>cons_w := cons_e s2\<rparr>) else s2)"
        using C True r by (simp add: consoleintr_def Let_def x flip: c'_def)
      moreover have "line_edit c (cons_view s) = (if c' = 10 \<or> c' = ctrl CHR ''D'' \<or>
          length (cons_ready s) + length (cons_line s @ [c']) = INPUT_BUF_SIZE
          then (cons_ready s @ cons_line s @ [c'], []) else (cons_ready s, cons_line s @ [c']))"
        using C True by (simp add: line_edit_def cons_view_def Let_def flip: c'_def)
      ultimately show ?thesis using t True by (simp add: Let_def)
    next
      case False
      then show ?thesis using C r assms by (auto simp: consoleintr_def line_edit_def cons_view_def)
    qed
  qed
qed

section \<open>Reading lines\<close>

text \<open>
  What a read of \<open>n\<close> bytes takes from the ready bytes: up to a newline, or up to a control-D, which ends the
  read and stays for the next one if some bytes were already delivered (\<open>got\<close>). \<open>None\<close>: the reader has to wait.
\<close>

fun line_take :: "nat \<Rightarrow> bool \<Rightarrow> byte list \<Rightarrow> (byte list \<times> byte list) option" where
  "line_take 0 got cs = Some ([], cs)"
| "line_take (Suc n) got [] = None"
| "line_take (Suc n) got (c # cs) =
     (if c = ctrl CHR ''D'' then Some ([], if got then c # cs else cs)
      else if c = 10 then Some ([c], cs)
      else map_option (\<lambda>(bs, rest). (c # bs, rest)) (line_take n True cs))"

lemma line_take_length: "line_take n got cs = Some (bs, rest) \<Longrightarrow> length bs \<le> n"
  by (induction n got cs arbitrary: bs rest rule: line_take.induct) (auto split: if_splits)

lemma uwrites_same:
  assumes "pmem s = pmem t" "freelist s = freelist t" "kend s = kend t"
  shows "uwrites pt V d b n s (s\<lparr>pmem := m\<rparr>) = uwrites pt V d b n t (t\<lparr>pmem := m\<rparr>)"
  using phys_same [of "s\<lparr>pmem := m\<rparr>" "t\<lparr>pmem := m\<rparr>"] assms by (simp add: uwrites_def)

lemma cons_get_view:
  assumes "cons_ready s = c # cs"
  shows "cons_r s \<noteq> cons_w s" "cons_buf s (unat (cons_r s) mod INPUT_BUF_SIZE) = c"
    "cons_ready (cons_get s) = cs" "cons_line (cons_get s) = cons_line s"
proof -
  show ne: "cons_r s \<noteq> cons_w s" using assms by (auto simp: cons_ready_def ring_list_def)
  show "cons_buf s (unat (cons_r s) mod INPUT_BUF_SIZE) = c" "cons_ready (cons_get s) = cs"
    using ring_get(1) [of INPUT_BUF_SIZE, OF _ ne, of "cons_buf s"] assms
    by (simp_all add: cons_ready_def cons_get_def)
  show "cons_line (cons_get s) = cons_line s" by (simp add: cons_line_def cons_get_def)
qed

lemma cons_pmem [simp]:
  "cons_ready (s\<lparr>pmem := m\<rparr>) = cons_ready s" "cons_line (s\<lparr>pmem := m\<rparr>) = cons_line s"
  by (simp_all add: cons_ready_def cons_line_def)

lemma cons_get_proj [simp]:
  "pmem (cons_get s) = pmem s" "freelist (cons_get s) = freelist s" "kend (cons_get s) = kend s"
  "myproc (cons_get s) = myproc s" "cons_r (cons_get s) - 1 = cons_r s"
  "(cons_get s)\<lparr>cons_r := cons_r s\<rparr> = s"
  by (simp_all add: cons_get_def myproc_def)

lemma can_write_next:
  assumes "can_write s V va (Suc n)" "uwrites (pagetable (myproc s)) V va b k s (s\<lparr>pmem := m\<rparr>)"
    and "pmem t = m" "freelist t = freelist s" "kend t = kend s" "pagetable (myproc t) = pagetable (myproc s)"
  shows "can_write t V (va + 1) n"
proof -
  have "uwritable m (pagetable (myproc s)) va = uwritable (pmem s) (pagetable (myproc s)) va" for va
    using assms(2) by (simp add: uwritable_def uwrites_def)
  moreover have "uwritable (pmem s) (pagetable (myproc s)) (va + 1 + of_nat j) \<and> PGROUNDDOWN (va + 1 + of_nat j) \<in> V" if "j < n" for j
    using assms(1) that by (auto simp: can_write_def add.assoc dest!: spec [of _ "Suc j"])
  ultimately show ?thesis
    using assms phys_same [of t "s\<lparr>pmem := m\<rparr>"] by (simp add: can_write_def uwrites_def)
qed

lemma either_copyout_byte:
  assumes "can_write s V va (Suc n)"
  obtains m where "either_copyout (UserDst va) [c] s = Inr (0, s\<lparr>pmem := m\<rparr>)"
    "uwrites (pagetable (myproc s)) V va [c] 1 s (s\<lparr>pmem := m\<rparr>)"
proof -
  have "uwritable (pmem s) (pagetable (myproc s)) va \<and> PGROUNDDOWN va \<in> V"
    using assms by (auto simp: can_write_def dest!: spec [of _ 0])
  then obtain s' where c: "copyout (pagetable (myproc s)) (sz (myproc s)) (pagetable (myproc s)) va [c] 1 s = Inr (0, s')"
    and w: "uwrites (pagetable (myproc s)) V va [c] 1 s s'"
    using copyout_mapped [of s "pagetable (myproc s)" V 1 "[c]" va "pagetable (myproc s)" "sz (myproc s)"] assms
    by (auto simp: can_write_def)
  obtain m where "s' = s\<lparr>pmem := m\<rparr>" by (rule uwrites_pmem [OF w])
  with c w that show thesis by (simp add: either_copyout_def)
qed

lemma consoleread_loop_spec:
  assumes "line_take n (n < target) (cons_ready s) = Some (bs, rest)" "can_write s V va n" "n \<le> target" "target < 2 ^ 31"
  shows "\<exists>s'. consoleread_loop n (UserDst va) target s = Inr (Ret (int target - int n + int (length bs)), s') \<and>
    cons_ready s' = rest \<and> cons_line s' = cons_line s \<and> myproc s' = myproc s \<and>
    uwrites (pagetable (myproc s)) V va bs (length bs) s (s\<lparr>pmem := pmem s'\<rparr>)"
  using assms
proof (induction n arbitrary: s bs va)
  case 0
  then show ?case by (simp add: uwrites_def can_write_def)
next
  case (Suc n)
  obtain c cs where r: "cons_ready s = c # cs" using Suc.prems(1) by (cases "cons_ready s") auto
  note g = cons_get_view [OF r]
  let ?pt = "pagetable (myproc s)"
  show ?case
  proof (cases "c = ctrl CHR ''D''")
    case True
    then show ?thesis using Suc.prems g r
      by (auto simp: Let_def uwrites_def can_write_def split: if_splits)
  next
    case False
    have "can_write (cons_get s) V va (Suc n)"
      using Suc.prems(2) phys_same [of "cons_get s" s] by (simp add: can_write_def)
    then obtain m where e: "either_copyout (UserDst va) [c] (cons_get s) = Inr (0, (cons_get s)\<lparr>pmem := m\<rparr>)"
      and w0: "uwrites (pagetable (myproc (cons_get s))) V va [c] 1 (cons_get s) ((cons_get s)\<lparr>pmem := m\<rparr>)"
      by (rule either_copyout_byte)
    have w: "uwrites ?pt V va [c] 1 s (s\<lparr>pmem := m\<rparr>)" using w0 uwrites_same [of "cons_get s" s] by simp
    let ?s2 = "(cons_get s)\<lparr>pmem := m\<rparr>"
    show ?thesis
    proof (cases "c = 10")
      case True
      then show ?thesis using Suc.prems(1,3) False g r e w by (auto simp: Let_def)
    next
      case ten: False
      then obtain bs' where bs: "bs = c # bs'" and lt: "line_take n True cs = Some (bs', rest)"
        using Suc.prems(1) False r by (auto split: if_splits)
      obtain s' where run: "consoleread_loop n (UserDst (va + 1)) target ?s2 =
          Inr (Ret (int target - int n + int (length bs')), s')"
        and v: "cons_ready s' = rest" "cons_line s' = cons_line s" "myproc s' = myproc s"
        and w2: "uwrites ?pt V (va + 1) bs' (length bs') ?s2 (?s2\<lparr>pmem := pmem s'\<rparr>)"
        using Suc.IH [of ?s2 bs' "va + 1"] lt g can_write_next [OF Suc.prems(2) w, of ?s2] Suc.prems(3,4) by auto
      have "uwrites ?pt V (va + 1) bs' (length bs') (s\<lparr>pmem := m\<rparr>) (s\<lparr>pmem := pmem s'\<rparr>)"
        using w2 uwrites_same [of ?s2 "s\<lparr>pmem := m\<rparr>"] by simp
      moreover have "length bs' < 2 ^ 63" using line_take_length [OF lt] Suc.prems(3,4) by simp
      ultimately have "uwrites ?pt V va bs (length bs) s (s\<lparr>pmem := pmem s'\<rparr>)"
        unfolding bs using uwrites_cons [OF w] by simp
      moreover have "consoleread_loop (Suc n) (UserDst va) target s = Inr (Ret (int target - int (Suc n) + int (length bs)), s')"
        using g e run ten False by (simp add: Let_def dst_add_def bs)
      ultimately show ?thesis using v by auto
    qed
  qed
qed

section \<open>Properties\<close>

lemma uartintr_refines:
  assumes "cons_inv s"
  shows "cons_inv (uartintr idle input s) \<and> cons_view (uartintr idle input s) = fold line_edit input (cons_view s)"
proof -
  have step: "cons_inv (fold consoleintr input s) \<and> cons_view (fold consoleintr input s) = fold line_edit input (cons_view s)"
    if "cons_inv s" for s :: "'a consst_scheme"
    using that by (induction input arbitrary: s) (simp_all add: consoleintr_refines)
  define s1 where "s1 = (if idle then wakeup ChTx (s\<lparr>tx_busy := False\<rparr>) else s)"
  have "cons_inv s1 \<and> cons_view s1 = cons_view s"
    using assms by (simp add: s1_def cons_view_def) (simp add: cons_inv_def cons_ready_def cons_line_def)
  then show ?thesis using step [of s1] by (simp add: uartintr_def s1_def)
qed

text \<open>
  C27. The interrupt handler of the UART refines a line editor. Whatever bytes arrive, the pair of what readers
  may take and the line being edited changes as \<open>line_edit\<close> says: erase and kill act on the unfinished line
  only, carriage return becomes newline, a newline, control-D or a full buffer hands the line over,
  and bytes that do not fit are dropped. The ring indices stay in order, also across wrap-around.
\<close>

theorem console_line_discipline:
  assumes "cons_inv s"
  shows "cons_inv (uartintr idle input s) \<and> cons_view (uartintr idle input s) = fold line_edit input (cons_view s)"
  by (rule uartintr_refines [OF assms])

lemma demo_cons: "cons_inv demo_kernel" "cons_view demo_kernel = ([], [])"
  by (simp_all add: cons_view_def cons_inv_def cons_ready_def cons_line_def ring_list_def demo_kernel_def)

theorem console_line_discipline_witness:
  "cons_view (uartintr True [108, 120, 127, 115, 13, 99] demo_kernel) = ([108, 115, 10], [99])"
  using console_line_discipline [OF demo_cons(1), of True "[108, 120, 127, 115, 13, 99]"]
  by (simp add: demo_cons(2) line_edit_def ctrl_def chr_def)

text \<open>
  C28. A read of at most \<open>n\<close> bytes from the console into the caller's memory returns the next line: the ready bytes
  up to and including a newline, or up to a control-D, or \<open>n\<close> of them. The bytes returned are in the
  caller's buffer, nothing else of its memory changes, and the rest, with the line being edited, stays.
\<close>

theorem console_reads_line:
  assumes "line_take n False (cons_ready s) = Some (bs, rest)" and "can_write s V va n" and "n < 2 ^ 31"
  shows "\<exists>s'. consoleread (UserDst va) (int n) s = Inr (Ret (int (length bs)), s') \<and>
    user_bytes s' va (length bs) = bs \<and> cons_ready s' = rest \<and> cons_line s' = cons_line s \<and>
    uwrites (pagetable (myproc s)) V va bs (length bs) s (s\<lparr>pmem := pmem s'\<rparr>)"
proof -
  obtain s' where "consoleread_loop n (UserDst va) n s = Inr (Ret (int (length bs)), s')"
    and v: "cons_ready s' = rest" "cons_line s' = cons_line s" "myproc s' = myproc s"
    and w: "uwrites (pagetable (myproc s)) V va bs (length bs) s (s\<lparr>pmem := pmem s'\<rparr>)"
    using consoleread_loop_spec [of n n s bs rest V va] assms by auto
  then have "consoleread (UserDst va) (int n) s = Inr (Ret (int (length bs)), s')"
    using assms(1) by (cases "n = 0") (simp_all add: consoleread_def)
  moreover have "user_bytes s' va (length bs) = bs"
    using uwrites_uread(1) [OF w] line_take_length [OF assms(1)] assms(2,3) v(3)
    by (simp add: can_write_def user_bytes_def)
  ultimately show ?thesis using v w by auto
qed

definition demo_typed :: filest where
  "demo_typed = demo_kernel\<lparr>cons_buf := (\<lambda>i. if i = 0 then 108 else if i = 1 then 10 else 99), cons_w := 2, cons_e := 3\<rparr>"

lemma demo_typed_view: "cons_ready demo_typed = [108, 10]" "cons_line demo_typed = [99]"
  by (simp_all add: cons_ready_def cons_line_def ring_list_def demo_typed_def demo_kernel_def upt_rec)

lemma demo_typed_can: "unat va + n < 4096 \<Longrightarrow> can_write demo_typed {va. upage va} va n"
  using demo_can(2) [of va n] phys_same [of demo_typed demo_kernel]
  by (simp add: can_write_def demo_typed_def myproc_def)

theorem console_reads_line_witness:
  "\<exists>s'. consoleread (UserDst 0x10) 100 demo_typed = Inr (Ret 2, s') \<and> user_bytes s' 0x10 2 = [108, 10] \<and>
    cons_ready s' = [] \<and> cons_line s' = [99]"
proof -
  have "line_take (Suc (Suc k)) False [108, 10] = Some ([108, 10], [])" for k by (simp add: ctrl_def chr_def)
  from this [of 98] have "line_take 100 False (cons_ready demo_typed) = Some ([108, 10], [])"
    by (simp add: demo_typed_view del: line_take.simps)
  from console_reads_line [OF this demo_typed_can [of "0x10" 100]] show ?thesis by (auto simp: demo_typed_view simp flip: numeral_2_eq_2)
qed

end
