(* ===== verification/Virtio.thy ===== *)
theory Virtio
  imports Bio Ring
begin

unbundle bit_operations_syntax

text \<open>
  \<^verbatim>\<open>kernel/virtio_disk.c\<close> with the structures of \<^verbatim>\<open>kernel/virtio.h\<close>: the driver of the disk. The
  addresses that descriptors hold are pointers into \<^verbatim>\<open>disk.ops\<close>, \<^verbatim>\<open>disk.info\<close> and the buffers, named by
  \<open>dptr\<close>. \<open>virtio_disk_rw\<close> is cut at its two sleeps: \<open>rw_submit\<close> is the part up to the wait for the
  interrupt, \<open>rw_finish\<close> what follows it. The device is not part of the kernel: what its registers return is
  an argument of \<open>virtio_disk_init\<close>, what it does to memory and disk is a parameter of the transition system of
  the theory \<open>VirtioSpec\<close>.
\<close>

section \<open>State\<close>

definition NUM :: nat where [simp]: "NUM = 8"

datatype dptr = PNull | POp nat | PData nat | PStatus nat

record virtq_desc =
  d_addr :: dptr
  d_len :: u32
  d_flags :: u16
  d_next :: u16

definition VRING_DESC_F_NEXT :: u16 where "VRING_DESC_F_NEXT = 1"
definition VRING_DESC_F_WRITE :: u16 where "VRING_DESC_F_WRITE = 2"

record virtio_blk_req =
  r_type :: u32
  r_reserved :: u32
  r_sector :: u64

definition VIRTIO_BLK_T_IN :: u32 where "VIRTIO_BLK_T_IN = 0"
definition VIRTIO_BLK_T_OUT :: u32 where "VIRTIO_BLK_T_OUT = 1"

text \<open>
  \<open>bdisk\<close> is the field \<^verbatim>\<open>disk\<close> of the buffers, which only the driver uses. The rings hold descriptor
  numbers; \<open>avail_idx\<close> and \<open>used_idx\<close> are the counters in shared memory, \<open>used_seen\<close> is the driver's own
  \<^verbatim>\<open>disk.used_idx\<close>.
\<close>

record vdisk =
  desc :: "nat \<Rightarrow> virtq_desc"
  avail_ring :: "nat \<Rightarrow> u16"
  avail_idx :: u16
  used_ring :: "nat \<Rightarrow> u32"
  used_idx :: u16
  vfree :: "nat \<Rightarrow> bool"
  used_seen :: u16
  info_b :: "nat \<Rightarrow> nat option"
  info_status :: "nat \<Rightarrow> byte"
  ops :: "nat \<Rightarrow> virtio_blk_req"
  bdisk :: "nat \<Rightarrow> bool"

definition zero_desc :: virtq_desc where
  "zero_desc = \<lparr>d_addr = PNull, d_len = 0, d_flags = 0, d_next = 0\<rparr>"

section \<open>Initialisation\<close>

abbreviation VIRTIO_MMIO_MAGIC_VALUE :: nat where "VIRTIO_MMIO_MAGIC_VALUE \<equiv> 0x000"
abbreviation VIRTIO_MMIO_VERSION :: nat where "VIRTIO_MMIO_VERSION \<equiv> 0x004"
abbreviation VIRTIO_MMIO_DEVICE_ID :: nat where "VIRTIO_MMIO_DEVICE_ID \<equiv> 0x008"
abbreviation VIRTIO_MMIO_VENDOR_ID :: nat where "VIRTIO_MMIO_VENDOR_ID \<equiv> 0x00c"
abbreviation VIRTIO_MMIO_DEVICE_FEATURES :: nat where "VIRTIO_MMIO_DEVICE_FEATURES \<equiv> 0x010"
abbreviation VIRTIO_MMIO_DRIVER_FEATURES :: nat where "VIRTIO_MMIO_DRIVER_FEATURES \<equiv> 0x020"
abbreviation VIRTIO_MMIO_QUEUE_SEL :: nat where "VIRTIO_MMIO_QUEUE_SEL \<equiv> 0x030"
abbreviation VIRTIO_MMIO_QUEUE_NUM_MAX :: nat where "VIRTIO_MMIO_QUEUE_NUM_MAX \<equiv> 0x034"
abbreviation VIRTIO_MMIO_QUEUE_NUM :: nat where "VIRTIO_MMIO_QUEUE_NUM \<equiv> 0x038"
abbreviation VIRTIO_MMIO_QUEUE_READY :: nat where "VIRTIO_MMIO_QUEUE_READY \<equiv> 0x044"
abbreviation VIRTIO_MMIO_STATUS :: nat where "VIRTIO_MMIO_STATUS \<equiv> 0x070"
abbreviation VIRTIO_MMIO_QUEUE_DESC_LOW :: nat where "VIRTIO_MMIO_QUEUE_DESC_LOW \<equiv> 0x080"
abbreviation VIRTIO_MMIO_QUEUE_DESC_HIGH :: nat where "VIRTIO_MMIO_QUEUE_DESC_HIGH \<equiv> 0x084"
abbreviation VIRTIO_MMIO_DRIVER_DESC_LOW :: nat where "VIRTIO_MMIO_DRIVER_DESC_LOW \<equiv> 0x090"
abbreviation VIRTIO_MMIO_DRIVER_DESC_HIGH :: nat where "VIRTIO_MMIO_DRIVER_DESC_HIGH \<equiv> 0x094"
abbreviation VIRTIO_MMIO_DEVICE_DESC_LOW :: nat where "VIRTIO_MMIO_DEVICE_DESC_LOW \<equiv> 0x0a0"
abbreviation VIRTIO_MMIO_DEVICE_DESC_HIGH :: nat where "VIRTIO_MMIO_DEVICE_DESC_HIGH \<equiv> 0x0a4"

abbreviation VIRTIO_CONFIG_S_ACKNOWLEDGE :: u32 where "VIRTIO_CONFIG_S_ACKNOWLEDGE \<equiv> 1"
abbreviation VIRTIO_CONFIG_S_DRIVER :: u32 where "VIRTIO_CONFIG_S_DRIVER \<equiv> 2"
abbreviation VIRTIO_CONFIG_S_DRIVER_OK :: u32 where "VIRTIO_CONFIG_S_DRIVER_OK \<equiv> 4"
abbreviation VIRTIO_CONFIG_S_FEATURES_OK :: u32 where "VIRTIO_CONFIG_S_FEATURES_OK \<equiv> 8"

text \<open>The feature bits that are turned off: RO, SCSI, CONFIG_WCE, MQ, ANY_LAYOUT, EVENT_IDX, INDIRECT_DESC.\<close>

definition feature_bits :: "nat list" where
  "feature_bits = [5, 7, 11, 12, 27, 29, 28]"

text \<open>
  The mask \<^verbatim>\<open>~(1 << b)\<close> is an \<^verbatim>\<open>int\<close> that is sign-extended to 64 bits; the features are a 32-bit
  register widened, and their low half is what is written back.
\<close>

definition negotiate :: "u32 \<Rightarrow> u32" where
  "negotiate features = ucast (fold (\<lambda>b f. f AND scast (NOT (push_bit b 1) :: u32)) feature_bits (ucast features :: u64))"

definition queue_pages :: "u64 \<Rightarrow> u64 \<Rightarrow> u64 \<Rightarrow> (nat \<times> u32) list" where
  "queue_pages d a u =
     [(VIRTIO_MMIO_QUEUE_DESC_LOW, ucast d), (VIRTIO_MMIO_QUEUE_DESC_HIGH, ucast (drop_bit 32 d)),
      (VIRTIO_MMIO_DRIVER_DESC_LOW, ucast a), (VIRTIO_MMIO_DRIVER_DESC_HIGH, ucast (drop_bit 32 a)),
      (VIRTIO_MMIO_DEVICE_DESC_LOW, ucast u), (VIRTIO_MMIO_DEVICE_DESC_HIGH, ucast (drop_bit 32 u))]"

text \<open>
  \<open>rd ws r\<close> is what register \<open>r\<close> returns after the writes \<open>ws\<close>. The result has the writes made, in
  order, and the pages of the queue; clearing those pages clears the descriptors and the rings.
\<close>

definition virtio_disk_init ::
  "((nat \<times> u32) list \<Rightarrow> nat \<Rightarrow> u32) \<Rightarrow> vdisk \<Rightarrow> 'z phys_scheme
   \<Rightarrow> ((nat \<times> u32) list \<times> (u64 \<times> u64 \<times> u64) \<times> vdisk \<times> 'z phys_scheme) kres" where
  "virtio_disk_init rd v s =
     (if rd [] VIRTIO_MMIO_MAGIC_VALUE \<noteq> 0x74726976 \<or> rd [] VIRTIO_MMIO_VERSION \<noteq> 2 \<or>
         rd [] VIRTIO_MMIO_DEVICE_ID \<noteq> 2 \<or> rd [] VIRTIO_MMIO_VENDOR_ID \<noteq> 0x554d4551
      then kpanic ''could not find virtio disk''
      else
        let s1 = VIRTIO_CONFIG_S_ACKNOWLEDGE; s2 = s1 OR VIRTIO_CONFIG_S_DRIVER; s3 = s2 OR VIRTIO_CONFIG_S_FEATURES_OK;
            w1 = [(VIRTIO_MMIO_STATUS, 0), (VIRTIO_MMIO_STATUS, s1), (VIRTIO_MMIO_STATUS, s2)];
            w2 = w1 @ [(VIRTIO_MMIO_DRIVER_FEATURES, negotiate (rd w1 VIRTIO_MMIO_DEVICE_FEATURES)), (VIRTIO_MMIO_STATUS, s3)];
            status = rd w2 VIRTIO_MMIO_STATUS in
        if status AND VIRTIO_CONFIG_S_FEATURES_OK = 0 then kpanic ''virtio disk FEATURES_OK unset''
        else
          let w3 = w2 @ [(VIRTIO_MMIO_QUEUE_SEL, 0)] in
          if rd w3 VIRTIO_MMIO_QUEUE_READY \<noteq> 0 then kpanic ''virtio disk should not be ready''
          else if rd w3 VIRTIO_MMIO_QUEUE_NUM_MAX = 0 then kpanic ''virtio disk has no queue 0''
          else if rd w3 VIRTIO_MMIO_QUEUE_NUM_MAX < of_nat NUM then kpanic ''virtio disk max queue too short''
          else
            let (d, t1) = kalloc s; (a, t2) = kalloc t1; (u, t3) = kalloc t2 in
            if d = 0 \<or> a = 0 \<or> u = 0 then kpanic ''virtio disk kalloc''
            else
              let t4 = t3\<lparr>pmem := memset u 0 (unat PGSIZE) (memset a 0 (unat PGSIZE) (memset d 0 (unat PGSIZE) (pmem t3)))\<rparr>;
                  w4 = w3 @ [(VIRTIO_MMIO_QUEUE_NUM, of_nat NUM)] @ queue_pages d a u @
                       [(VIRTIO_MMIO_QUEUE_READY, 1), (VIRTIO_MMIO_STATUS, status OR VIRTIO_CONFIG_S_DRIVER_OK)];
                  v1 = v\<lparr>desc := (\<lambda>_. zero_desc), avail_ring := (\<lambda>_. 0), avail_idx := 0, used_ring := (\<lambda>_. 0), used_idx := 0\<rparr>;
                  v2 = fold (\<lambda>i v. v\<lparr>vfree := (vfree v)(i := True)\<rparr>) [0..<NUM] v1 in
              Inr (w4, (d, a, u), v2, t4))"

section \<open>Descriptors\<close>

definition alloc_desc :: "vdisk \<Rightarrow> nat option \<times> vdisk" where
  "alloc_desc v =
     (case find (vfree v) [0..<NUM] of
        None \<Rightarrow> (None, v)
      | Some i \<Rightarrow> (Some i, v\<lparr>vfree := (vfree v)(i := False)\<rparr>))"

definition free_desc :: "nat \<Rightarrow> vdisk \<times> 'z kern_scheme \<Rightarrow> (vdisk \<times> 'z kern_scheme) kres" where
  "free_desc i = (\<lambda>(v, s).
     if i \<ge> NUM then kpanic ''free_desc 1''
     else if vfree v i then kpanic ''free_desc 2''
     else Inr (v\<lparr>desc := (desc v)(i := zero_desc), vfree := (vfree v)(i := True)\<rparr>, wakeup ChDiskFree s))"

lemma free_desc_busy:
  assumes "free_desc i (v, s) = Inr (v', s')"
  shows "card {j. j < NUM \<and> \<not> vfree v' j} < card {j. j < NUM \<and> \<not> vfree v j}"
proof (rule psubset_card_mono)
  have "i < NUM" "\<not> vfree v i" "v' = v\<lparr>desc := (desc v)(i := zero_desc), vfree := (vfree v)(i := True)\<rparr>"
    using assms by (auto simp: free_desc_def split: if_splits)
  then show "{j. j < NUM \<and> \<not> vfree v' j} \<subset> {j. j < NUM \<and> \<not> vfree v j}" by auto
qed simp

function free_chain :: "nat \<Rightarrow> vdisk \<times> 'z kern_scheme \<Rightarrow> (vdisk \<times> 'z kern_scheme) kres" where
  "free_chain i (v, s) =
     (case free_desc i (v, s) of
        Inl e \<Rightarrow> Inl e
      | Inr (v1, s1) \<Rightarrow>
          if d_flags (desc v i) AND VRING_DESC_F_NEXT \<noteq> 0 then free_chain (unat (d_next (desc v i))) (v1, s1)
          else Inr (v1, s1))"
  by pat_completeness auto
termination
  by (relation "measure (\<lambda>(_, v, _). card {j. j < NUM \<and> \<not> vfree v j})") (auto dest: free_desc_busy simp del: NUM_def)

declare free_chain.simps [simp del]

text \<open>Three descriptors, or those obtained are given back.\<close>

definition alloc3_desc :: "vdisk \<times> 'z kern_scheme \<Rightarrow> (nat list option \<times> vdisk \<times> 'z kern_scheme) kres" where
  "alloc3_desc = (\<lambda>(v, s).
     case alloc_desc v of
       (None, v1) \<Rightarrow> Inr (None, v1, s)
     | (Some a, v1) \<Rightarrow>
         (case alloc_desc v1 of
            (None, v2) \<Rightarrow> kbind (free_desc a (v2, s)) (\<lambda>r. Inr (None, r))
          | (Some b, v2) \<Rightarrow>
              (case alloc_desc v2 of
                 (None, v3) \<Rightarrow> kbind (free_desc a (v3, s)) (\<lambda>r. kbind (free_desc b r) (\<lambda>r. Inr (None, r)))
               | (Some c, v3) \<Rightarrow> Inr (Some [a, b, c], v3, s))))"

section \<open>Requests\<close>

definition format_req :: "nat \<Rightarrow> bool \<Rightarrow> u64 \<Rightarrow> nat \<Rightarrow> nat \<Rightarrow> nat \<Rightarrow> vdisk \<Rightarrow> vdisk" where
  "format_req b write sector i0 i1 i2 v =
     v\<lparr>ops := (ops v)(i0 := \<lparr>r_type = (if write then VIRTIO_BLK_T_OUT else VIRTIO_BLK_T_IN), r_reserved = 0, r_sector = sector\<rparr>),
       desc := (desc v)
         (i0 := \<lparr>d_addr = POp i0, d_len = 16, d_flags = VRING_DESC_F_NEXT, d_next = of_nat i1\<rparr>,
          i1 := \<lparr>d_addr = PData b, d_len = of_nat BSIZE,
                 d_flags = (if write then 0 else VRING_DESC_F_WRITE) OR VRING_DESC_F_NEXT, d_next = of_nat i2\<rparr>,
          i2 := \<lparr>d_addr = PStatus i0, d_len = 1, d_flags = VRING_DESC_F_WRITE, d_next = 0\<rparr>),
       info_status := (info_status v)(i0 := 0xff),
       bdisk := (bdisk v)(b := True),
       info_b := (info_b v)(i0 := Some b)\<rparr>"

text \<open>One entry into the ring of available chains; the device's step over one.\<close>

definition avail_put :: "u16 \<Rightarrow> vdisk \<Rightarrow> vdisk" where
  "avail_put h v = v\<lparr>avail_ring := (avail_ring v)(unat (avail_idx v) mod NUM := h), avail_idx := avail_idx v + 1\<rparr>"

text \<open>
  \<^verbatim>\<open>virtio_disk_rw\<close> up to its wait: the descriptors of the request, or \<open>None\<close> when the caller has to sleep
  on \<open>ChDiskFree\<close> first. \<^verbatim>\<open>b->blockno * (BSIZE / 512)\<close> is computed in 32 bits.
\<close>

definition rw_submit ::
  "nat \<Rightarrow> bool \<Rightarrow> vdisk \<times> 'z bio_scheme \<Rightarrow> (nat list option \<times> vdisk \<times> 'z bio_scheme) kres" where
  "rw_submit b write = (\<lambda>(v, s).
     let sector = ucast (blockno (bufs s b) * of_nat (BSIZE div 512)) in
     kbind (alloc3_desc (v, s)) (\<lambda>(idx, v1, s1).
       case idx of
         Some [i0, i1, i2] \<Rightarrow> Inr (idx, avail_put (of_nat i0) (format_req b write sector i0 i1 i2 v1), s1)
       | _ \<Rightarrow> Inr (None, v1, s1)))"

text \<open>What follows the wait, when \<open>bdisk\<close> of the buffer is cleared.\<close>

definition rw_finish :: "nat \<Rightarrow> vdisk \<times> 'z bio_scheme \<Rightarrow> (vdisk \<times> 'z bio_scheme) kres" where
  "rw_finish i0 = (\<lambda>(v, s). free_chain i0 (v\<lparr>info_b := (info_b v)(i0 := None)\<rparr>, s))"

text \<open>The interrupt handler: one step over the used ring per iteration.\<close>

definition used_get :: "vdisk \<Rightarrow> vdisk" where
  "used_get v = v\<lparr>used_seen := used_seen v + 1\<rparr>"

function virtio_disk_intr :: "vdisk \<times> 'z bio_scheme \<Rightarrow> (vdisk \<times> 'z bio_scheme) kres" where
  "virtio_disk_intr (v, s) =
     (if used_seen v = used_idx v then Inr (v, s)
      else
        let i = unat (used_ring v (unat (used_seen v) mod NUM)) in
        if info_status v i \<noteq> 0 then kpanic ''virtio_disk_intr status''
        else case info_b v i of
          None \<Rightarrow> kpanic ''kerneltrap''
        | Some b \<Rightarrow> virtio_disk_intr (used_get (v\<lparr>bdisk := (bdisk v)(b := False)\<rparr>), wakeup (ChBuf b) s))"
  by pat_completeness auto
termination
proof (relation "measure (\<lambda>(v, _). unat (used_idx v - used_seen v))", goal_cases)
  case (2 v s i b)
  then have ne: "used_seen v \<noteq> used_idx v" by blast
  then have "0 < unat (used_idx v - used_seen v)" by (simp add: unat_gt_0)
  then have "unat (used_idx v - (used_seen v + 1)) < unat (used_idx v - used_seen v)"
    using ring_get(2) [of 1, OF _ ne] by simp
  then show ?case by (simp add: used_get_def)
qed simp

declare virtio_disk_intr.simps [simp del]

end
