(* ===== verification/VirtioSpec.thy ===== *)
theory VirtioSpec
  imports Virtio BioSpec
begin

unbundle bit_operations_syntax

text \<open>
  The disk driver together with the device, as a transition system: any number of processes submit
  requests and wait, the device fetches chains from the available ring and serves them in any order, interrupts
  arrive at any time, and the rest of the kernel runs in between. What the device does when it serves a
  chain is a parameter with the hypothesis \<open>device_ok\<close>, the documented meaning of a request. The
  invariant shows that no descriptor is lost or used twice, that no check of the driver ever panics, and
  that a request that has come back was served exactly as \<open>disk_rw\<close> says.
\<close>

section \<open>The two rings\<close>

definition used_put :: "u32 \<Rightarrow> vdisk \<Rightarrow> vdisk" where
  "used_put h v = v\<lparr>used_ring := (used_ring v)(unat (used_idx v) mod NUM := h), used_idx := used_idx v + 1\<rparr>"

interpretation ar: ring NUM "\<lambda>(v, d). avail_ring v" snd "\<lambda>(v, d). avail_idx v" "\<lambda>h (v, d). (avail_put h v, d)" "\<lambda>(v, d). (v, d + 1)"
  by unfold_locales (auto simp: avail_put_def)

interpretation ur: ring NUM used_ring used_seen used_idx used_put used_get
  by unfold_locales (auto simp: used_put_def used_get_def)

definition avail_list :: "vdisk \<Rightarrow> u16 \<Rightarrow> nat list" where
  "avail_list v d = map unat (ring_list NUM (avail_ring v) d (avail_idx v))"

definition used_list :: "vdisk \<Rightarrow> nat list" where
  "used_list v = map unat (ring_list NUM (used_ring v) (used_seen v) (used_idx v))"

lemma avail_queue: "map unat (ar.queue (v, d)) = avail_list v d"
  unfolding ar.queue_def avail_list_def by simp

lemma used_queue: "map unat (ur.queue v) = used_list v"
  unfolding ur.queue_def used_list_def by simp

lemma avail_list_put:
  assumes "length (avail_list v d) < NUM" "h < NUM"
  shows "avail_list (avail_put (of_nat h) v) d = avail_list v d @ [h]"
proof -
  have "length (ar.queue (v, d)) < NUM" using assms(1) unfolding avail_queue [symmetric] length_map .
  from ar.put_queue [OF this, of "of_nat h"] assms(2) show ?thesis
    by (simp add: avail_queue [symmetric] unat_of_nat)
qed

lemma avail_list_get:
  "d \<noteq> avail_idx v \<Longrightarrow> avail_list v d = unat (avail_ring v (unat d mod NUM)) # avail_list v (d + 1)"
  using ar.get_queue [of "(v, d)"] avail_queue [of v d] avail_queue [of v "d + 1"] by (metis (no_types, lifting) case_prod_conv list.simps(9) snd_conv)

lemma used_list_put:
  assumes "length (used_list v) < NUM" "h < NUM"
  shows "used_list (used_put (of_nat h) v) = used_list v @ [h]"
proof -
  have "length (ur.queue v) < NUM" using assms(1) unfolding used_queue [symmetric] length_map .
  from ur.put_queue [OF this, of "of_nat h"] assms(2) show ?thesis
    by (simp add: used_queue [symmetric] unat_of_nat)
qed

lemma used_list_get:
  "used_seen v \<noteq> used_idx v \<Longrightarrow> used_list v = unat (used_ring v (unat (used_seen v) mod NUM)) # used_list (used_get v)"
  using ur.get_queue [of v] used_queue [of v] used_queue [of "used_get v"] by (metis list.simps(9))

section \<open>The device\<close>

text \<open>
  The request a chain of descriptors stands for: direction, sector, data buffer and status slot. \<open>transfer\<close>
  moves one block between a buffer and the disk, whose blocks are two sectors long.
\<close>

definition chain_req :: "vdisk \<Rightarrow> nat \<Rightarrow> (bool \<times> u64 \<times> nat \<times> nat) option" where
  "chain_req v h =
     (let d0 = desc v h; d1 = desc v (unat (d_next d0)); d2 = desc v (unat (d_next d1)) in
      case (d_addr d0, d_addr d1, d_addr d2) of
        (POp i, PData b, PStatus j) \<Rightarrow>
          if d_flags d0 = VRING_DESC_F_NEXT \<and> d_len d0 = 16 \<and> d_len d1 = of_nat BSIZE \<and>
             d_flags d1 = (if r_type (ops v i) = VIRTIO_BLK_T_OUT then 0 else VRING_DESC_F_WRITE) OR VRING_DESC_F_NEXT \<and>
             d_flags d2 = VRING_DESC_F_WRITE \<and> d_len d2 = 1 \<and>
             (r_type (ops v i) = VIRTIO_BLK_T_OUT \<or> r_type (ops v i) = VIRTIO_BLK_T_IN)
          then Some (r_type (ops v i) = VIRTIO_BLK_T_OUT, r_sector (ops v i), b, j) else None
      | _ \<Rightarrow> None)"

definition transfer :: "bool \<Rightarrow> u32 \<Rightarrow> nat \<Rightarrow> 'z bio_scheme \<Rightarrow> 'z bio_scheme" where
  "transfer write bn b s =
     (if write then s\<lparr>disk := (disk s)(bn := bdata (bufs s b)), dwrites := dwrites s @ [(bn, bdata (bufs s b))]\<rparr>
      else upd_buf b (\<lambda>x. x\<lparr>bdata := disk s bn\<rparr>) s)"

definition device_ok :: "(nat \<Rightarrow> vdisk \<times> 'z bio_scheme \<Rightarrow> vdisk \<times> 'z bio_scheme) \<Rightarrow> bool" where
  "device_ok dev \<longleftrightarrow> (\<forall>h v s write sector b j. chain_req v h = Some (write, sector, b, j) \<longrightarrow>
     dev h (v, s) = (used_put (of_nat h) (v\<lparr>info_status := (info_status v)(j := 0)\<rparr>), transfer write (ucast (sector div 2)) b s))"

section \<open>The transition system\<close>

text \<open>
  \<open>dnext\<close> is how far the device has read the available ring, \<open>todo\<close> the chains it has fetched and not served.
  \<open>waits b\<close> are the local variables of the process that waits for buffer \<open>b\<close>: its descriptors and
  the direction. \<open>served\<close> records the buffers whose current request the device has served.
\<close>

record 'k vsys =
  vd :: vdisk
  ks :: 'k
  dnext :: u16
  todo :: "nat list"
  waits :: "nat \<Rightarrow> (nat list \<times> bool) option"
  served :: "nat set"

inductive vstep ::
  "(nat \<Rightarrow> vdisk \<times> 'z bio_scheme \<Rightarrow> vdisk \<times> 'z bio_scheme) \<Rightarrow> 'z bio_scheme vsys \<Rightarrow> 'z bio_scheme vsys \<Rightarrow> bool"
  for dev where
  submit: "waits x b = None \<Longrightarrow> unat (blockno (bufs (ks x) b)) < 2 ^ 31 \<Longrightarrow>
    rw_submit b w (vd x, ks x) = Inr (Some is, v, s) \<Longrightarrow>
    vstep dev x (x\<lparr>vd := v, ks := s, waits := (waits x)(b := Some (is, w)), served := served x - {b}\<rparr>)"
| full: "rw_submit b w (vd x, ks x) = Inr (None, v, s) \<Longrightarrow> vstep dev x (x\<lparr>vd := v, ks := s\<rparr>)"
| fetch: "dnext x \<noteq> avail_idx (vd x) \<Longrightarrow>
    vstep dev x (x\<lparr>todo := todo x @ [unat (avail_ring (vd x) (unat (dnext x) mod NUM))], dnext := dnext x + 1\<rparr>)"
| serve: "h \<in> set (todo x) \<Longrightarrow> dev h (vd x, ks x) = (v, s) \<Longrightarrow>
    vstep dev x (x\<lparr>vd := v, ks := s, todo := remove1 h (todo x),
      served := served x \<union> {b. \<exists>is w. waits x b = Some (h # is, w)}\<rparr>)"
| intr: "virtio_disk_intr (vd x, ks x) = Inr (v, s) \<Longrightarrow> vstep dev x (x\<lparr>vd := v, ks := s\<rparr>)"
| finish: "waits x b = Some (is, w) \<Longrightarrow> \<not> bdisk (vd x) b \<Longrightarrow> rw_finish (hd is) (vd x, ks x) = Inr (v, s) \<Longrightarrow>
    vstep dev x (x\<lparr>vd := v, ks := s, waits := (waits x)(b := None)\<rparr>)"
| env: "(\<And>b. waits x b \<noteq> None \<Longrightarrow> blockno (bufs s b) = blockno (bufs (ks x) b)) \<Longrightarrow> vstep dev x (x\<lparr>ks := s\<rparr>)"

definition vinit :: "'z bio_scheme vsys \<Rightarrow> bool" where
  "vinit x \<longleftrightarrow> (\<forall>i < NUM. vfree (vd x) i) \<and> avail_idx (vd x) = dnext x \<and> used_idx (vd x) = used_seen (vd x) \<and>
     todo x = [] \<and> waits x = (\<lambda>_. None)"

inductive vreach :: "(nat \<Rightarrow> vdisk \<times> 'z bio_scheme \<Rightarrow> vdisk \<times> 'z bio_scheme) \<Rightarrow> 'z bio_scheme vsys \<Rightarrow> bool" for dev where
  vinit: "vinit x \<Longrightarrow> vreach dev x"
| vstep: "vreach dev x \<Longrightarrow> vstep dev x y \<Longrightarrow> vreach dev y"

section \<open>Invariant\<close>

definition sector_of :: "buf \<Rightarrow> u64" where
  "sector_of x = ucast (blockno x * of_nat (BSIZE div 512))"

definition formatted :: "vdisk \<Rightarrow> nat \<Rightarrow> bool \<Rightarrow> u64 \<Rightarrow> nat \<Rightarrow> nat \<Rightarrow> nat \<Rightarrow> bool" where
  "formatted v b w sec i0 i1 i2 \<longleftrightarrow>
     ops v i0 = \<lparr>r_type = (if w then VIRTIO_BLK_T_OUT else VIRTIO_BLK_T_IN), r_reserved = 0, r_sector = sec\<rparr> \<and>
     desc v i0 = \<lparr>d_addr = POp i0, d_len = 16, d_flags = VRING_DESC_F_NEXT, d_next = of_nat i1\<rparr> \<and>
     desc v i1 = \<lparr>d_addr = PData b, d_len = of_nat BSIZE,
                 d_flags = (if w then 0 else VRING_DESC_F_WRITE) OR VRING_DESC_F_NEXT, d_next = of_nat i2\<rparr> \<and>
     desc v i2 = \<lparr>d_addr = PStatus i0, d_len = 1, d_flags = VRING_DESC_F_WRITE, d_next = 0\<rparr> \<and>
     info_b v i0 = Some b"

text \<open>The descriptors of a request: three busy ones, formatted for the buffer.\<close>

definition req_ok :: "vdisk \<Rightarrow> (nat \<Rightarrow> buf) \<Rightarrow> nat \<Rightarrow> nat list \<Rightarrow> bool \<Rightarrow> bool" where
  "req_ok v bf b is w \<longleftrightarrow> (\<exists>i0 i1 i2. is = [i0, i1, i2] \<and> distinct is \<and> (\<forall>i \<in> set is. i < NUM \<and> \<not> vfree v i) \<and>
     formatted v b w (sector_of (bf b)) i0 i1 i2 \<and> unat (blockno (bf b)) < 2 ^ 31)"

definition heads :: "'z bio_scheme vsys \<Rightarrow> nat list" where
  "heads x = avail_list (vd x) (dnext x) @ todo x @ used_list (vd x)"

definition vinv :: "'z bio_scheme vsys \<Rightarrow> bool" where
  "vinv x \<longleftrightarrow>
     (\<forall>b is w. waits x b = Some (is, w) \<longrightarrow> req_ok (vd x) (bufs (ks x)) b is w) \<and>
     (\<forall>b b' is is' w w'. waits x b = Some (is, w) \<longrightarrow> waits x b' = Some (is', w') \<longrightarrow> b \<noteq> b' \<longrightarrow> set is \<inter> set is' = {}) \<and>
     (\<forall>i < NUM. \<not> vfree (vd x) i \<longrightarrow> (\<exists>b is w. waits x b = Some (is, w) \<and> i \<in> set is)) \<and>
     distinct (heads x) \<and>
     (\<forall>h. h \<in> set (heads x) \<longleftrightarrow> (\<exists>b is w. waits x b = Some (h # is, w) \<and> bdisk (vd x) b)) \<and>
     (\<forall>h \<in> set (used_list (vd x)). info_status (vd x) h = 0) \<and>
     (\<forall>b h is w. waits x b = Some (h # is, w) \<longrightarrow> (b \<in> served x \<longleftrightarrow> h \<notin> set (avail_list (vd x) (dnext x) @ todo x)))"

lemma vinvD:
  assumes "vinv x"
  shows "waits x b = Some (is, w) \<Longrightarrow> req_ok (vd x) (bufs (ks x)) b is w"
    and "waits x b = Some (is, w) \<Longrightarrow> waits x b' = Some (is', w') \<Longrightarrow> b \<noteq> b' \<Longrightarrow> set is \<inter> set is' = {}"
    and "i < NUM \<Longrightarrow> \<not> vfree (vd x) i \<Longrightarrow> \<exists>b is w. waits x b = Some (is, w) \<and> i \<in> set is"
    and "distinct (heads x)"
    and "h \<in> set (heads x) \<longleftrightarrow> (\<exists>b is w. waits x b = Some (h # is, w) \<and> bdisk (vd x) b)"
    and "h \<in> set (used_list (vd x)) \<Longrightarrow> info_status (vd x) h = 0"
    and "waits x b = Some (h # is, w) \<Longrightarrow> b \<in> served x \<longleftrightarrow> h \<notin> set (avail_list (vd x) (dnext x) @ todo x)"
  using assms unfolding vinv_def by blast+

lemma vinvI:
  assumes "\<And>b is w. waits x b = Some (is, w) \<Longrightarrow> req_ok (vd x) (bufs (ks x)) b is w"
    and "\<And>b b' is is' w w'. waits x b = Some (is, w) \<Longrightarrow> waits x b' = Some (is', w') \<Longrightarrow> b \<noteq> b' \<Longrightarrow> set is \<inter> set is' = {}"
    and "\<And>i. i < NUM \<Longrightarrow> \<not> vfree (vd x) i \<Longrightarrow> \<exists>b is w. waits x b = Some (is, w) \<and> i \<in> set is"
    and "distinct (heads x)"
    and "\<And>h. h \<in> set (heads x) \<longleftrightarrow> (\<exists>b is w. waits x b = Some (h # is, w) \<and> bdisk (vd x) b)"
    and "\<And>h. h \<in> set (used_list (vd x)) \<Longrightarrow> info_status (vd x) h = 0"
    and "\<And>b h is w. waits x b = Some (h # is, w) \<Longrightarrow> b \<in> served x \<longleftrightarrow> h \<notin> set (avail_list (vd x) (dnext x) @ todo x)"
  shows "vinv x"
  unfolding vinv_def using assms by blast

lemma vinv_unique:
  assumes "vinv x" "waits x b = Some (is, w)" "waits x b' = Some (is', w')" "i \<in> set is" "i \<in> set is'"
  shows "b' = b"
  using vinvD(2) [OF assms(1-3)] assms(4,5) by blast

lemma req_ok_shape:
  assumes "req_ok v bf b is w"
  obtains i0 i1 i2 where "is = [i0, i1, i2]" "distinct [i0, i1, i2]" "i0 < NUM" "i1 < NUM" "i2 < NUM"
    "\<not> vfree v i0" "\<not> vfree v i1" "\<not> vfree v i2" "formatted v b w (sector_of (bf b)) i0 i1 i2" "unat (blockno (bf b)) < 2 ^ 31"
proof -
  obtain i0 i1 i2 where i: "is = [i0, i1, i2]" "distinct is" "\<forall>i \<in> set is. i < NUM \<and> \<not> vfree v i"
    "formatted v b w (sector_of (bf b)) i0 i1 i2" "unat (blockno (bf b)) < 2 ^ 31"
    using assms unfolding req_ok_def by blast
  then show thesis by (intro that [OF i(1)]) simp_all
qed

lemma req_ok_frame:
  assumes "req_ok v bf b is w" "blockno (bf' b) = blockno (bf b)"
    and "\<And>i. i \<in> set is \<Longrightarrow> desc v' i = desc v i \<and> ops v' i = ops v i \<and> info_b v' i = info_b v i \<and> vfree v' i = vfree v i"
  shows "req_ok v' bf' b is w"
  using assms unfolding req_ok_def formatted_def sector_of_def by fastforce

lemma heads_bound:
  assumes "vinv x"
  shows "set (heads x) \<subseteq> {..<NUM}" "length (heads x) \<le> NUM"
proof -
  show s: "set (heads x) \<subseteq> {..<NUM}"
  proof
    fix h assume "h \<in> set (heads x)"
    then obtain b "is" w where "waits x b = Some (h # is, w)" using vinvD(5) [OF assms] by blast
    from vinvD(1) [OF assms this] show "h \<in> {..<NUM}" by (auto simp: req_ok_def)
  qed
  have "length (heads x) = card (set (heads x))" using distinct_card [OF vinvD(4) [OF assms]] by simp
  also have "\<dots> \<le> card {..<NUM}" by (rule card_mono [OF _ s]) simp
  finally show "length (heads x) \<le> NUM" by simp
qed

section \<open>The invariant holds throughout\<close>

lemma vinv_init: "vinit x \<Longrightarrow> vinv x"
  by (rule vinvI) (auto simp: vinit_def heads_def avail_list_def used_list_def ring_list_def)

lemma vinv_env:
  assumes inv: "vinv x" and "\<And>b. waits x b \<noteq> None \<Longrightarrow> blockno (bufs s b) = blockno (bufs (ks x) b)"
  shows "vinv (x\<lparr>ks := s\<rparr>)"
proof -
  have "req_ok (vd x) (bufs s) b is w" if "waits x b = Some (is, w)" for b "is" w
    using req_ok_frame [OF vinvD(1) [OF inv that], of "bufs s" "vd x"] assms(2) [of b] that by simp
  then show ?thesis using inv unfolding vinv_def heads_def by simp
qed

lemma vinv_fetch:
  assumes inv: "vinv x" and ne: "dnext x \<noteq> avail_idx (vd x)"
  shows "vinv (x\<lparr>todo := todo x @ [unat (avail_ring (vd x) (unat (dnext x) mod NUM))], dnext := dnext x + 1\<rparr>)" (is "vinv ?y")
proof -
  define h where "h = unat (avail_ring (vd x) (unat (dnext x) mod NUM))"
  have a: "avail_list (vd x) (dnext x) = h # avail_list (vd x) (dnext x + 1)"
    unfolding h_def by (rule avail_list_get [OF ne])
  let ?A = "avail_list (vd x) (dnext x + 1)" and ?U = "used_list (vd x)"
  have hx: "heads x = h # ?A @ todo x @ ?U" and hy: "heads ?y = ?A @ (todo x @ [h]) @ ?U"
    by (simp_all add: heads_def a h_def)
  have "set (heads ?y) = set (heads x)" "distinct (heads ?y)"
    using vinvD(4) [OF inv] unfolding hx hy by auto
  moreover have "set (avail_list (vd ?y) (dnext ?y) @ todo ?y) = set (avail_list (vd x) (dnext x) @ todo x)"
    using a by (auto simp: h_def)
  ultimately show ?thesis using inv unfolding vinv_def by simp
qed

lemma chain_req_formatted:
  assumes "formatted v b w sec i0 i1 i2" "i1 < NUM" "i2 < NUM"
  shows "chain_req v i0 = Some (w, sec, b, i0)"
  using assms by (simp add: chain_req_def formatted_def Let_def unat_of_nat VIRTIO_BLK_T_OUT_def VIRTIO_BLK_T_IN_def)

lemma sector_block:
  assumes "unat (blockno x) < 2 ^ 31"
  shows "ucast (sector_of x div 2) = blockno x"
proof -
  have "unat (blockno x * 2) = unat (blockno x) * 2" using assms by (simp add: unat_word_ariths)
  then have "unat (sector_of x) = unat (blockno x) * 2"
    using assms by (simp add: sector_of_def unsigned_ucast_eq take_bit_nat_eq_self_iff)
  then have "unat (sector_of x div 2) = unat (blockno x)" by (simp add: unat_div_distrib)
  then show ?thesis
    using assms by (intro word_unat_eq_iff [THEN iffD2]) (simp add: unsigned_ucast_eq take_bit_nat_eq_self_iff)
qed

lemma serve_effect:
  assumes dev: "device_ok dev" and inv: "vinv x" and h: "h \<in> set (todo x)"
  obtains b "is" w where "waits x b = Some (h # is, w)" "h < NUM" "bdisk (vd x) b"
    "dev h (vd x, ks x) = (used_put (of_nat h) ((vd x)\<lparr>info_status := (info_status (vd x))(h := 0)\<rparr>), disk_rw b w (ks x))"
proof -
  obtain b "is" w where b: "waits x b = Some (h # is, w)" "bdisk (vd x) b"
    using vinvD(5) [OF inv, of h] h by (auto simp: heads_def)
  obtain i1 i2 where f: "formatted (vd x) b w (sector_of (bufs (ks x) b)) h i1 i2" "i1 < NUM" "i2 < NUM" "h < NUM"
    and bn: "unat (blockno (bufs (ks x) b)) < 2 ^ 31"
    using vinvD(1) [OF inv b(1)] by (auto elim!: req_ok_shape)
  have "dev h (vd x, ks x) = (used_put (of_nat h) ((vd x)\<lparr>info_status := (info_status (vd x))(h := 0)\<rparr>),
      transfer w (ucast (sector_of (bufs (ks x) b) div 2)) b (ks x))"
    using dev chain_req_formatted [OF f(1-3)] unfolding device_ok_def by blast
  also have "transfer w (ucast (sector_of (bufs (ks x) b) div 2)) b (ks x) = disk_rw b w (ks x)"
    by (simp add: sector_block [OF bn] transfer_def disk_rw_def Let_def)
  finally show thesis using that b f(4) by blast
qed

lemma blockno_disk_rw [simp]: "blockno (bufs (disk_rw b w s) c) = blockno (bufs s c)"
  by (simp add: disk_rw_def upd_buf_def Let_def)

lemma vinv_serve:
  assumes dev: "device_ok dev" and inv: "vinv x" and h: "h \<in> set (todo x)" and run: "dev h (vd x, ks x) = (v, s)"
  shows "vinv (x\<lparr>vd := v, ks := s, todo := remove1 h (todo x),
      served := served x \<union> {b. \<exists>is w. waits x b = Some (h # is, w)}\<rparr>)" (is "vinv ?y")
proof -
  obtain b "is" w where b: "waits x b = Some (h # is, w)" "h < NUM" "bdisk (vd x) b"
    and e: "dev h (vd x, ks x) = (used_put (of_nat h) ((vd x)\<lparr>info_status := (info_status (vd x))(h := 0)\<rparr>), disk_rw b w (ks x))"
    by (rule serve_effect [OF dev inv h])
  let ?v = "(vd x)\<lparr>info_status := (info_status (vd x))(h := 0)\<rparr>"
  have v: "v = used_put (of_nat h) ?v" "s = disk_rw b w (ks x)" using e run by simp_all
  have "length (used_list ?v) < NUM"
    using heads_bound(2) [OF inv] h by (cases "todo x") (auto simp: heads_def used_list_def)
  then have U: "used_list v = used_list (vd x) @ [h]"
    using used_list_put [of ?v h] b(2) v(1) by (simp add: used_list_def)
  have A: "avail_list v d = avail_list (vd x) d" for d by (simp add: v(1) avail_list_def used_put_def)
  have same: "desc v = desc (vd x)" "ops v = ops (vd x)" "info_b v = info_b (vd x)" "vfree v = vfree (vd x)" "bdisk v = bdisk (vd x)"
    "info_status v = (info_status (vd x))(h := 0)"
    by (simp_all add: v(1) used_put_def)
  have hx: "distinct (avail_list (vd x) (dnext x) @ todo x @ used_list (vd x))" using vinvD(4) [OF inv] by (simp add: heads_def)
  have hy: "heads ?y = avail_list (vd x) (dnext x) @ remove1 h (todo x) @ used_list (vd x) @ [h]" by (simp add: heads_def A U)
  have set_y: "set (heads ?y) = set (heads x)" using h hx unfolding hy by (auto simp: heads_def set_remove1_eq)
  show ?thesis
  proof (rule vinvI)
    show "req_ok (vd ?y) (bufs (ks ?y)) c js u" if "waits ?y c = Some (js, u)" for c js u
      using req_ok_frame [OF vinvD(1) [OF inv], of c js u] that by (simp add: same v(2))
    show "set js \<inter> set js' = {}" if "waits ?y c = Some (js, u)" "waits ?y c' = Some (js', u')" "c \<noteq> c'" for c c' js js' u u'
      using vinvD(2) [OF inv] that by simp
    show "\<exists>b is w. waits ?y b = Some (is, w) \<and> i \<in> set is" if "i < NUM" "\<not> vfree (vd ?y) i" for i
      using vinvD(3) [OF inv that(1)] that(2) by (simp add: same)
    show "distinct (heads ?y)" using hx h unfolding hy by (auto simp: set_remove1_eq)
    show "k \<in> set (heads ?y) \<longleftrightarrow> (\<exists>b is w. waits ?y b = Some (k # is, w) \<and> bdisk (vd ?y) b)" for k
      using vinvD(5) [OF inv, of k] unfolding set_y by (simp add: same)
    show "info_status (vd ?y) k = 0" if "k \<in> set (used_list (vd ?y))" for k
      using vinvD(6) [OF inv, of k] that by (auto simp: same U)
    show "c \<in> served ?y \<longleftrightarrow> k \<notin> set (avail_list (vd ?y) (dnext ?y) @ todo ?y)" if "waits ?y c = Some (k # js, u)" for c k js u
    proof (cases "k = h")
      case True
      then show ?thesis using that h hx by (auto simp: A set_remove1_eq)
    next
      case False
      then show ?thesis using vinvD(7) [OF inv, of c k js u] that hx by (auto simp: A set_remove1_eq)
    qed
  qed
qed

lemma wakeup_bufs [simp]: "bufs (wakeup ch s) = bufs s"
  by (simp add: wakeup_def)

lemma vinv_intr_step:
  assumes inv: "vinv x" and ne: "used_seen (vd x) \<noteq> used_idx (vd x)"
  defines "h \<equiv> unat (used_ring (vd x) (unat (used_seen (vd x)) mod NUM))"
  obtains b where "info_status (vd x) h = 0" "info_b (vd x) h = Some b"
    "vinv (x\<lparr>vd := used_get ((vd x)\<lparr>bdisk := (bdisk (vd x))(b := False)\<rparr>), ks := wakeup (ChBuf b) (ks x)\<rparr>)"
proof -
  have u: "used_list (vd x) = h # used_list (used_get (vd x))" unfolding h_def by (rule used_list_get [OF ne])
  have "h \<in> set (heads x)" by (simp add: heads_def u)
  then obtain b "is" w where b: "waits x b = Some (h # is, w)" "bdisk (vd x) b" using vinvD(5) [OF inv] by blast
  have i: "info_b (vd x) h = Some b" using vinvD(1) [OF inv b(1)] by (auto simp: req_ok_def formatted_def)
  let ?v = "used_get ((vd x)\<lparr>bdisk := (bdisk (vd x))(b := False)\<rparr>)"
  let ?y = "x\<lparr>vd := ?v, ks := wakeup (ChBuf b) (ks x)\<rparr>"
  have same: "desc ?v = desc (vd x)" "ops ?v = ops (vd x)" "info_b ?v = info_b (vd x)" "vfree ?v = vfree (vd x)"
    "avail_list ?v = avail_list (vd x)" "used_list ?v = used_list (used_get (vd x))"
    "info_status ?v = info_status (vd x)" "bdisk ?v = (bdisk (vd x))(b := False)"
    by (simp_all add: used_get_def avail_list_def used_list_def fun_eq_iff)
  let ?A = "avail_list (vd x) (dnext x) @ todo x"
  have hx: "heads x = ?A @ h # used_list (used_get (vd x))" and hy: "heads ?y = ?A @ used_list (used_get (vd x))"
    by (simp_all add: heads_def same u)
  have "vinv ?y"
  proof (rule vinvI)
    show "req_ok (vd ?y) (bufs (ks ?y)) c js k" if "waits ?y c = Some (js, k)" for c js k
      using req_ok_frame [OF vinvD(1) [OF inv], of c js k "bufs (ks x)" ?v] that by (simp add: same)
    show "set js \<inter> set js' = {}" if "waits ?y c = Some (js, k)" "waits ?y c' = Some (js', k')" "c \<noteq> c'" for c c' js js' k k'
      using vinvD(2) [OF inv] that by simp
    show "\<exists>b is w. waits ?y b = Some (is, w) \<and> i \<in> set is" if "i < NUM" "\<not> vfree (vd ?y) i" for i
      using vinvD(3) [OF inv that(1)] that(2) by (simp add: same)
    show "distinct (heads ?y)" using vinvD(4) [OF inv] unfolding hx hy by auto
    show "k \<in> set (heads ?y) \<longleftrightarrow> (\<exists>b is w. waits ?y b = Some (k # is, w) \<and> bdisk (vd ?y) b)" for k
    proof (cases "k = h")
      case True
      have "k \<notin> set (heads ?y)" using vinvD(4) [OF inv] True unfolding hx hy by auto
      moreover have "c = b" if "waits x c = Some (h # js, u)" for c js u
        using vinv_unique [OF inv b(1) that, of h] by simp
      ultimately show ?thesis using True by (auto simp: same)
    next
      case False
      then have "k \<in> set (heads ?y) \<longleftrightarrow> k \<in> set (heads x)" unfolding hx hy by auto
      also have "\<dots> \<longleftrightarrow> (\<exists>b is w. waits x b = Some (k # is, w) \<and> bdisk (vd x) b)" by (rule vinvD(5) [OF inv])
      also have "\<dots> \<longleftrightarrow> (\<exists>b is w. waits ?y b = Some (k # is, w) \<and> bdisk (vd ?y) b)"
      proof -
        have "c \<noteq> b" if "waits x c = Some (k # js, u)" for c js u using that b(1) False by auto
        then show ?thesis by (simp add: same) blast
      qed
      finally show ?thesis .
    qed
    show "info_status (vd ?y) k = 0" if "k \<in> set (used_list (vd ?y))" for k
      using vinvD(6) [OF inv, of k] that by (simp add: same u)
    show "c \<in> served ?y \<longleftrightarrow> k \<notin> set (avail_list (vd ?y) (dnext ?y) @ todo ?y)" if "waits ?y c = Some (k # js, l)" for c k js l
      using vinvD(7) [OF inv, of c k js l] that by (simp add: same)
  qed
  moreover have "info_status (vd x) h = 0" using vinvD(6) [OF inv, of h] u by simp
  ultimately show thesis using that i by blast
qed

lemma vinv_intr:
  "vinv x \<Longrightarrow> vd x = v \<Longrightarrow> ks x = s \<Longrightarrow>
   \<exists>v' s'. virtio_disk_intr (v, s) = Inr (v', s') \<and> vinv (x\<lparr>vd := v', ks := s'\<rparr>) \<and> used_seen v' = used_idx v'"
proof (induction "(v, s)" arbitrary: v s x rule: virtio_disk_intr.induct)
  case (1 v s)
  show ?case
  proof (cases "used_seen v = used_idx v")
    case True
    then show ?thesis using 1(2-4) by (auto simp: virtio_disk_intr.simps [of v s])
  next
    case False
    let ?h = "unat (used_ring v (unat (used_seen v) mod NUM))"
    obtain b where b: "info_status v ?h = 0" "info_b v ?h = Some b"
      "vinv (x\<lparr>vd := used_get (v\<lparr>bdisk := (bdisk v)(b := False)\<rparr>), ks := wakeup (ChBuf b) s\<rparr>)" (is "vinv ?y")
      using vinv_intr_step [OF 1(2)] 1(3,4) False by metis
    obtain v' s' where "virtio_disk_intr (vd ?y, ks ?y) = Inr (v', s')" "vinv (?y\<lparr>vd := v', ks := s'\<rparr>)" "used_seen v' = used_idx v'"
      using 1(1) [OF False refl _ b(2), of ?y] b(1,3) by auto
    then show ?thesis using False b(1,2) by (auto simp: virtio_disk_intr.simps [of v s] Let_def)
  qed
qed

lemma alloc_desc_cases:
  obtains (None) "alloc_desc v = (None, v)" "\<forall>i < NUM. \<not> vfree v i"
  | (Some) i where "alloc_desc v = (Some i, v\<lparr>vfree := (vfree v)(i := False)\<rparr>)" "i < NUM" "vfree v i"
proof (cases "find (vfree v) [0..<NUM]")
  case None
  then have "\<forall>i < NUM. \<not> vfree v i" by (auto simp: find_None_iff simp del: NUM_def)
  then show ?thesis using that(1) None by (simp add: alloc_desc_def)
next
  case (Some i)
  then have "i \<in> set [0..<NUM]" "vfree v i" by (auto simp: find_Some_iff simp del: NUM_def)
  then show ?thesis using that(2) Some by (simp add: alloc_desc_def)
qed

text \<open>Failing to get three descriptors changes nothing but descriptors that are free.\<close>

definition same_busy :: "vdisk \<Rightarrow> vdisk \<Rightarrow> bool" where
  "same_busy v v' \<longleftrightarrow> vfree v' = vfree v \<and> (\<forall>i. \<not> vfree v i \<longrightarrow> desc v' i = desc v i) \<and> ops v' = ops v \<and>
     info_b v' = info_b v \<and> info_status v' = info_status v \<and> bdisk v' = bdisk v \<and>
     (\<forall>d. avail_list v' d = avail_list v d) \<and> used_list v' = used_list v"

lemma alloc3_cases:
  obtains (Some) a b c where "alloc3_desc (v, s) = Inr (Some [a, b, c], v\<lparr>vfree := (vfree v)(a := False, b := False, c := False)\<rparr>, s)"
      "distinct [a, b, c]" "\<forall>i \<in> {a, b, c}. i < NUM \<and> vfree v i"
  | (None) v' s' where "alloc3_desc (v, s) = Inr (None, v', s')" "same_busy v v'" "bufs s' = bufs s"
proof (cases rule: alloc_desc_cases [of v])
  case None
  then show ?thesis using that(2) by (simp add: alloc3_desc_def same_busy_def)
next
  case (Some a)
  note a = Some
  let ?v1 = "v\<lparr>vfree := (vfree v)(a := False)\<rparr>"
  show ?thesis
  proof (cases rule: alloc_desc_cases [of ?v1])
    case None
    then show ?thesis using a that(2)
      by (auto simp: alloc3_desc_def same_busy_def free_desc_def avail_list_def used_list_def fun_eq_iff)
  next
    case (Some b)
    note b = Some
    let ?v2 = "?v1\<lparr>vfree := (vfree ?v1)(b := False)\<rparr>"
    show ?thesis
    proof (cases rule: alloc_desc_cases [of ?v2])
      case None
      then show ?thesis using a b that(2)
        by (auto simp: alloc3_desc_def same_busy_def free_desc_def avail_list_def used_list_def fun_eq_iff split: if_splits)
    next
      case (Some c)
      have "alloc3_desc (v, s) = Inr (Some [a, b, c], v\<lparr>vfree := (vfree v)(a := False, b := False, c := False)\<rparr>, s)"
        using a(1) b(1) Some(1) by (simp add: alloc3_desc_def)
      moreover have "distinct [a, b, c]" "\<forall>i \<in> {a, b, c}. i < NUM \<and> vfree v i"
        using a(2,3) b(2,3) Some(2,3) by (auto split: if_splits)
      ultimately show ?thesis by (rule that(1))
    qed
  qed
qed

lemma vinv_same_busy:
  assumes inv: "vinv x" and v: "same_busy (vd x) v" and s: "\<And>b. blockno (bufs s b) = blockno (bufs (ks x) b)"
  shows "vinv (x\<lparr>vd := v, ks := s\<rparr>)"
proof -
  have "req_ok v (bufs s) b is w" if "waits x b = Some (is, w)" for b "is" w
  proof (rule req_ok_frame [OF vinvD(1) [OF inv that]])
    fix i assume "i \<in> set is"
    then have "\<not> vfree (vd x) i" using vinvD(1) [OF inv that] by (auto simp: req_ok_def)
    then show "desc v i = desc (vd x) i \<and> ops v i = ops (vd x) i \<and> info_b v i = info_b (vd x) i \<and> vfree v i = vfree (vd x) i"
      using v by (simp add: same_busy_def)
  qed (rule s)
  then show ?thesis using inv v unfolding vinv_def heads_def same_busy_def by simp
qed

lemma vinv_full:
  assumes "vinv x" "rw_submit b w (vd x, ks x) = Inr (None, v, s)"
  shows "vinv (x\<lparr>vd := v, ks := s\<rparr>)"
proof (cases rule: alloc3_cases [of "vd x" "ks x"])
  case (Some a b c)
  then show ?thesis using assms(2) by (simp add: rw_submit_def Let_def)
next
  case (None v' s')
  then show ?thesis using assms by (simp add: rw_submit_def Let_def vinv_same_busy)
qed

lemma format_req_ok:
  assumes "distinct [i0, i1, i2]"
  shows "formatted (avail_put h (format_req b w sec i0 i1 i2 v)) b w sec i0 i1 i2"
  using assms by (simp add: formatted_def format_req_def avail_put_def)

lemma free_not_head:
  assumes inv: "vinv x" and "i < NUM" "vfree (vd x) i"
  shows "i \<notin> set (heads x)" "length (heads x) < NUM"
proof -
  show n: "i \<notin> set (heads x)"
  proof
    assume "i \<in> set (heads x)"
    then obtain c js u where "waits x c = Some (i # js, u)" using vinvD(5) [OF inv] by blast
    from vinvD(1) [OF inv this] assms(3) show False by (auto simp: req_ok_def)
  qed
  have "set (i # heads x) \<subseteq> {..<NUM}" "distinct (i # heads x)"
    using heads_bound(1) [OF inv] assms(2) n vinvD(4) [OF inv] by auto
  from card_mono [OF _ this(1)] distinct_card [OF this(2)] show "length (heads x) < NUM" by simp
qed

lemma submit_ok:
  assumes inv: "vinv x" and run: "rw_submit b w (vd x, ks x) = Inr (Some is, v, s)"
  obtains i0 i1 i2 where "is = [i0, i1, i2]" "distinct [i0, i1, i2]" "\<And>i. i \<in> set is \<Longrightarrow> i < NUM \<and> vfree (vd x) i" "s = ks x"
    "formatted v b w (sector_of (bufs (ks x) b)) i0 i1 i2"
    "\<And>i. i \<notin> set is \<Longrightarrow> desc v i = desc (vd x) i \<and> ops v i = ops (vd x) i \<and> info_b v i = info_b (vd x) i \<and>
       info_status v i = info_status (vd x) i"
    "\<And>i. vfree v i \<longleftrightarrow> vfree (vd x) i \<and> i \<notin> set is" "bdisk v = (bdisk (vd x))(b := True)"
    "avail_list v (dnext x) = avail_list (vd x) (dnext x) @ [i0]" "used_list v = used_list (vd x)"
proof (cases rule: alloc3_cases [of "vd x" "ks x"])
  case (None v' s')
  then show ?thesis using run by (simp add: rw_submit_def Let_def)
next
  case (Some i0 i1 i2)
  let ?v1 = "(vd x)\<lparr>vfree := (vfree (vd x))(i0 := False, i1 := False, i2 := False)\<rparr>"
  let ?sec = "sector_of (bufs (ks x) b)"
  let ?v2 = "format_req b w ?sec i0 i1 i2 ?v1"
  have v: "is = [i0, i1, i2]" "v = avail_put (of_nat i0) ?v2" "s = ks x"
    using run Some(1) by (auto simp: rw_submit_def Let_def sector_of_def)
  have a2: "avail_list ?v2 (dnext x) = avail_list (vd x) (dnext x)" by (simp add: avail_list_def format_req_def)
  have "length (heads x) < NUM" using free_not_head(2) [OF inv, of i0] Some(3) by simp
  then have "length (avail_list ?v2 (dnext x)) < NUM" unfolding a2 by (simp add: heads_def)
  from avail_list_put [OF this, of i0] have A: "avail_list v (dnext x) = avail_list (vd x) (dnext x) @ [i0]"
    using Some(3) unfolding v(2) a2 by simp
  show ?thesis
  proof (rule that [OF v(1) Some(2) _ v(3) _ _ _ _ A])
    show "formatted v b w ?sec i0 i1 i2" unfolding v(2) by (rule format_req_ok [OF Some(2)])
  qed (use Some(3) in \<open>auto simp: v format_req_def avail_put_def used_list_def\<close>)
qed

lemma vinv_submit:
  assumes inv: "vinv x" and b: "waits x b = None" and bn: "unat (blockno (bufs (ks x) b)) < 2 ^ 31"
    and run: "rw_submit b w (vd x, ks x) = Inr (Some is, v, s)"
  shows "vinv (x\<lparr>vd := v, ks := s, waits := (waits x)(b := Some (is, w)), served := served x - {b}\<rparr>)" (is "vinv ?y")
proof -
  obtain i0 i1 i2 where i: "is = [i0, i1, i2]" "distinct [i0, i1, i2]" and fr: "\<And>i. i \<in> set is \<Longrightarrow> i < NUM \<and> vfree (vd x) i"
    and s: "s = ks x" and f: "formatted v b w (sector_of (bufs (ks x) b)) i0 i1 i2"
    and other: "\<And>i. i \<notin> set is \<Longrightarrow> desc v i = desc (vd x) i \<and> ops v i = ops (vd x) i \<and> info_b v i = info_b (vd x) i \<and>
       info_status v i = info_status (vd x) i"
    and vf: "\<And>i. vfree v i \<longleftrightarrow> vfree (vd x) i \<and> i \<notin> set is" and bd: "bdisk v = (bdisk (vd x))(b := True)"
    and A: "avail_list v (dnext x) = avail_list (vd x) (dnext x) @ [i0]" and U: "used_list v = used_list (vd x)"
    by (rule submit_ok [OF inv run]) blast
  have busy: "i \<notin> set is" if "waits x c = Some (js, u)" "i \<in> set js" for c js u i
    using vinvD(1) [OF inv that(1)] that(2) fr by (auto simp: req_ok_def)
  have new: "i0 \<notin> set (heads x)" using free_not_head(1) [OF inv, of i0] fr [of i0] i(1) by simp
  have hy: "heads ?y = avail_list (vd x) (dnext x) @ [i0] @ todo x @ used_list (vd x)" by (simp add: heads_def A U)
  have set_y: "set (heads ?y) = insert i0 (set (heads x))" unfolding hy by (simp add: heads_def [of x])
  have nb: "c \<noteq> b" if "waits x c = Some js" for c js using that b by auto
  have keep: "(c = b \<and> js = is \<and> u = w) \<or> (c \<noteq> b \<and> waits x c = Some (js, u))" if "waits ?y c = Some (js, u)" for c js u
    using that by (auto split: if_splits)
  show ?thesis
  proof (rule vinvI)
    show "req_ok (vd ?y) (bufs (ks ?y)) c js u" if "waits ?y c = Some (js, u)" for c js u
      using keep [OF that]
    proof (elim disjE conjE)
      assume "c = b" "js = is" "u = w"
      then show ?thesis using i fr f bn vf s by (auto simp: req_ok_def)
    next
      assume c: "waits x c = Some (js, u)"
      show ?thesis using req_ok_frame [OF vinvD(1) [OF inv c]] other vf busy [OF c] s by simp
    qed
    show "set js \<inter> set js' = {}" if "waits ?y c = Some (js, u)" "waits ?y c' = Some (js', u')" "c \<noteq> c'" for c c' js js' u u'
      using keep [OF that(1)] keep [OF that(2)] that(3) busy vinvD(2) [OF inv, of c js u c' js' u'] by blast
    show "\<exists>b is w. waits ?y b = Some (is, w) \<and> i \<in> set is" if lt: "i < NUM" and nf: "\<not> vfree (vd ?y) i" for i
    proof (cases "i \<in> set is")
      case False
      then obtain c js u where "waits x c = Some (js, u)" "i \<in> set js" using vinvD(3) [OF inv lt] nf vf by auto
      then show ?thesis using nb [of c] by auto
    qed auto
    show "distinct (heads ?y)" using vinvD(4) [OF inv] new unfolding hy heads_def [of x] by auto
    show "k \<in> set (heads ?y) \<longleftrightarrow> (\<exists>b is w. waits ?y b = Some (k # is, w) \<and> bdisk (vd ?y) b)" for k
    proof -
      have "(\<exists>b is w. waits ?y b = Some (k # is, w) \<and> bdisk (vd ?y) b) \<longleftrightarrow>
          k = i0 \<or> (\<exists>b is w. waits x b = Some (k # is, w) \<and> bdisk (vd x) b)"
      proof
        assume "\<exists>b is w. waits ?y b = Some (k # is, w) \<and> bdisk (vd ?y) b"
        then obtain c js u where c: "waits ?y c = Some (k # js, u)" "bdisk v c" by auto
        show "k = i0 \<or> (\<exists>b is w. waits x b = Some (k # is, w) \<and> bdisk (vd x) b)"
          using keep [OF c(1)]
        proof (elim disjE conjE)
          assume "c \<noteq> b" "waits x c = Some (k # js, u)"
          moreover from this have "bdisk (vd x) c" using c(2) by (simp add: bd)
          ultimately show ?thesis by blast
        qed (use i(1) in simp)
      next
        assume "k = i0 \<or> (\<exists>b is w. waits x b = Some (k # is, w) \<and> bdisk (vd x) b)"
        then show "\<exists>b is w. waits ?y b = Some (k # is, w) \<and> bdisk (vd ?y) b"
        proof
          assume "k = i0"
          then show ?thesis using i(1) by (intro exI [of _ b]) (simp add: bd)
        next
          assume "\<exists>b is w. waits x b = Some (k # is, w) \<and> bdisk (vd x) b"
          then obtain c js u where "waits x c = Some (k # js, u)" "bdisk (vd x) c" by blast
          then show ?thesis using nb [of c] by (intro exI [of _ c]) (simp add: bd)
        qed
      qed
      then show ?thesis unfolding set_y using vinvD(5) [OF inv, of k] by blast
    qed
    show "info_status (vd ?y) k = 0" if "k \<in> set (used_list (vd ?y))" for k
    proof -
      have k: "k \<in> set (used_list (vd x))" using that by (simp add: U)
      then obtain c js u where "waits x c = Some (k # js, u)" using vinvD(5) [OF inv, of k] by (auto simp: heads_def)
      from busy [OF this, of k] show ?thesis using other vinvD(6) [OF inv k] by simp
    qed
    show "c \<in> served ?y \<longleftrightarrow> k \<notin> set (avail_list (vd ?y) (dnext ?y) @ todo ?y)" if "waits ?y c = Some (k # js, u)" for c k js u
      using keep [OF that]
    proof (elim disjE conjE)
      assume c: "c \<noteq> b" "waits x c = Some (k # js, u)"
      then have "k \<noteq> i0" using busy [OF c(2), of k] i(1) by auto
      then show ?thesis using vinvD(7) [OF inv c(2)] c(1) by (simp add: A)
    qed (use i(1) A in auto)
  qed
qed

lemma free_chain_step:
  assumes "i < NUM" "\<not> vfree v i"
  shows "free_chain i (v, s) =
    (let r = (v\<lparr>desc := (desc v)(i := zero_desc), vfree := (vfree v)(i := True)\<rparr>, wakeup ChDiskFree s) in
     if d_flags (desc v i) AND VRING_DESC_F_NEXT \<noteq> 0 then free_chain (unat (d_next (desc v i))) r else Inr r)"
  using assms by (subst free_chain.simps) (simp add: free_desc_def Let_def)

lemma wakeup_twice [simp]: "wakeup ch (wakeup ch s) = wakeup ch s"
  by (simp add: wakeup_def fun_eq_iff)

lemma flags_next [simp]:
  "VRING_DESC_F_NEXT \<noteq> 0" "(VRING_DESC_F_WRITE OR VRING_DESC_F_NEXT) AND VRING_DESC_F_NEXT \<noteq> 0"
  "VRING_DESC_F_WRITE AND VRING_DESC_F_NEXT = 0"
  by (simp_all add: VRING_DESC_F_NEXT_def VRING_DESC_F_WRITE_def)

text \<open>Giving back a chain: its three descriptors become free, nothing else changes.\<close>

lemma finish_ok:
  assumes inv: "vinv x" and b: "waits x b = Some (is, w)"
  obtains v where "rw_finish (hd is) (vd x, ks x) = Inr (v, wakeup ChDiskFree (ks x))"
    "\<And>i. vfree v i \<longleftrightarrow> vfree (vd x) i \<or> i \<in> set is"
    "\<And>i. i \<notin> set is \<Longrightarrow> desc v i = desc (vd x) i \<and> info_b v i = info_b (vd x) i" "ops v = ops (vd x)"
    "info_status v = info_status (vd x)" "bdisk v = bdisk (vd x)" "\<And>d. avail_list v d = avail_list (vd x) d"
    "used_list v = used_list (vd x)"
proof -
  obtain i0 i1 i2 where i: "is = [i0, i1, i2]" "distinct [i0, i1, i2]" "i0 < NUM" "i1 < NUM" "i2 < NUM"
    "\<not> vfree (vd x) i0" "\<not> vfree (vd x) i1" "\<not> vfree (vd x) i2" and f: "formatted (vd x) b w (sector_of (bufs (ks x) b)) i0 i1 i2"
    using vinvD(1) [OF inv b] by (rule req_ok_shape)
  let ?v = "(vd x)\<lparr>info_b := (info_b (vd x))(i0 := None), desc := (desc (vd x))(i0 := zero_desc, i1 := zero_desc, i2 := zero_desc),
    vfree := (vfree (vd x))(i0 := True, i1 := True, i2 := True)\<rparr>"
  have "rw_finish (hd is) (vd x, ks x) = Inr (?v, wakeup ChDiskFree (ks x))"
    using i f unfolding rw_finish_def formatted_def
    by (simp add: free_chain_step unat_of_nat Let_def fun_upd_other)
  then show thesis by (rule that) (auto simp: i(1) avail_list_def used_list_def)
qed

lemma vinv_finish:
  assumes inv: "vinv x" and b: "waits x b = Some (is, w)" "\<not> bdisk (vd x) b"
    and run: "rw_finish (hd is) (vd x, ks x) = Inr (v, s)"
  shows "vinv (x\<lparr>vd := v, ks := s, waits := (waits x)(b := None)\<rparr>)" (is "vinv ?y")
proof -
  obtain v' where v': "rw_finish (hd is) (vd x, ks x) = Inr (v', wakeup ChDiskFree (ks x))"
    and vf: "\<And>i. vfree v' i \<longleftrightarrow> vfree (vd x) i \<or> i \<in> set is"
    and other: "\<And>i. i \<notin> set is \<Longrightarrow> desc v' i = desc (vd x) i \<and> info_b v' i = info_b (vd x) i"
    and same: "ops v' = ops (vd x)" "info_status v' = info_status (vd x)" "bdisk v' = bdisk (vd x)"
      "\<And>d. avail_list v' d = avail_list (vd x) d" "used_list v' = used_list (vd x)"
    by (rule finish_ok [OF inv b(1)]) blast
  have v: "v = v'" "s = wakeup ChDiskFree (ks x)" using run v' by simp_all
  have keep: "waits x c = Some (js, u) \<and> c \<noteq> b" if "waits ?y c = Some (js, u)" for c js u
    using that by (auto split: if_splits)
  have apart: "i \<notin> set is" if "waits x c = Some (js, u)" "c \<noteq> b" "i \<in> set js" for c js u i
    using vinvD(2) [OF inv that(1) b(1) that(2)] that(3) by blast
  have hy: "heads ?y = heads x" by (simp add: heads_def v same)
  show ?thesis
  proof (rule vinvI)
    show "req_ok (vd ?y) (bufs (ks ?y)) c js u" if "waits ?y c = Some (js, u)" for c js u
      using req_ok_frame [OF vinvD(1) [OF inv], of c js u] keep [OF that] apart [of c js u] other vf
      by (simp add: v same)
    show "set js \<inter> set js' = {}" if "waits ?y c = Some (js, u)" "waits ?y c' = Some (js', u')" "c \<noteq> c'" for c c' js js' u u'
      using vinvD(2) [OF inv, of c js u c' js' u'] keep [OF that(1)] keep [OF that(2)] that(3) by blast
    show "\<exists>b is w. waits ?y b = Some (is, w) \<and> i \<in> set is" if "i < NUM" "\<not> vfree (vd ?y) i" for i
    proof -
      have "\<not> vfree (vd x) i" "i \<notin> set is" using that(2) vf by (auto simp: v)
      from vinvD(3) [OF inv that(1) this(1)] obtain c js u where "waits x c = Some (js, u)" "i \<in> set js" by blast
      moreover from this \<open>i \<notin> set is\<close> b(1) have "c \<noteq> b" by auto
      ultimately show ?thesis by auto
    qed
    show "distinct (heads ?y)" unfolding hy by (rule vinvD(4) [OF inv])
    show "k \<in> set (heads ?y) \<longleftrightarrow> (\<exists>b is w. waits ?y b = Some (k # is, w) \<and> bdisk (vd ?y) b)" for k
      using vinvD(5) [OF inv, of k] b(2) unfolding hy by (auto simp: v same)
    show "info_status (vd ?y) k = 0" if "k \<in> set (used_list (vd ?y))" for k
      using vinvD(6) [OF inv, of k] that by (simp add: v same)
    show "c \<in> served ?y \<longleftrightarrow> k \<notin> set (avail_list (vd ?y) (dnext ?y) @ todo ?y)" if "waits ?y c = Some (k # js, u)" for c k js u
      using vinvD(7) [OF inv, of c k js u] keep [OF that] by (simp add: v same)
  qed
qed

lemma vinv_step:
  assumes "device_ok dev" "vstep dev x y" "vinv x"
  shows "vinv y"
  using assms(2)
proof cases
  case (submit b w "is" v s)
  then show ?thesis using vinv_submit [OF assms(3)] by simp
next
  case (full b w v s)
  then show ?thesis using vinv_full [OF assms(3)] by simp
next
  case fetch
  then show ?thesis using vinv_fetch [OF assms(3)] by simp
next
  case (serve h v s)
  then show ?thesis using vinv_serve [OF assms(1,3)] by simp
next
  case (intr v s)
  then show ?thesis using vinv_intr [OF assms(3) refl refl] by auto
next
  case (finish b "is" w v s)
  then show ?thesis using vinv_finish [OF assms(3)] by simp
next
  case (env s)
  then show ?thesis using vinv_env [OF assms(3)] by simp
qed

lemma vinv_reach: "vreach dev x \<Longrightarrow> device_ok dev \<Longrightarrow> vinv x"
  by (induction rule: vreach.induct) (auto intro: vinv_init vinv_step)

lemma waits_finite:
  assumes inv: "vinv x"
  shows "finite (dom (waits x))"
proof (rule inj_on_finite)
  let ?f = "\<lambda>b. hd (fst (the (waits x b)))"
  have head: "waits x b = Some (js, u) \<Longrightarrow> hd js \<in> set js \<and> hd js < NUM" for b js u
    by (drule vinvD(1) [OF inv]) (auto simp: req_ok_def)
  show "inj_on ?f (dom (waits x))"
  proof (rule inj_onI)
    fix b c assume bc: "b \<in> dom (waits x)" "c \<in> dom (waits x)" "?f b = ?f c"
    then obtain js u js' u' where w: "waits x b = Some (js, u)" "waits x c = Some (js', u')" by auto
    have eq: "hd js = hd js'" using bc(3) by (simp only: w option.sel fst_conv)
    show "b = c" by (rule vinv_unique [OF inv w(2,1), of "hd js"]) (use head [OF w(1)] head [OF w(2)] eq in metis)+
  qed
  show "?f ` dom (waits x) \<subseteq> {..<NUM}"
  proof (rule image_subsetI)
    fix b assume "b \<in> dom (waits x)"
    then obtain js u where w: "waits x b = Some (js, u)" by auto
    show "?f b \<in> {..<NUM}" using head [OF w] w by simp
  qed
qed simp

lemma descriptors_conserved:
  assumes inv: "vinv x"
  shows "3 * card (dom (waits x)) + card {i. i < NUM \<and> vfree (vd x) i} = NUM"
proof -
  let ?B = "\<lambda>b. set (fst (the (waits x b)))"
  have c3: "card (?B b) = 3" if "b \<in> dom (waits x)" for b
  proof -
    obtain js u where b: "waits x b = Some (js, u)" using \<open>b \<in> dom (waits x)\<close> by auto
    from vinvD(1) [OF inv b] obtain i j k where "js = [i, j, k]" "distinct js" by (auto simp: req_ok_def)
    then show ?thesis using b distinct_card [of js] by simp
  qed
  have "card (\<Union>b \<in> dom (waits x). ?B b) = (\<Sum>b \<in> dom (waits x). card (?B b))"
  proof (intro card_UN_disjoint ballI impI)
    fix b c assume "b \<in> dom (waits x)" "c \<in> dom (waits x)" "b \<noteq> c"
    then obtain js u js' u' where "waits x b = Some (js, u)" "waits x c = Some (js', u')" "b \<noteq> c" by auto
    then show "?B b \<inter> ?B c = {}" using vinvD(2) [OF inv, of b js u c js' u'] by simp
  qed (simp_all add: waits_finite [OF inv])
  also have "\<dots> = 3 * card (dom (waits x))" using c3 by simp
  also have "(\<Union>b \<in> dom (waits x). ?B b) = {i. i < NUM \<and> \<not> vfree (vd x) i}"
  proof (intro set_eqI iffI)
    fix i assume "i \<in> (\<Union>b \<in> dom (waits x). ?B b)"
    then obtain b js u where b: "waits x b = Some (js, u)" "i \<in> set js" by auto
    from vinvD(1) [OF inv b(1)] b(2) show "i \<in> {i. i < NUM \<and> \<not> vfree (vd x) i}" by (auto simp: req_ok_def)
  next
    fix i assume "i \<in> {i. i < NUM \<and> \<not> vfree (vd x) i}"
    then obtain b js u where b: "waits x b = Some (js, u)" "i \<in> set js" using vinvD(3) [OF inv, of i] by auto
    then have "b \<in> dom (waits x)" "i \<in> ?B b" by auto
    then show "i \<in> (\<Union>b \<in> dom (waits x). ?B b)" by blast
  qed
  finally have busy: "card {i. i < NUM \<and> \<not> vfree (vd x) i} = 3 * card (dom (waits x))" .
  have "card ({i. i < NUM \<and> \<not> vfree (vd x) i} \<union> {i. i < NUM \<and> vfree (vd x) i}) =
      card {i. i < NUM \<and> \<not> vfree (vd x) i} + card {i. i < NUM \<and> vfree (vd x) i}"
    by (rule card_Un_disjoint) auto
  moreover have "{i. i < NUM \<and> \<not> vfree (vd x) i} \<union> {i. i < NUM \<and> vfree (vd x) i} = {..<NUM}" by auto
  ultimately have "card {i. i < NUM \<and> \<not> vfree (vd x) i} + card {i. i < NUM \<and> vfree (vd x) i} = NUM"
    by (metis card_lessThan)
  with busy show ?thesis by simp
qed

lemma intr_clears:
  assumes inv: "vinv x"
  obtains v s where "virtio_disk_intr (vd x, ks x) = Inr (v, s)"
    "\<And>b. b \<in> served x \<Longrightarrow> waits x b \<noteq> None \<Longrightarrow> \<not> bdisk v b"
proof -
  obtain v s where r: "virtio_disk_intr (vd x, ks x) = Inr (v, s)" and i: "vinv (x\<lparr>vd := v, ks := s\<rparr>)" (is "vinv ?y")
    and u: "used_seen v = used_idx v"
    using vinv_intr [OF inv refl refl] by blast
  have "used_list v = []" using u by (simp add: used_list_def ring_list_def)
  then have hy: "heads ?y = avail_list v (dnext x) @ todo x" by (simp add: heads_def)
  have "\<not> bdisk v b" if sb: "b \<in> served x" "waits x b \<noteq> None" for b
  proof
    assume bd: "bdisk v b"
    obtain js u where b: "waits ?y b = Some (js, u)" using sb(2) by auto
    then obtain h js' where js: "js = h # js'" using vinvD(1) [OF i b] by (auto simp: req_ok_def)
    then have "h \<in> set (heads ?y)" using vinvD(5) [OF i, of h] b bd by auto
    then show False using vinvD(7) [OF i, of b h js' u] b js sb(1) unfolding hy by simp
  qed
  with r that show thesis by blast
qed

section \<open>Properties\<close>

text \<open>
  C29. The driver with a device that honours requests refines \<open>disk_rw\<close>. In every reachable state, whatever the
  interleaving of processes, device, interrupts and the rest of the kernel: each chain the device
  holds belongs to a waiting request that has not been served before, and serving it has exactly the effect of
  \<open>disk_rw\<close> for that buffer and direction; and a waiter whose buffer is marked done
  has been served.
\<close>

theorem virtio_refines_disk_rw:
  assumes "device_ok dev" and "vreach dev x"
  shows "(\<forall>h \<in> set (todo x). \<exists>b is w. waits x b = Some (h # is, w) \<and> b \<notin> served x \<and>
      snd (dev h (vd x, ks x)) = disk_rw b w (ks x)) \<and>
    (\<forall>b is w. waits x b = Some (is, w) \<and> \<not> bdisk (vd x) b \<longrightarrow> b \<in> served x)"
proof (intro conjI ballI allI impI)
  have inv: "vinv x" using vinv_reach assms by blast
  show "\<exists>b is w. waits x b = Some (h # is, w) \<and> b \<notin> served x \<and> snd (dev h (vd x, ks x)) = disk_rw b w (ks x)"
    if h: "h \<in> set (todo x)" for h
    using serve_effect [OF assms(1) inv h] vinvD(7) [OF inv] h by (metis Un_iff set_append snd_conv)
  show "b \<in> served x" if w: "waits x b = Some (is, w) \<and> \<not> bdisk (vd x) b" for b "is" w
  proof -
    obtain h js where js: "is = h # js" using vinvD(1) [OF inv, of b "is" w] w by (auto simp: req_ok_def)
    have "h \<notin> set (heads x)"
    proof
      assume "h \<in> set (heads x)"
      then obtain c js' u where c: "waits x c = Some (h # js', u)" "bdisk (vd x) c" using vinvD(5) [OF inv] by blast
      have "c = b" using vinv_unique [OF inv _ c(1), of b "is" w h] w js by simp
      then show False using c(2) w by simp
    qed
    then show ?thesis using vinvD(7) [OF inv, of b h js w] w js by (simp add: heads_def)
  qed
qed

definition demo_dev :: "nat \<Rightarrow> vdisk \<times> bio \<Rightarrow> vdisk \<times> bio" where
  "demo_dev h = (\<lambda>(v, s). case chain_req v h of
     Some (write, sector, b, j) \<Rightarrow>
       (used_put (of_nat h) (v\<lparr>info_status := (info_status v)(j := 0)\<rparr>), transfer write (ucast (sector div 2)) b s)
   | None \<Rightarrow> (v, s))"

lemma demo_dev_ok: "device_ok demo_dev"
  by (simp add: device_ok_def demo_dev_def)

definition demo_v :: vdisk where
  "demo_v = \<lparr>desc = (\<lambda>_. zero_desc), avail_ring = (\<lambda>_. 0), avail_idx = 0xffff, used_ring = (\<lambda>_. 0), used_idx = 0xffff,
     vfree = (\<lambda>_. True), used_seen = 0xffff, info_b = (\<lambda>_. None), info_status = (\<lambda>_. 0),
     ops = (\<lambda>_. \<lparr>r_type = 0, r_reserved = 0, r_sector = 0\<rparr>), bdisk = (\<lambda>_. False)\<rparr>"

definition demo_sys :: "bio vsys" where
  "demo_sys = \<lparr>vd = demo_v, ks = demo_bio, dnext = 0xffff, todo = [], waits = (\<lambda>_. None), served = {}\<rparr>"

definition demo_v1 :: vdisk where
  "demo_v1 = avail_put 0 (format_req 5 False 0 0 1 2 (demo_v\<lparr>vfree := (\<lambda>_. True)(0 := False, 1 := False, 2 := False)\<rparr>))"

lemma demo_submit: "rw_submit 5 False (demo_v, demo_bio) = Inr (Some [0, 1, 2], demo_v1, demo_bio)"
  by (simp add: rw_submit_def alloc3_desc_def alloc_desc_def upt_rec demo_v1_def demo_v_def demo_bio_def
      zero_buf_def numeral_2_eq_2)

definition demo_sys1 :: "bio vsys" where
  "demo_sys1 = demo_sys\<lparr>vd := demo_v1, waits := (\<lambda>_. None)(5 := Some ([0, 1, 2], False))\<rparr>"

definition demo_sys2 :: "bio vsys" where
  "demo_sys2 = demo_sys1\<lparr>todo := [0], dnext := 0\<rparr>"

lemma demo_reach: "vreach demo_dev demo_sys2"
proof -
  have 0: "vreach demo_dev demo_sys" by (rule vreach.vinit) (simp add: vinit_def demo_sys_def demo_v_def)
  have "vstep demo_dev demo_sys (demo_sys\<lparr>vd := demo_v1, ks := demo_bio, waits := (waits demo_sys)(5 := Some ([0, 1, 2], False)),
      served := served demo_sys - {5}\<rparr>)"
    by (rule vstep.submit) (simp_all add: demo_sys_def demo_submit, simp add: demo_bio_def zero_buf_def)
  also have "demo_sys\<lparr>vd := demo_v1, ks := demo_bio, waits := (waits demo_sys)(5 := Some ([0, 1, 2], False)),
      served := served demo_sys - {5}\<rparr> = demo_sys1"
    by (simp add: demo_sys1_def demo_sys_def)
  finally have 1: "vreach demo_dev demo_sys1" using 0 vreach.vstep by blast
  have "vstep demo_dev demo_sys1 (demo_sys1\<lparr>todo := todo demo_sys1 @ [unat (avail_ring (vd demo_sys1) (unat (dnext demo_sys1) mod NUM))],
      dnext := dnext demo_sys1 + 1\<rparr>)"
    by (rule vstep.fetch) (simp add: demo_sys1_def demo_sys_def demo_v1_def demo_v_def avail_put_def format_req_def)
  also have "demo_sys1\<lparr>todo := todo demo_sys1 @ [unat (avail_ring (vd demo_sys1) (unat (dnext demo_sys1) mod NUM))],
      dnext := dnext demo_sys1 + 1\<rparr> = demo_sys2"
    by (simp add: demo_sys2_def demo_sys1_def demo_sys_def demo_v1_def demo_v_def avail_put_def format_req_def)
  finally show ?thesis using 1 vreach.vstep by blast
qed

theorem virtio_refines_disk_rw_witness:
  "device_ok demo_dev \<and> vreach demo_dev demo_sys2 \<and> snd (demo_dev 0 (demo_v1, demo_bio)) = disk_rw 5 False demo_bio"
proof -
  from virtio_refines_disk_rw [OF demo_dev_ok demo_reach]
  have "\<forall>h \<in> {0}. \<exists>b is w. waits demo_sys2 b = Some (h # is, w) \<and>
      snd (demo_dev h (vd demo_sys2, ks demo_sys2)) = disk_rw b w (ks demo_sys2)"
    by (auto simp: demo_sys2_def)
  then show ?thesis using demo_dev_ok demo_reach
    by (auto simp: demo_sys2_def demo_sys1_def demo_sys_def split: if_splits)
qed

text \<open>
  C30. The driver is robust in every reachable state: submitting a request never panics (it gets its descriptors or
  has to wait for some), the interrupt handler never meets a bad status or an entry without a buffer and afterwards
  every served request is marked done, giving back the descriptors of a finished request never
  panics, and descriptors are conserved: three per request in flight, so at most two requests are in flight.
\<close>

theorem virtio_never_panics:
  assumes "device_ok dev" and "vreach dev x"
  shows "(\<exists>r. rw_submit b w (vd x, ks x) = Inr r) \<and>
    (\<exists>v s. virtio_disk_intr (vd x, ks x) = Inr (v, s) \<and> (\<forall>c \<in> served x. waits x c \<noteq> None \<longrightarrow> \<not> bdisk v c)) \<and>
    (\<forall>c is u. waits x c = Some (is, u) \<longrightarrow> (\<exists>r. rw_finish (hd is) (vd x, ks x) = Inr r)) \<and>
    3 * card (dom (waits x)) + card {i. i < NUM \<and> vfree (vd x) i} = NUM"
proof (intro conjI allI impI)
  have inv: "vinv x" using vinv_reach assms by blast
  show "\<exists>r. rw_submit b w (vd x, ks x) = Inr r"
    by (cases rule: alloc3_cases [of "vd x" "ks x"]) (auto simp: rw_submit_def Let_def)
  show "\<exists>v s. virtio_disk_intr (vd x, ks x) = Inr (v, s) \<and> (\<forall>c \<in> served x. waits x c \<noteq> None \<longrightarrow> \<not> bdisk v c)"
    by (rule intr_clears [OF inv]) blast
  show "\<exists>r. rw_finish (hd is) (vd x, ks x) = Inr r" if "waits x c = Some (is, u)" for c "is" u
    by (rule finish_ok [OF inv that]) blast
  show "3 * card (dom (waits x)) + card {i. i < NUM \<and> vfree (vd x) i} = NUM" by (rule descriptors_conserved [OF inv])
qed

theorem virtio_never_panics_witness:
  "(\<exists>v s. virtio_disk_intr (demo_v1, demo_bio) = Inr (v, s)) \<and> (\<exists>r. rw_finish 0 (demo_v1, demo_bio) = Inr r) \<and>
   card {i. i < NUM \<and> vfree demo_v1 i} = 5"
proof -
  have d: "vd demo_sys2 = demo_v1" "ks demo_sys2 = demo_bio" "waits demo_sys2 = (\<lambda>_. None)(5 := Some ([0, 1, 2], False))"
    by (simp_all add: demo_sys2_def demo_sys1_def demo_sys_def)
  note p = virtio_never_panics [OF demo_dev_ok demo_reach, of 0 False, unfolded d]
  have "card {i. i < NUM \<and> vfree demo_v1 i} = 5"
    using p [THEN conjunct2, THEN conjunct2, THEN conjunct2] by simp
  moreover have "\<exists>r. rw_finish 0 (demo_v1, demo_bio) = Inr r"
    using p [THEN conjunct2, THEN conjunct2, THEN conjunct1, rule_format, of 5 "[0, 1, 2]" False] by simp
  ultimately show ?thesis using p [THEN conjunct2, THEN conjunct1] by blast
qed

end
