(* ===== verification/Eafitos.thy ===== *)
theory Eafitos
  imports Ulib "HOL-Library.Signed_Division"
begin

text \<open>
  \<^verbatim>\<open>user/eafitos.c\<close>: the EAFITos command shell. The static variables are the record \<open>eaf\<close>, with the
  arrays as lists of their declared length; local arrays start as zeros, and no code path reads one before it
  is set. Pointer arguments are strings; no caller passes a null pointer, so the tests for null are left out. A
  command gets its argument strings, whose number is \<open>argc\<close>, and returns whether the shell should exit.
  \<open>int\<close> values are 32-bit words, read as signed where they are divided or printed.
\<close>

section \<open>Constants and state\<close>

definition DEFAULT_PROMPT :: "byte list" where "DEFAULT_PROMPT = (str ''EAFITos'')"
definition MAXPROMPT :: nat where "MAXPROMPT = 64"
definition MAXLINE :: nat where "MAXLINE = 256"
definition MAXARGS :: nat where "MAXARGS = 32"
definition HIST_SIZE :: nat where "HIST_SIZE = 10"
abbreviation TICKS_PER_SEC_APPROX :: int where "TICKS_PER_SEC_APPROX \<equiv> 10"

record eaf =
  prompt_text :: "byte list"
  prompt_color :: "byte list"
  hist :: "byte list list"
  hist_count :: nat
  hist_next :: nat

definition cyan :: "byte list" where "cyan = ([27] @ str ''[1;36m'')"
definition color_reset :: "byte list" where "color_reset = ([27] @ str ''[0m'')"
definition color_error :: "byte list" where "color_error = ([27] @ str ''[1;31m'')"
definition color_info :: "byte list" where "color_info = ([27] @ str ''[1;34m'')"

text \<open>A string initialiser fills the rest of the array with zeros, and so does static storage.\<close>

definition array_of :: "nat \<Rightarrow> byte list \<Rightarrow> byte list" where
  "array_of n bs = bs @ replicate (n - length bs) 0"

definition eaf_init :: eaf where
  "eaf_init = \<lparr>prompt_text = array_of MAXPROMPT DEFAULT_PROMPT, prompt_color = array_of 16 cyan,
     hist = replicate HIST_SIZE (replicate MAXLINE 0), hist_count = 0, hist_next = 0\<rparr>"

section \<open>Strings\<close>

definition streq :: "byte list \<Rightarrow> byte list \<Rightarrow> bool" where
  "streq a b \<longleftrightarrow> strcmp a b = 0"

primrec rstrip_loop :: "nat \<Rightarrow> byte list \<Rightarrow> byte list" where
  "rstrip_loop 0 s = s"
| "rstrip_loop (Suc n) s = (if s ! n = 10 \<or> s ! n = 13 then rstrip_loop n (s[n := 0]) else s)"

definition rstrip_newlines :: "byte list \<Rightarrow> byte list" where
  "rstrip_newlines s = rstrip_loop (ustrlen s) s"

fun is_blank :: "byte list \<Rightarrow> bool" where
  "is_blank [] = True"
| "is_blank (c # s) = (if c = 0 then True else if c \<noteq> 32 \<and> c \<noteq> 9 \<and> c \<noteq> 10 \<and> c \<noteq> 13 then False else is_blank s)"

text \<open>\<open>memmove\<close> into an array at an offset.\<close>

definition blit :: "byte list \<Rightarrow> nat \<Rightarrow> byte list \<Rightarrow> byte list" where
  "blit dst off bs = take off dst @ bs @ drop (off + length bs) dst"

definition safe_copy :: "byte list \<Rightarrow> nat \<Rightarrow> byte list \<Rightarrow> bool \<times> byte list" where
  "safe_copy dst dsz src =
     (if dsz = 0 then (False, dst)
      else let n = ustrlen src in
        if n \<ge> dsz then (False, dst)
        else (True, (blit dst 0 (take n src))[n := 0]))"

definition safe_cat :: "byte list \<Rightarrow> nat \<Rightarrow> byte list \<Rightarrow> bool \<times> byte list" where
  "safe_cat dst dsz src =
     (if dsz = 0 then (False, dst)
      else let a = ustrlen dst; b = ustrlen src in
        if a + b \<ge> dsz then (False, dst)
        else (True, (blit dst a (take b src))[a + b := 0]))"

section \<open>The prompt\<close>

definition print_prompt :: "'w os \<Rightarrow> eaf \<Rightarrow> ('w, unit) um" where
  "print_prompt os s = uprintf os (str ''%s%s>%s '')
     [PStr (Some (cstring (prompt_color s))), PStr (Some (cstring (prompt_text s))), PStr (Some color_reset)]"

definition print_error :: "'w os \<Rightarrow> byte list \<Rightarrow> ('w, unit) um" where
  "print_error os msg = uprintf os (str ''%s%s%s'' @ [10]) [PStr (Some color_error), PStr (Some msg), PStr (Some color_reset)]"

definition print_info :: "'w os \<Rightarrow> byte list \<Rightarrow> ('w, unit) um" where
  "print_info os msg = uprintf os (str ''%s%s%s'' @ [10]) [PStr (Some color_info), PStr (Some msg), PStr (Some color_reset)]"

definition reset_ui :: "eaf \<Rightarrow> eaf" where
  "reset_ui s =
     (let s1 = s\<lparr>prompt_text := snd (safe_copy (prompt_text s) MAXPROMPT DEFAULT_PROMPT)\<rparr> in
      s1\<lparr>prompt_color := snd (safe_copy (prompt_color s1) 16 cyan)\<rparr>)"

definition set_color :: "byte list \<Rightarrow> eaf \<Rightarrow> bool \<times> eaf" where
  "set_color c s = (case safe_copy (prompt_color s) 16 c of (ok, b) \<Rightarrow> (ok, s\<lparr>prompt_color := b\<rparr>))"

definition set_theme_color :: "byte list \<Rightarrow> eaf \<Rightarrow> bool \<times> eaf" where
  "set_theme_color name s =
     (if streq name (str ''default'') \<or> streq name (str ''cyan'') then set_color ([27] @ str ''[1;36m'') s
      else if streq name (str ''verde'') then set_color ([27] @ str ''[1;32m'') s
      else if streq name (str ''azul'') then set_color ([27] @ str ''[1;34m'') s
      else if streq name (str ''rojo'') then set_color ([27] @ str ''[1;31m'') s
      else if streq name (str ''amarillo'') then set_color ([27] @ str ''[1;33m'') s
      else if streq name (str ''magenta'') then set_color ([27] @ str ''[1;35m'') s
      else if streq name (str ''blanco'') then set_color ([27] @ str ''[1;37m'') s
      else (False, s))"

section \<open>The line parser\<close>

definition is_sep :: "byte \<Rightarrow> bool" where "is_sep c \<longleftrightarrow> c = 32 \<or> c = 9"

function skip_sep :: "byte list \<Rightarrow> nat \<Rightarrow> nat" where
  "skip_sep b p = (if is_sep (char_at b p) then skip_sep b (Suc p) else p)"
  by pat_completeness auto
termination by (relation "measure (\<lambda>(b, p). length b - p)") (auto simp: char_at_def is_sep_def split: if_splits)

function skip_word :: "byte list \<Rightarrow> nat \<Rightarrow> nat" where
  "skip_word b p = (if char_at b p \<noteq> 0 \<and> \<not> is_sep (char_at b p) then skip_word b (Suc p) else p)"
  by pat_completeness auto
termination by (relation "measure (\<lambda>(b, p). length b - p)") (auto simp: char_at_def split: if_splits)

declare skip_sep.simps [simp del] skip_word.simps [simp del]

text \<open>The arguments are positions in the line; the NULs are written into it.\<close>

function parse_loop :: "byte list \<Rightarrow> nat \<Rightarrow> nat list \<Rightarrow> nat \<Rightarrow> byte list \<times> nat list" where
  "parse_loop line p argv max_args =
     (if char_at line p \<noteq> 0 \<and> length argv < max_args - 1 then
        let p1 = skip_sep line p in
        if char_at line p1 = 0 then (line, argv)
        else let p2 = skip_word line p1 in
          if char_at line p2 = 0 then (line, argv @ [p1])
          else parse_loop (line[p2 := 0]) (Suc p2) (argv @ [p1]) max_args
      else (line, argv))"
  by pat_completeness auto
termination by (relation "measure (\<lambda>(_, _, argv, max_args). max_args - length argv)") auto

declare parse_loop.simps [simp del]

definition parse_line :: "byte list \<Rightarrow> nat \<Rightarrow> byte list \<times> nat list" where
  "parse_line line max_args = parse_loop line 0 [] max_args"

definition arg_strings :: "byte list \<Rightarrow> nat list \<Rightarrow> byte list list" where
  "arg_strings line argv = map (\<lambda>p. cstring (drop p line)) argv"

section \<open>History\<close>

definition history_add :: "byte list \<Rightarrow> eaf \<Rightarrow> eaf" where
  "history_add line s =
     (if char_at line 0 = 0 then s
      else
        let n = ustrlen line; n1 = (if n \<ge> MAXLINE then MAXLINE - 1 else n);
            row = (blit (hist s ! hist_next s) 0 (take n1 line))[n1 := 0];
            s1 = s\<lparr>hist := (hist s)[hist_next s := row], hist_next := (hist_next s + 1) mod HIST_SIZE\<rparr> in
        if hist_count s1 < HIST_SIZE then s1\<lparr>hist_count := hist_count s1 + 1\<rparr> else s1)"

definition hist_start :: "eaf \<Rightarrow> int" where
  "hist_start s = (int (hist_next s) - int (hist_count s) + int HIST_SIZE) smod int HIST_SIZE"

function history_loop :: "'w os \<Rightarrow> eaf \<Rightarrow> int \<Rightarrow> nat \<Rightarrow> ('w, unit) um" where
  "history_loop os s strt i =
     (if i < hist_count s then
        let idx = (strt + int i) smod int HIST_SIZE in
        ubind (uprintf os (str ''%d  %s'' @ [10]) [PInt (word_of_nat i + 1), PStr (Some (cstring (hist s ! nat idx)))]) (\<lambda>_.
          history_loop os s strt (Suc i))
      else ureturn ())"
  by pat_completeness auto
termination by (relation "measure (\<lambda>(_, s, _, i). hist_count s - i)") auto

declare history_loop.simps [simp del]

definition history_print :: "'w os \<Rightarrow> eaf \<Rightarrow> ('w, unit) um" where
  "history_print os s = history_loop os s (hist_start s) 0"

section \<open>The current directory\<close>

text \<open>A name of a directory entry as a string array: 14 bytes and a NUL.\<close>

definition entry_name :: "byte list \<Rightarrow> byte list" where
  "entry_name de = de_name de @ [0]"

definition special_name :: "byte list \<Rightarrow> bool" where
  "special_name name \<longleftrightarrow> streq name (str ''.'') \<or> streq name (str ''..'')"

partial_function (option) find_entry ::
  "'w os \<Rightarrow> int \<Rightarrow> u32 \<Rightarrow> byte list \<Rightarrow> 'w \<Rightarrow> ((uend + byte list) \<times> 'w) option" where
  "find_entry os fd ino found w =
     ubind (ucall (o_read os fd 16)) (\<lambda>(r, de) w1.
       if r \<noteq> 16 then Some (Inr found, w1)
       else if de_inum de = 0 then find_entry os fd ino found w1
       else if special_name (entry_name de) then find_entry os fd ino found w1
       else if ucast (de_inum de) = ino then Some (Inr (snd (safe_copy found 15 (entry_name de))), w1)
       else find_entry os fd ino found w1) w"

definition parent_path :: "byte list \<Rightarrow> bool \<times> byte list" where
  "parent_path anc =
     (if streq anc (str ''.'') then safe_copy (replicate 128 0) 128 (str ''..'')
      else case safe_copy (replicate 128 0) 128 anc of
        (False, b) \<Rightarrow> (False, b)
      | (True, b) \<Rightarrow> safe_cat b 128 (str ''/..''))"

function cwd_loop :: "'w os \<Rightarrow> byte list \<Rightarrow> byte list list \<Rightarrow> ('w, byte list list) um" where
  "cwd_loop os anc comps =
     ubind (ucall (o_open os (cstring anc) O_RDONLY)) (\<lambda>fd_cur.
     if fd_cur < 0 then ureturn comps
     else ubind (ucall (o_fstat os fd_cur)) (\<lambda>(r, st_cur).
     ubind (ucall (o_close os fd_cur)) (\<lambda>_.
     if r < 0 then ureturn comps
     else if \<not> fst (parent_path anc) then ureturn comps
     else let parent = snd (parent_path anc) in
     ubind (ucall (o_open os (cstring parent) O_RDONLY)) (\<lambda>fd_par.
     if fd_par < 0 then ureturn comps
     else ubind (ucall (o_fstat os fd_par)) (\<lambda>(r, st_par).
     if r < 0 then ubind (ucall (o_close os fd_par)) (\<lambda>_. ureturn comps)
     else if st_ino st_cur = st_ino st_par \<and> st_dev st_cur = st_dev st_par then
       ubind (ucall (o_close os fd_par)) (\<lambda>_. ureturn comps)
     else ubind (find_entry os fd_par (st_ino st_cur) (replicate 15 0)) (\<lambda>found.
     ubind (ucall (o_close os fd_par)) (\<lambda>_.
     if char_at found 0 = 0 then ureturn comps
     else if length comps \<ge> 32 then ureturn comps
     else
       let comps1 = comps @ [snd (safe_copy (replicate 15 0) 15 found)] in
       if fst (safe_copy anc 128 parent) then cwd_loop os (snd (safe_copy anc 128 parent)) comps1
       else ureturn comps1)))))))"
  by pat_completeness auto
termination by (relation "measure (\<lambda>(_, _, comps). 33 - length comps)") auto

declare cwd_loop.simps [simp del]

primrec cat_comps :: "byte list \<Rightarrow> nat \<Rightarrow> byte list list \<Rightarrow> bool \<times> byte list" where
  "cat_comps out outsz [] = (True, out)"
| "cat_comps out outsz (c # cs) =
     (case (if streq out (str ''/'') then (True, out) else safe_cat out outsz (str ''/'')) of
        (False, out1) \<Rightarrow> (False, out1)
      | (True, out1) \<Rightarrow> (case safe_cat out1 outsz c of
          (False, out2) \<Rightarrow> (False, out2)
        | (True, out2) \<Rightarrow> cat_comps out2 outsz cs))"

definition getcwd_xv6 :: "'w os \<Rightarrow> byte list \<Rightarrow> nat \<Rightarrow> ('w, bool \<times> byte list) um" where
  "getcwd_xv6 os out outsz =
     (if outsz = 0 then ureturn (False, out)
      else ubind (cwd_loop os (snd (safe_copy (replicate 128 0) 128 (str ''.''))) []) (\<lambda>comps.
        ureturn (cat_comps (snd (safe_copy out outsz (str ''/''))) outsz (rev comps))))"

section \<open>Commands\<close>

definition run_program :: "'w os \<Rightarrow> byte list \<Rightarrow> byte list list \<Rightarrow> ('w, int) um" where
  "run_program os prog argv =
     ubind (ucall (o_fork os)) (\<lambda>pid.
     if pid < 0 then ubind (uprintf os (str ''No se pudo crear el proceso para %s'' @ [10]) [PStr (Some prog)]) (\<lambda>_. ureturn 0)
     else if pid = 0 then
       ubind (uexec os prog argv) (\<lambda>_.
       ubind (uprintf os (str ''No se pudo ejecutar %s'' @ [10]) [PStr (Some prog)]) (\<lambda>_. uexit 1))
     else ubind (ucall (o_wait os)) (\<lambda>_. ureturn 0))"

definition help_text :: "byte list \<Rightarrow> byte list list" where
  "help_text cmd =
     (if streq cmd (str ''listar'') then
        [(str ''Uso: listar'' @ [10] @ str ''  Lista el contenido del directorio actual.'' @ [10])]
      else if streq cmd (str ''leer'') then
        [(str ''Uso: leer <archivo>'' @ [10] @ str ''  Muestra el contenido de un archivo.'' @ [10])]
      else if streq cmd (str ''tiempo'') then
        [(str ''Uso: tiempo'' @ [10] @ str ''  Muestra uptime (ticks) y hh:mm:ss aprox.'' @ [10])]
      else if streq cmd (str ''calc'') then
        [(str ''Uso: calc <num1> <op> <num2>'' @ [10] @ str ''  Operadores: +  -  *  /  %%'' @ [10]),
         (str ''  Nota: en xv6 esta versi'' @ [195, 179] @ str ''n usa solo enteros.'' @ [10])]
      else if streq cmd (str ''ayuda'') then
        [(str ''Uso: ayuda [comando]'' @ [10] @ str ''  Lista comandos o muestra ayuda espec'' @ [195, 173] @ str ''fica.'' @ [10])]
      else if streq cmd (str ''salir'') then
        [(str ''Uso: salir'' @ [10] @ str ''  Termina la shell.'' @ [10])]
      else if streq cmd (str ''historial'') then
        [(str ''Uso: historial'' @ [10] @ str ''  Muestra los '' @ [195, 186] @ str ''ltimos 10 comandos.'' @ [10])]
      else if streq cmd (str ''limpiar'') then
        [(str ''Uso: limpiar'' @ [10] @ str ''  Limpia la pantalla (ANSI / fallback).'' @ [10])]
      else if streq cmd (str ''usuario'') then
        [(str ''Uso: usuario'' @ [10] @ str ''  Muestra info del proceso (PID + heap end).'' @ [10])]
      else if streq cmd (str ''directorio'') then
        [(str ''Uso: directorio'' @ [10] @ str ''  Muestra el directorio actual (reconstruido desde . y ..).'' @ [10])]
      else if streq cmd (str ''pf'') then
        [(str ''Uso: pf <readlow|writelow|readhigh|writehigh>'' @ [10]),
         (str ''  Ejecuta tpf para observar page faults.'' @ [10])]
      else if streq cmd (str ''sbrkpf'') then
        [(str ''Uso: sbrkpf'' @ [10]),
         (str ''  Ejecuta tsbrkpf para mostrar el fallo tras sbrk lazy inicial.'' @ [10])]
      else if streq cmd (str ''sbrklazy'') then
        [(str ''Uso: sbrklazy'' @ [10]),
         (str ''  Ejecuta tsbrklazy para mostrar lazy allocation real.'' @ [10])]
      else if streq cmd (str ''lazy'') then
        [(str ''Uso: lazy'' @ [10]),
         (str ''  Ejecuta tlazy para comparar faults secuenciales y dispersos.'' @ [10])]
      else if streq cmd (str ''mmapsim'') then
        [(str ''Uso: mmapsim'' @ [10]),
         (str ''  Ejecuta tmmap_sim para simular mmap bajo demanda.'' @ [10])]
      else if streq cmd (str ''prompt'') then
        [(str ''Uso: prompt <texto>'' @ [10] @ str ''  Cambia el texto del prompt.'' @ [10])]
      else if streq cmd (str ''tema'') then
        [(str ''Uso: tema <default|verde|azul|rojo|amarillo|magenta|cyan|blanco>'' @ [10]),
         (str ''  Cambia el color del prompt.'' @ [10])]
      else if streq cmd (str ''resetui'') then
        [(str ''Uso: resetui'' @ [10] @ str ''  Restaura prompt y color por defecto.'' @ [10])]
      else [(str ''Comando desconocido. Usa: ayuda'' @ [10])])"

text \<open>Several \<open>printf\<close> calls without arguments, in order.\<close>

primrec print_all :: "'w os \<Rightarrow> byte list list \<Rightarrow> ('w, unit) um" where
  "print_all os [] = ureturn ()"
| "print_all os (l # ls) = ubind (uprintf os l []) (\<lambda>_. print_all os ls)"

definition help_usage :: "'w os \<Rightarrow> byte list \<Rightarrow> ('w, unit) um" where
  "help_usage os cmd = print_all os (help_text cmd)"

text \<open>The end of a command that keeps the shell running.\<close>

definition ok :: "('w, unit) um \<Rightarrow> eaf \<Rightarrow> ('w, int \<times> eaf) um" where
  "ok m s = ubind m (\<lambda>_. ureturn (0, s))"

partial_function (option) listar_loop :: "'w os \<Rightarrow> int \<Rightarrow> 'w \<Rightarrow> ((uend + unit) \<times> 'w) option" where
  "listar_loop os fd w =
     ubind (ucall (o_read os fd 16)) (\<lambda>(r, de) w1.
       if r \<noteq> 16 then Some (Inr (), w1)
       else if de_inum de = 0 then listar_loop os fd w1
       else if special_name (entry_name de) then listar_loop os fd w1
       else ubind (uprintf os (str ''%s'' @ [10]) [PStr (Some (cstring (entry_name de)))]) (\<lambda>_. \<lambda>w2. listar_loop os fd w2) w1) w"

definition cmd_listar :: "'w os \<Rightarrow> byte list list \<Rightarrow> eaf \<Rightarrow> ('w, int \<times> eaf) um" where
  "cmd_listar os argv s =
     ubind (ucall (o_open os (str ''.'') O_RDONLY)) (\<lambda>fd.
     if fd < 0 then ok (uprintf os (str ''listar: no se pudo abrir '' @ [39] @ str ''.'' @ [39, 10]) []) s
     else ubind (listar_loop os fd) (\<lambda>_. ubind (ucall (o_close os fd)) (\<lambda>_. ureturn (0, s))))"

partial_function (option) leer_loop :: "'w os \<Rightarrow> int \<Rightarrow> 'w \<Rightarrow> ((uend + unit) \<times> 'w) option" where
  "leer_loop os fd w =
     ubind (ucall (o_read os fd 512)) (\<lambda>(n, buf) w1.
       if n > 0 then ubind (ucall (o_write os 1 (take (nat n) buf))) (\<lambda>_. \<lambda>w2. leer_loop os fd w2) w1
       else Some (Inr (), w1)) w"

definition cmd_leer :: "'w os \<Rightarrow> byte list list \<Rightarrow> eaf \<Rightarrow> ('w, int \<times> eaf) um" where
  "cmd_leer os argv s =
     (if length argv \<noteq> 2 then ok (help_usage os (str ''leer'')) s
      else ubind (ucall (o_open os (argv ! 1) O_RDONLY)) (\<lambda>fd.
        if fd < 0 then ok (uprintf os (str ''leer: no se pudo abrir '' @ [39] @ str ''%s'' @ [39, 10]) [PStr (Some (argv ! 1))]) s
        else ubind (leer_loop os fd) (\<lambda>_. ubind (ucall (o_close os fd)) (\<lambda>_. ureturn (0, s)))))"

definition pint :: "int \<Rightarrow> parg" where "pint x = PInt (word_of_int x)"

definition cmd_tiempo :: "'w os \<Rightarrow> byte list list \<Rightarrow> eaf \<Rightarrow> ('w, int \<times> eaf) um" where
  "cmd_tiempo os argv s =
     ubind (ucall (o_uptime os)) (\<lambda>up.
       let t = sint up; sec = t sdiv TICKS_PER_SEC_APPROX; h = sec sdiv 3600; m = (sec smod 3600) sdiv 60;
           sc = sec smod 60
       in ok (uprintf os (str ''uptime: %d ticks (~%d s) %d:%d:%d (aprox)'' @ [10]) [pint t, pint sec, pint h, pint m, pint sc]) s)"

primrec parse_digits :: "byte list \<Rightarrow> u32 \<Rightarrow> u32 option" where
  "parse_digits [] v = Some v"
| "parse_digits (c # s) v =
     (if c < chr CHR ''0'' \<or> c > chr CHR ''9'' then None
      else parse_digits s (v * 10 + (ucast c - ucast (chr CHR ''0''))))"

definition parse_int :: "byte list \<Rightarrow> u32 option" where
  "parse_int s =
     (let neg = (char_at s 0 = chr CHR ''-''); s1 = (if neg then tl s else s); sign = (if neg then -1 else 1) in
      if char_at s1 0 = 0 then None
      else map_option (\<lambda>v. sign * v) (parse_digits s1 0))"

definition calc_op :: "byte \<Rightarrow> u32 \<Rightarrow> u32 \<Rightarrow> u32" where
  "calc_op op a b =
     (if op = chr CHR ''+'' then a + b
      else if op = chr CHR ''-'' then a - b
      else if op = chr CHR ''*'' then a * b
      else if op = chr CHR ''/'' then word_of_int (sint a sdiv sint b)
      else word_of_int (sint a smod sint b))"

definition cmd_calc :: "'w os \<Rightarrow> byte list list \<Rightarrow> eaf \<Rightarrow> ('w, int \<times> eaf) um" where
  "cmd_calc os argv s =
     (if length argv \<noteq> 4 then ok (help_usage os (str ''calc'')) s
      else case (parse_int (argv ! 1), parse_int (argv ! 3)) of
        (Some a, Some b) \<Rightarrow>
          if ustrlen (argv ! 2) \<noteq> 1 then
            ok (ubind (uprintf os (str ''calc: operador inv'' @ [195, 161] @ str ''lido'' @ [10]) []) (\<lambda>_. help_usage os (str ''calc''))) s
          else let op = char_at (argv ! 2) 0 in
            if op \<in> set (str ''/%'') \<and> b = 0 then ok (uprintf os (str ''calc: divisi'' @ [195, 179] @ str ''n por cero.'' @ [10]) []) s
            else if op \<in> set (str ''+-*/%'') then ok (uprintf os (str ''%d'' @ [10]) [PInt (scast (calc_op op a b))]) s
            else ok (ubind (uprintf os (str ''calc: operador no soportado: '' @ [39] @ str ''%c'' @ [39, 10]) [PInt (ucast op)])
                   (\<lambda>_. help_usage os (str ''calc''))) s
      | _ \<Rightarrow> ok (ubind (uprintf os (str ''calc: operandos inv'' @ [195, 161] @ str ''lidos (xv6: solo enteros)'' @ [10]) [])
              (\<lambda>_. help_usage os (str ''calc''))) s)"

definition cmd_historial :: "'w os \<Rightarrow> byte list list \<Rightarrow> eaf \<Rightarrow> ('w, int \<times> eaf) um" where
  "cmd_historial os argv s = ok (history_print os s) s"

definition cmd_limpiar :: "'w os \<Rightarrow> byte list list \<Rightarrow> eaf \<Rightarrow> ('w, int \<times> eaf) um" where
  "cmd_limpiar os argv s = ok (print_all os (([27] @ str ''[2J'' @ [27] @ str ''[H'') # replicate 30 [10])) s"

definition cmd_usuario :: "'w os \<Rightarrow> byte list list \<Rightarrow> eaf \<Rightarrow> ('w, int \<times> eaf) um" where
  "cmd_usuario os argv s =
     ubind (ucall (o_getpid os)) (\<lambda>pid. ubind (sbrk os 0) (\<lambda>brk.
     ubind (uprintf os (str ''Proceso (xv6)'' @ [10]) []) (\<lambda>_.
     ubind (uprintf os (str ''PID: %d'' @ [10]) [PInt (scast pid)]) (\<lambda>_.
     ok (uprintf os (str ''Heap end: %p'' @ [10]) [PInt brk]) s))))"

definition cmd_directorio :: "'w os \<Rightarrow> byte list list \<Rightarrow> eaf \<Rightarrow> ('w, int \<times> eaf) um" where
  "cmd_directorio os argv s =
     ubind (getcwd_xv6 os (replicate 128 0) 128) (\<lambda>(r, path).
       if r then ok (uprintf os (str ''%s'' @ [10]) [PStr (Some (cstring path))]) s
       else ok (uprintf os (str ''/?'' @ [10]) []) s)"

text \<open>A command that runs another program.\<close>

definition ret_run :: "('w, int) um \<Rightarrow> eaf \<Rightarrow> ('w, int \<times> eaf) um" where
  "ret_run m s = ubind m (\<lambda>r. ureturn (r, s))"

definition cmd_pf :: "'w os \<Rightarrow> byte list list \<Rightarrow> eaf \<Rightarrow> ('w, int \<times> eaf) um" where
  "cmd_pf os argv s =
     (if length argv \<noteq> 2 then ok (help_usage os (str ''pf'')) s
      else ret_run (run_program os (str ''tpf'') [(str ''tpf''), argv ! 1]) s)"

definition cmd_sbrkpf :: "'w os \<Rightarrow> byte list list \<Rightarrow> eaf \<Rightarrow> ('w, int \<times> eaf) um" where
  "cmd_sbrkpf os argv s = ret_run (run_program os (str ''tsbrkpf'') [(str ''tsbrkpf'')]) s"

definition cmd_sbrklazy :: "'w os \<Rightarrow> byte list list \<Rightarrow> eaf \<Rightarrow> ('w, int \<times> eaf) um" where
  "cmd_sbrklazy os argv s = ret_run (run_program os (str ''tsbrklazy'') [(str ''tsbrklazy'')]) s"

definition cmd_lazy :: "'w os \<Rightarrow> byte list list \<Rightarrow> eaf \<Rightarrow> ('w, int \<times> eaf) um" where
  "cmd_lazy os argv s = ret_run (run_program os (str ''tlazy'') [(str ''tlazy'')]) s"

definition cmd_mmapsim :: "'w os \<Rightarrow> byte list list \<Rightarrow> eaf \<Rightarrow> ('w, int \<times> eaf) um" where
  "cmd_mmapsim os argv s = ret_run (run_program os (str ''tmmap_sim'') [(str ''tmmap_sim'')]) s"

definition ayuda_text :: "byte list list" where
  "ayuda_text =
     [(str ''Comandos disponibles:'' @ [10]),
      (str ''  listar                 - Lista el directorio actual'' @ [10]),
      (str ''  leer <archivo>         - Muestra contenido de un archivo'' @ [10]),
      (str ''  tiempo                 - Uptime (ticks) + hh:mm:ss aprox'' @ [10]),
      (str ''  calc <n1> <op> <n2>    - Calculadora (enteros)'' @ [10]),
      (str ''  ayuda [comando]        - Ayuda general o por comando'' @ [10]),
      (str ''  historial              - '' @ [195, 154] @ str ''ltimos 10 comandos'' @ [10]),
      (str ''  limpiar                - Limpia la pantalla'' @ [10]),
      (str ''  usuario                - Info del proceso (PID + heap)'' @ [10]),
      (str ''  directorio             - Directorio actual (reconstruido)'' @ [10]),
      (str ''  pf <modo>              - Ejecuta tpf para observar page faults'' @ [10]),
      (str ''  sbrkpf                 - Demuestra acceso a memoria reservada con sbrk bajo lazy allocation'' @ [10]),
      (str ''  sbrklazy               - Prueba lazy allocation real con sbrk'' @ [10]),
      (str ''  lazy                   - Compara faults secuencial vs disperso'' @ [10]),
      (str ''  mmapsim                - Simula mmap bajo demanda con mapzero'' @ [10]),
      (str ''  prompt <texto>         - Cambia el texto del prompt'' @ [10]),
      (str ''  tema <color>           - Cambia el color del prompt'' @ [10]),
      (str ''  resetui                - Restaura interfaz por defecto'' @ [10]),
      (str ''  salir                  - Termina la shell'' @ [10])]"

definition cmd_ayuda :: "'w os \<Rightarrow> byte list list \<Rightarrow> eaf \<Rightarrow> ('w, int \<times> eaf) um" where
  "cmd_ayuda os argv s =
     (if length argv = 1 then ok (print_all os ayuda_text) s
      else if length argv = 2 then ok (help_usage os (argv ! 1)) s
      else ok (help_usage os (str ''ayuda'')) s)"

definition cmd_salir :: "'w os \<Rightarrow> byte list list \<Rightarrow> eaf \<Rightarrow> ('w, int \<times> eaf) um" where
  "cmd_salir os argv s = ureturn (1, s)"

text \<open>The loop of \<open>cmd_prompt\<close> over the arguments from index \<^verbatim>\<open>i\<close>; the text it gathers, or that it is too long.\<close>

primrec prompt_loop :: "byte list \<Rightarrow> nat \<Rightarrow> byte list list \<Rightarrow> byte list option" where
  "prompt_loop buf i [] = Some buf"
| "prompt_loop buf i (a # as) =
     (case (if i > 1 then safe_cat buf MAXPROMPT (str '' '') else (True, buf)) of
        (False, b) \<Rightarrow> None
      | (True, b) \<Rightarrow> (case safe_cat b MAXPROMPT a of
          (False, _) \<Rightarrow> None
        | (True, b2) \<Rightarrow> prompt_loop b2 (Suc i) as))"

definition cmd_prompt :: "'w os \<Rightarrow> byte list list \<Rightarrow> eaf \<Rightarrow> ('w, int \<times> eaf) um" where
  "cmd_prompt os argv s =
     (if length argv < 2 then ok (help_usage os (str ''prompt'')) s
      else case prompt_loop (replicate MAXPROMPT 0) 1 (tl argv) of
        None \<Rightarrow> ok (print_error os (str ''prompt: texto demasiado largo'')) s
      | Some buf \<Rightarrow> (case safe_copy (prompt_text s) MAXPROMPT buf of
          (False, _) \<Rightarrow> ok (print_error os (str ''prompt: no se pudo cambiar'')) s
        | (True, b) \<Rightarrow> ok (print_info os (str ''Prompt actualizado.'')) (s\<lparr>prompt_text := b\<rparr>)))"

definition cmd_tema :: "'w os \<Rightarrow> byte list list \<Rightarrow> eaf \<Rightarrow> ('w, int \<times> eaf) um" where
  "cmd_tema os argv s =
     (if length argv \<noteq> 2 then ok (help_usage os (str ''tema'')) s
      else case set_theme_color (argv ! 1) s of
        (False, s1) \<Rightarrow> ok (ubind (print_error os (str ''tema: opcion no valida'')) (\<lambda>_. help_usage os (str ''tema''))) s1
      | (True, s1) \<Rightarrow> ok (print_info os (str ''Tema actualizado.'')) s1)"

definition cmd_resetui :: "'w os \<Rightarrow> byte list list \<Rightarrow> eaf \<Rightarrow> ('w, int \<times> eaf) um" where
  "cmd_resetui os argv s = ok (print_info os (str ''Interfaz restaurada.'')) (reset_ui s)"

section \<open>Dispatch and main loop\<close>

definition COMMANDS :: "'w os \<Rightarrow> (byte list \<times> (byte list list \<Rightarrow> eaf \<Rightarrow> ('w, int \<times> eaf) um)) list" where
  "COMMANDS os =
     [((str ''listar''), cmd_listar os), ((str ''leer''), cmd_leer os), ((str ''tiempo''), cmd_tiempo os), ((str ''calc''), cmd_calc os),
      ((str ''ayuda''), cmd_ayuda os), ((str ''historial''), cmd_historial os), ((str ''limpiar''), cmd_limpiar os),
      ((str ''usuario''), cmd_usuario os), ((str ''directorio''), cmd_directorio os), ((str ''pf''), cmd_pf os),
      ((str ''sbrkpf''), cmd_sbrkpf os), ((str ''sbrklazy''), cmd_sbrklazy os), ((str ''lazy''), cmd_lazy os),
      ((str ''mmapsim''), cmd_mmapsim os), ((str ''prompt''), cmd_prompt os), ((str ''tema''), cmd_tema os),
      ((str ''resetui''), cmd_resetui os), ((str ''salir''), cmd_salir os)]"

primrec find_command ::
  "byte list \<Rightarrow> (byte list \<times> (byte list list \<Rightarrow> eaf \<Rightarrow> ('w, int \<times> eaf) um)) list \<Rightarrow>
   (byte list list \<Rightarrow> eaf \<Rightarrow> ('w, int \<times> eaf) um) option" where
  "find_command c [] = None"
| "find_command c (e # es) = (if streq c (fst e) then Some (snd e) else find_command c es)"

definition dispatch :: "'w os \<Rightarrow> byte list list \<Rightarrow> eaf \<Rightarrow> ('w, int \<times> eaf) um" where
  "dispatch os argv s =
     (if argv = [] then ureturn (0, s)
      else case find_command (hd argv) (COMMANDS os) of
        Some fn \<Rightarrow> fn argv s
      | None \<Rightarrow>
          ubind (uprintf os (str ''%sComando no reconocido:%s %s'' @ [10])
            [PStr (Some color_error), PStr (Some color_reset), PStr (Some (hd argv))]) (\<lambda>_.
          ok (uprintf os (str ''%sEscribe '' @ [39] @ str ''ayuda'' @ [39] @ str '' para ver comandos.%s'' @ [10])
            [PStr (Some color_info), PStr (Some color_reset)]) s))"

text \<open>The banner is drawn with the full block and box-drawing characters, three bytes each in UTF-8.\<close>

definition glyph :: "char \<Rightarrow> byte list" where
  "glyph c =
     (if c = CHR ''#'' then [226, 150, 136] else if c = CHR ''p'' then [226, 149, 151]
      else if c = CHR ''q'' then [226, 149, 148] else if c = CHR ''b'' then [226, 149, 154]
      else if c = CHR ''d'' then [226, 149, 157] else if c = CHR ''='' then [226, 149, 144]
      else if c = CHR ''H'' then [226, 149, 145] else [chr c])"

definition glyphs :: "string \<Rightarrow> byte list" where
  "glyphs s = concat (map glyph s)"

definition print_banner :: "'w os \<Rightarrow> eaf \<Rightarrow> ('w, unit) um" where
  "print_banner os s =
     ubind (print_all os [[10], [10]]) (\<lambda>_.
     ubind (uprintf os (str ''%s'') [PStr (Some (cstring (prompt_color s)))]) (\<lambda>_.
     ubind (print_all os
       [glyphs ''#######p #####p #######p##p########p ######p #######p'' @ [10],
        glyphs ''##q====d##q==##p##q====d##Hb==##q==d##q===##p##q====d'' @ [10],
        glyphs ''#####p  #######H#####p  ##H   ##H   ##H   ##H#######p'' @ [10],
        glyphs ''##q==d  ##q==##H##q==d  ##H   ##H   ##H   ##Hb====##H'' @ [10],
        glyphs ''#######p##H  ##H##H     ##H   ##H   b######qd#######H'' @ [10],
        glyphs ''b======db=d  b=db=d     b=d   b=d    b=====d b======d'' @ [10]]) (\<lambda>_.
     uprintf os (str ''%s'' @ [10]) [PStr (Some color_reset)])))"

text \<open>
  One command line: \<open>gets\<close> returns its argument, so the test for a null result never succeeds and the loop goes
  on, also at the end of the input.
\<close>

definition do_line :: "'w os \<Rightarrow> byte list \<Rightarrow> eaf \<Rightarrow> ('w, bool \<times> byte list \<times> eaf) um" where
  "do_line os line s =
     (let line1 = rstrip_newlines line in
      if is_blank line1 then ureturn (False, line1, s)
      else
        let s1 = history_add line1 s; (line2, argv) = parse_line line1 MAXARGS in
        ubind (dispatch os (arg_strings line2 argv) s1) (\<lambda>(r, s2). ureturn (r \<noteq> 0, line2, s2)))"

partial_function (option) main_loop :: "'w os \<Rightarrow> byte list \<Rightarrow> eaf \<Rightarrow> 'w \<Rightarrow> ((uend + eaf) \<times> 'w) option" where
  "main_loop os line s w =
     ubind (print_prompt os s) (\<lambda>_. ubind (gets os line MAXLINE) (\<lambda>line1.
     ubind (do_line os line1 s) (\<lambda>(should_exit, line2, s1) w1.
       if should_exit then Some (Inr s1, w1) else main_loop os line2 s1 w1))) w"

definition eafitos_main :: "'w os \<Rightarrow> ('w, unit) um" where
  "eafitos_main os =
     ubind (print_banner os eaf_init) (\<lambda>_.
     ubind (main_loop os (replicate MAXLINE 0) eaf_init) (\<lambda>_. uexit 0))"

end
