(* ===== verification/EafitosSpec.thy ===== *)
theory EafitosSpec
  imports Eafitos
begin

text \<open>
  What the EAFITos shell promises: its line parser finds the words of the line, the history holds the last ten lines,
  its arrays stay well formed whatever is typed, \<open>calc\<close> computes, \<open>directorio\<close> reconstructs the path, and the
  shell ends exactly on \<open>salir\<close>.
\<close>

section \<open>Words\<close>

fun sep_fields :: "byte list \<Rightarrow> byte list list" where
  "sep_fields [] = [[]]"
| "sep_fields (c # s) = (if is_sep c then [] # sep_fields s else (c # hd (sep_fields s)) # tl (sep_fields s))"

definition words :: "byte list \<Rightarrow> byte list list" where
  "words s = filter (\<lambda>w. w \<noteq> []) (sep_fields s)"

lemma sep_fields_ne [simp]: "sep_fields s \<noteq> []"
  by (cases s) auto

lemma sep_fields_append: "(\<And>c. c \<in> set w \<Longrightarrow> \<not> is_sep c) \<Longrightarrow> is_sep c \<Longrightarrow> sep_fields (w @ c # s) = w # sep_fields s"
  by (induction w) auto

lemma sep_fields_single: "(\<And>c. c \<in> set w \<Longrightarrow> \<not> is_sep c) \<Longrightarrow> sep_fields w = [w]"
  by (induction w) auto

lemma words_dropWhile: "words (dropWhile is_sep s) = words s"
  by (induction s) (auto simp: words_def)

lemma words_Nil [simp]: "words [] = []"
  by (simp add: words_def)

lemma words_word:
  assumes "s = w @ r" and "w \<noteq> []" and "\<And>c. c \<in> set w \<Longrightarrow> \<not> is_sep c" and "r = [] \<or> is_sep (hd r)"
  shows "words s = w # words (tl r)"
  using assms by (cases r) (auto simp: words_def sep_fields_append sep_fields_single)

section \<open>The parser\<close>

lemma char_at_suffix: "char_at b p = char_at (drop p b) 0"
  by (auto simp: char_at_def)

lemma skip_sep_eq: "skip_sep b p = p + length (takeWhile is_sep (drop p b))"
proof (induction b p rule: skip_sep.induct)
  case (1 b p)
  show ?case
  proof (cases "is_sep (char_at b p)")
    case True
    then have "drop p b = b ! p # drop (Suc p) b" "is_sep (b ! p)"
      by (auto simp: char_at_def is_sep_def Cons_nth_drop_Suc split: if_splits)
    with 1 True show ?thesis by (subst skip_sep.simps) simp
  next
    case False
    then have "takeWhile is_sep (drop p b) = []"
      by (cases "p < length b") (auto simp: char_at_def Cons_nth_drop_Suc [symmetric])
    with False show ?thesis by (subst skip_sep.simps) simp
  qed
qed

definition in_word :: "byte \<Rightarrow> bool" where "in_word c \<longleftrightarrow> c \<noteq> 0 \<and> \<not> is_sep c"

lemma skip_word_eq: "skip_word b p = p + length (takeWhile in_word (drop p b))"
proof (induction b p rule: skip_word.induct)
  case (1 b p)
  show ?case
  proof (cases "in_word (char_at b p)")
    case True
    then have "drop p b = b ! p # drop (Suc p) b" "in_word (b ! p)"
      by (auto simp: char_at_def in_word_def Cons_nth_drop_Suc split: if_splits)
    with 1 True show ?thesis by (subst skip_word.simps) (simp add: in_word_def [symmetric])
  next
    case False
    then have "takeWhile in_word (drop p b) = []"
      by (cases "p < length b") (auto simp: char_at_def Cons_nth_drop_Suc [symmetric])
    with False show ?thesis by (subst skip_word.simps) (simp add: in_word_def [symmetric])
  qed
qed

lemma cstring_dropWhile_sep: "cstring (dropWhile is_sep d) = dropWhile is_sep (cstring d)"
  by (induction d) (auto simp: is_sep_def)

lemma cstring_word_split:
  "cstring d = takeWhile in_word d @ cstring (dropWhile in_word d)"
  by (induction d) (auto simp: in_word_def)

text \<open>The arguments found so far end before the position \<open>p\<close>.\<close>

definition args_done :: "byte list \<Rightarrow> nat list \<Rightarrow> nat \<Rightarrow> bool" where
  "args_done b argv p \<longleftrightarrow> (\<forall>q \<in> set argv. \<exists>e. q \<le> e \<and> e < p \<and> e < length b \<and> b ! e = 0)"

lemma cstring_take: "n < length xs \<Longrightarrow> xs ! n = 0 \<Longrightarrow> cstring (take (Suc n) xs) = cstring xs"
proof (induction xs arbitrary: n)
  case (Cons x xs)
  then show ?case by (cases n) auto
qed simp

lemma cstring_before:
  assumes "q \<le> e" and "e < length b" and "b ! e = 0" and "e < k"
  shows "cstring (drop q (b[k := c])) = cstring (drop q b)"
proof -
  have "take (Suc (e - q)) (drop q (b[k := c])) = take (Suc (e - q)) (drop q b)"
    using assms by (simp add: take_drop)
  then show ?thesis
    using cstring_take [of "e - q" "drop q b"] cstring_take [of "e - q" "drop q (b[k := c])"] assms by simp
qed

lemma arg_strings_before:
  assumes "args_done b argv p" and "p \<le> k"
  shows "arg_strings (b[k := c]) argv = arg_strings b argv"
  unfolding arg_strings_def
proof (rule map_cong [OF refl])
  fix q assume "q \<in> set argv"
  then obtain e where "q \<le> e" "e < p" "e < length b" "b ! e = 0" using assms(1) unfolding args_done_def by blast
  then show "cstring (drop q (b[k := c])) = cstring (drop q b)" using assms(2) by (intro cstring_before) auto
qed

text \<open>One word: where it is, and what the line looks like after its end is overwritten.\<close>

lemma word_step:
  fixes b p
  defines "p1 \<equiv> skip_sep b p"
  defines "p2 \<equiv> skip_word b p1"
  defines "w \<equiv> cstring (takeWhile in_word (drop p1 b))"
  assumes c1: "char_at b p1 \<noteq> 0"
  shows "p \<le> p1" "p1 \<le> p2" and "char_at b p2 = 0 \<Longrightarrow> cstring (drop p1 b) = w \<and> words (cstring (drop p b)) = [w]"
    and "char_at b p2 \<noteq> 0 \<Longrightarrow> p2 < length b \<and> cstring (drop p1 (b[p2 := 0])) = w \<and>
      words (cstring (drop p b)) = w # words (cstring (drop (Suc p2) b))"
proof -
  let ?d = "drop p1 b" and ?w = "takeWhile in_word (drop p1 b)"
  have d1: "?d = dropWhile is_sep (drop p b)"
    unfolding p1_def skip_sep_eq by (metis drop_drop add.commute dropWhile_eq_drop)
  have d2: "drop p2 b = dropWhile in_word ?d"
    unfolding p2_def skip_word_eq by (metis drop_drop add.commute dropWhile_eq_drop)
  have w: "w = ?w" unfolding w_def by (rule cstring_id) (auto simp: in_word_def dest: set_takeWhileD)
  have ws: "words (cstring (drop p b)) = words (cstring ?d)"
    unfolding d1 cstring_dropWhile_sep words_dropWhile ..
  have cd: "cstring ?d = w @ cstring (drop p2 b)" unfolding w d2 by (rule cstring_word_split)
  have sep: "\<not> is_sep c" if "c \<in> set w" for c using that unfolding w by (auto simp: in_word_def dest: set_takeWhileD)
  have ne: "w \<noteq> []"
  proof -
    from c1 obtain c d' where cd': "?d = c # d'" "c \<noteq> 0"
      by (cases ?d) (auto simp: char_at_suffix [of b p1])
    moreover have "\<not> is_sep c" using hd_dropWhile [of is_sep "drop p b"] cd' d1 by (metis list.distinct(1) list.sel(1))
    ultimately show ?thesis unfolding w by (simp add: in_word_def)
  qed
  show "p \<le> p1" "p1 \<le> p2" by (simp_all add: p1_def p2_def skip_sep_eq skip_word_eq)
  show "cstring ?d = w \<and> words (cstring (drop p b)) = [w]" if "char_at b p2 = 0"
  proof -
    have "cstring (drop p2 b) = []" using that by (cases "drop p2 b") (auto simp: char_at_suffix [of b p2])
    then show ?thesis using cd words_word [of "cstring ?d" w "[]"] ne sep by (simp add: ws)
  qed
  show "p2 < length b \<and> cstring (drop p1 (b[p2 := 0])) = w \<and>
      words (cstring (drop p b)) = w # words (cstring (drop (Suc p2) b))" if nz: "char_at b p2 \<noteq> 0"
  proof (intro conjI)
    show lt: "p2 < length b" using nz by (auto simp: char_at_def split: if_splits)
    have dd: "drop p2 b = b ! p2 # drop (Suc p2) b" using lt by (simp add: Cons_nth_drop_Suc)
    have bz: "b ! p2 \<noteq> 0" using nz lt by (simp add: char_at_def)
    moreover have "\<not> in_word (b ! p2)" using hd_dropWhile [of in_word ?d] dd d2 by (metis list.distinct(1) list.sel(1))
    ultimately have bs: "is_sep (b ! p2)" by (simp add: in_word_def)
    show "words (cstring (drop p b)) = w # words (cstring (drop (Suc p2) b))"
      using words_word [of "cstring ?d" w "cstring (drop p2 b)"] cd dd bz bs ne sep by (simp add: ws)
    have p12: "p1 \<le> p2" "p2 - p1 = length w" by (simp_all add: p2_def skip_word_eq w)
    have "drop p1 (b[p2 := 0]) = ?d[p2 - p1 := 0]" using p12 by (simp add: drop_update_swap)
    also have "?d = w @ b ! p2 # drop (Suc p2) b" using dd d2 w by (metis takeWhile_dropWhile_id)
    finally show "cstring (drop p1 (b[p2 := 0])) = w"
      using p12 by (simp add: list_update_append cstring_append_0 w_def)
  qed
qed

lemma parse_loop_words:
  assumes "parse_loop b p argv mx = (b1, argv1)" and "args_done b argv p"
  shows "arg_strings b1 argv1 = arg_strings b argv @ take (mx - 1 - length argv) (words (cstring (drop p b)))"
  using assms
proof (induction b p argv mx rule: parse_loop.induct)
  case (1 b p argv mx)
  let ?p1 = "skip_sep b p" let ?p2 = "skip_word b ?p1"
  show ?case
  proof (cases "char_at b p \<noteq> 0 \<and> length argv < mx - 1")
    case False
    moreover from this have "char_at b p = 0 \<Longrightarrow> cstring (drop p b) = []"
      by (cases "drop p b") (auto simp: char_at_suffix [of b p])
    ultimately show ?thesis using 1(2) by (auto simp: parse_loop.simps [of b])
  next
    case go: True
    show ?thesis
    proof (cases "char_at b ?p1 = 0")
      case True
      then have "cstring (drop ?p1 b) = []" by (cases "drop ?p1 b") (auto simp: char_at_suffix [of b ?p1])
      moreover have "drop ?p1 b = dropWhile is_sep (drop p b)"
        unfolding skip_sep_eq by (metis drop_drop add.commute dropWhile_eq_drop)
      ultimately have "words (cstring (drop p b)) = []"
        using words_dropWhile [of "cstring (drop p b)"] cstring_dropWhile_sep [of "drop p b"] by (metis words_Nil)
      with go True 1(2) show ?thesis by (auto simp: parse_loop.simps [of b])
    next
      case c1: False
      note ws = word_step [OF c1]
      obtain k where k: "mx - 1 - length argv = Suc k" using go by (cases "mx - 1 - length argv") auto
      show ?thesis
      proof (cases "char_at b ?p2 = 0")
        case True
        with go c1 1(2) have "b1 = b" "argv1 = argv @ [?p1]" by (auto simp: parse_loop.simps [of b])
        with ws(3) [OF True] k show ?thesis by (simp add: arg_strings_def)
      next
        case c2: False
        let ?b = "b[?p2 := 0]"
        note w4 = ws(4) [OF c2]
        have r: "parse_loop ?b (Suc ?p2) (argv @ [?p1]) mx = (b1, argv1)"
          using go c1 c2 1(2) by (simp add: parse_loop.simps [of b] Let_def)
        have ad: "args_done ?b (argv @ [?p1]) (Suc ?p2)"
          unfolding args_done_def
        proof
          fix q assume "q \<in> set (argv @ [?p1])"
          then consider "q \<in> set argv" | "q = ?p1" by auto
          then show "\<exists>e\<ge>q. e < Suc ?p2 \<and> e < length ?b \<and> ?b ! e = 0"
          proof cases
            case 1
            then obtain e where "q \<le> e" "e < p" "e < length b" "b ! e = 0"
              using "1.prems"(2) unfolding args_done_def by blast
            then show ?thesis using ws(1,2) by (intro exI [of _ e]) auto
          qed (use ws(2) w4 in \<open>auto intro!: exI [of _ ?p2]\<close>)
        qed
        have "arg_strings b1 argv1 =
          arg_strings ?b (argv @ [?p1]) @ take (mx - 1 - length (argv @ [?p1])) (words (cstring (drop (Suc ?p2) ?b)))"
          using 1(1) [OF go refl c1 refl c2 r ad] .
        moreover have "arg_strings ?b argv = arg_strings b argv"
          using arg_strings_before [OF "1.prems"(2)] ws(1,2) by simp
        moreover have "mx - 1 - length (argv @ [?p1]) = k" using k by simp
        ultimately show ?thesis using w4 k by (simp add: arg_strings_def)
      qed
    qed
  qed
qed

text \<open>
  C31. The line parser finds the words: the argument strings it leaves in the line, after writing NULs into it, are exactly
  the first \<open>MAXARGS - 1\<close> maximal runs of characters that are neither blank nor tab in the line as typed.
\<close>

theorem parse_line_words:
  "arg_strings (fst (parse_line line MAXARGS)) (snd (parse_line line MAXARGS)) =
   take (MAXARGS - 1) (words (cstring line))"
  using parse_loop_words [of line 0 "[]" MAXARGS]
  by (cases "parse_loop line 0 [] MAXARGS") (simp add: parse_line_def args_done_def arg_strings_def)

section \<open>Arrays\<close>

text \<open>An array of \<open>n\<close> bytes that holds a string.\<close>

definition holds_string :: "nat \<Rightarrow> byte list \<Rightarrow> bool" where
  "holds_string n b \<longleftrightarrow> length b = n \<and> 0 \<in> set b"

lemma length_blit [simp]: "off + length bs \<le> length dst \<Longrightarrow> length (blit dst off bs) = length dst"
  by (simp add: blit_def)

lemma store_string:
  assumes "length b = n" and "off + length xs < n" and "0 \<notin> set (take off b)" and "0 \<notin> set xs"
  shows "cstring ((blit b off xs)[off + length xs := 0]) = take off b @ xs"
    and "holds_string n ((blit b off xs)[off + length xs := 0])"
proof -
  let ?d = "drop (Suc (off + length xs)) b"
  have e: "(blit b off xs)[off + length xs := 0] = (take off b @ xs) @ 0 # ?d"
    using assms(1,2) by (auto simp: blit_def list_update_append min_def Cons_nth_drop_Suc [symmetric])
  show "cstring ((blit b off xs)[off + length xs := 0]) = take off b @ xs"
    unfolding e by (rule cstring_append_0) (use assms in auto)
  show "holds_string n ((blit b off xs)[off + length xs := 0])"
    unfolding e holds_string_def using assms by auto
qed

lemma safe_copy_cases:
  assumes "length dst = dsz"
  shows "safe_copy dst dsz src = (False, dst) \<and> length (cstring src) \<ge> dsz \<or>
    fst (safe_copy dst dsz src) \<and> length (cstring src) < dsz \<and>
    cstring (snd (safe_copy dst dsz src)) = cstring src \<and> holds_string dsz (snd (safe_copy dst dsz src))"
proof (cases "length (cstring src) < dsz")
  case True
  then show ?thesis
    using store_string [OF assms, of 0 "cstring src"]
    by (simp add: safe_copy_def ustrlen_eq take_cstring Let_def)
qed (auto simp: safe_copy_def ustrlen_eq)

lemma cstring_eq_take: "cstring b = take (length (cstring b)) b"
  by (simp add: take_cstring)

lemma safe_cat_cases:
  assumes "length dst = dsz"
  shows "safe_cat dst dsz src = (False, dst) \<and> length (cstring dst) + length (cstring src) \<ge> dsz \<or>
    fst (safe_cat dst dsz src) \<and> length (cstring dst) + length (cstring src) < dsz \<and>
    cstring (snd (safe_cat dst dsz src)) = cstring dst @ cstring src \<and> holds_string dsz (snd (safe_cat dst dsz src))"
proof (cases "length (cstring dst) + length (cstring src) < dsz")
  case True
  then show ?thesis
    using store_string [OF assms, of "length (cstring dst)" "cstring src"]
    by (simp add: safe_cat_def ustrlen_eq take_cstring Let_def)
qed (auto simp: safe_cat_def ustrlen_eq)

section \<open>History\<close>

definition hist_list :: "eaf \<Rightarrow> byte list list" where
  "hist_list s = map (\<lambda>i. cstring (hist s ! ((hist_next s + HIST_SIZE - hist_count s + i) mod HIST_SIZE)))
     [0..<hist_count s]"

definition hist_ok :: "eaf \<Rightarrow> bool" where
  "hist_ok s \<longleftrightarrow> length (hist s) = HIST_SIZE \<and> (\<forall>r \<in> set (hist s). holds_string MAXLINE r) \<and>
     hist_next s < HIST_SIZE \<and> hist_count s \<le> HIST_SIZE"

definition last_ten :: "byte list list \<Rightarrow> byte list list" where
  "last_ten ls = drop (length ls - HIST_SIZE) ls"

lemma hist_row:
  fixes line
  assumes "holds_string MAXLINE r"
  defines "l \<equiv> take (MAXLINE - 1) (cstring line)"
  shows "cstring ((blit r 0 l)[length l := 0]) = l" "holds_string MAXLINE ((blit r 0 l)[length l := 0])"
proof -
  have l: "length l < MAXLINE" "0 \<notin> set l" unfolding l_def by (auto simp: MAXLINE_def dest: in_set_takeD)
  have "length r = MAXLINE" using assms(1) by (simp add: holds_string_def)
  from store_string [OF this, of 0 l] l
  show "cstring ((blit r 0 l)[length l := 0]) = l" "holds_string MAXLINE ((blit r 0 l)[length l := 0])" by simp_all
qed

lemma history_add_eq:
  fixes line
  assumes "cstring line \<noteq> []" and "hist_count s \<le> HIST_SIZE"
  defines "l \<equiv> take (MAXLINE - 1) (cstring line)"
  shows "history_add line s = s\<lparr>hist := (hist s)[hist_next s := (blit (hist s ! hist_next s) 0 l)[length l := 0]],
    hist_next := (hist_next s + 1) mod HIST_SIZE, hist_count := min (hist_count s + 1) HIST_SIZE\<rparr>"
proof -
  have "char_at line 0 \<noteq> 0" using assms by (cases line) (auto split: if_splits)
  moreover have "take (if ustrlen line \<ge> MAXLINE then MAXLINE - 1 else ustrlen line) line = l"
  proof -
    have "take n line = take n (cstring line)" if "n \<le> length (cstring line)" for n
      using that take_cstring [of line] by (metis min.absorb1 take_take)
    then show ?thesis unfolding l_def ustrlen_eq by (auto simp: take_cstring)
  qed
  moreover have "(if ustrlen line \<ge> MAXLINE then MAXLINE - 1 else ustrlen line) = length l"
    unfolding l_def ustrlen_eq by (auto simp: MAXLINE_def)
  ultimately show ?thesis
    unfolding history_add_def Let_def using assms(2) by (cases "hist_count s < HIST_SIZE") (auto simp: min_def)
qed

lemma hist_ok_count: "hist_ok s \<Longrightarrow> hist_count s \<le> HIST_SIZE"
  by (simp add: hist_ok_def)

lemma hist_ok_add:
  assumes "hist_ok s"
  shows "hist_ok (history_add line s)"
proof (cases "cstring line = []")
  case True
  then have "char_at line 0 = 0" by (cases line) (auto split: if_splits)
  then show ?thesis using assms by (simp add: history_add_def)
next
  case False
  have "holds_string MAXLINE (hist s ! hist_next s)" using assms by (auto simp: hist_ok_def)
  note hist_row(2) [OF this, of line]
  then show ?thesis
    using assms unfolding history_add_eq [OF False hist_ok_count [OF assms]]
    by (auto simp: hist_ok_def HIST_SIZE_def dest!: set_update_subset_insert [THEN subsetD])
qed

lemma wrap_sum: "n < m \<Longrightarrow> d \<le> m \<Longrightarrow> (n + d) mod m = (if n + d < m then n + d else n + d - m)" for n m d :: nat
  by (auto simp: mod_if)

text \<open>Where entry \<open>i\<close> is found after an entry was stored at \<open>n\<close>, with \<open>c\<close> entries before.\<close>

lemma hist_index:
  fixes n c i :: nat
  assumes n: "n < 10" and c: "c \<le> 10" and i: "i < min (c + 1) 10"
  shows "((n + 1) mod 10 + 10 - min (c + 1) 10 + i) mod 10 = (n + (10 - c + (i + (c + 1 - 10)))) mod 10"
proof -
  have "(n + 1) mod 10 + 10 - min (c + 1) 10 + i = (n + 1) mod 10 + (10 - min (c + 1) 10 + i)" by linarith
  then have "((n + 1) mod 10 + 10 - min (c + 1) 10 + i) mod 10 = (n + 1 + (10 - min (c + 1) 10 + i)) mod 10"
    by (simp only: mod_add_left_eq)
  also have "n + 1 + (10 - min (c + 1) 10 + i) = n + (10 - c + (i + (c + 1 - 10)))"
    using c by (cases "c = 10") (simp_all add: min_absorb1)
  finally show ?thesis .
qed

lemma hist_list_add:
  assumes ok: "hist_ok s" and ne: "cstring line \<noteq> []"
  shows "hist_list (history_add line s) = last_ten (hist_list s @ [take (MAXLINE - 1) (cstring line)])"
proof -
  let ?l = "take (MAXLINE - 1) (cstring line)" and ?n = "hist_next s" and ?c = "hist_count s"
  let ?r = "(blit (hist s ! ?n) 0 ?l)[length ?l := 0]"
  have n: "?n < 10" "?c \<le> 10" "length (hist s) = 10" and row: "holds_string MAXLINE (hist s ! ?n)"
    using ok by (auto simp: hist_ok_def HIST_SIZE_def)
  note add = history_add_eq [OF ne hist_ok_count [OF ok]]
  have len: "length (hist_list s) = ?c" by (simp add: hist_list_def)
  have r: "cstring ?r = ?l" using hist_row(1) [OF row] .
  show ?thesis
  proof (rule nth_equalityI)
    show "length (hist_list (history_add line s)) = length (last_ten (hist_list s @ [?l]))"
      using n by (simp add: add hist_list_def last_ten_def HIST_SIZE_def min_def)
    fix i assume "i < length (hist_list (history_add line s))"
    then have i: "i < min (?c + 1) 10" by (simp add: add hist_list_def HIST_SIZE_def)
    define k where "k = ((?n + 1) mod 10 + 10 - min (?c + 1) 10 + i) mod 10"
    have lhs: "hist_list (history_add line s) ! i = cstring ((hist s)[?n := ?r] ! k)"
      using i unfolding add hist_list_def HIST_SIZE_def k_def by (simp del: upt_Suc)
    let ?j = "i + (?c + 1 - 10)"
    have rhs: "last_ten (hist_list s @ [?l]) ! i = (hist_list s @ [?l]) ! ?j"
      using i n len by (simp add: last_ten_def HIST_SIZE_def add.commute del: drop_append)
    have k: "k = (if ?n + (10 - ?c + ?j) < 10 then ?n + (10 - ?c + ?j) else ?n + (10 - ?c + ?j) - 10)"
      unfolding k_def hist_index [OF n(1,2) i] by (rule wrap_sum [OF n(1)]) (use i n in linarith)
    show "hist_list (history_add line s) ! i = last_ten (hist_list s @ [?l]) ! i"
    proof (cases "?j < ?c")
      case True
      then have "0 < 10 - ?c + ?j" "10 - ?c + ?j < 10" using n by linarith+
      then have "k \<noteq> ?n" unfolding k by (simp only: split: if_split) linarith
      moreover have "k < 10" by (simp add: k_def)
      moreover have "k = (?n + 10 - ?c + ?j) mod 10"
        unfolding k_def hist_index [OF n(1,2) i] using n by (intro arg_cong [where f = "\<lambda>x. x mod 10"]) linarith
      ultimately show ?thesis unfolding lhs rhs using True by (simp add: hist_list_def nth_append HIST_SIZE_def)
    next
      case False
      then have j: "?j = ?c" using i n by linarith
      then have "k = ?n" unfolding k j using n by simp
      then show ?thesis unfolding lhs rhs j using n r by (simp add: hist_list_def nth_append)
    qed
  qed
qed

lemma hist_list_skip: "cstring line = [] \<Longrightarrow> history_add line s = s"
  by (cases line) (auto simp: history_add_def split: if_splits)

definition entries :: "byte list list \<Rightarrow> byte list list" where
  "entries ls = map (take (MAXLINE - 1)) (filter (\<lambda>l. l \<noteq> []) (map cstring ls))"

lemma last_ten_snoc: "last_ten (last_ten xs @ [x]) = last_ten (xs @ [x])"
  by (cases "length xs \<le> HIST_SIZE") (simp_all add: last_ten_def Suc_diff_le)

lemma history_fold:
  "hist_ok (fold history_add ls eaf_init) \<and> hist_list (fold history_add ls eaf_init) = last_ten (entries ls)"
proof (induction ls rule: rev_induct)
  case Nil
  show ?case
    by (auto simp: hist_ok_def eaf_init_def hist_list_def last_ten_def entries_def holds_string_def MAXLINE_def HIST_SIZE_def)
next
  case (snoc l ls)
  then show ?case
    by (cases "cstring l = []") (auto simp: hist_list_skip hist_ok_add hist_list_add entries_def last_ten_snoc)
qed

definition decimal :: "int \<Rightarrow> byte list" where
  "decimal z = printint udigits (word_of_int z) 10 True"

definition numbered :: "byte list list \<Rightarrow> byte list" where
  "numbered ls = concat (map (\<lambda>i. decimal (int i + 1) @ [32, 32] @ ls ! i @ [10]) [0..<length ls])"

lemma history_line_out:
  assumes "i < 10"
  shows "uprintf os (str ''%d  %s'' @ [10]) [PInt (word_of_nat i + 1), PStr (Some l)] =
    putcs os 1 (decimal (int i + 1) @ [32, 32] @ l @ [10])"
proof -
  have "i \<in> {0, 1, 2, 3, 4, 5, 6, 7, 8, 9}" using assms by auto
  then have "va_int 32 True (word_of_nat i + 1) = word_of_int (int i + 1)"
    by (auto simp: va_int_def)
  then show ?thesis
    by (simp add: uprintf_def fprintf_def fmt_simps of_char_def decimal_def)
qed

lemma smod_nonneg: "0 \<le> a \<Longrightarrow> 0 < b \<Longrightarrow> a smod b = a mod b" for a b :: int
  by (cases "a = 0") (auto simp: signed_modulo_int_def sgn_if)

lemma history_loop_out:
  assumes ok: "hist_ok s" and "i \<le> hist_count s"
  shows "history_loop os s (hist_start s) i w =
    putcs os 1 (concat (map (\<lambda>i. decimal (int i + 1) @ [32, 32] @ hist_list s ! i @ [10]) [i..<hist_count s])) w"
  using assms(2)
proof (induction "hist_count s - i" arbitrary: i w)
  case 0
  then show ?case by (simp add: history_loop.simps um_simps)
next
  case (Suc d)
  have n: "hist_next s < 10" "hist_count s \<le> 10" using ok by (auto simp: hist_ok_def HIST_SIZE_def)
  have i: "i < hist_count s" using Suc by simp
  let ?l = "hist_list s ! i"
  have "int (hist_next s) - int (hist_count s) + int HIST_SIZE = int (hist_next s + HIST_SIZE - hist_count s)"
    using n by (simp add: HIST_SIZE_def)
  then have "hist_start s = int ((hist_next s + HIST_SIZE - hist_count s) mod HIST_SIZE)"
    unfolding hist_start_def by (simp add: smod_nonneg HIST_SIZE_def zmod_int)
  then have "(hist_start s + int i) smod int HIST_SIZE = int ((hist_next s + HIST_SIZE - hist_count s + i) mod HIST_SIZE)"
    by (simp add: smod_nonneg HIST_SIZE_def zmod_int mod_add_left_eq)
  then have l: "cstring (hist s ! nat ((hist_start s + int i) smod int HIST_SIZE)) = ?l"
    using i by (simp add: hist_list_def)
  have "history_loop os s (hist_start s) i w =
    ubind (putcs os 1 (decimal (int i + 1) @ [32, 32] @ ?l @ [10])) (\<lambda>_. history_loop os s (hist_start s) (Suc i)) w"
    using i n by (subst history_loop.simps) (simp add: l history_line_out Let_def)
  also have "\<dots> = ubind (putcs os 1 (decimal (int i + 1) @ [32, 32] @ ?l @ [10]))
    (\<lambda>_. putcs os 1 (concat (map (\<lambda>i. decimal (int i + 1) @ [32, 32] @ hist_list s ! i @ [10]) [Suc i..<hist_count s]))) w"
    using Suc i by (intro arg_cong [where f = "\<lambda>f. ubind _ f w"] ext) simp
  finally show ?case unfolding putcs_append [symmetric] using i by (simp add: upt_conv_Cons)
qed

text \<open>
  C32. The history is the last ten commands: after any sequence of lines has been added, \<open>historial\<close> prints exactly the last
  ten non-empty ones (each cut to \<open>MAXLINE - 1\<close> bytes), oldest first, numbered from 1, however often the ring of
  rows has wrapped around.
\<close>

theorem history_last_ten:
  "cmd_historial os argv (fold history_add ls eaf_init) w =
   ok (putcs os 1 (numbered (last_ten (entries ls)))) (fold history_add ls eaf_init) w"
proof -
  let ?s = "fold history_add ls eaf_init"
  have h: "hist_ok ?s" "hist_list ?s = last_ten (entries ls)" using history_fold by auto
  have "history_print os ?s = putcs os 1 (numbered (last_ten (entries ls)))"
    unfolding history_print_def using history_loop_out [OF h(1), of 0 os]
    by (intro ext) (simp add: numbered_def h(2) [symmetric] hist_list_def)
  then show ?thesis by (simp add: cmd_historial_def)
qed

section \<open>What commands return\<close>

definition post :: "('w, 'a) um \<Rightarrow> ('a \<Rightarrow> bool) \<Rightarrow> bool" where
  "post m P \<longleftrightarrow> (\<forall>w x w1. m w = Some (Inr x, w1) \<longrightarrow> P x)"

lemma post_ureturn: "P x \<Longrightarrow> post (ureturn x) P"
  by (simp add: post_def um_simps)

lemma post_uexit: "post (uexit n) P"
  by (simp add: post_def um_simps)

lemma post_ubind: "post m Q \<Longrightarrow> (\<And>x. Q x \<Longrightarrow> post (f x) P) \<Longrightarrow> post (ubind m f) P"
  unfolding post_def ubind_eq_Inr by blast

lemma post_ubind_any: "(\<And>x. post (f x) P) \<Longrightarrow> post (ubind m f) P"
  unfolding post_def ubind_eq_Inr by blast

lemma post_ok: "P (0, s) \<Longrightarrow> post (ok m s) P"
  unfolding ok_def by (intro post_ubind_any post_ureturn)

lemma post_run: "P (0, s) \<Longrightarrow> post (ret_run (run_program os prog argv) s) P"
  unfolding ret_run_def run_program_def
  by (rule post_ubind [where Q = "\<lambda>r. r = 0"]) (auto intro!: post_ubind_any post_ureturn post_uexit)

lemmas post_intros = post_ok post_run post_ubind_any post_ureturn post_uexit

definition eaf_ok :: "eaf \<Rightarrow> bool" where
  "eaf_ok s \<longleftrightarrow> holds_string MAXPROMPT (prompt_text s) \<and> holds_string 16 (prompt_color s) \<and> hist_ok s"

lemma safe_copy_holds: "holds_string n b \<Longrightarrow> holds_string n (snd (safe_copy b n src))"
  using safe_copy_cases [of b n src] by (auto simp: holds_string_def)

lemma set_color_ok: "eaf_ok s \<Longrightarrow> eaf_ok (snd (set_color c s))"
  using safe_copy_holds [of 16 "prompt_color s" c]
  by (auto simp: set_color_def eaf_ok_def hist_ok_def split: prod.split)

lemma set_theme_color_ok: "eaf_ok s \<Longrightarrow> eaf_ok (snd (set_theme_color c s))"
  by (simp add: set_theme_color_def set_color_ok)

lemma reset_ui_ok: "eaf_ok s \<Longrightarrow> eaf_ok (reset_ui s)"
  using safe_copy_holds [of 16 "prompt_color s"] safe_copy_holds [of MAXPROMPT "prompt_text s"]
  by (auto simp: reset_ui_def eaf_ok_def hist_ok_def Let_def)

text \<open>A command keeps the state well formed and does not end the shell.\<close>

abbreviation keeps :: "int \<times> eaf \<Rightarrow> bool" where
  "keeps \<equiv> \<lambda>(r, s). r = 0 \<and> eaf_ok s"

lemma cmd_prompt_keeps: "eaf_ok s \<Longrightarrow> post (cmd_prompt os argv s) keeps"
  using safe_copy_holds [of MAXPROMPT "prompt_text s"]
  by (auto simp: cmd_prompt_def eaf_ok_def hist_ok_def intro!: post_ok split: option.split prod.split bool.split dest: sym)
     (metis snd_conv)

lemma cmd_tema_keeps: "eaf_ok s \<Longrightarrow> post (cmd_tema os argv s) keeps"
  using set_theme_color_ok [of s "argv ! 1"]
  by (auto simp: cmd_tema_def intro!: post_ok split: prod.split bool.split)

lemma other_keeps:
  assumes "eaf_ok s"
  shows "post (cmd_listar os argv s) keeps" "post (cmd_leer os argv s) keeps" "post (cmd_tiempo os argv s) keeps"
    "post (cmd_ayuda os argv s) keeps" "post (cmd_historial os argv s) keeps"
    "post (cmd_limpiar os argv s) keeps" "post (cmd_usuario os argv s) keeps" "post (cmd_directorio os argv s) keeps"
    "post (cmd_pf os argv s) keeps" "post (cmd_sbrkpf os argv s) keeps" "post (cmd_sbrklazy os argv s) keeps"
    "post (cmd_lazy os argv s) keeps" "post (cmd_mmapsim os argv s) keeps" "post (cmd_resetui os argv s) keeps"
  using assms reset_ui_ok [OF assms]
  by (auto simp: cmd_listar_def cmd_leer_def cmd_tiempo_def cmd_ayuda_def cmd_historial_def cmd_limpiar_def
      cmd_usuario_def cmd_directorio_def cmd_pf_def cmd_sbrkpf_def cmd_sbrklazy_def cmd_lazy_def cmd_mmapsim_def
      cmd_resetui_def Let_def split: prod.split intro!: post_intros)

lemma cmd_calc_keeps: "eaf_ok s \<Longrightarrow> post (cmd_calc os argv s) keeps"
  by (auto simp: cmd_calc_def Let_def split: prod.split option.split intro!: post_intros)

lemma find_command_Some: "find_command c tab = Some f \<Longrightarrow> \<exists>n. (n, f) \<in> set tab \<and> streq c n"
  by (induction tab) (auto split: if_splits)

lemma streq_iff: "0 \<notin> set a \<Longrightarrow> 0 \<notin> set b \<Longrightarrow> streq a b \<longleftrightarrow> a = b"
  by (simp add: streq_def strcmp_eq_0 cstring_id)

definition salir :: "byte list" where "salir = str ''salir''"

lemma dispatch_post:
  assumes ok: "eaf_ok s" and nz: "\<forall>a \<in> set argv. 0 \<notin> set a"
  shows "post (dispatch os argv s) (\<lambda>(r, s1). eaf_ok s1 \<and> (r \<noteq> 0 \<longleftrightarrow> argv \<noteq> [] \<and> hd argv = salir))"
proof (cases "argv = []")
  case True
  then show ?thesis using ok by (auto simp: dispatch_def intro!: post_intros)
next
  case False
  let ?c = "hd argv"
  have c: "0 \<notin> set ?c" using nz False by simp
  have names: "0 \<notin> set n" if "(n, f) \<in> set (COMMANDS os)" for n f
    using that by (auto simp: COMMANDS_def fmt_simps of_char_def)
  show ?thesis
  proof (cases "find_command ?c (COMMANDS os)")
    case None
    then have "?c \<noteq> salir" using c streq_iff [OF c, of salir]
      by (auto simp: COMMANDS_def salir_def fmt_simps of_char_def split: if_splits)
    with None False ok show ?thesis by (auto simp: dispatch_def intro!: post_intros)
  next
    case (Some f)
    then obtain n where nf: "(n, f) \<in> set (COMMANDS os)" and "streq ?c n" using find_command_Some by blast
    then have cn: "?c = n" using streq_iff [OF c names [OF nf]] by simp
    have "post (f argv s) (\<lambda>(r, s1). eaf_ok s1 \<and> (r \<noteq> 0 \<longleftrightarrow> n = salir))"
    proof (cases "n = salir")
      case True
      with nf have "f = cmd_salir os" by (auto simp: COMMANDS_def salir_def fmt_simps of_char_def)
      then show ?thesis using ok True by (auto simp: cmd_salir_def intro!: post_intros)
    next
      case ne: False
      with nf have "post (f argv s) keeps"
        using other_keeps [OF ok, of os argv] cmd_prompt_keeps [OF ok, of os argv] cmd_tema_keeps [OF ok, of os argv]
          cmd_calc_keeps [OF ok, of os argv]
        by (auto simp: COMMANDS_def salir_def)
      then show ?thesis using ne by (auto simp: post_def)
    qed
    then show ?thesis using Some False cn by (simp add: dispatch_def)
  qed
qed

text \<open>The line without the newlines at its end.\<close>

definition rstrip :: "byte list \<Rightarrow> byte list" where
  "rstrip s = rev (dropWhile (\<lambda>c. c = 10 \<or> c = 13) (rev s))"

lemma rstrip_loop_string:
  assumes "n \<le> length b" and "0 \<notin> set (take n b)" and "n < length b \<Longrightarrow> b ! n = 0"
  shows "cstring (rstrip_loop n b) = rstrip (take n b) \<and> length (rstrip_loop n b) = length b \<and>
    (0 \<in> set b \<longrightarrow> 0 \<in> set (rstrip_loop n b))"
  using assms
proof (induction n arbitrary: b)
  case 0
  then show ?case by (cases b) (auto simp: rstrip_def)
next
  case (Suc n)
  have tk: "take (Suc n) b = take n b @ [b ! n]" using Suc.prems(1) by (simp add: take_Suc_conv_app_nth)
  show ?case
  proof (cases "b ! n = 10 \<or> b ! n = 13")
    case True
    have "cstring (rstrip_loop n (b[n := 0])) = rstrip (take n (b[n := 0])) \<and>
      length (rstrip_loop n (b[n := 0])) = length (b[n := 0]) \<and>
      (0 \<in> set (b[n := 0]) \<longrightarrow> 0 \<in> set (rstrip_loop n (b[n := 0])))"
      using Suc.prems tk by (intro Suc.IH) auto
    then show ?thesis using True Suc.prems(1) tk by (auto simp: rstrip_def set_update_memI)
  next
    case False
    have "cstring b = take (Suc n) b"
    proof (cases "Suc n < length b")
      case True
      then have "b = take (Suc n) b @ 0 # drop (Suc (Suc n)) b"
        using Suc.prems(3) id_take_nth_drop [of "Suc n" b] by simp
      then show ?thesis using Suc.prems(2) cstring_append_0 by metis
    next
      case False
      then show ?thesis using Suc.prems cstring_id by simp
    qed
    then show ?thesis using False tk by (auto simp: rstrip_def)
  qed
qed

lemma rstrip_newlines_string:
  "cstring (rstrip_newlines b) = rstrip (cstring b)"
  "holds_string n b \<Longrightarrow> holds_string n (rstrip_newlines b)"
proof -
  have l: "length (cstring b) \<le> length b" by (simp add: cstring_def length_takeWhile_le)
  have z: "length (cstring b) < length b \<Longrightarrow> b ! length (cstring b) = 0"
    unfolding cstring_def using nth_length_takeWhile by blast
  have t: "0 \<notin> set (take (length (cstring b)) b)" by (simp add: take_cstring)
  show "cstring (rstrip_newlines b) = rstrip (cstring b)"
    using rstrip_loop_string [OF l t z] by (simp add: rstrip_newlines_def ustrlen_eq take_cstring)
  show "holds_string n b \<Longrightarrow> holds_string n (rstrip_newlines b)"
    using rstrip_loop_string [OF l t z] by (simp add: rstrip_newlines_def ustrlen_eq holds_string_def)
qed

section \<open>One command line\<close>

lemma parse_loop_holds: "holds_string n b \<Longrightarrow> holds_string n (fst (parse_loop b p argv mx))"
proof (induction b p argv mx rule: parse_loop.induct)
  case (1 b p argv mx)
  let ?p1 = "skip_sep b p" let ?p2 = "skip_word b ?p1"
  have "holds_string n (b[?p2 := 0])" using 1(2)
    by (cases "?p2 < length b") (auto simp: holds_string_def set_update_memI list_update_beyond)
  then show ?case using 1 by (subst parse_loop.simps) (simp add: Let_def)
qed

lemma gets_loop_post:
  "length buf = n \<Longrightarrow> i < mx \<Longrightarrow> post (gets_loop os buf mx i) (\<lambda>(b, j). length b = n \<and> j < mx)"
proof (induction os buf mx i rule: gets_loop.induct)
  case (1 os buf mx i)
  show ?case
    by (subst gets_loop.simps) (use 1 in \<open>auto simp: Let_def intro!: post_ubind_any post_ureturn split: prod.split\<close>)
qed

lemma gets_post: "length buf = mx \<Longrightarrow> 0 < mx \<Longrightarrow> post (gets os buf mx) (holds_string mx)"
  unfolding gets_def
  by (rule post_ubind [OF gets_loop_post]) (auto simp: holds_string_def set_update_memI intro!: post_ureturn)

lemma words_subset: "w \<in> set (words s) \<Longrightarrow> set w \<subseteq> set s"
proof -
  have "w \<in> set (sep_fields s) \<Longrightarrow> set w \<subseteq> set s"
  proof (induction s arbitrary: w)
    case (Cons c s)
    have "x \<in> set (hd (sep_fields s)) \<Longrightarrow> x \<in> set s" for x using Cons.IH [of "hd (sep_fields s)"] by auto
    then show ?case using Cons by (auto split: if_splits dest: list.set_sel(2) [OF sep_fields_ne])
  qed simp
  then show "w \<in> set (words s) \<Longrightarrow> set w \<subseteq> set s" by (simp add: words_def)
qed

lemma is_blank_iff: "is_blank b \<longleftrightarrow> set (cstring b) \<subseteq> {32, 9, 10, 13}"
  by (induction b) auto

lemma history_add_keeps: "eaf_ok s \<Longrightarrow> eaf_ok (history_add line s)"
  using hist_ok_add [of s line] by (auto simp: eaf_ok_def history_add_def Let_def)

lemma do_line_post:
  assumes "eaf_ok s" and "holds_string MAXLINE line"
  shows "post (do_line os line s) (\<lambda>(ex, line1, s1). eaf_ok s1 \<and> holds_string MAXLINE line1 \<and>
    (ex \<longleftrightarrow> (\<exists>ws. words (rstrip (cstring line)) = salir # ws)))"
proof -
  let ?l = "rstrip_newlines line"
  let ?p = "parse_line ?l MAXARGS"
  have l: "holds_string MAXLINE ?l" "cstring ?l = rstrip (cstring line)"
    using rstrip_newlines_string assms(2) by auto
  show ?thesis
  proof (cases "is_blank ?l")
    case True
    have "(\<forall>ws. words (rstrip (cstring line)) \<noteq> salir # ws)"
      using True words_subset [of salir "cstring ?l"]
      by (auto simp: is_blank_iff l(2) [symmetric] salir_def str_def of_char_def)
    with True l assms show ?thesis by (auto simp: do_line_def Let_def intro!: post_ureturn)
  next
    case False
    have args: "arg_strings (fst ?p) (snd ?p) = take (MAXARGS - 1) (words (rstrip (cstring line)))"
      unfolding l(2) [symmetric] using parse_loop_words [of ?l 0 "[]" MAXARGS]
      by (cases "parse_loop ?l 0 [] MAXARGS") (simp add: parse_line_def args_done_def arg_strings_def)
    have nz: "\<forall>a \<in> set (arg_strings (fst ?p) (snd ?p)). 0 \<notin> set a" by (auto simp: arg_strings_def)
    have iff: "(arg_strings (fst ?p) (snd ?p) \<noteq> [] \<and> hd (arg_strings (fst ?p) (snd ?p)) = salir) \<longleftrightarrow>
      (\<exists>ws. words (rstrip (cstring line)) = salir # ws)"
      unfolding args by (cases "words (rstrip (cstring line))") (auto simp: MAXARGS_def)
    have h: "holds_string MAXLINE (fst ?p)" using parse_loop_holds [OF l(1)] by (simp add: parse_line_def)
    show ?thesis
      unfolding do_line_def Let_def using False h
      by (auto simp: split_beta iff [symmetric] intro!: post_ureturn
          post_ubind [OF dispatch_post [OF history_add_keeps [OF assms(1)] nz]])
  qed
qed

lemma eaf_ok_init: "eaf_ok eaf_init"
  using history_fold [of "[]"]
  by (simp add: eaf_ok_def eaf_init_def holds_string_def array_of_def DEFAULT_PROMPT_def cyan_def MAXPROMPT_def str_def)

section \<open>The main loop\<close>

text \<open>Output does not end the process.\<close>

definition runs_on :: "('w, 'a) um \<Rightarrow> bool" where
  "runs_on m \<longleftrightarrow> (\<forall>w e w1. m w \<noteq> Some (Inl e, w1))"

lemma runs_on_ubind: "runs_on m \<Longrightarrow> (\<And>x. runs_on (f x)) \<Longrightarrow> runs_on (ubind m f)"
  unfolding runs_on_def ubind_eq_Some by blast

lemma runs_on_next:
  assumes "runs_on m" and "ubind m f w = Some y"
  shows "\<exists>x w1. f x w1 = Some y"
  using assms by (cases y) (auto simp: runs_on_def ubind_eq_Some)

lemma runs_on_base: "runs_on (ureturn x)" "runs_on (ucall c)" "runs_on (\<lambda>_. None)"
  by (simp_all add: runs_on_def um_simps)

lemma runs_on_putcs: "runs_on (putcs os fd cs)"
  by (induction cs) (simp_all add: runs_on_base runs_on_ubind)

lemma runs_on_printf: "runs_on (uprintf os fmt args)"
  by (simp add: uprintf_def fprintf_def runs_on_putcs runs_on_base split: option.split)

lemma runs_on_print_all: "runs_on (print_all os ls)"
  by (induction ls) (simp_all add: runs_on_base runs_on_ubind runs_on_printf)

lemma gets_eof:
  assumes "\<And>w. fst (fst (o_read os 0 1 w)) < 1"
  shows "gets os buf MAXLINE w = Some (Inr (buf[0 := 0]), snd (o_read os 0 1 w))"
proof -
  have "gets_loop os buf MAXLINE 0 w = Some (Inr (buf, 0), snd (o_read os 0 1 w))"
    using assms [of w] by (subst gets_loop.simps) (simp add: um_simps MAXLINE_def split_beta)
  then show ?thesis by (simp add: gets_def ubind_run um_simps)
qed

lemma main_loop_eof:
  assumes "main_loop os line s w = Some y"
  shows "(\<forall>w. fst (fst (o_read os 0 1 w)) < 1) \<longrightarrow> line = []"
proof (rule main_loop.raw_induct [OF _ assms], rule impI)
  fix main_loop os line s w y
  assume 1: "\<And>os line s w y. main_loop os line s w = Some y \<Longrightarrow> (\<forall>w. fst (fst (o_read os 0 1 w)) < 1) \<longrightarrow> line = []"
    "ubind (print_prompt os s) (\<lambda>_. ubind (gets os line MAXLINE) (\<lambda>line1. ubind (do_line os line1 s)
      (\<lambda>(should_exit, line2, s1) w1. if should_exit then Some (Inr s1, w1) else main_loop os line2 s1 w1))) w = Some y"
    "\<forall>w. fst (fst (o_read os 0 1 w)) < 1"
  let ?body = "\<lambda>line1. ubind (do_line os line1 s)
    (\<lambda>(should_exit, line2, s1) w1. if should_exit then Some (Inr s1, w1) else main_loop os line2 s1 w1)"
  have "runs_on (print_prompt os s)" unfolding print_prompt_def by (rule runs_on_printf)
  from runs_on_next [OF this 1(2)] obtain w0 where "ubind (gets os line MAXLINE) ?body w0 = Some y" by blast
  then have b: "?body (line[0 := 0]) (snd (o_read os 0 1 w0)) = Some y"
    using gets_eof [of os] 1(3) by (simp add: ubind_run)
  show "line = []"
  proof (rule ccontr)
    assume "line \<noteq> []"
    then obtain l where l: "line[0 := 0] = 0 # l" by (cases line) auto
    have "rstrip_newlines (0 # l) = 0 # l" by (simp add: rstrip_newlines_def ustrlen_eq)
    then have "main_loop os (0 # l) s (snd (o_read os 0 1 w0)) = Some y"
      using b unfolding l by (simp add: do_line_def um_simps)
    from 1(1) [OF this] 1(3) show False by simp
  qed
qed

text \<open>
  C40. At the end of its input the shell never ends: \<open>main\<close> tests the result of \<open>gets\<close> for null to detect the end of the input, but
  \<open>gets\<close> returns its argument. When reads of the standard input return no more bytes, the loop prints prompts forever and
  \<open>main\<close> has no result.
\<close>

theorem eafitos_eof_never_ends:
  assumes "\<And>w. fst (fst (o_read os 0 1 w)) < 1"
  shows "eafitos_main os w = None"
proof (rule ccontr)
  assume "eafitos_main os w \<noteq> None"
  then obtain y where y: "eafitos_main os w = Some y" by auto
  have "runs_on (print_banner os eaf_init)"
    unfolding print_banner_def by (intro runs_on_ubind runs_on_printf runs_on_print_all)
  from runs_on_next [OF this y [unfolded eafitos_main_def]]
  obtain w0 z where "main_loop os (replicate MAXLINE 0) eaf_init w0 = Some z"
    by (cases y) (auto simp: ubind_eq_Some)
  from main_loop_eof [OF this] assms show False by (simp add: MAXLINE_def)
qed

text \<open>
  C33. One round of the shell, whatever is typed and whatever the system calls answer: the arrays keep their sizes and stay NUL-terminated,
  the history keeps its invariant, and the shell asks to exit exactly if the first word of the line is \<open>salir\<close>. The
  state the shell starts in is well formed.
\<close>

theorem shell_round:
  assumes "eaf_ok s" and "holds_string MAXLINE line"
    and "gets os line MAXLINE w = Some (Inr line1, w1)" and "do_line os line1 s w1 = Some (Inr (ex, line2, s2), w2)"
  shows "eaf_ok s2 \<and> holds_string MAXLINE line2 \<and> (ex \<longleftrightarrow> (\<exists>ws. words (rstrip (cstring line1)) = salir # ws)) \<and>
    eaf_ok eaf_init"
proof -
  have "holds_string MAXLINE line1"
    using gets_post [of line MAXLINE os] assms(2,3) by (auto simp: post_def holds_string_def MAXLINE_def)
  from do_line_post [OF assms(1) this, of os] assms(4) eaf_ok_init show ?thesis by (fastforce simp: post_def)
qed

section \<open>The calculator\<close>

lemma digit_loop_10: "digit_loop udigits 10 x = digit_loop digits 10 x"
proof (induction x rule: less_induct)
  case (less x)
  have "udigits ! (x mod 10) = digits ! (x mod 10)"
  proof -
    have "take 10 udigits = take 10 digits" by (simp add: digits_def udigits_def str_def)
    then have "take 10 udigits ! (x mod 10) = take 10 digits ! (x mod 10)" by simp
    then show ?thesis by simp
  qed
  moreover have "x div 10 \<noteq> 0 \<Longrightarrow> digit_loop udigits 10 (x div 10) = digit_loop digits 10 (x div 10)"
    by (intro less) auto
  ultimately show ?case by (subst (1 2) digit_loop.simps) auto
qed

lemma digit_loop_10_set: "set (digit_loop digits 10 x) \<subseteq> set (take 10 digits)"
proof (induction x rule: less_induct)
  case (less x)
  have "digits ! (x mod 10) \<in> set (take 10 digits)"
    using digits_simps(1) by (auto simp: in_set_conv_nth intro!: exI [of _ "x mod 10"])
  moreover have "x div 10 \<noteq> 0 \<Longrightarrow> set (digit_loop digits 10 (x div 10)) \<subseteq> set (take 10 digits)"
    by (intro less) auto
  ultimately show ?case by (subst digit_loop.simps) auto
qed

lemma parse_digits_read:
  "set s \<subseteq> set (take 10 digits) \<Longrightarrow> parse_digits s (of_nat v) = Some (of_nat (foldl (\<lambda>a c. a * 10 + digit_val digits c) v s))"
proof (induction s arbitrary: v)
  case (Cons c s)
  have c: "c \<in> {48, 49, 50, 51, 52, 53, 54, 55, 56, 57}"
    using Cons.prems by (auto simp: digits_def str_def of_char_def)
  then have "\<not> (c < chr CHR ''0'' \<or> c > chr CHR ''9'')" by (auto simp: chr_def of_char_def)
  moreover have "ucast c - ucast (chr CHR ''0'') = (of_nat (digit_val digits c) :: u32)"
    using c by (auto simp: chr_def of_char_def digit_val_def digits_def str_def)
  ultimately have "parse_digits (c # s) (of_nat v) = parse_digits s (of_nat (v * 10 + digit_val digits c))" by simp
  also have "\<dots> = Some (of_nat (foldl (\<lambda>a c. a * 10 + digit_val digits c) (v * 10 + digit_val digits c) s))"
    by (rule Cons.IH) (use Cons.prems in simp)
  finally show ?case by simp
qed simp

lemma sint_word_of_int_id: "- (2 ^ (LENGTH('a) - 1)) \<le> z \<Longrightarrow> z < 2 ^ (LENGTH('a) - 1) \<Longrightarrow> sint (word_of_int z :: 'a::len word) = z"
  by (simp add: signed_take_bit_int_eq_self sint_sbintrunc')

lemma decimal_eq:
  assumes "- (2 ^ 63) \<le> z" and "z < 2 ^ 63"
  shows "decimal z = (if z < 0 then [chr CHR ''-''] else []) @ rev (digit_loop digits 10 (nat \<bar>z\<bar>))"
proof -
  have s: "sint (word_of_int z :: u64) = z" using assms by (intro sint_word_of_int_id) auto
  have "z < 0 \<Longrightarrow> unat (- word_of_int z :: u64) = nat \<bar>z\<bar>" using neg_magnitude [of "word_of_int z"] s by simp
  moreover have "\<not> z < 0 \<Longrightarrow> unat (word_of_int z :: u64) = nat \<bar>z\<bar>"
    using uint_of_sint [of "word_of_int z"] s by (simp add: unat_eq_nat_uint)
  ultimately show ?thesis by (simp add: decimal_def printint_def s digit_loop_10)
qed

lemma parse_int_decimal:
  assumes "- (2 ^ 31) \<le> z" and "z < 2 ^ 31"
  shows "parse_int (decimal z) = Some (word_of_int z)"
proof -
  let ?ds = "rev (digit_loop digits 10 (nat \<bar>z\<bar>))"
  have e: "decimal z = (if z < 0 then [chr CHR ''-''] else []) @ ?ds" using assms by (intro decimal_eq) auto
  have sub: "set ?ds \<subseteq> set (take 10 digits)" using digit_loop_10_set by simp
  obtain d ds where ds: "?ds = d # ds" by (cases ?ds) auto
  then have d: "d \<noteq> 0" "d \<noteq> chr CHR ''-''" using sub by (auto simp: digits_def str_def chr_def of_char_def)
  have "parse_digits ?ds 0 = Some (of_nat (nat \<bar>z\<bar>))"
    using parse_digits_read [OF sub, of 0] digit_loop_value [of 10 "nat \<bar>z\<bar>"] by (simp add: read_nat_def)
  then have "parse_digits (d # ds) 0 = Some (of_nat (nat \<bar>z\<bar>))" by (simp only: ds)
  then show ?thesis unfolding parse_int_def e ds using d by (auto simp: Let_def chr_def of_char_def)
qed

definition calc_value :: "byte \<Rightarrow> int \<Rightarrow> int \<Rightarrow> int" where
  "calc_value op x y =
     (if op = chr CHR ''+'' then x + y else if op = chr CHR ''-'' then x - y else if op = chr CHR ''*'' then x * y
      else if op = chr CHR ''/'' then x sdiv y else x smod y)"

lemma calc_op_value:
  assumes "- (2 ^ 31) \<le> x" "x < 2 ^ 31" "- (2 ^ 31) \<le> y" "y < 2 ^ 31"
  shows "calc_op op (word_of_int x) (word_of_int y) = word_of_int (calc_value op x y)"
proof -
  have "sint (word_of_int x :: u32) = x" "sint (word_of_int y :: u32) = y"
    using assms by (auto intro!: sint_word_of_int_id)
  then show ?thesis by (simp add: calc_op_def calc_value_def)
qed

lemma decimal_line: "uprintf os (str ''%d'' @ [10]) [PInt (scast (r :: u32))] = putcs os 1 (decimal (sint r) @ [10])"
proof -
  have "va_int 32 True (scast r) = word_of_int (sint r)"
    unfolding va_int_def by simp (rule bit_word_eqI, auto simp: bit_simps)
  then show ?thesis by (simp add: uprintf_def fprintf_def fmt_simps of_char_def decimal_def)
qed

text \<open>
  C39. The calculator computes: for any two 32-bit numbers written in decimal and any of the five operators (and a divisor other
  than zero), if the exact result fits in an \<open>int\<close>, \<open>calc\<close> prints it in decimal. Division truncates towards zero.
\<close>

theorem calc_computes:
  assumes "- (2 ^ 31) \<le> x" "x < 2 ^ 31" "- (2 ^ 31) \<le> y" "y < 2 ^ 31"
    and op: "op \<in> set (str ''+-*/%'')" and nz: "op \<in> set (str ''/%'') \<Longrightarrow> y \<noteq> 0"
    and fits: "- (2 ^ 31) \<le> calc_value op x y" "calc_value op x y < 2 ^ 31"
  shows "cmd_calc os [str ''calc'', decimal x, [op], decimal y] s =
    ok (putcs os 1 (decimal (calc_value op x y) @ [10])) s"
proof -
  have y0: "\<not> (op \<in> set (str ''/%'') \<and> (word_of_int y :: u32) = 0)"
    using nz assms(3,4) sint_word_of_int_id [of y, where 'a = 32] by auto
  have "op \<noteq> 0" using op by (auto simp: str_def of_char_def)
  then have l: "ustrlen [op] = 1" by (simp add: ustrlen_eq)
  have v: "sint (word_of_int (calc_value op x y) :: u32) = calc_value op x y"
    using fits by (intro sint_word_of_int_id) auto
  show ?thesis
    unfolding cmd_calc_def using op y0 l
    by (auto simp: parse_int_decimal [OF assms(1,2)] parse_int_decimal [OF assms(3,4)] calc_op_value [OF assms(1-4)]
        decimal_line v Let_def)
qed

theorem calc_computes_witness:
  "cmd_calc tape_os [str ''calc'', decimal (-7), [chr CHR ''/''], decimal 2] eaf_init = ok (putcs tape_os 1 (decimal (-3) @ [10])) eaf_init"
  using calc_computes [of "-7" 2 "chr CHR ''/''" tape_os eaf_init]
  by (simp add: calc_value_def chr_def of_char_def str_def signed_divide_int_def)

text \<open>A concrete round and a system whose input has ended.\<close>

theorem eafitos_eof_never_ends_witness:
  "eafitos_main (tape_os\<lparr>o_read := \<lambda>_ _. Pair (0, [])\<rparr>) ([], []) = None"
  by (rule eafitos_eof_never_ends) simp

lemma find_salir: "find_command salir (COMMANDS os) = Some (cmd_salir os)"
  by (simp add: COMMANDS_def streq_def strcmp_eq_0 salir_def fmt_simps of_char_def)

lemma do_line_salir:
  assumes "words (rstrip (cstring line)) = salir # ws"
  shows "\<exists>line2. do_line os line s w = Some (Inr (True, line2, history_add (rstrip_newlines line) s), w)"
proof -
  let ?l = "rstrip_newlines line"
  let ?p = "parse_line ?l MAXARGS"
  have l: "cstring ?l = rstrip (cstring line)" by (rule rstrip_newlines_string)
  have "set salir \<subseteq> set (cstring ?l)" using words_subset [of salir "rstrip (cstring line)"] assms l by simp
  then have b: "\<not> is_blank ?l" by (auto simp: is_blank_iff salir_def str_def of_char_def)
  have "arg_strings (fst ?p) (snd ?p) = take (MAXARGS - 1) (salir # ws)"
    unfolding assms [symmetric] l [symmetric] using parse_loop_words [of ?l 0 "[]" MAXARGS]
    by (cases "parse_loop ?l 0 [] MAXARGS") (simp add: parse_line_def args_done_def arg_strings_def)
  then have "arg_strings (fst ?p) (snd ?p) = salir # take 30 ws" by (simp add: MAXARGS_def)
  then show ?thesis using b
    by (simp add: do_line_def Let_def split_beta dispatch_def find_salir cmd_salir_def um_simps)
qed

text \<open>
  The command \<open>salir\<close> ends the shell: if the line read after the prompt has \<open>salir\<close> as its first word, the main loop ends at
  once, with the line in the history and no further system call.
\<close>

lemma salir_ends_shell:
  assumes "ubind (print_prompt os s) (\<lambda>_. gets os line MAXLINE) w = Some (Inr line1, w1)"
    and "words (rstrip (cstring line1)) = salir # ws"
  shows "main_loop os line s w = Some (Inr (history_add (rstrip_newlines line1) s), w1)"
proof -
  obtain line2 where "do_line os line1 s w1 = Some (Inr (True, line2, history_add (rstrip_newlines line1) s), w1)"
    using do_line_salir [OF assms(2), of os s w1] by blast
  moreover obtain w0 where "print_prompt os s w = Some (Inr (), w0)" "gets os line MAXLINE w0 = Some (Inr line1, w1)"
    using assms(1) by (auto simp: ubind_eq_Inr)
  ultimately show ?thesis by (subst main_loop.simps) (simp add: ubind_run)
qed

lemma blit_Cons: "i < length buf \<Longrightarrow> blit buf i (c # l) = blit (buf[i := c]) (Suc i) l"
  by (simp add: blit_def take_Suc_conv_app_nth)

lemma blit_Nil: "blit buf i [] = buf"
  by (simp add: blit_def)

lemma gets_loop_tape:
  "10 \<notin> set l \<Longrightarrow> 13 \<notin> set l \<Longrightarrow> i + length l + 1 < length buf \<Longrightarrow>
   gets_loop tape_os buf (length buf) i (l @ 10 # rest, out) = Some (Inr (blit buf i (l @ [10]), i + length l + 1), (rest, out))"
proof (induction l arbitrary: i buf)
  case Nil
  then show ?case by (subst gets_loop.simps) (simp add: um_simps tape_os_def blit_Cons blit_Nil)
next
  case (Cons c l)
  have "gets_loop tape_os (buf[i := c]) (length (buf[i := c])) (Suc i) (l @ 10 # rest, out) =
    Some (Inr (blit (buf[i := c]) (Suc i) (l @ [10]), Suc i + length l + 1), (rest, out))"
    using Cons.prems by (intro Cons.IH) auto
  then show ?case using Cons.prems by (subst gets_loop.simps) (simp add: um_simps tape_os_def blit_Cons)
qed

lemma gets_tape:
  assumes "10 \<notin> set l" "13 \<notin> set l" "0 \<notin> set l" "length l + 1 < length buf"
  shows "\<exists>b. gets tape_os buf (length buf) (l @ 10 # rest, out) = Some (Inr b, (rest, out)) \<and> cstring b = l @ [10]"
  using gets_loop_tape [of l 0 buf rest out] store_string(1) [of buf "length buf" 0 "l @ [10]"] assms
  by (simp add: gets_def ubind_run um_simps)

lemma salir_line: "words (rstrip (salir @ [10])) = salir # []"
  by (simp add: rstrip_def salir_def words_def str_def of_char_def is_sep_def)

lemma salir_typed:
  "\<exists>b. gets tape_os (replicate MAXLINE 0) MAXLINE (salir @ [10], out) = Some (Inr b, ([], out)) \<and>
     words (rstrip (cstring b)) = [salir]"
  using gets_tape [of salir "replicate MAXLINE 0" "[]" out] salir_line
  by (auto simp: salir_def str_def of_char_def MAXLINE_def)

theorem shell_round_witness:
  "\<exists>line1 w1 ex line2 s2 w2. gets tape_os (replicate MAXLINE 0) MAXLINE (salir @ [10], []) = Some (Inr line1, w1) \<and>
     do_line tape_os line1 eaf_init w1 = Some (Inr (ex, line2, s2), w2) \<and> ex \<and> eaf_ok s2"
proof -
  obtain b where b: "gets tape_os (replicate MAXLINE 0) MAXLINE (salir @ [10], []) = Some (Inr b, ([], []))"
    "words (rstrip (cstring b)) = [salir]" using salir_typed by blast
  obtain line2 s2 where d: "do_line tape_os b eaf_init ([], []) = Some (Inr (True, line2, s2), ([], []))"
    using do_line_salir [OF b(2), of tape_os eaf_init "([], [])"] by blast
  have "holds_string MAXLINE (replicate MAXLINE 0)" by (simp add: holds_string_def MAXLINE_def)
  from shell_round [OF eaf_ok_init this b(1) d] b(1) d show ?thesis by blast
qed

end
