(* ===== verification/EafitosCwd.thy ===== *)
theory EafitosCwd
  imports EafitosSpec
begin

text \<open>
  \<open>getcwd_xv6\<close> finds the path of the current directory by walking up through \<open>..\<close> and looking the inode numbers up
  in the parents. The files it opens and reads are given by what the system calls answer, with the hypothesis
  \<open>serves\<close>: \<open>open\<close>, \<open>fstat\<close>, \<open>read\<close> and \<open>close\<close> work on a table of descriptors over a fixed tree of names.
\<close>

section \<open>What the system calls promise\<close>

type_synonym node = "stat \<times> byte list"

definition serves :: "'w os \<Rightarrow> (byte list \<Rightarrow> node option) \<Rightarrow> ('w \<Rightarrow> int \<Rightarrow> (node \<times> nat) option) \<Rightarrow> bool" where
  "serves os tree fdt \<longleftrightarrow>
     (\<forall>p w n. tree p = Some n \<and> finite (dom (fdt w)) \<and> card (dom (fdt w)) < NOFILE \<longrightarrow>
        (case o_open os p O_RDONLY w of (fd, w1) \<Rightarrow> fd \<ge> 0 \<and> fdt w fd = None \<and> fdt w1 = (fdt w)(fd \<mapsto> (n, 0)))) \<and>
     (\<forall>fd w st c off. fdt w fd = Some ((st, c), off) \<longrightarrow>
        (case o_fstat os fd w of ((r, st1), w1) \<Rightarrow> r = 0 \<and> st1 = st \<and> fdt w1 = fdt w) \<and>
        (\<forall>n. case o_read os fd n w of ((r, bs), w1) \<Rightarrow> bs = take n (drop off c) \<and> r = int (length bs) \<and>
           fdt w1 = (fdt w)(fd \<mapsto> ((st, c), off + length bs))) \<and>
        (case o_close os fd w of (r, w1) \<Rightarrow> r = 0 \<and> fdt w1 = (fdt w)(fd := None)))"

lemma serves_open:
  assumes "serves os tree fdt" and "tree p = Some n" and "finite (dom (fdt w))" and "card (dom (fdt w)) < NOFILE"
  obtains fd w1 where "o_open os p O_RDONLY w = (fd, w1)" "fd \<ge> 0" "fdt w fd = None" "fdt w1 = (fdt w)(fd \<mapsto> (n, 0))"
proof -
  have "case o_open os p O_RDONLY w of (fd, w1) \<Rightarrow> fd \<ge> 0 \<and> fdt w fd = None \<and> fdt w1 = (fdt w)(fd \<mapsto> (n, 0))"
    using assms(1) [unfolded serves_def, THEN conjunct1, rule_format, of p n w] assms(2-4) by simp
  then show ?thesis using that by (cases "o_open os p O_RDONLY w") simp
qed

lemmas serves_fd = serves_def [THEN iffD1, THEN conjunct2, rule_format]

lemma serves_fstat:
  assumes "serves os tree fdt" and "fdt w fd = Some ((st, c), off)"
  obtains w1 where "o_fstat os fd w = ((0, st), w1)" "fdt w1 = fdt w"
proof -
  obtain r st1 w1 where r: "o_fstat os fd w = ((r, st1), w1)" by (metis surj_pair)
  show ?thesis using serves_fd [OF assms, THEN conjunct1] r that by simp
qed

lemma serves_read:
  assumes "serves os tree fdt" and "fdt w fd = Some ((st, c), off)"
  obtains w1 where "o_read os fd n w = ((int (length (take n (drop off c))), take n (drop off c)), w1)"
    "fdt w1 = (fdt w)(fd \<mapsto> ((st, c), off + length (take n (drop off c))))"
proof -
  obtain r bs w1 where r: "o_read os fd n w = ((r, bs), w1)" by (metis surj_pair)
  show ?thesis using serves_fd [OF assms, THEN conjunct2, THEN conjunct1, rule_format, of n] r that by simp
qed

lemma serves_close:
  assumes "serves os tree fdt" and "fdt w fd = Some ((st, c), off)"
  obtains w1 where "o_close os fd w = (0, w1)" "fdt w1 = (fdt w)(fd := None)"
proof -
  obtain r w1 where r: "o_close os fd w = (r, w1)" by (metis surj_pair)
  show ?thesis using serves_fd [OF assms, THEN conjunct2, THEN conjunct2] r that by simp
qed

section \<open>Looking an inode up in a directory\<close>

function dirents :: "byte list \<Rightarrow> byte list list" where
  "dirents c = (if length c < 16 then [] else take 16 c # dirents (drop 16 c))"
  by pat_completeness auto
termination by (relation "measure length") auto

declare dirents.simps [simp del]

definition names_inode :: "u32 \<Rightarrow> byte list \<Rightarrow> bool" where
  "names_inode ino de \<longleftrightarrow> de_inum de \<noteq> 0 \<and> \<not> special_name (entry_name de) \<and> ucast (de_inum de) = ino"

lemma find_entry_run:
  assumes "serves os tree fdt" and "fdt w fd = Some ((st, c), off)"
  shows "\<exists>w1 off1. find_entry os fd ino found w =
      Some (Inr (case List.find (names_inode ino) (dirents (drop off c)) of
         None \<Rightarrow> found | Some de \<Rightarrow> snd (safe_copy found 15 (entry_name de))), w1) \<and>
    fdt w1 = (fdt w)(fd \<mapsto> ((st, c), off1))"
  using assms(2)
proof (induction "length (drop off c)" arbitrary: off w rule: less_induct)
  case less
  let ?bs = "take 16 (drop off c)"
  obtain w1 where w1: "o_read os fd 16 w = ((int (length ?bs), ?bs), w1)" "fdt w1 = (fdt w)(fd \<mapsto> ((st, c), off + length ?bs))"
    by (rule serves_read [OF assms(1) less.prems, of 16])
  show ?case
  proof (cases "length (drop off c) < 16")
    case True
    then have "find_entry os fd ino found w = Some (Inr found, w1)"
      by (subst find_entry.simps) (simp add: um_simps w1)
    with True w1 show ?thesis by (subst dirents.simps) auto
  next
    case False
    then have l: "length ?bs = 16" by simp
    then have w2: "fdt w1 fd = Some ((st, c), off + 16)" using w1 by simp
    have d: "dirents (drop off c) = ?bs # dirents (drop (off + 16) c)"
      using False by (subst dirents.simps) (simp add: add.commute)
    show ?thesis
    proof (cases "names_inode ino ?bs")
      case True
      then have "find_entry os fd ino found w = Some (Inr (snd (safe_copy found 15 (entry_name ?bs))), w1)"
        using l by (subst find_entry.simps) (simp add: um_simps w1 names_inode_def)
      with True d w1 show ?thesis by auto
    next
      case no: False
      then have "find_entry os fd ino found w = find_entry os fd ino found w1"
        using l by (subst find_entry.simps) (auto simp: um_simps w1 names_inode_def)
      moreover have "length (drop (off + 16) c) < length (drop off c)" using False by simp
      from less.hyps [OF this w2] obtain w3 off1 where "find_entry os fd ino found w1 =
          Some (Inr (case List.find (names_inode ino) (dirents (drop (off + 16) c)) of
             None \<Rightarrow> found | Some de \<Rightarrow> snd (safe_copy found 15 (entry_name de))), w3)"
        "fdt w3 = (fdt w1)(fd \<mapsto> ((st, c), off1))" by blast
      ultimately show ?thesis using no d w1(2) by auto
    qed
  qed
qed

section \<open>Walking up\<close>

fun up :: "nat \<Rightarrow> byte list" where
  "up 0 = [46]"
| "up (Suc 0) = [46, 46]"
| "up (Suc (Suc j)) = up (Suc j) @ [47, 46, 46]"

lemma length_up: "length (up (Suc j)) = 3 * j + 2" and up_no_0: "0 \<notin> set (up j)"
  by (induction j rule: up.induct) auto

lemma parent_path_up:
  assumes "cstring anc = up j" and "j < 42"
  shows "fst (parent_path anc)" "cstring (snd (parent_path anc)) = up (Suc j)" "length (snd (parent_path anc)) = 128"
proof -
  let ?z = "replicate 128 (0 :: byte)"
  have dot: "streq anc (str ''.'') \<longleftrightarrow> j = 0"
    using assms by (cases j rule: up.cases) (auto simp: streq_def strcmp_eq_0 fmt_simps of_char_def dest: arg_cong [where f = length])
  have dd: "cstring (str ''..'') = up 1" by (simp add: fmt_simps of_char_def)
  have sl: "cstring (str ''/..'') = [47, 46, 46]" by (simp add: fmt_simps of_char_def)
  have "fst (parent_path anc) \<and> cstring (snd (parent_path anc)) = up (Suc j) \<and> length (snd (parent_path anc)) = 128"
  proof (cases j)
    case 0
    then show ?thesis using safe_copy_cases [of ?z 128 "str ''..''"] dd dot by (auto simp: parent_path_def holds_string_def)
  next
    case (Suc i)
    have l: "length (up j) = 3 * i + 2" unfolding Suc by (rule length_up)
    let ?c = "safe_copy ?z 128 anc"
    have c: "fst ?c" "cstring (snd ?c) = up j" "length (snd ?c) = 128"
      using safe_copy_cases [of ?z 128 anc] assms l Suc by (auto simp: holds_string_def)
    have "fst (safe_cat (snd ?c) 128 (str ''/..''))" "cstring (snd (safe_cat (snd ?c) 128 (str ''/..''))) = up (Suc j)"
      "length (snd (safe_cat (snd ?c) 128 (str ''/..''))) = 128"
      using safe_cat_cases [OF c(3), of "str ''/..''"] c(2) sl l assms(2) Suc by (auto simp: holds_string_def)
    then show ?thesis using c(1) dot Suc by (cases ?c) (simp add: parent_path_def)
  qed
  then show "fst (parent_path anc)" "cstring (snd (parent_path anc)) = up (Suc j)" "length (snd (parent_path anc)) = 128"
    by auto
qed

text \<open>
  The directories from the root down to the current one, with the names that lead from each to the next, as seen through the
  paths of \<open>..\<close>: each parent is another inode, and the first entry with the child's inode number has the name.
\<close>

definition chain :: "(byte list \<Rightarrow> node option) \<Rightarrow> node list \<Rightarrow> byte list list \<Rightarrow> bool" where
  "chain tree dirs ns \<longleftrightarrow> (let k = length ns in
     length dirs = Suc k \<and> tree (up (Suc k)) = Some (dirs ! 0) \<and> (\<forall>j \<le> k. tree (up j) = Some (dirs ! (k - j))) \<and>
     (\<forall>i < k. ns ! i \<noteq> [] \<and> length (ns ! i) \<le> DIRSIZ \<and>
        (st_ino (fst (dirs ! Suc i)) \<noteq> st_ino (fst (dirs ! i)) \<or> st_dev (fst (dirs ! Suc i)) \<noteq> st_dev (fst (dirs ! i))) \<and>
        (\<exists>de. List.find (names_inode (st_ino (fst (dirs ! Suc i)))) (dirents (snd (dirs ! i))) = Some de \<and>
           cstring (entry_name de) = ns ! i)))"

lemma close_back:
  assumes "serves os tree fdt" and "fdt w = f0(fd \<mapsto> ((st, c), off))" and "f0 fd = None"
  obtains w1 where "o_close os fd w = (0, w1)" "fdt w1 = f0"
proof -
  have "fdt w fd = Some ((st, c), off)" using assms(2) by simp
  from serves_close [OF assms(1) this] obtain w1 where w1: "o_close os fd w = (0, w1)" "fdt w1 = (fdt w)(fd := None)" .
  moreover have "(fdt w)(fd := None) = f0" unfolding assms(2) by (rule ext) (simp add: assms(3))
  ultimately show ?thesis using that by simp
qed

text \<open>Opening a path, asking for its status and closing it changes no descriptor.\<close>

lemma open_fstat:
  assumes "serves os tree fdt" and "tree p = Some (st, c)" and "finite (dom (fdt w))" "card (dom (fdt w)) < NOFILE"
  obtains fd w1 w2 where "o_open os p O_RDONLY w = (fd, w1)" "\<not> fd < 0" "o_fstat os fd w1 = ((0, st), w2)"
    "fdt w fd = None" "fdt w2 = (fdt w)(fd \<mapsto> ((st, c), 0))"
proof -
  obtain fd w1 where 1: "o_open os p O_RDONLY w = (fd, w1)" "fd \<ge> 0" "fdt w fd = None" "fdt w1 = (fdt w)(fd \<mapsto> ((st, c), 0))"
    by (rule serves_open [OF assms])
  then have f: "fdt w1 fd = Some ((st, c), 0)" by simp
  obtain w2 where "o_fstat os fd w1 = ((0, st), w2)" "fdt w2 = fdt w1" by (rule serves_fstat [OF assms(1) f])
  with 1 show ?thesis using that by simp
qed

lemma cwd_loop_run:
  assumes s: "serves os tree fdt" and c: "chain tree dirs ns" and fin: "finite (dom f0)" "card (dom f0) < NOFILE"
  shows "\<lbrakk>cstring anc = up j; length anc = 128; map cstring comps = take j (rev ns); j \<le> length ns; length comps = j; j \<le> 32;
      fdt w = f0\<rbrakk> \<Longrightarrow>
    \<exists>w1 cs. cwd_loop os anc comps w = Some (Inr cs, w1) \<and> map cstring cs = take 32 (rev ns) \<and> fdt w1 = f0"
proof (induction "length ns - j" arbitrary: j anc comps w rule: less_induct)
  case less
  let ?k = "length ns"
  obtain sc cc where cur: "dirs ! (?k - j) = (sc, cc)" by force
  obtain sp cp where par: "dirs ! (?k - j - 1) = (sp, cp)" by force
  let ?pp = "snd (parent_path anc)"
  note pp = parent_path_up [OF less.prems(1)]
  have j42: "j < 42" using less.prems by simp
  have tc: "tree (up j) = Some (sc, cc)" using c less.prems cur by (simp add: chain_def Let_def)
  have tp: "tree (up (Suc j)) = Some (sp, cp)"
    using c less.prems par by (cases "j = ?k") (auto simp: chain_def Let_def)
  obtain fd1 w1 w2 where 1: "o_open os (up j) O_RDONLY w = (fd1, w1)" "\<not> fd1 < 0" "o_fstat os fd1 w1 = ((0, sc), w2)"
    "fdt w fd1 = None" "fdt w2 = (fdt w)(fd1 \<mapsto> ((sc, cc), 0))"
    by (rule open_fstat [OF s tc]) (use fin less.prems in auto)
  obtain w3 where 3: "o_close os fd1 w2 = (0, w3)" "fdt w3 = f0"
    by (rule close_back [OF s 1(5) 1(4)]) (use less.prems in simp)
  obtain fd2 w4 w5 where 5: "o_open os (up (Suc j)) O_RDONLY w3 = (fd2, w4)" "\<not> fd2 < 0" "o_fstat os fd2 w4 = ((0, sp), w5)"
    "fdt w3 fd2 = None" "fdt w5 = (fdt w3)(fd2 \<mapsto> ((sp, cp), 0))"
    by (rule open_fstat [OF s tp]) (use fin 3 in auto)
  then have f2: "fdt w5 fd2 = Some ((sp, cp), 0)" by simp
  note run = 1 3(1) 5 less.prems(1) pp(1,2) [OF j42]
  show ?case
  proof (cases "j = ?k")
    case True
    obtain w6 where 6: "o_close os fd2 w5 = (0, w6)" "fdt w6 = f0"
      by (rule close_back [OF s 5(5,4)]) (use 3 in simp)
    have same: "sp = sc" using True cur par by simp
    have "cwd_loop os anc comps w = Some (Inr comps, w6)"
      by (subst cwd_loop.simps) (simp add: um_simps run 6 Let_def same)
    with True less.prems 6 show ?thesis by auto
  next
    case False
    then have jk: "j < ?k" using less.prems by simp
    define i where "i = ?k - j - 1"
    have ik: "?k - j = Suc i" "i < ?k" using jk by (auto simp: i_def)
    have ch: "ns ! i \<noteq> []" "length (ns ! i) \<le> DIRSIZ"
      "st_ino sc \<noteq> st_ino sp \<or> st_dev sc \<noteq> st_dev sp"
      "\<exists>de. List.find (names_inode (st_ino sc)) (dirents cp) = Some de \<and> cstring (entry_name de) = ns ! i"
      using c ik cur par by (auto simp: chain_def Let_def i_def)
    then obtain de where de: "List.find (names_inode (st_ino sc)) (dirents cp) = Some de"
      "cstring (entry_name de) = ns ! i" by blast
    define found where "found = snd (safe_copy (replicate 15 0) 15 (entry_name de))"
    have fnd: "cstring found = ns ! i" "length found = 15"
      using safe_copy_cases [of "replicate 15 0" 15 "entry_name de"] ch(2) de(2) by (auto simp: found_def holds_string_def)
    then have f0: "char_at found 0 \<noteq> 0" using ch(1) by (cases found) (auto split: if_splits)
    obtain w6 off where 6: "find_entry os fd2 (st_ino sc) (replicate 15 0) w5 = Some (Inr found, w6)"
      "fdt w6 = (fdt w5)(fd2 \<mapsto> ((sp, cp), off))"
      using find_entry_run [OF s f2, of "st_ino sc" "replicate 15 0"] de(1) by (auto simp: found_def)
    then have f6: "fdt w6 = (fdt w3)(fd2 \<mapsto> ((sp, cp), off))" using 5(5) by simp
    obtain w7 where 7: "o_close os fd2 w6 = (0, w7)" "fdt w7 = f0"
      by (rule close_back [OF s f6 5(4)]) (use 3 in simp)
    have same: "\<not> (st_ino sc = st_ino sp \<and> st_dev sc = st_dev sp)" using ch(3) by simp
    show ?thesis
    proof (cases "j = 32")
      case True
      have "length comps \<ge> 32" using True less.prems(5) by simp
      then have "cwd_loop os anc comps w = Some (Inr comps, w7)"
        using same f0 by (subst cwd_loop.simps) (auto simp: um_simps run ubind_run(1) 6(1) 7 Let_def)
      with True less.prems 7 show ?thesis by auto
    next
      case j32: False
      let ?comps = "comps @ [snd (safe_copy (replicate 15 0) 15 found)]" and ?anc = "safe_copy anc 128 ?pp"
      have sc: "cstring (snd (safe_copy (replicate 15 0) 15 found)) = ns ! i"
        using safe_copy_cases [of "replicate 15 0" 15 found] fnd ch(2) by auto
      have "length (up (Suc j)) < 128" using j42 length_up [of j] by simp
      then have an: "fst ?anc" "cstring (snd ?anc) = up (Suc j)" "length (snd ?anc) = 128"
        using safe_copy_cases [OF less.prems(2), of ?pp] pp(2) [OF j42] by (auto simp: holds_string_def)
      have "\<not> length comps \<ge> 32" using j32 less.prems(5,6) by simp
      then have "cwd_loop os anc comps w = cwd_loop os (snd ?anc) ?comps w7"
        using same f0 an(1)
        by (subst cwd_loop.simps) (auto simp: um_simps run ubind_run(1) 6(1) 7 Let_def)
      moreover have "map cstring ?comps = take (Suc j) (rev ns)"
        using less.prems(3) sc jk by (simp add: take_Suc_conv_app_nth rev_nth i_def)
      ultimately show ?thesis
        using less.hyps [of "Suc j" "snd ?anc" ?comps w7] an less.prems(5,6) jk j32 7(2) by auto
    qed
  qed
qed

section \<open>Putting the path together\<close>

definition join :: "byte list list \<Rightarrow> byte list" where
  "join ns = concat (map (\<lambda>n. 47 # n) ns)"

definition path_of :: "byte list list \<Rightarrow> byte list" where
  "path_of ns = (if ns = [] then [47] else join ns)"

lemma cat_comps_run:
  "length out = n \<Longrightarrow> 2 \<le> length (cstring out) \<Longrightarrow> length (cstring out) < n \<Longrightarrow>
   (let r = cat_comps out n cs; p = cstring out @ join (map cstring cs) in
      (fst r \<longleftrightarrow> length p < n) \<and> (fst r \<longrightarrow> cstring (snd r) = p))"
proof (induction cs arbitrary: out)
  case Nil
  then show ?case by (simp add: join_def)
next
  case (Cons c cs)
  let ?o1 = "safe_cat out n (str ''/'')" let ?o2 = "safe_cat (snd ?o1) n c"
  let ?p = "cstring out @ join (map cstring (c # cs))"
  have ne: "\<not> streq out (str ''/'')" using Cons.prems(2) by (auto simp: streq_def strcmp_eq_0 fmt_simps of_char_def)
  have sl: "cstring (str ''/'') = [47]" by (simp add: fmt_simps of_char_def)
  have lp: "length ?p = length (cstring out) + 1 + length (cstring c) + length (join (map cstring cs))" by (simp add: join_def)
  consider "\<not> fst ?o1" "length (cstring out) + 1 \<ge> n"
    | "fst ?o1" "length (snd ?o1) = n" "cstring (snd ?o1) = cstring out @ [47]"
    using safe_cat_cases [OF Cons.prems(1), of "str ''/''"] by (auto simp: sl holds_string_def)
  then show ?case
  proof cases
    case 1
    then have "cat_comps out n (c # cs) = (False, snd ?o1)" using ne by (cases ?o1) simp
    with 1 lp show ?thesis by simp
  next
    case 2
    consider "\<not> fst ?o2" "length (cstring out) + 1 + length (cstring c) \<ge> n"
      | "fst ?o2" "length (snd ?o2) = n" "cstring (snd ?o2) = cstring out @ [47] @ cstring c" "length (cstring (snd ?o2)) < n"
      using safe_cat_cases [OF 2(2), of c] 2(3) by (auto simp: holds_string_def)
    then show ?thesis
    proof cases
      case 1
      then have "cat_comps out n (c # cs) = (False, snd ?o2)" using ne 2(1) by (cases ?o1; cases ?o2) simp
      with 1 lp show ?thesis by simp
    next
      case o2: 2
      have "cat_comps out n (c # cs) = cat_comps (snd ?o2) n cs" using ne 2(1) o2(1) by (cases ?o1; cases ?o2) simp
      moreover have "2 \<le> length (cstring (snd ?o2))" using o2(3) Cons.prems(2) by simp
      note Cons.IH [OF o2(2) this o2(4)]
      ultimately show ?thesis using o2(3) by (simp add: join_def Let_def)
    qed
  qed
qed

lemma cat_comps_path:
  assumes "length out = n" "cstring out = [47]" "1 < n" "[] \<notin> set (map cstring cs)"
  shows "let r = cat_comps out n cs; p = path_of (map cstring cs) in
    (fst r \<longleftrightarrow> length p < n) \<and> (fst r \<longrightarrow> cstring (snd r) = p)"
proof (cases cs)
  case Nil
  then show ?thesis using assms by (simp add: path_of_def)
next
  case (Cons c cs1)
  let ?o = "safe_cat out n c"
  have e: "streq out (str ''/'')" using assms(2) by (simp add: streq_def strcmp_eq_0 fmt_simps of_char_def)
  have c: "cstring c \<noteq> []" using assms(4) Cons by auto
  consider "\<not> fst ?o" "1 + length (cstring c) \<ge> n"
    | "fst ?o" "length (snd ?o) = n" "cstring (snd ?o) = [47] @ cstring c" "length (cstring (snd ?o)) < n"
    using safe_cat_cases [OF assms(1), of c] assms(2) by (auto simp: holds_string_def)
  then show ?thesis
  proof cases
    case 1
    then have "cat_comps out n cs = (False, snd ?o)" using e Cons by (cases ?o) simp
    with 1 show ?thesis by (simp add: path_of_def join_def Cons)
  next
    case 2
    have "cat_comps out n cs = cat_comps (snd ?o) n cs1" using e Cons 2(1) by (cases ?o) simp
    moreover have "2 \<le> length (cstring (snd ?o))" using 2(3) c by (cases "cstring c") auto
    note cat_comps_run [OF 2(2) this 2(4), of cs1]
    ultimately show ?thesis using 2(3) by (simp add: path_of_def join_def Cons Let_def)
  qed
qed

text \<open>
  C34. \<open>directorio\<close> reconstructs the path: when the names \<open>ns\<close> lead from the root to the current directory, \<open>getcwd_xv6\<close> returns the
  absolute path of the last 32 of them if it fits the 128 bytes of the caller, and fails otherwise; it leaves no descriptor
  open. So the path is right for directories at most 32 levels deep; deeper ones get a path that does not exist.
\<close>

theorem getcwd_path:
  assumes "serves os tree fdt" and "chain tree dirs ns" and "finite (dom (fdt w))" "card (dom (fdt w)) < NOFILE"
  shows "\<exists>r path w1. getcwd_xv6 os (replicate 128 0) 128 w = Some (Inr (r, path), w1) \<and> fdt w1 = fdt w \<and>
    (r \<longleftrightarrow> length (path_of (drop (length ns - 32) ns)) < 128) \<and>
    (r \<longrightarrow> cstring path = path_of (drop (length ns - 32) ns))"
proof -
  let ?dot = "snd (safe_copy (replicate 128 0) 128 (str ''.''))" and ?out = "snd (safe_copy (replicate 128 0) 128 (str ''/''))"
  have d: "cstring ?dot = up 0" "length ?dot = 128" "cstring ?out = [47]" "length ?out = 128"
    using safe_copy_cases [of "replicate 128 0" 128 "str ''.''"] safe_copy_cases [of "replicate 128 0" 128 "str ''/''"]
    by (auto simp: fmt_simps of_char_def holds_string_def)
  obtain w1 cs where cs: "cwd_loop os ?dot [] w = Some (Inr cs, w1)" "map cstring cs = take 32 (rev ns)" "fdt w1 = fdt w"
    using cwd_loop_run [OF assms(1,2) assms(3,4) d(1,2), of "[]" w] by auto
  have names: "map cstring (rev cs) = drop (length ns - 32) ns"
    using cs(2) by (metis rev_map rev_rev_ident rev_take length_rev)
  have "[] \<notin> set ns" using assms(2) by (auto simp: chain_def Let_def in_set_conv_nth)
  then have "[] \<notin> set (map cstring (rev cs))" unfolding names by (auto dest: in_set_dropD)
  from cat_comps_path [OF d(4,3) _ this] cs show ?thesis
    by (cases "cat_comps ?out 128 (rev cs)") (simp add: getcwd_xv6_def ubind_run(1) um_simps names Let_def)
qed

section \<open>A small tree\<close>

definition tree_os :: "(byte list \<Rightarrow> node option) \<Rightarrow> (int \<Rightarrow> (node \<times> nat) option) os" where
  "tree_os tree =
     \<lparr>o_fork = Pair (-1), o_wait = Pair (-1), o_pipe = Pair (-1, 0, 0), o_write = (\<lambda>fd bs. Pair (int (length bs))),
      o_read = (\<lambda>fd n f. case f fd of None \<Rightarrow> ((-1, []), f)
        | Some (nd, off) \<Rightarrow> let bs = take n (drop off (snd nd)) in ((int (length bs), bs), f(fd \<mapsto> (nd, off + length bs)))),
      o_close = (\<lambda>fd f. (0, f(fd := None))), o_kill = (\<lambda>_. Pair (-1)), o_exec = (\<lambda>_ _. Pair (Some (-1))),
      o_open = (\<lambda>p _ f. case tree p of None \<Rightarrow> (-1, f)
        | Some nd \<Rightarrow> (case List.find (\<lambda>fd. f fd = None) (map int [0..<NOFILE]) of
            None \<Rightarrow> (-1, f) | Some fd \<Rightarrow> (fd, f(fd \<mapsto> (nd, 0))))),
      o_mknod = (\<lambda>_ _ _. Pair (-1)), o_unlink = (\<lambda>_. Pair (-1)),
      o_fstat = (\<lambda>fd f. case f fd of
          None \<Rightarrow> ((-1, \<lparr>st_dev = 0, st_ino = 0, st_type = 0, st_nlink = 0, st_size = 0\<rparr>), f)
        | Some (nd, off) \<Rightarrow> ((0, fst nd), f)),
      o_link = (\<lambda>_ _. Pair (-1)), o_mkdir = (\<lambda>_. Pair (-1)), o_chdir = (\<lambda>_. Pair (-1)), o_dup = (\<lambda>_. Pair (-1)),
      o_getpid = Pair 1, o_sbrk = (\<lambda>_ _. Pair (-1)), o_uptime = Pair 0, o_trace = (\<lambda>_. Pair (-1))\<rparr>"

lemma free_descriptor:
  assumes "finite (dom f)" and "card (dom f) < NOFILE"
  shows "\<exists>fd. List.find (\<lambda>fd. f fd = None) (map int [0..<NOFILE]) = Some fd \<and> fd \<ge> 0 \<and> f fd = None"
proof -
  let ?l = "map int [0..<NOFILE]"
  have "\<not> set ?l \<subseteq> dom f"
  proof
    assume "set ?l \<subseteq> dom f"
    then have "card (set ?l) \<le> card (dom f)" using assms(1) by (intro card_mono)
    moreover have "card (set ?l) = NOFILE" by (simp add: card_image)
    ultimately show False using assms(2) by simp
  qed
  then have "List.find (\<lambda>fd. f fd = None) ?l \<noteq> None" by (auto simp: find_None_iff)
  then obtain fd where fd: "List.find (\<lambda>fd. f fd = None) ?l = Some fd" by auto
  then show ?thesis by (auto simp: find_Some_iff)
qed

lemma tree_os_serves: "serves (tree_os tree) tree (\<lambda>f. f)"
  unfolding serves_def
proof (intro conjI allI impI)
  fix p n and f :: "int \<Rightarrow> (node \<times> nat) option"
  assume a: "tree p = Some n \<and> finite (dom f) \<and> card (dom f) < NOFILE"
  then obtain fd where "List.find (\<lambda>fd. f fd = None) (map int [0..<NOFILE]) = Some fd" "fd \<ge> 0" "f fd = None"
    using free_descriptor by blast
  with a show "case o_open (tree_os tree) p O_RDONLY f of (fd, w1) \<Rightarrow> 0 \<le> fd \<and> f fd = None \<and> w1 = f(fd \<mapsto> (n, 0))"
    by (simp add: tree_os_def)
qed (simp_all add: tree_os_def Let_def)

definition demo_root :: node where
  "demo_root = (\<lparr>st_dev = 1, st_ino = 1, st_type = T_DIR, st_nlink = 1, st_size = 48\<rparr>,
     enc_dirent 1 [46] @ enc_dirent 1 [46, 46] @ enc_dirent 2 [97])"

definition demo_dir :: node where
  "demo_dir = (\<lparr>st_dev = 1, st_ino = 2, st_type = T_DIR, st_nlink = 1, st_size = 0\<rparr>, [])"

definition demo_tree :: "byte list \<Rightarrow> node option" where
  "demo_tree p = (if p = up 0 then Some demo_dir else if p = up 1 \<or> p = up 2 then Some demo_root else None)"

lemma dirents_Cons: "length d = 16 \<Longrightarrow> dirents (d @ r) = d # dirents r"
  by (subst dirents.simps) simp

lemma enc_dirent_decode:
  assumes "0 \<notin> set nm" and "length nm \<le> DIRSIZ"
  shows "length (enc_dirent n nm) = 16" "de_inum (enc_dirent n nm) = n" "cstring (entry_name (enc_dirent n nm)) = nm"
proof -
  have nm: "takeWhile (\<lambda>c. c \<noteq> 0) nm = nm" using assms(1) by (auto simp: takeWhile_eq_all_conv)
  show "length (enc_dirent n nm) = 16" by (simp add: enc_dirent_def)
  show "de_inum (enc_dirent n nm) = n" by (simp add: enc_dirent_def de_inum_def le_word_16)
  have "entry_name (enc_dirent n nm) = nm @ replicate (DIRSIZ - length nm) 0 @ [0]"
    using assms(2) by (simp add: entry_name_def de_name_def enc_dirent_def nm)
  also have "\<dots> = nm @ 0 # replicate (DIRSIZ - length nm) 0" by (simp add: replicate_app_Cons_same)
  finally show "cstring (entry_name (enc_dirent n nm)) = nm" using assms(1) by (simp add: cstring_append_0)
qed

lemma demo_chain: "chain demo_tree [demo_root, demo_dir] [[97]]"
proof -
  let ?e = "[enc_dirent 1 [46], enc_dirent 1 [46, 46], enc_dirent 2 [97]]"
  have "dirents (snd demo_root) = ?e"
    using dirents_Cons [of "enc_dirent 2 [97]" "[]"]
    by (simp add: demo_root_def dirents_Cons enc_dirent_decode(1) dirents.simps [of "[]"])
  moreover have "special_name (entry_name (enc_dirent 1 [46]))" "special_name (entry_name (enc_dirent 1 [46, 46]))"
    "\<not> special_name (entry_name (enc_dirent 2 [97]))"
    by (simp_all add: special_name_def streq_def strcmp_eq_0 enc_dirent_decode(3) fmt_simps of_char_def)
  ultimately have "List.find (names_inode 2) (dirents (snd demo_root)) = Some (enc_dirent 2 [97])"
    by (simp add: names_inode_def enc_dirent_decode(2))
  moreover have "cstring (entry_name (enc_dirent 2 [97])) = [97]" by (simp add: enc_dirent_decode(3))
  moreover have "j \<le> 1 \<Longrightarrow> demo_tree (up j) = Some ([demo_root, demo_dir] ! (1 - j))" for j
    by (cases j rule: up.cases) (auto simp: demo_tree_def)
  moreover have "st_ino (fst demo_dir) = 2" "st_ino (fst demo_root) = 1" by (simp_all add: demo_dir_def demo_root_def)
  ultimately show ?thesis
    by (simp add: chain_def Let_def) (simp add: demo_tree_def numeral_2_eq_2)
qed

theorem getcwd_path_witness:
  "\<exists>path w1. getcwd_xv6 (tree_os demo_tree) (replicate 128 0) 128 Map.empty = Some (Inr (True, path), w1) \<and>
     cstring path = [47, 97]"
  using getcwd_path [OF tree_os_serves demo_chain, of Map.empty]
  by (auto simp: path_of_def join_def NOFILE_def)

end
