(* ===== verification/Umalloc.thy ===== *)
theory Umalloc
  imports Ulib
begin

text \<open>
  \<^verbatim>\<open>user/umalloc.c\<close>: the memory allocator of user programs. Memory is seen through the headers: a pointer to a \<^verbatim>\<open>Header\<close> is its
  address in units of \<^verbatim>\<open>sizeof(Header)\<close> (16 bytes), and a record keeps the two fields of every header. Sizes are \<^verbatim>\<open>uint\<close>
  values, with the wrap-around of additions and of the argument of \<open>sbrk\<close> written out. A null pointer is \<open>None\<close>.
  The loops follow pointers, so they are partial functions. Every address can be loaded and stored: the page fault of an access to
  memory that \<open>sbrk\<close> has not given is not modelled, so the properties keep to requests for which \<open>malloc\<close> makes no such access.
\<close>

section \<open>The allocator\<close>

record uheap =
  hptr :: "nat \<Rightarrow> nat"
  hsize :: "nat \<Rightarrow> nat"
  freep :: "nat option"

text \<open>The static variable \<^verbatim>\<open>base\<close> lies in the data of the program, below the heap.\<close>

definition base :: nat where "base = 0x100"

definition set_ptr :: "nat \<Rightarrow> nat \<Rightarrow> uheap \<Rightarrow> uheap" where
  "set_ptr p q h = h\<lparr>hptr := (hptr h)(p := q)\<rparr>"

definition set_size :: "nat \<Rightarrow> nat \<Rightarrow> uheap \<Rightarrow> uheap" where
  "set_size p n h = h\<lparr>hsize := (hsize h)(p := n mod 2 ^ 32)\<rparr>"

text \<open>The two tests that end the search for the place of \<open>bp\<close>.\<close>

definition place_found :: "uheap \<Rightarrow> nat \<Rightarrow> nat \<Rightarrow> bool" where
  "place_found h bp p \<longleftrightarrow>
     bp > p \<and> bp < hptr h p \<or> p \<ge> hptr h p \<and> (bp > p \<or> bp < hptr h p)"

partial_function (option) find_place :: "uheap \<Rightarrow> nat \<Rightarrow> nat \<Rightarrow> nat option" where
  "find_place h bp p = (if place_found h bp p then Some p else find_place h bp (hptr h p))"

definition join_upper :: "nat \<Rightarrow> nat \<Rightarrow> uheap \<Rightarrow> uheap" where
  "join_upper bp p h =
     (if bp + hsize h bp = hptr h p then
        let h1 = set_size bp (hsize h bp + hsize h (hptr h p)) h in set_ptr bp (hptr h1 (hptr h1 p)) h1
      else set_ptr bp (hptr h p) h)"

definition join_lower :: "nat \<Rightarrow> nat \<Rightarrow> uheap \<Rightarrow> uheap" where
  "join_lower bp p h =
     (if p + hsize h p = bp then
        let h1 = set_size p (hsize h p + hsize h bp) h in set_ptr p (hptr h1 bp) h1
      else set_ptr p bp h)"

definition ufree :: "nat \<Rightarrow> uheap \<Rightarrow> uheap option" where
  "ufree ap h =
     (let bp = ap - 1 in
      case freep h of
        None \<Rightarrow> None
      | Some p0 \<Rightarrow> map_option (\<lambda>p. (join_lower bp p (join_upper bp p h))\<lparr>freep := Some p\<rparr>) (find_place h bp p0))"

definition morecore :: "'w os \<Rightarrow> nat \<Rightarrow> uheap \<Rightarrow> ('w, nat option \<times> uheap) um" where
  "morecore os nu h =
     (let nu1 = (if nu < 4096 then 4096 else nu) in
      ubind (sbrk os (of_nat (nu1 * 16))) (\<lambda>p.
        if p = -1 then ureturn (None, h)
        else let hp = unat p div 16 in
          case ufree (hp + 1) (set_size hp nu1 h) of
            None \<Rightarrow> (\<lambda>_. None)
          | Some h1 \<Rightarrow> ureturn (freep h1, h1)))"

definition take_block :: "nat \<Rightarrow> nat \<Rightarrow> nat \<Rightarrow> uheap \<Rightarrow> nat \<times> uheap" where
  "take_block nunits prevp p h =
     (let (q, h1) =
        (if hsize h p = nunits then (p, set_ptr prevp (hptr h p) h)
         else let h1 = set_size p (hsize h p - nunits) h; q = p + hsize h1 p in (q, set_size q nunits h1))
      in (q + 1, h1\<lparr>freep := Some prevp\<rparr>))"

partial_function (option) malloc_loop ::
  "'w os \<Rightarrow> nat \<Rightarrow> uheap \<Rightarrow> nat \<Rightarrow> nat \<Rightarrow> 'w \<Rightarrow> ((uend + nat option \<times> uheap) \<times> 'w) option" where
  "malloc_loop os nunits h prevp p w =
     (if hsize h p \<ge> nunits then
        case take_block nunits prevp p h of (ap, h1) \<Rightarrow> Some (Inr (Some ap, h1), w)
      else if Some p = freep h then
        ubind (morecore os nunits h) (\<lambda>(r, h1) w1.
          case r of None \<Rightarrow> Some (Inr (None, h1), w1) | Some q \<Rightarrow> malloc_loop os nunits h1 q (hptr h1 q) w1) w
      else malloc_loop os nunits h p (hptr h p) w)"

definition malloc :: "'w os \<Rightarrow> u32 \<Rightarrow> uheap \<Rightarrow> ('w, nat option \<times> uheap) um" where
  "malloc os nbytes h =
     (let nunits = (unat nbytes + 16 - 1) div 16 + 1;
          (prevp, h1) = (case freep h of
             None \<Rightarrow> (base, (set_size base 0 (set_ptr base base h))\<lparr>freep := Some base\<rparr>)
           | Some f \<Rightarrow> (f, h))
      in malloc_loop os nunits h1 prevp (hptr h1 prevp))"

end
