(* ===== verification/UmallocSpec.thy ===== *)
theory UmallocSpec
  imports Umalloc
begin

text \<open>
  The allocator's free list is a circular list of blocks in increasing order, starting at \<open>base\<close>, never adjacent to one another.
  Allocated and free blocks never overlap, and their sizes add up to a constant that only \<open>morecore\<close> increases. \<open>ufree\<close> keeps this
  invariant \<open>uinv\<close>, and ends.
\<close>

section \<open>Linked headers\<close>

primrec linked :: "uheap \<Rightarrow> nat list \<Rightarrow> nat \<Rightarrow> bool" where
  "linked h [] z = True"
| "linked h (x # r) z = (hptr h x = hd (r @ [z]) \<and> linked h r z)"

lemma linked_append: "linked h (us @ vs) z \<longleftrightarrow> linked h us (hd (vs @ [z])) \<and> linked h vs z"
  by (induction us) (auto simp: hd_append)

lemma linked_cong: "(\<And>x. x \<in> set xs \<Longrightarrow> hptr h1 x = hptr h2 x) \<Longrightarrow> linked h1 xs z = linked h2 xs z"
  by (induction xs) auto

lemma linked_frame: "linked h xs z \<Longrightarrow> (\<And>x. x \<in> set xs \<Longrightarrow> hptr h1 x = hptr h x) \<Longrightarrow> linked h1 xs z"
  using linked_cong [of xs h1 h z] by simp

lemma linked_last: "linked h xs z \<Longrightarrow> xs \<noteq> [] \<Longrightarrow> hptr h (last xs) = z"
  by (induction xs) (auto split: if_splits)

section \<open>The place of a block\<close>

lemma walk_up:
  "linked h (f # l @ vs) base \<Longrightarrow> sorted_wrt (<) (f # l) \<Longrightarrow> (\<forall>x \<in> set (f # l). x < bp) \<Longrightarrow> (\<forall>x \<in> set vs. bp < x) \<Longrightarrow>
   base \<le> f \<Longrightarrow> find_place h bp f = Some (last (f # l))"
proof (induction l arbitrary: f)
  case Nil
  then have "place_found h bp f" by (cases vs) (auto simp: place_found_def)
  then show ?case by (subst find_place.simps) simp
next
  case (Cons y l)
  then have "\<not> place_found h bp f" by (auto simp: place_found_def)
  moreover have "find_place h bp y = Some (last (y # l))" using Cons.prems by (intro Cons.IH) auto
  ultimately show ?case using Cons.prems by (subst find_place.simps) simp
qed

lemma walk_round:
  "linked h (f # l) base \<Longrightarrow> sorted_wrt (<) (f # l) \<Longrightarrow> (\<forall>x \<in> set (f # l). bp < x) \<Longrightarrow> base < bp \<Longrightarrow>
   find_place h bp f = find_place h bp base"
proof (induction l arbitrary: f)
  case Nil
  then have "\<not> place_found h bp f" by (auto simp: place_found_def)
  then show ?case using Nil by (subst find_place.simps) simp
next
  case (Cons y l)
  then have "\<not> place_found h bp f" by (auto simp: place_found_def)
  moreover have "find_place h bp y = find_place h bp base" using Cons.prems by (intro Cons.IH) auto
  ultimately show ?case using Cons.prems by (subst find_place.simps) simp
qed

lemma find_place_pred:
  assumes lk: "linked h (base # us @ vs) base" and st: "sorted_wrt (<) (base # us @ vs)"
    and us: "\<forall>x \<in> set us. x < bp" and vs: "\<forall>x \<in> set vs. bp < x" and b: "base < bp"
    and f: "f \<in> set (base # us @ vs)"
  shows "find_place h bp f = Some (last (base # us))"
proof -
  have top: "find_place h bp base = Some (last (base # us))"
    using lk st us vs b by (intro walk_up) (auto simp: sorted_wrt_append)
  consider "f \<in> set (base # us)" | "f \<in> set vs" using f by auto
  then show ?thesis
  proof cases
    case 1
    then obtain l1 l2 where l: "base # us = l1 @ f # l2" using split_list by metis
    have "linked h ((base # us) @ vs) base" "sorted_wrt (<) (base # us)" "\<forall>x \<in> set (base # us). x < bp \<and> base \<le> x"
      using lk st us b by (auto simp: sorted_wrt_append intro: less_imp_le)
    then have "find_place h bp f = Some (last (f # l2))"
      using vs unfolding l by (intro walk_up) (auto simp: linked_append sorted_wrt_append)
    then show ?thesis unfolding l by simp
  next
    case 2
    then obtain l1 l2 where l: "vs = l1 @ f # l2" using split_list by metis
    have "find_place h bp f = find_place h bp base"
      using lk st vs b unfolding l by (intro walk_round) (auto simp: linked_append sorted_wrt_append)
    then show ?thesis using top by simp
  qed
qed

section \<open>The invariant\<close>

text \<open>
  \<open>frees\<close> are the free blocks, \<open>A\<close> the allocated ones, \<open>lo\<close> and \<open>hi\<close> the bounds of the heap, \<open>tot\<close> its size in units.
\<close>

definition apart :: "nat \<Rightarrow> nat \<Rightarrow> nat \<Rightarrow> nat \<Rightarrow> bool" where
  "apart a m b k \<longleftrightarrow> a + m \<le> b \<or> b + k \<le> a"

definition uinv :: "uheap \<Rightarrow> nat list \<Rightarrow> nat set \<Rightarrow> nat \<Rightarrow> nat \<Rightarrow> nat \<Rightarrow> bool" where
  "uinv h frees A lo hi tot \<longleftrightarrow>
     base < lo \<and> lo \<le> hi \<and> hi < 2 ^ 32 \<and> hsize h base = 0 \<and>
     (\<exists>f \<in> set (base # frees). freep h = Some f) \<and> linked h (base # frees) base \<and>
     sorted_wrt (\<lambda>a b. a + hsize h a < b) frees \<and>
     (\<forall>x \<in> set frees \<union> A. 0 < hsize h x \<and> lo \<le> x \<and> x + hsize h x \<le> hi) \<and>
     finite A \<and> set frees \<inter> A = {} \<and>
     (\<forall>c \<in> A. \<forall>x \<in> set frees \<union> A. c \<noteq> x \<longrightarrow> apart c (hsize h c) x (hsize h x)) \<and>
     sum_list (map (hsize h) frees) + (\<Sum>c\<in>A. hsize h c) = tot"

lemma uinvD:
  assumes "uinv h frees A lo hi tot"
  shows "base < lo" "lo \<le> hi" "hi < 2 ^ 32" "hsize h base = 0" "linked h (base # frees) base"
    "sorted_wrt (\<lambda>a b. a + hsize h a < b) frees" "finite A" "set frees \<inter> A = {}"
    "x \<in> set frees \<union> A \<Longrightarrow> 0 < hsize h x \<and> lo \<le> x \<and> x + hsize h x \<le> hi"
    "c \<in> A \<Longrightarrow> x \<in> set frees \<union> A \<Longrightarrow> c \<noteq> x \<Longrightarrow> apart c (hsize h c) x (hsize h x)"
    "sum_list (map (hsize h) frees) + (\<Sum>c\<in>A. hsize h c) = tot"
  using assms unfolding uinv_def by auto

lemma uinv_sorted:
  assumes "uinv h frees A lo hi tot"
  shows "sorted_wrt (<) (base # frees)"
proof -
  have "sorted_wrt (<) frees"
    by (rule sorted_wrt_mono_rel [OF _ uinvD(6) [OF assms]]) auto
  moreover have "base < x" if "x \<in> set frees" for x using uinvD(1) [OF assms] uinvD(9) [OF assms, of x] that by auto
  ultimately show ?thesis by simp
qed

lemma split_at:
  fixes bp :: nat
  assumes "sorted_wrt (<) xs" and "bp \<notin> set xs"
  obtains us vs where "xs = us @ vs" "\<forall>x \<in> set us. x < bp" "\<forall>x \<in> set vs. bp < x"
proof (rule that)
  let ?us = "takeWhile (\<lambda>x. x < bp) xs" and ?vs = "dropWhile (\<lambda>x. x < bp) xs"
  show "xs = ?us @ ?vs" by simp
  show "\<forall>x \<in> set ?us. x < bp" by (auto dest: set_takeWhileD)
  show "\<forall>x \<in> set ?vs. bp < x"
  proof (cases ?vs)
    case (Cons v r)
    then have "\<not> v < bp" using hd_dropWhile [of "\<lambda>x. x < bp" xs] by simp
    moreover have "v \<in> set xs" using Cons set_dropWhileD [of v "\<lambda>x. x < bp" xs] by simp
    ultimately have "bp < v" using assms(2) by (metis linorder_neqE_nat)
    moreover have "sorted_wrt (<) (v # r)" using assms(1) Cons by (metis sorted_wrt_append takeWhile_dropWhile_id)
    ultimately show ?thesis unfolding Cons by auto
  next
    case Nil
    show ?thesis unfolding Nil by simp
  qed
qed

section \<open>Freeing a block\<close>

text \<open>The upper neighbour of the freed block, if there is one, is swallowed; \<open>ws\<close> are the free blocks that remain above.\<close>

lemma join_upper_effect:
  assumes nx: "hptr h p = hd (vs @ [base])" and lk: "linked h vs base" and n: "0 < hsize h bp"
    and b: "base < bp" and above: "\<forall>v \<in> set vs. bp + hsize h bp \<le> v"
    and gap: "sorted_wrt (\<lambda>a b. a + hsize h a < b) vs" and fit: "\<forall>v \<in> set vs. v + hsize h v < 2 ^ 32"
    and bp: "bp \<notin> set vs" "p \<noteq> bp"
  obtains ws n1 where "join_upper bp p h = h\<lparr>hptr := (hptr h)(bp := hd (ws @ [base])), hsize := (hsize h)(bp := n1)\<rparr>"
    "\<forall>w \<in> set ws. bp + n1 < w" "hsize h bp \<le> n1" "vs = ws \<and> n1 = hsize h bp \<or>
      (\<exists>v. vs = v # ws \<and> v = bp + hsize h bp \<and> n1 = hsize h bp + hsize h v)"
proof (cases "bp + hsize h bp = hptr h p")
  case True
  then obtain v ws where v: "vs = v # ws" using nx b by (cases vs) auto
  have pv: "hptr h p = v" using nx v by simp
  have e: "v = bp + hsize h bp" using True pv by simp
  have m: "(hsize h bp + hsize h v) mod 2 ^ 32 = hsize h bp + hsize h v" using fit v e by simp
  have "hptr h v = hd (ws @ [base])" using lk v by simp
  then have "join_upper bp p h =
    h\<lparr>hptr := (hptr h)(bp := hd (ws @ [base])), hsize := (hsize h)(bp := hsize h bp + hsize h v)\<rparr>"
    unfolding join_upper_def Let_def set_size_def set_ptr_def pv using m bp(1) v e [symmetric] by (simp add: pv)
  moreover have "\<forall>w \<in> set ws. bp + (hsize h bp + hsize h v) < w" using gap v e by auto
  ultimately show ?thesis using that v e by simp
next
  case False
  have "bp + hsize h bp < v" if v: "v \<in> set vs" for v
  proof -
    obtain v0 r where v0: "vs = v0 # r" using v by (cases vs) auto
    then have "bp + hsize h bp < v0" using False nx above by (simp add: le_neq_implies_less)
    then show ?thesis using gap v0 v by auto
  qed
  moreover have "join_upper bp p h = h\<lparr>hptr := (hptr h)(bp := hd (vs @ [base])), hsize := (hsize h)(bp := hsize h bp)\<rparr>"
    using False nx by (simp add: join_upper_def set_ptr_def)
  ultimately show ?thesis using that by blast
qed

lemma gap_cong:
  "(\<And>x. x \<in> set xs \<Longrightarrow> f x = g x) \<Longrightarrow> sorted_wrt (\<lambda>a b. a + f a < b) xs = sorted_wrt (\<lambda>a b. a + g a < b) xs" for f g :: "nat \<Rightarrow> nat"
  by (induction xs) auto

text \<open>
  Block \<open>q\<close> of \<open>m\<close> units takes its place between the free blocks \<open>us\<close> and \<open>ws\<close>; the other blocks keep their sizes.
\<close>

lemma uinv_put:
  assumes inv: "uinv h frees A lo hi tot" and sub: "set us \<subseteq> set frees" "set ws \<subseteq> set frees"
    and gap: "sorted_wrt (\<lambda>a b. a + hsize h a < b) us" "sorted_wrt (\<lambda>a b. a + hsize h a < b) ws"
      "\<forall>u \<in> set us. u + hsize h u < q" "\<forall>w \<in> set ws. q + m < w"
    and q: "q \<notin> A" "0 < m" "lo \<le> q" "q + m \<le> hi1" "hi \<le> hi1" "hi1 < 2 ^ 32" "\<forall>c \<in> A. apart c (hsize h c) q m"
    and same: "hsize h1 q = m" "\<forall>x \<in> insert base (set us \<union> set ws \<union> A). hsize h1 x = hsize h x"
    and lk: "linked h1 (base # us) q" "hptr h1 q = hd (ws @ [base])" "linked h1 ws base"
    and fp: "freep h1 = Some f" "f \<in> set (base # us @ q # ws)"
    and tot: "sum_list (map (hsize h) us) + m + sum_list (map (hsize h) ws) + (\<Sum>c\<in>A. hsize h c) = tot1"
  shows "uinv h1 (us @ q # ws) A lo hi1 tot1"
proof -
  note D = uinvD [OF inv]
  have s: "hsize h1 x = hsize h x" if "x \<in> set us \<or> x \<in> set ws \<or> x \<in> A" for x using same(2) that by auto
  have r: "x \<in> set frees \<union> A" if "x \<in> set us \<or> x \<in> set ws \<or> x \<in> A" for x using sub that by auto
  have bnd: "0 < hsize h1 x \<and> lo \<le> x \<and> x + hsize h1 x \<le> hi1" if x: "x \<in> set (us @ q # ws) \<union> A" for x
  proof (cases "x = q")
    case False
    then have "x \<in> set us \<or> x \<in> set ws \<or> x \<in> A" using x by auto
    then show ?thesis using s [of x] D(9) [OF r, of x] q(5) by auto
  qed (use q(2,3,4) same(1) in auto)
  have "u < w" if "u \<in> set us" "w \<in> set ws" for u w
    using bspec [OF gap(3) that(1)] bspec [OF gap(4) that(2)] by linarith
  moreover have "u + hsize h u < w" if "u \<in> set us" "w \<in> set ws" for u w
    using bspec [OF gap(3) that(1)] bspec [OF gap(4) that(2)] by linarith
  ultimately have srt: "sorted_wrt (\<lambda>a b. a + hsize h1 a < b) (us @ q # ws)"
    using gap gap_cong [of us "hsize h1" "hsize h"] gap_cong [of ws "hsize h1" "hsize h"] s same(1)
    by (simp add: sorted_wrt_append)
  have "apart c (hsize h1 c) x (hsize h1 x)" if c: "c \<in> A" and x: "x \<in> set (us @ q # ws) \<union> A" "c \<noteq> x" for c x
  proof (cases "x = q")
    case True
    then show ?thesis using q(7) c s [of c] same(1) by auto
  next
    case False
    then have x1: "x \<in> set us \<or> x \<in> set ws \<or> x \<in> A" using x by auto
    then show ?thesis using D(10) [OF c r [OF x1] x(2)] s [OF x1] s [of c] c by simp
  qed
  moreover have "set (us @ q # ws) \<inter> A = {}" using D(8) sub q(1) by auto
  moreover have "sum_list (map (hsize h1) (us @ q # ws)) + (\<Sum>c\<in>A. hsize h1 c) = tot1"
  proof -
    have "sum_list (map (hsize h1) us) = sum_list (map (hsize h) us)" "sum_list (map (hsize h1) ws) = sum_list (map (hsize h) ws)"
      using s by (auto intro!: arg_cong [where f = sum_list] map_cong)
    moreover have "(\<Sum>c\<in>A. hsize h1 c) = (\<Sum>c\<in>A. hsize h c)" using s by (intro sum.cong) auto
    ultimately show ?thesis using tot same(1) by simp
  qed
  moreover have "linked h1 (base # us @ q # ws) base"
    using lk linked_append [of h1 "base # us" "q # ws" base] by simp
  moreover have "hsize h1 base = 0" using same(2) D(4) by simp
  ultimately show ?thesis
    unfolding uinv_def using D(1,2,7) q(5,6) fp bnd srt by (intro conjI ballI impI) auto
qed

text \<open>
  The state after the upper join: \<open>bp\<close> has \<open>n1\<close> units, \<open>us\<close> are the free blocks below, \<open>ws\<close> those above, \<open>p\<close> is the header before it.
\<close>

definition upper_done :: "uheap \<Rightarrow> nat list \<Rightarrow> nat set \<Rightarrow> nat \<Rightarrow> nat \<Rightarrow> nat list \<Rightarrow> nat list \<Rightarrow> nat \<Rightarrow> nat \<Rightarrow> bool" where
  "upper_done h frees A hi1 bp us ws n1 p \<longleftrightarrow>
     p = last (base # us) \<and> base < bp \<and> p < bp \<and> bp \<notin> A \<and> p \<notin> A \<and> bp \<notin> set ws \<and> p \<notin> set ws \<and> hsize h bp \<le> n1 \<and> bp + n1 \<le> hi1 \<and>
     set us \<subseteq> set frees \<and> set ws \<subseteq> set frees \<and> (\<forall>u \<in> set us. u < bp \<and> u + hsize h u \<le> bp) \<and> (\<forall>w \<in> set ws. bp + n1 < w) \<and>
     sorted_wrt (\<lambda>a b. a + hsize h a < b) us \<and> sorted_wrt (\<lambda>a b. a + hsize h a < b) ws \<and> linked h (butlast (base # us)) p \<and> linked h ws base \<and>
     (\<forall>c \<in> A. apart c (hsize h c) bp n1) \<and>
     sum_list (map (hsize h) frees) + hsize h bp = sum_list (map (hsize h) us) + n1 + sum_list (map (hsize h) ws)"

lemma upper_doneD:
  assumes "upper_done h frees A hi1 bp us ws n1 p"
  shows "p = last (base # us)" "base < bp" "p < bp" "bp \<notin> A" "p \<notin> A" "bp \<notin> set ws" "p \<notin> set ws" "hsize h bp \<le> n1" "bp + n1 \<le> hi1"
    "set us \<subseteq> set frees" "set ws \<subseteq> set frees" "\<forall>u \<in> set us. u < bp \<and> u + hsize h u \<le> bp" "\<forall>w \<in> set ws. bp + n1 < w"
    "sorted_wrt (\<lambda>a b. a + hsize h a < b) us" "sorted_wrt (\<lambda>a b. a + hsize h a < b) ws" "linked h (butlast (base # us)) p" "linked h ws base"
    "\<forall>c \<in> A. apart c (hsize h c) bp n1"
    "sum_list (map (hsize h) frees) + hsize h bp = sum_list (map (hsize h) us) + n1 + sum_list (map (hsize h) ws)"
  using assms unfolding upper_done_def by blast+

text \<open>The header before the freed block touches it: the two become one block.\<close>

lemma join_lower_touching:
  assumes inv: "uinv h frees A lo hi tot" and U: "upper_done h frees A hi1 bp us ws n1 p" and hi1: "hi \<le> hi1" "hi1 < 2 ^ 32"
    and n: "0 < hsize h bp" and touch: "p + hsize h p = bp"
  defines "h1 \<equiv> h\<lparr>hptr := (hptr h)(bp := hd (ws @ [base]), p := hd (ws @ [base])),
    hsize := (hsize h)(bp := n1, p := hsize h p + n1), freep := Some p\<rparr>"
  shows "uinv h1 (butlast us @ p # ws) A lo hi1 (tot + hsize h bp)"
proof -
  note D = uinvD [OF inv] and E = upper_doneD [OF U]
  have pb: "p \<noteq> base" using D(4) E(2) touch by auto
  then have "us \<noteq> []" using E(1) by auto
  then have us1: "us = butlast us @ [p]" using E(1) by simp
  obtain us1 where u: "us = us1 @ [p]" "butlast us = us1" using us1 by blast
  have pf: "p \<in> set frees" using E(10) u(1) by auto
  have g: "sorted_wrt (\<lambda>a b. a + hsize h a < b) us1" "\<forall>u \<in> set us1. u + hsize h u < p"
    using E(14) unfolding u(1) by (auto simp: sorted_wrt_append)
  have o: "x \<noteq> p \<and> x \<noteq> bp" if "x \<in> insert base (set us1 \<union> set ws \<union> A)" for x
    using that g(2) E(2-7) pb by auto
  have lk: "linked h (base # us1) p" using E(16) u by simp
  have ap: "apart c (hsize h c) p (hsize h p + n1)" if c: "c \<in> A" for c
  proof -
    have "apart c (hsize h c) p (hsize h p)" using D(10) [OF c, of p] E(5) c pf by auto
    then show ?thesis using bspec [OF E(18) c] D(9) [of c] c touch unfolding apart_def by auto
  qed
  show ?thesis
    unfolding u(2)
  proof (rule uinv_put [OF inv, where m = "hsize h p + n1" and f = p])
    show "linked h1 (base # us1) p" "linked h1 ws base"
      by (rule linked_frame [OF lk] linked_frame [OF E(17)], use o in \<open>auto simp: h1_def\<close>)+
    show "lo \<le> p" using D(9) [of p] pf by auto
    show "set us1 \<subseteq> set frees" using E(10) u(1) by auto
    show "sum_list (map (hsize h) us1) + (hsize h p + n1) + sum_list (map (hsize h) ws) + (\<Sum>c\<in>A. hsize h c) = tot + hsize h bp"
      using D(11) E(19) u(1) by simp
  qed (use E g ap hi1 n touch o in \<open>auto simp: h1_def\<close>)
qed

text \<open>It does not touch it: the freed block becomes a block of its own.\<close>

lemma below_gap:
  assumes "sorted_wrt (\<lambda>a b. a + f a < b) us" and "\<forall>u \<in> set us. u + f u \<le> bp" and "us \<noteq> [] \<longrightarrow> last us + f (last us) \<noteq> bp" and "last us < bp"
  shows "\<forall>u \<in> set us. u + f u < (bp :: nat)"
proof (cases us rule: rev_cases)
  case (snoc bs p)
  then show ?thesis using assms by (auto simp: sorted_wrt_append dest!: bspec)
qed simp

lemma join_lower_apart:
  assumes inv: "uinv h frees A lo hi tot" and U: "upper_done h frees A hi1 bp us ws n1 p" and hi1: "hi \<le> hi1" "hi1 < 2 ^ 32"
    and n: "0 < hsize h bp" "lo \<le> bp" and touch: "p + hsize h p \<noteq> bp"
  defines "h1 \<equiv> h\<lparr>hptr := (hptr h)(bp := hd (ws @ [base]), p := bp), hsize := (hsize h)(bp := n1), freep := Some p\<rparr>"
  shows "uinv h1 (us @ bp # ws) A lo hi1 (tot + hsize h bp)"
proof -
  note D = uinvD [OF inv] and E = upper_doneD [OF U]
  have o: "x \<noteq> bp" if "x \<in> insert base (set us \<union> set ws \<union> A)" for x using that E(2,4,6,12) by auto
  have g: "\<forall>u \<in> set us. u + hsize h u < bp"
    by (cases "us = []") (use below_gap [OF E(14), of bp] E(1,3,12) touch in auto)
  have st: "sorted_wrt (<) (butlast (base # us) @ [p])"
  proof -
    have "sorted_wrt (<) us" by (rule sorted_wrt_mono_rel [OF _ E(14)]) auto
    moreover have "base < x" if "x \<in> set us" for x using D(1) D(9) [of x] E(10) that by auto
    ultimately have "sorted_wrt (<) (base # us)" by simp
    then show ?thesis unfolding E(1) by (simp del: butlast.simps last.simps)
  qed
  have "linked h1 (butlast (base # us)) p"
    by (rule linked_frame [OF E(16)]) (use st E(3) in \<open>auto simp: h1_def sorted_wrt_append simp del: butlast.simps\<close>)
  then have "linked h1 (butlast (base # us) @ [p]) bp" using E(3) by (simp add: linked_append h1_def del: butlast.simps)
  moreover have "butlast (base # us) @ [p] = base # us" unfolding E(1) by (rule append_butlast_last_id) simp
  ultimately have lk: "linked h1 (base # us) bp" by (simp only:)
  have pu: "p \<in> set (base # us)" unfolding E(1) by (rule last_in_set) simp
  show ?thesis
  proof (rule uinv_put [OF inv, where m = n1 and f = p, OF _ _ _ _ _ _ _ _ _ _ _ _ _ _ _ lk])
    show "linked h1 ws base" by (rule linked_frame [OF E(17)]) (use E(6,7) in \<open>auto simp: h1_def\<close>)
    show "sum_list (map (hsize h) us) + n1 + sum_list (map (hsize h) ws) + (\<Sum>c\<in>A. hsize h c) = tot + hsize h bp" using D(11) E(19) by simp
  qed (use E g n hi1 o pu in \<open>auto simp: h1_def\<close>)
qed

text \<open>Where \<open>find_place\<close> stops and what the upper join does there.\<close>

lemma apart_joined:
  assumes inv: "uinv h frees A lo hi tot" and c: "c \<in> A" and ap: "apart bp (hsize h bp) c (hsize h c)"
    and v: "v \<in> set frees" "v = bp + hsize h bp"
  shows "apart c (hsize h c) bp (hsize h bp + hsize h v)"
proof -
  have "c \<noteq> v" using uinvD(8) [OF inv] c v(1) by auto
  then have "apart c (hsize h c) v (hsize h v)" using uinvD(10) [OF inv c, of v] v(1) by auto
  moreover have "0 < hsize h c" using uinvD(9) [OF inv, of c] c by simp
  ultimately show ?thesis using ap v(2) unfolding apart_def by linarith
qed

lemma free_upper:
  assumes inv: "uinv h frees A lo hi tot" and bp: "bp \<notin> set frees \<union> A" "lo \<le> bp" "bp + hsize h bp \<le> hi1" "hi \<le> hi1" "hi1 < 2 ^ 32"
    and n: "0 < hsize h bp" and ap: "\<forall>x \<in> set frees \<union> A. apart bp (hsize h bp) x (hsize h x)"
  obtains us ws n1 p where "upper_done h frees A hi1 bp us ws n1 p"
    "ufree (bp + 1) h = Some ((join_lower bp p
       (h\<lparr>hptr := (hptr h)(bp := hd (ws @ [base])), hsize := (hsize h)(bp := n1)\<rparr>))\<lparr>freep := Some p\<rparr>)"
proof -
  note D = uinvD [OF inv]
  note st = uinv_sorted [OF inv]
  have b: "base < bp" using D(1) bp(2) by simp
  have "sorted_wrt (<) frees" "bp \<notin> set frees" using st bp(1) by auto
  then obtain us vs where fs: "frees = us @ vs" and us: "\<forall>x \<in> set us. x < bp" and vs: "\<forall>x \<in> set vs. bp < x"
    by (rule split_at)
  define p where "p = last (base # us)"
  obtain f where f: "freep h = Some f" "f \<in> set (base # frees)" using inv unfolding uinv_def by blast
  have fp: "find_place h bp f = Some p"
    unfolding p_def using D(5) st us vs b f(2) unfolding fs by (intro find_place_pred) auto
  have "u + hsize h u \<le> bp" if "u \<in> set us" for u
    using bspec [OF ap, of u] bspec [OF us that] that unfolding apart_def fs by auto
  then have usb: "\<forall>u \<in> set us. u < bp \<and> u + hsize h u \<le> bp" using us by blast
  have "bp + hsize h bp \<le> v" if "v \<in> set vs" for v
    using bspec [OF ap, of v] bspec [OF vs that] that unfolding apart_def fs by auto
  then have vsb: "\<forall>v \<in> set vs. bp + hsize h bp \<le> v" by blast
  have pb: "p \<in> set (base # us)" unfolding p_def by (rule last_in_set) simp
  have pbp: "p < bp" using pb us b by auto
  have lk: "linked h ((base # us) @ vs) base" using D(5) by (simp add: fs)
  have nx: "hptr h p = hd (vs @ [base])" unfolding p_def by (rule linked_last) (use lk linked_append in blast)+
  have "butlast (base # us) @ [p] = base # us" unfolding p_def by (rule append_butlast_last_id) simp
  then have lkp: "linked h (butlast (base # us)) p" "linked h vs base"
    using lk linked_append [of h "butlast (base # us)" "[p]"] linked_append [of h "base # us" vs] by (metis append.left_neutral append_Cons list.sel(1))+
  have g: "sorted_wrt (\<lambda>a b. a + hsize h a < b) us" "sorted_wrt (\<lambda>a b. a + hsize h a < b) vs"
    using D(6) unfolding fs by (auto simp: sorted_wrt_append)
  have fit: "\<forall>v \<in> set vs. v + hsize h v < 2 ^ 32" using D(9) D(3) unfolding fs by fastforce
  have bvs: "bp \<notin> set vs" "p \<noteq> bp" using bp(1) fs pbp by auto
  obtain ws n1 where
    U: "join_upper bp p h = h\<lparr>hptr := (hptr h)(bp := hd (ws @ [base])), hsize := (hsize h)(bp := n1)\<rparr>"
    and gapw: "\<forall>w \<in> set ws. bp + n1 < w" and nle: "hsize h bp \<le> n1"
    and vw: "vs = ws \<and> n1 = hsize h bp \<or> (\<exists>v. vs = v # ws \<and> v = bp + hsize h bp \<and> n1 = hsize h bp + hsize h v)"
    by (rule join_upper_effect [OF nx lkp(2) n b vsb g(2) fit bvs])
  have ws: "set ws \<subseteq> set vs" "sorted_wrt (\<lambda>a b. a + hsize h a < b) ws" "linked h ws base"
    "sum_list (map (hsize h) vs) + hsize h bp = sum_list (map (hsize h) ws) + n1"
    using vw g(2) lkp(2) by auto
  have top: "bp + n1 \<le> hi1 \<and> (\<forall>c \<in> A. apart c (hsize h c) bp n1)"
    using vw
  proof (elim disjE exE conjE)
    fix v assume v: "vs = v # ws" "v = bp + hsize h bp" "n1 = hsize h bp + hsize h v"
    have vf: "v \<in> set frees" using v(1) fs by simp
    then show ?thesis using D(9) [of v] bp(4) v(2,3) apart_joined [OF inv _ _ vf v(2)] ap by auto
  qed (use bp(3) ap in \<open>auto simp: apart_def\<close>)
  have "base \<notin> A" using D(1) D(9) [of base] by auto
  then have "p \<notin> A" "p \<notin> set ws" using pb D(8) fs ws(1) bspec [OF vs, of p] pbp by auto
  then have "upper_done h frees A hi1 bp us ws n1 p"
    unfolding upper_done_def using p_def b pbp bp(1) bvs(1) nle top usb gapw g ws lkp by (intro conjI) (auto simp: fs)
  then show ?thesis using that U fp by (simp add: ufree_def f(1))
qed

text \<open>
  The general step: a block that is apart from all others is put on the free list. It may be one that was allocated, or
  memory that comes from the system.
\<close>

lemma free_insert:
  assumes inv: "uinv h frees A lo hi tot" and bp: "bp \<notin> set frees \<union> A" "lo \<le> bp" "bp + hsize h bp \<le> hi1" "hi \<le> hi1" "hi1 < 2 ^ 32"
    and n: "0 < hsize h bp" and ap: "\<forall>x \<in> set frees \<union> A. apart bp (hsize h bp) x (hsize h x)"
  shows "\<exists>h1 frees1. ufree (bp + 1) h = Some h1 \<and> uinv h1 frees1 A lo hi1 (tot + hsize h bp) \<and>
    (\<forall>c \<in> A. hsize h1 c = hsize h c) \<and> (\<exists>x \<in> set frees1. hsize h bp \<le> hsize h1 x)"
proof (rule free_upper [OF assms])
  fix us ws n1 p
  assume U: "upper_done h frees A hi1 bp us ws n1 p" and uf: "ufree (bp + 1) h = Some ((join_lower bp p
       (h\<lparr>hptr := (hptr h)(bp := hd (ws @ [base])), hsize := (hsize h)(bp := n1)\<rparr>))\<lparr>freep := Some p\<rparr>)"
  note E = upper_doneD [OF U]
  show ?thesis
  proof (cases "p + hsize h p = bp")
    case True
    have "(hsize h p + n1) mod 2 ^ 32 = hsize h p + n1" by (rule mod_less) (use E(9) bp(5) True in linarith)
    then have "ufree (bp + 1) h = Some (h\<lparr>hptr := (hptr h)(bp := hd (ws @ [base]), p := hd (ws @ [base])),
        hsize := (hsize h)(bp := n1, p := hsize h p + n1), freep := Some p\<rparr>)"
      unfolding uf join_lower_def Let_def set_size_def set_ptr_def using True E(3) by simp
    then show ?thesis using join_lower_touching [OF inv U bp(4,5) n True] E(4,5,8) by (intro exI conjI) auto
  next
    case False
    have "ufree (bp + 1) h = Some (h\<lparr>hptr := (hptr h)(bp := hd (ws @ [base]), p := bp), hsize := (hsize h)(bp := n1), freep := Some p\<rparr>)"
      unfolding uf join_lower_def Let_def set_size_def set_ptr_def using False E(3) by simp
    then show ?thesis using join_lower_apart [OF inv U bp(4,5) n bp(2) False] E(4,8) by (intro exI conjI) auto
  qed
qed

lemma uinv_release:
  assumes inv: "uinv h frees A lo hi tot" and c: "c \<in> A"
  shows "uinv h frees (A - {c}) lo hi (tot - hsize h c)" "hsize h c \<le> tot"
    "\<forall>x \<in> set frees \<union> (A - {c}). apart c (hsize h c) x (hsize h x)"
proof -
  note D = uinvD [OF inv]
  have s: "(\<Sum>x\<in>A. hsize h x) = hsize h c + (\<Sum>x\<in>A - {c}. hsize h x)" using D(7) c by (rule sum.remove)
  show "hsize h c \<le> tot" using D(11) s by simp
  show "\<forall>x \<in> set frees \<union> (A - {c}). apart c (hsize h c) x (hsize h x)" using D(10) [OF c] D(8) c by blast
  obtain f where f: "f \<in> set (base # frees)" "freep h = Some f" using inv unfolding uinv_def by blast
  have t: "sum_list (map (hsize h) frees) + (\<Sum>x\<in>A - {c}. hsize h x) = tot - hsize h c" using D(11) s by simp
  have m: "x \<in> set frees \<union> (A - {c}) \<Longrightarrow> x \<in> set frees \<union> A" for x by blast
  show "uinv h frees (A - {c}) lo hi (tot - hsize h c)"
    unfolding uinv_def using D(1-8) D(9) [OF m] D(10) [OF _ m] f t
    by (intro conjI ballI impI bexI [of _ f]) blast+
qed

text \<open>
  C37. \<open>free\<close> of an allocated block ends, puts exactly that block back, coalesced with its free neighbours, and keeps the invariant: the
  free list stays sorted and circular, no two free blocks are adjacent, nothing overlaps, and no unit is lost.
\<close>

theorem ufree_keeps_heap:
  assumes "uinv h frees A lo hi tot" and "c \<in> A"
  shows "\<exists>h1 frees1. ufree (c + 1) h = Some h1 \<and> uinv h1 frees1 (A - {c}) lo hi tot \<and>
    (\<forall>d \<in> A - {c}. hsize h1 d = hsize h d)"
proof -
  note r = uinv_release [OF assms]
  have c: "0 < hsize h c \<and> lo \<le> c \<and> c + hsize h c \<le> hi" using uinvD(9) [OF assms(1), of c] assms(2) by simp
  have "c \<notin> set frees \<union> (A - {c})" using uinvD(8) [OF assms(1)] assms(2) by auto
  then have "\<exists>h1 frees1. ufree (c + 1) h = Some h1 \<and> uinv h1 frees1 (A - {c}) lo hi (tot - hsize h c + hsize h c) \<and>
    (\<forall>d \<in> A - {c}. hsize h1 d = hsize h d) \<and> (\<exists>x \<in> set frees1. hsize h c \<le> hsize h1 x)"
    using c r(3) uinvD(3) [OF assms(1)] by (intro free_insert [OF r(1)]) auto
  then show ?thesis using r(2) by fastforce
qed

text \<open>A heap of eight units: a block of two units in use, one of three units free, one of three in use.\<close>

definition demo_heap :: uheap where
  "demo_heap = \<lparr>hptr = (\<lambda>_. 0)(base := 0x202, 0x202 := base), hsize = (\<lambda>_. 0)(0x200 := 2, 0x202 := 3, 0x205 := 3), freep = Some base\<rparr>"

lemma demo_heap_inv: "uinv demo_heap [0x202] {0x200, 0x205} 0x200 0x208 8"
  by (simp add: uinv_def demo_heap_def base_def apart_def)

theorem ufree_keeps_heap_witness:
  "uinv demo_heap [0x202] {0x200, 0x205} 0x200 0x208 8 \<and>
   (\<exists>h1 frees1. ufree (0x205 + 1) demo_heap = Some h1 \<and> uinv h1 frees1 {0x200} 0x200 0x208 8 \<and> hsize h1 0x200 = hsize demo_heap 0x200)"
proof -
  have "{0x200, 0x205} - {0x205} = {0x200 :: nat}" by auto
  then show ?thesis using ufree_keeps_heap [OF demo_heap_inv, of "0x205"] demo_heap_inv by auto
qed

end
