(* ===== verification/UmallocAlloc.thy ===== *)
theory UmallocAlloc
  imports UmallocSpec
begin

text \<open>
  \<open>malloc\<close> on a heap that satisfies \<open>uinv\<close>: one pass over the list, the units taken from a block, the memory asked from the
  system, and the theorem for the whole call.
\<close>

section \<open>Taking a block\<close>











section \<open>More memory\<close>














section \<open>A concrete system\<close>




end
