(* ===== verification/Mkfs.thy ===== *)
theory Mkfs
  imports FsDir
begin

unbundle bit_operations_syntax

text \<open>
  \<^verbatim>\<open>mkfs/mkfs.c\<close>: the program that builds the first file system image. The image is a sequence of blocks in a file of the host;
  seeking and writing there do not fail, reading past its end does. The files to copy are arguments: \<open>host\<close> gives
  for a path that can be opened what successive calls of \<open>read\<close> return. The host is little-endian. A failed \<open>assert\<close> and \<open>die\<close> are
  error values.
\<close>

section \<open>Layout\<close>

abbreviation NINODES :: nat where "NINODES \<equiv> 200"

abbreviation nbitmap :: nat where "nbitmap \<equiv> FSSIZE div BPB + 1"
abbreviation ninodeblocks :: nat where "ninodeblocks \<equiv> NINODES div IPB + 1"
abbreviation nlog :: nat where "nlog \<equiv> LOGBLOCKS + 1"
abbreviation nmeta :: nat where "nmeta \<equiv> 2 + nlog + ninodeblocks + nbitmap"
abbreviation nblocks :: nat where "nblocks \<equiv> FSSIZE - nmeta"

record dinode =
  dtype :: u16
  dmajor :: u16
  dminor :: u16
  dnlink :: u16
  dsize :: u32
  daddrs :: "u32 list"

record mkst =
  img :: "nat \<Rightarrow> block"
  nsect :: nat
  freeinode :: u32
  freeblock :: u32

definition xshort :: "u16 \<Rightarrow> u16" where
  "xshort x = of_nat (le_nat [ucast x, ucast (drop_bit 8 x)])"

definition xint :: "u32 \<Rightarrow> u32" where
  "xint x = of_nat (le_nat [ucast x, ucast (drop_bit 8 x), ucast (drop_bit 16 x), ucast (drop_bit 24 x)])"

definition mksb :: superblock where
  "mksb = \<lparr>sb_magic = FSMAGIC, sb_size = xint (of_nat FSSIZE), sb_nblocks = xint (of_nat nblocks), sb_ninodes = xint (of_nat NINODES),
     sb_nlog = xint (of_nat nlog), sb_logstart = xint 2, sb_inodestart = xint (of_nat (2 + nlog)),
     sb_bmapstart = xint (of_nat (2 + nlog + ninodeblocks))\<rparr>"

section \<open>Sectors and inodes\<close>

definition die :: "string \<Rightarrow> 'a kres" where
  "die s = kpanic s"

text \<open>\<^verbatim>\<open>sec * BSIZE\<close> is an \<open>uint\<close>.\<close>

definition sect :: "u32 \<Rightarrow> nat" where
  "sect sec = unat (sec * of_nat BSIZE) div BSIZE"

definition wsect :: "u32 \<Rightarrow> block \<Rightarrow> mkst \<Rightarrow> mkst kres" where
  "wsect sec buf st = Inr (st\<lparr>img := (img st)(sect sec := buf), nsect := max (nsect st) (sect sec + 1)\<rparr>)"

definition rsect :: "u32 \<Rightarrow> mkst \<Rightarrow> block kres" where
  "rsect sec st = (if sect sec < nsect st then Inr (img st (sect sec)) else die ''read'')"

definition enc_din :: "dinode \<Rightarrow> byte list" where
  "enc_din d = le_bytes 2 (unat (dtype d)) @ le_bytes 2 (unat (dmajor d)) @ le_bytes 2 (unat (dminor d)) @
     le_bytes 2 (unat (dnlink d)) @ le_bytes 4 (unat (dsize d)) @ concat (map (\<lambda>a. le_bytes 4 (unat a)) (daddrs d))"

definition dec_din :: "block \<Rightarrow> nat \<Rightarrow> dinode" where
  "dec_din b off = \<lparr>dtype = ld16 b off, dmajor = ld16 b (off + 2), dminor = ld16 b (off + 4), dnlink = ld16 b (off + 6),
     dsize = ld32 b (off + 8), daddrs = map (\<lambda>k. ld32 b (off + 12 + 4 * k)) [0..<NDIRECT + 1]\<rparr>"

definition iblock :: "u32 \<Rightarrow> u32" where
  "iblock ino = ino div of_nat IPB + sb_inodestart mksb"

definition winode :: "u32 \<Rightarrow> dinode \<Rightarrow> mkst \<Rightarrow> mkst kres" where
  "winode ino d st =
     (let bn = iblock ino in
      kbind (rsect bn st) (\<lambda>buf. wsect bn (poke (dinode_off ino) (enc_din d) buf) st))"

definition rinode :: "u32 \<Rightarrow> mkst \<Rightarrow> dinode kres" where
  "rinode ino st = kbind (rsect (iblock ino) st) (\<lambda>buf. Inr (dec_din buf (dinode_off ino)))"

definition mk_ialloc :: "u16 \<Rightarrow> mkst \<Rightarrow> (u32 \<times> mkst) kres" where
  "mk_ialloc type st =
     (let ino = freeinode st;
          din = \<lparr>dtype = xshort type, dmajor = 0, dminor = 0, dnlink = xshort 1, dsize = xint 0, daddrs = replicate (NDIRECT + 1) 0\<rparr>
      in kbind (winode ino din (st\<lparr>freeinode := freeinode st + 1\<rparr>)) (\<lambda>st1. Inr (ino, st1)))"

definition mk_balloc :: "nat \<Rightarrow> mkst \<Rightarrow> mkst kres" where
  "mk_balloc used st =
     kbind (kassert (used < BPB) ''assert'') (\<lambda>_.
       wsect (sb_bmapstart mksb) (fold (\<lambda>i buf. buf(i div 8 := buf (i div 8) OR push_bit (i mod 8) 1)) [0..<used] (\<lambda>_. 0)) st)"

section \<open>Appending to a file\<close>

text \<open>The block number at index \<open>k\<close> of the inode, allocated if it is zero.\<close>

definition use_addr :: "nat \<Rightarrow> dinode \<Rightarrow> mkst \<Rightarrow> dinode \<times> mkst" where
  "use_addr k din st =
     (if xint (daddrs din ! k) = 0
      then (din\<lparr>daddrs := (daddrs din)[k := xint (freeblock st)]\<rparr>, st\<lparr>freeblock := freeblock st + 1\<rparr>)
      else (din, st))"

definition data_block :: "nat \<Rightarrow> dinode \<Rightarrow> mkst \<Rightarrow> (u32 \<times> dinode \<times> mkst) kres" where
  "data_block fbn din st =
     (if fbn < NDIRECT then
        case use_addr fbn din st of (din, st) \<Rightarrow> Inr (xint (daddrs din ! fbn), din, st)
      else case use_addr NDIRECT din st of (din, st) \<Rightarrow>
        let a = xint (daddrs din ! NDIRECT); k = 4 * (fbn - NDIRECT) in
        kbind (rsect a st) (\<lambda>indirect.
          if ld32 indirect k = 0 then
            let indirect1 = st32 k (xint (freeblock st)) indirect in
            kbind (wsect a indirect1 (st\<lparr>freeblock := freeblock st + 1\<rparr>)) (\<lambda>st1. Inr (xint (ld32 indirect1 k), din, st1))
          else Inr (xint (ld32 indirect k), din, st)))"

function iappend_loop :: "byte list \<Rightarrow> nat \<Rightarrow> dinode \<Rightarrow> mkst \<Rightarrow> (nat \<times> dinode \<times> mkst) kres" where
  "iappend_loop p off din st =
     (if p = [] then Inr (off, din, st)
      else
        let fbn = off div BSIZE; n1 = min (length p) ((fbn + 1) * BSIZE - off) in
        kbind (kassert (fbn < MAXFILE) ''assert'') (\<lambda>_.
        kbind (data_block fbn din st) (\<lambda>(x, din1, st1).
        kbind (rsect x st1) (\<lambda>buf.
        kbind (wsect x (poke (off - fbn * BSIZE) (take n1 p) buf) st1) (\<lambda>st2.
        iappend_loop (drop n1 p) (off + n1) din1 st2)))))"
  by pat_completeness auto
termination
  by (relation "measure (\<lambda>(p, _). length p)") (auto simp: min_def dividend_less_times_div)

declare iappend_loop.simps [simp del]

definition iappend :: "u32 \<Rightarrow> byte list \<Rightarrow> mkst \<Rightarrow> mkst kres" where
  "iappend ino p st =
     kbind (rinode ino st) (\<lambda>din.
     kbind (iappend_loop p (unat (xint (dsize din))) din st) (\<lambda>(off, din1, st1).
     winode ino (din1\<lparr>dsize := xint (of_nat off)\<rparr>) st1))"

section \<open>The program\<close>

definition enc_de :: "u32 \<Rightarrow> byte list \<Rightarrow> byte list" where
  "enc_de ino name = le_bytes 2 (unat (xshort (ucast ino))) @ take DIRSIZ (name @ replicate DIRSIZ 0)"

definition sb_buf :: block where
  "sb_buf = poke 0 (concat (map (\<lambda>f. le_bytes 4 (unat (f mksb)))
     [sb_magic, sb_size, sb_nblocks, sb_ninodes, sb_nlog, sb_logstart, sb_inodestart, sb_bmapstart])) (\<lambda>_. 0)"

definition shortname :: "byte list \<Rightarrow> byte list" where
  "shortname path = (if take 5 path = str ''user/'' then drop 5 path else path)"

definition copy_file :: "(byte list \<Rightarrow> byte list list option) \<Rightarrow> u32 \<Rightarrow> byte list \<Rightarrow> mkst \<Rightarrow> mkst kres" where
  "copy_file host rootino path st =
     (let s = shortname path in
      kbind (kassert (chr CHR ''/'' \<notin> set s) ''assert'') (\<lambda>_.
      case host path of
        None \<Rightarrow> die ''open''
      | Some reads \<Rightarrow>
          let s = (if char_at s 0 = chr CHR ''_'' then tl s else s) in
          kbind (kassert (length s \<le> DIRSIZ) ''assert'') (\<lambda>_.
          kbind (mk_ialloc T_FILE st) (\<lambda>(ino, st1).
          kbind (iappend rootino (enc_de ino s) st1) (\<lambda>st2.
          kfold (iappend ino) (takeWhile (\<lambda>b. b \<noteq> []) reads) st2)))))"

definition fix_root :: "u32 \<Rightarrow> mkst \<Rightarrow> mkst kres" where
  "fix_root rootino st =
     kbind (rinode rootino st) (\<lambda>din.
       let off = xint (dsize din); off = (off div of_nat BSIZE + 1) * of_nat BSIZE in
       winode rootino (din\<lparr>dsize := xint off\<rparr>) st)"

definition mkfs_main :: "byte list list \<Rightarrow> (byte list \<Rightarrow> byte list list option) \<Rightarrow> mkst kres" where
  "mkfs_main argv host =
     (if length argv < 2 then die ''Usage: mkfs fs.img files...''
      else
        let st0 = \<lparr>img = \<lambda>_ _. 0, nsect = 0, freeinode = 1, freeblock = of_nat nmeta\<rparr> in
        kbind (kfold (\<lambda>i. wsect (of_nat i) (\<lambda>_. 0)) [0..<FSSIZE] st0) (\<lambda>st1.
        kbind (wsect 1 sb_buf st1) (\<lambda>st2.
        kbind (mk_ialloc T_DIR st2) (\<lambda>(rootino, st3).
        kbind (kassert (rootino = ROOTINO) ''assert'') (\<lambda>_.
        kbind (iappend rootino (enc_de rootino (str ''.'')) st3) (\<lambda>st4.
        kbind (iappend rootino (enc_de rootino (str ''..'')) st4) (\<lambda>st5.
        kbind (kfold (copy_file host rootino) (drop 2 argv) st5) (\<lambda>st6.
        kbind (fix_root rootino st6) (\<lambda>st7.
        mk_balloc (unat (freeblock st7)) st7)))))))))"

end
