(* ===== verification/MkfsSpec.thy ===== *)
theory MkfsSpec
  imports Mkfs
begin

unbundle bit_operations_syntax

text \<open>
  The image that \<^verbatim>\<open>mkfs\<close> builds: appending to a file adds exactly the bytes given, in blocks no other file has, and leaves every other
  file alone; from this the contents of the whole image follow.
\<close>

section \<open>Integers, sectors and inodes\<close>

lemma unat_byte_of: "unat (ucast (drop_bit k x) :: byte) = unat x div 2 ^ k mod 256" for x :: "'a::len word"
proof -
  have "unat (drop_bit k x) = unat x div 2 ^ k" by (subst unsigned_drop_bit_eq) (simp add: drop_bit_eq_div take_bit_eq_mod mod_less [OF unsigned_less])
  then show ?thesis by (simp only: unsigned_ucast_eq take_bit_eq_mod) simp
qed

lemma le_bytes_2: "le_bytes 2 v = [of_nat v, of_nat (v div 256)]"
proof -
  have n: "2 = Suc (Suc 0)" by simp
  show ?thesis by (subst n) simp
qed

lemma le_bytes_4: "le_bytes 4 v = [of_nat v, of_nat (v div 256), of_nat (v div 65536), of_nat (v div 16777216)]"
proof -
  have n: "4 = Suc (Suc (Suc (Suc 0)))" by simp
  have "v div 65536 = v div 256 div 256" "v div 16777216 = v div 256 div 256 div 256" by (simp_all flip: div_mult2_eq)
  then show ?thesis by (subst n) simp
qed

lemma xint_id [simp]: "xint x = x"
proof -
  have "le_nat [ucast x, ucast (drop_bit 8 x), ucast (drop_bit 16 x), ucast (drop_bit 24 x)] = le_nat (le_bytes 4 (unat x))"
    using unat_byte_of [of 0 x] unat_byte_of [of 8 x] unat_byte_of [of 16 x] unat_byte_of [of 24 x]
    unfolding le_bytes_4 by (simp add: unat_of_nat_byte)
  then show ?thesis unfolding xint_def by (simp add: le_word_32)
qed

lemma xshort_id [simp]: "xshort x = x"
proof -
  have "le_nat [ucast x, ucast (drop_bit 8 x)] = le_nat (le_bytes 2 (unat x))"
    using unat_byte_of [of 0 x] unat_byte_of [of 8 x] unfolding le_bytes_2 by (simp add: unat_of_nat_byte)
  then show ?thesis unfolding xshort_def by (simp add: le_word_16)
qed

lemma sect_small: "unat sec < 4194304 \<Longrightarrow> sect sec = unat sec"
  by (simp add: sect_def unat_word_ariths)

lemma sect_of_nat: "n < 4194304 \<Longrightarrow> sect (of_nat n) = n"
  using sect_small [of "of_nat n"] by (simp add: unat_of_nat)

lemma peek_poke_part: "k + n \<le> length bs \<Longrightarrow> peek (poke (a::nat) bs m) (a + k) n = take n (drop k bs)"
  by (rule nth_equalityI) (auto simp: poke_nat)

lemma concat_part:
  assumes "\<And>x. x \<in> set xs \<Longrightarrow> length (f x) = n" and "j < length xs"
  shows "take n (drop (n * j) (concat (map f xs))) = f (xs ! j)"
  using assms
proof (induction xs arbitrary: j)
  case (Cons x xs)
  show ?case
  proof (cases j)
    case 0
    then show ?thesis using Cons.prems(1) [of x] by simp
  next
    case (Suc i)
    then show ?thesis using Cons.IH [of i] Cons.prems(1) [of x] Cons.prems by simp
  qed
qed simp

lemma length_enc_din: "length (daddrs d) = 13 \<Longrightarrow> length (enc_din d) = 64"
proof -
  have "length (concat (map (\<lambda>a. le_bytes 4 (unat (a :: u32))) xs)) = 4 * length xs" for xs by (induction xs) auto
  then show "length (daddrs d) = 13 \<Longrightarrow> length (enc_din d) = 64" by (simp add: enc_din_def)
qed

lemma dec_enc_din:
  assumes "length (daddrs d) = 13"
  shows "dec_din (poke off (enc_din d) b) off = d"
proof -
  let ?m = "poke off (enc_din d) b"
  note l = length_enc_din [OF assms]
  have p: "peek ?m (off + k) n = take n (drop k (enc_din d))" if "k + n \<le> 64" for k n
    by (rule peek_poke_part) (use that l in simp)
  have "ld32 ?m (off + 12 + 4 * k) = daddrs d ! k" if "k < 13" for k
  proof -
    have "take 4 (drop (12 + 4 * k) (enc_din d)) = take 4 (drop (4 * k) (concat (map (\<lambda>a. le_bytes 4 (unat a)) (daddrs d))))"
      by (simp add: enc_din_def)
    also have "\<dots> = le_bytes 4 (unat (daddrs d ! k))" by (rule concat_part) (use that assms in auto)
    finally show ?thesis using p [of "12 + 4 * k" 4] that by (simp add: ld32_def add.assoc le_word_32)
  qed
  then have "map (\<lambda>k. ld32 ?m (off + 12 + 4 * k)) [0..<13] = daddrs d"
    using assms by (intro nth_equalityI) simp_all
  moreover have "ld16 ?m off = dtype d" "ld16 ?m (off + 2) = dmajor d" "ld16 ?m (off + 4) = dminor d" "ld16 ?m (off + 6) = dnlink d"
    "ld32 ?m (off + 8) = dsize d"
    using p [of 0 2] p [of 2 2] p [of 4 2] p [of 6 2] p [of 8 4]
    by (simp_all add: ld16_def ld32_def enc_din_def le_word_16 le_word_32)
  ultimately show ?thesis unfolding dec_din_def by simp
qed

lemma dec_din_cong: "(\<And>k. k < 64 \<Longrightarrow> b (off + k) = b' (off + k)) \<Longrightarrow> dec_din b off = dec_din b' off"
proof -
  assume e: "\<And>k. k < 64 \<Longrightarrow> b (off + k) = b' (off + k)"
  have p: "peek b (off + k) n = peek b' (off + k) n" if "k + n \<le> 64" for k n
    by (rule nth_equalityI) (use e that in \<open>auto simp: add.assoc\<close>)
  have "ld32 b (off + 12 + 4 * k) = ld32 b' (off + 12 + 4 * k)" if "k < 13" for k
    using p [of "12 + 4 * k" 4] that by (simp add: ld32_def add.assoc)
  then show ?thesis
    unfolding dec_din_def using p [of 0 2] p [of 2 2] p [of 4 2] p [of 6 2] p [of 8 4] by (simp add: ld16_def ld32_def)
qed

definition din_at :: "mkst \<Rightarrow> nat \<Rightarrow> dinode" where
  "din_at st i = dec_din (img st (i div 16 + 33)) (i mod 16 * 64)"

lemma inode_place:
  assumes "i < 208"
  shows "sect (iblock (of_nat i)) = i div 16 + 33" "dinode_off (of_nat i) = i mod 16 * 64"
proof -
  have u: "unat (of_nat i :: u32) = i" using assms by (simp add: unat_of_nat)
  then have "unat (iblock (of_nat i)) = i div 16 + 33"
    using assms by (simp add: iblock_def mksb_def unat_word_ariths unat_div)
  moreover have "i div 16 + 33 < 4194304" using assms by simp
  ultimately show "sect (iblock (of_nat i)) = i div 16 + 33" by (simp add: sect_small)
  show "dinode_off (of_nat i) = i mod 16 * 64" using u by (simp add: dinode_off_def)
qed

lemma rinode_ok: "i < 208 \<Longrightarrow> 46 \<le> nsect st \<Longrightarrow> rinode (of_nat i) st = Inr (din_at st i)"
proof -
  assume a: "i < 208" "46 \<le> nsect st"
  then have "i div 16 + 33 < nsect st" by auto
  then show ?thesis using a(1) by (simp add: rinode_def rsect_def inode_place din_at_def)
qed

lemma winode_ok:
  assumes "i < 208" and "46 \<le> nsect st" and "length (daddrs d) = 13"
  obtains im where "winode (of_nat i) d st = Inr (st\<lparr>img := im\<rparr>)" "din_at (st\<lparr>img := im\<rparr>) i = d"
    "\<forall>j. j \<noteq> i \<longrightarrow> din_at (st\<lparr>img := im\<rparr>) j = din_at st j" "\<forall>b. b < 33 \<or> 46 \<le> b \<longrightarrow> im b = img st b"
proof -
  let ?b = "i div 16 + 33"
  let ?im = "(img st)(?b := poke (i mod 16 * 64) (enc_din d) (img st ?b))"
  have b: "?b < nsect st" "?b < 46" using assms(1,2) by auto
  then have "winode (of_nat i) d st = Inr (st\<lparr>img := ?im\<rparr>)"
    using assms(1) by (simp add: winode_def rsect_def wsect_def inode_place max_def)
  moreover have "din_at (st\<lparr>img := ?im\<rparr>) i = d" using dec_enc_din [OF assms(3)] by (simp add: din_at_def)
  moreover have "din_at (st\<lparr>img := ?im\<rparr>) j = din_at st j" if "j \<noteq> i" for j
  proof (cases "j div 16 = i div 16")
    case True
    then have "j mod 16 \<noteq> i mod 16" using that by (metis div_mult_mod_eq)
    then have "j mod 16 * 64 + 64 \<le> i mod 16 * 64 \<or> i mod 16 * 64 + 64 \<le> j mod 16 * 64" by auto
    then show ?thesis
      unfolding din_at_def using True length_enc_din [OF assms(3)] by (intro dec_din_cong) (auto simp: poke_nat)
  qed (simp add: din_at_def)
  ultimately show thesis using b(2) by (intro that [of ?im]) auto
qed

section \<open>Files\<close>

text \<open>
  \<open>maps im d bs ind\<close>: the blocks of the inode are \<open>bs\<close>, those from the thirteenth on listed in block \<open>ind\<close>.
  \<open>stores im bs c\<close>: the blocks hold the bytes \<open>c\<close>, and zeros in the rest of the last one.
\<close>

definition maps :: "(nat \<Rightarrow> block) \<Rightarrow> dinode \<Rightarrow> nat list \<Rightarrow> nat option \<Rightarrow> bool" where
  "maps im d bs ind \<longleftrightarrow>
     length (daddrs d) = 13 \<and> length bs \<le> MAXFILE \<and> (ind = None \<longleftrightarrow> length bs \<le> 12) \<and>
     (\<forall>k < 12. daddrs d ! k = (if k < length bs then of_nat (bs ! k) else 0)) \<and>
     daddrs d ! 12 = (case ind of None \<Rightarrow> 0 | Some b \<Rightarrow> of_nat b) \<and>
     (\<forall>b. ind = Some b \<longrightarrow> (\<forall>k < 256. ld32 (im b) (4 * k) = (if 12 + k < length bs then of_nat (bs ! (12 + k)) else 0)))"

definition nblk :: "nat \<Rightarrow> nat" where
  "nblk n = (n + 1023) div 1024"

definition stores :: "(nat \<Rightarrow> block) \<Rightarrow> nat list \<Rightarrow> byte list \<Rightarrow> bool" where
  "stores im bs c \<longleftrightarrow> length bs = nblk (length c) \<and>
     (\<forall>i < 1024 * length bs. im (bs ! (i div 1024)) (i mod 1024) = (if i < length c then c ! i else 0))"

definition owns :: "nat list \<Rightarrow> nat option \<Rightarrow> nat list" where
  "owns bs ind = bs @ (case ind of None \<Rightarrow> [] | Some b \<Rightarrow> [b])"

lemma owns_simps: "set (owns bs None) = set bs" "set (owns bs (Some b)) = insert b (set bs)"
  "distinct (owns bs None) = distinct bs" "distinct (owns bs (Some b)) = (distinct bs \<and> b \<notin> set bs)"
  by (auto simp: owns_def)

text \<open>The blocks a file of \<open>n\<close> bytes takes, with the indirect block.\<close>

definition takes :: "nat \<Rightarrow> nat" where
  "takes n = (if nblk n \<le> 12 then nblk n else nblk n + 1)"

text \<open>The image while one file is being written: its blocks are below \<open>freeblock\<close>, and everything from there on is still zero.\<close>

definition clean :: "mkst \<Rightarrow> bool" where
  "clean st \<longleftrightarrow> nsect st = 2000 \<and> 47 \<le> unat (freeblock st) \<and> unat (freeblock st) \<le> 2000 \<and>
     (\<forall>b \<ge> unat (freeblock st). img st b = (\<lambda>_. 0))"

definition own_ok :: "mkst \<Rightarrow> nat list \<Rightarrow> nat option \<Rightarrow> bool" where
  "own_ok st bs ind \<longleftrightarrow> distinct (owns bs ind) \<and> set (owns bs ind) \<subseteq> {47..<unat (freeblock st)}"

lemma freeblock_inc:
  assumes "clean st" and "unat (freeblock st) < 2000"
  shows "unat (freeblock st + 1) = unat (freeblock st) + 1" "sect (freeblock st) = unat (freeblock st)" "of_nat (unat (freeblock st)) = freeblock st"
    "freeblock st \<noteq> 0"
  using assms by (auto simp: clean_def unat_word_ariths sect_small unat_eq_0)

lemma ld32_zero: "ld32 (\<lambda>_. 0) a = 0"
proof -
  have "peek (\<lambda>_. 0) a 4 = replicate 4 0" by (rule nth_equalityI) simp_all
  then show ?thesis unfolding ld32_def by (simp only: le_nat_replicate_0) simp
qed

lemma addr_nonzero:
  assumes "own_ok st bs ind" and "clean st" and "b \<in> set (owns bs ind)"
  shows "of_nat b \<noteq> (0 :: u32)" "sect (of_nat b) = b" "b < 2000" "47 \<le> b"
proof -
  show b: "b < 2000" "47 \<le> b" using assms unfolding own_ok_def clean_def by auto
  then show "sect (of_nat b) = b" by (intro sect_of_nat) simp
  have "unat (of_nat b :: u32) = b" using b by (simp add: unat_of_nat)
  then show "of_nat b \<noteq> (0 :: u32)" using b(2) by (metis not_numeral_le_zero unat_0)
qed

section \<open>Finding the block to write\<close>

text \<open>One or more blocks have been added to the file; nothing outside it has changed.\<close>

definition grown ::
  "mkst \<Rightarrow> dinode \<Rightarrow> nat list \<Rightarrow> nat option \<Rightarrow> mkst \<Rightarrow> dinode \<Rightarrow> nat list \<Rightarrow> nat option \<Rightarrow> bool" where
  "grown st d bs ind st1 d1 bs1 ind1 \<longleftrightarrow>
     maps (img st1) d1 bs1 ind1 \<and> own_ok st1 bs1 ind1 \<and> clean st1 \<and> unat (freeblock st) \<le> unat (freeblock st1) \<and>
     freeinode st1 = freeinode st \<and> d1 = d\<lparr>daddrs := daddrs d1\<rparr> \<and>
     set (owns bs ind) \<subseteq> set (owns bs1 ind1) \<and>
     set (owns bs1 ind1) \<subseteq> set (owns bs ind) \<union> {unat (freeblock st)..<unat (freeblock st1)} \<and>
     (\<forall>b. b \<notin> set (owns bs1 ind1) \<longrightarrow> img st1 b = img st b)"

lemma grown_trans:
  assumes "grown st d bs ind st1 d1 bs1 ind1" and "grown st1 d1 bs1 ind1 st2 d2 bs2 ind2"
  shows "grown st d bs ind st2 d2 bs2 ind2"
proof -
  note a = assms(1) [unfolded grown_def] and b = assms(2) [unfolded grown_def]
  have "d2 = d\<lparr>daddrs := daddrs d2\<rparr>"
    using a b by (metis dinode.surjective dinode.update_convs(6))
  moreover have "img st2 x = img st x" if "x \<notin> set (owns bs2 ind2)" for x using a b that by (metis subsetD)
  moreover have "set (owns bs2 ind2) \<subseteq> set (owns bs ind) \<union> {unat (freeblock st)..<unat (freeblock st2)}"
    using a b by fastforce
  ultimately show ?thesis unfolding grown_def using a b by auto
qed

lemma data_block_old:
  assumes m: "maps (img st) d bs ind" and o: "own_ok st bs ind" and c: "clean st" and f: "fbn < length bs"
  shows "data_block fbn d st = Inr (of_nat (bs ! fbn), d, st)"
proof -
  have b: "bs ! fbn \<in> set (owns bs ind)" using f by (simp add: owns_def)
  note nz = addr_nonzero [OF o c b]
  show ?thesis
  proof (cases "fbn < 12")
    case True
    then have "daddrs d ! fbn = of_nat (bs ! fbn)" using m f unfolding maps_def by simp
    then show ?thesis using True nz(1) by (simp add: data_block_def use_addr_def)
  next
    case False
    then obtain i where i: "ind = Some i" "daddrs d ! 12 = of_nat i" using m f unfolding maps_def by (cases ind) auto
    have i2: "of_nat i \<noteq> (0 :: u32)" "sect (of_nat i) = i" "i < 2000"
      by (rule addr_nonzero [OF o c], simp add: i(1) owns_def)+
    have "fbn - 12 < 256" "12 + (fbn - 12) = fbn" using m f False unfolding maps_def by auto
    then have "ld32 (img st i) (4 * (fbn - 12)) = of_nat (bs ! fbn)" using m i(1) f unfolding maps_def by auto
    then show ?thesis using False i(2) i2 nz(1) c by (simp add: data_block_def use_addr_def rsect_def clean_def Let_def)
  qed
qed

lemma data_block_direct:
  assumes m: "maps (img st) d bs ind" and o: "own_ok st bs ind" and c: "clean st" and f: "length bs < 12" "unat (freeblock st) < 2000"
  defines "fb \<equiv> unat (freeblock st)"
  shows "\<exists>d1 st1. data_block (length bs) d st = Inr (of_nat fb, d1, st1) \<and> grown st d bs ind st1 d1 (bs @ [fb]) ind \<and>
    unat (freeblock st1) = fb + 1 \<and> img st1 = img st"
proof -
  note F = freeblock_inc [OF c f(2), folded fb_def]
  let ?d1 = "d\<lparr>daddrs := (daddrs d)[length bs := freeblock st]\<rparr>" and ?st1 = "st\<lparr>freeblock := freeblock st + 1\<rparr>"
  have a: "daddrs d ! length bs = 0" "length (daddrs d) = 13" "ind = None" using m f(1) unfolding maps_def by auto
  then have "data_block (length bs) d st = Inr (of_nat fb, ?d1, ?st1)" using f(1) F(3) by (simp add: data_block_def use_addr_def)
  moreover have "maps (img ?st1) ?d1 (bs @ [fb]) ind"
    unfolding maps_def using m f(1) a F(3) by (auto simp: maps_def nth_list_update nth_append)
  moreover have "own_ok ?st1 (bs @ [fb]) ind" "clean ?st1"
    using o c F(1) a(3) f(2) unfolding own_ok_def clean_def fb_def by (auto simp: owns_simps)
  ultimately show ?thesis unfolding grown_def using F(1) a(3) by (auto simp: owns_simps fb_def intro!: exI)
qed

text \<open>The entries of an indirect block, before and after one more is stored.\<close>

definition entries :: "block \<Rightarrow> nat list \<Rightarrow> bool" where
  "entries b bs \<longleftrightarrow> (\<forall>k < 256. ld32 b (4 * k) = (if 12 + k < length bs then of_nat (bs ! (12 + k)) else 0))"

lemma entries_snoc:
  assumes "entries b bs" and "12 \<le> length bs" and "length bs < 268"
  shows "entries (st32 (4 * (length bs - 12)) (of_nat v) b) (bs @ [v])"
  unfolding entries_def
proof (intro allI impI)
  fix k :: nat
  assume k: "k < 256"
  show "ld32 (st32 (4 * (length bs - 12)) (of_nat v) b) (4 * k) =
    (if 12 + k < length (bs @ [v]) then of_nat ((bs @ [v]) ! (12 + k)) else 0)"
  proof (cases "k = length bs - 12")
    case True
    then have "12 + k = length bs" using assms(2) by simp
    then show ?thesis using True by simp
  next
    case False
    then have "ld32 (st32 (4 * (length bs - 12)) (of_nat v) b) (4 * k) = ld32 b (4 * k)"
      by (intro ld32_st32_other_nat) auto
    then show ?thesis using assms(1,2) k False by (auto simp: entries_def nth_append)
  qed
qed

lemma maps_entries:
  "maps im d bs (Some i) \<longleftrightarrow> length (daddrs d) = 13 \<and> length bs \<le> 268 \<and> 12 < length bs \<and>
     (\<forall>k < 12. daddrs d ! k = of_nat (bs ! k)) \<and> daddrs d ! 12 = of_nat i \<and> entries (im i) bs"
  unfolding maps_def entries_def by auto

lemma data_block_indirect:
  assumes m: "maps (img st) d bs (Some i)" and o: "own_ok st bs (Some i)" and c: "clean st"
    and f: "length bs < 268" "unat (freeblock st) < 2000"
  defines "fb \<equiv> unat (freeblock st)"
  shows "\<exists>st1. data_block (length bs) d st = Inr (of_nat fb, d, st1) \<and> grown st d bs (Some i) st1 d (bs @ [fb]) (Some i) \<and>
    unat (freeblock st1) = fb + 1 \<and> (\<forall>b. b \<noteq> i \<longrightarrow> img st1 b = img st b)"
proof -
  note F = freeblock_inc [OF c f(2), folded fb_def]
  let ?k = "length bs - 12"
  let ?im = "(img st)(i := st32 (4 * ?k) (of_nat fb) (img st i))"
  let ?st1 = "st\<lparr>img := ?im, freeblock := freeblock st + 1\<rparr>"
  have i: "of_nat i \<noteq> (0 :: u32)" "sect (of_nat i) = i" "i < 2000" "47 \<le> i"
    by (rule addr_nonzero [OF o c], simp add: owns_def)+
  have M: "12 < length bs" "daddrs d ! 12 = of_nat i" "entries (img st i) bs" using m unfolding maps_entries by auto
  have "?k < 256" using f(1) M(1) by simp
  then have "ld32 (img st i) (4 * ?k) = 0" using M(1,3) unfolding entries_def by (simp add: less_diff_conv2)
  then have "data_block (length bs) d st = Inr (of_nat fb, d, ?st1)"
    using M(1,2) i(1-3) c F(3) by (simp add: data_block_def use_addr_def rsect_def wsect_def clean_def Let_def max_def)
  moreover have "maps (img ?st1) d (bs @ [fb]) (Some i)"
    using m entries_snoc [OF M(3), of fb] M(1) f(1) unfolding maps_entries by (auto simp: nth_append)
  moreover have "own_ok ?st1 (bs @ [fb]) (Some i)" "clean ?st1"
    using o c F(1) f(2) unfolding own_ok_def clean_def fb_def by (auto simp: owns_simps)
  ultimately show ?thesis unfolding grown_def using F(1) by (auto simp: owns_simps fb_def intro!: exI)
qed

lemma data_block_first_indirect:
  assumes m: "maps (img st) d bs None" and o: "own_ok st bs None" and c: "clean st"
    and f: "length bs = 12" "unat (freeblock st) + 1 < 2000"
  defines "fb \<equiv> unat (freeblock st)"
  shows "\<exists>d1 st1. data_block 12 d st = Inr (of_nat (fb + 1), d1, st1) \<and> grown st d bs None st1 d1 (bs @ [fb + 1]) (Some fb) \<and>
    unat (freeblock st1) = fb + 2 \<and> (\<forall>b. b \<noteq> fb \<longrightarrow> img st1 b = img st b)"
proof -
  have f2: "unat (freeblock st) < 2000" using f(2) by simp
  note F = freeblock_inc [OF c f2, folded fb_def]
  let ?st0 = "st\<lparr>freeblock := freeblock st + 1\<rparr>"
  let ?d1 = "d\<lparr>daddrs := (daddrs d)[12 := freeblock st]\<rparr>"
  let ?im = "(img st)(fb := st32 0 (of_nat (fb + 1)) (\<lambda>_. 0))"
  let ?st1 = "st\<lparr>img := ?im, freeblock := freeblock st + 1 + 1\<rparr>"
  have c0: "clean ?st0" "unat (freeblock ?st0) < 2000" using c F(1) f(2) by (auto simp: clean_def fb_def)
  have G: "unat (freeblock st + 1 + 1) = fb + 2" "of_nat (fb + 1) = freeblock st + 1"
    using freeblock_inc(1,3) [OF c0] F(1) by auto
  have a: "daddrs d ! 12 = 0" "length (daddrs d) = 13" "\<forall>k < 12. daddrs d ! k = of_nat (bs ! k)" using m f(1) unfolding maps_def by auto
  have z: "img st fb = (\<lambda>_. 0)" "fb < nsect st" using c f2 unfolding clean_def fb_def by auto
  have "data_block 12 d st = Inr (of_nat (fb + 1), ?d1, ?st1)"
    unfolding G(2) using a(1,2) F(2) z by (simp add: data_block_def use_addr_def rsect_def wsect_def ld32_zero Let_def max_def)
  moreover have "entries (\<lambda>_. 0) bs" using f(1) by (simp add: entries_def ld32_zero)
  then have "maps (img ?st1) ?d1 (bs @ [fb + 1]) (Some fb)"
    using entries_snoc [of "\<lambda>_. 0" bs "fb + 1"] f(1) a F(3) unfolding maps_entries by (auto simp: nth_append nth_list_update)
  moreover have "own_ok ?st1 (bs @ [fb + 1]) (Some fb)" "clean ?st1"
    using o c G(1) f unfolding own_ok_def clean_def fb_def by (auto simp: owns_simps)
  ultimately show ?thesis unfolding grown_def using G(1) by (auto simp: owns_simps fb_def intro!: exI)
qed

lemma data_block_new:
  assumes m: "maps (img st) d bs ind" and o: "own_ok st bs ind" and c: "clean st"
    and f: "length bs < 268" "unat (freeblock st) + (if length bs = 12 then 2 else 1) \<le> 2000"
  obtains new ind1 d1 st1 where "data_block (length bs) d st = Inr (of_nat new, d1, st1)" "grown st d bs ind st1 d1 (bs @ [new]) ind1" "unat (freeblock st) \<le> new"
    "unat (freeblock st1) = unat (freeblock st) + (if length bs = 12 then 2 else 1)" "\<forall>b \<in> set (bs @ [new]). img st1 b = img st b"
proof -
  have nodata: "i \<notin> set bs1" if "grown st d bs ind0 st1 d1 bs1 (Some i)" for ind0 st1 d1 bs1 i
    using that by (simp add: grown_def own_ok_def owns_simps)
  consider "length bs < 12" | "length bs = 12" "ind = None" | i where "ind = Some i" "length bs \<noteq> 12"
    using m unfolding maps_def by (cases ind; cases "length bs < 12"; auto)
  then show thesis
  proof cases
    case 1
    have fb: "unat (freeblock st) < 2000" using f(2) by (auto split: if_splits)
    obtain d1 st1 where "data_block (length bs) d st = Inr (of_nat (unat (freeblock st)), d1, st1)"
      "grown st d bs ind st1 d1 (bs @ [unat (freeblock st)]) ind" "unat (freeblock st1) = unat (freeblock st) + 1" "img st1 = img st"
      using data_block_direct [OF m o c 1 fb] by blast
    then show thesis using that [of "unat (freeblock st)" d1 st1 ind] 1 by simp
  next
    case 2
    obtain d1 st1 where r: "data_block 12 d st = Inr (of_nat (unat (freeblock st) + 1), d1, st1)"
      "grown st d bs None st1 d1 (bs @ [unat (freeblock st) + 1]) (Some (unat (freeblock st)))" "unat (freeblock st1) = unat (freeblock st) + 2"
      "\<forall>b. b \<noteq> unat (freeblock st) \<longrightarrow> img st1 b = img st b"
      using data_block_first_indirect [of st d bs] m o c f 2 by auto
    have "unat (freeblock st) \<notin> set (bs @ [unat (freeblock st) + 1])" using r(2) by (simp add: grown_def own_ok_def owns_simps)
    then have "\<forall>b \<in> set (bs @ [unat (freeblock st) + 1]). img st1 b = img st b" using r(4) by metis
    then show thesis using that [of "unat (freeblock st) + 1" d1 st1 "Some (unat (freeblock st))"] r 2 by simp
  next
    case 3
    obtain st1 where r: "data_block (length bs) d st = Inr (of_nat (unat (freeblock st)), d, st1)"
      "grown st d bs (Some i) st1 d (bs @ [unat (freeblock st)]) (Some i)" "unat (freeblock st1) = unat (freeblock st) + 1"
      "\<forall>b. b \<noteq> i \<longrightarrow> img st1 b = img st b"
      using data_block_indirect [of st d bs i] m o c f 3 by auto
    have "i \<notin> set (bs @ [unat (freeblock st)])" using nodata [OF r(2)] by simp
    then have "\<forall>b \<in> set (bs @ [unat (freeblock st)]). img st1 b = img st b" using r(4) by metis
    then show thesis using that [of "unat (freeblock st)" d st1 "Some i"] r 3 by simp
  qed
qed

section \<open>Appending\<close>

lemma nblk_qr: "r < 1024 \<Longrightarrow> nblk (1024 * q + r) = (if r = 0 then q else q + 1)"
proof -
  assume "r < 1024"
  then have "(r + 1023) div 1024 = (if r = 0 then 0 else 1)" by (auto intro!: div_nat_eqI)
  moreover have "(1024 * q + r + 1023) div 1024 = q + (r + 1023) div 1024" by (simp add: add.assoc)
  ultimately show ?thesis unfolding nblk_def by simp
qed

lemma nblk_part: "nblk k = (if k mod 1024 = 0 then k div 1024 else k div 1024 + 1)"
  using nblk_qr [of "k mod 1024" "k div 1024"] by simp

lemma nblk_step:
  assumes "0 < n" and "n \<le> 1024 - k mod 1024"
  shows "nblk (k + n) = k div 1024 + 1"
proof -
  have k: "k + n = 1024 * (k div 1024) + (k mod 1024 + n)" by simp
  show ?thesis
  proof (cases "k mod 1024 + n = 1024")
    case True
    then have "k + n = 1024 * (k div 1024 + 1) + 0" using k by simp
    then show ?thesis using nblk_qr [of 0 "k div 1024 + 1"] by simp
  next
    case False
    then have "k mod 1024 + n < 1024" using assms(2) by simp
    then show ?thesis using nblk_qr [of "k mod 1024 + n" "k div 1024"] assms(1) unfolding k [symmetric] by simp
  qed
qed

lemma grown_refl: "maps (img st) d bs ind \<Longrightarrow> own_ok st bs ind \<Longrightarrow> clean st \<Longrightarrow> grown st d bs ind st d bs ind"
  by (auto simp: grown_def)

lemma nblk_ge: "n \<le> 1024 * nblk n"
proof -
  define q r where "q = n div 1024" and "r = n mod 1024"
  have n: "n = 1024 * q + r" "r < 1024" by (simp_all add: q_def r_def)
  show ?thesis using nblk_qr [OF n(2), of q] n(2) unfolding n(1) by simp
qed

lemma find_block:
  assumes m: "maps (img st) d bs ind" and o: "own_ok st bs ind" and c: "clean st" and s: "stores (img st) bs c"
    and n: "0 < n" "n \<le> 1024 - length c mod 1024" "length c + n \<le> 268 * 1024"
    and room: "unat (freeblock st) + takes (length c + n) \<le> 2000 + takes (length c)"
  obtains x ind1 d1 st1 bs1 where "data_block (length c div 1024) d st = Inr (of_nat x, d1, st1)" "grown st d bs ind st1 d1 bs1 ind1"
    "length bs1 = nblk (length c + n)" "bs1 ! (length c div 1024) = x"
    "unat (freeblock st1) + takes (length c) = unat (freeblock st) + takes (length c + n)"
    "\<forall>i < 1024 * length bs1. img st1 (bs1 ! (i div 1024)) (i mod 1024) = (if i < length c then c ! i else 0)"
proof -
  have l: "length bs = nblk (length c)" and st: "\<forall>i < 1024 * length bs. img st (bs ! (i div 1024)) (i mod 1024) = (if i < length c then c ! i else 0)"
    using s by (auto simp: stores_def)
  note step = nblk_step [OF n(1,2)]
  show thesis
  proof (cases "length c mod 1024 = 0")
    case False
    then have b: "length c div 1024 < length bs" "length bs = nblk (length c + n)" using l step nblk_part [of "length c"] by auto
    then have "takes (length c + n) = takes (length c)" using l by (simp add: takes_def)
    then show thesis using that [OF data_block_old [OF m o c b(1)] grown_refl [OF m o c] b(2) refl] st by simp
  next
    case True
    then have b: "length c div 1024 = length bs" "nblk (length c + n) = length bs + 1" using l step nblk_part [of "length c"] by auto
    have t: "takes (length c + n) = takes (length c) + (if length bs = 12 then 2 else 1)"
      unfolding takes_def b(2) l [symmetric] by auto
    have "nblk (length c + n) \<le> nblk (268 * 1024)" unfolding nblk_def using n(3) by (intro div_le_mono) simp
    then have 268: "length bs < 268" unfolding b(2) by (simp add: nblk_def)
    have rm: "unat (freeblock st) + (if length bs = 12 then 2 else 1) \<le> 2000" using room unfolding t by simp
    obtain x ind1 d1 st1 where r: "data_block (length bs) d st = Inr (of_nat x, d1, st1)" "grown st d bs ind st1 d1 (bs @ [x]) ind1"
      "unat (freeblock st) \<le> x" "unat (freeblock st1) = unat (freeblock st) + (if length bs = 12 then 2 else 1)" "\<forall>b \<in> set (bs @ [x]). img st1 b = img st b"
      by (rule data_block_new [OF m o c 268 rm])
    have x0: "img st x = (\<lambda>_. 0)" using c r(3) by (simp add: clean_def)
    have cl: "length c = 1024 * length bs" using b(1) True by (metis mult_div_mod_eq add.right_neutral)
    have "img st1 ((bs @ [x]) ! (i div 1024)) (i mod 1024) = (if i < length c then c ! i else 0)" if i: "i < 1024 * length (bs @ [x])" for i
    proof (cases "i < 1024 * length bs")
      case True
      then have "i div 1024 < length bs" by (intro less_mult_imp_div_less) (simp add: mult.commute)
      then show ?thesis using st True r(5) by (simp add: nth_append)
    next
      case False
      then have "i div 1024 = length bs" using i by (intro div_nat_eqI) auto
      then show ?thesis using False cl r(5) x0 by (simp add: nth_append)
    qed
    then show thesis using that [of x d1 st1 "bs @ [x]" ind1] r b t by simp
  qed
qed

lemma same_block:
  assumes "k mod 1024 + j < (1024 :: nat)"
  shows "(k + j) div 1024 = k div 1024" "(k + j) mod 1024 = k mod 1024 + j"
proof -
  define q r where "q = k div 1024" and "r = k mod 1024"
  have k: "k = 1024 * q + r" by (simp add: q_def r_def)
  have r: "r + j < 1024" using assms by (simp add: r_def)
  have e: "k + j = 1024 * q + (r + j)" by (simp add: k)
  show "(k + j) div 1024 = k div 1024" unfolding e q_def [symmetric] using r by simp
  show "(k + j) mod 1024 = k mod 1024 + j" unfolding e r_def [symmetric] using r by simp
qed

lemma same_quotient:
  assumes "i div 1024 = k div (1024 :: nat)"
  shows "(i < k + m \<longleftrightarrow> i mod 1024 < k mod 1024 + m) \<and> (k \<le> i \<longrightarrow> i - k = i mod 1024 - k mod 1024)"
proof -
  define q r r1 where "q = k div 1024" and "r = k mod 1024" and "r1 = i mod 1024"
  have "k = 1024 * q + r" by (simp add: q_def r_def)
  moreover have "i = 1024 * q + r1" using assms by (simp add: q_def r1_def flip: assms)
  ultimately show ?thesis unfolding r_def [symmetric] r1_def [symmetric] by simp
qed

lemma rest_of_block: "(k div 1024 + 1) * 1024 - k = 1024 - k mod (1024 :: nat)"
proof -
  define q r where "q = k div 1024" and "r = k mod 1024"
  have k: "k = q * 1024 + r" by (simp add: q_def r_def)
  show ?thesis unfolding q_def [symmetric] r_def [symmetric] by (subst k) simp
qed

text \<open>Writing the next bytes of the file into its last block.\<close>

lemma write_block:
  assumes "length bs = nblk (length c + length q)" and "distinct bs" and q: "q \<noteq> []" "length q \<le> 1024 - length c mod 1024"
    and old: "\<forall>i < 1024 * length bs. im (bs ! (i div 1024)) (i mod 1024) = (if i < length c then c ! i else 0)"
  defines "x \<equiv> bs ! (length c div 1024)"
  shows "stores (im(x := poke (length c mod 1024) q (im x))) bs (c @ q)"
  unfolding stores_def
proof (intro conjI allI impI)
  have l: "length bs = length c div 1024 + 1" using assms(1) nblk_step [of "length q" "length c"] q by simp
  show "length bs = nblk (length (c @ q))" using assms(1) by simp
  fix i
  assume i: "i < 1024 * length bs"
  let ?im = "im(x := poke (length c mod 1024) q (im x))"
  have o: "im (bs ! (i div 1024)) (i mod 1024) = (if i < length c then c ! i else 0)" using old i by blast
  have ib: "i div 1024 < length bs" using i by (intro less_mult_imp_div_less) (simp add: mult.commute)
  show "?im (bs ! (i div 1024)) (i mod 1024) = (if i < length (c @ q) then (c @ q) ! i else 0)"
  proof (cases "i div 1024 = length c div 1024")
    case False
    then have "bs ! (i div 1024) \<noteq> x" unfolding x_def using assms(2) l ib by (simp add: nth_eq_iff_index_eq)
    moreover have "i div 1024 < length c div 1024" using False ib l by simp
    then have "i < length c" by (metis div_le_mono not_less)
    ultimately show ?thesis using o by (simp add: nth_append)
  next
    case True
    have e: "i < length c + k \<longleftrightarrow> i mod 1024 < length c mod 1024 + k" "length c \<le> i \<Longrightarrow> i - length c = i mod 1024 - length c mod 1024" for k
      using same_quotient [OF True] by blast+
    show ?thesis
    proof (cases "i < length c")
      case True
      then have "i mod 1024 < length c mod 1024" using e(1) [of 0] by simp
      then show ?thesis using True o \<open>i div 1024 = length c div 1024\<close> by (simp add: x_def poke_nat nth_append)
    next
      case False
      then have "length c mod 1024 \<le> i mod 1024" using e(1) [of 0] by simp
      then show ?thesis
        using False o \<open>i div 1024 = length c div 1024\<close> e(1) [of "length q"] e(2) by (auto simp: x_def poke_nat nth_append)
    qed
  qed
qed

lemma grown_write:
  assumes "grown st d bs ind st1 d1 bs1 ind1" and "x \<in> set bs1"
  shows "grown st d bs ind (st1\<lparr>img := (img st1)(x := b)\<rparr>) d1 bs1 ind1"
proof -
  note a = assms(1) [unfolded grown_def]
  have x: "x \<in> set (owns bs1 ind1)" using assms(2) by (simp add: owns_def)
  then have xf: "x < unat (freeblock st1)" using a unfolding own_ok_def by auto
  have "maps ((img st1)(x := b)) d1 bs1 ind1"
  proof (cases ind1)
    case (Some i)
    then have "i \<noteq> x" using a assms(2) unfolding own_ok_def by (auto simp: owns_simps)
    then show ?thesis using a Some unfolding maps_def by auto
  qed (use a in \<open>auto simp: maps_def\<close>)
  moreover have "clean (st1\<lparr>img := (img st1)(x := b)\<rparr>)" using a xf unfolding clean_def by auto
  ultimately show ?thesis using a x unfolding grown_def own_ok_def by auto
qed

lemma takes_mono: "a \<le> b \<Longrightarrow> takes a \<le> takes b"
proof -
  assume "a \<le> b"
  then have "nblk a \<le> nblk b" unfolding nblk_def by (intro div_le_mono) simp
  then show ?thesis unfolding takes_def by auto
qed

lemma append_step:
  assumes m: "maps (img st) d bs ind" and o: "own_ok st bs ind" and c: "clean st" and s: "stores (img st) bs c"
    and p: "p \<noteq> []" "length c + length p \<le> 268 * 1024" and room: "unat (freeblock st) + takes (length c + length p) \<le> 2000 + takes (length c)"
  defines "q \<equiv> take (1024 - length c mod 1024) p"
  obtains d1 st1 bs1 ind1 where "iappend_loop p (length c) d st = iappend_loop (drop (length q) p) (length (c @ q)) d1 st1"
    "grown st d bs ind st1 d1 bs1 ind1" "stores (img st1) bs1 (c @ q)"
    "unat (freeblock st1) + takes (length c) = unat (freeblock st) + takes (length (c @ q))"
proof -
  let ?f = "length c div 1024"
  have sub: "(?f + 1) * 1024 - length c = 1024 - length c mod 1024" by (rule rest_of_block)
  have q: "q \<noteq> []" "length q = min (length p) (1024 - length c mod 1024)" "q = take (length q) p" using p(1) by (auto simp: q_def min_def)
  have n: "0 < length q" "length q \<le> 1024 - length c mod 1024" "length c + length q \<le> 268 * 1024" using q p(2) by auto
  have "takes (length c + length q) \<le> takes (length c + length p)" by (rule takes_mono) (simp add: q_def)
  then have rm: "unat (freeblock st) + takes (length c + length q) \<le> 2000 + takes (length c)" using room by simp
  obtain x ind1 d1 st1 bs1 where r: "data_block ?f d st = Inr (of_nat x, d1, st1)" "grown st d bs ind st1 d1 bs1 ind1"
    "length bs1 = nblk (length c + length q)" "bs1 ! ?f = x"
    "unat (freeblock st1) + takes (length c) = unat (freeblock st) + takes (length c + length q)"
    "\<forall>i < 1024 * length bs1. img st1 (bs1 ! (i div 1024)) (i mod 1024) = (if i < length c then c ! i else 0)"
    by (rule find_block [OF m o c s n rm])
  have g: "own_ok st1 bs1 ind1" "clean st1" using r(2) by (auto simp: grown_def)
  have "?f < length bs1" using r(3) nblk_step [OF n(1,2)] by simp
  then have x: "x \<in> set bs1" using r(4) by auto
  then have X: "sect (of_nat x) = x" "x < 2000" using addr_nonzero [OF g, of x] by (auto simp: owns_def)
  have d: "distinct bs1" using g(1) by (simp add: own_ok_def owns_def)
  let ?st2 = "st1\<lparr>img := (img st1)(x := poke (length c mod 1024) q (img st1 x))\<rparr>"
  have "length c < 268 * 1024" using n(1,3) by linarith
  then have f268: "?f < 268" by (rule less_mult_imp_div_less)
  have off: "length c - ?f * 1024 = length c mod 1024" by (simp add: minus_div_mult_eq_mod)
  have n1: "min (length p) ((?f + 1) * 1024 - length c) = length q" unfolding sub q(2) ..
  have rs: "rsect (of_nat x) st1 = Inr (img st1 x)" "wsect (of_nat x) b st1 = Inr (st1\<lparr>img := (img st1)(x := b)\<rparr>)" for b
    using X g(2) by (simp_all add: rsect_def wsect_def clean_def max_def)
  have "iappend_loop p (length c) d st = iappend_loop (drop (length q) p) (length c + length q) d1 ?st2"
    unfolding iappend_loop.simps [of p "length c" d st] Let_def BSIZE_def n1 off q(3) [symmetric]
    using p(1) f268 r(1) rs by simp
  moreover have "stores (img ?st2) bs1 (c @ q)" using write_block [OF r(3) d q(1) n(2) r(6)] unfolding r(4) by simp
  ultimately show thesis using that [of d1 ?st2 bs1 ind1] grown_write [OF r(2) x] r(5) by simp
qed

lemma iappend_loop_ok:
  assumes "maps (img st) d bs ind" and "own_ok st bs ind" and "clean st" and "stores (img st) bs c"
    and "length c + length p \<le> 268 * 1024" and "unat (freeblock st) + takes (length c + length p) \<le> 2000 + takes (length c)"
  shows "\<exists>d1 st1 bs1 ind1. iappend_loop p (length c) d st = Inr (length (c @ p), d1, st1) \<and> grown st d bs ind st1 d1 bs1 ind1 \<and>
    stores (img st1) bs1 (c @ p) \<and> unat (freeblock st1) + takes (length c) = unat (freeblock st) + takes (length (c @ p))"
  using assms
proof (induction "length p" arbitrary: p c d st bs ind rule: less_induct)
  case less
  show ?case
  proof (cases "p = []")
    case True
    then show ?thesis using less.prems grown_refl by (auto simp: iappend_loop.simps intro!: exI)
  next
    case False
    define q where "q = take (1024 - length c mod 1024) p"
    obtain d1 st1 bs1 ind1 where r: "iappend_loop p (length c) d st = iappend_loop (drop (length q) p) (length (c @ q)) d1 st1"
      "grown st d bs ind st1 d1 bs1 ind1" "stores (img st1) bs1 (c @ q)"
      "unat (freeblock st1) + takes (length c) = unat (freeblock st) + takes (length (c @ q))"
      unfolding q_def by (rule append_step [OF less.prems(1-4) False less.prems(5,6)])
    let ?p = "drop (length q) p"
    have qp: "q @ ?p = p" "length (c @ q) + length ?p = length (c @ p)" "length ?p < length p"
      using False by (auto simp: q_def min_def)
    have g: "maps (img st1) d1 bs1 ind1" "own_ok st1 bs1 ind1" "clean st1" using r(2) by (auto simp: grown_def)
    have "unat (freeblock st1) + takes (length (c @ q) + length ?p) \<le> 2000 + takes (length (c @ q))"
      using less.prems(6) r(4) unfolding qp(2) by simp
    then obtain d2 st2 bs2 ind2 where s: "iappend_loop ?p (length (c @ q)) d1 st1 = Inr (length ((c @ q) @ ?p), d2, st2)"
      "grown st1 d1 bs1 ind1 st2 d2 bs2 ind2" "stores (img st2) bs2 ((c @ q) @ ?p)"
      "unat (freeblock st2) + takes (length (c @ q)) = unat (freeblock st1) + takes (length ((c @ q) @ ?p))"
      using less.hyps [OF qp(3) g r(3)] less.prems(5) unfolding qp(2) by auto
    have e: "(c @ q) @ ?p = c @ p" using qp(1) by simp
    show ?thesis using r s(1,3,4) grown_trans [OF r(2) s(2)] unfolding e by (intro exI [of _ d2] exI [of _ st2] exI [of _ bs2] exI [of _ ind2]) auto
  qed
qed

section \<open>The image\<close>

record lay =
  lc :: "byte list"
  lb :: "nat list"
  li :: "nat option"
  lt :: u16

definition blocks :: "lay \<Rightarrow> nat set" where
  "blocks l = set (owns (lb l) (li l))"

definition file_at :: "mkst \<Rightarrow> nat \<Rightarrow> lay \<Rightarrow> bool" where
  "file_at st i l \<longleftrightarrow> maps (img st) (din_at st i) (lb l) (li l) \<and> own_ok st (lb l) (li l) \<and> stores (img st) (lb l) (lc l) \<and>
     unat (dsize (din_at st i)) = length (lc l) \<and> dtype (din_at st i) = lt l \<and> dnlink (din_at st i) = 1"

text \<open>Inodes \<open>1\<close> to \<open>N\<close> are in use, laid out as \<open>L\<close> says; the blocks outside inodes and data are those of \<open>im0\<close>.\<close>

definition img_ok :: "mkst \<Rightarrow> nat \<Rightarrow> (nat \<Rightarrow> lay) \<Rightarrow> (nat \<Rightarrow> block) \<Rightarrow> bool" where
  "img_ok st N L im0 \<longleftrightarrow> clean st \<and> unat (freeinode st) = N + 1 \<and> (\<forall>i \<in> {1..N}. file_at st i (L i)) \<and>
     (\<forall>i \<in> {1..N}. \<forall>j \<in> {1..N}. i \<noteq> j \<longrightarrow> blocks (L i) \<inter> blocks (L j) = {}) \<and>
     unat (freeblock st) = 47 + (\<Sum>i\<in>{1..N}. takes (length (lc (L i)))) \<and> (\<forall>b. b < 33 \<or> b = 46 \<longrightarrow> img st b = im0 b)"

lemma file_at_cong:
  assumes "file_at st j l" and "din_at st1 j = din_at st j" and "\<And>b. b \<in> blocks l \<Longrightarrow> img st1 b = img st b"
    and "unat (freeblock st) \<le> unat (freeblock st1)"
  shows "file_at st1 j l"
proof -
  note a = assms(1) [unfolded file_at_def]
  have b: "img st1 x = img st x" if "x \<in> set (lb l) \<or> li l = Some x" for x
    using assms(3) [of x] that unfolding blocks_def by (auto simp: owns_def)
  have "maps (img st1) (din_at st1 j) (lb l) (li l)" using a b unfolding maps_def assms(2) by auto
  moreover have "own_ok st1 (lb l) (li l)" using a assms(4) unfolding own_ok_def by fastforce
  moreover have "stores (img st1) (lb l) (lc l)"
    using a b unfolding stores_def by (auto simp: less_mult_imp_div_less mult.commute)
  ultimately show ?thesis using a unfolding file_at_def assms(2) by auto
qed

end
