(* ===== verification/MkfsImage.thy ===== *)
theory MkfsImage
  imports MkfsSpec
begin

unbundle bit_operations_syntax

text \<open>
  The operations of \<^verbatim>\<open>mkfs\<close> on a whole image, and what is in the image at the end.
\<close>

section \<open>Operations on the image\<close>

lemma imageD:
  assumes "img_ok st N L im0"
  shows "clean st" "unat (freeinode st) = N + 1" "i \<in> {1..N} \<Longrightarrow> file_at st i (L i)"
    "i \<in> {1..N} \<Longrightarrow> j \<in> {1..N} \<Longrightarrow> i \<noteq> j \<Longrightarrow> blocks (L i) \<inter> blocks (L j) = {}"
    "unat (freeblock st) = 47 + (\<Sum>i\<in>{1..N}. takes (length (lc (L i))))" "b < 33 \<or> b = 46 \<Longrightarrow> img st b = im0 b"
  using assms unfolding img_ok_def by auto

lemma maps_same:
  assumes "maps im d bs ind" and "daddrs d1 = daddrs d" and "\<And>b. b \<in> set (owns bs ind) \<Longrightarrow> im1 b = im b"
  shows "maps im1 d1 bs ind"
  using assms unfolding maps_def by (auto simp: owns_def)

lemma stores_same:
  assumes "stores im bs c" and "\<And>b. b \<in> set bs \<Longrightarrow> im1 b = im b"
  shows "stores im1 bs c"
  using assms unfolding stores_def by (auto simp: less_mult_imp_div_less mult.commute)

lemma file_range: "file_at st i l \<Longrightarrow> b \<in> blocks l \<Longrightarrow> 47 \<le> b \<and> b < unat (freeblock st)"
  unfolding file_at_def own_ok_def blocks_def by auto

lemma file_blocks: "file_at st i l \<Longrightarrow> length (lb l) = nblk (length (lc l))"
  by (simp add: file_at_def stores_def)

lemma iappend_run:
  assumes f: "file_at st i l" and c: "clean st" and i: "i < 200" and len: "length (lc l) + length p \<le> 268 * 1024"
    and room: "unat (freeblock st) + takes (length (lc l) + length p) \<le> 2000 + takes (length (lc l))"
  obtains st1 l1 where "iappend (of_nat i) p st = Inr st1" "file_at st1 i l1" "lc l1 = lc l @ p" "lt l1 = lt l" "clean st1"
    "freeinode st1 = freeinode st" "unat (freeblock st) \<le> unat (freeblock st1)"
    "unat (freeblock st1) + takes (length (lc l)) = unat (freeblock st) + takes (length (lc l @ p))"
    "blocks l1 \<subseteq> blocks l \<union> {unat (freeblock st)..<unat (freeblock st1)}"
    "\<forall>j. j \<noteq> i \<longrightarrow> j < 200 \<longrightarrow> din_at st1 j = din_at st j" "\<forall>b. b \<notin> blocks l1 \<longrightarrow> b < 33 \<or> 46 \<le> b \<longrightarrow> img st1 b = img st b"
proof -
  let ?d = "din_at st i" and ?c = "lc l"
  note F = f [unfolded file_at_def]
  obtain d1 st1 bs1 ind1 where r: "iappend_loop p (length ?c) ?d st = Inr (length (?c @ p), d1, st1)" "grown st ?d (lb l) (li l) st1 d1 bs1 ind1"
    "stores (img st1) bs1 (?c @ p)" "unat (freeblock st1) + takes (length ?c) = unat (freeblock st) + takes (length (?c @ p))"
    using iappend_loop_ok [of st ?d "lb l" "li l" ?c p] F c len room by blast
  note G = r(2) [unfolded grown_def]
  let ?l1 = "\<lparr>lc = ?c @ p, lb = bs1, li = ind1, lt = lt l\<rparr>"
  define m where "m = length (?c @ p)"
  let ?d2 = "d1\<lparr>dsize := of_nat m\<rparr>"
  have n: "46 \<le> nsect st" "46 \<le> nsect st1" "i < 208" "length (daddrs ?d2) = 13" using c G i by (auto simp: clean_def maps_def)
  obtain im where w: "winode (of_nat i) ?d2 st1 = Inr (st1\<lparr>img := im\<rparr>)" "din_at (st1\<lparr>img := im\<rparr>) i = ?d2"
    "\<forall>j. j \<noteq> i \<longrightarrow> din_at (st1\<lparr>img := im\<rparr>) j = din_at st1 j" "\<forall>b. b < 33 \<or> 46 \<le> b \<longrightarrow> im b = img st1 b"
    by (rule winode_ok [OF n(3,2,4)])
  let ?st2 = "st1\<lparr>img := im\<rparr>"
  have own: "47 \<le> b \<and> b < unat (freeblock st1)" if "b \<in> set (owns bs1 ind1)" for b using G that unfolding own_ok_def by auto
  have keep: "im b = img st1 b" if "b \<in> set (owns bs1 ind1)" for b using own [OF that] w(4) by auto
  have "m < 4294967296" using len by (simp add: m_def)
  then have sz: "unat (of_nat m :: u32) = m" by (simp add: unat_of_nat)
  have "iappend (of_nat i) p st = Inr ?st2"
    unfolding iappend_def rinode_ok [OF n(3,1)] using F r(1) [folded m_def] w(1) by simp
  moreover have ty: "dtype d1 = dtype ?d" "dnlink d1 = dnlink ?d"
    using G by (metis dinode.select_convs(1) dinode.update_convs(6) dinode.surjective, metis dinode.select_convs(4) dinode.update_convs(6) dinode.surjective)
  moreover have "maps im ?d2 bs1 ind1" by (rule maps_same [of "img st1" d1]) (use G keep in auto)
  then have "file_at ?st2 i ?l1"
    unfolding file_at_def w(2)
    using G F stores_same [OF r(3), of im] keep sz ty by (auto simp: own_ok_def owns_def m_def)
  moreover have "clean ?st2" using G w(4) unfolding clean_def by auto
  moreover have "din_at ?st2 j = din_at st j" if j: "j \<noteq> i" "j < 200" for j
  proof -
    have "j div 16 + 33 \<notin> set (owns bs1 ind1)" using own [of "j div 16 + 33"] j(2) by auto
    then show ?thesis using w(3) j(1) G by (simp add: din_at_def)
  qed
  ultimately show thesis using that [of ?st2 ?l1] G r(4) w(4) by (simp add: blocks_def)
qed

lemma iappend_image:
  assumes I: "img_ok st N L im0" and i: "i \<in> {1..N}" "N < 200" and len: "length (lc (L i)) + length p \<le> 268 * 1024"
    and room: "unat (freeblock st) + takes (length (lc (L i)) + length p) \<le> 2000 + takes (length (lc (L i)))"
  obtains st1 l1 where "iappend (of_nat i) p st = Inr st1" "img_ok st1 N (L(i := l1)) im0" "lc l1 = lc (L i) @ p" "lt l1 = lt (L i)"
proof -
  note D = imageD [OF I]
  have i200: "i < 200" using i by simp
  obtain st1 l1 where a: "iappend (of_nat i) p st = Inr st1" "file_at st1 i l1" "lc l1 = lc (L i) @ p" "lt l1 = lt (L i)" "clean st1"
    "freeinode st1 = freeinode st" and fb: "unat (freeblock st) \<le> unat (freeblock st1)"
    "unat (freeblock st1) + takes (length (lc (L i))) = unat (freeblock st) + takes (length (lc (L i) @ p))"
    and own: "blocks l1 \<subseteq> blocks (L i) \<union> {unat (freeblock st)..<unat (freeblock st1)}"
    and din: "\<forall>j. j \<noteq> i \<longrightarrow> j < 200 \<longrightarrow> din_at st1 j = din_at st j" and im: "\<forall>b. b \<notin> blocks l1 \<longrightarrow> b < 33 \<or> 46 \<le> b \<longrightarrow> img st1 b = img st b"
    by (rule iappend_run [OF D(3) [OF i(1)] D(1) i200 len room])
  have dis: "blocks l1 \<inter> blocks (L j) = {}" if j: "j \<in> {1..N}" "j \<noteq> i" for j
    using own D(4) [OF i(1) j(1)] file_range [OF D(3) [OF j(1)]] j(2) by fastforce
  have fl: "file_at st1 j (L j)" if j: "j \<in> {1..N}" "j \<noteq> i" for j
  proof (rule file_at_cong [OF D(3) [OF j(1)]])
    show "din_at st1 j = din_at st j" using din j i(2) by auto
    show "img st1 b = img st b" if "b \<in> blocks (L j)" for b
      using im dis [OF j] that file_range [OF D(3) [OF j(1)] that] by auto
  qed (rule fb(1))
  have "(\<Sum>k\<in>{1..N}. takes (length (lc ((L(i := l1)) k)))) + takes (length (lc (L i))) =
      (\<Sum>k\<in>{1..N}. takes (length (lc (L k)))) + takes (length (lc l1))"
    using sum.remove [OF _ i(1), of "\<lambda>k. takes (length (lc ((L(i := l1)) k)))"] sum.remove [OF _ i(1), of "\<lambda>k. takes (length (lc (L k)))"]
    by simp
  then have tot: "unat (freeblock st1) = 47 + (\<Sum>k\<in>{1..N}. takes (length (lc ((L(i := l1)) k))))" using fb(2) D(5) a(3) by simp
  have "b \<notin> blocks l1" if "b < 33 \<or> b = 46" for b using that file_range [OF a(2), of b] by auto
  then have base: "img st1 b = im0 b" if "b < 33 \<or> b = 46" for b using that im D(6) [OF that] by auto
  have "img_ok st1 N (L(i := l1)) im0"
    unfolding img_ok_def using a(2,5,6) D(2,4) fl dis tot base by (auto simp: Int_commute)
  then show thesis using that a by blast
qed

lemma img_ok_freeblock:
  assumes "img_ok st N L im0" and "img_ok st1 N (L(i := l1)) im0" and "i \<in> {1..N}"
  shows "unat (freeblock st1) + takes (length (lc (L i))) = unat (freeblock st) + takes (length (lc l1))"
  using imageD(5) [OF assms(1)] imageD(5) [OF assms(2)]
    sum.remove [OF _ assms(3), of "\<lambda>k. takes (length (lc ((L(i := l1)) k)))"] sum.remove [OF _ assms(3), of "\<lambda>k. takes (length (lc (L k)))"]
  by simp

lemma iappend_chunks:
  assumes "img_ok st N L im0" and "i \<in> {1..N}" "N < 200" and "length (lc (L i)) + length (concat ps) \<le> 268 * 1024"
    and "unat (freeblock st) + takes (length (lc (L i)) + length (concat ps)) \<le> 2000 + takes (length (lc (L i)))"
  shows "\<exists>st1 l1. kfold (iappend (of_nat i)) ps st = Inr st1 \<and> img_ok st1 N (L(i := l1)) im0 \<and> lc l1 = lc (L i) @ concat ps \<and> lt l1 = lt (L i)"
  using assms
proof (induction ps arbitrary: st L)
  case Nil
  then show ?case by (intro exI [of _ st] exI [of _ "L i"]) simp
next
  case (Cons p ps)
  have "takes (length (lc (L i)) + length p) \<le> takes (length (lc (L i)) + length (concat (p # ps)))" by (rule takes_mono) simp
  then have room: "unat (freeblock st) + takes (length (lc (L i)) + length p) \<le> 2000 + takes (length (lc (L i)))" using Cons.prems(5) by simp
  have len: "length (lc (L i)) + length p \<le> 268 * 1024" using Cons.prems(4) by simp
  obtain st1 l1 where a: "iappend (of_nat i) p st = Inr st1" "img_ok st1 N (L(i := l1)) im0" "lc l1 = lc (L i) @ p" "lt l1 = lt (L i)"
    by (rule iappend_image [OF Cons.prems(1-3) len room])
  note img_ok_freeblock [OF Cons.prems(1) a(2) Cons.prems(2)]
  then have "\<exists>st2 l2. kfold (iappend (of_nat i)) ps st1 = Inr st2 \<and> img_ok st2 N ((L(i := l1))(i := l2)) im0 \<and>
      lc l2 = lc ((L(i := l1)) i) @ concat ps \<and> lt l2 = lt ((L(i := l1)) i)"
    using Cons.prems(2-5) a(3) by (intro Cons.IH [OF a(2)]) (auto simp: add.assoc)
  then obtain st2 l2 where "kfold (iappend (of_nat i)) ps st1 = Inr st2" "img_ok st2 N (L(i := l2)) im0" "lc l2 = lc l1 @ concat ps" "lt l2 = lt l1"
    by auto
  then show ?case using a by (intro exI [of _ st2] exI [of _ l2] conjI) (simp_all del: fun_upd_apply)
qed

lemma takes_0: "takes 0 = 0"
  by (simp add: takes_def nblk_def)

lemma ialloc_image:
  assumes I: "img_ok st N L im0" and N: "N + 1 < 200"
  obtains st1 where "mk_ialloc ty st = Inr (of_nat (N + 1), st1)" "freeblock st1 = freeblock st"
    "img_ok st1 (N + 1) (L(N + 1 := \<lparr>lc = [], lb = [], li = None, lt = ty\<rparr>)) im0"
proof -
  note D = imageD [OF I]
  let ?l = "\<lparr>lc = [], lb = [], li = None, lt = ty\<rparr>" and ?st0 = "st\<lparr>freeinode := freeinode st + 1\<rparr>"
  let ?d = "\<lparr>dtype = ty, dmajor = 0, dminor = 0, dnlink = 1, dsize = 0, daddrs = replicate 13 0\<rparr>"
  have fi: "freeinode st = of_nat (N + 1)" using D(2) [symmetric] by simp
  have fi1: "unat (freeinode st + 1) = N + 1 + 1" using D(2) N by (simp add: unat_word_ariths)
  have n: "N + 1 < 208" "46 \<le> nsect ?st0" "length (daddrs ?d) = 13" using N D(1) by (auto simp: clean_def)
  obtain im where w: "winode (of_nat (N + 1)) ?d ?st0 = Inr (?st0\<lparr>img := im\<rparr>)" "din_at (?st0\<lparr>img := im\<rparr>) (N + 1) = ?d"
    "\<forall>j. j \<noteq> N + 1 \<longrightarrow> din_at (?st0\<lparr>img := im\<rparr>) j = din_at ?st0 j" "\<forall>b. b < 33 \<or> 46 \<le> b \<longrightarrow> im b = img ?st0 b"
    by (rule winode_ok [OF n])
  let ?st1 = "?st0\<lparr>img := im\<rparr>"
  have "mk_ialloc ty st = Inr (of_nat (N + 1), ?st1)" using w(1) unfolding fi [symmetric] by (simp add: mk_ialloc_def fi eval_nat_numeral)
  moreover have "file_at ?st1 (N + 1) ?l"
    unfolding file_at_def w(2) by (simp add: maps_def own_ok_def owns_def stores_def nblk_def nth_append)
  moreover have "file_at ?st1 j (L j)" if j: "j \<in> {1..N}" for j
  proof (rule file_at_cong [OF D(3) [OF j]])
    show "din_at ?st1 j = din_at st j" using w(3) j by (simp add: din_at_def)
    show "img ?st1 b = img st b" if "b \<in> blocks (L j)" for b using w(4) file_range [OF D(3) [OF j] that] by simp
  qed simp
  moreover have "clean ?st1" using D(1) w(4) by (auto simp: clean_def)
  moreover have ins: "{1..N + 1} = insert (N + 1) {1..N}" by auto
  moreover have "blocks ?l = {}" by (simp add: blocks_def owns_def)
  moreover have "(\<Sum>k\<in>{1..N + 1}. takes (length (lc ((L(N + 1 := ?l)) k)))) = (\<Sum>k\<in>{1..N}. takes (length (lc (L k))))"
  proof -
    have "(\<Sum>k\<in>{1..N}. takes (length (lc ((L(N + 1 := ?l)) k)))) = (\<Sum>k\<in>{1..N}. takes (length (lc (L k))))" by (rule sum.cong) auto
    then show ?thesis unfolding ins by (subst sum.insert) (simp_all add: takes_0)
  qed
  ultimately show thesis
    using that [of ?st1] D(4-6) w(4) fi1 unfolding img_ok_def by auto
qed

section \<open>The program\<close>

definition base_name :: "byte list \<Rightarrow> byte list" where
  "base_name path = (let s = shortname path in if char_at s 0 = chr CHR ''_'' then tl s else s)"

definition data_of :: "(byte list \<Rightarrow> byte list list option) \<Rightarrow> byte list \<Rightarrow> byte list" where
  "data_of host path = concat (takeWhile (\<lambda>b. b \<noteq> []) (the (host path)))"

definition root_bytes :: "byte list list \<Rightarrow> byte list" where
  "root_bytes fs = enc_de 1 (str ''.'') @ enc_de 1 (str ''..'') @ concat (map (\<lambda>k. enc_de (of_nat (k + 2)) (base_name (fs ! k))) [0..<length fs])"

text \<open>The arguments \<open>mkfs\<close> accepts: files that can be read, whose names fit a directory entry and whose contents fit an inode.\<close>

definition arg_ok :: "(byte list \<Rightarrow> byte list list option) \<Rightarrow> byte list \<Rightarrow> bool" where
  "arg_ok host path \<longleftrightarrow> chr CHR ''/'' \<notin> set (shortname path) \<and> host path \<noteq> None \<and> length (base_name path) \<le> DIRSIZ \<and>
     length (data_of host path) \<le> MAXFILE * BSIZE"

definition demand :: "(byte list \<Rightarrow> byte list list option) \<Rightarrow> byte list list \<Rightarrow> nat" where
  "demand host fs = takes (16 * (length fs + 2)) + (\<Sum>f\<leftarrow>fs. takes (length (data_of host f)))"

definition built :: "(byte list \<Rightarrow> byte list list option) \<Rightarrow> (nat \<Rightarrow> block) \<Rightarrow> byte list list \<Rightarrow> mkst \<Rightarrow> (nat \<Rightarrow> lay) \<Rightarrow> bool" where
  "built host im0 fs st L \<longleftrightarrow> img_ok st (length fs + 1) L im0 \<and> lc (L 1) = root_bytes fs \<and> lt (L 1) = T_DIR \<and>
     (\<forall>k < length fs. lc (L (k + 2)) = data_of host (fs ! k) \<and> lt (L (k + 2)) = T_FILE)"

lemma length_enc_de [simp]: "length (enc_de i s) = 16"
  by (simp add: enc_de_def)

lemma length_root_bytes: "length (root_bytes fs) = 16 * (length fs + 2)"
proof -
  have "length (concat (map (\<lambda>k. enc_de (f k) (g k)) ks)) = 16 * length ks" for f g and ks :: "nat list" by (induction ks) auto
  then show ?thesis by (simp add: root_bytes_def)
qed

lemma root_bytes_snoc: "root_bytes (fs @ [f]) = root_bytes fs @ enc_de (of_nat (length fs + 2)) (base_name f)"
proof -
  have "map (\<lambda>k. enc_de (of_nat (k + 2)) (base_name ((fs @ [f]) ! k))) [0..<length fs] =
      map (\<lambda>k. enc_de (of_nat (k + 2)) (base_name (fs ! k))) [0..<length fs]" by (rule map_cong) (auto simp: nth_append)
  note m = this
  show ?thesis unfolding root_bytes_def length_append list.size upt_Suc_append [OF le0] Nat.add_0_right Nat.add_Suc_right map_append m by simp
qed

lemma built_freeblock:
  assumes "built host im0 fs st L"
  shows "unat (freeblock st) = 47 + demand host fs"
proof -
  let ?f = "\<lambda>i. takes (length (lc (L i)))"
  have b: "\<forall>k < length fs. lc (L (k + 2)) = data_of host (fs ! k)" "lc (L 1) = root_bytes fs" using assms by (auto simp: built_def)
  have "{1..length fs + 1} = insert 1 ((\<lambda>k. k + 2) ` {..<length fs})"
  proof -
    have "x \<in> insert 1 ((\<lambda>k. k + 2) ` {..<length fs})" if "x \<in> {1..length fs + 1}" for x
    proof (cases "x = 1")
      case False
      then have "x = (x - 2) + 2" "x - 2 < length fs" using that by auto
      then show ?thesis by blast
    qed simp
    then have "{1..length fs + 1} \<subseteq> insert 1 ((\<lambda>k. k + 2) ` {..<length fs})" by (rule subsetI)
    moreover have "insert 1 ((\<lambda>k. k + 2) ` {..<length fs}) \<subseteq> {1..length fs + 1}" by auto
    ultimately show ?thesis by (rule equalityI)
  qed
  moreover have "(\<Sum>i\<in>(\<lambda>k. k + 2) ` {..<length fs}. ?f i) = (\<Sum>k<length fs. takes (length (data_of host (fs ! k))))"
    using b by (subst sum.reindex) (auto intro: sum.cong simp: inj_on_def)
  moreover have "1 \<notin> (\<lambda>k. k + 2) ` {..<length fs}" by auto
  ultimately have "(\<Sum>i\<in>{1..length fs + 1}. ?f i) = ?f 1 + (\<Sum>k<length fs. takes (length (data_of host (fs ! k))))"
    by (simp only: sum.insert finite_imageI finite_lessThan not_False_eq_True)
  then have "(\<Sum>i\<in>{1..length fs + 1}. ?f i) = demand host fs"
    using b(2) by (simp add: demand_def length_root_bytes sum_list_sum_nth atLeast0LessThan)
  then show ?thesis using assms imageD(5) [of st "length fs + 1" L im0] unfolding built_def by simp
qed

lemma copy_step:
  assumes B: "built host im0 fs st L" and ok: "arg_ok host f" and n: "length fs < 198" and room: "47 + demand host (fs @ [f]) \<le> 2000"
  shows "\<exists>st1 L1. copy_file host 1 f st = Inr st1 \<and> built host im0 (fs @ [f]) st1 L1"
proof -
  let ?n = "length fs + 2" and ?s = "base_name f"
  note b = B [unfolded built_def]
  obtain reads where h: "host f = Some reads" using ok by (auto simp: arg_ok_def)
  have d: "demand host (fs @ [f]) = takes (16 * (length fs + 3)) + (\<Sum>g\<leftarrow>fs. takes (length (data_of host g))) + takes (length (data_of host f))"
    by (simp add: demand_def add.commute)
  have fb: "unat (freeblock st) = 47 + demand host fs" by (rule built_freeblock [OF B])
  obtain st1 where a: "mk_ialloc T_FILE st = Inr (of_nat ?n, st1)" "freeblock st1 = freeblock st"
    "img_ok st1 ?n (L(?n := \<lparr>lc = [], lb = [], li = None, lt = T_FILE\<rparr>)) im0"
    using ialloc_image [of st "length fs + 1" L im0 T_FILE] b n by auto
  let ?L1 = "L(?n := \<lparr>lc = [], lb = [], li = None, lt = T_FILE\<rparr>)"
  have l1: "lc (?L1 1) = root_bytes fs" "length (lc (?L1 1)) = 16 * (length fs + 2)" using b length_root_bytes by auto
  have room1: "unat (freeblock st1) + takes (length (lc (?L1 1)) + length (enc_de (of_nat ?n) ?s)) \<le> 2000 + takes (length (lc (?L1 1)))"
    unfolding l1(2) a(2) fb using room d by (simp add: demand_def add.commute)
  have x: "1 \<in> {1..?n}" "?n < 200" "length (lc (?L1 1)) + length (enc_de (of_nat ?n) ?s) \<le> 268 * 1024" using n l1(2) by auto
  obtain st2 r1 where c: "iappend (of_nat 1) (enc_de (of_nat ?n) ?s) st1 = Inr st2" "img_ok st2 ?n (?L1(1 := r1)) im0"
    "lc r1 = lc (?L1 1) @ enc_de (of_nat ?n) ?s" "lt r1 = lt (?L1 1)"
    by (rule iappend_image [OF a(3) x room1])
  have r1: "lc r1 = root_bytes (fs @ [f])" "lt r1 = T_DIR" using c(3,4) l1(1) b unfolding root_bytes_snoc by simp_all
  let ?L2 = "?L1(1 := r1)"
  have fb2: "unat (freeblock st2) = 47 + takes (16 * (length fs + 3)) + (\<Sum>g\<leftarrow>fs. takes (length (data_of host g)))"
    using img_ok_freeblock [OF a(3) c(2) x(1)] a(2) fb l1(2) r1(1) length_root_bytes [of "fs @ [f]"] by (simp add: demand_def add.commute)
  have e: "lc (?L2 ?n) = []" by simp
  have "\<exists>st3 r2. kfold (iappend (of_nat ?n)) (takeWhile (\<lambda>b. b \<noteq> []) reads) st2 = Inr st3 \<and> img_ok st3 ?n (?L2(?n := r2)) im0 \<and>
      lc r2 = lc (?L2 ?n) @ data_of host f \<and> lt r2 = lt (?L2 ?n)"
    using iappend_chunks [OF c(2), of ?n "takeWhile (\<lambda>b. b \<noteq> []) reads"] n ok h fb2 room d unfolding e
    by (simp add: arg_ok_def data_of_def takes_0)
  then obtain st3 r2 where g: "kfold (iappend (of_nat ?n)) (takeWhile (\<lambda>b. b \<noteq> []) reads) st2 = Inr st3" "img_ok st3 ?n (?L2(?n := r2)) im0"
    "lc r2 = data_of host f" "lt r2 = T_FILE" using e by auto
  have "copy_file host 1 f st = Inr st3"
    using ok h a(1) c(1) g(1) by (simp add: copy_file_def arg_ok_def base_name_def Let_def)
  moreover have "built host im0 (fs @ [f]) st3 (?L2(?n := r2))"
    unfolding built_def
  proof (intro conjI allI impI)
    show "img_ok st3 (length (fs @ [f]) + 1) (?L2(?n := r2)) im0" using g(2) by simp
    show "lc ((?L2(?n := r2)) 1) = root_bytes (fs @ [f])" "lt ((?L2(?n := r2)) 1) = T_DIR" using r1 by simp_all
    fix k assume "k < length (fs @ [f])"
    then have k: "k = length fs \<or> k < length fs" by auto
    then show "lc ((?L2(?n := r2)) (k + 2)) = data_of host ((fs @ [f]) ! k)" "lt ((?L2(?n := r2)) (k + 2)) = T_FILE"
      using g(3,4) b by (auto simp: nth_append)
  qed
  ultimately show ?thesis by blast
qed

lemma copy_all:
  assumes "built host im0 [] st L" and "\<forall>f \<in> set fs. arg_ok host f" and "length fs \<le> 198" and "47 + demand host fs \<le> 2000"
  shows "\<exists>st1 L1. kfold (copy_file host 1) fs st = Inr st1 \<and> built host im0 fs st1 L1"
  using assms
proof (induction fs rule: rev_induct)
  case (snoc f fs)
  have "takes (16 * (length fs + 2)) \<le> takes (16 * (length fs + 3))" by (rule takes_mono) simp
  then have "47 + demand host fs \<le> 2000" using snoc.prems(4) by (simp add: demand_def add.commute)
  then obtain st1 L1 where "kfold (copy_file host 1) fs st = Inr st1" "built host im0 fs st1 L1" using snoc by auto
  then show ?case using copy_step [of host im0 fs st1 L1 f] snoc.prems by (auto simp: kfold_append)
qed auto

lemma zero_all:
  assumes "n \<le> 2000" and "img st = (\<lambda>_ _. 0)" and "nsect st = 0"
  shows "kfold (\<lambda>i. wsect (of_nat i) (\<lambda>_. 0)) [0..<n] st = Inr (st\<lparr>nsect := n\<rparr>)"
  using assms(1)
proof (induction n)
  case 0
  then show ?case using assms(3) by simp
next
  case (Suc n)
  have "st\<lparr>img := (\<lambda>_ _. 0)(n := \<lambda>_. 0), nsect := Suc n\<rparr> = st\<lparr>nsect := Suc n\<rparr>"
    by (rule mkst.equality) (use assms(2) in auto)
  then show ?case using Suc assms(2) by (simp add: kfold_append wsect_def sect_of_nat)
qed

text \<open>The image before any file is copied.\<close>

definition im_base :: "nat \<Rightarrow> block" where
  "im_base = (\<lambda>_ _. 0)(1 := sb_buf)"

lemma mkfs_start:
  obtains st L where "built host im_base [] st L"
    "mkfs_main (a # b # fs) host = kbind (kfold (copy_file host 1) fs st) (\<lambda>st6.
       kbind (fix_root 1 st6) (\<lambda>st7. mk_balloc (unat (freeblock st7)) st7))"
proof -
  let ?st0 = "\<lparr>img = \<lambda>_ _. 0, nsect = 0, freeinode = 1, freeblock = of_nat nmeta\<rparr> :: mkst"
  let ?st1 = "?st0\<lparr>nsect := FSSIZE\<rparr>"
  have z: "kfold (\<lambda>i. wsect (of_nat i) (\<lambda>_. 0)) [0..<FSSIZE] ?st0 = Inr ?st1" unfolding FSSIZE_def by (rule zero_all) simp_all
  have "sect 1 = 1" using sect_of_nat [of 1] by simp
  then have w: "wsect 1 sb_buf ?st1 = Inr (?st1\<lparr>img := im_base\<rparr>)" by (simp add: wsect_def im_base_def)
  let ?L0 = "\<lambda>_. \<lparr>lc = [], lb = [], li = None, lt = 0\<rparr> :: lay"
  have i0: "img_ok (?st1\<lparr>img := im_base\<rparr>) 0 ?L0 im_base" by (simp add: img_ok_def clean_def im_base_def)
  obtain st3 where a: "mk_ialloc T_DIR (?st1\<lparr>img := im_base\<rparr>) = Inr (of_nat (0 + 1), st3)" "freeblock st3 = freeblock (?st1\<lparr>img := im_base\<rparr>)"
    "img_ok st3 (0 + 1) (?L0(0 + 1 := \<lparr>lc = [], lb = [], li = None, lt = T_DIR\<rparr>)) im_base"
    by (rule ialloc_image [OF i0]) simp
  define L1 :: "nat \<Rightarrow> lay" where "L1 = ?L0(1 := \<lparr>lc = [], lb = [], li = None, lt = T_DIR\<rparr>)"
  have i3: "img_ok st3 1 L1 im_base" "lc (L1 1) = []" "lt (L1 1) = T_DIR" "unat (freeblock st3) = 47" using a(2,3) by (simp_all add: L1_def)
  let ?dot = "enc_de 1 (str ''.'')" and ?dots = "enc_de 1 (str ''..'')"
  have t16: "takes 16 = 1" "takes 32 = 1" by (simp_all add: takes_def nblk_def)
  have x: "1 \<in> {1..1 :: nat}" "1 < (200 :: nat)" by auto
  have r: "length (lc (L1 1)) + length ?dot \<le> 268 * 1024" "unat (freeblock st3) + takes (length (lc (L1 1)) + length ?dot) \<le> 2000 + takes (length (lc (L1 1)))"
    using i3 t16 by (simp_all add: takes_0)
  obtain st4 l1 where b: "iappend (of_nat 1) ?dot st3 = Inr st4" "img_ok st4 1 (L1(1 := l1)) im_base" "lc l1 = lc (L1 1) @ ?dot" "lt l1 = lt (L1 1)"
    by (rule iappend_image [OF i3(1) x r])
  have fb4: "unat (freeblock st4) = 48" using img_ok_freeblock [OF i3(1) b(2) x(1)] i3 b(3) t16 by (simp add: takes_0)
  let ?L2 = "L1(1 := l1)"
  have s: "length (lc (?L2 1)) + length ?dots \<le> 268 * 1024" "unat (freeblock st4) + takes (length (lc (?L2 1)) + length ?dots) \<le> 2000 + takes (length (lc (?L2 1)))"
    using i3 b(3) fb4 t16 by simp_all
  obtain st5 l2 where c: "iappend (of_nat 1) ?dots st4 = Inr st5" "img_ok st5 1 (?L2(1 := l2)) im_base" "lc l2 = lc (?L2 1) @ ?dots" "lt l2 = lt (?L2 1)"
    by (rule iappend_image [OF b(2) x s])
  have "built host im_base [] st5 (?L2(1 := l2))"
    unfolding built_def using c b i3 by (simp add: root_bytes_def)
  moreover have "mkfs_main (a # b # fs) host = kbind (kfold (copy_file host 1) fs st5) (\<lambda>st6.
       kbind (fix_root 1 st6) (\<lambda>st7. mk_balloc (unat (freeblock st7)) st7))" for a b fs
    unfolding mkfs_main_def Let_def z using w a(1) b(1) c(1) by (simp add: ROOTINO_def)
  ultimately show thesis using that by blast
qed

section \<open>What the kernel reads\<close>

text \<open>
  A reader of the image that follows the layout of the kernel's inodes, as \<open>readi\<close> and \<open>bmap\<close> do: the address of a block is in the
  inode or in its indirect block. It is a specification and changes nothing: where the address is zero it reads zeros, while \<open>bmap\<close>
  would allocate a block, which \<open>balloc\<close> clears. Only the last block of the root directory can be such a one.
\<close>

definition kaddr :: "mkst \<Rightarrow> dinode \<Rightarrow> nat \<Rightarrow> u32" where
  "kaddr st d n =
     (if n < NDIRECT then daddrs d ! n
      else if daddrs d ! NDIRECT = 0 then 0 else ld32 (img st (unat (daddrs d ! NDIRECT))) (4 * (n - NDIRECT)))"

definition kfile :: "mkst \<Rightarrow> nat \<Rightarrow> byte list" where
  "kfile st i =
     (let d = din_at st i in
      map (\<lambda>k. let a = kaddr st d (k div BSIZE) in if a = 0 then 0 else img st (unat a) (k mod BSIZE)) [0..<unat (dsize d)])"

lemma kaddr_eq:
  assumes m: "maps (img st) d bs ind" and o: "own_ok st bs ind" and c: "clean st" and n: "n < 268"
  shows "kaddr st d n = (if n < length bs then of_nat (bs ! n) else 0)"
proof (cases "n < 12")
  case True
  then show ?thesis using m unfolding maps_def kaddr_def by simp
next
  case False
  show ?thesis
  proof (cases ind)
    case None
    then show ?thesis using m False unfolding maps_def kaddr_def by auto
  next
    case (Some i)
    have i: "of_nat i \<noteq> (0 :: u32)" "i < 2000" by (rule addr_nonzero [OF o c], simp add: Some owns_def)+
    have "unat (of_nat i :: u32) = i" using i(2) by (simp add: unat_of_nat)
    moreover have "n - 12 < 256" "12 + (n - 12) = n" using False n by auto
    ultimately show ?thesis using m False i(1) Some unfolding maps_def kaddr_def by auto
  qed
qed

lemma next_block: "k \<le> (k div 1024 + 1) * (1024 :: nat)" "k div 1024 < n \<Longrightarrow> k < 1024 * n"
proof -
  define q r where "q = k div 1024" and "r = k mod 1024"
  have k: "k = 1024 * q + r" "r < 1024" by (simp_all add: q_def r_def)
  then show "k \<le> (k div 1024 + 1) * 1024" unfolding q_def [symmetric] by simp
  assume "k div 1024 < n"
  then have "q + 1 \<le> n" by (simp add: q_def)
  then have "1024 * (q + 1) \<le> 1024 * n" by (rule mult_le_mono2)
  then show "k < 1024 * n" using k by simp
qed

lemma kfile_eq:
  assumes m: "maps (img st) (din_at st i) bs ind" and o: "own_ok st bs ind" and c: "clean st" and s: "stores (img st) bs c"
    and z: "unat (dsize (din_at st i)) = length c + k" "length c + k \<le> 268 * 1024"
  shows "kfile st i = c @ replicate k 0"
proof (rule nth_equalityI)
  show "length (kfile st i) = length (c @ replicate k 0)" using z by (simp add: kfile_def Let_def)
  fix j assume "j < length (kfile st i)"
  then have j: "j < length c + k" using z by (simp add: kfile_def Let_def)
  have "j < 268 * 1024" using j z(2) by linarith
  then have j268: "j div 1024 < 268" by (rule less_mult_imp_div_less)
  note a = kaddr_eq [OF m o c j268]
  have l: "length c \<le> 1024 * length bs" using s nblk_ge [of "length c"] by (simp add: stores_def)
  show "kfile st i ! j = (c @ replicate k 0) ! j"
  proof (cases "j div 1024 < length bs")
    case True
    then have b: "bs ! (j div 1024) \<in> set (owns bs ind)" by (simp add: owns_def)
    note nz = addr_nonzero [OF o c b]
    have u: "unat (of_nat (bs ! (j div 1024)) :: u32) = bs ! (j div 1024)" using nz(3) by (simp add: unat_of_nat)
    have "j < 1024 * length bs" using True by (rule next_block)
    then have "img st (bs ! (j div 1024)) (j mod 1024) = (if j < length c then c ! j else 0)" using s by (simp add: stores_def)
    then show ?thesis using j z a True nz(1) u by (simp add: kfile_def Let_def nth_append)
  next
    case False
    have "length bs * 1024 \<le> j" using False by (metis div_times_less_eq_dividend le_trans mult_le_mono1 not_less)
    then have "\<not> j < length c" using l by simp
    then show ?thesis using j z a False by (simp add: kfile_def Let_def nth_append)
  qed
qed

text \<open>The bitmap.\<close>

lemma bit_free_bit: "bit_free d b \<longleftrightarrow> \<not> bit (d (b div 8)) (b mod 8)"
proof -
  have "push_bit (b mod 8) (1 :: byte) = 2 ^ (b mod 8)" by (simp add: push_bit_eq_mult)
  then show ?thesis unfolding bit_free_def bit_mask_def by (simp only: and_exp_eq_0_iff_not_bit)
qed

lemma bitmap_bits:
  "bit (fold (\<lambda>i buf. buf(i div 8 := buf (i div 8) OR push_bit (i mod 8) 1)) [0..<n] (\<lambda>_. 0 :: byte) (b div 8)) (b mod 8) \<longleftrightarrow> b < n"
proof (induction n)
  case (Suc n)
  have "b div 8 = n div 8 \<and> b mod 8 = n mod 8 \<longleftrightarrow> b = n" by (metis div_mult_mod_eq)
  moreover have "bit (push_bit (n mod 8) (1 :: byte)) (b mod 8) \<longleftrightarrow> b mod 8 = n mod 8"
    by (auto simp: push_bit_eq_mult bit_exp_iff)
  ultimately show ?case using Suc by (auto simp: bit_or_iff)
qed simp

lemma fix_and_mark:
  assumes B: "built host im0 fs st L" and n: "length fs \<le> 198"
  defines "m \<equiv> length (root_bytes fs)"
  obtains st1 where "kbind (fix_root 1 st) (\<lambda>st7. mk_balloc (unat (freeblock st7)) st7) = Inr st1" "clean st1" "freeblock st1 = freeblock st"
    "din_at st1 1 = (din_at st 1)\<lparr>dsize := of_nat ((m div 1024 + 1) * 1024)\<rparr>" "\<forall>j. 1 < j \<longrightarrow> j < 200 \<longrightarrow> din_at st1 j = din_at st j"
    "\<forall>b. b < 33 \<or> 47 \<le> b \<longrightarrow> img st1 b = img st b" "\<forall>b. bit_free (img st1 46) b \<longleftrightarrow> unat (freeblock st) \<le> b"
proof -
  note b = B [unfolded built_def]
  have I: "img_ok st (length fs + 1) L im0" using b by simp
  note D = imageD [OF I]
  have f1: "file_at st 1 (L 1)" using D(3) [of 1] by simp
  have m: "m \<le> 3200" "unat (dsize (din_at st 1)) = m" using f1 b n length_root_bytes [of fs] by (auto simp: file_at_def m_def)
  let ?d = "(din_at st 1)\<lparr>dsize := of_nat ((m div 1024 + 1) * 1024)\<rparr>"
  have ns: "46 \<le> nsect st" "nsect st = 2000" "(1 :: nat) < 208" "length (daddrs ?d) = 13" using D(1) f1 by (auto simp: clean_def file_at_def maps_def)
  obtain im where w: "winode (of_nat 1) ?d st = Inr (st\<lparr>img := im\<rparr>)" "din_at (st\<lparr>img := im\<rparr>) 1 = ?d"
    "\<forall>j. j \<noteq> 1 \<longrightarrow> din_at (st\<lparr>img := im\<rparr>) j = din_at st j" "\<forall>b. b < 33 \<or> 46 \<le> b \<longrightarrow> im b = img st b"
    by (rule winode_ok [OF ns(3,1,4)])
  have "dsize (din_at st 1) = of_nat m" using m(2) [symmetric] by simp
  moreover have "unat (of_nat m :: u32) = m" using m(1) by (simp add: unat_of_nat)
  then have "of_nat m div 1024 = (of_nat (m div 1024) :: u32)" by (simp add: word_arith_nat_div)
  ultimately have "fix_root 1 st = Inr (st\<lparr>img := im\<rparr>)"
    using w(1) rinode_ok [OF ns(3,1)] by (simp add: fix_root_def Let_def add.commute)
  moreover define bm where "bm = fold (\<lambda>i buf. buf(i div 8 := buf (i div 8) OR push_bit (i mod 8) 1)) [0..<unat (freeblock st)] (\<lambda>_. 0 :: byte)"
  have bits: "bit_free bm b \<longleftrightarrow> unat (freeblock st) \<le> b" for b unfolding bm_def bit_free_bit bitmap_bits by (simp only: not_less)
  let ?st1 = "st\<lparr>img := im(46 := bm)\<rparr>"
  have "sb_bmapstart mksb = of_nat 46" by (simp add: mksb_def)
  then have "sect (sb_bmapstart mksb) = 46" using sect_of_nat [of 46] by simp
  then have "mk_balloc (unat (freeblock st)) (st\<lparr>img := im\<rparr>) = Inr ?st1"
    using D(1) ns(2) by (simp add: mk_balloc_def wsect_def clean_def max_def bm_def)
  ultimately have "kbind (fix_root 1 st) (\<lambda>st7. mk_balloc (unat (freeblock st7)) st7) = Inr ?st1" by simp
  moreover have "clean ?st1" using D(1) w(4) by (auto simp: clean_def)
  moreover have "din_at ?st1 j = din_at (st\<lparr>img := im\<rparr>) j" if "j < 200" for j
  proof -
    have "j div 16 + 33 \<noteq> 46" using that by auto
    then show ?thesis by (simp add: din_at_def)
  qed
  ultimately show thesis using that [of ?st1] w bits by simp
qed

text \<open>The super block.\<close>

lemma sb_fields:
  assumes "j < 8"
  shows "ld32 sb_buf (4 * j) = [FSMAGIC, 2000, 1953, 200, 31, 2, 33, 46] ! j"
proof -
  let ?fs = "[sb_magic, sb_size, sb_nblocks, sb_ninodes, sb_nlog, sb_logstart, sb_inodestart, sb_bmapstart]"
  let ?c = "concat (map (\<lambda>f. le_bytes 4 (unat (f mksb))) ?fs)"
  have "peek sb_buf (0 + 4 * j) 4 = take 4 (drop (4 * j) ?c)"
    unfolding sb_buf_def by (rule peek_poke_part) (use assms in simp)
  also have "\<dots> = le_bytes 4 (unat ((?fs ! j) mksb))" by (rule concat_part) (use assms in auto)
  finally have "ld32 sb_buf (4 * j) = (?fs ! j) mksb" by (simp add: ld32_def le_word_32)
  moreover have "map (\<lambda>f. f mksb) ?fs = [FSMAGIC, 2000, 1953, 200, 31, 2, 33, 46]" by (simp add: mksb_def)
  moreover have "(?fs ! j) mksb = map (\<lambda>f. f mksb) ?fs ! j" by (rule nth_map [symmetric]) (use assms in simp)
  ultimately show ?thesis by (simp only:)
qed

lemma finished_file:
  assumes f: "file_at st i l" and c: "clean st1" and fb: "freeblock st1 = freeblock st" and im: "\<forall>b. b < 33 \<or> 47 \<le> b \<longrightarrow> img st1 b = img st b"
    and d: "daddrs (din_at st1 i) = daddrs (din_at st i)" and z: "unat (dsize (din_at st1 i)) = length (lc l) + k" "length (lc l) + k \<le> 268 * 1024"
  shows "kfile st1 i = lc l @ replicate k 0"
proof (rule kfile_eq [OF _ _ c _ z])
  have keep: "img st1 b = img st b" if "b \<in> set (owns (lb l) (li l))" for b
    using im file_range [OF f, of b] that by (simp add: blocks_def)
  show "maps (img st1) (din_at st1 i) (lb l) (li l)" by (rule maps_same [of "img st" "din_at st i"]) (use f keep d in \<open>auto simp: file_at_def\<close>)
  show "own_ok st1 (lb l) (li l)" using f fb by (simp add: file_at_def own_ok_def)
  show "stores (img st1) (lb l) (lc l)" by (rule stores_same [of "img st"]) (use f keep in \<open>auto simp: file_at_def owns_def\<close>)
qed

text \<open>
  C6. \<open>mkfs\<close> succeeds whenever the files can be read, their names and sizes fit, there are at most 198 of them and the blocks they need fit
  the image. In the image the kernel finds the super block of this layout and an empty log; inode 1 is a directory with \<open>.\<close>, \<open>..\<close> and one
  entry for each file, filled up with free entries; the inode of each entry is a file with one link and exactly the contents of
  the file copied; and the bitmap marks as used exactly the blocks in front of the first one not allocated.
\<close>

theorem mkfs_image:
  assumes "\<forall>f \<in> set fs. arg_ok host f" and "length fs \<le> 198" and "nmeta + demand host fs \<le> FSSIZE"
  shows "\<exists>st. mkfs_main (a # b # fs) host = Inr st \<and>
    (\<forall>j < 8. ld32 (img st 1) (4 * j) = [FSMAGIC, 2000, 1953, 200, 31, 2, 33, 46] ! j) \<and> ld32 (img st 2) 0 = 0 \<and>
    dtype (din_at st 1) = T_DIR \<and> kfile st 1 = root_bytes fs @ replicate (1024 - length (root_bytes fs) mod 1024) 0 \<and>
    (\<forall>k < length fs. dtype (din_at st (k + 2)) = T_FILE \<and> dnlink (din_at st (k + 2)) = 1 \<and> kfile st (k + 2) = data_of host (fs ! k)) \<and>
    (\<forall>n. bit_free (img st 46) n \<longleftrightarrow> nmeta + demand host fs \<le> n)"
proof (rule mkfs_start [of host a b fs])
  fix st0 L0
  assume b0: "built host im_base [] st0 L0" and run: "mkfs_main (a # b # fs) host = kbind (kfold (copy_file host 1) fs st0) (\<lambda>st6.
    kbind (fix_root 1 st6) (\<lambda>st7. mk_balloc (unat (freeblock st7)) st7))"
  obtain st L where c: "kfold (copy_file host 1) fs st0 = Inr st" "built host im_base fs st L"
    using copy_all [OF b0 assms(1,2)] assms(3) by auto
  note B = c(2) [unfolded built_def]
  have I: "img_ok st (length fs + 1) L im_base" using B by simp
  define m where "m = length (root_bytes fs)"
  have m: "m \<le> 3200" using assms(2) by (simp add: m_def length_root_bytes)
  obtain st1 where e: "kbind (fix_root 1 st) (\<lambda>st7. mk_balloc (unat (freeblock st7)) st7) = Inr st1" "clean st1" "freeblock st1 = freeblock st"
    "din_at st1 1 = (din_at st 1)\<lparr>dsize := of_nat ((m div 1024 + 1) * 1024)\<rparr>" "\<forall>j. 1 < j \<longrightarrow> j < 200 \<longrightarrow> din_at st1 j = din_at st j"
    "\<forall>b. b < 33 \<or> 47 \<le> b \<longrightarrow> img st1 b = img st b" "\<forall>b. bit_free (img st1 46) b \<longleftrightarrow> unat (freeblock st) \<le> b"
    unfolding m_def by (rule fix_and_mark [OF c(2) assms(2)])
  have f: "file_at st i (L i)" if "i \<in> {1..length fs + 1}" for i using imageD(3) [OF I that] .
  have len: "length (lc (L 1)) = m" "lc (L 1) = root_bytes fs" using B by (auto simp: m_def)
  have "(m div 1024 + 1) * 1024 < 4294967296" using m by simp
  then have "unat (dsize (din_at st1 1)) = (m div 1024 + 1) * 1024" unfolding e(4) by (simp add: unat_of_nat del: of_nat_mult of_nat_add)
  moreover have "m \<le> (m div 1024 + 1) * 1024" by (rule next_block)
  ultimately have sz: "unat (dsize (din_at st1 1)) = length (lc (L 1)) + (1024 - m mod 1024)" using rest_of_block [of m] len(1) by simp
  have root: "kfile st1 1 = root_bytes fs @ replicate (1024 - m mod 1024) 0"
    using finished_file [OF f e(2,3,6) _ sz] e(4) m len by simp
  have fl: "dtype (din_at st1 (k + 2)) = T_FILE \<and> dnlink (din_at st1 (k + 2)) = 1 \<and> kfile st1 (k + 2) = data_of host (fs ! k)" if k: "k < length fs" for k
  proof -
    have d: "din_at st1 (k + 2) = din_at st (k + 2)" using e(5) k assms(2) by simp
    have F: "file_at st (k + 2) (L (k + 2))" using f k by simp
    have "arg_ok host (fs ! k)" using assms(1) k by simp
    then have "length (lc (L (k + 2))) \<le> 268 * 1024" using B k by (simp add: arg_ok_def)
    then show ?thesis using finished_file [OF F e(2,3,6), of 0] F d B k by (simp add: file_at_def)
  qed
  have "img st1 1 = sb_buf" "img st1 2 = (\<lambda>_. 0)" using e(6) imageD(6) [OF I, of 1] imageD(6) [OF I, of 2] by (simp_all add: im_base_def)
  then show ?thesis
    using run c(1) e(1,4,7) root fl sb_fields built_freeblock [OF c(2)] f [of 1] B ld32_zero
    by (intro exI [of _ st1]) (simp add: file_at_def m_def)
qed

text \<open>An image with one file of three bytes.\<close>

definition demo_host :: "byte list \<Rightarrow> byte list list option" where
  "demo_host path = (if path = str ''user/_a'' then Some [[1, 2, 3]] else None)"

theorem mkfs_image_witness:
  "\<exists>st. mkfs_main [str ''mkfs'', str ''fs.img'', str ''user/_a''] demo_host = Inr st \<and> dtype (din_at st 2) = T_FILE \<and> kfile st 2 = [1, 2, 3]"
proof -
  have s: "shortname (str ''user/_a'') = str ''_a''" "base_name (str ''user/_a'') = str ''a''" by code_simp+
  have d: "data_of demo_host (str ''user/_a'') = [1, 2, 3]" by (simp add: data_of_def demo_host_def)
  have "arg_ok demo_host (str ''user/_a'')"
    unfolding arg_ok_def s d by (simp add: demo_host_def str_def chr_def of_char_def)
  moreover have "demand demo_host [str ''user/_a''] = 2" by (simp add: demand_def d takes_def nblk_def)
  ultimately show ?thesis using mkfs_image [of "[str ''user/_a'']" demo_host "str ''mkfs''" "str ''fs.img''"] d by (auto simp: numeral_2_eq_2)
qed

end
