(* ===== verification/Spec2Isabelle.thy ===== *)
theory Spec2Isabelle
  imports KvmSpec LogAdmit Trap Spinlock Grep UprogsSpec ShRunSpec PipeSpec ConsSpec VirtioSpec EafitosCwd UmallocAlloc MkfsImage
begin

text \<open>
  A verification library for EAFITos, a teaching kernel derived from xv6-riscv, and its user programs.

  \<^bold>\<open>The program.\<close> The kernel (\<^verbatim>\<open>src/kernel\<close>) runs user processes on RISC-V. A trap (\<^verbatim>\<open>trap.c\<close>) enters it from user
  code: a system call goes through \<^verbatim>\<open>syscall.c\<close> to a handler of \<^verbatim>\<open>sysproc.c\<close> or \<^verbatim>\<open>sysfile.c\<close>, a page fault to the
  lazy allocator of \<^verbatim>\<open>vm.c\<close> or to the region of \<^verbatim>\<open>mapzero\<close>, a device interrupt to the console or the disk.
  Handlers work on processes (\<^verbatim>\<open>proc.c\<close>), address spaces (\<^verbatim>\<open>vm.c\<close> over the page allocator \<^verbatim>\<open>kalloc.c\<close>) and files
  (\<^verbatim>\<open>file.c\<close>: pipes, devices, or inodes of \<^verbatim>\<open>fs.c\<close>, which change the disk through the redo log \<^verbatim>\<open>log.c\<close>, the
  buffer cache \<^verbatim>\<open>bio.c\<close> and the driver \<^verbatim>\<open>virtio_disk.c\<close>). User programs (\<^verbatim>\<open>src/user\<close>) see system calls only: \<^verbatim>\<open>init\<close> starts
  the shell \<^verbatim>\<open>sh\<close>, from which the EAFITos shell and the small tools run. \<^verbatim>\<open>mkfs\<close> builds the disk image on the host.

  \<^bold>\<open>State and results.\<close> The state is one extensible record, a layer per component: \<open>phys\<close> (physical memory and
  the free list, \<open>Kalloc\<close>), \<open>kern\<close> (process table, \<open>ProcBase\<close>), \<open>bio\<close>, \<open>logst\<close>, \<open>fsst\<close>, \<open>consst\<close>,
  \<open>filest\<close> and \<open>trapst\<close>. Page tables live in the bytes of physical memory, as in the code; entries of the fixed
  tables (processes, buffers, inodes, files) are named by their index. An operation returns \<open>'a kres\<close>, the sum
  of a \<open>stop\<close> (a panic with its message, a sleep on a channel, a loop that does not end) and a value.
  Machine integers are words of their width. A section under a spin lock is one atomic operation; what
  interleaving does below that grain is the subject of \<open>Spinlock\<close> and \<open>VirtioSpec\<close>. A call that sleeps returns
  the channel and how to continue, and \<open>resume_call\<close> (\<open>Syscall\<close>) runs that continuation after a wakeup.
  A user program is a function of the record \<open>os\<close> of the system calls it makes and of the world \<open>'w\<close> they act on (\<open>Ulib\<close>); its
  run gives a value, the end of the process by \<open>exit\<close> or \<open>exec\<close>, or nothing if it never ends. What a theorem needs of
  the system calls is a named predicate (\<open>stream_laws\<close>, \<open>fd_laws\<close>, \<open>serves\<close>), shown to hold for a concrete system.

  \<^bold>\<open>Theories, in the order of import.\<close>
  \<^item> \<open>KBase\<close>: words, results, little-endian loads and stores, shared rules. \<open>Riscv\<close>: constants of \<^verbatim>\<open>riscv.h\<close>,
    \<^verbatim>\<open>memlayout.h\<close>, \<^verbatim>\<open>param.h\<close>. \<open>Cstring\<close>: \<^verbatim>\<open>string.c\<close>, with the closed form of every routine (overlapping
    \<open>memmove\<close>, termination of \<open>safestrcpy\<close>).
  \<^item> \<open>Kalloc\<close>: \<^verbatim>\<open>kalloc.c\<close>; the free list never repeats a page, \<open>kinit\<close> frees exactly the memory above the kernel.
  \<^item> \<open>Vm\<close>: \<^verbatim>\<open>vm.c\<close>. \<open>VmInv\<close> has the invariant \<open>pt_inv\<close> (tables on distinct used pages), \<open>VmOps\<close>, \<open>VmFree\<close>,
    \<open>VmCopy\<close> what the operations do to the translation \<open>lookup\<close>, and \<open>VmSpec\<close> the contract: mapping and unmapping
    are exact, tearing down returns every page, \<open>copyin\<close> reads what \<open>copyout\<close> wrote, a lazy fault gives a zero page.
    \<open>KvmSpec\<close> composes \<open>kinit\<close> and \<open>kvmmake\<close>: at boot the kernel's table maps what it should and nothing else. It takes at most 102
    table pages and 64 stacks, so 167 free pages are enough.
  \<^item> \<open>Printf\<close>: \<^verbatim>\<open>kernel/printf.c\<close> and \<^verbatim>\<open>user/printf.c\<close>; printed numbers read back.
  \<^item> \<open>ProcBase\<close>, \<open>Proc\<close>: \<^verbatim>\<open>proc.c\<close>. \<open>Exec\<close>: \<^verbatim>\<open>exec.c\<close>. \<open>Spinlock\<close>: \<^verbatim>\<open>spinlock.c\<close> and the checks of \<open>sched\<close>, broken up
    at the atomic accesses, as a transition system of any number of CPUs with mutual exclusion.
  \<^item> \<open>Bio\<close>, \<open>BioInv\<close>, \<open>BioSpec\<close>: \<^verbatim>\<open>bio.c\<close>; the linked buffers are a least-recently-used list and \<open>bread\<close> returns
    the block. \<open>Log\<close>, \<open>LogInv\<close>, \<open>LogCommit\<close>, \<open>LogSpec\<close>: \<^verbatim>\<open>log.c\<close>; a commit cut by a crash at any write is all or nothing.
    \<open>LogAdmit\<close>: operations of many processes interleaved never overflow the log that \<open>begin_op\<close> reserves for them; a full
    log can be reached, and there every \<open>log_write\<close> panics. The loops over the log run for the count in its header, at most \<open>LOGBLOCKS\<close>.
  \<^item> \<open>Virtio\<close>, \<open>VirtioSpec\<close>: \<^verbatim>\<open>virtio_disk.c\<close> with the device as a parameter whose documented behaviour is the
    hypothesis \<open>device_ok\<close> (it serves posted requests, with status 0); each request acts once, as the atomic transfer that \<open>Bio\<close> uses.
  \<^item> \<open>Fs\<close>, \<open>FsDir\<close>: \<^verbatim>\<open>fs.c\<close>. \<open>Ring\<close>: the locale of ring buffers with free-running counters, interpreted on the pipe,
    the console and the two rings of the disk. \<open>Console\<close>, \<open>ConsSpec\<close>: \<^verbatim>\<open>console.c\<close>, \<^verbatim>\<open>uart.c\<close>; the interrupt
    handler is a line editor. \<open>File\<close>, \<open>PipeSpec\<close>: \<^verbatim>\<open>file.c\<close>, \<^verbatim>\<open>pipe.c\<close>; pipes are bounded byte queues and wake
    their readers.
  \<^item> \<open>Sysproc\<close>, \<open>Fcntl\<close>, \<open>Sysfile\<close>, \<open>Syscall\<close>: the handlers and the dispatcher. \<open>Trap\<close>: \<^verbatim>\<open>trap.c\<close>, \<^verbatim>\<open>plic.c\<close>.
  \<^item> \<open>Ulib\<close>: \<^verbatim>\<open>user/ulib.c\<close> and the output functions of \<^verbatim>\<open>user/printf.c\<close>. \<open>Umalloc\<close>, \<open>UmallocSpec\<close>, \<open>UmallocAlloc\<close>: \<^verbatim>\<open>user/umalloc.c\<close>;
    the circular list of free blocks stays sorted and coalesced, and \<open>malloc\<close> returns a fresh block unless no free one
    is large enough and \<open>sbrk\<close> refuses. Faults on memory that was not obtained are not modelled.
  \<^item> \<open>Ustream\<close>: reads in pieces of any size and writes that may fail. \<open>Grep\<close>: \<^verbatim>\<open>user/grep.c\<close>; the matcher decides the pattern's
    language and the program prints the matching lines. \<open>Uprogs\<close>, \<open>UprogsSpec\<close>: \<^verbatim>\<open>cat.c\<close>, \<^verbatim>\<open>echo.c\<close>, \<^verbatim>\<open>wc.c\<close>, \<^verbatim>\<open>kill.c\<close>, \<^verbatim>\<open>ln.c\<close>,
    \<^verbatim>\<open>mkdir.c\<close>, \<^verbatim>\<open>rm.c\<close>, \<^verbatim>\<open>ls.c\<close>, \<^verbatim>\<open>init.c\<close>; \<open>cat\<close> copies or reports, \<open>wc\<close> counts, \<open>init\<close> never ends.
  \<^item> \<open>Sh\<close>, \<open>ShSpec\<close>, \<open>ShPrint\<close>: the parser of \<^verbatim>\<open>user/sh.c\<close>; it ends on every line, its words are intact, and it reads back what
    a printer writes. \<open>ShRun\<close>, \<open>ShRunSpec\<close>: \<open>runcmd\<close> and the main loop; each process becomes the program that the command
    names, with the redirections and pipes it asks for, unless one of its system calls failed.
  \<^item> \<open>Eafitos\<close>, \<open>EafitosSpec\<close>, \<open>EafitosCwd\<close>: \<^verbatim>\<open>user/eafitos.c\<close>, the whole shell; its line parser, history, calculator, main loop,
    and the path of the current directory.
  \<^item> \<open>Mkfs\<close>, \<open>MkfsSpec\<close>, \<open>MkfsImage\<close>: \<^verbatim>\<open>mkfs/mkfs.c\<close>; a reader that follows the on-disk layout of the kernel's inodes
    and directories finds every file in the image.
  \<^item> \<open>Demo\<close>: a concrete kernel the witnesses use.

  \<^bold>\<open>Bounds.\<close> Loops that follow pointers in memory (\<open>freewalk\<close>, the lists of buffers and of free blocks) or wait for input are
  partial functions, with the value \<open>None\<close> for a run that does not end: that they end under the invariant is part of the
  theorems. The shell's parser carries the length of the line as its recursion bound, and \<open>sh_parser_total\<close> shows it is never used up.

  \<^bold>\<open>Not modelled.\<close> Assembly (\<^verbatim>\<open>entry.S\<close>, \<^verbatim>\<open>swtch.S\<close>, \<^verbatim>\<open>trampoline.S\<close>, \<^verbatim>\<open>kernelvec.S\<close>) and boot (\<^verbatim>\<open>start.c\<close>, the sequence of calls in \<^verbatim>\<open>main.c\<close>),
  which set machine registers; for the same reason the accessors of control registers in \<^verbatim>\<open>riscv.h\<close> and the functions that only
  program a device or a register (\<open>uartinit\<close>, \<open>consoleinit\<close>, \<open>plicinit\<close>, \<open>plicinithart\<close>, \<open>trapinithart\<close>, \<open>kvminithart\<close>).
  The stubs that \<^verbatim>\<open>usys.pl\<close> generates are the fields of \<open>os\<close>. The programs of \<^verbatim>\<open>src/user\<close> that test the kernel
  (\<^verbatim>\<open>usertests.c\<close>, \<^verbatim>\<open>grind.c\<close>, \<^verbatim>\<open>stressfs.c\<close>, \<^verbatim>\<open>t*.c\<close> and others) are no part of the system.
\<close>

end
